(* ===== verification/Prelude.thy ===== *)
theory Prelude
  imports Main "HOL-Library.Word" "HOL-Library.Multiset"
begin

text \<open>
  Shared vocabulary of the development of the LibU toolbox: the machine types, the faults a C
  operation can run into, checked accesses to memory blocks, and the return code conventions.

  \<^item> A memory block of known size is a list; a read or write of a range of it goes through
    \<open>slice\<close> and \<open>blit\<close>, which are the values of \<open>memcpy\<close> when the range lies inside the
    block and the fault \<open>Out_of_bounds\<close> when it does not.
  \<^item> An operation that can run into undefined behaviour returns a value of \<open>fault + 'a\<close>: \<open>Inl\<close>
    is a run with undefined behaviour, \<open>Inr\<close> a regular run with its result.
  \<^item> A return code \<open>0\<close> or \<open>~0\<close> of the source is the integer \<open>0\<close> or \<open>-1\<close>.
  \<^item> A pointer argument that the source compares with \<open>NULL\<close> is an option.
  \<^item> The outcome of an allocation is a boolean argument of the operation that allocates, so that
    both branches of every \<open>malloc\<close> check are part of the model.
\<close>

section \<open>Types\<close>

type_synonym byte = "8 word"
type_synonym size_t = "64 word"
type_synonym rc = int

datatype fault = Out_of_bounds | Null_deref | Uninitialised | Use_after_free | Bad_index | Div_by_zero | Int_overflow | Out_of_fuel

type_synonym 'a outcome = "fault + 'a"

abbreviation (input) rc_ok :: rc where "rc_ok \<equiv> 0"
abbreviation (input) rc_fail :: rc where "rc_fail \<equiv> - 1"

named_theorems outcome_simps \<open>rewriting of outcomes of checked operations\<close>
named_theorems cstr_simps \<open>facts on C strings and character classes\<close>
named_theorems block_simps \<open>facts on memory blocks\<close>

section \<open>Sequencing of outcomes\<close>

definition obind :: "'a outcome \<Rightarrow> ('a \<Rightarrow> 'b outcome) \<Rightarrow> 'b outcome" where
  "obind r f = (case r of Inl e \<Rightarrow> Inl e | Inr x \<Rightarrow> f x)"

lemma obind_Inl [simp]: "obind (Inl e) f = Inl e"
  by (simp add: obind_def)

lemma obind_Inr [simp]: "obind (Inr x) f = f x"
  by (simp add: obind_def)

lemma obind_eq_Inr [outcome_simps]:
  "obind r f = Inr y \<longleftrightarrow> (\<exists>x. r = Inr x \<and> f x = Inr y)"
  by (cases r) auto

lemma obind_cong [fundef_cong]:
  "r = r' \<Longrightarrow> (\<And>x. r' = Inr x \<Longrightarrow> f x = g x) \<Longrightarrow> obind r f = obind r' g"
  by (cases r') auto

section \<open>Memory blocks\<close>

definition slice :: "'a list \<Rightarrow> nat \<Rightarrow> nat \<Rightarrow> 'a list outcome" where
  "slice buf off n =
     (if off + n \<le> length buf then Inr (take n (drop off buf)) else Inl Out_of_bounds)"

definition blit :: "'a list \<Rightarrow> nat \<Rightarrow> 'a list \<Rightarrow> 'a list outcome" where
  "blit buf off xs =
     (if off + length xs \<le> length buf
      then Inr (take off buf @ xs @ drop (off + length xs) buf) else Inl Out_of_bounds)"

lemma slice_Inr [block_simps]:
  "off + n \<le> length buf \<Longrightarrow> slice buf off n = Inr (take n (drop off buf))"
  by (simp add: slice_def)

lemma blit_Inr [block_simps]:
  "off + length xs \<le> length buf \<Longrightarrow>
   blit buf off xs = Inr (take off buf @ xs @ drop (off + length xs) buf)"
  by (simp add: blit_def)

lemma blit_length: "blit buf off xs = Inr buf' \<Longrightarrow> length buf' = length buf"
  by (auto simp: blit_def split: if_splits)

lemma blit_nth:
  assumes "blit buf off xs = Inr buf'" and "i < length buf"
  shows "buf' ! i = (if off \<le> i \<and> i < off + length xs then xs ! (i - off) else buf ! i)"
  using assms by (auto simp: blit_def nth_append min_def split: if_splits)

lemma blit_take:
  "blit buf off xs = Inr buf' \<Longrightarrow> take (off + length xs) buf' = take off buf @ xs"
  by (auto simp: blit_def split: if_splits)

lemma blitE:
  assumes "off + length xs \<le> length buf"
  obtains buf' where "blit buf off xs = Inr buf'"
  using assms by (simp add: blit_def)

lemma blit_ok_iff: "(\<exists>buf'. blit buf off xs = Inr buf') \<longleftrightarrow> off + length xs \<le> length buf"
  by (simp add: blit_def)

section \<open>Subtraction in \<open>size_t\<close>\<close>

definition size_sub :: "nat \<Rightarrow> nat \<Rightarrow> nat" where
  "size_sub a b = unat (of_nat a - of_nat b :: size_t)"

lemma unat_size_t: "n < 2 ^ 64 \<Longrightarrow> unat (of_nat n :: size_t) = n"
  by (simp add: unsigned_of_nat take_bit_nat_eq_self)

lemma size_t_less:
  "a < 2 ^ 64 \<Longrightarrow> b < 2 ^ 64 \<Longrightarrow> (of_nat a :: size_t) < of_nat b \<longleftrightarrow> a < b"
  by (simp add: word_less_nat_alt unat_size_t)

lemma size_t_eq:
  "a < 2 ^ 64 \<Longrightarrow> b < 2 ^ 64 \<Longrightarrow> (of_nat a :: size_t) = of_nat b \<longleftrightarrow> a = b"
  by (metis unat_size_t)

lemma size_sub_le: "b \<le> a \<Longrightarrow> a < 2 ^ 64 \<Longrightarrow> size_sub a b = a - b"
  by (simp add: size_sub_def unat_size_t flip: of_nat_diff)

lemma size_sub_under:
  assumes "a < b" "b < 2 ^ 64"
  shows "size_sub a b = 2 ^ 64 - (b - a)"
proof -
  have "(of_nat a - of_nat b :: size_t) = of_nat (2 ^ 64 + a - b)"
    using assms by (simp add: of_nat_diff)
  then have "size_sub a b = unat (of_nat (2 ^ 64 + a - b) :: size_t)"
    by (simp only: size_sub_def)
  also have "\<dots> = 2 ^ 64 + a - b" by (rule unat_size_t) (use assms in linarith)
  finally show ?thesis using assms by simp
qed

section \<open>Lists\<close>

lemma take_eq_nthI:
  assumes "length xs = length ys" and "\<And>i. i < length xs \<Longrightarrow> xs ! i = ys ! i"
  shows "xs = ys"
  using assms by (rule nth_equalityI)

section \<open>Bytes\<close>

lemma byte_bitsI:
  fixes v w :: byte
  assumes "bit v 0 = bit w 0" "bit v (Suc 0) = bit w (Suc 0)" "bit v 2 = bit w 2" "bit v 3 = bit w 3"
    "bit v 4 = bit w 4" "bit v 5 = bit w 5" "bit v 6 = bit w 6" "bit v 7 = bit w 7"
  shows "v = w"
proof (rule bit_word_eqI)
  fix n assume "n < LENGTH(8)"
  then have "n = 0 \<or> n = Suc 0 \<or> n = 2 \<or> n = 3 \<or> n = 4 \<or> n = 5 \<or> n = 6 \<or> n = 7"
    by simp arith
  with assms show "bit v n = bit w n" by metis
qed

lemma byte_bit_ge [simp]: "8 \<le> n \<Longrightarrow> \<not> bit (w :: byte) n"
  by (auto dest: bit_imp_le_length)

lemma byte_lt_64: "\<not> bit w 6 \<Longrightarrow> \<not> bit w 7 \<Longrightarrow> unat (w :: byte) < 64"
proof -
  assume b: "\<not> bit w 6" "\<not> bit w 7"
  have "take_bit 6 w = w"
    by (rule byte_bitsI) (use b in \<open>simp_all add: bit_take_bit_iff\<close>)
  then have "unat w = take_bit 6 (unat w)" by (metis unsigned_take_bit_eq)
  moreover have "take_bit 6 (unat w) < 2 ^ 6" by (rule take_bit_nat_less_exp)
  ultimately show ?thesis by simp
qed

end
