(* ===== verification/B64.thy ===== *)
theory B64
  imports Prelude
begin

text \<open>
  The Base64 codec of \<open>srcs/toolbox/b64.c\<close>: the two lookup tables, the chunk coders and the
  driving loops \<open>u_b64_encode\<close> and \<open>u_b64_decode\<close>.
\<close>

unbundle bit_operations_syntax

section \<open>Tables\<close>

definition E :: string where
  "E = ''ABCDEFGHIJKLMNOPQRSTUVWXYZabcdefghijklmnopqrstuvwxyz0123456789+/''"

text \<open>The initialiser gives 128 entries; the rest of the 256 are zero.\<close>

definition D :: "nat list" where
  "D =
    [ 0,  0,  0,  0,  0,  0,  0,  0,
      0,  0,  0,  0,  0,  0,  0,  0,
      0,  0,  0,  0,  0,  0,  0,  0,
      0,  0,  0,  0,  0,  0,  0,  0,
      0,  0,  0,  0,  0,  0,  0,  0,
      0,  0,  0,  63, 0,  0,  0,  64,
      53, 54, 55, 56, 57, 58, 59, 60,
      61, 62, 0,  0,  0,  0,  0,  0,
      0,  1,  2,  3,  4,  5,  6,  7,
      8,  9,  10, 11, 12, 13, 14, 15,
      16, 17, 18, 19, 20, 21, 22, 23,
      24, 25, 26, 0,  0,  0,  0,  0,
      0,  27, 28, 29, 30, 31, 32, 33,
      34, 35, 36, 37, 38, 39, 40, 41,
      42, 43, 44, 45, 46, 47, 48, 49,
      50, 51, 52, 0,  0,  0,  0,  0 ] @ replicate 128 0"

text \<open>
  The tables are indexed with a \<open>char\<close> promoted to \<open>int\<close>. With signed characters a byte from
  128 on is a negative index, outside the table.
\<close>

definition D_at :: "char \<Rightarrow> nat outcome" where
  "D_at c = (if (of_char c :: nat) < 128 then Inr (D ! of_char c) else Inl Bad_index)"

definition is_base64 :: "char \<Rightarrow> bool outcome" where
  "is_base64 c = obind (D_at c) (\<lambda>d. Inr (d \<noteq> 0))"

definition val :: "char \<Rightarrow> size_t outcome" where
  "val c = obind (D_at c) (\<lambda>d. Inr (of_nat d - 1))"

section \<open>Chunks\<close>

definition chunk_encode :: "byte \<Rightarrow> byte \<Rightarrow> byte \<Rightarrow> nat \<Rightarrow> string" where
  "chunk_encode in0 in1 in2 len =
     [ E ! unat (drop_bit 2 in0),
       E ! unat (push_bit 4 (in0 AND 0x03) OR drop_bit 4 (in1 AND 0xf0)),
       (if len > 1 then E ! unat (push_bit 2 (in1 AND 0x0f) OR drop_bit 6 (in2 AND 0xc0))
        else CHR ''=''),
       (if len > 2 then E ! unat (in2 AND 0x3f) else CHR ''='') ]"

definition chunk_decode :: "char \<Rightarrow> char \<Rightarrow> char \<Rightarrow> char \<Rightarrow> byte list outcome" where
  "chunk_decode in0 in1 in2 in3 =
     obind (val in0) (\<lambda>v0. obind (val in1) (\<lambda>v1. obind (val in2) (\<lambda>v2. obind (val in3) (\<lambda>v3.
       Inr [ ucast (push_bit 2 v0 OR drop_bit 4 v1),
             ucast (push_bit 4 (v1 AND 0x0f) OR drop_bit 2 v2),
             ucast (push_bit 6 (v2 AND 0x03) OR v3) ]))))"

section \<open>Encoder\<close>

text \<open>
  The loop of \<open>u_b64_encode\<close>: one round takes up to three bytes, pads with zero bytes and writes
  a chunk when four places are left. \<open>out\<close> is the output written so far.
\<close>

fun enc_loop :: "byte list \<Rightarrow> nat \<Rightarrow> string \<Rightarrow> rc \<times> string" where
  "enc_loop [] out_sz out = (rc_ok, (if out_sz > 0 then out @ [CHR 0x00] else out))"
| "enc_loop [a] out_sz out =
     (if out_sz \<ge> 4 then enc_loop [] (out_sz - 4) (out @ chunk_encode a 0 0 1)
      else (rc_fail, out))"
| "enc_loop [a, b] out_sz out =
     (if out_sz \<ge> 4 then enc_loop [] (out_sz - 4) (out @ chunk_encode a b 0 2)
      else (rc_fail, out))"
| "enc_loop (a # b # c # xs) out_sz out =
     (if out_sz \<ge> 4 then enc_loop xs (out_sz - 4) (out @ chunk_encode a b c 3)
      else (rc_fail, out))"

definition u_b64_encode :: "byte list option \<Rightarrow> nat option \<Rightarrow> rc \<times> string" where
  "u_b64_encode inp out =
     (case inp of None \<Rightarrow> (rc_fail, [])
      | Some xs \<Rightarrow>
        if length xs = 0 then (rc_fail, [])
        else (case out of None \<Rightarrow> (rc_fail, [])
              | Some out_sz \<Rightarrow>
                if out_sz = 0 then (rc_fail, []) else enc_loop xs out_sz []))"

text \<open>\<open>U_B64_LENGTH\<close> of the header.\<close>

definition U_B64_LENGTH :: "nat \<Rightarrow> nat" where
  "U_B64_LENGTH n = ((n + 2) div 3) * 4"

section \<open>Decoder\<close>

text \<open>
  One round of the decoder collects four characters; the missing ones are zero bytes. The result
  is the quadruple with the number of padding characters, or \<open>None\<close> when a character is neither
  in the alphabet nor the padding character.
\<close>

fun dec_fill :: "nat \<Rightarrow> string \<Rightarrow> string \<Rightarrow> nat \<Rightarrow> (string \<times> nat) option outcome" where
  "dec_fill 0 inp buf pad = Inr (Some (buf, pad))"
| "dec_fill (Suc i) [] buf pad = dec_fill i [] (buf @ [CHR 0x00]) pad"
| "dec_fill (Suc i) (c # cs) buf pad =
     (if c = CHR ''='' then dec_fill i cs (buf @ [c]) (Suc pad)
      else obind (is_base64 c) (\<lambda>b.
        if \<not> b then Inr None else dec_fill i cs (buf @ [c]) pad))"

text \<open>
  \<open>nlen = 3 - pad\<close> is computed in \<open>size_t\<close>. The chunk decoder stores three bytes at \<open>pout\<close> whatever
  \<open>nlen\<close> is.
\<close>

definition dec_nlen :: "nat \<Rightarrow> nat" where
  "dec_nlen pad = unat (3 - of_nat pad :: size_t)"

fun dec_loop :: "string \<Rightarrow> nat \<Rightarrow> byte list \<Rightarrow> nat \<Rightarrow> (rc \<times> byte list \<times> nat) outcome" where
  "dec_loop inp tot_sz out pout =
     (if inp = [] then Inr (rc_ok, out, tot_sz)
      else obind (dec_fill 4 inp [] 0) (\<lambda>r.
        case r of None \<Rightarrow> Inr (rc_fail, out, tot_sz)
        | Some (buf, pad) \<Rightarrow>
          if tot_sz \<ge> dec_nlen pad then
            obind (chunk_decode (buf ! 0) (buf ! 1) (buf ! 2) (buf ! 3)) (\<lambda>ch.
            obind (blit out pout ch) (\<lambda>out'.
              dec_loop (drop 4 inp) (tot_sz - dec_nlen pad) out' (pout + dec_nlen pad)))
          else Inr (rc_fail, out, tot_sz)))"

declare dec_loop.simps [simp del]

text \<open>
  \<open>*out_sz\<close> is read in the declarations, before the argument checks. The result is the return
  code, the output block and the value left in \<open>*out_sz\<close>.
\<close>

definition u_b64_decode ::
  "string option \<Rightarrow> byte list option \<Rightarrow> nat option \<Rightarrow> (rc \<times> byte list \<times> nat) outcome" where
  "u_b64_decode inp out out_sz =
     (case out_sz of None \<Rightarrow> Inl Null_deref
      | Some sz \<Rightarrow>
        (case inp of None \<Rightarrow> Inr (rc_fail, [], sz)
         | Some cs \<Rightarrow>
           if length cs = 0 then Inr (rc_fail, [], sz)
           else (case out of None \<Rightarrow> Inr (rc_fail, [], sz)
                 | Some buf \<Rightarrow>
                   obind (dec_loop cs sz buf 0) (\<lambda>(rc, buf', tot_sz).
                     Inr (rc, buf', (if rc = rc_ok then sz - tot_sz else sz))))))"

section \<open>Facts on the tables and the chunks\<close>

lemma E_length [simp]: "length E = 64"
  by (simp add: E_def)

lemma map_D_E: "map (\<lambda>c. D ! of_char c) E = [1..<65]"
  by (simp add: D_def E_def upt_rec)

lemma E_chars: "list_all (\<lambda>c. (of_char c :: nat) < 128 \<and> c \<noteq> CHR ''='') E"
  by (simp add: E_def)

lemma E_nth_char: "i < 64 \<Longrightarrow> (of_char (E ! i) :: nat) < 128 \<and> E ! i \<noteq> CHR ''=''"
  using E_chars by (simp add: list_all_length)

lemmas E_not_pad = E_nth_char [THEN conjunct2]

lemma D_at_E: "i < 64 \<Longrightarrow> D_at (E ! i) = Inr (Suc i)"
proof -
  assume i: "i < 64"
  have "map (\<lambda>c. D ! of_char c) E ! i = [1..<65] ! i" by (simp only: map_D_E)
  then have "D ! of_char (E ! i) = Suc i" using i by (simp del: upt.simps)
  with i show ?thesis by (simp add: D_at_def E_nth_char)
qed

lemma is_base64_E: "i < 64 \<Longrightarrow> is_base64 (E ! i) = Inr True"
  by (simp add: is_base64_def D_at_E)

lemma val_E: "i < 64 \<Longrightarrow> val (E ! i) = Inr (of_nat i)"
  by (simp add: val_def D_at_E)

lemma D_at_pad: "D_at (CHR ''='') = Inr 0"
  by code_simp

lemma val_pad: "val (CHR ''='') = Inr (- 1)"
  by (simp add: val_def D_at_pad)

text \<open>The four sextets of a chunk.\<close>

definition sext0 :: "byte \<Rightarrow> byte" where "sext0 a = drop_bit 2 a"
definition sext1 :: "byte \<Rightarrow> byte \<Rightarrow> byte" where
  "sext1 a b = push_bit 4 (a AND 0x03) OR drop_bit 4 (b AND 0xf0)"
definition sext2 :: "byte \<Rightarrow> byte \<Rightarrow> byte" where
  "sext2 b c = push_bit 2 (b AND 0x0f) OR drop_bit 6 (c AND 0xc0)"
definition sext3 :: "byte \<Rightarrow> byte" where "sext3 c = c AND 0x3f"

lemmas sext_defs = sext0_def sext1_def sext2_def sext3_def

lemma sext_lt:
  "unat (sext0 a) < 64" "unat (sext1 a b) < 64" "unat (sext2 b c) < 64" "unat (sext3 c) < 64"
  by (rule byte_lt_64; auto simp: sext_defs bit_simps dest: bit_imp_le_length)+

lemma chunk_encode_sext:
  "chunk_encode a b c len =
     [E ! unat (sext0 a), E ! unat (sext1 a b),
      (if len > 1 then E ! unat (sext2 b c) else CHR ''=''),
      (if len > 2 then E ! unat (sext3 c) else CHR ''='')]"
  by (simp add: chunk_encode_def sext_defs)

text \<open>The decoder's bit arithmetic inverts the encoder's.\<close>

lemma join0: "(ucast (push_bit 2 (ucast (sext0 a) :: size_t) OR drop_bit 4 (ucast (sext1 a b))) :: byte) = a"
  by (rule byte_bitsI) (simp_all add: sext_defs bit_simps)

lemma join1:
  "(ucast (push_bit 4 (ucast (sext1 a b) AND 0x0f :: size_t) OR drop_bit 2 (ucast (sext2 b c))) :: byte) = b"
  by (rule byte_bitsI) (simp_all add: sext_defs bit_simps)

lemma join2:
  "(ucast (push_bit 6 (ucast (sext2 b c) AND 0x03 :: size_t) OR ucast (sext3 c)) :: byte) = c"
  by (rule byte_bitsI) (simp_all add: sext_defs bit_simps)

section \<open>The encoder against RFC 4648\<close>

text \<open>
  The reference encoding: the input as a string of bits, most significant bit first, cut into
  groups of six that are completed with zero bits, each group a letter of the alphabet, and the
  text completed with padding characters to a multiple of four.
\<close>

definition byte_bits :: "byte \<Rightarrow> bool list" where
  "byte_bits b = map (bit b) [7, 6, 5, 4, 3, 2, Suc 0, 0]"

definition from_bits :: "bool list \<Rightarrow> nat" where
  "from_bits bs = fold (\<lambda>b n. 2 * n + of_bool b) bs 0"

fun sextets :: "bool list \<Rightarrow> nat list" where
  "sextets bs =
     (if bs = [] then []
      else from_bits (take 6 (bs @ replicate 5 False)) # sextets (drop 6 bs))"

declare sextets.simps [simp del]

definition rfc4648 :: "byte list \<Rightarrow> string" where
  "rfc4648 xs =
     (let s = map ((!) E) (sextets (concat (map byte_bits xs)))
      in s @ replicate ((4 - length s mod 4) mod 4) (CHR ''=''))"

lemma unat_byte_bits:
  fixes w :: byte
  shows "unat w = of_bool (bit w 0) + 2 * of_bool (bit w (Suc 0)) + 4 * of_bool (bit w 2)
     + 8 * of_bool (bit w 3) + 16 * of_bool (bit w 4) + 32 * of_bool (bit w 5)
     + 64 * of_bool (bit w 6) + 128 * of_bool (bit w 7)"
proof -
  have "unat w < 2 ^ LENGTH(8)" by (rule unsigned_less)
  then have "take_bit 8 (unat w) = unat w" by (simp add: take_bit_eq_mod)
  then have "unat w = horner_sum of_bool 2 (map (bit (unat w)) [0..<8])"
    by (simp only: horner_sum_bit_eq_take_bit)
  also have "[0..<8] = [0, Suc 0, 2, 3, 4, 5, 6, 7]"
    by (simp add: upt_rec)
  finally show ?thesis
    by (simp add: bit_unsigned_iff algebra_simps)
qed

lemma from_bits6:
  "from_bits [b5, b4, b3, b2, b1, b0] =
     of_bool b0 + 2 * of_bool b1 + 4 * of_bool b2 + 8 * of_bool b3 + 16 * of_bool b4
     + 32 * of_bool b5"
  by (simp add: from_bits_def)

lemma unat_sextet:
  fixes w :: byte
  assumes "\<not> bit w 6" "\<not> bit w 7"
  shows "unat w = from_bits [bit w 5, bit w 4, bit w 3, bit w 2, bit w (Suc 0), bit w 0]"
  by (subst unat_byte_bits) (simp add: from_bits6 assms)

lemma sext0_bits: "unat (sext0 a) = from_bits [bit a 7, bit a 6, bit a 5, bit a 4, bit a 3, bit a 2]"
  by (subst unat_sextet) (simp_all add: sext_defs bit_simps)

lemma sext1_bits:
  "unat (sext1 a b) = from_bits [bit a (Suc 0), bit a 0, bit b 7, bit b 6, bit b 5, bit b 4]"
  by (subst unat_sextet) (simp_all add: sext_defs bit_simps)

lemma sext2_bits:
  "unat (sext2 b c) = from_bits [bit b 3, bit b 2, bit b (Suc 0), bit b 0, bit c 7, bit c 6]"
  by (subst unat_sextet) (simp_all add: sext_defs bit_simps)

lemma sext3_bits:
  "unat (sext3 c) = from_bits [bit c 5, bit c 4, bit c 3, bit c 2, bit c (Suc 0), bit c 0]"
  by (subst unat_sextet) (simp_all add: sext_defs bit_simps)

lemmas sext_bits = sext0_bits sext1_bits sext2_bits sext3_bits

lemma sextets_Nil [simp]: "sextets [] = []"
  by (simp add: sextets.simps)

lemma sextets6:
  "sextets (b5 # b4 # b3 # b2 # b1 # b0 # bs) = from_bits [b5, b4, b3, b2, b1, b0] # sextets bs"
  by (subst sextets.simps) simp

lemma replicate5: "replicate 5 x = [x, x, x, x, x]"
  by (simp add: eval_nat_numeral)

lemma replicate2: "replicate 2 x = [x, x]"
  by (simp add: numeral_2_eq_2)

lemma sextets2: "sextets [b5, b4] = [from_bits [b5, b4, False, False, False, False]]"
  by (subst sextets.simps) (simp add: replicate5)

lemma sextets4: "sextets [b5, b4, b3, b2] = [from_bits [b5, b4, b3, b2, False, False]]"
  by (subst sextets.simps) (simp add: replicate5)

lemma sextets_chunk:
  "sextets (byte_bits a @ byte_bits b @ byte_bits c @ bs) =
     [unat (sext0 a), unat (sext1 a b), unat (sext2 b c), unat (sext3 c)] @ sextets bs"
  by (simp add: byte_bits_def sextets6 sext_bits)

lemma sextets_tail1: "sextets (byte_bits a) = [unat (sext0 a), unat (sext1 a 0)]"
  by (simp add: byte_bits_def sextets6 sextets2 sext_bits)

lemma sextets_tail2:
  "sextets (byte_bits a @ byte_bits b) = [unat (sext0 a), unat (sext1 a b), unat (sext2 b 0)]"
  by (simp add: byte_bits_def sextets6 sextets4 sext_bits)

lemma rfc4648_Nil: "rfc4648 [] = []"
  by (simp add: rfc4648_def)

lemma rfc4648_1: "rfc4648 [a] = chunk_encode a 0 0 1"
  by (simp add: rfc4648_def chunk_encode_sext sextets_tail1 Let_def replicate2)

lemma rfc4648_2: "rfc4648 [a, b] = chunk_encode a b 0 2"
  by (simp add: rfc4648_def chunk_encode_sext sextets_tail2 Let_def)

lemma rfc4648_3: "rfc4648 (a # b # c # xs) = chunk_encode a b c 3 @ rfc4648 xs"
  by (simp add: rfc4648_def chunk_encode_sext sextets_chunk Let_def)

lemma chunk_encode_length [simp]: "length (chunk_encode a b c n) = 4"
  by (simp add: chunk_encode_def)

lemma U_B64_LENGTH_simps [simp]:
  "U_B64_LENGTH 0 = 0" "U_B64_LENGTH (Suc 0) = 4" "U_B64_LENGTH (Suc (Suc 0)) = 4"
  "U_B64_LENGTH (Suc (Suc (Suc n))) = 4 + U_B64_LENGTH n"
proof -
  have "(n + 2 + 3) div 3 = (n + 2) div 3 + 1" by (rule div_add_self2) simp
  moreover have "Suc (Suc (Suc n)) + 2 = n + 2 + 3" by simp
  ultimately show "U_B64_LENGTH (Suc (Suc (Suc n))) = 4 + U_B64_LENGTH n"
    unfolding U_B64_LENGTH_def by (simp only: add_mult_distrib)
qed (simp_all add: U_B64_LENGTH_def)

fun by_threes :: "'a list \<Rightarrow> unit" where
  "by_threes (a # b # c # xs) = by_threes xs"
| "by_threes xs = ()"

lemma rfc4648_length: "length (rfc4648 xs) = U_B64_LENGTH (length xs)"
  by (induction xs rule: by_threes.induct)
    (simp_all add: rfc4648_Nil rfc4648_1 rfc4648_2 rfc4648_3)

lemma U_B64_LENGTH_pos: "U_B64_LENGTH n = 0 \<longleftrightarrow> n = 0"
  by (auto simp: U_B64_LENGTH_def div_eq_0_iff)

lemma rfc4648_eq_Nil [simp]: "rfc4648 xs = [] \<longleftrightarrow> xs = []"
  using rfc4648_length [of xs] U_B64_LENGTH_pos [of "length xs"] by auto

lemma enc_loop_eq:
  "U_B64_LENGTH (length xs) \<le> n \<Longrightarrow>
   enc_loop xs n out =
     (rc_ok, out @ rfc4648 xs @ (if n > U_B64_LENGTH (length xs) then [CHR 0x00] else []))"
  by (induction xs n out rule: enc_loop.induct)
    (auto simp: rfc4648_Nil rfc4648_1 rfc4648_2 rfc4648_3)

lemma enc_loop_fail:
  "n < U_B64_LENGTH (length xs) \<Longrightarrow> fst (enc_loop xs n out) = rc_fail"
  by (induction xs n out rule: enc_loop.induct) auto

lemma u_b64_encode_eq:
  "u_b64_encode (Some xs) (Some n) =
     (if xs = [] \<or> n = 0 then (rc_fail, []) else enc_loop xs n [])"
  by (simp add: u_b64_encode_def)

section \<open>The decoder on encoded text\<close>

lemma dec_fill_pad: "dec_fill (Suc i) (CHR ''='' # cs) buf pad = dec_fill i cs (buf @ [CHR ''='']) (Suc pad)"
  by simp

lemma dec_fill_E:
  "j < 64 \<Longrightarrow> dec_fill (Suc i) (E ! j # cs) buf pad = dec_fill i cs (buf @ [E ! j]) pad"
  by (simp add: E_not_pad is_base64_E)

lemma dec_fill4:
  "dec_fill 4 (E ! unat (sext0 a) # E ! unat (sext1 a b) # cs) [] 0 =
     dec_fill (Suc (Suc 0)) cs [E ! unat (sext0 a), E ! unat (sext1 a b)] 0"
proof -
  have "4 = Suc (Suc (Suc (Suc 0)))" by simp
  then show ?thesis by (simp only: dec_fill_E sext_lt append.simps)
qed

lemma dec_fill_chunk:
  "dec_fill 4 (chunk_encode a b c 3 @ cs) [] 0 = Inr (Some (chunk_encode a b c 3, 0))"
  "dec_fill 4 (chunk_encode a b c 2 @ cs) [] 0 = Inr (Some (chunk_encode a b c 2, 1))"
  "dec_fill 4 (chunk_encode a b c 1 @ cs) [] 0 = Inr (Some (chunk_encode a b c 1, 2))"
  by (simp_all add: chunk_encode_sext dec_fill4 dec_fill_E sext_lt dec_fill_pad
      del: dec_fill.simps(3) cong: list.case_cong)

lemmas chunk_decode_simps =
  chunk_decode_def val_E val_pad sext_lt obind_Inr of_nat_unat join0 join1 join2

lemma chunk_decode_E:
  "chunk_decode (E ! unat (sext0 a)) (E ! unat (sext1 a b)) (E ! unat (sext2 b c)) (E ! unat (sext3 c))
   = Inr [a, b, c]"
  by (simp only: chunk_decode_simps)

lemma chunk_decode_E2:
  "\<exists>z. chunk_decode (E ! unat (sext0 a)) (E ! unat (sext1 a b)) (E ! unat (sext2 b c)) (CHR ''='')
   = Inr [a, b, z]"
  by (simp only: chunk_decode_simps) blast

lemma chunk_decode_E1:
  "\<exists>y z. chunk_decode (E ! unat (sext0 a)) (E ! unat (sext1 a b)) (CHR ''='') (CHR ''='')
   = Inr [a, y, z]"
  by (simp only: chunk_decode_simps) blast

lemma dec_nlen_simps [simp]:
  "dec_nlen 0 = 3" "dec_nlen (Suc 0) = 2" "dec_nlen 2 = 1" "dec_nlen 3 = 0"
  by (simp_all add: dec_nlen_def)

lemma dec_loop_Nil: "dec_loop [] sz out p = Inr (rc_ok, out, sz)"
  by (subst dec_loop.simps) simp

lemma dec_loop_step:
  assumes "dec_fill 4 cs [] 0 = Inr (Some (q, pad))" "cs \<noteq> []"
    and "chunk_decode (q ! 0) (q ! 1) (q ! 2) (q ! 3) = Inr ch"
  shows "dec_loop cs sz out p =
     (if dec_nlen pad \<le> sz
      then obind (blit out p ch) (\<lambda>out'. dec_loop (drop 4 cs) (sz - dec_nlen pad) out' (p + dec_nlen pad))
      else Inr (rc_fail, out, sz))"
  using assms by (subst dec_loop.simps) simp

lemma dec_loop_3:
  "dec_loop (chunk_encode a b c 3 @ cs) sz out p =
     (if 3 \<le> sz then obind (blit out p [a, b, c]) (\<lambda>out'. dec_loop cs (sz - 3) out' (p + 3))
      else Inr (rc_fail, out, sz))"
  by (subst dec_loop_step [OF dec_fill_chunk(1), where ch = "[a, b, c]"])
    (simp_all add: chunk_encode_sext chunk_decode_E eval_nat_numeral)

lemma dec_loop_2:
  "\<exists>z. \<forall>sz out p. dec_loop (chunk_encode a b c 2) sz out p =
     (if 2 \<le> sz then obind (blit out p [a, b, z]) (\<lambda>out'. Inr (rc_ok, out', sz - 2))
      else Inr (rc_fail, out, sz))"
proof -
  obtain z where z: "chunk_decode (E ! unat (sext0 a)) (E ! unat (sext1 a b))
      (E ! unat (sext2 b c)) (CHR ''='') = Inr [a, b, z]"
    using chunk_decode_E2 by blast
  have "dec_loop (chunk_encode a b c 2) sz out p =
     (if 2 \<le> sz then obind (blit out p [a, b, z]) (\<lambda>out'. Inr (rc_ok, out', sz - 2))
      else Inr (rc_fail, out, sz))" for sz out p
    using dec_fill_chunk(2) [of a b c "[]"]
    by (subst dec_loop_step [where ch = "[a, b, z]" and pad = 1 and q = "chunk_encode a b c 2"])
      (simp_all add: chunk_encode_sext z dec_loop_Nil eval_nat_numeral)
  then show ?thesis by blast
qed

lemma dec_loop_1:
  "\<exists>y z. \<forall>sz out p. dec_loop (chunk_encode a b c 1) sz out p =
     (if 1 \<le> sz then obind (blit out p [a, y, z]) (\<lambda>out'. Inr (rc_ok, out', sz - 1))
      else Inr (rc_fail, out, sz))"
proof -
  obtain y z where z: "chunk_decode (E ! unat (sext0 a)) (E ! unat (sext1 a b))
      (CHR ''='') (CHR ''='') = Inr [a, y, z]"
    using chunk_decode_E1 by blast
  have "dec_loop (chunk_encode a b c 1) sz out p =
     (if 1 \<le> sz then obind (blit out p [a, y, z]) (\<lambda>out'. Inr (rc_ok, out', sz - 1))
      else Inr (rc_fail, out, sz))" for sz out p
    using dec_fill_chunk(3) [of a b c "[]"]
    by (subst dec_loop_step [where ch = "[a, y, z]" and pad = 2 and q = "chunk_encode a b c 1"])
      (simp_all add: chunk_encode_sext z dec_loop_Nil)
  then show ?thesis by blast
qed

text \<open>The bytes a decoder run stores, padding included.\<close>

definition dec_room :: "nat \<Rightarrow> nat" where "dec_room n = (n + 2) div 3 * 3"

lemma dec_room_simps [simp]:
  "dec_room 0 = 0" "dec_room (Suc 0) = 3" "dec_room (Suc (Suc 0)) = 3"
  "dec_room (Suc (Suc (Suc n))) = 3 + dec_room n"
proof -
  have "(n + 2 + 3) div 3 = (n + 2) div 3 + 1" by (rule div_add_self2) simp
  moreover have "Suc (Suc (Suc n)) + 2 = n + 2 + 3" by simp
  ultimately show "dec_room (Suc (Suc (Suc n))) = 3 + dec_room n"
    unfolding dec_room_def by (simp only: add_mult_distrib)
qed (simp_all add: dec_room_def)

lemmas by_threes_induct = by_threes.induct [case_names step none one two]

lemma dec_loop_rfc4648:
  assumes "length xs \<le> sz" "p + dec_room (length xs) \<le> length out"
  shows "\<exists>out'. dec_loop (rfc4648 xs) sz out p = Inr (rc_ok, out', sz - length xs)
     \<and> length out' = length out \<and> take (p + length xs) out' = take p out @ xs"
  using assms
proof (induction xs arbitrary: sz out p rule: by_threes_induct)
  case (step a b c xs)
  obtain o1 where o1: "blit out p [a, b, c] = Inr o1"
    using step(3) by (simp add: blit_def)
  note l1 = blit_length [OF o1] and t1 = blit_take [OF o1]
  have sz: "length xs \<le> sz - 3" using step(2) by simp
  obtain o2 where o2: "dec_loop (rfc4648 xs) (sz - 3) o1 (p + 3) = Inr (rc_ok, o2, sz - 3 - length xs)"
      "length o2 = length o1" "take (p + 3 + length xs) o2 = take (p + 3) o1 @ xs"
    using step(1) [of "sz - 3" "p + 3" o1] step(3) sz l1 by (auto simp: algebra_simps)
  show ?case
    using step(2) o1 o2 l1 t1
    by (simp add: rfc4648_3 dec_loop_3) (simp add: eval_nat_numeral)
next
  case (one a)
  obtain y z where d: "\<forall>sz out p. dec_loop (chunk_encode a 0 0 1) sz out p =
     (if 1 \<le> sz then obind (blit out p [a, y, z]) (\<lambda>out'. Inr (rc_ok, out', sz - 1))
      else Inr (rc_fail, out, sz))" using dec_loop_1 by blast
  with one show ?case
    by (simp add: rfc4648_1) (simp add: blit_def min_def take_Cons' eval_nat_numeral)
next
  case (two a b)
  obtain z where d: "\<forall>sz out p. dec_loop (chunk_encode a b 0 2) sz out p =
     (if 2 \<le> sz then obind (blit out p [a, b, z]) (\<lambda>out'. Inr (rc_ok, out', sz - 2))
      else Inr (rc_fail, out, sz))" using dec_loop_2 by blast
  with two show ?case
    by (simp add: rfc4648_2) (simp add: blit_def min_def take_Cons' eval_nat_numeral)
qed (simp add: rfc4648_Nil dec_loop_Nil)

lemma dec_loop_overrun:
  assumes "length xs \<le> sz" "length out < p + dec_room (length xs)" "p \<le> length out"
  shows "dec_loop (rfc4648 xs) sz out p = Inl Out_of_bounds"
  using assms
proof (induction xs arbitrary: sz out p rule: by_threes_induct)
  case (step a b c xs)
  show ?case
  proof (cases "p + 3 \<le> length out")
    case True
    then obtain o1 where o1: "blit out p [a, b, c] = Inr o1" by (simp add: blit_def)
    show ?thesis
      using step(1) [of "sz - 3" o1 "p + 3"] step(2-) True o1 blit_length [OF o1]
      by (simp add: rfc4648_3 dec_loop_3)
  next
    case False
    with step show ?thesis by (simp add: rfc4648_3 dec_loop_3 blit_def)
  qed
next
  case (one a)
  then show ?case using dec_loop_1 [of a 0 0] by (auto simp: rfc4648_1 blit_def)
next
  case (two a b)
  then show ?case using dec_loop_2 [of a b 0] by (auto simp: rfc4648_2 blit_def)
qed simp

section \<open>Safety of the decoder on arbitrary text\<close>

lemma D_at_ascii: "(of_char c :: nat) < 128 \<Longrightarrow> \<exists>d. D_at c = Inr d"
  by (simp add: D_at_def)

lemma val_ascii: "(of_char c :: nat) < 128 \<Longrightarrow> \<exists>v. val c = Inr v"
  using D_at_ascii by (fastforce simp: val_def)

lemma is_base64_ascii: "(of_char c :: nat) < 128 \<Longrightarrow> \<exists>b. is_base64 c = Inr b"
  using D_at_ascii by (fastforce simp: is_base64_def)

definition ascii :: "string \<Rightarrow> bool" where
  "ascii cs = list_all (\<lambda>c. (of_char c :: nat) < 128) cs"

lemma ascii_simps [simp]:
  "ascii []" "ascii (c # cs) \<longleftrightarrow> (of_char c :: nat) < 128 \<and> ascii cs"
  "ascii (cs @ ds) \<longleftrightarrow> ascii cs \<and> ascii ds"
  by (simp_all add: ascii_def)

lemma ascii_drop: "ascii cs \<Longrightarrow> ascii (drop n cs)"
  by (auto simp: ascii_def list_all_iff dest: in_set_dropD)

lemma dec_fill_ascii:
  assumes "ascii cs" "ascii buf"
  shows "dec_fill i cs buf pad = Inr None \<or>
    (\<exists>q pad'. dec_fill i cs buf pad = Inr (Some (q, pad')) \<and> ascii q \<and> length q = length buf + i
       \<and> pad' \<le> pad + i)"
  using assms
proof (induction i cs buf pad rule: dec_fill.induct)
  case (3 i c cs buf pad)
  obtain b where "is_base64 c = Inr b" using 3(3) is_base64_ascii by auto
  with 3 show ?case by (cases b) (fastforce)+
qed fastforce+

lemma chunk_decode_ascii:
  assumes "ascii q" "length q = 4"
  shows "\<exists>x y z. chunk_decode (q ! 0) (q ! 1) (q ! 2) (q ! 3) = Inr [x, y, z]"
proof -
  have "\<exists>v. val (q ! i) = Inr v" if "i < 4" for i
    using assms that by (intro val_ascii) (simp add: ascii_def list_all_length)
  from this [of 0] this [of 1] this [of 2] this [of 3] show ?thesis
    by (auto simp: chunk_decode_def)
qed

lemma dec_nlen_pos: "pad \<le> 3 \<Longrightarrow> dec_nlen pad = 3 - pad"
proof -
  assume "pad \<le> 3"
  then have "pad = 0 \<or> pad = Suc 0 \<or> pad = 2 \<or> pad = 3" by arith
  then show ?thesis by auto
qed

lemma dec_nlen_4: "dec_nlen 4 = 2 ^ 64 - 1"
  by (simp add: dec_nlen_def unsigned_minus_1_eq_mask mask_eq_exp_minus_1)

lemma dec_loop_ascii:
  assumes "ascii cs" "p + sz + 3 \<le> length out" "sz < 2 ^ 64 - 1"
  shows "\<exists>r out' rest. dec_loop cs sz out p = Inr (r, out', rest) \<and> length out' = length out
     \<and> rest \<le> sz"
  using assms
proof (induction "length cs" arbitrary: cs sz out p rule: less_induct)
  case less
  show ?case
  proof (cases "cs = []")
    case True then show ?thesis by (simp add: dec_loop_Nil)
  next
    case False
    show ?thesis
    proof (cases "dec_fill 4 cs [] 0 = Inr None")
      case True then show ?thesis by (subst dec_loop.simps) (simp add: False)
    next
      case no: False
      then obtain q pad where q: "dec_fill 4 cs [] 0 = Inr (Some (q, pad))" "ascii q" "length q = 4"
          "pad \<le> 4"
        using dec_fill_ascii [of cs "[]" 4 0] less(2) by auto
      obtain x y z where ch: "chunk_decode (q ! 0) (q ! 1) (q ! 2) (q ! 3) = Inr [x, y, z]"
        using chunk_decode_ascii q by blast
      note step = dec_loop_step [OF q(1) False ch]
      show ?thesis
      proof (cases "dec_nlen pad \<le> sz")
        case fits: True
        then have "pad \<noteq> 4" using less(4) dec_nlen_4 by auto
        obtain o1 where o1: "blit out p [x, y, z] = Inr o1" using less(3) by (simp add: blit_def)
        have "\<exists>r out' rest. dec_loop (drop 4 cs) (sz - dec_nlen pad) o1 (p + dec_nlen pad)
           = Inr (r, out', rest) \<and> length out' = length o1 \<and> rest \<le> sz - dec_nlen pad"
          by (rule less(1)) (use False fits less(2-) blit_length [OF o1] in \<open>auto simp: ascii_drop\<close>)
        then show ?thesis using fits o1 blit_length [OF o1] by (fastforce simp: step)
      qed (simp add: step)
    qed
  qed
qed

section \<open>Properties\<close>

text \<open>
  C6: \<open>u_b64_encode\<close> writes the RFC 4648 encoding of a non-empty input exactly when the output
  buffer holds \<open>U_B64_LENGTH\<close> characters, with a terminating zero when there is room for it;
  with any smaller buffer it fails.
\<close>
theorem u_b64_encode_rfc4648:
  assumes "xs \<noteq> []"
  shows "if U_B64_LENGTH (length xs) \<le> n
     then u_b64_encode (Some xs) (Some n) =
       (rc_ok, rfc4648 xs @ (if U_B64_LENGTH (length xs) < n then [CHR 0x00] else []))
     else fst (u_b64_encode (Some xs) (Some n)) = rc_fail"
  using assms enc_loop_eq [of xs n "[]"] enc_loop_fail [of n xs "[]"] U_B64_LENGTH_pos [of "length xs"]
  by (auto simp: u_b64_encode_eq)

lemma u_b64_encode_rfc4648_witness:
  "u_b64_encode (Some [104, 105]) (Some 5) = (rc_ok, rfc4648 [104, 105] @ [CHR 0x00])"
  using u_b64_encode_rfc4648 [of "[104, 105]" 5] by simp

text \<open>
  C7: \<open>u_b64_encode\<close> of a non-empty input, with room for the text and its terminating zero, gives a
  text \<open>t\<close>. Decoding \<open>t\<close> with \<open>*out_sz\<close> at least the length of the input returns success, leaves
  that length in \<open>*out_sz\<close> and the input at the start of the output block, provided that the block
  has room for whole triples (the length rounded up to a multiple of three, which is more than the
  documented \<open>*out_sz\<close> bytes); with any smaller block the decoder writes past its end.
\<close>
theorem u_b64_roundtrip:
  assumes "xs \<noteq> []" "U_B64_LENGTH (length xs) < esz" "length xs \<le> sz"
  shows "\<exists>t. u_b64_encode (Some xs) (Some esz) = (rc_ok, t @ [CHR 0x00])
     \<and> (if dec_room (length xs) \<le> length out
        then \<exists>out'. u_b64_decode (Some t) (Some out) (Some sz) = Inr (rc_ok, out', length xs)
          \<and> take (length xs) out' = xs \<and> length out' = length out
        else u_b64_decode (Some t) (Some out) (Some sz) = Inl Out_of_bounds)"
proof -
  have "u_b64_encode (Some xs) (Some esz) = (rc_ok, rfc4648 xs @ [CHR 0x00])"
    using assms enc_loop_eq [of xs esz "[]"] U_B64_LENGTH_pos [of "length xs"]
    by (auto simp: u_b64_encode_eq)
  moreover have "rfc4648 xs \<noteq> []" using assms(1) by simp
  ultimately show ?thesis
    using dec_loop_rfc4648 [of xs sz 0 out] dec_loop_overrun [of xs sz out 0] assms
    by (auto simp: u_b64_decode_def)
qed

lemma u_b64_roundtrip_witness:
  "\<exists>t. u_b64_encode (Some [1, 2, 3, 4]) (Some 9) = (rc_ok, t @ [CHR 0x00])
     \<and> (\<exists>out'. u_b64_decode (Some t) (Some (replicate 6 0)) (Some 6) = Inr (rc_ok, out', 4)
       \<and> take 4 out' = [1, 2, 3, 4] \<and> length out' = 6)"
proof -
  have l: "length [1, 2, 3, 4 :: byte] = 4" by simp
  show ?thesis
    using u_b64_roundtrip [of "[1, 2, 3, 4]" 9 6 "replicate 6 0", unfolded l]
    by (simp add: dec_room_def U_B64_LENGTH_def)
qed

text \<open>
  The decoder stores whole triples. When the block has the size of the decoded data and this
  is not a multiple of three, decoding a valid text writes past the end of the block.
\<close>
theorem u_b64_decode_overrun:
  assumes "length xs mod 3 \<noteq> 0" "length out = length xs"
  shows "u_b64_decode (Some (rfc4648 xs)) (Some out) (Some (length out)) = Inl Out_of_bounds"
proof -
  have "rfc4648 xs \<noteq> []" using assms(1) by auto
  moreover have "length out < dec_room (length xs)"
    using assms unfolding dec_room_def by presburger
  ultimately show ?thesis
    using dec_loop_overrun [of xs "length out" out 0] assms(2) by (simp add: u_b64_decode_def)
qed

lemma u_b64_decode_overrun_witness:
  "u_b64_decode (Some (rfc4648 [65])) (Some [0]) (Some 1) = Inl Out_of_bounds"
  using u_b64_decode_overrun [of "[65]" "[0]"] by simp

text \<open>
  C37: on any text of 7-bit characters, well-formed or not, the decoder returns and keeps inside the
  output block, provided that the block has at least three bytes more than \<open>*out_sz\<close>
  says; and it never reports more than \<open>*out_sz\<close> bytes. Characters from 128 on are not
  covered: they index outside the decoding table.
\<close>

theorem u_b64_decode_safe:
  assumes "ascii cs" "sz + 3 \<le> length out" "sz < 2 ^ 64 - 1"
  shows "\<exists>r out' n. u_b64_decode (Some cs) (Some out) (Some sz) = Inr (r, out', n) \<and> n \<le> sz"
  using dec_loop_ascii [of cs 0 sz out] assms by (auto simp: u_b64_decode_def)

lemma u_b64_decode_safe_witness:
  "\<exists>r out' n. u_b64_decode (Some ''QUI'') (Some (replicate 6 0)) (Some 3) = Inr (r, out', n) \<and> n \<le> 3"
  using u_b64_decode_safe [of "''QUI''" 3 "replicate 6 0"] by simp

end
