(* ===== verification/PQueue.thy ===== *)
theory PQueue
  imports Prelude
begin

text \<open>
  The fixed size priority queue of \<open>srcs/toolbox/pqueue.c\<close>: a binary max-heap in the slots
  \<open>1 .. nitems\<close> of an array of \<open>nitems + 1\<close> items. The keys of the source are doubles; the model
  takes any linear order with a zero, which are the doubles other than NaN. A value is a pointer,
  so \<open>None\<close> is \<open>NULL\<close>.
\<close>

section \<open>Data\<close>

record ('k, 'v) u_pq_item =
  key :: 'k
  val :: "'v option"

record ('k, 'v) u_pq =
  nelems :: nat
  nitems :: nat
  q :: "('k, 'v) u_pq_item list"

definition zero_item :: "('k::zero, 'v) u_pq_item" where
  "zero_item = \<lparr> key = 0, val = None \<rparr>"

section \<open>Operations\<close>

text \<open>
  The size of the array is computed in \<open>size_t\<close>; \<open>u_calloc\<close> of it succeeds or fails. The result
  is the return code and the queue stored through \<open>ppq\<close> on success; the first argument tells
  whether \<open>ppq\<close> is a valid pointer.
\<close>

definition u_pq_create ::
  "bool \<Rightarrow> size_t \<Rightarrow> bool \<Rightarrow> bool \<Rightarrow> rc \<times> ('k::zero, 'v) u_pq option" where
  "u_pq_create ppq n alloc_pq alloc_q =
     (if \<not> ppq then (rc_fail, None)
      else if n < 2 then (rc_fail, None)
      else if \<not> alloc_pq then (rc_fail, None)
      else if \<not> alloc_q then (rc_fail, None)
      else (rc_ok, Some \<lparr> nelems = 0, nitems = unat n,
                          q = replicate (unat (n + 1)) zero_item \<rparr>))"

definition u_pq_empty :: "('k, 'v) u_pq \<Rightarrow> bool" where
  "u_pq_empty pq = (nelems pq = 0)"

definition u_pq_full :: "('k, 'v) u_pq \<Rightarrow> bool" where
  "u_pq_full pq = (nelems pq = nitems pq)"

definition pq_item_comp :: "('k::linorder, 'v) u_pq_item \<Rightarrow> ('k, 'v) u_pq_item \<Rightarrow> bool" where
  "pq_item_comp i j = (key i < key j)"

definition pq_item_swap :: "'a list \<Rightarrow> nat \<Rightarrow> nat \<Rightarrow> 'a list" where
  "pq_item_swap a i j = a[i := a ! j, j := a ! i]"

fun bubble_up :: "('k::linorder, 'v) u_pq_item list \<Rightarrow> nat \<Rightarrow> ('k, 'v) u_pq_item list" where
  "bubble_up a k =
     (if k > 1 \<and> pq_item_comp (a ! (k div 2)) (a ! k)
      then bubble_up (pq_item_swap a k (k div 2)) (k div 2) else a)"

definition bigger_child :: "('k::linorder, 'v) u_pq_item list \<Rightarrow> nat \<Rightarrow> nat \<Rightarrow> nat" where
  "bigger_child a k n =
     (if 2 * k < n \<and> pq_item_comp (a ! (2 * k)) (a ! (2 * k + 1)) then 2 * k + 1 else 2 * k)"

lemma bigger_child_gt:
  assumes "2 * k \<le> n" "pq_item_comp (a ! k) (a ! bigger_child a k n)"
  shows "k < bigger_child a k n" "bigger_child a k n \<le> n"
  using assms by (cases k; auto simp: bigger_child_def pq_item_comp_def split: if_splits)+

function bubble_down ::
  "('k::linorder, 'v) u_pq_item list \<Rightarrow> nat \<Rightarrow> nat \<Rightarrow> ('k, 'v) u_pq_item list" where
  "bubble_down a k n =
     (if 2 * k \<le> n then
        (let j = bigger_child a k n in
         if \<not> pq_item_comp (a ! k) (a ! j) then a
         else bubble_down (pq_item_swap a k j) j n)
      else a)"
  by pat_completeness auto
termination
proof (relation "measure (\<lambda>(a, k, n). n - k)")
  fix a :: "('a, 'b) u_pq_item list" and k n j
  assume "2 * k \<le> n" "j = bigger_child a k n" "\<not> \<not> pq_item_comp (a ! k) (a ! j)"
  with bigger_child_gt [of k n a]
  show "((pq_item_swap a k j, j, n), (a, k, n)) \<in> measure (\<lambda>(a, k, n). n - k)"
    by auto
qed simp

declare bubble_up.simps [simp del] bubble_down.simps [simp del]

definition u_pq_push ::
  "('k::linorder, 'v) u_pq option \<Rightarrow> 'k \<Rightarrow> 'v option
   \<Rightarrow> (rc \<times> ('k, 'v) u_pq option) outcome" where
  "u_pq_push h k v =
     (case h of None \<Rightarrow> Inr (- 1, h)
      | Some pq \<Rightarrow>
        if u_pq_full pq then Inr (- 2, h)
        else if nelems pq + 1 < length (q pq) then
          (let n = nelems pq + 1 in
           Inr (0, Some (pq\<lparr> nelems := n,
                             q := bubble_up ((q pq)[n := \<lparr> key = k, val = v \<rparr>]) n \<rparr>)))
        else Inl Out_of_bounds)"

text \<open>The item whose value is returned and whose key is stored through \<open>pkey\<close>.\<close>

definition u_pq_peekmax :: "('k, 'v) u_pq option \<Rightarrow> ('k, 'v) u_pq_item outcome" where
  "u_pq_peekmax h =
     (case h of None \<Rightarrow> Inl Null_deref
      | Some pq \<Rightarrow> if 1 < length (q pq) then Inr (q pq ! 1) else Inl Out_of_bounds)"

text \<open>
  The result is the item whose value is returned, or \<open>None\<close> where the source returns \<open>NULL\<close> and
  leaves \<open>*pkey\<close> alone, with the queue afterwards.
\<close>

definition u_pq_delmax ::
  "('k::linorder, 'v) u_pq option
   \<Rightarrow> (('k, 'v) u_pq_item option \<times> ('k, 'v) u_pq option) outcome" where
  "u_pq_delmax h =
     (case h of None \<Rightarrow> Inr (None, h)
      | Some pq \<Rightarrow>
        if nelems pq = 0 then Inr (None, h)
        else if nelems pq < length (q pq) then
          (let a = bubble_down (pq_item_swap (q pq) 1 (nelems pq)) 1 (nelems pq - 1) in
           Inr (Some (a ! nelems pq), Some (pq\<lparr> nelems := nelems pq - 1, q := a \<rparr>)))
        else Inl Out_of_bounds)"

section \<open>Heap order\<close>

text \<open>
  Heap order on the keys \<open>f 1 .. f n\<close>, with a hole \<open>k\<close>: \<open>up_heap\<close> leaves out the comparison of
  \<open>k\<close> with its parent, \<open>down_heap\<close> those of \<open>k\<close> with its children.
\<close>

definition heap :: "(nat \<Rightarrow> 'k::linorder) \<Rightarrow> nat \<Rightarrow> bool" where
  "heap f n = (\<forall>i. 2 \<le> i \<and> i \<le> n \<longrightarrow> f i \<le> f (i div 2))"

definition skip_heap :: "(nat \<Rightarrow> 'k::linorder) \<Rightarrow> nat \<Rightarrow> nat \<Rightarrow> bool" where
  "skip_heap f n k = (\<forall>i. 2 \<le> i \<and> i \<le> n \<and> i div 2 = k \<and> 2 \<le> k \<longrightarrow> f i \<le> f (k div 2))"

definition up_heap :: "(nat \<Rightarrow> 'k::linorder) \<Rightarrow> nat \<Rightarrow> nat \<Rightarrow> bool" where
  "up_heap f n k = ((\<forall>i. 2 \<le> i \<and> i \<le> n \<and> i \<noteq> k \<longrightarrow> f i \<le> f (i div 2)) \<and> skip_heap f n k)"

definition down_heap :: "(nat \<Rightarrow> 'k::linorder) \<Rightarrow> nat \<Rightarrow> nat \<Rightarrow> bool" where
  "down_heap f n k =
     ((\<forall>i. 2 \<le> i \<and> i \<le> n \<and> i div 2 \<noteq> k \<longrightarrow> f i \<le> f (i div 2)) \<and> skip_heap f n k)"

lemma heap_max: "heap f n \<Longrightarrow> 1 \<le> i \<Longrightarrow> i \<le> n \<Longrightarrow> f i \<le> f 1"
proof (induction i rule: less_induct)
  case (less i)
  show ?case
  proof (cases "i = 1")
    case False
    with less.prems have "f i \<le> f (i div 2)" by (simp add: heap_def)
    also have "f (i div 2) \<le> f 1" using less False by auto
    finally show ?thesis .
  qed simp
qed

lemma up_heap_done:
  "up_heap f n k \<Longrightarrow> k \<le> 1 \<or> f k \<le> f (k div 2) \<Longrightarrow> heap f n"
  unfolding up_heap_def heap_def by (metis not_less_eq_eq numeral_2_eq_2 One_nat_def)

text \<open>
  The step lemmas are proved for any parent function \<open>h\<close> that has no fixed points above one; the
  heap's is \<open>\<lambda>i. i div 2\<close>.
\<close>

lemma up_step_order:
  fixes f :: "nat \<Rightarrow> 'k::linorder" and h :: "nat \<Rightarrow> nat"
  assumes o: "\<And>i. 2 \<le> i \<Longrightarrow> i \<le> n \<Longrightarrow> i \<noteq> k \<Longrightarrow> f i \<le> f (h i)"
    and g: "\<And>i. 2 \<le> i \<Longrightarrow> i \<le> n \<Longrightarrow> h i = k \<Longrightarrow> f i \<le> f p"
    and p: "p = h k" "p \<noteq> k" and lt: "f p < f k" and h: "\<And>i. 2 \<le> i \<Longrightarrow> h i \<noteq> i"
    and i: "2 \<le> i" "i \<le> n" "i \<noteq> p"
  shows "(f(k := f p, p := f k)) i \<le> (f(k := f p, p := f k)) (h i)"
proof (cases "i = k")
  case True with p lt show ?thesis by simp
next
  case ik: False
  consider "h i = k" | "h i = p" | "h i \<noteq> k" "h i \<noteq> p" by blast
  then show ?thesis
  proof cases
    case 1 with ik i g p show ?thesis by simp
  next
    case 2
    have "f i \<le> f p" using o [OF i(1,2) ik] 2 by simp
    with 2 ik i lt show ?thesis by simp
  next
    case 3 with ik i o [OF i(1,2) ik] show ?thesis by simp
  qed
qed

lemma up_heap_step:
  assumes "up_heap f n k" "1 < k" "k \<le> n" "f (k div 2) < f k"
  shows "up_heap (f(k := f (k div 2), k div 2 := f k)) n (k div 2)"
proof -
  define p where "p = k div 2"
  have p: "p \<noteq> k" "p < k" "1 \<le> p" using assms(2) by (auto simp: p_def)
  have o: "f i \<le> f (i div 2)" if "2 \<le> i" "i \<le> n" "i \<noteq> k" for i
    using assms(1) that by (simp add: up_heap_def)
  have g: "f i \<le> f p" if "2 \<le> i" "i \<le> n" "i div 2 = k" for i
    using assms(1,2) that by (simp add: up_heap_def skip_heap_def p_def)
  let ?g = "f(k := f p, p := f k)"
  have 1: "?g i \<le> ?g (i div 2)" if "2 \<le> i" "i \<le> n" "i \<noteq> p" for i
    by (rule up_step_order [where h = "\<lambda>i. i div 2" and n = n])
      (use o g p(1) assms(4) that in \<open>auto simp: p_def\<close>)
  have 2: "?g i \<le> ?g (p div 2)" if i: "2 \<le> i" "i \<le> n" "i div 2 = p" "2 \<le> p" for i
  proof -
    have "p div 2 \<noteq> p" "p div 2 < p" using i(4) by auto
    moreover have "f p \<le> f (p div 2)" using o [of p] i(4) p assms(3) by simp
    moreover have "f i \<le> f p" if "i \<noteq> k" using o [OF i(1,2) that] i(3) by simp
    moreover have "i \<noteq> p" using i by auto
    ultimately show ?thesis using p by auto
  qed
  show ?thesis unfolding up_heap_def skip_heap_def using 1 2 by (simp add: p_def)
qed

lemma down_heap_done:
  assumes "down_heap f n k" "\<And>i. 2 \<le> i \<Longrightarrow> i \<le> n \<Longrightarrow> i div 2 = k \<Longrightarrow> f i \<le> f k"
  shows "heap f n"
  using assms unfolding down_heap_def heap_def by metis

lemma down_heap_step:
  assumes d: "down_heap f n k" and k: "1 \<le> k" and j: "j div 2 = k" "2 \<le> j" "j \<le> n"
    and lt: "f k < f j" and max: "\<And>i. 2 \<le> i \<Longrightarrow> i \<le> n \<Longrightarrow> i div 2 = k \<Longrightarrow> f i \<le> f j"
  shows "down_heap (f(k := f j, j := f k)) n j"
proof -
  have kj: "k < j" using j by auto
  have o: "f i \<le> f (i div 2)" if "2 \<le> i" "i \<le> n" "i div 2 \<noteq> k" for i
    using d that by (simp add: down_heap_def)
  have g: "f i \<le> f (k div 2)" if "2 \<le> i" "i \<le> n" "i div 2 = k" "2 \<le> k" for i
    using d that by (simp add: down_heap_def skip_heap_def)
  let ?g = "f(k := f j, j := f k)"
  have 1: "?g i \<le> ?g (i div 2)" if i: "2 \<le> i" "i \<le> n" "i div 2 \<noteq> j" for i
  proof (cases "i div 2 = k")
    case True with kj lt max [OF i(1,2)] i show ?thesis by (cases "i = k") auto
  next
    case ik: False
    show ?thesis
    proof (cases "i = k")
      case True
      have "f j \<le> f (k div 2)" using g j i True by simp
      with True i ik kj show ?thesis by simp
    next
      case False
      have "i \<noteq> j" using ik j by auto
      with False ik i o [of i] show ?thesis by simp
    qed
  qed
  have 2: "?g i \<le> ?g k" if "2 \<le> i" "i \<le> n" "i div 2 = j" for i
  proof -
    have "f i \<le> f j" using o [of i] that kj by simp
    moreover have "i \<noteq> j" "i \<noteq> k" using that kj by auto
    ultimately show ?thesis using kj by simp
  qed
  show ?thesis unfolding down_heap_def skip_heap_def using 1 2 j(1) by simp
qed

section \<open>The loops\<close>

abbreviation keys :: "('k, 'v) u_pq_item list \<Rightarrow> nat \<Rightarrow> 'k" where
  "keys a \<equiv> \<lambda>i. key (a ! i)"

lemma keys_swap:
  "i < length a \<Longrightarrow> j < length a \<Longrightarrow> i \<noteq> j \<Longrightarrow>
   keys (pq_item_swap a i j) = (keys a)(i := keys a j, j := keys a i)"
  by (auto simp: pq_item_swap_def nth_list_update)

lemma swap_length [simp]: "length (pq_item_swap a i j) = length a"
  by (simp add: pq_item_swap_def)

text \<open>The items in use, as a multiset.\<close>

definition used :: "'a list \<Rightarrow> nat \<Rightarrow> 'a multiset" where
  "used a n = mset (take n (tl a))"

lemma used_swap:
  assumes "1 \<le> i" "i \<le> n" "1 \<le> j" "j \<le> n" "n < length a"
  shows "used (pq_item_swap a i j) n = used a n"
proof -
  obtain x xs where a: "a = x # xs" using assms by (cases a) auto
  obtain i' j' where ij: "i = Suc i'" "j = Suc j'" using assms by (cases i; cases j) auto
  have "take n (xs[i' := xs ! j', j' := xs ! i']) =
      (take n xs)[i' := take n xs ! j', j' := take n xs ! i']"
    using assms ij by (simp add: take_update_swap)
  moreover have "mset ((take n xs)[i' := take n xs ! j', j' := take n xs ! i']) = mset (take n xs)"
    using assms a ij by (intro mset_swap) auto
  ultimately show ?thesis
    using a ij by (simp add: used_def pq_item_swap_def)
qed

lemma used_Suc: "n + 1 < length a \<Longrightarrow> used a (Suc n) = add_mset (a ! Suc n) (used a n)"
  by (cases a) (auto simp: used_def take_Suc_conv_app_nth)

lemma used_update_out: "n < i \<Longrightarrow> used (a[i := x]) n = used a n"
  by (cases a; cases i) (auto simp: used_def)

lemma used_nth: "x \<in># used a n \<longleftrightarrow> (\<exists>i. 1 \<le> i \<and> i \<le> n \<and> i < length a \<and> x = a ! i)"
proof (cases a)
  case (Cons y ys)
  then have "x \<in># used a n \<longleftrightarrow> (\<exists>i. i < n \<and> i < length ys \<and> x = ys ! i)"
    by (auto simp: used_def in_set_conv_nth)
  also have "\<dots> \<longleftrightarrow> (\<exists>i. 1 \<le> i \<and> i \<le> n \<and> i < length a \<and> x = a ! i)" (is "?l = ?r")
  proof
    assume ?l
    then obtain i where "i < n" "i < length ys" "x = ys ! i" by blast
    then show ?r by (intro exI [of _ "Suc i"]) (simp add: Cons)
  next
    assume ?r
    then obtain i where "1 \<le> i" "i \<le> n" "i < length a" "x = a ! i" by blast
    then show ?l by (intro exI [of _ "i - 1"]) (auto simp: Cons nth_Cons')
  qed
  finally show ?thesis .
qed (simp add: used_def)

lemma bubble_up_ok:
  assumes "up_heap (keys a) n k" "1 \<le> k" "k \<le> n" "n < length a"
  shows "heap (keys (bubble_up a k)) n \<and> used (bubble_up a k) n = used a n
    \<and> length (bubble_up a k) = length a"
  using assms
proof (induction a k rule: bubble_up.induct)
  case (1 a k)
  let ?p = "k div 2" and ?s = "pq_item_swap a k (k div 2)"
  show ?case
  proof (cases "k > 1 \<and> pq_item_comp (a ! ?p) (a ! k)")
    case True
    then have k: "1 < k" "keys a ?p < keys a k" by (auto simp: pq_item_comp_def)
    then have p: "1 \<le> ?p" "?p < k" by auto
    have "up_heap (keys ?s) n ?p"
      using up_heap_step [OF 1(2) k(1) 1(4) k(2)] keys_swap [of k a ?p] 1 p by simp
    then show ?thesis
      using 1(1) [OF True] used_swap [of k n ?p a] 1(3-) p True
      by (subst (1 2 3) bubble_up.simps) simp
  next
    case False
    then have "bubble_up a k = a" by (subst bubble_up.simps) (rule if_not_P)
    moreover have "heap (keys a) n"
      using up_heap_done [OF 1(2)] False by (auto simp: pq_item_comp_def not_less)
    ultimately show ?thesis by simp
  qed
qed

lemma bigger_child_max:
  assumes "2 * k \<le> n"
  shows "bigger_child a k n div 2 = k" "bigger_child a k n \<le> n"
    "2 \<le> i \<Longrightarrow> i \<le> n \<Longrightarrow> i div 2 = k \<Longrightarrow> keys a i \<le> keys a (bigger_child a k n)"
proof -
  show "bigger_child a k n div 2 = k" "bigger_child a k n \<le> n"
    using assms by (auto simp: bigger_child_def)
  assume i: "2 \<le> i" "i \<le> n" "i div 2 = k"
  then have "i = 2 * k \<or> i = 2 * k + 1" by auto
  then show "keys a i \<le> keys a (bigger_child a k n)"
    using i by (auto simp: bigger_child_def pq_item_comp_def not_less)
qed

lemma bubble_down_ok:
  assumes "down_heap (keys a) n k" "1 \<le> k" "n < length a"
  shows "heap (keys (bubble_down a k n)) n \<and> used (bubble_down a k n) n = used a n
    \<and> length (bubble_down a k n) = length a
    \<and> (\<forall>i. n < i \<longrightarrow> bubble_down a k n ! i = a ! i)"
  using assms
proof (induction a k n rule: bubble_down.induct)
  case (1 a k n)
  let ?j = "bigger_child a k n"
  let ?s = "pq_item_swap a k ?j"
  note max = bigger_child_max [where a = a and k = k and n = n]
  show ?case
  proof (cases "2 * k \<le> n")
    case kn: True
    show ?thesis
    proof (cases "pq_item_comp (a ! k) (a ! ?j)")
      case True
      then have lt: "keys a k < keys a ?j" by (simp add: pq_item_comp_def)
      note j = bigger_child_gt [OF kn True]
      have j2: "2 \<le> ?j" using j 1(3) by simp
      have ks: "keys ?s = (keys a)(k := keys a ?j, ?j := keys a k)"
        using 1(4) j by (intro keys_swap) auto
      have "down_heap (keys ?s) n ?j"
        unfolding ks by (rule down_heap_step [OF 1(2,3) max(1) [OF kn] j2 j(2) lt max(3) [OF kn]])
      then have "heap (keys (bubble_down ?s ?j n)) n \<and> used (bubble_down ?s ?j n) n = used ?s n
        \<and> length (bubble_down ?s ?j n) = length ?s
        \<and> (\<forall>i. n < i \<longrightarrow> bubble_down ?s ?j n ! i = ?s ! i)"
        using 1(1) [OF kn refl] True 1(4) j2 by simp
      moreover have "bubble_down a k n = bubble_down ?s ?j n"
        by (subst bubble_down.simps) (simp add: kn True Let_def)
      moreover have "used ?s n = used a n" using used_swap [of k n ?j a] 1(3,4) j by simp
      moreover have "?s ! i = a ! i" if "n < i" for i
        using that j by (simp add: pq_item_swap_def)
      ultimately show ?thesis by simp
    next
      case False
      have "heap (keys a) n"
        using down_heap_done [OF 1(2)] max(3) [OF kn] False
        by (force simp: pq_item_comp_def not_less)
      moreover have "bubble_down a k n = a"
        by (subst bubble_down.simps) (simp add: kn False Let_def)
      ultimately show ?thesis by simp
    qed
  next
    case False
    have "heap (keys a) n" using down_heap_done [OF 1(2)] False by auto
    moreover have "bubble_down a k n = a"
      by (subst bubble_down.simps) (simp add: False)
    ultimately show ?thesis by simp
  qed
qed

section \<open>The queue as a priority queue\<close>

text \<open>
  The invariant of a queue, and its contents. A bounded priority queue promises that a push adds
  an element unless the queue is full, and that a pop takes out one with the largest priority.
\<close>

definition pq_inv :: "('k::linorder, 'v) u_pq \<Rightarrow> bool" where
  "pq_inv pq = (heap (keys (q pq)) (nelems pq) \<and> nelems pq \<le> nitems pq
     \<and> length (q pq) = nitems pq + 1)"

definition pq_items :: "('k, 'v) u_pq \<Rightarrow> ('k, 'v) u_pq_item multiset" where
  "pq_items pq = used (q pq) (nelems pq)"

lemma pq_items_size: "pq_inv pq \<Longrightarrow> size (pq_items pq) = nelems pq"
  by (cases "q pq") (auto simp: pq_inv_def pq_items_def used_def min_def)

lemma u_pq_push_ok:
  assumes "pq_inv pq" "nelems pq < nitems pq"
  obtains pq' where "u_pq_push (Some pq) k v = Inr (0, Some pq')" "pq_inv pq'"
    "nitems pq' = nitems pq" "pq_items pq' = add_mset \<lparr> key = k, val = v \<rparr> (pq_items pq)"
proof -
  define n where "n = nelems pq + 1"
  define a where "a = (q pq)[n := \<lparr> key = k, val = v \<rparr>]"
  have len: "n < length a" using assms by (simp add: n_def a_def pq_inv_def)
  have "keys a i \<le> keys a (i div 2)" if "2 \<le> i" "i \<le> n" "i \<noteq> n" for i
  proof -
    have "i div 2 \<noteq> n" "i < n" using that by auto
    with that assms show ?thesis by (simp add: a_def n_def pq_inv_def heap_def)
  qed
  moreover have "skip_heap (keys a) n n" by (auto simp: skip_heap_def)
  ultimately have "up_heap (keys a) n n" by (simp add: up_heap_def)
  then have b: "heap (keys (bubble_up a n)) n" "used (bubble_up a n) n = used a n"
      "length (bubble_up a n) = length a"
    using bubble_up_ok [of a n n] len by (auto simp: n_def)
  have u: "used a n = add_mset \<lparr> key = k, val = v \<rparr> (pq_items pq)"
    using used_Suc [of "nelems pq" a] len used_update_out [of "nelems pq" n "q pq"]
    by (simp add: n_def a_def pq_items_def)
  let ?pq = "pq\<lparr> nelems := n, q := bubble_up a n \<rparr>"
  show ?thesis
  proof
    show "u_pq_push (Some pq) k v = Inr (0, Some ?pq)"
      using assms len by (simp add: u_pq_push_def u_pq_full_def n_def a_def Let_def pq_inv_def)
    show "pq_inv ?pq" using b assms by (simp add: pq_inv_def n_def a_def)
    show "nitems ?pq = nitems pq" by simp
    show "pq_items ?pq = add_mset \<lparr> key = k, val = v \<rparr> (pq_items pq)"
      using b u by (simp add: pq_items_def)
  qed
qed

lemma u_pq_push_full:
  "pq_inv pq \<Longrightarrow> nelems pq = nitems pq \<Longrightarrow> u_pq_push (Some pq) k v = Inr (- 2, Some pq)"
  by (simp add: u_pq_push_def u_pq_full_def)

lemma u_pq_delmax_ok:
  assumes inv: "pq_inv pq" and ne: "nelems pq \<noteq> 0"
  obtains it pq' where "u_pq_delmax (Some pq) = Inr (Some it, Some pq')" "pq_inv pq'"
    "nitems pq' = nitems pq" "pq_items pq = add_mset it (pq_items pq')"
    "\<forall>x \<in># pq_items pq. key x \<le> key it" "u_pq_peekmax (Some pq) = Inr it"
proof -
  define n where "n = nelems pq"
  define s where "s = pq_item_swap (q pq) 1 n"
  define a where "a = bubble_down s 1 (n - 1)"
  have n: "1 \<le> n" "n < length s" "length s = length (q pq)" "n = Suc (n - 1)"
    using inv ne by (auto simp: n_def s_def pq_inv_def)
  have "keys s i \<le> keys s (i div 2)" if "2 \<le> i" "i \<le> n - 1" "i div 2 \<noteq> 1" for i
  proof -
    have "i \<noteq> n" "i div 2 \<noteq> n" "i \<noteq> 1" "i \<le> n" using that by auto
    with that inv n show ?thesis
      by (simp add: s_def n_def [symmetric] pq_inv_def heap_def pq_item_swap_def)
  qed
  then have "down_heap (keys s) (n - 1) 1" by (auto simp: down_heap_def skip_heap_def)
  then have b: "heap (keys a) (n - 1)" "used a (n - 1) = used s (n - 1)" "length a = length s"
      "a ! n = s ! n"
    using bubble_down_ok [of s "n - 1" 1] n by (auto simp: a_def)
  have it: "s ! n = q pq ! 1" using n by (auto simp: s_def pq_item_swap_def)
  have us: "used s n = pq_items pq"
    using used_swap [of 1 n n "q pq"] n by (simp add: s_def pq_items_def n_def)
  have all: "pq_items pq = add_mset (a ! n) (used a (n - 1))"
    using used_Suc [of "n - 1" s] n b us by simp
  have max: "key x \<le> key (q pq ! 1)" if "x \<in># pq_items pq" for x
    using that heap_max [of "keys (q pq)" n] inv by (auto simp: pq_items_def used_nth pq_inv_def n_def)
  let ?pq = "pq\<lparr> nelems := n - 1, q := a \<rparr>"
  show ?thesis
  proof
    show "u_pq_delmax (Some pq) = Inr (Some (a ! n), Some ?pq)"
      using ne n by (simp add: u_pq_delmax_def n_def [symmetric] a_def s_def Let_def)
    have "n - 1 \<le> nitems pq" using inv by (auto simp: pq_inv_def n_def)
    then show "pq_inv ?pq" using b n inv by (simp add: pq_inv_def)
    show "nitems ?pq = nitems pq" by simp
    show "pq_items pq = add_mset (a ! n) (pq_items ?pq)" using all by (simp add: pq_items_def)
    show "\<forall>x \<in># pq_items pq. key x \<le> key (a ! n)" using max b(4) it by simp
    show "u_pq_peekmax (Some pq) = Inr (a ! n)" using b(4) it inv n by (simp add: u_pq_peekmax_def)
  qed
qed

lemma u_pq_delmax_empty:
  "nelems pq = 0 \<Longrightarrow> u_pq_delmax (Some pq) = Inr (None, Some pq)"
  by (simp add: u_pq_delmax_def)

section \<open>The interface and its client\<close>

text \<open>
  What a client may use: a push that fails only when the queue is full, and a pop of a largest
  element. Pushing a list and popping everything then sorts it.
\<close>

fun push_list :: "('s \<Rightarrow> 'i \<Rightarrow> 's option) \<Rightarrow> 's \<Rightarrow> 'i list \<Rightarrow> 's option" where
  "push_list push s [] = Some s"
| "push_list push s (x # xs) =
     (case push s x of None \<Rightarrow> None | Some s' \<Rightarrow> push_list push s' xs)"

fun pop_list :: "('s \<Rightarrow> ('i \<times> 's) option) \<Rightarrow> 's \<Rightarrow> nat \<Rightarrow> 'i list" where
  "pop_list pop s 0 = []"
| "pop_list pop s (Suc n) =
     (case pop s of None \<Rightarrow> [] | Some (x, s') \<Rightarrow> x # pop_list pop s' n)"

locale bounded_pq =
  fixes inv :: "'s \<Rightarrow> bool" and items :: "'s \<Rightarrow> 'i multiset" and cap :: "'s \<Rightarrow> nat"
    and prio :: "'i \<Rightarrow> 'k::linorder"
    and push :: "'s \<Rightarrow> 'i \<Rightarrow> 's option" and pop :: "'s \<Rightarrow> ('i \<times> 's) option"
  assumes push_full: "inv s \<Longrightarrow> size (items s) = cap s \<Longrightarrow> push s x = None"
    and push_ok: "inv s \<Longrightarrow> size (items s) < cap s \<Longrightarrow>
      \<exists>s'. push s x = Some s' \<and> inv s' \<and> cap s' = cap s \<and> items s' = add_mset x (items s)"
    and pop_empty: "inv s \<Longrightarrow> items s = {#} \<Longrightarrow> pop s = None"
    and pop_ok: "inv s \<Longrightarrow> items s \<noteq> {#} \<Longrightarrow>
      \<exists>x s'. pop s = Some (x, s') \<and> inv s' \<and> cap s' = cap s \<and> items s = add_mset x (items s')
        \<and> (\<forall>y \<in># items s. prio y \<le> prio x)"
begin

lemma push_list_ok:
  assumes "inv s" "size (items s) + length xs \<le> cap s"
  shows "\<exists>s'. push_list push s xs = Some s' \<and> inv s' \<and> items s' = items s + mset xs"
  using assms
proof (induction xs arbitrary: s)
  case (Cons x xs)
  obtain s' where s': "push s x = Some s'" "inv s'" "cap s' = cap s" "items s' = add_mset x (items s)"
    using push_ok [of s x] Cons.prems by auto
  then show ?case using Cons.IH [of s'] Cons.prems by auto
qed simp

lemma push_list_overflow:
  assumes "inv s" "size (items s) \<le> cap s" "cap s < size (items s) + length xs"
  shows "push_list push s xs = None"
  using assms
proof (induction xs arbitrary: s)
  case (Cons x xs)
  show ?case
  proof (cases "size (items s) = cap s")
    case False
    then obtain s' where s': "push s x = Some s'" "inv s'" "cap s' = cap s"
        "items s' = add_mset x (items s)"
      using push_ok [of s x] Cons.prems by auto
    then show ?thesis using Cons.IH [of s'] Cons.prems False by auto
  qed (use Cons.prems push_full [of s x] in simp)
qed simp

lemma pop_list_sorts:
  assumes "inv s" "n = size (items s)"
  shows "mset (pop_list pop s n) = items s \<and> sorted (rev (map prio (pop_list pop s n)))"
  using assms
proof (induction n arbitrary: s)
  case (Suc n)
  then have "items s \<noteq> {#}" by auto
  then obtain x s' where p: "pop s = Some (x, s')" "inv s'" "items s = add_mset x (items s')"
      "\<forall>y \<in># items s. prio y \<le> prio x"
    using pop_ok [OF Suc.prems(1)] by blast
  then have ih: "mset (pop_list pop s' n) = items s'" "sorted (rev (map prio (pop_list pop s' n)))"
    using Suc.IH [of s'] Suc.prems by auto
  have "set (pop_list pop s' n) = set_mset (items s')" by (simp flip: ih(1))
  with ih p show ?case by (auto simp: sorted_append)
qed simp

lemma queue_sort:
  assumes "inv s" "items s = {#}" "length xs \<le> cap s"
  shows "\<exists>s'. push_list push s xs = Some s' \<and> mset (pop_list pop s' (length xs)) = mset xs
    \<and> sorted (rev (map prio (pop_list pop s' (length xs))))"
proof -
  obtain s' where s': "push_list push s xs = Some s'" "inv s'" "items s' = mset xs"
    using push_list_ok [of s xs] assms by auto
  then show ?thesis using pop_list_sorts [of s' "length xs"] by simp
qed

end

text \<open>The operations of the source in the form of the interface.\<close>

definition pq_push :: "('k::linorder, 'v) u_pq \<Rightarrow> ('k, 'v) u_pq_item \<Rightarrow> ('k, 'v) u_pq option" where
  "pq_push pq it =
     (case u_pq_push (Some pq) (key it) (val it) of
        Inr (rc, pq') \<Rightarrow> if rc = 0 then pq' else None
      | Inl e \<Rightarrow> None)"

definition pq_pop :: "('k::linorder, 'v) u_pq \<Rightarrow> (('k, 'v) u_pq_item \<times> ('k, 'v) u_pq) option" where
  "pq_pop pq =
     (case u_pq_delmax (Some pq) of
        Inr (Some it, Some pq') \<Rightarrow> Some (it, pq')
      | _ \<Rightarrow> None)"

lemma pq_items_empty: "pq_inv pq \<Longrightarrow> pq_items pq = {#} \<longleftrightarrow> nelems pq = 0"
  using pq_items_size [of pq] by auto

interpretation hq: bounded_pq pq_inv pq_items nitems key pq_push pq_pop
proof
  fix pq :: "('a::linorder, 'b) u_pq" and it :: "('a, 'b) u_pq_item"
  assume inv: "pq_inv pq"
  show "pq_push pq it = None" if "size (pq_items pq) = nitems pq"
    using inv that u_pq_push_full [of pq] by (simp add: pq_push_def pq_items_size)
  show "\<exists>pq'. pq_push pq it = Some pq' \<and> pq_inv pq' \<and> nitems pq' = nitems pq
      \<and> pq_items pq' = add_mset it (pq_items pq)" if "size (pq_items pq) < nitems pq"
  proof -
    have lt: "nelems pq < nitems pq" using inv that by (simp add: pq_items_size)
    show ?thesis
      by (rule u_pq_push_ok [OF inv lt, of "key it" "val it"]) (auto simp: pq_push_def)
  qed
  show "pq_pop pq = None" if "pq_items pq = {#}"
    using inv that by (simp add: pq_pop_def pq_items_empty u_pq_delmax_empty)
  show "\<exists>x pq'. pq_pop pq = Some (x, pq') \<and> pq_inv pq' \<and> nitems pq' = nitems pq
      \<and> pq_items pq = add_mset x (pq_items pq') \<and> (\<forall>y \<in># pq_items pq. key y \<le> key x)"
    if "pq_items pq \<noteq> {#}"
  proof -
    have ne: "nelems pq \<noteq> 0" using inv that by (simp add: pq_items_empty)
    show ?thesis
      by (rule u_pq_delmax_ok [OF inv ne]) (auto simp: pq_pop_def)
  qed
qed

section \<open>Properties\<close>

lemma u_pq_create_inv:
  assumes "2 \<le> n" "n \<noteq> - 1"
  shows "\<exists>pq. u_pq_create True n True True = (rc_ok, Some pq) \<and> pq_inv pq \<and> pq_items pq = {#}
    \<and> nitems pq = unat n"
proof -
  have "unat (n + 1) = unat n + 1"
    using assms(2) unatSuc [of n] by (simp add: add_eq_0_iff add.commute)
  then show ?thesis using assms(1)
    by (auto simp: u_pq_create_def pq_inv_def pq_items_def used_def heap_def not_less)
qed

text \<open>
  C4: pushing the items of a list on a new queue with room for them and deleting the maximum as
  often gives the same items in descending order of their keys.
\<close>
theorem u_pq_sorts:
  assumes "2 \<le> n" "n \<noteq> - 1" "length xs \<le> unat n"
  shows "\<exists>pq pq'. u_pq_create True n True True = (rc_ok, Some pq)
    \<and> push_list pq_push pq xs = Some pq' \<and> mset (pop_list pq_pop pq' (length xs)) = mset xs
    \<and> sorted (rev (map key (pop_list pq_pop pq' (length xs))))"
proof -
  obtain pq :: "('a, 'b) u_pq" where "u_pq_create True n True True = (rc_ok, Some pq)" "pq_inv pq"
      "pq_items pq = {#}" "nitems pq = unat n"
    using u_pq_create_inv [OF assms(1,2)] by blast
  then show ?thesis using hq.queue_sort [of pq xs] assms(3) by auto
qed

lemma u_pq_sorts_witness:
  "\<exists>pq pq'. u_pq_create True 4 True True = (rc_ok, Some pq)
     \<and> push_list pq_push pq [\<lparr> key = 5 :: int, val = Some CHR ''a'' \<rparr>, \<lparr> key = 7, val = None \<rparr>] = Some pq'
     \<and> mset (pop_list pq_pop pq' 2) = {# \<lparr> key = 5, val = Some CHR ''a'' \<rparr>, \<lparr> key = 7, val = None \<rparr> #}
     \<and> sorted (rev (map key (pop_list pq_pop pq' 2)))"
proof -
  let ?xs = "[\<lparr> key = 5 :: int, val = Some CHR ''a'' \<rparr>, \<lparr> key = 7, val = None \<rparr>]"
  have l: "length ?xs = 2" by simp
  show ?thesis using u_pq_sorts [of 4 ?xs, unfolded l] by simp
qed

text \<open>
  \<open>u_pq_push\<close> on a queue that satisfies the invariant never leaves the array: it returns
  \<open>-2\<close> and the same queue when the queue is full, and otherwise \<open>0\<close> and a queue with the
  invariant that holds the new element in addition.
\<close>
theorem u_pq_push_spec:
  assumes "pq_inv pq"
  shows "if u_pq_full pq then u_pq_push (Some pq) k v = Inr (- 2, Some pq)
     else \<exists>pq'. u_pq_push (Some pq) k v = Inr (0, Some pq') \<and> pq_inv pq'
       \<and> pq_items pq' = add_mset \<lparr> key = k, val = v \<rparr> (pq_items pq)"
proof (cases "u_pq_full pq")
  case False
  with assms have lt: "nelems pq < nitems pq" by (simp add: u_pq_full_def pq_inv_def)
  show ?thesis using False by (auto intro: u_pq_push_ok [OF assms lt, of k v])
qed (simp add: u_pq_push_def)

lemma u_pq_push_spec_witness:
  "\<exists>pq'. u_pq_push (Some \<lparr> nelems = 0, nitems = 2, q = replicate 3 zero_item \<rparr>) (1 :: int) None
     = Inr (0, Some pq') \<and> pq_inv pq' \<and> pq_items pq' = {# \<lparr> key = 1, val = None :: char option \<rparr> #}"
  using u_pq_push_spec [of "\<lparr> nelems = 0, nitems = 2, q = replicate 3 zero_item \<rparr>" "1 :: int"
      "None :: char option"]
  by (simp add: pq_inv_def heap_def u_pq_full_def pq_items_def used_def)

text \<open>
  \<open>u_pq_delmax\<close> keeps the invariant and takes out of a non-empty queue one element, which has
  the largest key and is the one \<open>u_pq_peekmax\<close> shows; on an empty queue it returns \<open>NULL\<close>.
\<close>
theorem u_pq_delmax_spec:
  assumes "pq_inv pq"
  shows "if u_pq_empty pq then u_pq_delmax (Some pq) = Inr (None, Some pq)
     else \<exists>it pq'. u_pq_delmax (Some pq) = Inr (Some it, Some pq') \<and> pq_inv pq'
       \<and> u_pq_peekmax (Some pq) = Inr it
       \<and> pq_items pq = add_mset it (pq_items pq') \<and> (\<forall>x \<in># pq_items pq. key x \<le> key it)"
proof (cases "u_pq_empty pq")
  case False
  then have ne: "nelems pq \<noteq> 0" by (simp add: u_pq_empty_def)
  show ?thesis using False by (auto intro: u_pq_delmax_ok [OF assms ne])
qed (simp add: u_pq_delmax_def u_pq_empty_def)

lemma u_pq_delmax_spec_witness:
  "\<exists>it pq'. u_pq_delmax (Some \<lparr> nelems = 1, nitems = 2, q = replicate 3 (zero_item :: (int, char) u_pq_item) \<rparr>)
     = Inr (Some it, Some pq') \<and> pq_inv pq' \<and> {# zero_item #} = add_mset it (pq_items pq')"
  using u_pq_delmax_spec [of "\<lparr> nelems = 1, nitems = 2, q = replicate 3 (zero_item :: (int, char) u_pq_item) \<rparr>"]
  by (auto simp: pq_inv_def heap_def u_pq_empty_def pq_items_def used_def)

end
