(* ===== verification/Ring_Buffer.thy ===== *)
theory Ring_Buffer
  imports Prelude
begin

text \<open>
  The ring buffer of \<open>srcs/toolbox/rb.c\<close>: a byte queue with a read and a write offset in a block.
  A contiguous buffer has a block of twice its size whose halves mirror each other, by explicit
  copies (\<open>mirror\<close>) when the block comes from \<open>malloc\<close> and by the virtual memory mapping when it
  comes from \<open>mmap\<close>. Other buffers wrap around the end of the block. Offsets and sizes are
  naturals below \<open>2 ^ 64\<close>; subtractions that may underflow are written in \<open>size_t\<close>.
\<close>

unbundle bit_operations_syntax

section \<open>Data\<close>

text \<open>The callback fields hold one of two families of methods, or \<open>NULL\<close>.\<close>

datatype rb_method = Contiguous | Wrapped

record u_rb =
  base :: "byte list"
  sz :: nat
  wr_off :: nat
  rd_off :: nat
  ready :: nat
  opts :: "32 word"
  cb_read :: "rb_method option"
  cb_fast_read :: "rb_method option"
  cb_write :: "rb_method option"

definition U_RB_OPT_USE_CONTIGUOUS_MEM :: "32 word" where "U_RB_OPT_USE_CONTIGUOUS_MEM = 1"
definition U_RB_OPT_IMPL_MALLOC :: "32 word" where "U_RB_OPT_IMPL_MALLOC = 2"

lemmas opt_defs = U_RB_OPT_USE_CONTIGUOUS_MEM_def U_RB_OPT_IMPL_MALLOC_def

section \<open>Creation\<close>

text \<open>\<open>real_sz\<close> is doubled in \<open>size_t\<close>.\<close>

definition create_malloc ::
  "size_t \<Rightarrow> 32 word \<Rightarrow> bool \<Rightarrow> bool \<Rightarrow> bool \<Rightarrow> rc \<times> u_rb option" where
  "create_malloc s op prb alloc_rb alloc_base =
     (if s = 0 then (- 1, None)
      else if \<not> prb then (- 1, None)
      else if \<not> alloc_rb then (- 1, None)
      else
        (let contig = (op AND U_RB_OPT_USE_CONTIGUOUS_MEM \<noteq> 0);
             real_sz = (if contig then push_bit 1 s else s)
         in if \<not> alloc_base then (- 1, None)
            else (0, Some \<lparr> base = replicate (unat real_sz) 0, sz = unat s,
                            wr_off = 0, rd_off = 0, ready = 0, opts = op,
                            cb_read = Some (if contig then Contiguous else Wrapped),
                            cb_fast_read = (if contig then Some Contiguous else None),
                            cb_write = Some (if contig then Contiguous else Wrapped) \<rparr>)))"

text \<open>\<open>pg_sz\<close> is the page size of the system.\<close>

definition round_sz :: "nat \<Rightarrow> nat \<Rightarrow> nat" where
  "round_sz pg_sz s = (if s = 0 then pg_sz else ((s - 1) div pg_sz + 1) * pg_sz)"

text \<open>
  \<open>sys\<close> holds the outcomes of the allocation and of the system calls in their order: \<open>mkstemp\<close>,
  \<open>u_remove\<close>, \<open>ftruncate\<close>, the three \<open>mmap\<close> calls and \<open>close\<close>.
\<close>

definition create_mmap ::
  "nat \<Rightarrow> bool list \<Rightarrow> nat \<Rightarrow> 32 word \<Rightarrow> bool \<Rightarrow> (rc \<times> u_rb option) outcome" where
  "create_mmap pg_sz sys hint_sz op prb =
     (if \<not> list_all id sys then Inr (- 1, None)
      else if \<not> prb then Inl Null_deref
      else (let s = round_sz pg_sz hint_sz in
        Inr (0, Some \<lparr> base = replicate (2 * s) 0, sz = s, wr_off = 0, rd_off = 0, ready = 0,
                   opts = op, cb_read = Some Contiguous, cb_fast_read = Some Contiguous,
                   cb_write = Some Contiguous \<rparr>)))"

definition u_rb_create ::
  "bool \<Rightarrow> nat \<Rightarrow> bool list \<Rightarrow> size_t \<Rightarrow> 32 word \<Rightarrow> bool \<Rightarrow> bool \<Rightarrow> bool
   \<Rightarrow> (rc \<times> u_rb option) outcome" where
  "u_rb_create can_mmap pg_sz sys hint_sz op prb alloc_rb alloc_base =
     (if op AND U_RB_OPT_IMPL_MALLOC \<noteq> 0 then Inr (create_malloc hint_sz op prb alloc_rb alloc_base)
      else if can_mmap then create_mmap pg_sz sys (unat hint_sz) op prb
      else Inr (create_malloc hint_sz (op OR U_RB_OPT_IMPL_MALLOC) prb alloc_rb alloc_base))"

section \<open>Counters\<close>

definition u_rb_size :: "u_rb \<Rightarrow> nat" where "u_rb_size rb = sz rb"

definition u_rb_ready :: "u_rb \<Rightarrow> nat" where "u_rb_ready rb = ready rb"

definition u_rb_avail :: "u_rb \<Rightarrow> nat" where "u_rb_avail rb = size_sub (sz rb) (ready rb)"

definition u_rb_clear :: "u_rb option \<Rightarrow> rc \<times> u_rb option" where
  "u_rb_clear h =
     (case h of None \<Rightarrow> (- 1, None)
      | Some rb \<Rightarrow> (0, Some (rb\<lparr> wr_off := 0, rd_off := 0, ready := 0 \<rparr>)))"

definition write_incr_contiguous :: "u_rb \<Rightarrow> nat \<Rightarrow> u_rb" where
  "write_incr_contiguous rb cnt = rb\<lparr> wr_off := wr_off rb + cnt \<rparr>"

definition write_incr_wrapped :: "u_rb \<Rightarrow> nat \<Rightarrow> u_rb" where
  "write_incr_wrapped rb cnt = rb\<lparr> wr_off := (wr_off rb + cnt) mod sz rb \<rparr>"

definition read_incr_wrapped :: "u_rb \<Rightarrow> nat \<Rightarrow> u_rb" where
  "read_incr_wrapped rb cnt = rb\<lparr> rd_off := (rd_off rb + cnt) mod sz rb \<rparr>"

definition read_incr_contiguous :: "u_rb \<Rightarrow> nat \<Rightarrow> u_rb" where
  "read_incr_contiguous rb cnt =
     (let rb' = rb\<lparr> rd_off := rd_off rb + cnt \<rparr> in
      if rd_off rb' \<ge> sz rb'
      then rb'\<lparr> rd_off := rd_off rb' - sz rb', wr_off := size_sub (wr_off rb') (sz rb') \<rparr>
      else rb')"

definition is_wrapped :: "u_rb \<Rightarrow> bool" where
  "is_wrapped rb = (rd_off rb > wr_off rb)"

section \<open>Writers\<close>

text \<open>
  A write of \<open>xs\<close> at an offset of the block. The mapping \<open>mm\<close> stands for the operating system:
  \<open>mm s off xs b\<close> is the double mapping of a region of size \<open>s\<close> after \<open>xs\<close> is copied to \<open>off\<close>.
\<close>

type_synonym mapping = "nat \<Rightarrow> nat \<Rightarrow> byte list \<Rightarrow> byte list \<Rightarrow> byte list"

definition memcpy_to :: "mapping \<Rightarrow> u_rb \<Rightarrow> nat \<Rightarrow> byte list \<Rightarrow> byte list outcome" where
  "memcpy_to mm rb off xs =
     obind (blit (base rb) off xs) (\<lambda>b.
       Inr (if opts rb AND U_RB_OPT_IMPL_MALLOC \<noteq> 0 then b else mm (sz rb) off xs (base rb)))"

definition mirror :: "u_rb \<Rightarrow> byte list \<Rightarrow> u_rb outcome" where
  "mirror rb xs =
     (let n = length xs in
      obind
       (if wr_off rb + n \<le> sz rb then blit (base rb) (wr_off rb + sz rb) xs
        else if wr_off rb \<ge> sz rb then blit (base rb) (wr_off rb - sz rb) xs
        else
          (let left_sz = sz rb - wr_off rb in
           obind (blit (base rb) (wr_off rb + sz rb) (take left_sz xs)) (\<lambda>b.
             blit b 0 (drop left_sz xs))))
       (\<lambda>b. Inr (rb\<lparr> base := b \<rparr>)))"

definition write_contiguous ::
  "mapping \<Rightarrow> u_rb \<Rightarrow> byte list option \<Rightarrow> nat \<Rightarrow> (int \<times> u_rb) outcome" where
  "write_contiguous mm rb b b_sz =
     (case b of None \<Rightarrow> Inr (- 1, rb)
      | Some src \<Rightarrow>
        if b_sz > u_rb_size rb then Inr (- 1, rb)
        else
          (let n = min (u_rb_avail rb) b_sz in
           if n = 0 then Inr (0, rb)
           else
             obind (slice src 0 n) (\<lambda>xs.
             obind (memcpy_to mm rb (wr_off rb) xs) (\<lambda>b1.
             obind (if opts rb AND U_RB_OPT_IMPL_MALLOC \<noteq> 0 then mirror (rb\<lparr> base := b1 \<rparr>) xs
                    else Inr (rb\<lparr> base := b1 \<rparr>)) (\<lambda>rb1.
               Inr (int n, write_incr_contiguous rb1 n))))))"

definition write_wrapped ::
  "u_rb \<Rightarrow> byte list option \<Rightarrow> nat \<Rightarrow> (int \<times> u_rb) outcome" where
  "write_wrapped rb b b_sz =
     (case b of None \<Rightarrow> Inr (- 1, rb)
      | Some src \<Rightarrow>
        if b_sz > u_rb_size rb then Inr (- 1, rb)
        else
          (let n = min (u_rb_avail rb) b_sz in
           if n = 0 then Inr (0, rb)
           else
             (let rspace = size_sub (sz rb) (wr_off rb) in
              obind
               (if is_wrapped rb \<or> rspace \<ge> n then
                  obind (slice src 0 n) (\<lambda>xs. blit (base rb) (wr_off rb) xs)
                else
                  obind (slice src 0 rspace) (\<lambda>xs.
                  obind (slice src rspace (size_sub n rspace)) (\<lambda>ys.
                  obind (blit (base rb) (wr_off rb) xs) (\<lambda>b1. blit b1 0 ys))))
               (\<lambda>b2. Inr (int n, write_incr_wrapped (rb\<lparr> base := b2 \<rparr>) n)))))"

definition u_rb_write ::
  "mapping \<Rightarrow> u_rb option \<Rightarrow> byte list option \<Rightarrow> nat \<Rightarrow> (int \<times> u_rb option) outcome" where
  "u_rb_write mm h b b_sz =
     (case h of None \<Rightarrow> Inr (- 1, None)
      | Some rb \<Rightarrow>
        (case cb_write rb of None \<Rightarrow> Inr (- 1, h)
         | Some m \<Rightarrow>
           obind (case m of Contiguous \<Rightarrow> write_contiguous mm rb b b_sz
                          | Wrapped \<Rightarrow> write_wrapped rb b b_sz)
             (\<lambda>(rc, rb'). Inr (rc, Some (if rc \<ge> 0 then rb'\<lparr> ready := ready rb' + nat rc \<rparr> else rb')))))"

section \<open>Readers\<close>

text \<open>The result holds the destination block after the call.\<close>

definition read_contiguous ::
  "u_rb \<Rightarrow> byte list option \<Rightarrow> nat \<Rightarrow> (int \<times> byte list \<times> u_rb) outcome" where
  "read_contiguous rb b b_sz =
     (case b of None \<Rightarrow> Inr (- 1, [], rb)
      | Some dst \<Rightarrow>
        if b_sz > u_rb_size rb then Inr (- 1, dst, rb)
        else
          (let n = min (u_rb_ready rb) b_sz in
           if n = 0 then Inr (0, dst, rb)
           else
             obind (slice (base rb) (rd_off rb) n) (\<lambda>xs.
             obind (blit dst 0 xs) (\<lambda>dst'.
               Inr (int n, dst', read_incr_contiguous rb n)))))"

definition read_wrapped ::
  "u_rb \<Rightarrow> byte list option \<Rightarrow> nat \<Rightarrow> (int \<times> byte list \<times> u_rb) outcome" where
  "read_wrapped rb b b_sz =
     (case b of None \<Rightarrow> Inr (- 1, [], rb)
      | Some dst \<Rightarrow>
        if b_sz > u_rb_size rb then Inr (- 1, dst, rb)
        else
          (let n = min (u_rb_ready rb) b_sz in
           if n = 0 then Inr (0, dst, rb)
           else
             (let rspace = size_sub (sz rb) (rd_off rb) in
              if \<not> is_wrapped rb \<or> rspace \<le> n then
                obind (slice (base rb) (rd_off rb) n) (\<lambda>xs.
                obind (blit dst 0 xs) (\<lambda>dst'.
                  Inr (int n, dst', read_incr_wrapped rb n)))
              else
                (let rem = size_sub n rspace in
                 obind (slice (base rb) (rd_off rb) rspace) (\<lambda>xs.
                 obind (blit dst 0 xs) (\<lambda>d1.
                 obind (slice (base rb) 0 rem) (\<lambda>ys.
                 obind (blit d1 rspace ys) (\<lambda>d2.
                   Inr (int n, d2, rb\<lparr> rd_off := rem \<rparr>)))))))))"

definition u_rb_read ::
  "u_rb option \<Rightarrow> byte list option \<Rightarrow> nat \<Rightarrow> (int \<times> byte list \<times> u_rb option) outcome" where
  "u_rb_read h b b_sz =
     (case h of None \<Rightarrow> Inr (- 1, (case b of None \<Rightarrow> [] | Some d \<Rightarrow> d), None)
      | Some rb \<Rightarrow>
        (case cb_read rb of None \<Rightarrow> Inr (- 1, (case b of None \<Rightarrow> [] | Some d \<Rightarrow> d), h)
         | Some m \<Rightarrow>
           obind (case m of Contiguous \<Rightarrow> read_contiguous rb b b_sz
                          | Wrapped \<Rightarrow> read_wrapped rb b b_sz)
             (\<lambda>(rc, d, rb'). Inr (rc, d,
                Some (if rc \<ge> 0 then rb'\<lparr> ready := ready rb' - nat rc \<rparr> else rb')))))"

text \<open>
  The result is the address of the data, as an offset in the block, with the value left in
  \<open>*pb_sz\<close>. The wrapper checks the write callback and calls the fast read callback.
\<close>

definition fast_read :: "u_rb \<Rightarrow> nat option \<Rightarrow> nat option \<times> nat option \<times> u_rb" where
  "fast_read rb pb_sz =
     (if opts rb AND U_RB_OPT_USE_CONTIGUOUS_MEM = 0 then (None, pb_sz, rb)
      else (case pb_sz of None \<Rightarrow> (None, None, rb)
        | Some n0 \<Rightarrow>
          if n0 > u_rb_size rb then (None, pb_sz, rb)
          else (let n = min (u_rb_ready rb) n0 in
            if n = 0 then (None, Some n, rb)
            else (let rb' = read_incr_contiguous rb n in
              (Some (rd_off rb), Some n, rb'\<lparr> ready := ready rb' - n \<rparr>)))))"

definition u_rb_fast_read ::
  "u_rb option \<Rightarrow> nat option \<Rightarrow> (nat option \<times> nat option \<times> u_rb option) outcome" where
  "u_rb_fast_read h pb_sz =
     (case h of None \<Rightarrow> Inr (None, pb_sz, None)
      | Some rb \<Rightarrow>
        if cb_write rb = None then Inr (None, pb_sz, h)
        else (case cb_fast_read rb of None \<Rightarrow> Inl Null_deref
              | Some _ \<Rightarrow> (case fast_read rb pb_sz of (d, n, rb') \<Rightarrow> Inr (d, n, Some rb'))))"

section \<open>The double mapping\<close>

text \<open>
  The byte at position \<open>i\<close> after \<open>xs\<close> is stored at \<open>off\<close> in a block of two mirrored halves of
  size \<open>s\<close>: the stored byte where \<open>i\<close> or its twin position is in the range, the old one elsewhere.
\<close>

definition twin_get :: "nat \<Rightarrow> nat \<Rightarrow> 'a list \<Rightarrow> 'a list \<Rightarrow> nat \<Rightarrow> 'a" where
  "twin_get s off xs b i =
     (if off \<le> i \<and> i < off + length xs then xs ! (i - off)
      else if off \<le> i + s \<and> i + s < off + length xs then xs ! (i + s - off)
      else if off + s \<le> i \<and> i - s < off + length xs then xs ! (i - s - off)
      else b ! i)"

definition twin_store :: mapping where
  "twin_store s off xs b = map (twin_get s off xs b) [0..<length b]"

definition twin_law :: "mapping \<Rightarrow> bool" where
  "twin_law mm =
     (\<forall>s off xs b. length b = 2 * s \<and> off + length xs \<le> 2 * s \<longrightarrow> mm s off xs b = twin_store s off xs b)"

lemma twin_law_store: "twin_law twin_store"
  by (simp add: twin_law_def)

definition twins :: "nat \<Rightarrow> 'a list \<Rightarrow> bool" where
  "twins s b = (length b = 2 * s \<and> (\<forall>i < s. b ! (i + s) = b ! i))"

lemma twins_replicate: "twins s (replicate (2 * s) x)"
  by (simp add: twins_def)

lemma twin_store_length [simp]: "length (twin_store s off xs b) = length b"
  by (simp add: twin_store_def)

lemma twin_store_nth: "i < length b \<Longrightarrow> twin_store s off xs b ! i = twin_get s off xs b i"
  by (simp add: twin_store_def)

lemma twins_store:
  assumes "twins s b" "off + length xs \<le> 2 * s" "length xs \<le> s"
  shows "twins s (twin_store s off xs b)"
proof -
  have "twin_get s off xs b (i + s) = twin_get s off xs b i" if "i < s" for i
    using that assms by (auto simp: twins_def twin_get_def)
  then show ?thesis using assms(1) by (simp add: twins_def twin_store_nth)
qed

text \<open>\<open>mirror\<close> makes of the plain copy what the double mapping makes of it.\<close>

lemma mirror_twin:
  assumes len: "length (base rb) = 2 * sz rb" and fit: "wr_off rb + length xs \<le> 2 * sz rb"
    "length xs \<le> sz rb" and blit: "blit (base rb) (wr_off rb) xs = Inr b1"
  shows "mirror (rb\<lparr> base := b1 \<rparr>) xs = Inr (rb\<lparr> base := twin_store (sz rb) (wr_off rb) xs (base rb) \<rparr>)"
proof -
  define s where "s = sz rb"
  define w where "w = wr_off rb"
  have l1: "length b1 = 2 * s" using blit_length [OF blit] len by (simp add: s_def)
  have n1: "b1 ! i = (if w \<le> i \<and> i < w + length xs then xs ! (i - w) else base rb ! i)"
    if "i < 2 * s" for i using blit_nth [OF blit, of i] that len by (simp add: s_def w_def)
  have tw: "b2 = twin_store s w xs (base rb)"
    if "length b2 = 2 * s" "\<And>i. i < 2 * s \<Longrightarrow> b2 ! i = twin_get s w xs (base rb) i" for b2
    using that len by (intro nth_equalityI) (simp_all add: twin_store_nth s_def)
  consider "w + length xs \<le> s" | "s < w + length xs" "s \<le> w" | "s < w + length xs" "w < s"
    by linarith
  then show ?thesis
  proof cases
    case 1
    then obtain b2 where b2: "blit b1 (w + s) xs = Inr b2" using l1 by (simp add: blit_def)
    have "b2 = twin_store s w xs (base rb)"
    proof (rule tw)
      show "b2 ! i = twin_get s w xs (base rb) i" if "i < 2 * s" for i
        using blit_nth [OF b2, of i] n1 [OF that] l1 that 1 by (auto simp: twin_get_def add.commute)
    qed (simp add: blit_length [OF b2] l1)
    with b2 1 show ?thesis by (simp add: mirror_def Let_def s_def w_def)
  next
    case 2
    have "w - s + length xs \<le> length b1" using l1 fit by (simp add: w_def s_def)
    then obtain b2 where b2: "blit b1 (w - s) xs = Inr b2" by (rule blitE)
    have "b2 = twin_store s w xs (base rb)"
    proof (rule tw)
      show "b2 ! i = twin_get s w xs (base rb) i" if "i < 2 * s" for i
        using blit_nth [OF b2, of i] n1 [OF that] l1 that 2 fit
        by (auto simp: twin_get_def s_def w_def)
    qed (simp add: blit_length [OF b2] l1)
    with b2 2 show ?thesis by (simp add: mirror_def Let_def s_def w_def)
  next
    case 3
    let ?l = "s - w"
    have "w + s + length (take ?l xs) \<le> length b1" using l1 3 by simp
    then obtain b2 where b2: "blit b1 (w + s) (take ?l xs) = Inr b2" by (rule blitE)
    have "0 + length (drop ?l xs) \<le> length b2"
      using l1 3 fit blit_length [OF b2] by (simp add: s_def w_def)
    then obtain b3 where b3: "blit b2 0 (drop ?l xs) = Inr b3" by (rule blitE)
    have "b3 = twin_store s w xs (base rb)"
    proof (rule tw)
      show "b3 ! i = twin_get s w xs (base rb) i" if "i < 2 * s" for i
        using blit_nth [OF b3, of i] blit_nth [OF b2, of i] n1 [OF that] l1 that 3 fit
          blit_length [OF b2]
        by (auto simp: twin_get_def s_def w_def add.commute)
    qed (simp add: blit_length [OF b2] blit_length [OF b3] l1)
    with b2 b3 3 show ?thesis by (simp add: mirror_def Let_def s_def w_def)
  qed
qed

section \<open>Contiguous buffers as byte queues\<close>

text \<open>The invariant of a contiguous buffer, and the bytes it holds.\<close>

definition contig_inv :: "u_rb \<Rightarrow> bool" where
  "contig_inv rb =
     (0 < sz rb \<and> 2 * sz rb < 2 ^ 64 \<and> twins (sz rb) (base rb) \<and> rd_off rb < sz rb
      \<and> wr_off rb = rd_off rb + ready rb \<and> ready rb \<le> sz rb
      \<and> cb_read rb = Some Contiguous \<and> cb_write rb = Some Contiguous
      \<and> cb_fast_read rb = Some Contiguous)"

definition contents :: "u_rb \<Rightarrow> byte list" where
  "contents rb = take (ready rb) (drop (rd_off rb) (base rb))"

lemma contents_length: "contig_inv rb \<Longrightarrow> length (contents rb) = ready rb"
  by (auto simp: contig_inv_def contents_def twins_def)

lemma avail_eq: "ready rb \<le> sz rb \<Longrightarrow> sz rb < 2 ^ 64 \<Longrightarrow> u_rb_avail rb = sz rb - ready rb"
  by (simp add: u_rb_avail_def size_sub_le)

text \<open>One write, for either memory.\<close>

lemma store_twin:
  assumes "twin_law mm" "contig_inv rb" "length xs \<le> sz rb - ready rb"
  defines "b1 \<equiv> twin_store (sz rb) (wr_off rb) xs (base rb)"
  shows "obind (memcpy_to mm rb (wr_off rb) xs) (\<lambda>b1.
           obind (if opts rb AND U_RB_OPT_IMPL_MALLOC \<noteq> 0 then mirror (rb\<lparr> base := b1 \<rparr>) xs
                  else Inr (rb\<lparr> base := b1 \<rparr>)) f) = f (rb\<lparr> base := b1 \<rparr>)"
proof -
  have fit: "length (base rb) = 2 * sz rb" "wr_off rb + length xs \<le> 2 * sz rb" "length xs \<le> sz rb"
    using assms(2,3) by (auto simp: contig_inv_def twins_def)
  obtain b where b: "blit (base rb) (wr_off rb) xs = Inr b" using fit by (simp add: blit_def)
  show ?thesis
    using mirror_twin [OF fit b] b fit(1,2) assms(1)
    by (auto simp: memcpy_to_def b1_def twin_law_def)
qed

lemma contents_store:
  assumes "contig_inv rb" "length xs \<le> sz rb - ready rb"
  shows "contents (rb\<lparr> base := twin_store (sz rb) (wr_off rb) xs (base rb),
             wr_off := w, ready := ready rb + length xs \<rparr>) = contents rb @ xs"
proof (rule nth_equalityI)
  show "length (contents (rb\<lparr> base := twin_store (sz rb) (wr_off rb) xs (base rb),
             wr_off := w, ready := ready rb + length xs \<rparr>)) = length (contents rb @ xs)"
    using assms by (auto simp: contents_def contig_inv_def twins_def)
next
  fix i assume "i < length (contents (rb\<lparr> base := twin_store (sz rb) (wr_off rb) xs (base rb),
             wr_off := w, ready := ready rb + length xs \<rparr>))"
  then have i: "i < ready rb + length xs" by (simp add: contents_def)
  then show "contents (rb\<lparr> base := twin_store (sz rb) (wr_off rb) xs (base rb),
             wr_off := w, ready := ready rb + length xs \<rparr>) ! i = (contents rb @ xs) ! i"
    using assms
    by (auto simp: contents_def contig_inv_def twins_def twin_store_nth twin_get_def nth_append)
qed

lemma write_contiguous_ok:
  assumes "twin_law mm" "contig_inv rb" "n \<le> sz rb" "n \<le> length src"
  obtains rb' where
    "u_rb_write mm (Some rb) (Some src) n = Inr (int (min (sz rb - ready rb) n), Some rb')"
    "contig_inv rb'" "sz rb' = sz rb" "opts rb' = opts rb"
    "contents rb' = contents rb @ take (min (sz rb - ready rb) n) src"
proof -
  define k where "k = min (sz rb - ready rb) n"
  define xs where "xs = take k src"
  have lx: "length xs = k" using assms(4) by (simp add: xs_def k_def)
  have av: "u_rb_avail rb = sz rb - ready rb" using assms(2) by (simp add: avail_eq contig_inv_def)
  let ?rb = "rb\<lparr> base := twin_store (sz rb) (wr_off rb) xs (base rb),
             wr_off := wr_off rb + k, ready := ready rb + k \<rparr>"
  show ?thesis
  proof (cases "k = 0")
    case True
    then have "u_rb_write mm (Some rb) (Some src) n = Inr (int k, Some rb)"
      using assms(2,3) av
      by (simp add: u_rb_write_def contig_inv_def write_contiguous_def u_rb_size_def k_def Let_def)
    then show ?thesis using that [of rb] assms(2) True by (simp add: k_def)
  next
    case False
    have sl: "slice src 0 k = Inr xs" using assms(4) by (simp add: slice_def xs_def k_def)
    have "write_contiguous mm rb (Some src) n = Inr (int k,
        write_incr_contiguous (rb\<lparr> base := twin_store (sz rb) (wr_off rb) xs (base rb) \<rparr>) k)"
      using assms(3) av False sl store_twin [OF assms(1,2), of xs] lx
      by (simp add: write_contiguous_def u_rb_size_def k_def [symmetric] Let_def) (simp add: k_def)
    then have "u_rb_write mm (Some rb) (Some src) n = Inr (int k, Some ?rb)"
      using assms(2) by (simp add: u_rb_write_def contig_inv_def write_incr_contiguous_def)
    moreover have "contig_inv ?rb"
      using assms(2) twins_store [of "sz rb" "base rb" "wr_off rb" xs] lx
      by (auto simp: contig_inv_def k_def)
    moreover have "contents ?rb = contents rb @ xs"
      using contents_store [OF assms(2), of xs] lx by (simp add: k_def)
    ultimately show ?thesis using that [of ?rb] by (simp add: k_def xs_def)
  qed
qed

lemma write_too_big:
  "contig_inv rb \<Longrightarrow> sz rb < n \<Longrightarrow> u_rb_write mm (Some rb) (Some src) n = Inr (- 1, Some rb)"
  by (simp add: u_rb_write_def contig_inv_def write_contiguous_def u_rb_size_def)

text \<open>One read: the offsets move back by the size when the reader enters the second half.\<close>

lemma read_incr_ok:
  assumes "contig_inv rb" "n \<le> ready rb"
  defines "rb1 \<equiv> (read_incr_contiguous rb n)\<lparr> ready := ready rb - n \<rparr>"
  shows "contig_inv rb1" "contents rb1 = drop n (contents rb)" "sz rb1 = sz rb" "opts rb1 = opts rb"
    "ready (read_incr_contiguous rb n) = ready rb"
proof -
  have wr: "rd_off rb + n \<ge> sz rb \<Longrightarrow> size_sub (wr_off rb) (sz rb) = wr_off rb - sz rb"
    using assms by (intro size_sub_le) (auto simp: contig_inv_def)
  then show "contig_inv rb1"
    using assms by (auto simp: contig_inv_def rb1_def read_incr_contiguous_def Let_def)
  show "sz rb1 = sz rb" "opts rb1 = opts rb" "ready (read_incr_contiguous rb n) = ready rb"
    by (auto simp: rb1_def read_incr_contiguous_def Let_def)
  have tw: "i < sz rb \<Longrightarrow> base rb ! (i + sz rb) = base rb ! i" for i
    using assms(1) by (simp add: contig_inv_def twins_def)
  have tw': "base rb ! (rd_off rb + (n + i) - sz rb) = base rb ! (rd_off rb + (n + i))"
    if "rd_off rb + n \<ge> sz rb" "i < ready rb - n" for i
  proof -
    have "rd_off rb + (n + i) - sz rb < sz rb" using that assms(1) by (auto simp: contig_inv_def)
    with tw [OF this] that show ?thesis by simp
  qed
  show "contents rb1 = drop n (contents rb)"
    using assms(1,2) wr
    by (intro nth_equalityI)
      (auto simp: contents_def rb1_def read_incr_contiguous_def Let_def contig_inv_def twins_def
        tw' add.assoc)
qed

lemma read_contiguous_ok:
  assumes "contig_inv rb" "n \<le> sz rb" "n \<le> length dst"
  obtains dst' rb' where
    "u_rb_read (Some rb) (Some dst) n = Inr (int (min (ready rb) n), dst', Some rb')"
    "contig_inv rb'" "sz rb' = sz rb" "opts rb' = opts rb" "length dst' = length dst"
    "take (min (ready rb) n) dst' = take n (contents rb)" "contents rb' = drop n (contents rb)"
proof -
  define k where "k = min (ready rb) n"
  have len: "length (contents rb) = ready rb" using contents_length [OF assms(1)] .
  have tk: "take k (contents rb) = take n (contents rb)" "drop k (contents rb) = drop n (contents rb)"
    using len by (auto simp: k_def min_def)
  show ?thesis
  proof (cases "k = 0")
    case True
    then have "u_rb_read (Some rb) (Some dst) n = Inr (int k, dst, Some rb)"
      using assms(1,2)
      by (simp add: u_rb_read_def contig_inv_def read_contiguous_def u_rb_size_def u_rb_ready_def
          k_def Let_def)
    then show ?thesis using that [of dst rb] assms(1) True tk by (simp add: k_def)
  next
    case False
    define xs where "xs = take k (drop (rd_off rb) (base rb))"
    have xs: "xs = take n (contents rb)" "length xs = k"
      using assms(1) tk by (auto simp: xs_def contents_def k_def contig_inv_def twins_def min_def)
    have sl: "slice (base rb) (rd_off rb) k = Inr xs"
      using assms(1) by (auto simp: slice_def xs_def k_def contig_inv_def twins_def)
    have "0 + length xs \<le> length dst" using assms(3) xs(2) by (simp add: k_def)
    then obtain d where d: "blit dst 0 xs = Inr d" by (rule blitE)
    have td: "take k d = xs" using blit_take [OF d] xs(2) by simp
    have k: "k \<le> ready rb" by (simp add: k_def)
    note ri = read_incr_ok [OF assms(1) k]
    have "read_contiguous rb (Some dst) n = Inr (int k, d, read_incr_contiguous rb k)"
      using assms(2) False sl d
      by (simp add: read_contiguous_def u_rb_size_def u_rb_ready_def k_def [symmetric] Let_def)
    then have "u_rb_read (Some rb) (Some dst) n =
        Inr (int k, d, Some ((read_incr_contiguous rb k)\<lparr> ready := ready rb - k \<rparr>))"
      using assms(1) ri by (simp add: u_rb_read_def contig_inv_def)
    with ri td xs tk blit_length [OF d] show ?thesis
      by (intro that) (simp_all add: k_def)
  qed
qed

section \<open>Wrapped buffers\<close>

definition wrapped_inv :: "u_rb \<Rightarrow> bool" where
  "wrapped_inv rb =
     (0 < sz rb \<and> 2 * sz rb < 2 ^ 64 \<and> length (base rb) = sz rb \<and> rd_off rb < sz rb
      \<and> wr_off rb = (rd_off rb + ready rb) mod sz rb \<and> ready rb \<le> sz rb
      \<and> cb_read rb = Some Wrapped \<and> cb_write rb = Some Wrapped)"

definition wcontents :: "u_rb \<Rightarrow> byte list" where
  "wcontents rb = map (\<lambda>i. base rb ! ((rd_off rb + i) mod sz rb)) [0..<ready rb]"

lemma mod_wrap: "a < 2 * s \<Longrightarrow> a mod s = (if a < s then a else a - s)" for a s :: nat
  by (simp add: mod_if)

text \<open>
  The bytes a write stores: with \<open>is_wrapped\<close>, or enough space to the right of the write offset,
  in one piece, otherwise in two.
\<close>

definition wrap_get :: "nat \<Rightarrow> nat \<Rightarrow> 'a list \<Rightarrow> 'a list \<Rightarrow> nat \<Rightarrow> 'a" where
  "wrap_get s off xs b i =
     (if off \<le> i \<and> i < off + length xs then xs ! (i - off)
      else if off \<le> i + s \<and> i + s < off + length xs then xs ! (i + s - off)
      else b ! i)"

lemma wrap_get_hit:
  assumes "off < s" "length xs \<le> s" "k < length xs"
  shows "wrap_get s off xs b ((off + k) mod s) = xs ! k"
proof (cases "off + k < s")
  case False
  then have "(off + k) mod s = off + k - s" using assms mod_wrap [of "off + k" s] by simp
  moreover have "\<not> off \<le> off + k - s" using False assms by linarith
  ultimately show ?thesis using False assms by (simp add: wrap_get_def)
qed (use assms in \<open>simp add: wrap_get_def\<close>)

lemma wrap_get_miss:
  assumes "off < s" "length xs \<le> s" "j < s" "\<And>k. k < length xs \<Longrightarrow> j \<noteq> (off + k) mod s"
  shows "wrap_get s off xs b j = b ! j"
proof -
  have "\<not> (off \<le> j \<and> j < off + length xs)"
  proof
    assume "off \<le> j \<and> j < off + length xs"
    then have "j - off < length xs" "(off + (j - off)) mod s = j" using assms(3) by auto
    with assms(4) show False by metis
  qed
  moreover have "\<not> (off \<le> j + s \<and> j + s < off + length xs)"
  proof
    assume "off \<le> j + s \<and> j + s < off + length xs"
    then have "j + s - off < length xs" "(off + (j + s - off)) mod s = j" using assms(3) by auto
    with assms(4) show False by metis
  qed
  ultimately show ?thesis by (auto simp: wrap_get_def)
qed

lemma write_wrapped_store:
  assumes inv: "wrapped_inv rb" and n: "0 < n" "n \<le> sz rb - ready rb" "n \<le> length src"
    "n = min (sz rb - ready rb) m" "m \<le> sz rb"
  obtains b2 where "write_wrapped rb (Some src) m = Inr (int n, write_incr_wrapped (rb\<lparr> base := b2 \<rparr>) n)"
    "length b2 = sz rb"
    "\<forall>i < sz rb. b2 ! i = wrap_get (sz rb) (wr_off rb) (take n src) (base rb) i"
proof -
  define s where "s = sz rb"
  define w where "w = wr_off rb"
  have w: "w < s" "s < 2 ^ 64" "length (base rb) = s" "w = (if rd_off rb + ready rb < s then rd_off rb + ready rb
      else rd_off rb + ready rb - s)"
    using inv mod_wrap [of "rd_off rb + ready rb" "sz rb"] by (auto simp: wrapped_inv_def s_def w_def)
  have av: "u_rb_avail rb = s - ready rb" using inv by (simp add: avail_eq wrapped_inv_def s_def)
  have rs: "size_sub s w = s - w" using w by (simp add: size_sub_le)
  have m: "\<not> u_rb_size rb < m" "min (u_rb_avail rb) m = n"
    using n av by (simp_all add: u_rb_size_def s_def)
  show ?thesis
  proof (cases "is_wrapped rb \<or> s - w \<ge> n")
    case True
    have "rd_off rb < s" "ready rb \<le> s" "n \<le> s - ready rb"
      using inv n(2) by (simp_all add: wrapped_inv_def s_def)
    moreover have "w < rd_off rb \<or> n \<le> s - w" using True by (simp add: is_wrapped_def w_def)
    ultimately have "w + n \<le> s" using w(1,4) by (auto split: if_splits)
    then have "w + length (take n src) \<le> length (base rb)" using w(3) n(3) by simp
    then obtain b2 where b2: "blit (base rb) w (take n src) = Inr b2" by (rule blitE)
    show ?thesis
    proof
      show "write_wrapped rb (Some src) m = Inr (int n, write_incr_wrapped (rb\<lparr> base := b2 \<rparr>) n)"
        using m n(1-3) True b2 rs by (simp add: write_wrapped_def Let_def slice_Inr s_def w_def)
      show "length b2 = sz rb" using blit_length [OF b2] w by (simp add: s_def)
      show "\<forall>i < sz rb. b2 ! i = wrap_get (sz rb) (wr_off rb) (take n src) (base rb) i"
        using blit_nth [OF b2] w \<open>w + length (take n src) \<le> length (base rb)\<close>
        by (auto simp: wrap_get_def s_def w_def)
    qed
  next
    case False
    let ?k = "s - w"
    have ns: "n \<le> s" using n(2) by (simp add: s_def)
    have kn: "?k < n" using False by simp
    have "size_sub n ?k = n - ?k" using ns kn w(2) by (intro size_sub_le) auto
    note k = kn this
    have "w + length (take ?k src) \<le> length (base rb)" using w by simp
    then obtain b1 where b1: "blit (base rb) w (take ?k src) = Inr b1" by (rule blitE)
    have "0 + length (take (n - ?k) (drop ?k src)) \<le> length b1"
      unfolding blit_length [OF b1] w(3) using ns by simp
    then obtain b2 where b2: "blit b1 0 (take (n - ?k) (drop ?k src)) = Inr b2" by (rule blitE)
    show ?thesis
    proof
      have "slice src ?k (n - ?k) = Inr (take (n - ?k) (drop ?k src))"
        using k n by (intro slice_Inr) simp
      then show "write_wrapped rb (Some src) m = Inr (int n, write_incr_wrapped (rb\<lparr> base := b2 \<rparr>) n)"
        using m n(1-3) False b1 b2 rs k by (simp add: write_wrapped_def Let_def slice_Inr s_def w_def)
      show "length b2 = sz rb" using blit_length [OF b1] blit_length [OF b2] w by (simp add: s_def)
      show "\<forall>i < sz rb. b2 ! i = wrap_get (sz rb) (wr_off rb) (take n src) (base rb) i"
      proof (intro allI impI)
        fix i assume "i < sz rb"
        then have i: "i < s" by (simp add: s_def)
        have e2: "b2 ! i = (if i < n - ?k then src ! (i + s - w) else b1 ! i)"
          using blit_nth [OF b2, of i] blit_length [OF b1] w(1,3) i n(3) kn
          by (simp add: add.commute)
        have e1: "b1 ! i = (if w \<le> i then src ! (i - w) else base rb ! i)"
          using blit_nth [OF b1, of i] w(1,3) i kn n(3) by simp
        have "i < n - ?k \<Longrightarrow> i < w" "w \<le> i \<Longrightarrow> i < w + n" using ns i kn w(1) by linarith+
        with e1 e2 have "b2 ! i = wrap_get s w (take n src) (base rb) i"
          using n(3) w(1) kn ns
          by (cases "i < n - ?k"; cases "w \<le> i") (simp_all add: wrap_get_def less_diff_conv)
        then show "b2 ! i = wrap_get (sz rb) (wr_off rb) (take n src) (base rb) i"
          by (simp add: s_def w_def)
      qed
    qed
  qed
qed

lemma wcontents_store:
  assumes "wrapped_inv rb" "length xs \<le> sz rb - ready rb" "length b2 = sz rb"
    "\<forall>i < sz rb. b2 ! i = wrap_get (sz rb) (wr_off rb) xs (base rb) i"
  shows "wcontents (rb\<lparr> base := b2, wr_off := w, ready := ready rb + length xs \<rparr>) = wcontents rb @ xs"
proof (rule nth_equalityI)
  fix i assume "i < length (wcontents (rb\<lparr> base := b2, wr_off := w, ready := ready rb + length xs \<rparr>))"
  then have i: "i < ready rb + length xs" by (simp add: wcontents_def)
  define r where "r = rd_off rb"
  define s where "s = sz rb"
  define q where "q = ready rb"
  have r: "r < s" "i < s" "q \<le> s" "length xs \<le> s - q" "0 < s"
    using assms(1,2) i by (auto simp: wrapped_inv_def r_def s_def q_def)
  have wr: "wr_off rb = (r + q) mod s" using assms(1) by (simp add: wrapped_inv_def r_def s_def q_def)
  have "b2 ! ((r + i) mod s) = (if i < q then base rb ! ((r + i) mod s) else xs ! (i - q))"
  proof (cases "i < q")
    case True
    have "(r + i) mod s \<noteq> ((r + q) mod s + k) mod s" if "k < length xs" for k
    proof -
      have k: "q + k < s" using r(3,4) that by linarith
      then have "r + q + k < 2 * s" "r + i < 2 * s" using r(1,2) by linarith+
      note m = this [THEN mod_wrap]
      have "(r + i) mod s \<noteq> (r + q + k) mod s"
        unfolding m using True k r(1,2) by (simp split: if_split) linarith
      then show ?thesis by (simp add: mod_add_left_eq)
    qed
    then show ?thesis using True r assms(4) wr wrap_get_miss [of "(r + q) mod s" s xs "(r + i) mod s"]
      by (simp add: s_def [symmetric])
  next
    case False
    have "((r + q) mod s + (i - q)) mod s = (r + q + (i - q)) mod s" by (rule mod_add_left_eq)
    then have "((r + q) mod s + (i - q)) mod s = (r + i) mod s" using False by simp
    then show ?thesis using False r assms(4) wr i wrap_get_hit [of "(r + q) mod s" s xs "i - q"]
      by (simp add: s_def [symmetric] q_def [symmetric])
  qed
  then show "wcontents (rb\<lparr> base := b2, wr_off := w, ready := ready rb + length xs \<rparr>) ! i
      = (wcontents rb @ xs) ! i"
    using i by (simp add: wcontents_def nth_append r_def s_def q_def)
qed (simp add: wcontents_def)

lemma write_wrapped_ok:
  assumes "wrapped_inv rb" "m \<le> sz rb" "m \<le> length src"
  obtains rb' where
    "u_rb_write mm (Some rb) (Some src) m = Inr (int (min (sz rb - ready rb) m), Some rb')"
    "wrapped_inv rb'" "sz rb' = sz rb"
    "wcontents rb' = wcontents rb @ take (min (sz rb - ready rb) m) src"
proof -
  define n where "n = min (sz rb - ready rb) m"
  show ?thesis
  proof (cases "n = 0")
    case True
    then have "u_rb_write mm (Some rb) (Some src) m = Inr (0, Some rb)"
      using assms avail_eq [of rb]
      by (simp add: u_rb_write_def wrapped_inv_def write_wrapped_def u_rb_size_def n_def Let_def)
    then show ?thesis using that [of rb] assms(1) True by (simp add: n_def)
  next
    case False
    have n: "n \<le> sz rb - ready rb" "n \<le> length src" "n = min (sz rb - ready rb) m"
      using assms(3) by (simp_all add: n_def)
    obtain b2 where w: "write_wrapped rb (Some src) m = Inr (int n, write_incr_wrapped (rb\<lparr> base := b2 \<rparr>) n)"
        "length b2 = sz rb" "\<forall>i < sz rb. b2 ! i = wrap_get (sz rb) (wr_off rb) (take n src) (base rb) i"
      using write_wrapped_store [OF assms(1) _ n assms(2)] False by blast
    have lt: "length (take n src) = n" using n(2) by simp
    let ?rb = "rb\<lparr> base := b2, wr_off := (wr_off rb + n) mod sz rb, ready := ready rb + n \<rparr>"
    have "u_rb_write mm (Some rb) (Some src) m = Inr (int n, Some ?rb)"
      using w(1) assms(1) by (simp add: u_rb_write_def wrapped_inv_def write_incr_wrapped_def)
    moreover have "wrapped_inv ?rb"
      using assms(1) w(2) n(1) by (auto simp: wrapped_inv_def mod_add_left_eq add.assoc)
    moreover have "wcontents ?rb = wcontents rb @ take n src"
      using wcontents_store [OF assms(1), of "take n src" b2] w(2,3) n(1) lt by simp
    ultimately show ?thesis using that [of ?rb] by (simp add: n_def)
  qed
qed

text \<open>
  The wrapped reader: the data must end inside the block, and exactly at its end when the write
  offset has wrapped around. Then the result is right.
\<close>

definition read_window :: "u_rb \<Rightarrow> nat \<Rightarrow> bool" where
  "read_window rb n = (if is_wrapped rb then rd_off rb + n = sz rb else rd_off rb + n \<le> sz rb)"

lemma read_wrapped_fault:
  assumes "wrapped_inv rb" "0 < n" "n = min (ready rb) m" "m \<le> sz rb" "\<not> read_window rb n"
  shows "read_wrapped rb (Some dst) m = Inl Out_of_bounds"
proof -
  have inv: "0 < sz rb" "sz rb < 2 ^ 63" "length (base rb) = sz rb" "rd_off rb < sz rb" "n \<le> sz rb"
    using assms(1,3) by (auto simp: wrapped_inv_def)
  have rs: "size_sub (sz rb) (rd_off rb) = sz rb - rd_off rb" using inv by (intro size_sub_le) auto
  have m: "\<not> u_rb_size rb < m" "min (u_rb_ready rb) m = n"
    using assms(3,4) by (simp_all add: u_rb_size_def u_rb_ready_def)
  show ?thesis
  proof (cases "\<not> is_wrapped rb \<or> sz rb - rd_off rb \<le> n")
    case True
    then have "sz rb < rd_off rb + n" using assms(5) inv by (auto simp: read_window_def split: if_splits)
    with True show ?thesis
      using m assms(2) inv rs by (simp add: read_wrapped_def Let_def slice_def)
  next
    case False
    then have "size_sub n (sz rb - rd_off rb) = 2 ^ 64 - (sz rb - rd_off rb - n)"
      using inv by (intro size_sub_under) auto
    then have "length (base rb) < size_sub n (sz rb - rd_off rb)" using inv by simp
    then have "slice (base rb) 0 (size_sub n (sz rb - rd_off rb)) = Inl Out_of_bounds"
      by (simp add: slice_def)
    then show ?thesis
      using False m assms(2) inv rs by (simp add: read_wrapped_def Let_def slice_def blit_def)
  qed
qed

lemma read_wrapped_window:
  assumes "wrapped_inv rb" "0 < n" "n = min (ready rb) m" "m \<le> sz rb" "m \<le> length dst"
    "read_window rb n"
  obtains dst' rb' where "u_rb_read (Some rb) (Some dst) m = Inr (int n, dst', Some rb')"
    "take n dst' = take n (wcontents rb)" "wrapped_inv rb'" "wcontents rb' = drop n (wcontents rb)"
proof -
  have inv: "0 < sz rb" "sz rb < 2 ^ 63" "length (base rb) = sz rb" "rd_off rb < sz rb" "n \<le> ready rb"
    using assms(1,3) by (auto simp: wrapped_inv_def)
  have rs: "size_sub (sz rb) (rd_off rb) = sz rb - rd_off rb" using inv by (intro size_sub_le) auto
  have fit: "rd_off rb + n \<le> sz rb" "\<not> is_wrapped rb \<or> sz rb - rd_off rb \<le> n"
    using assms(6) by (auto simp: read_window_def split: if_splits)
  have m: "\<not> u_rb_size rb < m" "min (u_rb_ready rb) m = n"
    using assms(3,4) by (simp_all add: u_rb_size_def u_rb_ready_def)
  let ?xs = "take n (drop (rd_off rb) (base rb))"
  have lx: "length ?xs = n" using fit inv by simp
  then have "0 + length ?xs \<le> length dst" using assms(3,5) by simp
  then obtain d where d: "blit dst 0 ?xs = Inr d" by (rule blitE)
  let ?rb = "rb\<lparr> rd_off := (rd_off rb + n) mod sz rb, ready := ready rb - n \<rparr>"
  show ?thesis
  proof
    have "read_wrapped rb (Some dst) m = Inr (int n, d, read_incr_wrapped rb n)"
      using m assms(2) fit d rs inv(3) by (simp add: read_wrapped_def Let_def slice_def)
    then show "u_rb_read (Some rb) (Some dst) m = Inr (int n, d, Some ?rb)"
      using assms(1) by (simp add: u_rb_read_def wrapped_inv_def read_incr_wrapped_def)
    have "?xs = take n (wcontents rb)"
      using inv fit by (intro nth_equalityI) (simp_all add: wcontents_def)
    then show "take n d = take n (wcontents rb)" using blit_take [OF d] lx by simp
    have "((rd_off rb + n) mod sz rb + (ready rb - n)) mod sz rb
        = (rd_off rb + n + (ready rb - n)) mod sz rb" by (rule mod_add_left_eq)
    then have "((rd_off rb + n) mod sz rb + (ready rb - n)) mod sz rb = (rd_off rb + ready rb) mod sz rb"
      using inv(5) by simp
    then show "wrapped_inv ?rb"
      using assms(1) inv(1) by (auto simp: wrapped_inv_def)
    show "wcontents ?rb = drop n (wcontents rb)"
      using inv(5) by (intro nth_equalityI) (auto simp: wcontents_def mod_add_left_eq add.assoc)
  qed
qed

section \<open>The interface of a bounded queue and its client\<close>

text \<open>
  The abstract queue of capacity \<open>c\<close>: a write of a chunk larger than the capacity is refused, any
  other write accepts of the chunk what there is room for and returns how much that is; a read of
  more than the capacity is refused, any other read returns the oldest elements, as many as are
  asked for or there are. \<open>Rc\<close> is the value an operation returns, with the elements a read gives.
\<close>

datatype 'a fifo_op = Put "'a list" | Get nat | Clear | Ready | Avail

datatype 'a fifo_res = Rc int "'a list"

fun fifo_spec :: "nat \<Rightarrow> 'a list \<Rightarrow> 'a fifo_op \<Rightarrow> 'a fifo_res \<times> 'a list" where
  "fifo_spec c q (Put xs) =
     (if c < length xs then (Rc (- 1) [], q)
      else (let k = min (c - length q) (length xs) in (Rc (int k) [], q @ take k xs)))"
| "fifo_spec c q (Get n) =
     (if c < n then (Rc (- 1) [], q)
      else (Rc (int (min (length q) n)) (take n q), drop n q))"
| "fifo_spec c q Clear = (Rc 0 [], [])"
| "fifo_spec c q Ready = (Rc (int (length q)) [], q)"
| "fifo_spec c q Avail = (Rc (int (c - length q)) [], q)"

fun fifo_specs :: "nat \<Rightarrow> 'a list \<Rightarrow> 'a fifo_op list \<Rightarrow> 'a fifo_res list \<times> 'a list" where
  "fifo_specs c q [] = ([], q)"
| "fifo_specs c q (x # ops) =
     (case fifo_spec c q x of (r, q') \<Rightarrow>
        (case fifo_specs c q' ops of (rs, t) \<Rightarrow> (r # rs, t)))"

text \<open>The run of an implementation, which can fault.\<close>

fun fifo_run ::
  "('s \<Rightarrow> 'a fifo_op \<Rightarrow> ('a fifo_res \<times> 's) outcome) \<Rightarrow> 's \<Rightarrow> 'a fifo_op list
   \<Rightarrow> ('a fifo_res list \<times> 's) outcome" where
  "fifo_run step s [] = Inr ([], s)"
| "fifo_run step s (x # ops) =
     obind (step s x) (\<lambda>(r, s'). obind (fifo_run step s' ops) (\<lambda>(rs, t). Inr (r # rs, t)))"

locale bounded_fifo =
  fixes inv :: "'s \<Rightarrow> bool" and queue :: "'s \<Rightarrow> 'a list" and cap :: "'s \<Rightarrow> nat"
    and step :: "'s \<Rightarrow> 'a fifo_op \<Rightarrow> ('a fifo_res \<times> 's) outcome"
  assumes bounded: "inv s \<Longrightarrow> length (queue s) \<le> cap s"
    and step_ok: "inv s \<Longrightarrow> \<exists>s'. step s x = Inr (fst (fifo_spec (cap s) (queue s) x), s')
      \<and> inv s' \<and> cap s' = cap s \<and> queue s' = snd (fifo_spec (cap s) (queue s) x)"
begin

lemma fifo_run_ok:
  assumes "inv s"
  shows "\<exists>t. fifo_run step s ops = Inr (fst (fifo_specs (cap s) (queue s) ops), t)
    \<and> inv t \<and> cap t = cap s \<and> queue t = snd (fifo_specs (cap s) (queue s) ops)"
  using assms
proof (induction ops arbitrary: s)
  case (Cons x ops)
  obtain s' where s': "step s x = Inr (fst (fifo_spec (cap s) (queue s) x), s')" "inv s'"
      "cap s' = cap s" "queue s' = snd (fifo_spec (cap s) (queue s) x)"
    using step_ok [OF Cons.prems] by blast
  obtain t where "fifo_run step s' ops = Inr (fst (fifo_specs (cap s') (queue s') ops), t)" "inv t"
      "cap t = cap s'" "queue t = snd (fifo_specs (cap s') (queue s') ops)"
    using Cons.IH [OF s'(2)] by blast
  then show ?case using s' by (simp add: case_prod_beta)
qed simp

lemma fifo_run_bounded:
  assumes "inv s" "fifo_run step s ops = Inr (rs, t)"
  shows "length (queue t) \<le> cap s"
  using fifo_run_ok [OF assms(1), of ops] assms(2) bounded [of t] by auto

end

text \<open>
  The calls of a ring buffer in the form of the interface, with the memory mapping. The reader
  gives a block of exactly the bytes it asks for.
\<close>

fun rb_step ::
  "mapping \<times> u_rb \<Rightarrow> byte fifo_op \<Rightarrow> (byte fifo_res \<times> mapping \<times> u_rb) outcome" where
  "rb_step (mm, rb) (Put xs) =
     obind (u_rb_write mm (Some rb) (Some xs) (length xs)) (\<lambda>(rc, h). Inr (Rc rc [], mm, the h))"
| "rb_step (mm, rb) (Get n) =
     obind (u_rb_read (Some rb) (Some (replicate n 0)) n) (\<lambda>(rc, d, h).
       Inr (Rc rc (take (nat rc) d), mm, the h))"
| "rb_step (mm, rb) Clear =
     (case u_rb_clear (Some rb) of (rc, h) \<Rightarrow> Inr (Rc rc [], mm, the h))"
| "rb_step (mm, rb) Ready = Inr (Rc (int (u_rb_ready rb)) [], mm, rb)"
| "rb_step (mm, rb) Avail = Inr (Rc (int (u_rb_avail rb)) [], mm, rb)"

definition ring_inv :: "mapping \<times> u_rb \<Rightarrow> bool" where
  "ring_inv s = (twin_law (fst s) \<and> contig_inv (snd s))"

lemma read_too_big:
  "contig_inv rb \<Longrightarrow> sz rb < n \<Longrightarrow> u_rb_read (Some rb) (Some dst) n = Inr (- 1, dst, Some rb)"
  by (simp add: u_rb_read_def contig_inv_def read_contiguous_def u_rb_size_def)

lemma rb_clear_ok:
  assumes "contig_inv rb"
  shows "\<exists>rb'. u_rb_clear (Some rb) = (0, Some rb') \<and> contig_inv rb' \<and> sz rb' = sz rb
    \<and> contents rb' = []"
  using assms by (simp add: u_rb_clear_def contig_inv_def contents_def)

lemma rb_put_ok:
  assumes "twin_law mm" "contig_inv rb"
  shows "\<exists>rb'. rb_step (mm, rb) (Put xs) = Inr (fst (fifo_spec (sz rb) (contents rb) (Put xs)), mm, rb')
    \<and> contig_inv rb' \<and> sz rb' = sz rb \<and> contents rb' = snd (fifo_spec (sz rb) (contents rb) (Put xs))"
proof (cases "sz rb < length xs")
  case True
  then show ?thesis using write_too_big [OF assms(2) True] assms(2) by simp
next
  case False
  then show ?thesis
    using contents_length [OF assms(2)]
    by (auto intro: write_contiguous_ok [OF assms, of "length xs" xs] simp: Let_def)
qed

lemma rb_get_ok:
  assumes "contig_inv rb"
  shows "\<exists>rb'. rb_step (mm, rb) (Get n) = Inr (fst (fifo_spec (sz rb) (contents rb) (Get n)), mm, rb')
    \<and> contig_inv rb' \<and> sz rb' = sz rb \<and> contents rb' = snd (fifo_spec (sz rb) (contents rb) (Get n))"
proof (cases "sz rb < n")
  case True
  then show ?thesis using read_too_big [OF assms True] assms by simp
next
  case False
  then show ?thesis
    using contents_length [OF assms]
    by (auto intro: read_contiguous_ok [OF assms, of n "replicate n 0"])
qed

interpretation ring: bounded_fifo ring_inv "\<lambda>s. contents (snd s)" "\<lambda>s. sz (snd s)" rb_step
proof
  fix s :: "mapping \<times> u_rb" and x :: "byte fifo_op"
  assume inv: "ring_inv s"
  obtain mm rb where s: "s = (mm, rb)" by (cases s)
  have i: "twin_law mm" "contig_inv rb" using inv s by (simp_all add: ring_inv_def)
  have len: "length (contents rb) = ready rb" "ready rb \<le> sz rb" "sz rb < 2 ^ 64"
    using contents_length [OF i(2)] i(2) by (auto simp: contig_inv_def)
  show "length (contents (snd s)) \<le> sz (snd s)" using len s by simp
  show "\<exists>s'. rb_step s x = Inr (fst (fifo_spec (sz (snd s)) (contents (snd s)) x), s') \<and> ring_inv s'
      \<and> sz (snd s') = sz (snd s) \<and> contents (snd s') = snd (fifo_spec (sz (snd s)) (contents (snd s)) x)"
  proof (cases x)
    case (Put xs)
    then show ?thesis using rb_put_ok [OF i, of xs] i s by (auto simp: ring_inv_def
          simp del: rb_step.simps fifo_spec.simps)
  next
    case (Get n)
    then show ?thesis using rb_get_ok [OF i(2), of mm n] i s by (auto simp: ring_inv_def
          simp del: rb_step.simps fifo_spec.simps)
  next
    case Clear
    then show ?thesis using rb_clear_ok [OF i(2)] i s by (auto simp: ring_inv_def)
  next
    case Ready
    then show ?thesis using len i s by (auto simp: ring_inv_def u_rb_ready_def)
  next
    case Avail
    then show ?thesis using len i s avail_eq by (auto simp: ring_inv_def)
  qed
qed

section \<open>Properties\<close>

lemma u_rb_create_contig:
  assumes "u_rb_create can_mmap pg_sz sys s op True alloc_rb alloc_base = Inr (0, Some rb)"
    "cb_read rb = Some Contiguous" "2 * sz rb < 2 ^ 64" "0 < pg_sz"
  shows "contig_inv rb \<and> contents rb = []"
proof -
  have m: "contig_inv rb' \<and> contents rb' = []"
    if "create_malloc s op' True a b = (0, Some rb')" "cb_read rb' = Some Contiguous" "2 * sz rb' < 2 ^ 64"
    for op' a b rb'
  proof -
    have rb': "rb' = \<lparr> base = replicate (unat (push_bit 1 s)) 0, sz = unat s, wr_off = 0, rd_off = 0,
        ready = 0, opts = op', cb_read = Some Contiguous, cb_fast_read = Some Contiguous,
        cb_write = Some Contiguous \<rparr>" "s \<noteq> 0"
      using that by (auto simp: create_malloc_def Let_def split: if_splits)
    then have "2 * unat s < 2 ^ 64" using that(3) by simp
    then have "unat (push_bit 1 s) = 2 * unat s"
      by (simp add: push_bit_eq_mult unat_word_ariths)
    then show ?thesis using rb' \<open>2 * unat s < 2 ^ 64\<close>
      by (simp add: contig_inv_def contents_def twins_def unat_gt_0)
  qed
  have mm: "contig_inv rb' \<and> contents rb' = []"
    if "create_mmap pg_sz sys h op True = Inr (0, Some rb')" "2 * sz rb' < 2 ^ 64" for h rb'
  proof -
    have "0 < round_sz pg_sz h" using assms(4) by (simp add: round_sz_def)
    then show ?thesis using that
      by (auto simp: create_mmap_def contig_inv_def contents_def twins_replicate Let_def
          split: if_splits)
  qed
  have "(\<exists>op'. create_malloc s op' True alloc_rb alloc_base = (0, Some rb))
      \<or> create_mmap pg_sz sys (unat s) op True = Inr (0, Some rb)"
    using assms(1) by (auto simp: u_rb_create_def split: if_splits)
  then show ?thesis using m mm assms(2,3) by blast
qed

text \<open>
  C3: a ring buffer with contiguous access (a double mapping, or \<open>malloc\<close> with the contiguous
  option) that \<open>u_rb_create\<close> made, of fewer than 2 ^ 63 bytes, implements the bounded queue of bytes exactly; buffers
  with wrapped access are not covered. After any sequence of writes, reads and
  clears of chunks of any size, and of questions for the bytes ready and the room left, every call
  has returned what the abstract queue of capacity \<open>sz\<close> returns (-1 for a chunk larger than the
  capacity, the number of bytes accepted or given out otherwise), every read has given the same
  bytes, and the buffer holds the bytes of the abstract queue. No call faults.
\<close>
theorem u_rb_fifo:
  assumes "twin_law mm" "0 < pg_sz"
    "u_rb_create can_mmap pg_sz sys s op True alloc_rb alloc_base = Inr (0, Some rb)"
    "cb_read rb = Some Contiguous" "2 * sz rb < 2 ^ 64"
  shows "\<exists>mm' rb'. fifo_run rb_step (mm, rb) ops = Inr (fst (fifo_specs (sz rb) [] ops), mm', rb')
    \<and> sz rb' = sz rb \<and> contents rb' = snd (fifo_specs (sz rb) [] ops)
    \<and> length (contents rb') \<le> sz rb"
proof -
  have rb: "contig_inv rb" "contents rb = []"
    using u_rb_create_contig [OF assms(3-5,2)] by simp_all
  then have inv: "ring_inv (mm, rb)" using assms(1) by (simp add: ring_inv_def)
  show ?thesis
    using ring.fifo_run_ok [OF inv, of ops] ring.fifo_run_bounded [OF inv, of ops] rb(2) by fastforce
qed

lemma u_rb_fifo_witness:
  "\<exists>mm' rb'. fifo_run rb_step (twin_store, the (snd (create_malloc 4 3 True True True)))
      [Put [1, 2, 3], Get 2, Put [4, 5, 6, 7], Avail, Put [1, 2, 3, 4, 5], Get 5, Get 3, Ready, Clear, Get 1]
      = Inr ([Rc 3 [], Rc 2 [1, 2], Rc 3 [], Rc 0 [], Rc (- 1) [], Rc (- 1) [], Rc 3 [3, 4, 5], Rc 1 [],
              Rc 0 [], Rc 0 []], mm', rb') \<and> contents rb' = []"
proof -
  let ?rb = "the (snd (create_malloc 4 3 True True True))"
  have "u_rb_create False 4096 [] 4 3 True True True = Inr (0, Some ?rb)"
    "cb_read ?rb = Some Contiguous" "sz ?rb = 4"
    by (simp_all add: u_rb_create_def create_malloc_def opt_defs Let_def)
  then show ?thesis
    using u_rb_fifo [of twin_store 4096 False "[]" 4 3 True True ?rb
        "[Put [1, 2, 3], Get 2, Put [4, 5, 6, 7], Avail, Put [1, 2, 3, 4, 5], Get 5, Get 3, Ready, Clear,
          Get 1]"] twin_law_store
    by (simp add: Let_def) blast
qed

text \<open>
  \<open>u_rb_fast_read\<close> on a contiguous buffer returns the address of the oldest bytes, as many as
  were asked for and are ready, in one piece, and takes them out.
\<close>
theorem u_rb_fast_read_spec:
  assumes "contig_inv rb" "opts rb AND U_RB_OPT_USE_CONTIGUOUS_MEM \<noteq> 0" "n \<le> sz rb"
    "0 < min (ready rb) n"
  shows "\<exists>rb'. u_rb_fast_read (Some rb) (Some n) = Inr (Some (rd_off rb), Some (min (ready rb) n), Some rb')
    \<and> slice (base rb) (rd_off rb) (min (ready rb) n) = Inr (take n (contents rb))
    \<and> contig_inv rb' \<and> contents rb' = drop n (contents rb)"
proof -
  define k where "k = min (ready rb) n"
  have k: "k \<le> ready rb" "0 < k" using assms(4) by (simp_all add: k_def)
  note ri = read_incr_ok [OF assms(1) k(1)]
  have len: "length (contents rb) = ready rb" by (rule contents_length [OF assms(1)])
  have "slice (base rb) (rd_off rb) k = Inr (take n (contents rb))"
    using assms(1) len by (auto simp: slice_def k_def contents_def contig_inv_def twins_def min_def)
  moreover have "drop k (contents rb) = drop n (contents rb)"
    using len by (auto simp: k_def min_def)
  moreover have "u_rb_fast_read (Some rb) (Some n) = Inr (Some (rd_off rb), Some k,
      Some ((read_incr_contiguous rb k)\<lparr> ready := ready rb - k \<rparr>))"
    using assms(1-3) k ri(5)
    by (simp add: u_rb_fast_read_def contig_inv_def fast_read_def u_rb_size_def u_rb_ready_def
        k_def [symmetric] Let_def)
  ultimately show ?thesis using ri by (simp add: k_def [symmetric])
qed

lemma u_rb_fast_read_spec_witness:
  "\<exists>rb'. u_rb_fast_read (Some \<lparr> base = [7, 8, 7, 8], sz = 2, wr_off = 3, rd_off = 1, ready = 2, opts = 1,
        cb_read = Some Contiguous, cb_fast_read = Some Contiguous, cb_write = Some Contiguous \<rparr>) (Some 2)
      = Inr (Some 1, Some 2, Some rb') \<and> contents rb' = []"
  using u_rb_fast_read_spec [of "\<lparr> base = [7, 8, 7, 8], sz = 2, wr_off = 3, rd_off = 1, ready = 2, opts = 1,
        cb_read = Some Contiguous, cb_fast_read = Some Contiguous, cb_write = Some Contiguous \<rparr>" 2]
  by (auto simp: contig_inv_def twins_def opt_defs contents_def less_2_cases_iff slice_def)

text \<open>
  on a buffer without the contiguous option the fast reader's callback is \<open>NULL\<close>, and
  \<open>u_rb_fast_read\<close>, which checks the writer's callback instead, calls it.
\<close>
theorem u_rb_fast_read_null_callback:
  assumes "u_rb_create can_mmap pg_sz sys s op True True True = Inr (0, Some rb)"
    "op AND U_RB_OPT_IMPL_MALLOC \<noteq> 0" "op AND U_RB_OPT_USE_CONTIGUOUS_MEM = 0"
  shows "u_rb_fast_read (Some rb) n = Inl Null_deref"
  using assms
  by (auto simp: u_rb_create_def create_malloc_def u_rb_fast_read_def Let_def split: if_splits)

lemma u_rb_fast_read_null_callback_witness:
  "u_rb_fast_read (snd (create_malloc 4 2 True True True)) (Some 1) = Inl Null_deref"
  using u_rb_fast_read_null_callback [of False 1 "[]" 4 2 "the (snd (create_malloc 4 2 True True True))"]
  by (simp add: u_rb_create_def create_malloc_def opt_defs Let_def)

text \<open>
  a write to a wrapped buffer appends the bytes there is room for, across the end of the
  block where needed.
\<close>
theorem u_rb_write_wrapped:
  assumes "wrapped_inv rb" "n \<le> sz rb" "n \<le> length src"
  shows "\<exists>rb'. u_rb_write mm (Some rb) (Some src) n = Inr (int (min (sz rb - ready rb) n), Some rb')
    \<and> wrapped_inv rb' \<and> wcontents rb' = wcontents rb @ take (min (sz rb - ready rb) n) src"
  by (rule write_wrapped_ok [OF assms, of mm]) auto

lemma u_rb_write_wrapped_witness:
  "\<exists>rb'. u_rb_write twin_store (Some \<lparr> base = [1, 2, 3], sz = 3, wr_off = 2, rd_off = 1, ready = 1, opts = 2,
        cb_read = Some Wrapped, cb_fast_read = None, cb_write = Some Wrapped \<rparr>) (Some [4, 5]) 2
      = Inr (2, Some rb') \<and> wcontents rb' = [2, 4, 5]"
  using u_rb_write_wrapped [of "\<lparr> base = [1, 2, 3], sz = 3, wr_off = 2, rd_off = 1, ready = 1, opts = 2,
        cb_read = Some Wrapped, cb_fast_read = None, cb_write = Some Wrapped \<rparr>" 2 "[4, 5]" twin_store]
  by (auto simp: wrapped_inv_def wcontents_def)

text \<open>
  a read of \<open>n\<close> bytes from a wrapped buffer returns exactly when the bytes end inside the
  block, and at its very end when the write offset has wrapped around: the test for a read in two
  pieces is the wrong way round, so that every other read leaves the block. A read that returns
  gives the oldest bytes and takes them out.
\<close>
theorem u_rb_read_wrapped_iff:
  assumes "wrapped_inv rb" "0 < min (ready rb) m" "m \<le> sz rb" "m \<le> length dst"
  shows "if (if is_wrapped rb then rd_off rb + min (ready rb) m = sz rb
             else rd_off rb + min (ready rb) m \<le> sz rb)
     then \<exists>dst' rb'. u_rb_read (Some rb) (Some dst) m = Inr (int (min (ready rb) m), dst', Some rb')
       \<and> take (min (ready rb) m) dst' = take (min (ready rb) m) (wcontents rb)
       \<and> wrapped_inv rb' \<and> wcontents rb' = drop (min (ready rb) m) (wcontents rb)
     else u_rb_read (Some rb) (Some dst) m = Inl Out_of_bounds"
proof (cases "read_window rb (min (ready rb) m)")
  case True
  have "\<exists>dst' rb'. u_rb_read (Some rb) (Some dst) m = Inr (int (min (ready rb) m), dst', Some rb')
       \<and> take (min (ready rb) m) dst' = take (min (ready rb) m) (wcontents rb)
       \<and> wrapped_inv rb' \<and> wcontents rb' = drop (min (ready rb) m) (wcontents rb)"
    by (rule read_wrapped_window [OF assms(1,2) refl assms(3,4) True]) blast
  then show ?thesis using True by (simp add: read_window_def)
next
  case False
  then show ?thesis
    using read_wrapped_fault [OF assms(1,2) refl assms(3) False] assms(1)
    unfolding read_window_def by (auto simp: u_rb_read_def wrapped_inv_def)
qed

lemma u_rb_read_wrapped_iff_witness:
  "u_rb_read (Some \<lparr> base = [1, 2, 3, 4], sz = 4, wr_off = 1, rd_off = 2, ready = 3, opts = 2,
        cb_read = Some Wrapped, cb_fast_read = None, cb_write = Some Wrapped \<rparr>) (Some [0]) 1
     = Inl Out_of_bounds"
  using u_rb_read_wrapped_iff [of "\<lparr> base = [1, 2, 3, 4], sz = 4, wr_off = 1, rd_off = 2, ready = 3, opts = 2,
        cb_read = Some Wrapped, cb_fast_read = None, cb_write = Some Wrapped \<rparr>" 1 "[0]"]
  by (simp add: wrapped_inv_def is_wrapped_def)

end
