(* ===== verification/Cstr.thy ===== *)
theory Cstr
  imports Prelude
begin

text \<open>
  C strings, as lists of characters without the terminator, and the string functions of
  \<open>srcs/toolbox/misc.c\<close> and \<open>srcs/missing\<close>.
\<close>

section \<open>Comparison\<close>

text \<open>The sign of \<open>strcmp\<close>, on strings without their terminators.\<close>

fun strcmp :: "string \<Rightarrow> string \<Rightarrow> int" where
  "strcmp [] [] = 0"
| "strcmp [] (b # bs) = - 1"
| "strcmp (a # as) [] = 1"
| "strcmp (a # as) (b # bs) = (if a = b then strcmp as bs else if (of_char a :: nat) < of_char b then - 1 else 1)"

text \<open>What the containers ask of a comparison function: a total preorder, as a sign.\<close>

locale key_order =
  fixes cmp :: "'k \<Rightarrow> 'k \<Rightarrow> int"
  assumes cmp_refl: "cmp a a = 0"
    and cmp_flip: "cmp a b < 0 \<longleftrightarrow> 0 < cmp b a"
    and cmp_trans: "cmp a b \<le> 0 \<Longrightarrow> cmp b c \<le> 0 \<Longrightarrow> cmp a c \<le> 0"

lemma strcmp_refl: "strcmp a a = 0"
  by (induction a) simp_all

lemma strcmp_flip: "strcmp a b < 0 \<longleftrightarrow> 0 < strcmp b a"
  by (induction a b rule: strcmp.induct) auto

lemma strcmp_trans: "strcmp a b \<le> 0 \<Longrightarrow> strcmp b c \<le> 0 \<Longrightarrow> strcmp a c \<le> 0"
proof (induction a b arbitrary: c rule: strcmp.induct)
  case (2 b bs)
  then show ?case by (cases c) auto
next
  case (4 a as b bs)
  then show ?case by (cases c) (auto split: if_splits)
qed auto

lemma strcmp_eq: "strcmp a b = 0 \<longleftrightarrow> a = b"
  by (induction a b rule: strcmp.induct) auto

lemma key_order_strcmp: "key_order strcmp"
proof
  fix a b c :: string
  show "strcmp a a = 0" by (rule strcmp_refl)
  show "strcmp a b < 0 \<longleftrightarrow> 0 < strcmp b a" by (rule strcmp_flip)
  show "strcmp a b \<le> 0 \<Longrightarrow> strcmp b c \<le> 0 \<Longrightarrow> strcmp a c \<le> 0" by (rule strcmp_trans)
qed

section \<open>Characters and numbers as text\<close>

abbreviation NUL :: char where
  "NUL \<equiv> CHR 0x00"

definition isspace :: "char \<Rightarrow> bool" where
  "isspace c = (c = CHR '' '' \<or> (9 \<le> (of_char c :: nat) \<and> (of_char c :: nat) \<le> 13))"

definition isdigit :: "char \<Rightarrow> bool" where
  "isdigit c = (48 \<le> (of_char c :: nat) \<and> (of_char c :: nat) \<le> 57)"

definition isupper :: "char \<Rightarrow> bool" where
  "isupper c = (65 \<le> (of_char c :: nat) \<and> (of_char c :: nat) \<le> 90)"

definition islower :: "char \<Rightarrow> bool" where
  "islower c = (97 \<le> (of_char c :: nat) \<and> (of_char c :: nat) \<le> 122)"

definition tolower :: "char \<Rightarrow> char" where
  "tolower c = (if isupper c then char_of ((of_char c :: nat) + 32) else c)"

text \<open>Equality by \<open>strcasecmp\<close>.\<close>

definition strcaseeq :: "string \<Rightarrow> string \<Rightarrow> bool" where
  "strcaseeq s t = (map tolower s = map tolower t)"

definition isalpha :: "char \<Rightarrow> bool" where
  "isalpha c = (isupper c \<or> islower c)"

definition isxdigit :: "char \<Rightarrow> bool" where
  "isxdigit c = (isdigit c \<or> (65 \<le> (of_char c :: nat) \<and> (of_char c :: nat) \<le> 70)
     \<or> (97 \<le> (of_char c :: nat) \<and> (of_char c :: nat) \<le> 102))"

definition iscntrl :: "char \<Rightarrow> bool" where
  "iscntrl c = ((of_char c :: nat) < 32 \<or> (of_char c :: nat) = 127)"

text \<open>The decimal text of an unsigned and of a signed number (\<open>%u\<close>, \<open>%ld\<close>).\<close>

fun decimal :: "nat \<Rightarrow> string" where
  "decimal n = (if n < 10 then [char_of (48 + n)] else decimal (n div 10) @ [char_of (48 + n mod 10)])"

declare decimal.simps [simp del]

definition decimal_int :: "int \<Rightarrow> string" where
  "decimal_int i = (if i < 0 then CHR ''-'' # decimal (nat (- i)) else decimal (nat i))"

lemma isdigit_char_of: "n < 10 \<Longrightarrow> isdigit (char_of (48 + n :: nat))"
  by (simp add: isdigit_def)

lemma decimal_digits: "c \<in> set (decimal n) \<Longrightarrow> isdigit c"
proof (induction n rule: decimal.induct)
  case (1 n)
  show ?case
  proof (cases "n < 10")
    case True
    with 1 show ?thesis by (simp add: decimal.simps [of n] isdigit_char_of)
  next
    case False
    with 1 have "c \<in> set (decimal (n div 10)) \<or> c = char_of (48 + n mod 10)"
      by (auto simp: decimal.simps [of n])
    then show ?thesis using 1 False isdigit_char_of [of "n mod 10"] by auto
  qed
qed

lemma decimal_not_Nil [simp]: "decimal n \<noteq> []"
  by (subst decimal.simps) simp

lemma space_facts [simp]:
  "\<not> isspace NUL" "isspace CHR '' ''" "\<not> isspace (CHR ''['')" "\<not> isspace (CHR '']'')"
  "\<not> isspace (CHR ''{'')" "\<not> isspace (CHR ''}'')" "\<not> isspace (CHR '','')" "\<not> isspace (CHR '':'')"
  "\<not> isspace (CHR 0x22)" "\<not> isspace (CHR ''t'')" "\<not> isspace (CHR ''f'')" "\<not> isspace (CHR ''n'')"
  "\<not> isspace (CHR ''-'')"
  by (simp_all add: isspace_def)

lemma digit_facts [simp]:
  "\<not> isdigit NUL" "\<not> isdigit CHR '' ''" "\<not> isdigit (CHR ''['')" "\<not> isdigit (CHR '']'')"
  "\<not> isdigit (CHR ''{'')" "\<not> isdigit (CHR ''}'')" "\<not> isdigit (CHR '','')" "\<not> isdigit (CHR ''-'')"
  "\<not> isdigit (CHR 0x22)" "\<not> isdigit (CHR ''t'')" "\<not> isdigit (CHR ''f'')" "\<not> isdigit (CHR ''n'')"
  "\<not> isdigit (CHR ''.'')" "\<not> isdigit (CHR ''e'')" "\<not> isdigit (CHR ''E'')" "\<not> isdigit (CHR ''+'')"
  "isdigit (CHR ''0'')"
  by (simp_all add: isdigit_def)

lemma digit_not_space: "isdigit c \<Longrightarrow> \<not> isspace c"
  by (auto simp: isdigit_def isspace_def)

section \<open>Bounded copies\<close>

text \<open>
  The copy of \<open>missing/strlcpy.c\<close> into a buffer of \<open>siz\<close> bytes: the loop with room for \<open>n\<close> more
  characters, and the text in the buffer with the length of the source.
\<close>

fun strlcpy_loop :: "nat \<Rightarrow> string \<Rightarrow> string" where
  "strlcpy_loop 0 s = []"
| "strlcpy_loop (Suc n) [] = []"
| "strlcpy_loop (Suc n) (c # s) = c # strlcpy_loop n s"

definition strlcpy :: "string \<Rightarrow> string \<Rightarrow> nat \<Rightarrow> string \<times> nat" where
  "strlcpy dst src siz =
     ((if siz = 0 then dst else strlcpy_loop (siz - 1) src), length src)"

definition u_strlcpy :: "string \<Rightarrow> string \<Rightarrow> nat \<Rightarrow> bool \<times> string" where
  "u_strlcpy dst src siz = (case strlcpy dst src siz of (d, n) \<Rightarrow> (n < siz, d))"

lemma strlcpy_loop_take: "strlcpy_loop n s = take n s"
  by (induction n s rule: strlcpy_loop.induct) simp_all

lemma u_strlcpy_ok: "length src < siz \<Longrightarrow> u_strlcpy dst src siz = (True, src)"
  by (simp add: u_strlcpy_def strlcpy_def strlcpy_loop_take)

lemma u_strlcpy_eq: "0 < siz \<Longrightarrow> u_strlcpy dst src siz = (length src < siz, take (siz - 1) src)"
  by (simp add: u_strlcpy_def strlcpy_def strlcpy_loop_take)

text \<open>The formatted print: whether the text fits, and what is in the buffer.\<close>

definition u_snprintf :: "nat \<Rightarrow> string \<Rightarrow> bool \<times> string" where
  "u_snprintf siz txt = (length txt < siz, take (siz - 1) txt)"

section \<open>Numbers from text\<close>

text \<open>
  \<open>strtol\<close> in base 10: white space, a sign and digits; the value, saturated, the number of
  characters read, 0 when there is no number, and whether the value is out of range.
\<close>

definition LONG_MAX :: int where "LONG_MAX = 9223372036854775807"
definition LONG_MIN :: int where "LONG_MIN = - 9223372036854775808"
definition INT_MAX :: int where "INT_MAX = 2147483647"
definition INT_MIN :: int where "INT_MIN = - 2147483648"

definition digits_val :: "string \<Rightarrow> int" where
  "digits_val ds = foldl (\<lambda>a c. 10 * a + (int (of_char c) - 48)) 0 ds"

definition strtol :: "string \<Rightarrow> int \<times> nat \<times> bool" where
  "strtol s =
     (let w = takeWhile isspace s;
          r = drop (length w) s;
          sgn = (case r of c # _ \<Rightarrow> if c = CHR ''-'' \<or> c = CHR ''+'' then 1 else 0 | [] \<Rightarrow> 0);
          ds = takeWhile isdigit (drop sgn r);
          v = (if sgn = 1 \<and> hd r = CHR ''-'' then - digits_val ds else digits_val ds)
      in if ds = [] then (0, 0, False)
         else (max LONG_MIN (min LONG_MAX v), length w + sgn + length ds, v < LONG_MIN \<or> LONG_MAX < v))"

text \<open>
  \<open>errno\<close> before the call is an argument: the code does not clear it, so an old \<open>EINVAL\<close> or
  \<open>ERANGE\<close> counts as the one of the call.
\<close>

datatype errno_val = E_none | E_INVAL | E_RANGE

definition u_atol :: "errno_val \<Rightarrow> string option \<Rightarrow> int option" where
  "u_atol errno nptr =
     (case nptr of None \<Rightarrow> None
      | Some s \<Rightarrow>
        (case strtol s of (tmp, n, oor) \<Rightarrow>
          let e = (if oor then E_RANGE else errno) in
          if tmp = 0 \<and> e = E_INVAL then None
          else if (tmp = LONG_MIN \<or> tmp = LONG_MAX) \<and> e = E_RANGE then None
          else if n = 0 then None
          else Some tmp))"

definition u_atoi :: "errno_val \<Rightarrow> string option \<Rightarrow> int option" where
  "u_atoi errno nptr =
     (case u_atol errno nptr of None \<Rightarrow> None
      | Some tmp \<Rightarrow> if tmp > INT_MAX then None else if tmp < INT_MIN then None else Some tmp)"

end
