(* ===== verification/Bst.thy ===== *)
theory Bst
  imports Cstr
begin

text \<open>
  The binary search tree of \<open>srcs/toolbox/bst.c\<close>. A pointer to a node is a tree, \<open>NULL\<close> the empty
  one: every node has one owner, so that a tree stands for the nodes reachable from it. The
  counter \<open>nelem\<close> is a \<open>size_t\<close>; it is kept apart from the number of nodes, and \<open>counted\<close> says
  that they agree. Keys are compared with a user function \<open>cmp\<close>.
\<close>

section \<open>Data\<close>

datatype u_bst_type = U_BST_TYPE_PTR | U_BST_TYPE_STRING | U_BST_TYPE_OPAQUE

datatype u_bst_rot = U_BST_ROT_LEFT | U_BST_ROT_RIGHT

datatype ('k, 'v) u_bst_node =
    Null
  | Node (left: "('k, 'v) u_bst_node") (key: 'k) (val: "'v option") (nelem: size_t)
      (right: "('k, 'v) u_bst_node")

text \<open>A destructor: the library's \<open>u_bst_genfree\<close> or a function of the user.\<close>

datatype bst_dtor = Genfree | User_dtor nat

text \<open>The sizes are not initialised by \<open>u_bst_new\<close>.\<close>

record ('k, 'v) u_bst =
  bst_randomized :: bool
  bst_push_top :: bool
  bst_cmp :: "'k \<Rightarrow> 'k \<Rightarrow> int"
  keytype :: u_bst_type
  valtype :: u_bst_type
  keysize :: "nat option"
  valsize :: "nat option"
  keyfree :: "bst_dtor option"
  valfree :: "bst_dtor option"
  root :: "('k, 'v) u_bst_node"

section \<open>Creation and attributes\<close>

definition u_bst_keycmp :: "string \<Rightarrow> string \<Rightarrow> int" where
  "u_bst_keycmp a b = strcmp a b"

definition u_bst_new :: "bool \<Rightarrow> bool \<Rightarrow> bool \<Rightarrow> bool \<Rightarrow> rc \<times> (string, 'v) u_bst option" where
  "u_bst_new randomized push_top pbst alloc =
     (if \<not> pbst then (rc_fail, None)
      else if \<not> alloc then (rc_fail, None)
      else (rc_ok, Some \<lparr> bst_randomized = randomized, bst_push_top = push_top,
                          bst_cmp = u_bst_keycmp, keytype = U_BST_TYPE_STRING,
                          valtype = U_BST_TYPE_PTR, keysize = None, valsize = None,
                          keyfree = Some Genfree, valfree = None, root = Null \<rparr>))"

definition u_bst_set_keyattr ::
  "('k, 'v) u_bst option \<Rightarrow> u_bst_type \<Rightarrow> nat \<Rightarrow> rc \<times> ('k, 'v) u_bst option" where
  "u_bst_set_keyattr h kt ks =
     (case h of None \<Rightarrow> (rc_fail, None)
      | Some b \<Rightarrow>
        if kt = U_BST_TYPE_OPAQUE \<and> ks = 0 then (rc_fail, h)
        else (let b1 = b\<lparr> keytype := kt, keysize := Some ks \<rparr> in
              (rc_ok, Some (if kt = U_BST_TYPE_OPAQUE then b1\<lparr> keyfree := Some Genfree \<rparr> else b1))))"

definition u_bst_set_valattr ::
  "('k, 'v) u_bst option \<Rightarrow> u_bst_type \<Rightarrow> nat \<Rightarrow> rc \<times> ('k, 'v) u_bst option" where
  "u_bst_set_valattr h vt vs =
     (case h of None \<Rightarrow> (rc_fail, None)
      | Some b \<Rightarrow>
        if vt = U_BST_TYPE_OPAQUE \<and> vs = 0 then (rc_fail, h)
        else (let b1 = b\<lparr> valtype := vt, valsize := Some vs \<rparr> in
              (rc_ok, Some (if vt = U_BST_TYPE_OPAQUE then b1\<lparr> valfree := Some Genfree \<rparr> else b1))))"

definition u_bst_set_cmp ::
  "('k, 'v) u_bst option \<Rightarrow> ('k \<Rightarrow> 'k \<Rightarrow> int) option \<Rightarrow> rc \<times> ('k, 'v) u_bst option" where
  "u_bst_set_cmp h f =
     (case h of None \<Rightarrow> (rc_fail, None)
      | Some b \<Rightarrow> (case f of None \<Rightarrow> (rc_fail, h) | Some c \<Rightarrow> (rc_ok, Some (b\<lparr> bst_cmp := c \<rparr>))))"

definition u_bst_set_keyfree ::
  "('k, 'v) u_bst option \<Rightarrow> bst_dtor option \<Rightarrow> rc \<times> ('k, 'v) u_bst option" where
  "u_bst_set_keyfree h f =
     (case h of None \<Rightarrow> (rc_fail, None)
      | Some b \<Rightarrow> if f = None then (rc_fail, h) else (rc_ok, Some (b\<lparr> keyfree := f \<rparr>)))"

definition u_bst_set_valfree ::
  "('k, 'v) u_bst option \<Rightarrow> bst_dtor option \<Rightarrow> rc \<times> ('k, 'v) u_bst option" where
  "u_bst_set_valfree h f =
     (case h of None \<Rightarrow> (rc_fail, None)
      | Some b \<Rightarrow> if f = None then (rc_fail, h) else (rc_ok, Some (b\<lparr> valfree := f \<rparr>)))"

section \<open>Nodes\<close>

text \<open>
  The copy of a key or a value: a duplicate of a string or of \<open>sz\<close> bytes, or the pointer itself.
  A size that was never set is read uninitialised.
\<close>

definition u_bst_assign ::
  "bool \<Rightarrow> 'a option \<Rightarrow> u_bst_type \<Rightarrow> nat option \<Rightarrow> (rc \<times> 'a option) outcome" where
  "u_bst_assign alloc src t sz =
     (case t of
        U_BST_TYPE_STRING \<Rightarrow>
          if src \<noteq> None \<and> \<not> alloc then Inr (rc_fail, None) else Inr (rc_ok, src)
      | U_BST_TYPE_OPAQUE \<Rightarrow>
          if src = None then Inr (rc_ok, None)
          else (case sz of None \<Rightarrow> Inl Uninitialised
                | Some n \<Rightarrow>
                  if n = 0 then Inr (rc_fail, None)
                  else if \<not> alloc then Inr (rc_fail, None)
                  else Inr (rc_ok, src))
      | U_BST_TYPE_PTR \<Rightarrow> Inr (rc_ok, src))"

text \<open>The outcomes of the allocations of the node, of the key and of the value.\<close>

type_synonym allocs = "bool \<times> bool \<times> bool"

definition u_bst_node_new ::
  "('k, 'v) u_bst \<Rightarrow> allocs \<Rightarrow> 'k option \<Rightarrow> 'v option \<Rightarrow> (rc \<times> ('k, 'v) u_bst_node) outcome" where
  "u_bst_node_new b al k v =
     (case al of (an, ak, av) \<Rightarrow>
        if k = None then Inr (rc_fail, Null)
        else if \<not> an then Inr (rc_fail, Null)
        else
          obind (u_bst_assign ak k (keytype b) (keysize b)) (\<lambda>(rk, k').
            if rk \<noteq> 0 then Inr (rc_fail, Null)
            else
              obind (u_bst_assign av v (valtype b) (valsize b)) (\<lambda>(rv, v').
                if rv \<noteq> 0 then Inr (rc_fail, Null)
                else Inr (rc_ok, (case k' of None \<Rightarrow> Null | Some x \<Rightarrow> Node Null x v' 1 Null)))))"

definition u_bst_node_key :: "('k, 'v) u_bst_node \<Rightarrow> 'k option" where
  "u_bst_node_key n = (case n of Null \<Rightarrow> None | Node _ k _ _ _ \<Rightarrow> Some k)"

definition u_bst_node_val :: "('k, 'v) u_bst_node \<Rightarrow> 'v option" where
  "u_bst_node_val n = (case n of Null \<Rightarrow> None | Node _ _ v _ _ \<Rightarrow> v)"

definition u_bst_node_count :: "('k, 'v) u_bst_node \<Rightarrow> int" where
  "u_bst_node_count n = (case n of Null \<Rightarrow> - 1 | Node _ _ _ c _ \<Rightarrow> sint c)"

definition u_bst_empty :: "('k, 'v) u_bst option \<Rightarrow> bool" where
  "u_bst_empty h = (case h of None \<Rightarrow> True | Some b \<Rightarrow> root b = Null)"

definition u_bst_count :: "('k, 'v) u_bst option \<Rightarrow> int" where
  "u_bst_count h =
     (case h of None \<Rightarrow> - 1
      | Some b \<Rightarrow> (case root b of Null \<Rightarrow> 0 | Node _ _ _ c _ \<Rightarrow> sint c))"

text \<open>
  The release of a tree in post-order: the keys and values passed to the destructors, in the
  order of the calls.
\<close>

definition u_bst_node_do_free ::
  "('k, 'v) u_bst \<Rightarrow> ('k, 'v) u_bst_node \<Rightarrow> ('k + 'v) list" where
  "u_bst_node_do_free b n =
     (case n of Null \<Rightarrow> []
      | Node _ k v _ _ \<Rightarrow>
        (if keyfree b \<noteq> None then [Inl k] else [])
        @ (case v of None \<Rightarrow> [] | Some x \<Rightarrow> if valfree b \<noteq> None then [Inr x] else []))"

fun u_bst_node_free :: "('k, 'v) u_bst \<Rightarrow> ('k, 'v) u_bst_node \<Rightarrow> ('k + 'v) list" where
  "u_bst_node_free b Null = []"
| "u_bst_node_free b (Node l k v c r) =
     u_bst_node_free b l @ u_bst_node_free b r @ u_bst_node_do_free b (Node l k v c r)"

definition u_bst_free :: "('k, 'v) u_bst option \<Rightarrow> ('k + 'v) list" where
  "u_bst_free h = (case h of None \<Rightarrow> [] | Some b \<Rightarrow> u_bst_node_free b (root b))"

section \<open>Search\<close>

fun u_bst_node_search ::
  "('k, 'v) u_bst_node \<Rightarrow> 'k \<Rightarrow> ('k \<Rightarrow> 'k \<Rightarrow> int) \<Rightarrow> ('k, 'v) u_bst_node" where
  "u_bst_node_search Null k cmp = Null"
| "u_bst_node_search (Node l x v c r) k cmp =
     (if cmp k x = 0 then Node l x v c r
      else if cmp k x > 0 then u_bst_node_search r k cmp
      else u_bst_node_search l k cmp)"

definition u_bst_search :: "('k, 'v) u_bst option \<Rightarrow> 'k option \<Rightarrow> ('k, 'v) u_bst_node" where
  "u_bst_search h k =
     (case (h, k) of (Some b, Some x) \<Rightarrow> u_bst_node_search (root b) x (bst_cmp b) | _ \<Rightarrow> Null)"

definition left_count :: "('k, 'v) u_bst_node \<Rightarrow> size_t" where
  "left_count l = (case l of Null \<Rightarrow> 0 | Node _ _ _ c _ \<Rightarrow> c)"

fun u_bst_node_find_nth :: "('k, 'v) u_bst_node \<Rightarrow> size_t \<Rightarrow> ('k, 'v) u_bst_node" where
  "u_bst_node_find_nth Null n = Null"
| "u_bst_node_find_nth (Node l k v c r) n =
     (let t = left_count l in
      if t > n then u_bst_node_find_nth l n
      else if t < n then u_bst_node_find_nth r (n - (t + 1))
      else Node l k v c r)"

definition u_bst_find_nth :: "('k, 'v) u_bst option \<Rightarrow> size_t \<Rightarrow> ('k, 'v) u_bst_node" where
  "u_bst_find_nth h n = (case h of None \<Rightarrow> Null | Some b \<Rightarrow> u_bst_node_find_nth (root b) n)"

text \<open>The in-order walk: \<open>cb\<close> maps the user's state at each node.\<close>

fun u_bst_node_foreach ::
  "('k, 'v) u_bst_node \<Rightarrow> ('k \<Rightarrow> 'v option \<Rightarrow> 's \<Rightarrow> 's) \<Rightarrow> 's \<Rightarrow> 's" where
  "u_bst_node_foreach Null cb s = s"
| "u_bst_node_foreach (Node l k v c r) cb s =
     u_bst_node_foreach r cb (cb k v (u_bst_node_foreach l cb s))"

definition u_bst_foreach ::
  "('k, 'v) u_bst option \<Rightarrow> ('k \<Rightarrow> 'v option \<Rightarrow> 's \<Rightarrow> 's) option \<Rightarrow> 's \<Rightarrow> rc \<times> 's" where
  "u_bst_foreach h cb s =
     (case h of None \<Rightarrow> (rc_fail, s)
      | Some b \<Rightarrow> (case cb of None \<Rightarrow> (rc_fail, s)
                   | Some f \<Rightarrow> (rc_ok, u_bst_node_foreach (root b) f s)))"

section \<open>Rotations\<close>

text \<open>
  A pivot without the child to promote is a dereference of \<open>NULL\<close>. The pivot loses the promoted
  child and the child's outer subtree.
\<close>

fun u_bst_rotate :: "('k, 'v) u_bst_node \<Rightarrow> u_bst_rot \<Rightarrow> ('k, 'v) u_bst_node outcome" where
  "u_bst_rotate Null d = Inr Null"
| "u_bst_rotate (Node l k v c r) U_BST_ROT_LEFT =
     (case r of Null \<Rightarrow> Inl Null_deref
      | Node rl rk rv rc rr \<Rightarrow>
        Inr (Node (Node l k v (c - (if rr \<noteq> Null then left_count rr + 1 else 1)) rl) rk rv c rr))"
| "u_bst_rotate (Node l k v c r) U_BST_ROT_RIGHT =
     (case l of Null \<Rightarrow> Inl Null_deref
      | Node ll lk lv lc lr \<Rightarrow>
        Inr (Node ll lk lv c (Node lr k v (c - (if ll \<noteq> Null then left_count ll + 1 else 1)) r)))"

fun u_bst_node_promote_nth ::
  "('k, 'v) u_bst_node \<Rightarrow> size_t \<Rightarrow> ('k, 'v) u_bst_node outcome" where
  "u_bst_node_promote_nth Null n = Inr Null"
| "u_bst_node_promote_nth (Node l k v c r) n =
     (let t = left_count l in
      if t > n then
        obind (u_bst_node_promote_nth l n) (\<lambda>l'. u_bst_rotate (Node l' k v c r) U_BST_ROT_RIGHT)
      else if t < n then
        obind (u_bst_node_promote_nth r (n - (t + 1)))
          (\<lambda>r'. u_bst_rotate (Node l k v c r') U_BST_ROT_LEFT)
      else Inr (Node l k v c r))"

section \<open>Insertion\<close>

fun u_bst_node_push ::
  "('k, 'v) u_bst \<Rightarrow> allocs \<Rightarrow> ('k, 'v) u_bst_node \<Rightarrow> 'k \<Rightarrow> 'v option
   \<Rightarrow> ('k, 'v) u_bst_node outcome" where
  "u_bst_node_push b al Null k v =
     obind (u_bst_node_new b al (Some k) v) (\<lambda>(rc, n). Inr (if rc \<noteq> 0 then Null else n))"
| "u_bst_node_push b al (Node l x w c r) k v =
     (if bst_cmp b k x < 0
      then obind (u_bst_node_push b al l k v) (\<lambda>l'. Inr (Node l' x w (c + 1) r))
      else obind (u_bst_node_push b al r k v) (\<lambda>r'. Inr (Node l x w (c + 1) r')))"

text \<open>
  The loop of the bottom insertion walks down to an external node, counts the nodes it passes and
  hangs the new node there.
\<close>

fun bottom_walk ::
  "('k \<Rightarrow> 'k \<Rightarrow> int) \<Rightarrow> 'k \<Rightarrow> ('k, 'v) u_bst_node \<Rightarrow> ('k, 'v) u_bst_node
   \<Rightarrow> ('k, 'v) u_bst_node" where
  "bottom_walk cmp k nn Null = nn"
| "bottom_walk cmp k nn (Node l x w c r) =
     (if cmp k x < 0 then Node (bottom_walk cmp k nn l) x w (c + 1) r
      else Node l x w (c + 1) (bottom_walk cmp k nn r))"

definition u_bst_node_push_bottom ::
  "('k, 'v) u_bst \<Rightarrow> allocs \<Rightarrow> 'k \<Rightarrow> 'v option \<Rightarrow> ('k, 'v) u_bst_node outcome" where
  "u_bst_node_push_bottom b al k v =
     obind (u_bst_node_new b al (Some k) v) (\<lambda>(rc, n).
       if rc \<noteq> 0 then Inr Null
       else if u_bst_empty (Some b) then Inr n
       else Inr (bottom_walk (bst_cmp b) k n (root b)))"

fun u_bst_node_push_top ::
  "('k, 'v) u_bst \<Rightarrow> allocs \<Rightarrow> ('k, 'v) u_bst_node \<Rightarrow> 'k \<Rightarrow> 'v option
   \<Rightarrow> ('k, 'v) u_bst_node outcome" where
  "u_bst_node_push_top b al Null k v =
     obind (u_bst_node_new b al (Some k) v) (\<lambda>(rc, n). Inr (if rc \<noteq> 0 then Null else n))"
| "u_bst_node_push_top b al (Node l x w c r) k v =
     (if bst_cmp b k x < 0
      then obind (u_bst_node_push_top b al l k v)
        (\<lambda>l'. u_bst_rotate (Node l' x w (c + 1) r) U_BST_ROT_RIGHT)
      else obind (u_bst_node_push_top b al r k v)
        (\<lambda>r'. u_bst_rotate (Node l x w (c + 1) r') U_BST_ROT_LEFT))"

text \<open>\<open>rnd\<close> is the value of \<open>rand ()\<close>.\<close>

definition RAND_MAX :: size_t where "RAND_MAX = 2147483647"

definition u_bst_node_push_rand ::
  "('k, 'v) u_bst \<Rightarrow> allocs \<Rightarrow> size_t \<Rightarrow> ('k, 'v) u_bst_node \<Rightarrow> 'k \<Rightarrow> 'v option
   \<Rightarrow> ('k, 'v) u_bst_node outcome" where
  "u_bst_node_push_rand b al rnd n k v =
     (case n of
        Null \<Rightarrow> obind (u_bst_node_new b al (Some k) v) (\<lambda>(rc, n'). Inr (if rc \<noteq> 0 then Null else n'))
      | Node l x w c r \<Rightarrow>
        if c + 1 = 0 then Inl Div_by_zero
        else if rnd < RAND_MAX div (c + 1) then u_bst_node_push_top b al n k v
        else if bst_cmp b k x < 0
        then obind (u_bst_node_push b al l k v) (\<lambda>l'. Inr (Node l' x w (c + 1) r))
        else obind (u_bst_node_push b al r k v) (\<lambda>r'. Inr (Node l x w (c + 1) r')))"

definition u_bst_push ::
  "allocs \<Rightarrow> size_t \<Rightarrow> ('k, 'v) u_bst option \<Rightarrow> 'k option \<Rightarrow> 'v option
   \<Rightarrow> (rc \<times> ('k, 'v) u_bst option) outcome" where
  "u_bst_push al rnd h ky v =
     (case (h, ky) of
        (Some b, Some k) \<Rightarrow>
          obind
            (if bst_randomized b then u_bst_node_push_rand b al rnd (root b) k v
             else if bst_push_top b then u_bst_node_push_top b al (root b) k v
             else u_bst_node_push_bottom b al k v)
            (\<lambda>t. Inr (if t \<noteq> Null then rc_ok else rc_fail, Some (b\<lparr> root := t \<rparr>)))
      | _ \<Rightarrow> Inr (rc_fail, h))"

section \<open>Deletion\<close>

definition u_bst_node_join_lr ::
  "('k, 'v) u_bst_node \<Rightarrow> ('k, 'v) u_bst_node \<Rightarrow> ('k, 'v) u_bst_node outcome" where
  "u_bst_node_join_lr l r =
     (if r = Null then Inr l
      else obind (u_bst_node_promote_nth r 0) (\<lambda>r'.
        case r' of Null \<Rightarrow> Inl Null_deref | Node _ k v c rr \<Rightarrow> Inr (Node l k v c rr)))"

text \<open>The decrement at the end of each call, for a node that is not \<open>NULL\<close>, once found.\<close>

definition dec_count :: "bool \<Rightarrow> ('k, 'v) u_bst_node \<Rightarrow> ('k, 'v) u_bst_node" where
  "dec_count found n =
     (case n of Null \<Rightarrow> Null | Node l k v c r \<Rightarrow> if found then Node l k v (c - 1) r else n)"

fun u_bst_node_delete ::
  "('k, 'v) u_bst \<Rightarrow> ('k, 'v) u_bst_node \<Rightarrow> 'k \<Rightarrow> bool
   \<Rightarrow> (('k, 'v) u_bst_node \<times> bool) outcome" where
  "u_bst_node_delete b Null k found = Inr (Null, found)"
| "u_bst_node_delete b (Node l x w c r) k found =
     (let rc = bst_cmp b k x in
      if rc < 0 then
        obind (u_bst_node_delete b l k found) (\<lambda>(l', f). Inr (dec_count f (Node l' x w c r), f))
      else if rc > 0 then
        obind (u_bst_node_delete b r k found) (\<lambda>(r', f). Inr (dec_count f (Node l x w c r'), f))
      else
        obind (u_bst_node_join_lr l r) (\<lambda>n. Inr (dec_count True n, True)))"

definition u_bst_delete ::
  "('k, 'v) u_bst option \<Rightarrow> 'k option \<Rightarrow> (rc \<times> ('k, 'v) u_bst option) outcome" where
  "u_bst_delete h ky =
     (case (h, ky) of
        (Some b, Some k) \<Rightarrow>
          obind (u_bst_node_delete b (root b) k False) (\<lambda>(t, f).
            Inr (if f then rc_ok else rc_fail, Some (b\<lparr> root := t \<rparr>)))
      | _ \<Rightarrow> Inr (rc_fail, h))"

section \<open>The contents of a tree\<close>

fun inorder :: "('k, 'v) u_bst_node \<Rightarrow> ('k \<times> 'v option) list" where
  "inorder Null = []"
| "inorder (Node l k v c r) = inorder l @ (k, v) # inorder r"

abbreviation nodes :: "('k, 'v) u_bst_node \<Rightarrow> nat" where
  "nodes t \<equiv> length (inorder t)"

lemma inorder_Nil [simp]: "inorder t = [] \<longleftrightarrow> t = Null"
  by (cases t) auto

lemma rotate_inorder: "u_bst_rotate t d = Inr t' \<Longrightarrow> inorder t' = inorder t"
  by (cases "(t, d)" rule: u_bst_rotate.cases) (auto split: u_bst_node.splits)

lemma promote_inorder: "u_bst_node_promote_nth t n = Inr t' \<Longrightarrow> inorder t' = inorder t"
proof (induction t arbitrary: n t')
  case (Node l k v c r)
  consider "n < left_count l" | "left_count l < n" "\<not> n < left_count l" | "n = left_count l"
    by (metis linorder_neqE not_less_iff_gr_or_eq)
  then show ?case
  proof cases
    case 1
    then obtain l' where "u_bst_node_promote_nth l n = Inr l'"
        "u_bst_rotate (Node l' k v c r) U_BST_ROT_RIGHT = Inr t'"
      using Node.prems by (auto simp: Let_def outcome_simps)
    then show ?thesis using Node.IH(1) rotate_inorder by fastforce
  next
    case 2
    then obtain r' where "u_bst_node_promote_nth r (n - (left_count l + 1)) = Inr r'"
        "u_bst_rotate (Node l k v c r') U_BST_ROT_LEFT = Inr t'"
      using Node.prems by (auto simp: Let_def outcome_simps)
    then show ?thesis using Node.IH(2) rotate_inorder by fastforce
  next
    case 3
    then show ?thesis using Node.prems by (simp add: Let_def)
  qed
qed simp

section \<open>Balancing\<close>

text \<open>The recursion ends because the promotion keeps the nodes.\<close>

lemma promote_subtrees:
  assumes "u_bst_node_promote_nth t n = Inr (Node l k v c r)"
  shows "nodes l < nodes t" "nodes r < nodes t"
  using promote_inorder [OF assms, symmetric] by simp_all

function u_bst_node_balance :: "('k, 'v) u_bst_node \<Rightarrow> ('k, 'v) u_bst_node outcome" where
  "u_bst_node_balance t =
     (if t = Null \<or> left_count t < 2 then Inr t
      else obind (u_bst_node_promote_nth t (left_count t div 2)) (\<lambda>t'.
        case t' of Null \<Rightarrow> Inl Null_deref
        | Node l k v c r \<Rightarrow>
          obind (u_bst_node_balance l) (\<lambda>l'.
          obind (u_bst_node_balance r) (\<lambda>r'. Inr (Node l' k v c r')))))"
  by pat_completeness auto
termination
  by (relation "measure (\<lambda>t. nodes t)") (auto dest: promote_subtrees)

declare u_bst_node_balance.simps [simp del]

definition u_bst_balance :: "('k, 'v) u_bst option \<Rightarrow> (rc \<times> ('k, 'v) u_bst option) outcome" where
  "u_bst_balance h =
     (case h of None \<Rightarrow> Inr (rc_fail, None)
      | Some b \<Rightarrow>
        obind (u_bst_node_balance (root b)) (\<lambda>t. Inr (rc_ok, Some (b\<lparr> root := t \<rparr>))))"

section \<open>The counters\<close>

fun counted :: "('k, 'v) u_bst_node \<Rightarrow> bool" where
  "counted Null = True"
| "counted (Node l k v c r) = (c = of_nat (nodes l + nodes r + 1) \<and> counted l \<and> counted r)"

lemma left_count_counted: "counted t \<Longrightarrow> left_count t = of_nat (nodes t)"
  by (cases t) (simp_all add: left_count_def)

lemma left_count_Null [simp]: "left_count Null = 0"
  by (simp add: left_count_def)

lemma left_count_Node [simp]: "left_count (Node l k v c r) = c"
  by (simp add: left_count_def)

lemma promoted_count [simp]: "(if t \<noteq> Null then left_count t + 1 else 1) = left_count t + 1"
  by simp

lemma rotate_right_counted:
  assumes "c = of_nat (nodes (Node ll lk lv lc lr) + nodes r + 1)" "counted (Node ll lk lv lc lr)" "counted r"
  shows "\<exists>c'. u_bst_rotate (Node (Node ll lk lv lc lr) k v c r) U_BST_ROT_RIGHT
      = Inr (Node ll lk lv c (Node lr k v c' r)) \<and> counted (Node ll lk lv c (Node lr k v c' r))"
  using assms by (simp add: left_count_counted add.assoc)

lemma rotate_left_counted:
  assumes "c = of_nat (nodes l + nodes (Node rl rk rv rc rr) + 1)" "counted (Node rl rk rv rc rr)" "counted l"
  shows "\<exists>c'. u_bst_rotate (Node l k v c (Node rl rk rv rc rr)) U_BST_ROT_LEFT
      = Inr (Node (Node l k v c' rl) rk rv c rr) \<and> counted (Node (Node l k v c' rl) rk rv c rr)"
  using assms by (simp add: left_count_counted add.assoc)

lemma promote_counted:
  assumes "counted t" "n < nodes t" "nodes t < 2 ^ 64"
  shows "\<exists>l k v c r. u_bst_node_promote_nth t (of_nat n) = Inr (Node l k v c r)
    \<and> counted (Node l k v c r) \<and> nodes l = n"
  using assms
proof (induction t arbitrary: n)
  case (Node l k v c r)
  have lc: "left_count l = of_nat (nodes l)" using Node.prems by (simp add: left_count_counted)
  have b: "nodes l < 2 ^ 64" "n < 2 ^ 64" using Node.prems by auto
  have c: "c = of_nat (nodes l + nodes r + 1)" using Node.prems(1) by simp
  consider "n < nodes l" | "nodes l < n" | "n = nodes l" by linarith
  then show ?case
  proof cases
    case 1
    obtain ll lk lv lc' lr where p: "u_bst_node_promote_nth l (of_nat n) = Inr (Node ll lk lv lc' lr)"
        "counted (Node ll lk lv lc' lr)" "nodes ll = n"
      using Node.IH(1) [of n] Node.prems 1 by auto
    have "nodes (Node ll lk lv lc' lr) = nodes l" using promote_inorder [OF p(1)] by simp
    then obtain c' where "u_bst_rotate (Node (Node ll lk lv lc' lr) k v c r) U_BST_ROT_RIGHT
      = Inr (Node ll lk lv c (Node lr k v c' r))" "counted (Node ll lk lv c (Node lr k v c' r))"
      using rotate_right_counted [of c ll lk lv lc' lr r k v] p(2) c Node.prems(1) by auto
    moreover have "(of_nat n :: size_t) < of_nat (nodes l)" using 1 b by (simp add: size_t_less)
    ultimately show ?thesis using p lc by (simp add: Let_def)
  next
    case 2
    then obtain m where m: "n = nodes l + 1 + m" by (metis less_imp_Suc_add Suc_eq_plus1 add.commute add.assoc)
    then have eq: "of_nat n - (of_nat (nodes l) + 1) = (of_nat m :: size_t)" by simp
    have "m < nodes r" using m Node.prems(2) by simp
    then obtain rl rk rv rc' rr where p: "u_bst_node_promote_nth r (of_nat m) = Inr (Node rl rk rv rc' rr)"
        "counted (Node rl rk rv rc' rr)" "nodes rl = m"
      using Node.IH(2) [of m] Node.prems by auto
    have "nodes (Node rl rk rv rc' rr) = nodes r" using promote_inorder [OF p(1)] by simp
    then obtain c' where "u_bst_rotate (Node l k v c (Node rl rk rv rc' rr)) U_BST_ROT_LEFT
      = Inr (Node (Node l k v c' rl) rk rv c rr)" "counted (Node (Node l k v c' rl) rk rv c rr)"
      using rotate_left_counted [of c l rl rk rv rc' rr k v] p(2) c Node.prems(1) by auto
    moreover have "(of_nat (nodes l) :: size_t) < of_nat n" "\<not> (of_nat n :: size_t) < of_nat (nodes l)"
      using 2 b by (simp_all add: size_t_less)
    ultimately show ?thesis using p m by (simp only: u_bst_node_promote_nth.simps Let_def lc eq) simp
  next
    case 3
    then show ?thesis using lc Node.prems by (simp add: Let_def)
  qed
qed simp

lemma find_nth_counted:
  assumes "counted t" "n < nodes t" "nodes t < 2 ^ 64"
  shows "\<exists>l k v c r. u_bst_node_find_nth t (of_nat n) = Node l k v c r \<and> inorder t ! n = (k, v)"
  using assms
proof (induction t arbitrary: n)
  case (Node l k v c r)
  have lc: "left_count l = of_nat (nodes l)" using Node.prems by (simp add: left_count_counted)
  have b: "nodes l < 2 ^ 64" "n < 2 ^ 64" using Node.prems by auto
  consider "n < nodes l" | "nodes l < n" | "n = nodes l" by linarith
  then show ?case
  proof cases
    case 1
    then have "(of_nat n :: size_t) < of_nat (nodes l)" using b by (simp add: size_t_less)
    then show ?thesis using Node.IH(1) [of n] Node.prems 1 lc by (simp add: Let_def nth_append)
  next
    case 2
    obtain m where m: "n = nodes l + 1 + m" using 2 by (metis less_imp_Suc_add Suc_eq_plus1 add.commute add.assoc)
    then have eq: "of_nat n - (of_nat (nodes l) + 1) = (of_nat m :: size_t)" by simp
    have lt: "(of_nat (nodes l) :: size_t) < of_nat n" "\<not> (of_nat n :: size_t) < of_nat (nodes l)"
      using 2 b by (simp_all add: size_t_less)
    have step: "u_bst_node_find_nth (Node l k v c r) (of_nat n) = u_bst_node_find_nth r (of_nat m)"
      using lt by (simp only: u_bst_node_find_nth.simps Let_def lc eq) simp
    have nth: "inorder (Node l k v c r) ! n = inorder r ! m" using m by (simp add: nth_append)
    show ?thesis unfolding step nth
      by (rule Node.IH(2)) (use Node.prems m in auto)
  next
    case 3
    then show ?thesis using lc by (simp add: Let_def)
  qed
qed simp

lemma find_nth_beyond:
  assumes "counted t" "nodes t \<le> n" "n < 2 ^ 64"
  shows "u_bst_node_find_nth t (of_nat n) = Null"
  using assms
proof (induction t arbitrary: n)
  case (Node l k v c r)
  have lc: "left_count l = of_nat (nodes l)" using Node.prems by (simp add: left_count_counted)
  have lt: "nodes l < n" using Node.prems(2) by simp
  then obtain m where m: "n = nodes l + 1 + m" by (metis less_imp_Suc_add Suc_eq_plus1 add.commute add.assoc)
  then have eq: "of_nat n - (of_nat (nodes l) + 1) = (of_nat m :: size_t)" by simp
  have "(of_nat (nodes l) :: size_t) < of_nat n" "\<not> (of_nat n :: size_t) < of_nat (nodes l)"
    using lt Node.prems(3) by (simp_all add: size_t_less)
  then have step: "u_bst_node_find_nth (Node l k v c r) (of_nat n) = u_bst_node_find_nth r (of_nat m)"
    by (simp only: u_bst_node_find_nth.simps Let_def lc eq) simp
  show ?case unfolding step by (rule Node.IH(2)) (use Node.prems m in auto)
qed simp

section \<open>The order of the keys\<close>

text \<open>
  What the tree asks of a comparison function: a total preorder, as the sign of an integer. The
  order of a tree is that of its in-order walk; an insertion goes behind the keys that are not
  greater.
\<close>

definition ordered :: "('k \<Rightarrow> 'k \<Rightarrow> int) \<Rightarrow> ('k \<times> 'v) list \<Rightarrow> bool" where
  "ordered cmp xs = sorted_wrt (\<lambda>x y. cmp (fst x) (fst y) \<le> 0) xs"

fun ord_insert :: "('k \<Rightarrow> 'k \<Rightarrow> int) \<Rightarrow> 'k \<Rightarrow> 'v \<Rightarrow> ('k \<times> 'v) list \<Rightarrow> ('k \<times> 'v) list" where
  "ord_insert cmp k v [] = [(k, v)]"
| "ord_insert cmp k v (x # xs) =
     (if cmp k (fst x) < 0 then (k, v) # x # xs else x # ord_insert cmp k v xs)"

lemma set_ord_insert [simp]: "set (ord_insert cmp k v xs) = insert (k, v) (set xs)"
  by (induction xs) auto

lemma length_ord_insert [simp]: "length (ord_insert cmp k v xs) = Suc (length xs)"
  by (induction xs) auto

lemma ord_insert_left:
  "cmp k (fst x) < 0 \<Longrightarrow> ord_insert cmp k v (l @ x # r) = ord_insert cmp k v l @ x # r"
  by (induction l) auto

lemma ord_insert_right:
  "\<forall>y \<in> set l. \<not> cmp k (fst y) < 0 \<Longrightarrow> \<not> cmp k (fst x) < 0 \<Longrightarrow>
   ord_insert cmp k v (l @ x # r) = l @ x # ord_insert cmp k v r"
  by (induction l) auto

context key_order
begin

lemma ordered_insert: "ordered cmp xs \<Longrightarrow> ordered cmp (ord_insert cmp k v xs)"
proof (induction xs)
  case (Cons x xs)
  show ?case
  proof (cases "cmp k (fst x) < 0")
    case True
    then have "cmp k (fst y) \<le> 0" if "y \<in> set (x # xs)" for y
      using Cons.prems that cmp_trans [of k "fst x" "fst y"] by (auto simp: ordered_def)
    with True Cons.prems show ?thesis by (auto simp: ordered_def)
  next
    case False
    then have "cmp (fst x) k \<le> 0" using cmp_flip [of k "fst x"] cmp_flip [of "fst x" k] by linarith
    with False Cons show ?thesis by (auto simp: ordered_def)
  qed
qed (simp add: ordered_def)

lemma below_not_greater:
  assumes "ordered cmp (l @ x # r)" "\<not> cmp k (fst x) < 0" "y \<in> set l"
  shows "\<not> cmp k (fst y) < 0"
proof -
  have "cmp (fst y) (fst x) \<le> 0" using assms(1,3) by (auto simp: ordered_def sorted_wrt_append)
  moreover have "cmp (fst x) k \<le> 0" using assms(2) cmp_flip [of k "fst x"] cmp_flip [of "fst x" k] by linarith
  ultimately have "cmp (fst y) k \<le> 0" by (rule cmp_trans)
  then show ?thesis using cmp_flip [of k "fst y"] by simp
qed

lemma insert_split:
  assumes "ordered cmp (l @ x # r)"
  shows "ord_insert cmp k v (l @ x # r) =
    (if cmp k (fst x) < 0 then ord_insert cmp k v l @ x # r else l @ x # ord_insert cmp k v r)"
proof (cases "cmp k (fst x) < 0")
  case False
  then have "\<forall>y \<in> set l. \<not> cmp k (fst y) < 0" using below_not_greater [OF assms] by blast
  with False show ?thesis by (simp add: ord_insert_right)
qed (simp add: ord_insert_left)

lemma ordered_sub: "ordered cmp (l @ x # r) \<Longrightarrow> ordered cmp l \<and> ordered cmp r"
  by (auto simp: ordered_def sorted_wrt_append)

lemma search_ok:
  "ordered cmp (inorder t) \<Longrightarrow>
   (case u_bst_node_search t k cmp of
      Null \<Rightarrow> \<forall>x \<in> set (inorder t). cmp k (fst x) \<noteq> 0
    | Node l x v c r \<Rightarrow> cmp k x = 0 \<and> (x, v) \<in> set (inorder t))"
proof (induction t)
  case (Node l x v c r)
  have o: "ordered cmp (inorder l)" "ordered cmp (inorder r)"
    using Node.prems by (auto dest: ordered_sub)
  have lo: "cmp (fst y) x \<le> 0" if "y \<in> set (inorder l)" for y
    using Node.prems that by (auto simp: ordered_def sorted_wrt_append)
  have hi: "cmp x (fst y) \<le> 0" if "y \<in> set (inorder r)" for y
    using Node.prems that by (auto simp: ordered_def sorted_wrt_append)
  consider "cmp k x = 0" | "0 < cmp k x" | "cmp k x < 0" by linarith
  then show ?case
  proof cases
    case 1 then show ?thesis by simp
  next
    case 2
    have "cmp k (fst y) \<noteq> 0" if "y \<in> set (inorder l)" for y
    proof
      assume "cmp k (fst y) = 0"
      then have "cmp k x \<le> 0" using cmp_trans [of k "fst y" x] lo [OF that] by simp
      with 2 show False by simp
    qed
    with 2 Node.IH(2) [OF o(2)] show ?thesis by (auto split: u_bst_node.splits)
  next
    case 3
    then have kx: "0 < cmp x k" using cmp_flip by simp
    have "cmp k (fst y) \<noteq> 0" if "y \<in> set (inorder r)" for y
    proof
      assume "cmp k (fst y) = 0"
      then have "cmp (fst y) k \<le> 0" using cmp_flip [of k "fst y"] by simp
      then have "cmp x k \<le> 0" using cmp_trans [of x "fst y" k] hi [OF that] by simp
      with kx show False by simp
    qed
    with 3 Node.IH(1) [OF o(1)] show ?thesis by (auto split: u_bst_node.splits)
  qed
qed simp

lemma walk_inorder:
  "ordered cmp (inorder t) \<Longrightarrow>
   inorder (bottom_walk cmp k (Node Null k v c0 Null) t) = ord_insert cmp k v (inorder t)"
proof (induction t)
  case (Node l x w c r)
  then show ?case using ordered_sub [of "inorder l" "(x, w)" "inorder r"]
    by (simp add: insert_split)
qed simp

end

interpretation str: key_order u_bst_keycmp
  unfolding u_bst_keycmp_def [abs_def] by (rule key_order_strcmp)

section \<open>Insertions\<close>

text \<open>The attributes of a tree are usable: an opaque key or value has a positive size.\<close>

definition attrs_ok :: "('k, 'v) u_bst \<Rightarrow> bool" where
  "attrs_ok b =
     ((keytype b = U_BST_TYPE_OPAQUE \<longrightarrow> (\<exists>n > 0. keysize b = Some n)) \<and>
      (valtype b = U_BST_TYPE_OPAQUE \<longrightarrow> (\<exists>n > 0. valsize b = Some n)))"

lemma attrs_ok_root [simp]: "attrs_ok (b\<lparr> root := t \<rparr>) = attrs_ok b"
  by (simp add: attrs_ok_def)

lemma node_new_ok:
  "attrs_ok b \<Longrightarrow> u_bst_node_new b (True, True, True) (Some k) v = Inr (rc_ok, Node Null k v 1 Null)"
  by (auto simp: u_bst_node_new_def u_bst_assign_def attrs_ok_def split: u_bst_type.splits)

lemma node_new_fail:
  "u_bst_node_new b (False, ak, av) (Some k) v = Inr (rc_fail, Null)"
  by (simp add: u_bst_node_new_def)

lemma node_push_walk:
  assumes "attrs_ok b"
  shows "u_bst_node_push b (True, True, True) t k v
    = Inr (bottom_walk (bst_cmp b) k (Node Null k v 1 Null) t)"
  by (induction t) (simp_all add: node_new_ok [OF assms])

lemma walk_nodes [simp]: "nodes (bottom_walk cmp k (Node Null k v c0 Null) t) = Suc (nodes t)"
  by (induction t) auto

lemma walk_counted: "counted t \<Longrightarrow> counted (bottom_walk cmp k (Node Null k v 1 Null) t)"
  by (induction t) auto

lemma push_top_ok:
  assumes "attrs_ok b" "counted t"
  shows "\<exists>l c r. u_bst_node_push_top b (True, True, True) t k v = Inr (Node l k v c r)
    \<and> counted (Node l k v c r)
    \<and> inorder (Node l k v c r) = inorder (bottom_walk (bst_cmp b) k (Node Null k v 1 Null) t)"
  using assms(2)
proof (induction t)
  case Null
  then show ?case by (simp add: node_new_ok [OF assms(1)])
next
  case (Node l x w c r)
  show ?case
  proof (cases "bst_cmp b k x < 0")
    case True
    obtain ll lc lr where l: "u_bst_node_push_top b (True, True, True) l k v = Inr (Node ll k v lc lr)"
        "counted (Node ll k v lc lr)"
        "inorder (Node ll k v lc lr) = inorder (bottom_walk (bst_cmp b) k (Node Null k v 1 Null) l)"
      using Node by auto
    have "nodes (Node ll k v lc lr) = Suc (nodes l)" unfolding l(3) by simp
    then have "c + 1 = of_nat (nodes (Node ll k v lc lr) + nodes r + 1)" using Node.prems by simp
    from rotate_right_counted [OF this l(2), of x w] Node.prems
    obtain c' where "u_bst_rotate (Node (Node ll k v lc lr) x w (c + 1) r) U_BST_ROT_RIGHT
       = Inr (Node ll k v (c + 1) (Node lr x w c' r))" "counted (Node ll k v (c + 1) (Node lr x w c' r))"
      by auto
    with True l show ?thesis by simp
  next
    case False
    obtain rl rc rr where r: "u_bst_node_push_top b (True, True, True) r k v = Inr (Node rl k v rc rr)"
        "counted (Node rl k v rc rr)"
        "inorder (Node rl k v rc rr) = inorder (bottom_walk (bst_cmp b) k (Node Null k v 1 Null) r)"
      using Node by auto
    have "nodes (Node rl k v rc rr) = Suc (nodes r)" unfolding r(3) by simp
    then have "c + 1 = of_nat (nodes l + nodes (Node rl k v rc rr) + 1)" using Node.prems by simp
    from rotate_left_counted [OF this r(2), of x w] Node.prems
    obtain c' where "u_bst_rotate (Node l x w (c + 1) (Node rl k v rc rr)) U_BST_ROT_LEFT
       = Inr (Node (Node l x w c' rl) k v (c + 1) rr)" "counted (Node (Node l x w c' rl) k v (c + 1) rr)"
      by auto
    with False r show ?thesis by simp
  qed
qed

section \<open>Deletion\<close>

lemma join_ok:
  assumes "counted r" "nodes r < 2 ^ 64"
  shows "\<exists>t. u_bst_node_join_lr l r = Inr t \<and> inorder t = inorder l @ inorder r
    \<and> (r \<noteq> Null \<longrightarrow> (\<exists>k v rr. t = Node l k v (of_nat (nodes r)) rr))"
proof (cases "r = Null")
  case False
  then have "0 < nodes r" by simp
  then obtain l' k v c rr where p: "u_bst_node_promote_nth r 0 = Inr (Node l' k v c rr)"
      "counted (Node l' k v c rr)" "nodes l' = 0"
    using promote_counted [OF assms(1), of 0] assms(2) by auto
  have l': "l' = Null" using p(3) by simp
  have "inorder r = (k, v) # inorder rr" using promote_inorder [OF p(1)] l' by simp
  with p l' False show ?thesis by (simp add: u_bst_node_join_lr_def)
qed (simp add: u_bst_node_join_lr_def)

lemma dec_count_inorder [simp]: "inorder (dec_count f t) = inorder t"
  by (cases t) (simp_all add: dec_count_def)

lemma delete_inorder:
  assumes "counted t" "nodes t < 2 ^ 64"
  shows "\<exists>t'. u_bst_node_delete b t k False = Inr (t', u_bst_node_search t k (bst_cmp b) \<noteq> Null)
    \<and> (case u_bst_node_search t k (bst_cmp b) of
         Null \<Rightarrow> t' = t
       | Node l x v c r \<Rightarrow> \<exists>xs ys. inorder t = xs @ (x, v) # ys \<and> inorder t' = xs @ ys)"
  using assms
proof (induction t)
  case (Node l x v c r)
  consider "bst_cmp b k x = 0" | "0 < bst_cmp b k x" | "bst_cmp b k x < 0" by linarith
  then show ?case
  proof cases
    case 1
    have "counted r" "nodes r < 2 ^ 64" using Node.prems by auto
    then obtain t where "u_bst_node_join_lr l r = Inr t" "inorder t = inorder l @ inorder r"
      using join_ok by blast
    with 1 show ?thesis by auto
  next
    case 2
    obtain r' where r': "u_bst_node_delete b r k False = Inr (r', u_bst_node_search r k (bst_cmp b) \<noteq> Null)"
        "case u_bst_node_search r k (bst_cmp b) of Null \<Rightarrow> r' = r
         | Node l x v c rr \<Rightarrow> \<exists>xs ys. inorder r = xs @ (x, v) # ys \<and> inorder r' = xs @ ys"
      using Node by auto
    show ?thesis
    proof (cases "u_bst_node_search r k (bst_cmp b)")
      case Null
      with r' 2 show ?thesis by (simp add: dec_count_def)
    next
      case (Node nl nx nv nc nr)
      then obtain xs ys where "inorder r = xs @ (nx, nv) # ys" "inorder r' = xs @ ys"
        using r'(2) by auto
      then have "inorder l @ (x, v) # inorder r = (inorder l @ (x, v) # xs) @ (nx, nv) # ys"
        "inorder l @ (x, v) # inorder r' = (inorder l @ (x, v) # xs) @ ys" by simp_all
      then have "\<exists>as bs. inorder l @ (x, v) # inorder r = as @ (nx, nv) # bs
          \<and> inorder l @ (x, v) # inorder r' = as @ bs" by blast
      with r'(1) 2 Node show ?thesis by simp
    qed
  next
    case 3
    obtain l' where l': "u_bst_node_delete b l k False = Inr (l', u_bst_node_search l k (bst_cmp b) \<noteq> Null)"
        "case u_bst_node_search l k (bst_cmp b) of Null \<Rightarrow> l' = l
         | Node ll x v c rr \<Rightarrow> \<exists>xs ys. inorder l = xs @ (x, v) # ys \<and> inorder l' = xs @ ys"
      using Node by auto
    show ?thesis
    proof (cases "u_bst_node_search l k (bst_cmp b)")
      case Null
      with l' 3 show ?thesis by (simp add: dec_count_def)
    next
      case (Node nl nx nv nc nr)
      then obtain xs ys where "inorder l = xs @ (nx, nv) # ys" "inorder l' = xs @ ys"
        using l'(2) by auto
      then have "inorder l @ (x, v) # inorder r = xs @ (nx, nv) # (ys @ (x, v) # inorder r)"
        "inorder l' @ (x, v) # inorder r = xs @ (ys @ (x, v) # inorder r)" by simp_all
      then have "\<exists>as bs. inorder l @ (x, v) # inorder r = as @ (nx, nv) # bs
          \<and> inorder l' @ (x, v) # inorder r = as @ bs" by blast
      with l'(1) 3 Node show ?thesis by simp
    qed
  qed
qed simp

text \<open>Whether the node a search finds is a leaf; only then are the counters right after a deletion.\<close>

definition is_leaf :: "('k, 'v) u_bst_node \<Rightarrow> bool" where
  "is_leaf t = (case t of Null \<Rightarrow> False | Node l _ _ _ r \<Rightarrow> l = Null \<and> r = Null)"

lemma delete_counters:
  assumes "counted t" "nodes t < 2 ^ 64" "u_bst_node_search t k (bst_cmp b) \<noteq> Null"
    "u_bst_node_delete b t k False = Inr (t', f)"
  shows "f \<and> nodes t = Suc (nodes t')
    \<and> (counted t' \<longleftrightarrow> is_leaf (u_bst_node_search t k (bst_cmp b)))"
  using assms
proof (induction t arbitrary: t' f)
  case (Node l x v c r)
  have c: "c = of_nat (nodes l + nodes r + 1)" "counted l" "counted r" "nodes l + nodes r + 1 < 2 ^ 64"
    using Node.prems by auto
  consider "bst_cmp b k x = 0" | "0 < bst_cmp b k x" | "bst_cmp b k x < 0" by linarith
  then show ?case
  proof cases
    case 1
    have "nodes r < 2 ^ 64" using c by simp
    then obtain t where t: "u_bst_node_join_lr l r = Inr t" "inorder t = inorder l @ inorder r"
        "r \<noteq> Null \<longrightarrow> (\<exists>k v rr. t = Node l k v (of_nat (nodes r)) rr)"
      using join_ok [OF c(3)] by blast
    have t': "t' = dec_count True t" "f" using Node.prems(4) 1 t by auto
    have n: "nodes (Node l x v c r) = Suc (nodes t')" using t t' by simp
    have "counted t' \<longleftrightarrow> l = Null \<and> r = Null"
    proof (cases t)
      case Null
      then show ?thesis using t(2) t'(1) by (auto simp: dec_count_def)
    next
      case (Node tl tk tv tc tr)
      have "tc = of_nat (if r = Null then nodes l else nodes r)"
        using t Node c(2) by (cases l) (auto simp: u_bst_node_join_lr_def)
      then have t'2: "t' = Node tl tk tv (of_nat (if r = Null then nodes l else nodes r) - 1) tr"
        using Node t'(1) by (simp add: dec_count_def)
      have nt: "nodes t = nodes l + nodes r" using t(2) by simp
      have no: "of_nat (nodes l + nodes r) \<noteq> (of_nat m - 1 :: size_t)"
        if "m \<le> nodes l + nodes r" for m
      proof
        assume "of_nat (nodes l + nodes r) = (of_nat m - 1 :: size_t)"
        then have "(of_nat (nodes l + nodes r + 1) :: size_t) = of_nat m"
          by (simp add: eq_diff_eq ac_simps)
        then have "nodes l + nodes r + 1 = m" using that c(4) by (subst (asm) size_t_eq) auto
        with that show False by simp
      qed
      have le: "(if r = Null then nodes l else nodes r) \<le> nodes l + nodes r" by simp
      have "nodes tl + nodes tr + 1 = nodes l + nodes r" using nt Node by simp
      then have "\<not> counted t'"
        using no [OF le] unfolding t'2 counted.simps by metis
      moreover have "l \<noteq> Null \<or> r \<noteq> Null" using nt Node by auto
      ultimately show ?thesis by blast
    qed
    with t' n 1 show ?thesis by (simp add: is_leaf_def)
  next
    case 2
    obtain r' g where r': "u_bst_node_delete b r k False = Inr (r', g)"
        "t' = dec_count g (Node l x v c r')" "f = g"
      using Node.prems(4) 2 by (auto simp: Let_def outcome_simps)
    have ih: "g" "nodes r = Suc (nodes r')" "counted r' \<longleftrightarrow> is_leaf (u_bst_node_search r k (bst_cmp b))"
      using Node.IH(2) [OF c(3) _ _ r'(1)] Node.prems 2 by auto
    with r' c 2 show ?thesis by (auto simp: dec_count_def)
  next
    case 3
    obtain l' g where l': "u_bst_node_delete b l k False = Inr (l', g)"
        "t' = dec_count g (Node l' x v c r)" "f = g"
      using Node.prems(4) 3 by (auto simp: Let_def outcome_simps)
    have ih: "g" "nodes l = Suc (nodes l')" "counted l' \<longleftrightarrow> is_leaf (u_bst_node_search l k (bst_cmp b))"
      using Node.IH(1) [OF c(2) _ _ l'(1)] Node.prems 3 by auto
    with l' c 3 show ?thesis by (auto simp: dec_count_def)
  qed
qed simp

section \<open>Balance\<close>

fun height :: "('k, 'v) u_bst_node \<Rightarrow> nat" where
  "height Null = 0"
| "height (Node l k v c r) = Suc (max (height l) (height r))"

lemma balance_ok:
  assumes "counted t" "nodes t < 2 ^ 64"
  shows "\<exists>t'. u_bst_node_balance t = Inr t' \<and> counted t' \<and> inorder t' = inorder t
    \<and> (t \<noteq> Null \<longrightarrow> 2 ^ height t' \<le> 2 * nodes t)"
  using assms
proof (induction "nodes t" arbitrary: t rule: less_induct)
  case less
  have lc: "left_count t = of_nat (nodes t)" using less.prems by (simp add: left_count_counted)
  show ?case
  proof (cases "nodes t < 2")
    case True
    then have "(of_nat (nodes t) :: size_t) < of_nat 2" using size_t_less [of "nodes t" 2] by simp
    then have "u_bst_node_balance t = Inr t" by (subst u_bst_node_balance.simps) (simp add: lc)
    moreover have "height t = 1" if "t \<noteq> Null"
      using that True by (cases t) auto
    moreover have "nodes t = 1" if "t \<noteq> Null" using that True by (cases t) auto
    ultimately show ?thesis using less.prems by auto
  next
    case False
    define n where "n = nodes t"
    define m where "m = n div 2"
    have n: "2 \<le> n" "n < 2 ^ 64" "m < n" using False less.prems by (simp_all add: n_def m_def)
    have "unat ((of_nat n :: size_t) div 2) = m"
      using n(2) by (simp add: m_def unat_div_distrib unat_size_t)
    moreover have "of_nat (unat x) = x" for x :: size_t by simp
    ultimately have dv: "(of_nat n :: size_t) div 2 = of_nat m" by metis
    have ge: "\<not> (of_nat n :: size_t) < 2"
      using size_t_less [of n 2] n by simp
    obtain l k v c r where p: "u_bst_node_promote_nth t (of_nat m) = Inr (Node l k v c r)"
        "counted (Node l k v c r)" "nodes l = m"
      using promote_counted [OF less.prems(1), of m] less.prems n by (auto simp: n_def)
    have io: "inorder (Node l k v c r) = inorder t" using promote_inorder [OF p(1)] .
    then have "nodes l + 1 + nodes r = n" using n_def by (metis (no_types, lifting) add.assoc inorder.simps(2) length_append length_Cons plus_1_eq_Suc)
    then have nr: "nodes r = n - 1 - m" "nodes r \<le> m" using p(3) by (simp_all add: m_def)
    obtain l' where l': "u_bst_node_balance l = Inr l'" "counted l'" "inorder l' = inorder l"
        "l \<noteq> Null \<longrightarrow> 2 ^ height l' \<le> 2 * nodes l"
      using less.hyps [of l] p n by (auto simp: n_def)
    obtain r' where r': "u_bst_node_balance r = Inr r'" "counted r'" "inorder r' = inorder r"
        "r \<noteq> Null \<longrightarrow> 2 ^ height r' \<le> 2 * nodes r"
      using less.hyps [of r] p n nr by (auto simp: n_def)
    have "t \<noteq> Null" using False by auto
    then have b: "u_bst_node_balance t = Inr (Node l' k v c r')"
      by (subst u_bst_node_balance.simps) (simp add: lc n_def [symmetric] dv ge p l' r')
    have h: "2 ^ height t' \<le> n" if "t' = l' \<or> t' = r'" for t'
    proof -
      have "2 * m \<le> n" by (simp add: m_def)
      then show ?thesis
        using that l' r' p(3) nr n by (cases "t' = Null") auto
    qed
    have "2 ^ height (Node l' k v c r') \<le> 2 * n"
      using h [of l'] h [of r'] by (simp add: max_def)
    with b l' r' p io show ?thesis by (auto simp: n_def)
  qed
qed

lemma foreach_fold:
  "u_bst_node_foreach t cb s = fold (\<lambda>(k, v). cb k v) (inorder t) s"
  by (induction t arbitrary: s) simp_all

section \<open>Properties\<close>

text \<open>
  The invariant of a tree: keys in order, exact counters, usable attributes and fewer nodes than
  a \<open>size_t\<close> can count.
\<close>

definition bst_inv :: "('k, 'v) u_bst \<Rightarrow> bool" where
  "bst_inv b = (counted (root b) \<and> ordered (bst_cmp b) (inorder (root b)) \<and> attrs_ok b
     \<and> nodes (root b) < 2 ^ 63)"

lemma push_core:
  assumes "key_order (bst_cmp b)" "bst_inv b"
  shows "\<exists>t. u_bst_push (True, True, True) rnd (Some b) (Some k) v
      = Inr (rc_ok, Some (b\<lparr> root := t \<rparr>)) \<and> counted t
    \<and> inorder t = ord_insert (bst_cmp b) k v (inorder (root b))"
proof -
  have a: "attrs_ok b" "counted (root b)" "ordered (bst_cmp b) (inorder (root b))"
    using assms(2) by (simp_all add: bst_inv_def)
  let ?w = "bottom_walk (bst_cmp b) k (Node Null k v 1 Null)"
  have w: "inorder (?w t) = ord_insert (bst_cmp b) k v (inorder t)"
    if "ordered (bst_cmp b) (inorder t)" for t
    using key_order.walk_inorder [OF assms(1) that] .
  have wn: "?w t \<noteq> Null" for t by (cases t) auto
  obtain l c r where top: "u_bst_node_push_top b (True, True, True) (root b) k v = Inr (Node l k v c r)"
      "counted (Node l k v c r)" "inorder (Node l k v c r) = inorder (?w (root b))"
    using push_top_ok [OF a(1,2)] by blast
  have bot: "u_bst_node_push_bottom b (True, True, True) k v = Inr (?w (root b))"
    by (cases "root b") (simp_all add: u_bst_node_push_bottom_def node_new_ok [OF a(1)] u_bst_empty_def)
  have push: "u_bst_node_push b (True, True, True) (root b) k v = Inr (?w (root b))"
    by (rule node_push_walk [OF a(1)])
  have rand: "u_bst_node_push_rand b (True, True, True) rnd (root b) k v = Inr t \<longrightarrow>
      t = Node l k v c r \<or> t = ?w (root b)" for t
    using top push
    by (cases "root b") (auto simp: u_bst_node_push_rand_def node_new_ok [OF a(1)] outcome_simps
        split: if_splits)
  have "\<exists>t. u_bst_node_push_rand b (True, True, True) rnd (root b) k v = Inr t"
  proof (cases "root b")
    case Null then show ?thesis by (simp add: u_bst_node_push_rand_def node_new_ok [OF a(1)])
  next
    case (Node tl tk tv tc tr)
    then have "tc + 1 = of_nat (nodes (root b) + 1)" using a(2) by simp
    moreover have "(of_nat (nodes (root b) + 1) :: size_t) \<noteq> of_nat 0"
      using size_t_eq [of "nodes (root b) + 1" 0] assms(2) by (simp add: bst_inv_def)
    ultimately have "tc + 1 \<noteq> 0" by (simp add: add.commute)
    with Node top(1) show ?thesis
      by (auto simp: u_bst_node_push_rand_def node_push_walk [OF a(1)] simp del: u_bst_node_push_top.simps)
  qed
  then obtain t where t: "(if bst_randomized b then u_bst_node_push_rand b (True, True, True) rnd (root b) k v
      else if bst_push_top b then u_bst_node_push_top b (True, True, True) (root b) k v
      else u_bst_node_push_bottom b (True, True, True) k v) = Inr t"
      "t = Node l k v c r \<or> t = ?w (root b)"
    using rand top bot by (metis (no_types, lifting))
  have "t \<noteq> Null" using t(2) wn [of "root b"] by (metis u_bst_node.distinct(1))
  with t top a show ?thesis
    by (intro exI [of _ t]) (auto simp: u_bst_push_def w walk_counted)
qed

text \<open>
  C5: with any of the three insertion modes, and whatever the random numbers, and for keys that the
  comparison of the tree orders totally: when the allocations succeed and the tree has fewer than 2
  ^ 63 - 1 nodes, \<open>u_bst_push\<close> into a tree that satisfies the invariant (sorted, with
  the right counters) succeeds and keeps the invariant, and the in-order walk of the new tree is
  that of the old one with the new pair put in behind the last key that is not greater than its own.
  A key that is there already is neither refused nor overwritten: the pair is added behind it.
\<close>

theorem u_bst_push_spec:
  assumes "key_order (bst_cmp b)" "bst_inv b" "nodes (root b) + 1 < 2 ^ 63"
  shows "\<exists>t. u_bst_push (True, True, True) rnd (Some b) (Some k) v = Inr (rc_ok, Some (b\<lparr> root := t \<rparr>))
    \<and> bst_inv (b\<lparr> root := t \<rparr>)
    \<and> inorder t = ord_insert (bst_cmp b) k v (inorder (root b))"
proof -
  obtain t where t: "u_bst_push (True, True, True) rnd (Some b) (Some k) v = Inr (rc_ok, Some (b\<lparr> root := t \<rparr>))"
      "counted t" "inorder t = ord_insert (bst_cmp b) k v (inorder (root b))"
    using push_core [OF assms(1,2)] by blast
  then show ?thesis
    using key_order.ordered_insert [OF assms(1), of "inorder (root b)" k v] assms(2,3)
    by (intro exI [of _ t]) (simp add: bst_inv_def)
qed

definition empty_bst :: "bool \<Rightarrow> bool \<Rightarrow> (string, char) u_bst" where
  "empty_bst rnd on_top = the (snd (u_bst_new rnd on_top True True))"

lemma empty_bst_inv: "bst_inv (empty_bst rnd on_top)" "bst_cmp (empty_bst rnd on_top) = u_bst_keycmp"
    "root (empty_bst rnd on_top) = Null"
  by (simp_all add: empty_bst_def u_bst_new_def bst_inv_def attrs_ok_def ordered_def)

lemma u_bst_push_spec_witness:
  "\<exists>t. u_bst_push (True, True, True) 7 (Some (empty_bst True False)) (Some ''k'') None
      = Inr (rc_ok, Some (empty_bst True False\<lparr> root := t \<rparr>)) \<and> inorder t = [(''k'', None)]"
  using u_bst_push_spec [of "empty_bst True False" 7 "''k''" None] str.key_order_axioms
  by (auto simp: empty_bst_inv)

text \<open>
  \<open>u_bst_search\<close> in an ordered tree returns a node of the tree whose key compares equal, or
  \<open>NULL\<close> when the tree has no such key.
\<close>
theorem u_bst_search_spec:
  assumes "key_order (bst_cmp b)" "ordered (bst_cmp b) (inorder (root b))"
  shows "case u_bst_search (Some b) (Some k) of
      Null \<Rightarrow> \<forall>x \<in> set (inorder (root b)). bst_cmp b k (fst x) \<noteq> 0
    | Node l x v c r \<Rightarrow> bst_cmp b k x = 0 \<and> (x, v) \<in> set (inorder (root b))"
  using key_order.search_ok [OF assms] by (simp add: u_bst_search_def)

lemma u_bst_search_spec_witness:
  "u_bst_search (Some ((empty_bst False False)\<lparr> root := Node Null ''a'' None 1 Null \<rparr>)) (Some ''a'') \<noteq> Null"
proof
  assume "u_bst_search (Some ((empty_bst False False)\<lparr> root := Node Null ''a'' None 1 Null \<rparr>)) (Some ''a'') = Null"
  then show False
    using u_bst_search_spec [of "(empty_bst False False)\<lparr> root := Node Null ''a'' None 1 Null \<rparr>" "''a''"]
      str.key_order_axioms
    by (simp add: empty_bst_inv ordered_def u_bst_keycmp_def)
qed

text \<open>
  \<open>u_bst_find_nth\<close> on a tree with exact counters returns the node at position \<open>n\<close> of the
  in-order walk, and \<open>NULL\<close> behind its end.
\<close>
theorem u_bst_find_nth_spec:
  assumes "bst_inv b" "n < 2 ^ 64"
  shows "if n < nodes (root b)
    then \<exists>l k v c r. u_bst_find_nth (Some b) (of_nat n) = Node l k v c r \<and> inorder (root b) ! n = (k, v)
    else u_bst_find_nth (Some b) (of_nat n) = Null"
  using assms find_nth_counted [of "root b" n] find_nth_beyond [of "root b" n]
  by (simp add: u_bst_find_nth_def bst_inv_def)

lemma u_bst_find_nth_spec_witness:
  "u_bst_find_nth (Some (empty_bst False False)) 5 = Null"
  using u_bst_find_nth_spec [of "empty_bst False False" 5] by (simp add: empty_bst_inv)



text \<open>
  \<open>u_bst_delete\<close> on a tree with the invariant returns success exactly when the key is found,
  and then the in-order walk loses exactly the pair of the node found; but the counters of the
  result are right only when that node was a leaf.
\<close>
theorem u_bst_delete_spec:
  assumes "bst_inv b" "u_bst_node_search (root b) k (bst_cmp b) = Node l x v c r"
  shows "\<exists>t xs ys. u_bst_delete (Some b) (Some k) = Inr (rc_ok, Some (b\<lparr> root := t \<rparr>))
    \<and> inorder (root b) = xs @ (x, v) # ys \<and> inorder t = xs @ ys
    \<and> (counted t \<longleftrightarrow> l = Null \<and> r = Null)"
proof -
  have a: "counted (root b)" "nodes (root b) < 2 ^ 64" using assms(1) by (simp_all add: bst_inv_def)
  obtain t where t: "u_bst_node_delete b (root b) k False = Inr (t, True)"
      "\<exists>xs ys. inorder (root b) = xs @ (x, v) # ys \<and> inorder t = xs @ ys"
    using delete_inorder [OF a, of b k] assms(2) by auto
  have "counted t \<longleftrightarrow> l = Null \<and> r = Null"
    using delete_counters [OF a _ t(1)] assms(2) by (simp add: is_leaf_def)
  with t show ?thesis by (fastforce simp: u_bst_delete_def)
qed

lemma u_bst_delete_spec_witness:
  "\<exists>t. u_bst_delete (Some (empty_bst False False\<lparr> root := Node Null ''a'' None 2 (Node Null ''b'' None 1 Null) \<rparr>))
        (Some ''a'') = Inr (rc_ok, Some (empty_bst False False\<lparr> root := t \<rparr>)) \<and> \<not> counted t"
  using u_bst_delete_spec [of "empty_bst False False\<lparr> root := Node Null ''a'' None 2 (Node Null ''b'' None 1 Null) \<rparr>"
      "''a''"] empty_bst_inv
  by (auto simp: bst_inv_def attrs_ok_def ordered_def u_bst_keycmp_def)

text \<open>
  two deletions can lose a third key: after pushing \<open>a\<close>, \<open>d\<close>, \<open>c\<close>, \<open>b\<close> and deleting \<open>c\<close> and
  \<open>a\<close>, both with success, the key \<open>b\<close>, which was never deleted, is not in the tree.
\<close>

definition bst_push_str :: "string \<Rightarrow> (string, char) u_bst option \<Rightarrow> (string, char) u_bst option outcome" where
  "bst_push_str k h = obind (u_bst_push (True, True, True) 0 h (Some k) None) (\<lambda>(rc, h'). Inr h')"

definition bst_delete_str :: "string \<Rightarrow> (string, char) u_bst option \<Rightarrow> (string, char) u_bst option outcome" where
  "bst_delete_str k h = obind (u_bst_delete h (Some k)) (\<lambda>(rc, h'). if rc = 0 then Inr h' else Inr None)"

theorem u_bst_delete_loses_key:
  "(case obind (bst_push_str ''a'' (Some (empty_bst False False))) (\<lambda>h.
         obind (bst_push_str ''d'' h) (\<lambda>h. obind (bst_push_str ''c'' h) (\<lambda>h.
         obind (bst_push_str ''b'' h) (\<lambda>h. obind (bst_delete_str ''c'' h) (\<lambda>h.
         bst_delete_str ''a'' h))))) of
      Inr (Some b) \<Rightarrow> inorder (root b) = [(''d'', None)] \<and> u_bst_search (Some b) (Some ''b'') = Null
    | _ \<Rightarrow> False)"
  by (simp add: bst_push_str_def bst_delete_str_def empty_bst_def u_bst_new_def u_bst_push_def
      u_bst_delete_def u_bst_node_push_bottom_def u_bst_node_new_def u_bst_assign_def u_bst_empty_def
      u_bst_keycmp_def u_bst_node_join_lr_def dec_count_def u_bst_search_def Let_def)

text \<open>
  when an allocation fails in the default insertion mode, \<open>u_bst_push\<close> reports the failure and
  leaves an empty tree: the nodes that were there are no longer reachable.
\<close>
theorem u_bst_push_failure_empties:
  assumes "\<not> bst_randomized b" "\<not> bst_push_top b"
  shows "u_bst_push (False, ak, av) rnd (Some b) (Some k) v = Inr (rc_fail, Some (b\<lparr> root := Null \<rparr>))"
  using assms by (simp add: u_bst_push_def u_bst_node_push_bottom_def node_new_fail)

lemma u_bst_push_failure_empties_witness:
  "u_bst_push (False, True, True) 0
      (Some (empty_bst False False\<lparr> root := Node Null ''a'' None 1 Null \<rparr>)) (Some ''b'') None
    = Inr (rc_fail, Some (empty_bst False False))"
  using u_bst_push_failure_empties [of "empty_bst False False\<lparr> root := Node Null ''a'' None 1 Null \<rparr>"
      True True 0 "''b''" None]
  by (simp add: empty_bst_def u_bst_new_def)

end
