(* ===== verification/Hmap.thy ===== *)
theory Hmap
  imports Cstr
begin

text \<open>
  The hash map of \<open>srcs/toolbox/hmap.c\<close>, with separate chaining or linear probing, a growing
  table, and the discard policies FIFO, LRU, LFU and custom. A key is a byte string. An object is
  identified by a number, its address; the table holds the objects, the policy queue entries that
  refer to objects by their address. \<open>freed\<close> lists the objects the map has released; a queue entry
  that refers to a released object is dangling, and reading its object is \<open>Use_after_free\<close>.
\<close>

unbundle bit_operations_syntax

section \<open>Data\<close>

datatype u_hmap_ret = U_HMAP_ERR_NONE | U_HMAP_ERR_EXISTS | U_HMAP_ERR_FAIL

datatype u_hmap_type = U_HMAP_TYPE_CHAIN | U_HMAP_TYPE_LINEAR

datatype u_hmap_pcy_type =
  U_HMAP_PCY_NONE | U_HMAP_PCY_FIFO | U_HMAP_PCY_LRU | U_HMAP_PCY_LFU | U_HMAP_PCY_CUSTOM

datatype u_hmap_datatype =
  U_HMAP_OPTS_DATATYPE_POINTER | U_HMAP_OPTS_DATATYPE_STRING | U_HMAP_OPTS_DATATYPE_OPAQUE

definition U_HMAP_OPTS_OWNSDATA :: "32 word" where "U_HMAP_OPTS_OWNSDATA = 1"
definition U_HMAP_OPTS_NO_OVERWRITE :: "32 word" where "U_HMAP_OPTS_NO_OVERWRITE = 2"
definition U_HMAP_OPTS_HASH_STRONG :: "32 word" where "U_HMAP_OPTS_HASH_STRONG = 4"

lemmas hmap_flag_defs =
  U_HMAP_OPTS_OWNSDATA_def U_HMAP_OPTS_NO_OVERWRITE_def U_HMAP_OPTS_HASH_STRONG_def

datatype hash_fun = Default_hash | Custom_hash "string \<Rightarrow> size_t \<Rightarrow> size_t"

record 'v u_hmap_opts =
  o_size :: nat
  o_max :: nat
  o_type :: u_hmap_type
  o_policy :: u_hmap_pcy_type
  o_options :: "32 word"
  o_key_type :: u_hmap_datatype
  o_val_type :: u_hmap_datatype
  o_key_sz :: nat
  o_val_sz :: nat
  o_f_hash :: "hash_fun option"
  o_f_comp :: "(string \<Rightarrow> string \<Rightarrow> int) option"
  o_f_free :: bool
  o_f_key_free :: bool
  o_f_val_free :: bool
  o_f_str :: bool
  o_f_pcy_cmp :: "('v \<Rightarrow> 'v \<Rightarrow> int) option"
  o_easy :: bool
  o_val_free_set :: bool

record 'v u_hmap_o =
  oid :: nat
  okey :: string
  oval :: 'v
  opqe :: bool

text \<open>A queue entry: the address, key and value of its object, and the counter of LFU.\<close>

record 'v u_hmap_q =
  q_ho :: nat
  q_key :: string
  q_val :: 'v
  q_count :: "int option"

datatype pcy_push = Queue_push | Queue_push_count | Queue_push_cmp
datatype pcy_pop = Queue_pop_front | Queue_pop_back

record 'v u_hmap =
  h_opts :: "'v u_hmap_opts"
  h_sz :: nat
  h_size :: nat
  h_threshold :: nat
  h_px :: nat
  pcy_push :: "pcy_push option"
  pcy_pop :: "pcy_pop option"
  pcy_op_put :: bool
  pcy_op_get :: bool
  h_queue :: "'v u_hmap_q list"
  h_table :: "'v u_hmap_o list list"
  h_freed :: "nat list"

section \<open>Hashing and options\<close>

fun f_hash_loop :: "size_t \<Rightarrow> string \<Rightarrow> size_t" where
  "f_hash_loop h [] = h"
| "f_hash_loop h (c # cs) =
     (let h1 = h + of_nat (of_char c);
          h2 = h1 + push_bit 10 h1;
          h3 = h2 XOR drop_bit 6 h2
      in f_hash_loop h3 cs)"

definition f_hash :: "string \<Rightarrow> size_t \<Rightarrow> size_t" where
  "f_hash key n =
     (let h = f_hash_loop 0 key;
          h1 = h + push_bit 3 h;
          h2 = h1 XOR drop_bit 11 h1
      in (h2 + push_bit 15 h2) mod n)"

definition f_comp :: "string \<Rightarrow> string \<Rightarrow> int" where
  "f_comp k1 k2 = strcmp k1 k2"

text \<open>The slot of a key: the hash of a custom function that is not strong is hashed again.\<close>

definition hash_slot :: "'v u_hmap_opts \<Rightarrow> string \<Rightarrow> nat \<Rightarrow> nat outcome" where
  "hash_slot op k n =
     (case o_f_hash op of
        None \<Rightarrow> Inl Null_deref
      | Some Default_hash \<Rightarrow> Inr (unat (f_hash k (of_nat n)))
      | Some (Custom_hash f) \<Rightarrow>
          let h = f k (of_nat n) in
          if o_options op AND U_HMAP_OPTS_HASH_STRONG = 0
          then Inr (unat (f_hash (decimal (unat h mod 2 ^ 32)) (of_nat n)))
          else Inr (unat h))"

definition u_hmap_opts_init :: "'v u_hmap_opts \<Rightarrow> 'v u_hmap_opts" where
  "u_hmap_opts_init op = op\<lparr>
     o_size := 512, o_type := U_HMAP_TYPE_CHAIN, o_max := 512, o_policy := U_HMAP_PCY_NONE,
     o_options := U_HMAP_OPTS_NO_OVERWRITE OR U_HMAP_OPTS_OWNSDATA,
     o_f_hash := Some Default_hash, o_f_comp := Some f_comp, o_f_free := False,
     o_key_type := U_HMAP_OPTS_DATATYPE_STRING, o_val_type := U_HMAP_OPTS_DATATYPE_POINTER,
     o_f_key_free := False, o_f_val_free := False, o_val_free_set := False, o_f_str := False,
     o_key_sz := 8, o_val_sz := 8, o_easy := False \<rparr>"

text \<open>Zeroed options, as \<open>u_zalloc\<close> makes them, initialised.\<close>

definition zero_opts :: "'v u_hmap_opts" where
  "zero_opts = \<lparr> o_size = 0, o_max = 0, o_type = U_HMAP_TYPE_CHAIN, o_policy = U_HMAP_PCY_NONE,
     o_options = 0, o_key_type = U_HMAP_OPTS_DATATYPE_POINTER,
     o_val_type = U_HMAP_OPTS_DATATYPE_POINTER, o_key_sz = 0, o_val_sz = 0, o_f_hash = None,
     o_f_comp = None, o_f_free = False, o_f_key_free = False, o_f_val_free = False,
     o_f_str = False, o_f_pcy_cmp = None, o_easy = False, o_val_free_set = False \<rparr>"

definition u_hmap_opts_new :: "bool \<Rightarrow> u_hmap_ret \<times> 'v u_hmap_opts option" where
  "u_hmap_opts_new alloc =
     (if \<not> alloc then (U_HMAP_ERR_FAIL, None)
      else (U_HMAP_ERR_NONE, Some (u_hmap_opts_init zero_opts)))"

definition opts_check :: "'v u_hmap_opts \<Rightarrow> u_hmap_ret" where
  "opts_check op =
     (if o_size op = 0 then U_HMAP_ERR_FAIL
      else if o_max op = 0 then U_HMAP_ERR_FAIL
      else if o_f_hash op = None then U_HMAP_ERR_FAIL
      else if o_f_comp op = None then U_HMAP_ERR_FAIL
      else if o_easy op \<and> o_val_type op = U_HMAP_OPTS_DATATYPE_POINTER \<and> \<not> o_val_free_set op
        then U_HMAP_ERR_FAIL
      else if o_policy op = U_HMAP_PCY_CUSTOM \<and> o_f_pcy_cmp op = None then U_HMAP_ERR_FAIL
      else U_HMAP_ERR_NONE)"

definition pcy_setup :: "'v u_hmap \<Rightarrow> 'v u_hmap" where
  "pcy_setup h =
     (case o_policy (h_opts h) of
        U_HMAP_PCY_NONE \<Rightarrow>
          h\<lparr> pcy_push := None, pcy_pop := None, pcy_op_put := False, pcy_op_get := False \<rparr>
      | U_HMAP_PCY_FIFO \<Rightarrow>
          h\<lparr> pcy_push := Some Queue_push, pcy_pop := Some Queue_pop_back,
             pcy_op_put := True, pcy_op_get := False \<rparr>
      | U_HMAP_PCY_LRU \<Rightarrow>
          h\<lparr> pcy_push := Some Queue_push, pcy_pop := Some Queue_pop_back,
             pcy_op_put := True, pcy_op_get := True \<rparr>
      | U_HMAP_PCY_LFU \<Rightarrow>
          h\<lparr> pcy_push := Some Queue_push_count, pcy_pop := Some Queue_pop_front,
             pcy_op_put := True, pcy_op_get := True \<rparr>
      | U_HMAP_PCY_CUSTOM \<Rightarrow>
          h\<lparr> pcy_push := Some Queue_push_cmp, pcy_pop := Some Queue_pop_back,
             pcy_op_put := True, pcy_op_get := False \<rparr>)"

definition primes :: "nat list" where
  "primes =
     [13, 19, 29, 41, 59, 79, 107, 149, 197, 263, 347, 457, 599, 787, 1031,
      1361, 1777, 2333, 3037, 3967, 5167, 6719, 8737, 11369, 14783, 19219,
      24989, 32491, 42257, 54941, 71429, 92861, 120721, 156941, 204047,
      265271, 344857, 448321, 582821, 757693, 985003, 1280519, 1664681,
      2164111, 2813353, 3657361, 4754591, 6180989, 8035301, 10445899,
      13579681, 17653589, 22949669, 29834603, 38784989, 50420551, 65546729,
      85210757, 110774011, 144006217, 187208107, 243370577, 316381771,
      411296309, 534685237, 695090819, 903618083, 1174703521, 1527114613,
      1837299131, 2147483647]"

fun prime_from :: "nat \<Rightarrow> nat \<Rightarrow> nat list \<Rightarrow> (nat \<times> nat) option" where
  "prime_from sz i [] = None"
| "prime_from sz i (p # ps) = (if p \<ge> sz then Some (p, i) else prime_from sz (Suc i) ps)"

text \<open>The prime and its index, or \<open>None\<close> on failure; the search starts at index \<open>idx\<close>.\<close>

definition next_prime :: "nat \<Rightarrow> nat \<Rightarrow> (nat \<times> nat) option" where
  "next_prime sz idx = (if sz = 0 then None else prime_from sz idx (drop idx primes))"

text \<open>
  The table has \<open>size\<close> empty chains and the threshold is three quarters of \<open>size\<close>. The three flags
  are the allocations of the map, of its options and of the table.
\<close>

definition u_hmap_new ::
  "'v u_hmap_opts option \<Rightarrow> bool \<Rightarrow> bool \<Rightarrow> bool \<Rightarrow> u_hmap_ret \<times> 'v u_hmap option" where
  "u_hmap_new op al_map al_opts al_table =
     (if \<not> al_map then (U_HMAP_ERR_FAIL, None)
      else
        (case u_hmap_opts_new al_opts of
           (U_HMAP_ERR_NONE, Some dfl) \<Rightarrow>
             (let o1 = (case op of None \<Rightarrow> dfl | Some x \<Rightarrow> x);
                  o2 = (if \<not> o_f_str o1 \<and> (o_key_type o1 = U_HMAP_OPTS_DATATYPE_STRING
                              \<or> o_val_type o1 = U_HMAP_OPTS_DATATYPE_STRING)
                        then o1\<lparr> o_f_str := True \<rparr> else o1)
              in if opts_check o2 \<noteq> U_HMAP_ERR_NONE then (U_HMAP_ERR_FAIL, None)
                 else
                   (case next_prime (o_size o2) 0 of
                      None \<Rightarrow> (U_HMAP_ERR_FAIL, None)
                    | Some (p, i) \<Rightarrow>
                        if \<not> al_table then (U_HMAP_ERR_FAIL, None)
                        else (U_HMAP_ERR_NONE, Some (pcy_setup
                          \<lparr> h_opts = o2, h_sz = 0, h_size = p, h_threshold = 3 * p div 4,
                            h_px = i, pcy_push = None, pcy_pop = None, pcy_op_put = False,
                            pcy_op_get = False, h_queue = [], h_table = replicate p [],
                            h_freed = [] \<rparr>))))
         | _ \<Rightarrow> (U_HMAP_ERR_FAIL, None)))"

definition u_hmap_easy_new ::
  "'v u_hmap_opts option \<Rightarrow> bool \<Rightarrow> bool \<Rightarrow> bool \<Rightarrow> u_hmap_ret \<times> 'v u_hmap option" where
  "u_hmap_easy_new op al_map al_opts al_table =
     (case op of None \<Rightarrow> (U_HMAP_ERR_FAIL, None)
      | Some x \<Rightarrow>
        (case u_hmap_new (Some (x\<lparr> o_easy := True \<rparr>)) al_map al_opts al_table of
           (rc, h) \<Rightarrow> if rc = U_HMAP_ERR_NONE then (U_HMAP_ERR_NONE, h) else (U_HMAP_ERR_FAIL, h)))"

section \<open>The table\<close>

definition owns :: "'v u_hmap \<Rightarrow> bool" where
  "owns h = (o_options (h_opts h) AND U_HMAP_OPTS_OWNSDATA \<noteq> 0)"

definition live :: "'v u_hmap \<Rightarrow> nat \<Rightarrow> bool" where
  "live h i = (\<exists>b \<in> set (h_table h). \<exists>o' \<in> set b. oid o' = i)"

definition map_table ::
  "('v u_hmap_o list \<Rightarrow> 'v u_hmap_o list) \<Rightarrow> 'v u_hmap \<Rightarrow> 'v u_hmap" where
  "map_table f h = h\<lparr> h_table := map f (h_table h) \<rparr>"

text \<open>\<open>LIST_REMOVE\<close> of an object, its replacement by another, and the mark of its queue entry.\<close>

definition table_remove :: "nat \<Rightarrow> 'v u_hmap \<Rightarrow> 'v u_hmap" where
  "table_remove i = map_table (filter (\<lambda>x. oid x \<noteq> i))"

definition table_replace :: "nat \<Rightarrow> 'v u_hmap_o \<Rightarrow> 'v u_hmap \<Rightarrow> 'v u_hmap" where
  "table_replace i obj = map_table (map (\<lambda>x. if oid x = i then obj else x))"

definition o_free :: "nat \<Rightarrow> 'v u_hmap \<Rightarrow> 'v u_hmap" where
  "o_free i h = h\<lparr> h_freed := i # h_freed h \<rparr>"

definition call_comp :: "'v u_hmap \<Rightarrow> string \<Rightarrow> string \<Rightarrow> int" where
  "call_comp h = (case o_f_comp (h_opts h) of None \<Rightarrow> (\<lambda>_ _. - 1) | Some f \<Rightarrow> f)"

text \<open>The walk along a chain, which is kept in the order of the keys.\<close>

fun chain_get ::
  "(string \<Rightarrow> string \<Rightarrow> int) \<Rightarrow> string \<Rightarrow> 'v u_hmap_o list \<Rightarrow> 'v u_hmap_o option" where
  "chain_get cmp k [] = None"
| "chain_get cmp k (x # xs) =
     (if cmp k (okey x) = 0 then Some x
      else if cmp k (okey x) < 0 then None
      else chain_get cmp k xs)"

datatype 'v chain_res = Placed "'v u_hmap_o list" | Found "'v u_hmap_o"

fun chain_put ::
  "(string \<Rightarrow> string \<Rightarrow> int) \<Rightarrow> 'v u_hmap_o \<Rightarrow> 'v u_hmap_o list \<Rightarrow> 'v chain_res" where
  "chain_put cmp obj [] = Placed [obj]"
| "chain_put cmp obj (x # xs) =
     (let c = cmp (okey obj) (okey x) in
      if c = 0 then Found x
      else if c < 0 then Placed (obj # x # xs)
      else if xs = [] then Placed [x, obj]
      else (case chain_put cmp obj xs of Placed l \<Rightarrow> Placed (x # l) | Found y \<Rightarrow> Found y))"

text \<open>
  The probes from a slot to the one before it, which is not probed: \<open>n\<close> is the number of probes
  left. Only the first node of a slot is used.
\<close>

fun linear_get ::
  "(string \<Rightarrow> string \<Rightarrow> int) \<Rightarrow> string \<Rightarrow> 'v u_hmap_o list list \<Rightarrow> nat \<Rightarrow> nat
   \<Rightarrow> 'v u_hmap_o option outcome" where
  "linear_get cmp k t 0 i = Inr None"
| "linear_get cmp k t (Suc n) i =
     (if i \<ge> length t then Inl Out_of_bounds
      else (case t ! i of
          [] \<Rightarrow> linear_get cmp k t n ((i + 1) mod length t)
        | x # _ \<Rightarrow> if cmp k (okey x) = 0 then Inr (Some x)
                   else linear_get cmp k t n ((i + 1) mod length t)))"

datatype 'v linear_res = Slot nat | Taken "'v u_hmap_o" | Full

fun linear_put ::
  "(string \<Rightarrow> string \<Rightarrow> int) \<Rightarrow> string \<Rightarrow> 'v u_hmap_o list list \<Rightarrow> nat \<Rightarrow> nat
   \<Rightarrow> 'v linear_res outcome" where
  "linear_put cmp k t 0 i = Inr Full"
| "linear_put cmp k t (Suc n) i =
     (if i \<ge> length t then Inl Out_of_bounds
      else (case t ! i of
          [] \<Rightarrow> Inr (Slot i)
        | x # _ \<Rightarrow> if cmp (okey x) k = 0 then Inr (Taken x)
                   else linear_put cmp k t n ((i + 1) mod length t)))"

definition hmap_lookup :: "'v u_hmap \<Rightarrow> string \<Rightarrow> 'v u_hmap_o option outcome" where
  "hmap_lookup h k =
     obind (hash_slot (h_opts h) k (h_size h)) (\<lambda>s.
       case o_type (h_opts h) of
         U_HMAP_TYPE_CHAIN \<Rightarrow>
           if s < length (h_table h) then Inr (chain_get (call_comp h) k (h_table h ! s))
           else Inl Out_of_bounds
       | U_HMAP_TYPE_LINEAR \<Rightarrow> linear_get (call_comp h) k (h_table h) (h_size h - 1) s)"

section \<open>Deletion\<close>

text \<open>The result is the return code, the object given back through \<open>obj\<close> and the map.\<close>

definition u_hmap_del ::
  "'v u_hmap option \<Rightarrow> string option \<Rightarrow> (u_hmap_ret \<times> 'v u_hmap_o option \<times> 'v u_hmap option) outcome" where
  "u_hmap_del hm key =
     (case (hm, key) of
        (Some h, Some k) \<Rightarrow>
          obind (hmap_lookup h k) (\<lambda>r.
            case r of
              None \<Rightarrow> Inr (U_HMAP_ERR_FAIL, None, hm)
            | Some x \<Rightarrow>
                (let h1 = table_remove (oid x) h;
                     h2 = (if owns h then o_free (oid x) h1 else h1);
                     ret = (if owns h then None else Some x)
                 in Inr (U_HMAP_ERR_NONE, ret, Some (h2\<lparr> h_sz := size_sub (h_sz h2) 1 \<rparr>))))
      | _ \<Rightarrow> Inr (U_HMAP_ERR_FAIL, None, hm))"

section \<open>The policy queue\<close>

text \<open>The outcomes of the allocations of a queue entry and of its counter.\<close>

type_synonym qalloc = "bool \<times> bool"

definition q_entry :: "'v u_hmap_o \<Rightarrow> 'v u_hmap_q" where
  "q_entry x = \<lparr> q_ho = oid x, q_key = okey x, q_val = oval x, q_count = None \<rparr>"

definition has_entry :: "'v u_hmap \<Rightarrow> nat \<Rightarrow> bool" where
  "has_entry h i = (\<exists>e \<in> set (h_queue h). q_ho e = i)"

definition queue_remove :: "nat \<Rightarrow> 'v u_hmap_q list \<Rightarrow> 'v u_hmap_q list" where
  "queue_remove i = filter (\<lambda>e. q_ho e \<noteq> i)"

text \<open>
  The push operations return whether they succeeded, the object with its mark and the map.
\<close>

definition queue_push ::
  "qalloc \<Rightarrow> 'v u_hmap \<Rightarrow> 'v u_hmap_o \<Rightarrow> (bool \<times> 'v u_hmap_o \<times> 'v u_hmap) outcome" where
  "queue_push al h x =
     (if \<not> opqe x then
        (if \<not> fst al then Inr (False, x, h)
         else Inr (True, x\<lparr> opqe := True \<rparr>, h\<lparr> h_queue := q_entry x # h_queue h \<rparr>))
      else
        (case find (\<lambda>e. q_ho e = oid x) (h_queue h) of
           None \<Rightarrow> Inl Use_after_free
         | Some e \<Rightarrow> Inr (True, x, h\<lparr> h_queue := e # queue_remove (oid x) (h_queue h) \<rparr>)))"

text \<open>The position behind the entries whose counter is not greater.\<close>

fun count_insert :: "'v u_hmap_q \<Rightarrow> int \<Rightarrow> 'v u_hmap_q list \<Rightarrow> 'v u_hmap_q list outcome" where
  "count_insert e c [] = Inr [e]"
| "count_insert e c (f # fs) =
     (case q_count f of
        None \<Rightarrow> Inl Null_deref
      | Some d \<Rightarrow> if c \<ge> d then obind (count_insert e c fs) (\<lambda>l. Inr (f # l)) else Inr (e # f # fs))"

definition queue_push_count ::
  "qalloc \<Rightarrow> 'v u_hmap \<Rightarrow> 'v u_hmap_o \<Rightarrow> (bool \<times> 'v u_hmap_o \<times> 'v u_hmap) outcome" where
  "queue_push_count al h x =
     (if \<not> opqe x then
        (if \<not> fst al then Inr (False, x, h)
         else if \<not> snd al then Inr (False, x, h\<lparr> h_queue := q_entry x # h_queue h \<rparr>)
         else Inr (True, x\<lparr> opqe := True \<rparr>,
                   h\<lparr> h_queue := (q_entry x)\<lparr> q_count := Some 0 \<rparr> # h_queue h \<rparr>))
      else
        (case dropWhile (\<lambda>e. q_ho e \<noteq> oid x) (h_queue h) of
           [] \<Rightarrow> Inl Use_after_free
         | e # post \<Rightarrow>
             (case q_count e of
                None \<Rightarrow> Inl Null_deref
              | Some c \<Rightarrow>
                  obind (count_insert (e\<lparr> q_count := Some (c + 1) \<rparr>) (c + 1) post) (\<lambda>l.
                    Inr (True, x, h\<lparr> h_queue := takeWhile (\<lambda>e. q_ho e \<noteq> oid x) (h_queue h) @ l \<rparr>)))))"

fun cmp_insert ::
  "('v \<Rightarrow> 'v \<Rightarrow> int) \<Rightarrow> (nat \<Rightarrow> bool) \<Rightarrow> 'v u_hmap_q \<Rightarrow> 'v u_hmap_q list \<Rightarrow> 'v u_hmap_q list outcome" where
  "cmp_insert f dead e [] = Inr [e]"
| "cmp_insert f dead e (g # gs) =
     (if dead (q_ho g) then Inl Use_after_free
      else if f (q_val e) (q_val g) \<ge> 0 then Inr (e # g # gs)
      else obind (cmp_insert f dead e gs) (\<lambda>l. Inr (g # l)))"

definition queue_push_cmp ::
  "qalloc \<Rightarrow> 'v u_hmap \<Rightarrow> 'v u_hmap_o \<Rightarrow> (bool \<times> 'v u_hmap_o \<times> 'v u_hmap) outcome" where
  "queue_push_cmp al h x =
     (if opqe x then Inr (False, x, h)
      else if \<not> fst al then Inr (False, x, h)
      else
        (case o_f_pcy_cmp (h_opts h) of
           None \<Rightarrow> if h_queue h = [] then Inr (True, x\<lparr> opqe := True \<rparr>, h\<lparr> h_queue := [q_entry x] \<rparr>)
                   else Inl Null_deref
         | Some f \<Rightarrow>
             obind (cmp_insert f (\<lambda>i. owns h \<and> i \<in> set (h_freed h)) (q_entry x) (h_queue h)) (\<lambda>l.
               Inr (True, x\<lparr> opqe := True \<rparr>, h\<lparr> h_queue := l \<rparr>))))"

definition call_push ::
  "qalloc \<Rightarrow> 'v u_hmap \<Rightarrow> 'v u_hmap_o \<Rightarrow> (bool \<times> 'v u_hmap_o \<times> 'v u_hmap) outcome" where
  "call_push al h x =
     (case pcy_push h of
        None \<Rightarrow> Inl Null_deref
      | Some Queue_push \<Rightarrow> queue_push al h x
      | Some Queue_push_count \<Rightarrow> queue_push_count al h x
      | Some Queue_push_cmp \<Rightarrow> queue_push_cmp al h x)"

text \<open>
  The pop operations delete the object of the first or last entry from the table and then the
  entry. Reading the key of an object that was released is a use after free.
\<close>

definition pop_entry ::
  "'v u_hmap \<Rightarrow> 'v u_hmap_q \<Rightarrow> 'v u_hmap_q list \<Rightarrow> (bool \<times> 'v u_hmap_o option \<times> 'v u_hmap) outcome" where
  "pop_entry h e rest =
     (if owns h \<and> q_ho e \<in> set (h_freed h) then Inl Use_after_free
      else
        obind (u_hmap_del (Some h) (Some (q_key e))) (\<lambda>(rc, old, h').
          case h' of None \<Rightarrow> Inl Null_deref
          | Some h1 \<Rightarrow> if rc \<noteq> U_HMAP_ERR_NONE then Inr (False, old, h1)
                       else Inr (True, old, h1\<lparr> h_queue := rest \<rparr>)))"

definition queue_pop_front ::
  "'v u_hmap \<Rightarrow> (bool \<times> 'v u_hmap_o option \<times> 'v u_hmap) outcome" where
  "queue_pop_front h =
     (case h_queue h of [] \<Rightarrow> Inr (False, None, h) | e # es \<Rightarrow> pop_entry h e es)"

definition queue_pop_back ::
  "'v u_hmap \<Rightarrow> (bool \<times> 'v u_hmap_o option \<times> 'v u_hmap) outcome" where
  "queue_pop_back h =
     (if h_queue h = [] then Inr (False, None, h)
      else pop_entry h (last (h_queue h)) (butlast (h_queue h)))"

definition call_pop ::
  "'v u_hmap \<Rightarrow> (bool \<times> 'v u_hmap_o option \<times> 'v u_hmap) outcome" where
  "call_pop h =
     (case pcy_pop h of
        None \<Rightarrow> Inl Null_deref
      | Some Queue_pop_front \<Rightarrow> queue_pop_front h
      | Some Queue_pop_back \<Rightarrow> queue_pop_back h)"

text \<open>The removal of the entry of an object; without an entry \<open>NULL\<close> is dereferenced.\<close>

definition queue_del :: "'v u_hmap \<Rightarrow> 'v u_hmap_o \<Rightarrow> 'v u_hmap outcome" where
  "queue_del h x =
     (if \<not> opqe x then Inl Null_deref
      else if \<not> has_entry h (oid x) then Inl Use_after_free
      else Inr (h\<lparr> h_queue := queue_remove (oid x) (h_queue h) \<rparr>))"

section \<open>Insertion\<close>

text \<open>
  The result of an insertion: the return code, the object stored through \<open>old\<close> and the map.
\<close>

type_synonym 'v put_result = "u_hmap_ret \<times> 'v u_hmap_o option \<times> 'v u_hmap"

definition overwrite ::
  "qalloc \<Rightarrow> 'v u_hmap \<Rightarrow> 'v u_hmap_o \<Rightarrow> 'v u_hmap_o \<Rightarrow> 'v put_result outcome" where
  "overwrite al h x obj =
     (if o_options (h_opts h) AND U_HMAP_OPTS_NO_OVERWRITE = 0 then
        obind
          (if pcy_op_put h then obind (queue_del h x) (\<lambda>h1. call_push al h1 obj)
           else Inr (True, obj, h))
          (\<lambda>(ok, obj', h1).
            if \<not> ok then Inr (U_HMAP_ERR_FAIL, None, h1)
            else (let h2 = table_replace (oid x) obj' h1 in
                  if owns h then Inr (U_HMAP_ERR_NONE, None, o_free (oid x) h2)
                  else Inr (U_HMAP_ERR_NONE, Some x, h2)))
      else if owns h then Inr (U_HMAP_ERR_EXISTS, None, o_free (oid obj) h)
      else Inr (U_HMAP_ERR_EXISTS, Some x, h))"

text \<open>What follows a new object in the table: the discard policy and the counter.\<close>

definition put_end :: "qalloc \<Rightarrow> 'v u_hmap \<Rightarrow> 'v u_hmap_o \<Rightarrow> 'v put_result outcome" where
  "put_end al h obj =
     obind
       (if h_sz h \<ge> o_max (h_opts h) \<and> o_policy (h_opts h) \<noteq> U_HMAP_PCY_NONE then call_pop h
        else Inr (True, None, h))
       (\<lambda>(ok, old, h1).
         if \<not> ok then Inr (U_HMAP_ERR_FAIL, old, h1)
         else
           obind (if pcy_op_put h1 then call_push al h1 obj else Inr (True, obj, h1))
             (\<lambda>(ok2, obj', h2).
               let h3 = table_replace (oid obj) obj' h2 in
               if \<not> ok2 then Inr (U_HMAP_ERR_FAIL, old, h3)
               else Inr (U_HMAP_ERR_NONE, old, h3\<lparr> h_sz := h_sz h3 + 1 \<rparr>)))"

definition put_slot :: "qalloc \<Rightarrow> 'v u_hmap \<Rightarrow> 'v u_hmap_o \<Rightarrow> 'v put_result outcome" where
  "put_slot al h obj =
     obind (hash_slot (h_opts h) (okey obj) (h_size h)) (\<lambda>s.
       case o_type (h_opts h) of
         U_HMAP_TYPE_CHAIN \<Rightarrow>
           if s \<ge> length (h_table h) then Inl Out_of_bounds
           else (case chain_put (call_comp h) obj (h_table h ! s) of
                   Placed l \<Rightarrow> put_end al (h\<lparr> h_table := (h_table h)[s := l] \<rparr>) obj
                 | Found x \<Rightarrow> overwrite al h x obj)
       | U_HMAP_TYPE_LINEAR \<Rightarrow>
           obind (linear_put (call_comp h) (okey obj) (h_table h) (h_size h - 1) s) (\<lambda>r.
             case r of
               Slot i \<Rightarrow> put_end al (h\<lparr> h_table := (h_table h)[i := [obj]] \<rparr>) obj
             | Taken x \<Rightarrow> overwrite al h x obj
             | Full \<Rightarrow> Inr (U_HMAP_ERR_FAIL, None, h)))"

text \<open>
  The move of all objects of a table: \<open>put\<close> is the insertion. The result holds what is left of the
  old table; the object whose insertion fails is in neither map.
\<close>

fun copy_chain ::
  "('v u_hmap \<Rightarrow> 'v u_hmap_o \<Rightarrow> 'v put_result outcome) \<Rightarrow> 'v u_hmap \<Rightarrow> 'v u_hmap_o list
   \<Rightarrow> (bool \<times> 'v u_hmap \<times> 'v u_hmap_o list) outcome" where
  "copy_chain put to [] = Inr (True, to, [])"
| "copy_chain put to (x # xs) =
     obind (put to x) (\<lambda>(rc, old, to').
       if rc \<noteq> U_HMAP_ERR_NONE then Inr (False, to', xs) else copy_chain put to' xs)"

fun copy_table ::
  "('v u_hmap \<Rightarrow> 'v u_hmap_o \<Rightarrow> 'v put_result outcome) \<Rightarrow> 'v u_hmap \<Rightarrow> 'v u_hmap_o list list
   \<Rightarrow> (bool \<times> 'v u_hmap \<times> 'v u_hmap_o list list) outcome" where
  "copy_table put to [] = Inr (True, to, [])"
| "copy_table put to (b # bs) =
     obind (copy_chain put to b) (\<lambda>(ok, to', rest).
       if \<not> ok then Inr (False, to', rest # bs)
       else obind (copy_table put to' bs) (\<lambda>(ok', to'', bs'). Inr (ok', to'', [] # bs')))"

definition u_hmap_copy ::
  "('v u_hmap \<Rightarrow> 'v u_hmap_o \<Rightarrow> 'v put_result outcome) \<Rightarrow> 'v u_hmap option \<Rightarrow> 'v u_hmap option
   \<Rightarrow> (u_hmap_ret \<times> 'v u_hmap option \<times> 'v u_hmap option) outcome" where
  "u_hmap_copy put to from =
     (case (to, from) of
        (Some t, Some f) \<Rightarrow>
          obind (copy_table put t (h_table f)) (\<lambda>(ok, t', tab).
            Inr (if ok then U_HMAP_ERR_NONE else U_HMAP_ERR_FAIL, Some t', Some (f\<lparr> h_table := tab \<rparr>)))
      | _ \<Rightarrow> Inr (U_HMAP_ERR_FAIL, to, from))"

text \<open>
  The growth of the table: a new map with the options of the old one and the next prime from three
  times its size on; the old options lose all their flags, and the objects move. The flags are the
  allocations of the options, of the map, of its options and of its table.
\<close>

type_synonym ralloc = "bool \<times> bool \<times> bool \<times> bool"

definition hmap_resize ::
  "('v u_hmap \<Rightarrow> 'v u_hmap_o \<Rightarrow> 'v put_result outcome) \<Rightarrow> ralloc \<Rightarrow> 'v u_hmap
   \<Rightarrow> (bool \<times> 'v u_hmap) outcome" where
  "hmap_resize put ra h =
     (case ra of (a_newopts, a_map, a_opts, a_table) \<Rightarrow>
      if o_policy (h_opts h) \<noteq> U_HMAP_PCY_NONE then Inr (True, h)
      else if \<not> a_newopts then Inr (False, h)
      else
        (case next_prime (3 * o_size (h_opts h)) (h_px h) of
           None \<Rightarrow> Inr (False, h)
         | Some (p, i) \<Rightarrow>
             (let h1 = h\<lparr> h_px := i \<rparr> in
              case u_hmap_new (Some ((h_opts h)\<lparr> o_size := p \<rparr>)) a_map a_opts a_table of
                (U_HMAP_ERR_NONE, Some nm) \<Rightarrow>
                  (let h2 = h1\<lparr> h_opts := (h_opts h)\<lparr> o_options := 0 \<rparr> \<rparr> in
                   obind (u_hmap_copy put (Some nm) (Some h2)) (\<lambda>(rc, t, f).
                     case (t, f) of
                       (Some nm', Some h3) \<Rightarrow>
                         if rc \<noteq> U_HMAP_ERR_NONE then Inr (False, h3)
                         else Inr (True, nm'\<lparr> h_freed := h_freed nm' @ h_freed h \<rparr>)
                     | _ \<Rightarrow> Inl Null_deref))
              | _ \<Rightarrow> Inr (False, h1))))"

text \<open>
  The insertion; \<open>n\<close> bounds the nesting of growths, as a growth inserts into a new map, which in
  the source could grow again. One level is enough for the maps of this library.
\<close>

fun u_hmap_put ::
  "nat \<Rightarrow> qalloc \<Rightarrow> ralloc \<Rightarrow> 'v u_hmap \<Rightarrow> 'v u_hmap_o \<Rightarrow> 'v put_result outcome" where
  "u_hmap_put n al ra h obj =
     (if h_sz h \<ge> h_threshold h \<and> o_policy (h_opts h) = U_HMAP_PCY_NONE then
        (case n of
           0 \<Rightarrow> Inl Out_of_fuel
         | Suc m \<Rightarrow>
             obind (hmap_resize (u_hmap_put m al ra) ra h) (\<lambda>(ok, h1).
               if \<not> ok then Inr (U_HMAP_ERR_FAIL, None, h1) else put_slot al h1 obj))
      else put_slot al h obj)"

declare u_hmap_put.simps [simp del]

section \<open>Access\<close>

definition u_hmap_get ::
  "qalloc \<Rightarrow> 'v u_hmap option \<Rightarrow> string option
   \<Rightarrow> (u_hmap_ret \<times> 'v u_hmap_o option \<times> 'v u_hmap option) outcome" where
  "u_hmap_get al hm key =
     (case (hm, key) of
        (Some h, Some k) \<Rightarrow>
          obind (hmap_lookup h k) (\<lambda>r.
            case r of
              None \<Rightarrow> Inr (U_HMAP_ERR_FAIL, None, hm)
            | Some x \<Rightarrow>
                if pcy_op_get h then
                  obind (call_push al h x) (\<lambda>(ok, x', h1).
                    let h2 = table_replace (oid x) x' h1 in
                    if \<not> ok then Inr (U_HMAP_ERR_FAIL, Some x', Some h2)
                    else Inr (U_HMAP_ERR_NONE, Some x', Some h2))
                else Inr (U_HMAP_ERR_NONE, Some x, hm))
      | _ \<Rightarrow> Inr (U_HMAP_ERR_FAIL, None, hm))"

definition u_hmap_count :: "'v u_hmap option \<Rightarrow> int" where
  "u_hmap_count hm = (case hm of None \<Rightarrow> - 1 | Some h \<Rightarrow> int (h_sz h))"

text \<open>The release of all objects and of the queue; the counter stays as it is.\<close>

definition u_hmap_clear :: "'v u_hmap option \<Rightarrow> 'v u_hmap option" where
  "u_hmap_clear hm =
     (case hm of None \<Rightarrow> None
      | Some h \<Rightarrow>
        Some (h\<lparr> h_table := map (\<lambda>_. []) (h_table h), h_queue := [],
                 h_freed := (if owns h then map oid (concat (h_table h)) else []) @ h_freed h \<rparr>))"

definition u_hmap_easy_clear :: "'v u_hmap option \<Rightarrow> 'v u_hmap option" where
  "u_hmap_easy_clear hm = (if hm = None then None else u_hmap_clear hm)"

definition u_hmap_free :: "'v u_hmap option \<Rightarrow> nat list" where
  "u_hmap_free hm = (case u_hmap_clear hm of None \<Rightarrow> [] | Some h \<Rightarrow> h_freed h)"

text \<open>The walk over all values; it stops when the function returns a non-zero value.\<close>

fun foreach_objs ::
  "('s \<Rightarrow> 'v u_hmap_o \<Rightarrow> int \<times> 's) \<Rightarrow> 's \<Rightarrow> 'v u_hmap_o list \<Rightarrow> u_hmap_ret \<times> 's" where
  "foreach_objs f s [] = (U_HMAP_ERR_NONE, s)"
| "foreach_objs f s (x # xs) =
     (case f s x of (rc, s') \<Rightarrow> if rc \<noteq> 0 then (U_HMAP_ERR_FAIL, s') else foreach_objs f s' xs)"

definition u_hmap_foreach ::
  "'v u_hmap option \<Rightarrow> ('s \<Rightarrow> 'v \<Rightarrow> int \<times> 's) option \<Rightarrow> 's \<Rightarrow> u_hmap_ret \<times> 's" where
  "u_hmap_foreach hm f s =
     (case (hm, f) of
        (Some h, Some g) \<Rightarrow> foreach_objs (\<lambda>s x. g s (oval x)) s (concat (h_table h))
      | _ \<Rightarrow> (U_HMAP_ERR_FAIL, s))"

definition u_hmap_foreach_arg ::
  "'v u_hmap option \<Rightarrow> ('s \<Rightarrow> 'v \<Rightarrow> 'a \<Rightarrow> int \<times> 's) option \<Rightarrow> 'a \<Rightarrow> 's \<Rightarrow> u_hmap_ret \<times> 's" where
  "u_hmap_foreach_arg hm f arg s =
     (case (hm, f) of
        (Some h, Some g) \<Rightarrow> foreach_objs (\<lambda>s x. g s (oval x) arg) s (concat (h_table h))
      | _ \<Rightarrow> (U_HMAP_ERR_FAIL, s))"

definition u_hmap_foreach_keyval ::
  "'v u_hmap option \<Rightarrow> ('s \<Rightarrow> string \<Rightarrow> 'v \<Rightarrow> int \<times> 's) option \<Rightarrow> 's \<Rightarrow> u_hmap_ret \<times> 's" where
  "u_hmap_foreach_keyval hm f s =
     (case (hm, f) of
        (Some h, Some g) \<Rightarrow> foreach_objs (\<lambda>s x. g s (okey x) (oval x)) s (concat (h_table h))
      | _ \<Rightarrow> (U_HMAP_ERR_FAIL, s))"

section \<open>Objects and the easy interface\<close>

text \<open>
  A new object at the address \<open>i\<close>; the flags are the allocations of the object and of the copies of
  the key and the value, which only a map that owns its data makes.
\<close>

definition u_hmap_o_new ::
  "nat \<Rightarrow> bool \<times> bool \<times> bool \<Rightarrow> 'v u_hmap option \<Rightarrow> string option \<Rightarrow> 'v option
   \<Rightarrow> 'v u_hmap_o option" where
  "u_hmap_o_new i al hm k v =
     (case al of (a_obj, a_key, a_val) \<Rightarrow>
      (case (hm, k, v) of
        (Some h, Some key, Some x) \<Rightarrow>
          if \<not> a_obj then None
          else if owns h \<and> o_key_type (h_opts h) \<noteq> U_HMAP_OPTS_DATATYPE_POINTER \<and> \<not> a_key then None
          else if owns h \<and> o_val_type (h_opts h) \<noteq> U_HMAP_OPTS_DATATYPE_POINTER \<and> \<not> a_val then None
          else Some \<lparr> oid = i, okey = key, oval = x, opqe = False \<rparr>
      | _ \<Rightarrow> None))"

definition u_hmap_easy_put ::
  "nat \<Rightarrow> nat \<Rightarrow> bool \<times> bool \<times> bool \<Rightarrow> qalloc \<Rightarrow> ralloc \<Rightarrow> 'v u_hmap option \<Rightarrow> string option
   \<Rightarrow> 'v option \<Rightarrow> (u_hmap_ret \<times> 'v u_hmap option) outcome" where
  "u_hmap_easy_put n i oal al ra hm k v =
     (case hm of None \<Rightarrow> Inr (U_HMAP_ERR_FAIL, None)
      | Some h \<Rightarrow>
        (case u_hmap_o_new i oal hm k v of
           None \<Rightarrow> Inr (U_HMAP_ERR_FAIL, hm)
         | Some obj \<Rightarrow> obind (u_hmap_put n al ra h obj) (\<lambda>(rc, old, h'). Inr (rc, Some h'))))"

definition u_hmap_easy_get ::
  "qalloc \<Rightarrow> 'v u_hmap option \<Rightarrow> string option \<Rightarrow> ('v option \<times> 'v u_hmap option) outcome" where
  "u_hmap_easy_get al hm k =
     obind (u_hmap_get al hm k) (\<lambda>(rc, obj, hm').
       if rc \<noteq> U_HMAP_ERR_NONE then Inr (None, hm')
       else (case obj of None \<Rightarrow> Inl Null_deref | Some x \<Rightarrow> Inr (Some (oval x), hm')))"

definition u_hmap_easy_del ::
  "'v u_hmap option \<Rightarrow> string option \<Rightarrow> (u_hmap_ret \<times> 'v u_hmap option) outcome" where
  "u_hmap_easy_del hm k = obind (u_hmap_del hm k) (\<lambda>(rc, old, hm'). Inr (rc, hm'))"

section \<open>Options\<close>

text \<open>
  The setters return the code and the options; a NULL options pointer or a refused value fails. The
  free and string functions are only known to be set or not.
\<close>

definition u_hmap_opts_copy ::
  "'v u_hmap_opts option \<Rightarrow> 'v u_hmap_opts option \<Rightarrow> u_hmap_ret \<times> 'v u_hmap_opts option" where
  "u_hmap_opts_copy to from =
     (case (to, from) of (Some _, Some f) \<Rightarrow> (U_HMAP_ERR_NONE, Some f) | _ \<Rightarrow> (U_HMAP_ERR_FAIL, to))"

definition u_hmap_opts_set_size ::
  "'v u_hmap_opts option \<Rightarrow> int \<Rightarrow> u_hmap_ret \<times> 'v u_hmap_opts option" where
  "u_hmap_opts_set_size opts sz =
     (case opts of None \<Rightarrow> (U_HMAP_ERR_FAIL, None)
      | Some op \<Rightarrow>
        if sz \<le> 0 then (U_HMAP_ERR_FAIL, Some op)
        else (U_HMAP_ERR_NONE, Some (op\<lparr> o_size := nat sz \<rparr>)))"

definition u_hmap_opts_set_max ::
  "'v u_hmap_opts option \<Rightarrow> int \<Rightarrow> u_hmap_ret \<times> 'v u_hmap_opts option" where
  "u_hmap_opts_set_max opts mx =
     (case opts of None \<Rightarrow> (U_HMAP_ERR_FAIL, None)
      | Some op \<Rightarrow>
        if mx \<le> 0 then (U_HMAP_ERR_FAIL, Some op)
        else (U_HMAP_ERR_NONE, Some (op\<lparr> o_max := nat mx \<rparr>)))"

definition u_hmap_opts_set_type ::
  "'v u_hmap_opts option \<Rightarrow> u_hmap_type \<Rightarrow> u_hmap_ret \<times> 'v u_hmap_opts option" where
  "u_hmap_opts_set_type opts ty =
     (case opts of None \<Rightarrow> (U_HMAP_ERR_FAIL, None)
      | Some op \<Rightarrow>
        (U_HMAP_ERR_NONE, Some (op\<lparr> o_type := ty \<rparr>)))"

definition u_hmap_opts_set_option ::
  "'v u_hmap_opts option \<Rightarrow> 32 word \<Rightarrow> u_hmap_ret \<times> 'v u_hmap_opts option" where
  "u_hmap_opts_set_option opts option =
     (case opts of None \<Rightarrow> (U_HMAP_ERR_FAIL, None)
      | Some op \<Rightarrow>
        if option \<notin> {U_HMAP_OPTS_OWNSDATA, U_HMAP_OPTS_NO_OVERWRITE, U_HMAP_OPTS_HASH_STRONG}
           \<or> o_easy op \<and> option = U_HMAP_OPTS_OWNSDATA then (U_HMAP_ERR_FAIL, Some op)
        else (U_HMAP_ERR_NONE, Some (op\<lparr> o_options := o_options op OR option \<rparr>)))"

definition u_hmap_opts_unset_option ::
  "'v u_hmap_opts option \<Rightarrow> 32 word \<Rightarrow> u_hmap_ret \<times> 'v u_hmap_opts option" where
  "u_hmap_opts_unset_option opts option =
     (case opts of None \<Rightarrow> (U_HMAP_ERR_FAIL, None)
      | Some op \<Rightarrow>
        if option \<notin> {U_HMAP_OPTS_OWNSDATA, U_HMAP_OPTS_NO_OVERWRITE, U_HMAP_OPTS_HASH_STRONG}
           \<or> o_easy op \<and> option = U_HMAP_OPTS_OWNSDATA then (U_HMAP_ERR_FAIL, Some op)
        else (U_HMAP_ERR_NONE, Some (op\<lparr> o_options := o_options op AND NOT option \<rparr>)))"

definition u_hmap_opts_set_hashfunc ::
  "'v u_hmap_opts option \<Rightarrow> hash_fun option \<Rightarrow> u_hmap_ret \<times> 'v u_hmap_opts option" where
  "u_hmap_opts_set_hashfunc opts f =
     (case opts of None \<Rightarrow> (U_HMAP_ERR_FAIL, None)
      | Some op \<Rightarrow>
        if f = None then (U_HMAP_ERR_FAIL, Some op)
        else (U_HMAP_ERR_NONE, Some (op\<lparr> o_f_hash := f \<rparr>)))"

definition u_hmap_opts_set_compfunc ::
  "'v u_hmap_opts option \<Rightarrow> (string \<Rightarrow> string \<Rightarrow> int) option \<Rightarrow> u_hmap_ret \<times> 'v u_hmap_opts option" where
  "u_hmap_opts_set_compfunc opts f =
     (case opts of None \<Rightarrow> (U_HMAP_ERR_FAIL, None)
      | Some op \<Rightarrow>
        if f = None then (U_HMAP_ERR_FAIL, Some op)
        else (U_HMAP_ERR_NONE, Some (op\<lparr> o_f_comp := f \<rparr>)))"

definition u_hmap_opts_set_freefunc ::
  "'v u_hmap_opts option \<Rightarrow> bool \<Rightarrow> u_hmap_ret \<times> 'v u_hmap_opts option" where
  "u_hmap_opts_set_freefunc opts f =
     (case opts of None \<Rightarrow> (U_HMAP_ERR_FAIL, None)
      | Some op \<Rightarrow>
        if o_easy op then (U_HMAP_ERR_FAIL, Some op)
        else (U_HMAP_ERR_NONE, Some (op\<lparr> o_f_free := f \<rparr>)))"

definition u_hmap_opts_set_strfunc ::
  "'v u_hmap_opts option \<Rightarrow> bool \<Rightarrow> u_hmap_ret \<times> 'v u_hmap_opts option" where
  "u_hmap_opts_set_strfunc opts f =
     (case opts of None \<Rightarrow> (U_HMAP_ERR_FAIL, None)
      | Some op \<Rightarrow>
        (U_HMAP_ERR_NONE, Some (op\<lparr> o_f_str := f \<rparr>)))"

definition u_hmap_opts_set_key_type ::
  "'v u_hmap_opts option \<Rightarrow> u_hmap_datatype \<Rightarrow> u_hmap_ret \<times> 'v u_hmap_opts option" where
  "u_hmap_opts_set_key_type opts ty =
     (case opts of None \<Rightarrow> (U_HMAP_ERR_FAIL, None)
      | Some op \<Rightarrow>
        if o_easy op then (U_HMAP_ERR_FAIL, Some op)
        else (U_HMAP_ERR_NONE, Some (op\<lparr> o_key_type := ty \<rparr>)))"

definition u_hmap_opts_set_key_sz ::
  "'v u_hmap_opts option \<Rightarrow> nat \<Rightarrow> u_hmap_ret \<times> 'v u_hmap_opts option" where
  "u_hmap_opts_set_key_sz opts sz =
     (case opts of None \<Rightarrow> (U_HMAP_ERR_FAIL, None)
      | Some op \<Rightarrow>
        if sz = 0 \<or> o_easy op \<or> o_key_type op \<noteq> U_HMAP_OPTS_DATATYPE_OPAQUE then (U_HMAP_ERR_FAIL, Some op)
        else (U_HMAP_ERR_NONE, Some (op\<lparr> o_key_sz := sz \<rparr>)))"

definition u_hmap_opts_set_key_freefunc ::
  "'v u_hmap_opts option \<Rightarrow> bool \<Rightarrow> u_hmap_ret \<times> 'v u_hmap_opts option" where
  "u_hmap_opts_set_key_freefunc opts f =
     (case opts of None \<Rightarrow> (U_HMAP_ERR_FAIL, None)
      | Some op \<Rightarrow>
        if o_easy op then (U_HMAP_ERR_FAIL, Some op)
        else (U_HMAP_ERR_NONE, Some (op\<lparr> o_f_key_free := f \<rparr>)))"

definition u_hmap_opts_set_val_type ::
  "'v u_hmap_opts option \<Rightarrow> u_hmap_datatype \<Rightarrow> u_hmap_ret \<times> 'v u_hmap_opts option" where
  "u_hmap_opts_set_val_type opts ty =
     (case opts of None \<Rightarrow> (U_HMAP_ERR_FAIL, None)
      | Some op \<Rightarrow>
        (U_HMAP_ERR_NONE, Some (op\<lparr> o_val_type := ty \<rparr>)))"

definition u_hmap_opts_set_val_sz ::
  "'v u_hmap_opts option \<Rightarrow> nat \<Rightarrow> u_hmap_ret \<times> 'v u_hmap_opts option" where
  "u_hmap_opts_set_val_sz opts sz =
     (case opts of None \<Rightarrow> (U_HMAP_ERR_FAIL, None)
      | Some op \<Rightarrow>
        if sz = 0 \<or> o_val_type op \<noteq> U_HMAP_OPTS_DATATYPE_OPAQUE then (U_HMAP_ERR_FAIL, Some op)
        else (U_HMAP_ERR_NONE, Some (op\<lparr> o_val_sz := sz \<rparr>)))"

definition u_hmap_opts_set_val_freefunc ::
  "'v u_hmap_opts option \<Rightarrow> bool \<Rightarrow> u_hmap_ret \<times> 'v u_hmap_opts option" where
  "u_hmap_opts_set_val_freefunc opts f =
     (case opts of None \<Rightarrow> (U_HMAP_ERR_FAIL, None)
      | Some op \<Rightarrow>
        (U_HMAP_ERR_NONE, Some (op\<lparr> o_f_val_free := f, o_val_free_set := True \<rparr>)))"

definition u_hmap_opts_set_policy ::
  "'v u_hmap_opts option \<Rightarrow> u_hmap_pcy_type \<Rightarrow> u_hmap_ret \<times> 'v u_hmap_opts option" where
  "u_hmap_opts_set_policy opts policy =
     (case opts of None \<Rightarrow> (U_HMAP_ERR_FAIL, None)
      | Some op \<Rightarrow>
        (U_HMAP_ERR_NONE, Some (op\<lparr> o_policy := policy \<rparr>)))"

definition u_hmap_opts_set_policy_cmp ::
  "'v u_hmap_opts option \<Rightarrow> ('v \<Rightarrow> 'v \<Rightarrow> int) option \<Rightarrow> u_hmap_ret \<times> 'v u_hmap_opts option" where
  "u_hmap_opts_set_policy_cmp opts f =
     (case opts of None \<Rightarrow> (U_HMAP_ERR_FAIL, None)
      | Some op \<Rightarrow>
        if f = None \<or> o_policy op \<noteq> U_HMAP_PCY_CUSTOM then (U_HMAP_ERR_FAIL, Some op)
        else (U_HMAP_ERR_NONE, Some (op\<lparr> o_f_pcy_cmp := f \<rparr>)))"

definition u_hmap_strerror :: "u_hmap_ret \<Rightarrow> string" where
  "u_hmap_strerror rc =
     (case rc of U_HMAP_ERR_NONE \<Rightarrow> ''success'' | U_HMAP_ERR_FAIL \<Rightarrow> ''general failure''
      | U_HMAP_ERR_EXISTS \<Rightarrow> ''element already exists in table'')"

definition pcy2str :: "u_hmap_pcy_type \<Rightarrow> string" where
  "pcy2str p =
     (case p of U_HMAP_PCY_NONE \<Rightarrow> ''none'' | U_HMAP_PCY_FIFO \<Rightarrow> ''fifo'' | U_HMAP_PCY_LRU \<Rightarrow> ''lru''
      | U_HMAP_PCY_LFU \<Rightarrow> ''lfu'' | U_HMAP_PCY_CUSTOM \<Rightarrow> ''custom'')"

definition datatype2str :: "u_hmap_datatype \<Rightarrow> string" where
  "datatype2str d =
     (case d of U_HMAP_OPTS_DATATYPE_POINTER \<Rightarrow> ''pointer'' | U_HMAP_OPTS_DATATYPE_STRING \<Rightarrow> ''string''
      | U_HMAP_OPTS_DATATYPE_OPAQUE \<Rightarrow> ''opaque'')"

end
