(* ===== verification/Hmap_Policy.thy ===== *)
theory Hmap_Policy
  imports Hmap "HOL-Library.Multiset"
begin

text \<open>
  The discard policies of the hash map: the bound on the number of objects, and what deletion and
  clearing do to the queue of a policy. The last section is about linear probing.
\<close>

unbundle bit_operations_syntax

section \<open>The bound\<close>

text \<open>What no operation of a policy changes.\<close>

definition same_conf :: "'v u_hmap \<Rightarrow> 'v u_hmap \<Rightarrow> bool" where
  "same_conf h h' = (h_opts h' = h_opts h \<and> h_sz h' = h_sz h)"

lemma same_conf_simps [simp]:
  "same_conf h h" "same_conf h (table_replace i x h') = same_conf h h'"
  "same_conf h (o_free i h') = same_conf h h'" "same_conf h (h'\<lparr> h_queue := q \<rparr>) = same_conf h h'"
  "same_conf h (h'\<lparr> h_table := t \<rparr>) = same_conf h h'"
  by (simp_all add: same_conf_def table_replace_def map_table_def o_free_def)

lemma queue_push_conf: "queue_push al h x = Inr (ok, x', h') \<Longrightarrow> same_conf h h'"
  by (auto simp: queue_push_def split: if_splits option.splits)

lemma queue_push_count_conf: "queue_push_count al h x = Inr (ok, x', h') \<Longrightarrow> same_conf h h'"
  by (auto simp: queue_push_count_def obind_eq_Inr split: if_splits option.splits list.splits)

lemma queue_push_cmp_conf: "queue_push_cmp al h x = Inr (ok, x', h') \<Longrightarrow> same_conf h h'"
  by (auto simp: queue_push_cmp_def obind_eq_Inr split: if_splits option.splits)

lemma call_push_conf: "call_push al h x = Inr (ok, x', h') \<Longrightarrow> same_conf h h'"
  by (auto simp: call_push_def split: option.splits pcy_push.splits
      dest: queue_push_conf queue_push_count_conf queue_push_cmp_conf)

lemma queue_del_conf: "queue_del h x = Inr h' \<Longrightarrow> same_conf h h'"
  by (auto simp: queue_del_def split: if_splits)

lemma overwrite_conf: "overwrite al h x obj = Inr (rc, old, h') \<Longrightarrow> same_conf h h'"
  by (auto simp: overwrite_def obind_eq_Inr Let_def same_conf_def o_free_def table_replace_def
      map_table_def split: if_splits dest!: queue_del_conf call_push_conf)

lemma u_hmap_del_conf:
  "u_hmap_del (Some h) (Some k) = Inr (rc, old, Some h') \<Longrightarrow>
   h_opts h' = h_opts h \<and> h_sz h' = (if rc = U_HMAP_ERR_NONE then size_sub (h_sz h) 1 else h_sz h)"
proof -
  assume a: "u_hmap_del (Some h) (Some k) = Inr (rc, old, Some h')"
  then obtain r where "hmap_lookup h k = Inr r" by (auto simp: u_hmap_del_def obind_eq_Inr)
  with a show ?thesis
    by (cases r; cases "owns h")
      (auto simp: u_hmap_del_def Let_def o_free_def table_remove_def map_table_def)
qed

lemma pop_entry_conf:
  "pop_entry h e r = Inr (ok, old, h') \<Longrightarrow>
   h_opts h' = h_opts h \<and> h_sz h' = (if ok then size_sub (h_sz h) 1 else h_sz h)"
proof -
  assume a: "pop_entry h e r = Inr (ok, old, h')"
  then obtain rc old1 h1 where d: "u_hmap_del (Some h) (Some (q_key e)) = Inr (rc, old1, Some h1)"
    by (auto simp: pop_entry_def obind_eq_Inr split: if_splits option.splits)
  with a have "ok = (rc = U_HMAP_ERR_NONE)" "h_opts h' = h_opts h1" "h_sz h' = h_sz h1"
    by (auto simp: pop_entry_def split: if_splits)
  with u_hmap_del_conf [OF d] show ?thesis by simp
qed

lemma call_pop_conf:
  "call_pop h = Inr (ok, old, h') \<Longrightarrow>
   h_opts h' = h_opts h \<and> h_sz h' = (if ok then size_sub (h_sz h) 1 else h_sz h)"
  by (auto simp: call_pop_def queue_pop_front_def queue_pop_back_def
      split: option.splits pcy_pop.splits list.splits if_splits dest!: pop_entry_conf)

definition bounded :: "'v u_hmap \<Rightarrow> bool" where
  "bounded h = (o_policy (h_opts h) \<noteq> U_HMAP_PCY_NONE \<and> 0 < o_max (h_opts h) \<and> h_sz h \<le> o_max (h_opts h)
    \<and> o_max (h_opts h) < 2 ^ 64)"

lemma put_end_bounded:
  assumes "bounded h" "put_end al h obj = Inr (rc, old, h')"
  shows "bounded h' \<and> h_opts h' = h_opts h"
proof -
  from assms(2) obtain ok old1 h1 where 1: "(if h_sz h \<ge> o_max (h_opts h) \<and> o_policy (h_opts h) \<noteq> U_HMAP_PCY_NONE
      then call_pop h else Inr (True, None, h)) = Inr (ok, old1, h1)"
    and r: "(if \<not> ok then Inr (U_HMAP_ERR_FAIL, old1, h1)
         else obind (if pcy_op_put h1 then call_push al h1 obj else Inr (True, obj, h1))
             (\<lambda>(ok2, obj', h2).
               let h3 = table_replace (oid obj) obj' h2 in
               if \<not> ok2 then Inr (U_HMAP_ERR_FAIL, old1, h3)
               else Inr (U_HMAP_ERR_NONE, old1, h3\<lparr> h_sz := h_sz h3 + 1 \<rparr>))) = Inr (rc, old, h')"
    by (auto simp: put_end_def obind_eq_Inr)
  have b: "o_policy (h_opts h) \<noteq> U_HMAP_PCY_NONE" "0 < o_max (h_opts h)" "h_sz h \<le> o_max (h_opts h)"
    "o_max (h_opts h) < 2 ^ 64"
    using assms(1) by (simp_all add: bounded_def)
  have o1: "h_opts h1 = h_opts h" "h_sz h1 \<le> h_sz h" "ok \<Longrightarrow> h_sz h1 < o_max (h_opts h)"
    using 1 b by (auto simp: size_sub_le split: if_splits dest!: call_pop_conf)
  show ?thesis
  proof (cases ok)
    case False with r o1 b show ?thesis by (simp add: bounded_def)
  next
    case True
    then obtain ok2 obj' h2 where
      2: "(if pcy_op_put h1 then call_push al h1 obj else Inr (True, obj, h1)) = Inr (ok2, obj', h2)"
      using r by (auto simp: obind_eq_Inr)
    then have "same_conf h1 h2" by (auto split: if_splits dest: call_push_conf)
    then have "same_conf h1 (table_replace (oid obj) obj' h2)" by simp
    with True r 2 o1 b show ?thesis
      by (auto simp: bounded_def Let_def same_conf_def split: if_splits)
  qed
qed

lemma put_slot_bounded:
  assumes "bounded h" "put_slot al h obj = Inr (rc, old, h')"
  shows "bounded h' \<and> h_opts h' = h_opts h"
proof -
  have t: "bounded (h\<lparr> h_table := x \<rparr>)" for x using assms(1) by (simp add: bounded_def)
  have ov: "bounded h' \<and> h_opts h' = h_opts h" if "overwrite al h x obj = Inr (rc, old, h')" for x
    using overwrite_conf [OF that] assms(1) by (simp add: same_conf_def bounded_def)
  note pe = put_end_bounded [OF t, of al _ obj rc old h']
  from assms(2) obtain k where k: "(case o_type (h_opts h) of
         U_HMAP_TYPE_CHAIN \<Rightarrow>
           if k \<ge> length (h_table h) then Inl Out_of_bounds
           else (case chain_put (call_comp h) obj (h_table h ! k) of
                   Placed l \<Rightarrow> put_end al (h\<lparr> h_table := (h_table h)[k := l] \<rparr>) obj
                 | Found x \<Rightarrow> overwrite al h x obj)
       | U_HMAP_TYPE_LINEAR \<Rightarrow>
           obind (linear_put (call_comp h) (okey obj) (h_table h) (h_size h - 1) k) (\<lambda>r.
             case r of
               Slot i \<Rightarrow> put_end al (h\<lparr> h_table := (h_table h)[i := [obj]] \<rparr>) obj
             | Taken x \<Rightarrow> overwrite al h x obj
             | Full \<Rightarrow> Inr (U_HMAP_ERR_FAIL, None, h))) = Inr (rc, old, h')"
    unfolding put_slot_def obind_eq_Inr by blast
  show ?thesis
  proof (cases "o_type (h_opts h)")
    case U_HMAP_TYPE_CHAIN
    with k show ?thesis by (auto split: if_splits chain_res.splits dest: pe ov)
  next
    case U_HMAP_TYPE_LINEAR
    with k obtain r where "(case r of
               Slot i \<Rightarrow> put_end al (h\<lparr> h_table := (h_table h)[i := [obj]] \<rparr>) obj
             | Taken x \<Rightarrow> overwrite al h x obj
             | Full \<Rightarrow> Inr (U_HMAP_ERR_FAIL, None, h)) = Inr (rc, old, h')"
      by (auto simp: obind_eq_Inr)
    with assms(1) show ?thesis by (cases r) (auto dest: pe ov)
  qed
qed

text \<open>
  The objects of the table against the counter. A push leaves the table alone, and a pop that
  succeeds takes out just one object.
\<close>

definition stored :: "'v u_hmap \<Rightarrow> 'v u_hmap_o list" where
  "stored h = concat (h_table h)"

definition counted_objs :: "'v u_hmap \<Rightarrow> bool" where
  "counted_objs h = (distinct (map oid (stored h)) \<and> length (stored h) = h_sz h)"

lemma stored_simps [simp]:
  "stored (o_free i h) = stored h" "stored (h\<lparr> h_queue := q \<rparr>) = stored h" "stored (h\<lparr> h_sz := n \<rparr>) = stored h"
  "stored (table_replace i obj h) = map (\<lambda>x. if oid x = i then obj else x) (stored h)"
  "stored (table_remove i h) = filter (\<lambda>x. oid x \<noteq> i) (stored h)"
  by (simp_all add: stored_def o_free_def table_replace_def table_remove_def map_table_def map_concat filter_concat)

lemma call_push_stored: "call_push al h x = Inr (ok, x', h') \<Longrightarrow> h_table h' = h_table h \<and> oid x' = oid x"
  by (auto simp: call_push_def queue_push_def queue_push_count_def queue_push_cmp_def obind_eq_Inr
      split: option.splits pcy_push.splits if_splits list.splits)

lemma queue_del_table: "queue_del h x = Inr h' \<Longrightarrow> h_table h' = h_table h"
  by (auto simp: queue_del_def split: if_splits)

lemma chain_get_mem: "chain_get cmp k l = Some x \<Longrightarrow> x \<in> set l"
  by (induction l) (auto split: if_splits)

lemma linear_get_mem: "linear_get cmp k t n i = Inr (Some x) \<Longrightarrow> x \<in> set (concat t)"
proof (induction n arbitrary: i)
  case (Suc n)
  show ?case
  proof (cases "t ! i")
    case (Cons y ys)
    then show ?thesis using Suc nth_mem [of i t] by (fastforce split: if_splits)
  qed (use Suc in \<open>auto split: if_splits\<close>)
qed simp

lemma lookup_stored: "hmap_lookup h k = Inr (Some x) \<Longrightarrow> x \<in> set (stored h)"
proof -
  assume a: "hmap_lookup h k = Inr (Some x)"
  then obtain s where s: "(case o_type (h_opts h) of
         U_HMAP_TYPE_CHAIN \<Rightarrow>
           if s < length (h_table h) then Inr (chain_get (call_comp h) k (h_table h ! s))
           else Inl Out_of_bounds
       | U_HMAP_TYPE_LINEAR \<Rightarrow> linear_get (call_comp h) k (h_table h) (h_size h - 1) s) = Inr (Some x)"
    unfolding hmap_lookup_def obind_eq_Inr by blast
  show ?thesis
  proof (cases "o_type (h_opts h)")
    case U_HMAP_TYPE_CHAIN
    with s have l: "s < length (h_table h)" "chain_get (call_comp h) k (h_table h ! s) = Some x" by (auto split: if_splits)
    then show ?thesis using chain_get_mem [OF l(2)] nth_mem [OF l(1)] by (auto simp: stored_def)
  next
    case U_HMAP_TYPE_LINEAR
    with s have "linear_get (call_comp h) k (h_table h) (h_size h - 1) s = Inr (Some x)" by simp
    from linear_get_mem [OF this] show ?thesis by (simp add: stored_def)
  qed
qed

lemma del_stored:
  "u_hmap_del (Some h) (Some k) = Inr (rc, old, Some h') \<Longrightarrow>
   if rc = U_HMAP_ERR_NONE then \<exists>x \<in> set (stored h). stored h' = filter (\<lambda>y. oid y \<noteq> oid x) (stored h)
   else stored h' = stored h"
proof -
  assume a: "u_hmap_del (Some h) (Some k) = Inr (rc, old, Some h')"
  then obtain r where "hmap_lookup h k = Inr r" by (auto simp: u_hmap_del_def obind_eq_Inr)
  with a show ?thesis using lookup_stored [of h k]
    by (cases r; cases "owns h") (auto simp: u_hmap_del_def Let_def)
qed

lemma call_pop_stored:
  "call_pop h = Inr (ok, old, h') \<Longrightarrow>
   if ok then \<exists>x \<in> set (stored h). stored h' = filter (\<lambda>y. oid y \<noteq> oid x) (stored h) else stored h' = stored h"
proof -
  have e: "if ok then \<exists>x \<in> set (stored h). stored h' = filter (\<lambda>y. oid y \<noteq> oid x) (stored h) else stored h' = stored h"
    if "pop_entry h e r = Inr (ok, old, h')" for e r
  proof -
    from that obtain rc old1 h1 where d: "u_hmap_del (Some h) (Some (q_key e)) = Inr (rc, old1, Some h1)"
      by (auto simp: pop_entry_def obind_eq_Inr split: if_splits option.splits)
    with that have "ok = (rc = U_HMAP_ERR_NONE)" "stored h' = stored h1"
      by (auto simp: pop_entry_def split: if_splits)
    with del_stored [OF d] show ?thesis by simp
  qed
  assume "call_pop h = Inr (ok, old, h')"
  then show ?thesis
    by (auto simp: call_pop_def queue_pop_front_def queue_pop_back_def
        split: option.splits pcy_pop.splits list.splits if_splits dest!: e)
qed

lemma filter_out_one:
  assumes "distinct (map oid xs)" "x \<in> set xs"
  shows "Suc (length (filter (\<lambda>y. oid y \<noteq> oid x) xs)) = length xs"
  using assms
proof (induction xs)
  case (Cons y ys)
  show ?case
  proof (cases "y = x")
    case True
    then have "oid z \<noteq> oid x" if "z \<in> set ys" for z using Cons.prems that by (metis distinct.simps(2) image_eqI list.map(2) list.set_map)
    then have "filter (\<lambda>y. oid y \<noteq> oid x) ys = ys" by (intro filter_True) auto
    then show ?thesis using True by simp
  next
    case False
    then have "x \<in> set ys" "oid y \<noteq> oid x" using Cons.prems by auto
    then show ?thesis using Cons by simp
  qed
qed simp

lemma distinct_oid_filter: "distinct (map oid xs) \<Longrightarrow> distinct (map oid (filter P xs))"
  by (induction xs) auto

lemma distinct_oid_replace:
  assumes "distinct (map oid xs)" "oid obj = i \<or> oid obj \<notin> oid ` set xs"
  shows "distinct (map oid (map (\<lambda>x. if oid x = i then obj else x) xs))"
proof -
  let ?g = "\<lambda>j. if j = i then oid obj else j"
  have m: "map oid (map (\<lambda>x. if oid x = i then obj else x) xs) = map ?g (map oid xs)" by simp
  have "inj_on ?g (set (map oid xs))"
  proof (rule inj_onI)
    fix a b assume "a \<in> set (map oid xs)" "b \<in> set (map oid xs)" "?g a = ?g b"
    then show "a = b" using assms(2) unfolding set_map by (cases "a = i"; cases "b = i") simp_all
  qed
  then have "distinct (map ?g (map oid xs))" using assms(1) unfolding distinct_map [of ?g "map oid xs"] by blast
  then show ?thesis unfolding m .
qed

lemma put_end_counted:
  assumes "distinct (map oid (stored h))" "length (stored h) = Suc (h_sz h)" "bounded h"
    "put_end al h obj = Inr (rc, old, h')"
  shows "(rc \<noteq> U_HMAP_ERR_FAIL \<longrightarrow> counted_objs h') \<and> (rc = U_HMAP_ERR_FAIL \<longrightarrow> length (stored h') = Suc (h_sz h'))"
proof -
  let ?full = "h_sz h \<ge> o_max (h_opts h) \<and> o_policy (h_opts h) \<noteq> U_HMAP_PCY_NONE"
  from assms(4) obtain ok old1 h1 where 1: "(if ?full then call_pop h else Inr (True, None, h)) = Inr (ok, old1, h1)"
    and r: "(if \<not> ok then Inr (U_HMAP_ERR_FAIL, old1, h1)
         else obind (if pcy_op_put h1 then call_push al h1 obj else Inr (True, obj, h1))
             (\<lambda>(ok2, obj', h2).
               let h3 = table_replace (oid obj) obj' h2 in
               if \<not> ok2 then Inr (U_HMAP_ERR_FAIL, old1, h3)
               else Inr (U_HMAP_ERR_NONE, old1, h3\<lparr> h_sz := h_sz h3 + 1 \<rparr>))) = Inr (rc, old, h')"
    by (auto simp: put_end_def obind_eq_Inr)
  have s1: "distinct (map oid (stored h1)) \<and> length (stored h1) = Suc (h_sz h1)"
  proof (cases "?full \<and> ok")
    case True
    then have p: "call_pop h = Inr (ok, old1, h1)" using 1 by simp
    have sz: "0 < h_sz h" "h_sz h < 2 ^ 64" using True assms(3) by (auto simp: bounded_def)
    obtain x where x: "x \<in> set (stored h)" "stored h1 = filter (\<lambda>y. oid y \<noteq> oid x) (stored h)"
      using call_pop_stored [OF p] True by auto
    have "h_sz h1 = h_sz h - 1" using call_pop_conf [OF p] True sz by (simp add: size_sub_le)
    moreover have "length (stored h1) = h_sz h" using filter_out_one [OF assms(1) x(1)] assms(2) x(2) by simp
    ultimately show ?thesis using sz(1) distinct_oid_filter [OF assms(1)] x(2) by simp
  next
    case False
    then have "stored h1 = stored h" "h_sz h1 = h_sz h"
      using 1 call_pop_stored [of h ok old1 h1] call_pop_conf [of h ok old1 h1] by (auto split: if_splits)
    then show ?thesis using assms(1,2) by simp
  qed
  show ?thesis
  proof (cases ok)
    case True
    then obtain ok2 obj' h2 where
      2: "(if pcy_op_put h1 then call_push al h1 obj else Inr (True, obj, h1)) = Inr (ok2, obj', h2)"
      using r by (auto simp: obind_eq_Inr)
    then have t: "stored h2 = stored h1" "oid obj' = oid obj" "h_sz h2 = h_sz h1"
      using call_push_stored [of al h1 obj ok2 obj' h2] call_push_conf [of al h1 obj ok2 obj' h2]
      by (auto simp: stored_def same_conf_def split: if_splits)
    have "distinct (map oid (map (\<lambda>x. if oid x = oid obj then obj' else x) (stored h1)))"
      by (rule distinct_oid_replace) (use s1 t(2) in simp_all)
    moreover have "h_sz (table_replace (oid obj) obj' h2) = h_sz h2" by (simp add: table_replace_def map_table_def)
    moreover have "(rc, h') = (if ok2 then (U_HMAP_ERR_NONE, table_replace (oid obj) obj' h2\<lparr> h_sz := h_sz h2 + 1 \<rparr>)
        else (U_HMAP_ERR_FAIL, table_replace (oid obj) obj' h2))"
      using r True 2 calculation(2) by (simp add: Let_def split: if_splits)
    ultimately show ?thesis using s1 t(1,3) by (cases ok2) (simp_all add: counted_objs_def)
  qed (use r s1 in simp)
qed

lemma overwrite_counted:
  fixes h :: "'v u_hmap"
  assumes "counted_objs h" "oid obj \<notin> oid ` set (stored h)" "overwrite al h x obj = Inr (rc, old, h')"
  shows "counted_objs h'"
proof -
  have d: "distinct (map oid (map (\<lambda>y. if oid y = oid x then obj' else y) (stored h)))" if "oid obj' = oid obj" for obj'
    by (rule distinct_oid_replace) (use assms(1,2) that in \<open>auto simp: counted_objs_def\<close>)
  have "distinct (map oid (stored h')) \<and> length (stored h') = length (stored h)"
  proof (cases "o_options (h_opts h) AND U_HMAP_OPTS_NO_OVERWRITE = 0")
    case True
    let ?q = "if pcy_op_put h then obind (queue_del h x) (\<lambda>h1. call_push al h1 obj) else Inr (True, obj, h)"
    let ?r = "\<lambda>(ok, obj' :: 'v u_hmap_o, h1). if \<not> ok then (Inr (U_HMAP_ERR_FAIL, None, h1) :: 'v put_result outcome)
            else (let h2 = table_replace (oid x) obj' h1 in
                  if owns h then Inr (U_HMAP_ERR_NONE, None, o_free (oid x) h2)
                  else Inr (U_HMAP_ERR_NONE, Some x, h2))"
    have "obind ?q ?r = Inr (rc, old, h')" using assms(3) True by (simp add: overwrite_def)
    then have "\<exists>p. ?q = Inr p \<and> ?r p = Inr (rc, old, h')" by (simp only: obind_eq_Inr)
    then obtain p where p: "?q = Inr p" "?r p = Inr (rc, old, h')" by (elim exE conjE)
    obtain ok obj' h1 where o: "p = (ok, obj', h1)" by (cases p)
    note 1 = p(1) [unfolded o] and r = p(2) [unfolded o]
    have t: "stored h1 = stored h" "oid obj' = oid obj"
      using 1 by (auto simp: obind_eq_Inr stored_def split: if_splits dest!: queue_del_table call_push_stored)
    have "stored h' = stored h \<or> stored h' = map (\<lambda>y. if oid y = oid x then obj' else y) (stored h)"
      using r t(1) by (auto simp: Let_def split: if_splits)
    then show ?thesis using d [OF t(2)] assms(1) by (auto simp: counted_objs_def simp del: map_map)
  next
    case False
    then have "stored h' = stored h" using assms(3) by (auto simp: overwrite_def split: if_splits)
    then show ?thesis using assms(1) by (simp add: counted_objs_def)
  qed
  moreover have "h_sz h' = h_sz h" using overwrite_conf [OF assms(3)] by (simp add: same_conf_def)
  ultimately show ?thesis using assms(1) by (simp add: counted_objs_def)
qed

lemma chain_put_stored:
  "case chain_put cmp obj l of Placed l' \<Rightarrow> mset l' = add_mset obj (mset l) | Found x \<Rightarrow> x \<in> set l"
proof (induction l)
  case (Cons x l)
  then show ?case by (auto simp: Let_def split: chain_res.splits)
qed simp

lemma linear_put_slot: "linear_put cmp k t n i = Inr (Slot j) \<Longrightarrow> j < length t \<and> t ! j = []"
proof (induction n arbitrary: i)
  case (Suc n)
  then show ?case by (cases "i < length t"; cases "t ! i") (auto split: if_splits)
qed simp

lemma mset_concat_list_update: "i < length t \<Longrightarrow> mset (concat (t[i := l])) + mset (t ! i) = mset (concat t) + mset l"
proof (induction t arbitrary: i)
  case (Cons a t)
  then show ?case by (cases i) (auto simp: ac_simps)
qed simp

lemma placed_end:
  assumes "counted_objs h" "oid obj \<notin> oid ` set (stored h)" "bounded h" "i < length (h_table h)"
    "mset l = add_mset obj (mset (h_table h ! i))"
    "put_end al (h\<lparr> h_table := (h_table h)[i := l] \<rparr>) obj = Inr (rc, old, h')"
  shows "(rc \<noteq> U_HMAP_ERR_FAIL \<longrightarrow> counted_objs h') \<and> (rc = U_HMAP_ERR_FAIL \<longrightarrow> length (stored h') = Suc (h_sz h'))"
proof -
  let ?h = "h\<lparr> h_table := (h_table h)[i := l] \<rparr>"
  have "mset (stored ?h) = add_mset obj (mset (stored h))"
    using mset_concat_list_update [OF assms(4), of l] assms(5) by (simp add: stored_def)
  then have "mset (stored ?h) = mset (obj # stored h)" by simp
  then have "mset (map oid (stored ?h)) = mset (map oid (obj # stored h))" "length (stored ?h) = length (obj # stored h)"
    by (metis mset_map, metis mset_eq_length)
  then have "distinct (map oid (stored ?h))" "length (stored ?h) = Suc (h_sz ?h)"
    using assms(1,2) mset_eq_imp_distinct_iff by (fastforce simp: counted_objs_def, simp add: counted_objs_def)
  moreover have "bounded ?h" using assms(3) by (simp add: bounded_def)
  ultimately show ?thesis using put_end_counted assms(6) by blast
qed

lemma put_slot_counted:
  assumes "counted_objs h" "oid obj \<notin> oid ` set (stored h)" "bounded h" "put_slot al h obj = Inr (rc, old, h')"
  shows "(rc \<noteq> U_HMAP_ERR_FAIL \<longrightarrow> counted_objs h') \<and> (rc = U_HMAP_ERR_FAIL \<longrightarrow> length (stored h') \<le> Suc (h_sz h'))"
proof -
  have ov: ?thesis if "overwrite al h x obj = Inr (rc, old, h')" for x
    using overwrite_counted [OF assms(1,2) that] by (simp add: counted_objs_def)
  have pe: ?thesis if "i < length (h_table h)" "mset l = add_mset obj (mset (h_table h ! i))"
    "put_end al (h\<lparr> h_table := (h_table h)[i := l] \<rparr>) obj = Inr (rc, old, h')" for i l
    using placed_end [OF assms(1-3) that] by auto
  from assms(4) obtain k where k: "(case o_type (h_opts h) of
         U_HMAP_TYPE_CHAIN \<Rightarrow>
           if k \<ge> length (h_table h) then Inl Out_of_bounds
           else (case chain_put (call_comp h) obj (h_table h ! k) of
                   Placed l \<Rightarrow> put_end al (h\<lparr> h_table := (h_table h)[k := l] \<rparr>) obj
                 | Found x \<Rightarrow> overwrite al h x obj)
       | U_HMAP_TYPE_LINEAR \<Rightarrow>
           obind (linear_put (call_comp h) (okey obj) (h_table h) (h_size h - 1) k) (\<lambda>r.
             case r of
               Slot i \<Rightarrow> put_end al (h\<lparr> h_table := (h_table h)[i := [obj]] \<rparr>) obj
             | Taken x \<Rightarrow> overwrite al h x obj
             | Full \<Rightarrow> Inr (U_HMAP_ERR_FAIL, None, h))) = Inr (rc, old, h')"
    unfolding put_slot_def obind_eq_Inr by blast
  show ?thesis
  proof (cases "o_type (h_opts h)")
    case U_HMAP_TYPE_CHAIN
    then have kl: "k < length (h_table h)" using k by (auto split: if_splits)
    show ?thesis
    proof (cases "chain_put (call_comp h) obj (h_table h ! k)")
      case (Placed l)
      then have "mset l = add_mset obj (mset (h_table h ! k))" using chain_put_stored [where cmp = "call_comp h" and obj = obj and l = "h_table h ! k"] by simp
      from pe [OF kl this] show ?thesis using k U_HMAP_TYPE_CHAIN kl Placed by simp
    next
      case (Found x)
      with ov [of x] show ?thesis using k U_HMAP_TYPE_CHAIN kl by simp
    qed
  next
    case U_HMAP_TYPE_LINEAR
    with k obtain r where r: "linear_put (call_comp h) (okey obj) (h_table h) (h_size h - 1) k = Inr r" "(case r of
               Slot i \<Rightarrow> put_end al (h\<lparr> h_table := (h_table h)[i := [obj]] \<rparr>) obj
             | Taken x \<Rightarrow> overwrite al h x obj
             | Full \<Rightarrow> Inr (U_HMAP_ERR_FAIL, None, h)) = Inr (rc, old, h')"
      by (auto simp: obind_eq_Inr)
    show ?thesis
    proof (cases r)
      case (Slot i)
      then have "i < length (h_table h) \<and> h_table h ! i = []" using linear_put_slot r(1) by blast
      with pe [of i "[obj]"] r(2) Slot show ?thesis by simp
    qed (use ov r(2) assms(1) in \<open>auto simp: counted_objs_def\<close>)
  qed
qed

text \<open>
  C35: a map with a discard policy, of whatever kind and type, whose counter is at most the \<open>max\<close> of
  the options: every insertion that returns, whether it succeeds, fails or overwrites, leaves the
  counter at most \<open>max\<close> and the options as they are. Where the counter was the number of the objects,
  and the object is not one of them, an insertion that does not fail leaves it so, and the table
  holds at most \<open>max\<close> objects; one that fails, be it because the queue of the policy could not be
  popped or pushed, leaves at most one object that is not counted.
\<close>

theorem u_hmap_policy_bound:
  assumes "o_policy (h_opts h) \<noteq> U_HMAP_PCY_NONE" "0 < o_max (h_opts h)" "h_sz h \<le> o_max (h_opts h)"
    "o_max (h_opts h) < 2 ^ 64" "u_hmap_put n al ra h obj = Inr (rc, old, h')"
  shows "h_sz h' \<le> o_max (h_opts h) \<and> h_opts h' = h_opts h
    \<and> (counted_objs h \<and> oid obj \<notin> oid ` set (stored h) \<longrightarrow>
        (rc \<noteq> U_HMAP_ERR_FAIL \<longrightarrow> counted_objs h' \<and> length (stored h') \<le> o_max (h_opts h))
      \<and> (rc = U_HMAP_ERR_FAIL \<longrightarrow> length (stored h') \<le> Suc (h_sz h')))"
proof -
  have b: "bounded h" using assms(1-4) by (simp add: bounded_def)
  have p: "u_hmap_put n al ra h obj = put_slot al h obj"
    using assms(1) by (subst u_hmap_put.simps) simp
  then have "bounded h' \<and> h_opts h' = h_opts h" using put_slot_bounded [OF b] assms(5) by metis
  then have b': "h_sz h' \<le> o_max (h_opts h)" "h_opts h' = h_opts h" by (auto simp: bounded_def)
  have "(rc \<noteq> U_HMAP_ERR_FAIL \<longrightarrow> counted_objs h') \<and> (rc = U_HMAP_ERR_FAIL \<longrightarrow> length (stored h') \<le> Suc (h_sz h'))"
    if "counted_objs h" "oid obj \<notin> oid ` set (stored h)"
    using put_slot_counted [OF that b] p assms(5) by metis
  with b' show ?thesis by (simp add: counted_objs_def)
qed

section \<open>Deletion and clearing under a policy\<close>

text \<open>A small map with the FIFO policy, whose hash function is constant and strong.\<close>

definition fifo_opts :: "nat \<Rightarrow> int u_hmap_opts" where
  "fifo_opts m = (u_hmap_opts_init zero_opts)\<lparr> o_size := 3, o_max := m, o_policy := U_HMAP_PCY_FIFO,
  o_f_str := True, o_f_hash := Some (Custom_hash (\<lambda>_ _. 0)), o_options := U_HMAP_OPTS_OWNSDATA OR U_HMAP_OPTS_HASH_STRONG \<rparr>"

definition fifo_map :: "nat \<Rightarrow> int u_hmap" where
  "fifo_map m = the (snd (u_hmap_new (Some (fifo_opts m)) True True True))"

definition fput :: "nat \<Rightarrow> string \<Rightarrow> int u_hmap \<Rightarrow> (u_hmap_ret \<times> int u_hmap) outcome" where
  "fput i k h = obind (u_hmap_put 1 (True, True) (True, True, True, True) h
      \<lparr> oid = i, okey = k, oval = int i, opqe = False \<rparr>) (\<lambda>(rc, old, h'). Inr (rc, h'))"

definition fdel :: "string \<Rightarrow> int u_hmap \<Rightarrow> (u_hmap_ret \<times> int u_hmap) outcome" where
  "fdel k h = obind (u_hmap_del (Some h) (Some k)) (\<lambda>(rc, old, h'). Inr (rc, the h'))"

text \<open>Such a map with at most one object, given its first chain, queue, counter and freed objects.\<close>

definition fm ::
  "int u_hmap_o list \<Rightarrow> int u_hmap_q list \<Rightarrow> nat \<Rightarrow> nat list \<Rightarrow> int u_hmap" where
  "fm b q n fr = \<lparr> h_opts = fifo_opts 1, h_sz = n, h_size = 13, h_threshold = 9, h_px = 0,
     pcy_push = Some Queue_push, pcy_pop = Some Queue_pop_back, pcy_op_put = True, pcy_op_get = False,
     h_queue = q, h_table = b # replicate 12 [], h_freed = fr \<rparr>"

lemma fifo_map_fm: "fifo_map 1 = fm [] [] 0 []"
  by (simp add: fm_def replicate_Suc [of 12, simplified] fifo_map_def fifo_opts_def u_hmap_new_def
      u_hmap_opts_new_def u_hmap_opts_init_def opts_check_def next_prime_def primes_def pcy_setup_def)

lemma fifo_opts_sel:
  "o_options (fifo_opts m) = 5" "o_policy (fifo_opts m) = U_HMAP_PCY_FIFO" "o_max (fifo_opts m) = m"
  "o_f_hash (fifo_opts m) = Some (Custom_hash (\<lambda>_ _. 0))"
  "o_type (fifo_opts m) = U_HMAP_TYPE_CHAIN" "o_f_comp (fifo_opts m) = Some f_comp"
  by (simp_all add: fifo_opts_def u_hmap_opts_init_def U_HMAP_OPTS_OWNSDATA_def U_HMAP_OPTS_HASH_STRONG_def)

lemma fifo_hash_slot: "hash_slot (fifo_opts m) k n = Inr 0"
  by (simp add: hash_slot_def fifo_opts_sel U_HMAP_OPTS_HASH_STRONG_def)

lemmas fifo_run = fifo_opts_sel fifo_hash_slot fput_def fdel_def u_hmap_put.simps put_slot_def
  put_end_def call_pop_def call_push_def queue_push_def q_entry_def u_hmap_del_def hmap_lookup_def
  call_comp_def f_comp_def owns_def U_HMAP_OPTS_OWNSDATA_def table_remove_def map_table_def o_free_def
  table_replace_def queue_pop_back_def pop_entry_def size_sub_under size_sub_le strcmp_refl fm_def

definition obj_of :: "nat \<Rightarrow> string \<Rightarrow> int u_hmap_o" where
  "obj_of i k = \<lparr> oid = i, okey = k, oval = int i, opqe = True \<rparr>"

definition entry_of :: "nat \<Rightarrow> string \<Rightarrow> int u_hmap_q" where
  "entry_of i k = \<lparr> q_ho = i, q_key = k, q_val = int i, q_count = None \<rparr>"

lemma fput_a: "fput 1 ''a'' (fm [] [] 0 []) = Inr (U_HMAP_ERR_NONE, fm [obj_of 1 ''a''] [entry_of 1 ''a''] 1 [])"
  by (simp add: fifo_run obj_of_def entry_of_def)

lemma fdel_a:
  "fdel ''a'' (fm [obj_of 1 ''a''] [entry_of 1 ''a''] 1 []) = Inr (U_HMAP_ERR_NONE, fm [] [entry_of 1 ''a''] 0 [1])"
  by (simp add: fifo_run obj_of_def entry_of_def)

lemma fput_b:
  "fput 2 ''b'' (fm [] [entry_of 1 ''a''] 0 [1])
   = Inr (U_HMAP_ERR_NONE, fm [obj_of 2 ''b''] [entry_of 2 ''b'', entry_of 1 ''a''] 1 [1])"
  by (simp add: fifo_run obj_of_def entry_of_def)

lemma fput_c:
  "fput 3 ''c'' (fm [obj_of 2 ''b''] [entry_of 2 ''b'', entry_of 1 ''a''] 1 [1]) = Inl Use_after_free"
  by (simp add: fifo_run obj_of_def entry_of_def)

lemma fput_b_full:
  "fput 2 ''b'' (fm [obj_of 1 ''a''] [entry_of 1 ''a''] 1 [])
   = Inr (U_HMAP_ERR_NONE, fm [obj_of 2 ''b''] [entry_of 2 ''b''] 1 [1])"
  by (simp add: fifo_run obj_of_def entry_of_def)

theorem u_hmap_policy_bound_witness:
  "h_sz (fm [obj_of 2 ''b''] [entry_of 2 ''b''] 1 [1]) \<le> 1 \<and> length (stored (fm [obj_of 2 ''b''] [entry_of 2 ''b''] 1 [1])) \<le> 1"
proof -
  let ?h = "fm [obj_of 1 ''a''] [entry_of 1 ''a''] 1 []"
  let ?obj = "\<lparr> oid = 2, okey = ''b'', oval = 2, opqe = False \<rparr>"
  have pre: "o_policy (h_opts ?h) \<noteq> U_HMAP_PCY_NONE" "0 < o_max (h_opts ?h)"
    "h_sz ?h \<le> o_max (h_opts ?h)" "o_max (h_opts ?h) < 2 ^ 64" "o_max (h_opts ?h) = 1"
    by (simp_all add: fm_def fifo_opts_sel)
  obtain old where p:
    "u_hmap_put 1 (True, True) (True, True, True, True) ?h ?obj
       = Inr (U_HMAP_ERR_NONE, old, fm [obj_of 2 ''b''] [entry_of 2 ''b''] 1 [1])"
    using fput_b_full by (auto simp: fput_def obind_eq_Inr)
  have c: "counted_objs ?h" "oid ?obj \<notin> oid ` set (stored ?h)"
    by (simp_all add: counted_objs_def stored_def fm_def obj_of_def)
  show ?thesis using u_hmap_policy_bound [OF pre(1-4) p] c pre(5) by simp
qed

text \<open>
  a deletion by the user leaves the entry of the released object in the queue of the policy:
  after put, delete and another put, the next put that has to make room reads the released object.
\<close>

theorem u_hmap_del_leaves_entry:
  "obind (fput 1 ''a'' (fifo_map 1)) (\<lambda>(_, h1).
     obind (fdel ''a'' h1) (\<lambda>(_, h2).
       obind (fput 2 ''b'' h2) (\<lambda>(_, h3). fput 3 ''c'' h3))) = Inl Use_after_free"
  unfolding fifo_map_fm fput_a by (simp only: fdel_a fput_b fput_c obind_Inr case_prod_conv)

text \<open>
  clearing a map does not reset its counter: a map with a policy that was full stays full
  although it is empty, so the queue has nothing to discard and every insertion of a new key fails.
\<close>

theorem u_hmap_clear_keeps_full:
  assumes "o_policy (h_opts h) \<in> {U_HMAP_PCY_FIFO, U_HMAP_PCY_LRU}" "o_type (h_opts h) = U_HMAP_TYPE_CHAIN"
    "pcy_pop h = Some Queue_pop_back" "o_max (h_opts h) \<le> h_sz h"
    "hash_slot (h_opts h) (okey obj) (h_size h) = Inr s" "s < length (h_table h)"
  shows "\<exists>c. u_hmap_clear (Some h) = Some c \<and> concat (h_table c) = [] \<and> h_queue c = []
    \<and> u_hmap_count (Some c) = u_hmap_count (Some h)
    \<and> (\<exists>c'. u_hmap_put n al ra c obj = Inr (U_HMAP_ERR_FAIL, None, c'))"
proof -
  define c where "c = h\<lparr> h_table := map (\<lambda>_. []) (h_table h), h_queue := [],
    h_freed := (if owns h then map oid (concat (h_table h)) else []) @ h_freed h \<rparr>"
  have c: "h_opts c = h_opts h" "h_sz c = h_sz h" "h_queue c = []" "h_size c = h_size h"
    "pcy_pop c = pcy_pop h" "length (h_table c) = length (h_table h)"
    and e: "h_table c ! s = []" "concat (h_table c) = []"
    using assms(6) by (simp_all add: c_def)
  have pol: "o_policy (h_opts h) \<noteq> U_HMAP_PCY_NONE" using assms(1) by auto
  then have "u_hmap_put n al ra c obj = put_slot al c obj"
    using c(1) by (subst u_hmap_put.simps) simp
  moreover have "\<exists>c'. put_slot al c obj = Inr (U_HMAP_ERR_FAIL, None, c')"
    using assms c e(1) pol by (simp add: put_slot_def put_end_def call_pop_def queue_pop_back_def)
  moreover have "u_hmap_clear (Some h) = Some c" by (simp add: u_hmap_clear_def c_def)
  ultimately show ?thesis using c e(2) by (auto simp: u_hmap_count_def)
qed

theorem u_hmap_clear_keeps_full_witness:
  "\<exists>c c'. u_hmap_clear (Some (fm [obj_of 1 ''a''] [entry_of 1 ''a''] 1 [])) = Some c \<and> concat (h_table c) = []
    \<and> u_hmap_put 1 (True, True) (True, True, True, True) c \<lparr> oid = 2, okey = ''b'', oval = 2, opqe = False \<rparr>
        = Inr (U_HMAP_ERR_FAIL, None, c')"
  using u_hmap_clear_keeps_full [of "fm [obj_of 1 ''a''] [entry_of 1 ''a''] 1 []"
      "\<lparr> oid = 2, okey = ''b'', oval = 2, opqe = False \<rparr>" 0 1 "(True, True)" "(True, True, True, True)"]
  by (auto simp: fm_def fifo_opts_sel fifo_hash_slot)

section \<open>Linear probing\<close>

lemma linear_put_full:
  assumes "length t = N" "i < N" "\<And>j. j < n \<Longrightarrow> \<exists>x l. t ! ((i + j) mod N) = x # l \<and> cmp (okey x) k \<noteq> 0"
  shows "linear_put cmp k t n i = Inr Full"
  using assms
proof (induction n arbitrary: i)
  case (Suc n)
  obtain x l where x: "t ! i = x # l" "cmp (okey x) k \<noteq> 0" using Suc.prems(3) [of 0] Suc.prems(1,2) by auto
  have "linear_put cmp k t n ((i + 1) mod N) = Inr Full"
  proof (rule Suc.IH)
    fix j assume "j < n"
    then show "\<exists>x l. t ! (((i + 1) mod N + j) mod N) = x # l \<and> cmp (okey x) k \<noteq> 0"
      using Suc.prems(3) [of "Suc j"] by (simp add: mod_simps)
  qed (use Suc.prems in auto)
  with x Suc.prems(1,2) show ?case by simp
qed simp

text \<open>
  linear probing never looks at the slot before the one where it starts: when that is the one
  free slot of a table that a policy keeps from growing, the insertion of a new key fails.
\<close>

theorem u_hmap_linear_misses_slot:
  assumes "o_type (h_opts h) = U_HMAP_TYPE_LINEAR" "o_policy (h_opts h) \<noteq> U_HMAP_PCY_NONE" "length (h_table h) = h_size h"
    "hash_slot (h_opts h) (okey obj) (h_size h) = Inr s" "s < h_size h"
    "\<And>j. j < h_size h - 1 \<Longrightarrow>
       \<exists>x l. h_table h ! ((s + j) mod h_size h) = x # l \<and> call_comp h (okey x) (okey obj) \<noteq> 0"
  shows "u_hmap_put n al ra h obj = Inr (U_HMAP_ERR_FAIL, None, h)"
proof -
  have "linear_put (call_comp h) (okey obj) (h_table h) (h_size h - 1) s = Inr Full"
    by (rule linear_put_full [OF assms(3,5)]) (rule assms(6))
  then have "put_slot al h obj = Inr (U_HMAP_ERR_FAIL, None, h)"
    using assms(1,4) by (simp add: put_slot_def)
  then show ?thesis using assms(2) by (subst u_hmap_put.simps) simp
qed

definition linear_map :: "int u_hmap" where
  "linear_map = (fm [] [] 1 [])\<lparr> h_opts := (fifo_opts 1)\<lparr> o_type := U_HMAP_TYPE_LINEAR \<rparr>, h_size := 2,
     h_table := [[obj_of 1 ''a''], []] \<rparr>"

theorem u_hmap_linear_misses_slot_witness:
  "u_hmap_put 1 (True, True) (True, True, True, True) linear_map (obj_of 2 ''b'') = Inr (U_HMAP_ERR_FAIL, None, linear_map)"
proof (rule u_hmap_linear_misses_slot)
  have op: "o_f_hash (h_opts linear_map) = Some (Custom_hash (\<lambda>_ _. 0))" "o_options (h_opts linear_map) = 5"
    "o_f_comp (h_opts linear_map) = Some f_comp"
    using fifo_opts_sel [of 1] by (simp_all add: linear_map_def)
  show "hash_slot (h_opts linear_map) (okey (obj_of 2 ''b'')) (h_size linear_map) = Inr 0"
    by (simp add: hash_slot_def op U_HMAP_OPTS_HASH_STRONG_def)
  fix j assume "j < h_size linear_map - 1"
  then show "\<exists>x l. h_table linear_map ! ((0 + j) mod h_size linear_map) = x # l
      \<and> call_comp linear_map (okey x) (okey (obj_of 2 ''b'')) \<noteq> 0"
    by (simp add: call_comp_def op) (simp add: linear_map_def obj_of_def f_comp_def)
qed (simp_all add: linear_map_def fifo_opts_sel)

end
