(* ===== verification/Hmap_Map.thy ===== *)
theory Hmap_Map
  imports Hmap
begin

text \<open>
  The hash map with chains and without a policy as a finite map: invariant, look-up, insertion
  with growth, deletion, and the interface the clients of the map use.
\<close>

unbundle bit_operations_syntax

section \<open>Chains\<close>

definition chain_sorted :: "(string \<Rightarrow> string \<Rightarrow> int) \<Rightarrow> 'v u_hmap_o list \<Rightarrow> bool" where
  "chain_sorted cmp b = sorted_wrt (\<lambda>x y. cmp (okey x) (okey y) < 0) b"

lemma chain_sorted_Nil [simp]: "chain_sorted cmp []"
  by (simp add: chain_sorted_def)

lemma chain_sorted_Cons [simp]:
  "chain_sorted cmp (x # xs) \<longleftrightarrow> (\<forall>y \<in> set xs. cmp (okey x) (okey y) < 0) \<and> chain_sorted cmp xs"
  by (simp add: chain_sorted_def)

lemma chain_sorted_filter: "chain_sorted cmp b \<Longrightarrow> chain_sorted cmp (filter P b)"
  by (induction b) auto

lemma chain_sorted_map: "(\<And>x. x \<in> set b \<Longrightarrow> okey (f x) = okey x) \<Longrightarrow> chain_sorted cmp b \<Longrightarrow> chain_sorted cmp (map f b)"
  by (induction b) auto

text \<open>Comparison functions whose zero is equality, on strings.\<close>

locale str_order = key_order cmp for cmp :: "string \<Rightarrow> string \<Rightarrow> int" +
  assumes cmp_eq: "cmp a b = 0 \<longleftrightarrow> a = b"
begin

lemma less_trans: "cmp a b < 0 \<Longrightarrow> cmp b c < 0 \<Longrightarrow> cmp a c < 0"
proof -
  assume ab: "cmp a b < 0" and bc: "cmp b c < 0"
  then have "cmp a c \<le> 0" using cmp_trans [of a b c] by simp
  moreover have "cmp a c \<noteq> 0"
  proof
    assume "cmp a c = 0"
    then have "a = c" by (simp add: cmp_eq)
    with ab bc show False using cmp_flip [of a b] by simp
  qed
  ultimately show ?thesis by simp
qed

lemma not_less: "cmp a b \<noteq> 0 \<Longrightarrow> \<not> cmp a b < 0 \<Longrightarrow> cmp b a < 0"
  using cmp_flip [of b a] by simp

lemma less_irrefl: "\<not> cmp a a < 0"
  by (simp add: cmp_refl)

lemma chain_get_ok:
  "chain_sorted cmp b \<Longrightarrow> chain_get cmp k b = Some x \<longleftrightarrow> x \<in> set b \<and> okey x = k"
proof (induction b)
  case (Cons y ys)
  have t: "cmp (okey y) (okey z) < 0" if "z \<in> set ys" for z using Cons.prems that by simp
  consider "k = okey y" | "k \<noteq> okey y" "cmp k (okey y) < 0" | "k \<noteq> okey y" "\<not> cmp k (okey y) < 0"
    by blast
  then show ?case
  proof cases
    case 1
    then have "okey z \<noteq> k" if "z \<in> set ys" for z using t [OF that] less_irrefl by metis
    with 1 show ?thesis by (auto simp: cmp_refl)
  next
    case 2
    then have "okey z \<noteq> k" if "z \<in> set ys" for z
      using t [OF that] less_trans [of k "okey y" "okey z"] less_irrefl by metis
    with 2 show ?thesis by (auto simp: cmp_eq)
  next
    case 3 with Cons show ?thesis by (auto simp: cmp_eq)
  qed
qed simp

lemma chain_put_ok:
  "chain_sorted cmp b \<Longrightarrow>
   (case chain_put cmp obj b of
      Found x \<Rightarrow> x \<in> set b \<and> okey x = okey obj
    | Placed l \<Rightarrow> (\<forall>x \<in> set b. okey x \<noteq> okey obj) \<and> chain_sorted cmp l \<and> mset l = add_mset obj (mset b))"
proof (induction b)
  case (Cons y ys)
  have t: "cmp (okey y) (okey z) < 0" if "z \<in> set ys" for z using Cons.prems that by simp
  consider "okey obj = okey y" | "okey obj \<noteq> okey y" "cmp (okey obj) (okey y) < 0"
    | "okey obj \<noteq> okey y" "\<not> cmp (okey obj) (okey y) < 0" by blast
  then show ?case
  proof cases
    case 1 then show ?thesis by (simp add: cmp_refl)
  next
    case 2
    have less: "cmp (okey obj) (okey z) < 0" if "z \<in> set ys" for z
      using less_trans [OF 2(2) t [OF that]] .
    then have "okey z \<noteq> okey obj" if "z \<in> set ys" for z using that less_irrefl by metis
    with less 2 Cons.prems show ?thesis by (auto simp: cmp_eq)
  next
    case 3
    then have yo: "cmp (okey y) (okey obj) < 0" using not_less cmp_eq by blast
    show ?thesis
    proof (cases "ys = []")
      case True with 3 yo show ?thesis by (simp add: cmp_eq)
    next
      case False
      show ?thesis
      proof (cases "chain_put cmp obj ys")
        case (Found x)
        with 3 False Cons show ?thesis by (simp add: cmp_eq)
      next
        case (Placed l)
        then have l: "\<forall>x \<in> set ys. okey x \<noteq> okey obj" "chain_sorted cmp l" "mset l = add_mset obj (mset ys)"
          using Cons by simp_all
        have "set l = insert obj (set ys)" using l(3) by (metis set_mset_add_mset_insert set_mset_mset)
        with l 3 False Placed t yo show ?thesis by (auto simp: cmp_eq)
      qed
    qed
  qed
qed simp

end

interpretation fc: str_order f_comp
proof
  fix a b c :: string
  show "f_comp a a = 0" by (simp add: f_comp_def strcmp_refl)
  show "f_comp a b < 0 \<longleftrightarrow> 0 < f_comp b a" unfolding f_comp_def by (rule strcmp_flip)
  show "f_comp a b \<le> 0 \<Longrightarrow> f_comp b c \<le> 0 \<Longrightarrow> f_comp a c \<le> 0"
    unfolding f_comp_def by (rule strcmp_trans)
  show "f_comp a b = 0 \<longleftrightarrow> a = b" by (simp add: f_comp_def strcmp_eq)
qed

section \<open>The invariant\<close>

text \<open>Options that give a map without a policy: chains, a strict order and a hash in range.\<close>

definition good_opts :: "'v u_hmap_opts \<Rightarrow> bool" where
  "good_opts op =
     (o_type op = U_HMAP_TYPE_CHAIN \<and> o_policy op = U_HMAP_PCY_NONE
      \<and> opts_check op = U_HMAP_ERR_NONE
      \<and> (\<exists>cmp. o_f_comp op = Some cmp \<and> str_order cmp)
      \<and> (\<forall>k n. 0 < n \<and> n < 2 ^ 64 \<longrightarrow> (\<exists>s < n. hash_slot op k n = Inr s)))"

lemma f_hash_slot:
  assumes "0 < n" "n < 2 ^ 64"
  shows "unat (f_hash k (of_nat n)) < n"
proof -
  have "unat (x mod of_nat n :: size_t) < n" for x
    using assms by (simp add: unat_mod unat_size_t)
  then show ?thesis by (simp add: f_hash_def Let_def)
qed

lemma hash_slot_default:
  "o_f_hash op = Some Default_hash \<Longrightarrow> 0 < n \<Longrightarrow> n < 2 ^ 64 \<Longrightarrow> \<exists>s < n. hash_slot op k n = Inr s"
  by (simp add: hash_slot_def f_hash_slot)

definition objs :: "'v u_hmap \<Rightarrow> 'v u_hmap_o list" where
  "objs h = concat (h_table h)"

definition slots_ok :: "'v u_hmap_opts \<Rightarrow> 'v u_hmap_o list list \<Rightarrow> bool" where
  "slots_ok op t =
     (\<forall>i < length t. chain_sorted (case o_f_comp op of None \<Rightarrow> (\<lambda>_ _. - 1) | Some f \<Rightarrow> f) (t ! i)
        \<and> (\<forall>x \<in> set (t ! i). hash_slot op (okey x) (length t) = Inr i))"

definition hmap_inv :: "'v u_hmap \<Rightarrow> bool" where
  "hmap_inv h =
     (good_opts (h_opts h) \<and> \<not> pcy_op_put h \<and> \<not> pcy_op_get h
      \<and> 0 < h_size h \<and> h_size h < 2 ^ 32 \<and> length (h_table h) = h_size h
      \<and> h_threshold h = 3 * h_size h div 4 \<and> h_sz h = length (objs h)
      \<and> distinct (map oid (objs h)) \<and> slots_ok (h_opts h) (h_table h)
      \<and> (h_sz h \<le> h_threshold h \<or> h_sz h = h_threshold h + 1 \<and> o_size (h_opts h) = h_size h)
      \<and> h_px h < length primes \<and> h_size h \<le> primes ! h_px h
      \<and> o_size (h_opts h) \<le> h_size h)"

text \<open>The value of a key.\<close>

definition hmap_map :: "'v u_hmap \<Rightarrow> string \<rightharpoonup> 'v" where
  "hmap_map h = map_of (map (\<lambda>x. (okey x, oval x)) (objs h))"

lemma slots_ok_comp:
  assumes "good_opts (h_opts h)"
  shows "str_order (call_comp h)"
    "slots_ok (h_opts h) t \<longleftrightarrow> (\<forall>i < length t. chain_sorted (call_comp h) (t ! i)
       \<and> (\<forall>x \<in> set (t ! i). hash_slot (h_opts h) (okey x) (length t) = Inr i))"
  using assms by (auto simp: good_opts_def call_comp_def slots_ok_def)

lemma set_objs: "x \<in> set (objs h) \<longleftrightarrow> (\<exists>i < length (h_table h). x \<in> set (h_table h ! i))"
proof
  assume "x \<in> set (objs h)"
  then obtain b where "b \<in> set (h_table h)" "x \<in> set b" by (auto simp: objs_def)
  then show "\<exists>i < length (h_table h). x \<in> set (h_table h ! i)" by (auto simp: in_set_conv_nth [of b])
next
  assume "\<exists>i < length (h_table h). x \<in> set (h_table h ! i)"
  then show "x \<in> set (objs h)" by (auto simp: objs_def intro: nth_mem)
qed

lemma inv_slots:
  assumes "hmap_inv h"
  shows "good_opts (h_opts h)" "str_order (call_comp h)" "length (h_table h) = h_size h"
    "0 < h_size h" "h_size h < 2 ^ 64"
    "i < h_size h \<Longrightarrow> chain_sorted (call_comp h) (h_table h ! i)"
    "i < h_size h \<Longrightarrow> x \<in> set (h_table h ! i) \<Longrightarrow>
       hash_slot (h_opts h) (okey x) (h_size h) = Inr i"
proof -
  show good: "good_opts (h_opts h)" using assms by (simp add: hmap_inv_def)
  note so = slots_ok_comp [OF good]
  show "str_order (call_comp h)" by (rule so(1))
  show len: "length (h_table h) = h_size h" and "0 < h_size h" "h_size h < 2 ^ 64"
    using assms by (simp_all add: hmap_inv_def)
  have "slots_ok (h_opts h) (h_table h)" using assms by (simp add: hmap_inv_def)
  then have s: "\<forall>i < h_size h. chain_sorted (call_comp h) (h_table h ! i)
       \<and> (\<forall>x \<in> set (h_table h ! i). hash_slot (h_opts h) (okey x) (h_size h) = Inr i)"
    unfolding so(2) len .
  show "i < h_size h \<Longrightarrow> chain_sorted (call_comp h) (h_table h ! i)" using s by blast
  show "i < h_size h \<Longrightarrow> x \<in> set (h_table h ! i) \<Longrightarrow>
       hash_slot (h_opts h) (okey x) (h_size h) = Inr i" using s by blast
qed

text \<open>The keys of a map differ, as those of a chain do and those of different chains hash apart.\<close>

lemma objs_key_eq:
  assumes "hmap_inv h" "x \<in> set (objs h)" "y \<in> set (objs h)" "okey x = okey y"
  shows "x = y"
proof -
  note inv = inv_slots [OF assms(1)]
  obtain i j where ij: "i < h_size h" "x \<in> set (h_table h ! i)" "j < h_size h" "y \<in> set (h_table h ! j)"
    using assms(2,3) inv(3) by (auto simp: set_objs)
  then have "(Inr i :: nat outcome) = Inr j" using inv(7) assms(4) by metis
  then have "i = j" by simp
  then show ?thesis
    using ij assms(4) str_order.chain_get_ok [OF inv(2) inv(6) [OF ij(1)], of "okey x"]
    by (metis option.inject)
qed

lemma hmap_map_None: "hmap_map h k = None \<longleftrightarrow> (\<forall>x \<in> set (objs h). okey x \<noteq> k)"
  by (force simp: hmap_map_def map_of_eq_None_iff)

lemma hmap_map_Some:
  assumes "hmap_inv h"
  shows "hmap_map h k = Some v \<longleftrightarrow> (\<exists>x \<in> set (objs h). okey x = k \<and> oval x = v)"
proof
  assume "hmap_map h k = Some v"
  then show "\<exists>x \<in> set (objs h). okey x = k \<and> oval x = v"
    by (auto simp: hmap_map_def dest!: map_of_SomeD)
next
  assume "\<exists>x \<in> set (objs h). okey x = k \<and> oval x = v"
  then obtain x where x: "x \<in> set (objs h)" "okey x = k" "oval x = v" by blast
  then obtain w where w: "hmap_map h k = Some w" by (metis hmap_map_None not_Some_eq)
  then obtain y where "y \<in> set (objs h)" "okey y = k" "oval y = w"
    by (auto simp: hmap_map_def dest!: map_of_SomeD)
  with x objs_key_eq [OF assms] have "w = v" by metis
  with w show "hmap_map h k = Some v" by simp
qed

text \<open>Two maps agree when their pairs do.\<close>

lemma hmap_map_eqI:
  assumes "hmap_inv h" "\<And>k v. (\<exists>x \<in> set (objs h). okey x = k \<and> oval x = v) \<longleftrightarrow> m k = Some v"
  shows "hmap_map h = m"
proof
  fix k show "hmap_map h k = m k"
    using hmap_map_Some [OF assms(1)] assms(2) by (metis not_Some_eq)
qed

lemma lookup_ok:
  assumes "hmap_inv h"
  obtains r where "hmap_lookup h k = Inr r" "\<And>x. r = Some x \<longleftrightarrow> x \<in> set (objs h) \<and> okey x = k"
proof -
  note inv = inv_slots [OF assms]
  obtain i where i: "i < h_size h" "hash_slot (h_opts h) k (h_size h) = Inr i"
    using inv(1,4,5) by (auto simp: good_opts_def)
  let ?r = "chain_get (call_comp h) k (h_table h ! i)"
  have "hmap_lookup h k = Inr ?r"
    using inv(1,3) i by (simp add: hmap_lookup_def good_opts_def)
  moreover have "?r = Some x \<longleftrightarrow> x \<in> set (objs h) \<and> okey x = k" for x
  proof -
    have "?r = Some x \<longleftrightarrow> x \<in> set (h_table h ! i) \<and> okey x = k"
      using str_order.chain_get_ok [OF inv(2) inv(6) [OF i(1)]] .
    moreover have "x \<in> set (h_table h ! i)" if x: "x \<in> set (objs h)" "okey x = k"
    proof -
      obtain j where j: "j < h_size h" "x \<in> set (h_table h ! j)"
        using x(1) unfolding set_objs inv(3) by blast
      then have "(Inr i :: nat outcome) = Inr j" using inv(7) i x(2) by metis
      with j show ?thesis by simp
    qed
    moreover have "x \<in> set (objs h)" if "x \<in> set (h_table h ! i)"
      using that i inv(3) by (auto simp: set_objs)
    ultimately show ?thesis by blast
  qed
  ultimately show ?thesis using that by blast
qed

section \<open>Changes of the table\<close>

lemma objs_filter: "objs (map_table (filter P) h) = filter P (objs h)"
  by (simp add: objs_def map_table_def filter_concat)

lemma objs_map: "objs (map_table (map f) h) = map f (objs h)"
  by (simp add: objs_def map_table_def map_concat)

lemma mset_concat_update:
  assumes "i < length t" "mset l = add_mset x (mset (t ! i))"
  shows "mset (concat (t[i := l])) = add_mset x (mset (concat t))"
proof -
  have t: "t = take i t @ t ! i # drop (Suc i) t" using assms(1) by (rule id_take_nth_drop)
  have "mset (concat t) = mset (concat (take i t)) + mset (t ! i) + mset (concat (drop (Suc i) t))"
    by (subst t) (simp add: add.assoc)
  then show ?thesis
    using assms by (simp add: upd_conv_take_nth_drop)
qed

lemma table_replace_id:
  assumes "\<forall>x \<in> set (objs h). oid x = oid obj \<longrightarrow> x = obj"
  shows "table_replace (oid obj) obj h = h"
proof -
  have "map (map (\<lambda>x. if oid x = oid obj then obj else x)) (h_table h) = h_table h"
  proof (rule map_idI)
    fix b assume "b \<in> set (h_table h)"
    then have "\<forall>x \<in> set b. x \<in> set (objs h)" by (auto simp: objs_def)
    with assms show "map (\<lambda>x. if oid x = oid obj then obj else x) b = b"
      by (intro map_idI) auto
  qed
  then show ?thesis by (simp add: table_replace_def map_table_def)
qed

lemma slots_ok_map:
  assumes "slots_ok op t" "\<And>x. x \<in> set (concat t) \<Longrightarrow> okey (f x) = okey x"
  shows "slots_ok op (map (map f) t)"
proof -
  have k: "okey (f x) = okey x" if "i < length t" "x \<in> set (t ! i)" for i x
    using that assms(2) by (auto intro: nth_mem)
  show ?thesis
    using assms(1) k by (auto simp: slots_ok_def intro!: chain_sorted_map)
qed

lemma slots_ok_filter: "slots_ok op t \<Longrightarrow> slots_ok op (map (filter P) t)"
  by (auto simp: slots_ok_def chain_sorted_filter)

lemma slots_ok_update:
  assumes "slots_ok op t" "i < length t" "set l \<subseteq> insert x (set (t ! i))"
    "chain_sorted (case o_f_comp op of None \<Rightarrow> (\<lambda>_ _. - 1) | Some f \<Rightarrow> f) l"
    "hash_slot op (okey x) (length t) = Inr i"
  shows "slots_ok op (t[i := l])"
  using assms by (auto simp: slots_ok_def nth_list_update)

text \<open>The insertion of an object with a new key, and of one with a key that is there.\<close>

definition room :: "'v u_hmap \<Rightarrow> bool" where
  "room h = (h_sz h < h_threshold h \<or> h_sz h \<le> h_threshold h \<and> o_size (h_opts h) = h_size h)"

lemma put_slot_new:
  assumes "hmap_inv h" "room h" "oid obj \<notin> oid ` set (objs h)" "hmap_map h (okey obj) = None"
  shows "\<exists>h'. put_slot al h obj = Inr (U_HMAP_ERR_NONE, None, h') \<and> hmap_inv h'
    \<and> mset (objs h') = add_mset obj (mset (objs h)) \<and> h_opts h' = h_opts h \<and> h_size h' = h_size h
    \<and> h_threshold h' = h_threshold h \<and> h_sz h' = Suc (h_sz h) \<and> h_px h' = h_px h
    \<and> h_freed h' = h_freed h"
proof -
  note inv = inv_slots [OF assms(1)]
  obtain i where i: "i < h_size h" "hash_slot (h_opts h) (okey obj) (h_size h) = Inr i"
    using inv(1,4,5) by (auto simp: good_opts_def)
  have "\<forall>x \<in> set (h_table h ! i). okey x \<noteq> okey obj"
    using assms(4) i inv(3) unfolding hmap_map_None by (auto simp: set_objs)
  then obtain l where l: "chain_put (call_comp h) obj (h_table h ! i) = Placed l"
      "chain_sorted (call_comp h) l" "mset l = add_mset obj (mset (h_table h ! i))"
    using str_order.chain_put_ok [OF inv(2) inv(6) [OF i(1)], of obj]
    by (cases "chain_put (call_comp h) obj (h_table h ! i)") auto
  define h1 where "h1 = h\<lparr> h_table := (h_table h)[i := l] \<rparr>"
  have m1: "mset (objs h1) = add_mset obj (mset (objs h))"
    using mset_concat_update [of i "h_table h" l obj] l(3) i inv(3) by (simp add: objs_def h1_def)
  have s1: "set (objs h1) = insert obj (set (objs h))" using m1 by (metis set_mset_add_mset_insert set_mset_mset)
  have l1: "length (objs h1) = Suc (length (objs h))" using m1 by (metis size_add_mset size_mset)
  have d1: "distinct (map oid (objs h1))"
  proof -
    have "mset (map oid (objs h1)) = mset (oid obj # map oid (objs h))" using m1 by simp
    then have "distinct (map oid (objs h1)) = distinct (oid obj # map oid (objs h))"
      by (rule mset_eq_imp_distinct_iff)
    then show ?thesis using assms(1,3) by (simp add: hmap_inv_def)
  qed
  have rep: "table_replace (oid obj) obj h1 = h1"
    using s1 assms(3) by (intro table_replace_id) (metis image_eqI insertE)
  have sl: "slots_ok (h_opts h) ((h_table h)[i := l])"
  proof (rule slots_ok_update)
    show "slots_ok (h_opts h) (h_table h)" using assms(1) by (simp add: hmap_inv_def)
    show "i < length (h_table h)" using i inv(3) by simp
    show "set l \<subseteq> insert obj (set (h_table h ! i))"
      using l(3) by (metis set_mset_add_mset_insert set_mset_mset subset_refl)
    show "chain_sorted (case o_f_comp (h_opts h) of None \<Rightarrow> \<lambda>_ _. - 1 | Some f \<Rightarrow> f) l"
      using l(2) by (simp add: call_comp_def)
    show "hash_slot (h_opts h) (okey obj) (length (h_table h)) = Inr i" using i inv(3) by simp
  qed
  let ?h = "h1\<lparr> h_sz := Suc (h_sz h) \<rparr>"
  have o: "objs ?h = objs h1" by (simp add: objs_def)
  have "put_slot al h obj = Inr (U_HMAP_ERR_NONE, None, ?h)"
    using inv(1,3) i l(1) assms(1) rep
    by (simp add: put_slot_def good_opts_def put_end_def hmap_inv_def Let_def h1_def)
  moreover have "hmap_inv ?h"
    using assms(1,2) sl l1 d1 o by (auto simp: hmap_inv_def room_def h1_def)
  ultimately show ?thesis using m1 o by (auto simp: h1_def)
qed

lemma put_slot_old:
  assumes "hmap_inv h" "oid obj \<notin> oid ` set (objs h)" "hmap_map h (okey obj) \<noteq> None"
  shows "\<exists>rc old h'. put_slot al h obj = Inr (rc, old, h') \<and> hmap_inv h' \<and> h_opts h' = h_opts h
    \<and> h_sz h' = h_sz h
    \<and> (if o_options (h_opts h) AND U_HMAP_OPTS_NO_OVERWRITE = 0
       then rc = U_HMAP_ERR_NONE \<and> hmap_map h' = (hmap_map h)(okey obj \<mapsto> oval obj)
         \<and> oid ` set (objs h') \<subseteq> insert (oid obj) (oid ` set (objs h))
       else rc = U_HMAP_ERR_EXISTS \<and> hmap_map h' = hmap_map h \<and> objs h' = objs h)"
proof -
  note inv = inv_slots [OF assms(1)]
  obtain i where i: "i < h_size h" "hash_slot (h_opts h) (okey obj) (h_size h) = Inr i"
    using inv(1,4,5) by (auto simp: good_opts_def)
  obtain x where x: "x \<in> set (objs h)" "okey x = okey obj"
    using assms(3) by (auto simp: hmap_map_None)
  then obtain j where "j < h_size h" "x \<in> set (h_table h ! j)"
    using inv(3) by (auto simp: set_objs)
  then have xi: "x \<in> set (h_table h ! i)" using inv(7) [of j x] i x(2) by auto
  then obtain y where y: "chain_put (call_comp h) obj (h_table h ! i) = Found y"
      "y \<in> set (h_table h ! i)" "okey y = okey obj"
    using str_order.chain_put_ok [OF inv(2) inv(6) [OF i(1)], of obj] x
    by (cases "chain_put (call_comp h) obj (h_table h ! i)") auto
  have "y \<in> set (objs h)" using y i inv(3) by (auto simp: set_objs)
  then have yx: "y = x" using objs_key_eq [OF assms(1) _ x(1)] y(3) x(2) by simp
  have put: "put_slot al h obj = overwrite al h x obj"
    using inv(1,3) i y(1) yx by (simp add: put_slot_def good_opts_def)
  have np: "\<not> pcy_op_put h" using assms(1) by (simp add: hmap_inv_def)
  show ?thesis
  proof (cases "o_options (h_opts h) AND U_HMAP_OPTS_NO_OVERWRITE = 0")
    case False
    let ?h = "if owns h then o_free (oid obj) h else h"
    have "overwrite al h x obj = Inr (U_HMAP_ERR_EXISTS, (if owns h then None else Some x), ?h)"
      using False by (simp add: overwrite_def)
    moreover have "objs ?h = objs h" by (simp add: objs_def o_free_def)
    moreover have "hmap_inv ?h" using assms(1) by (auto simp: hmap_inv_def objs_def o_free_def)
    ultimately show ?thesis
      unfolding put using False by (auto simp: hmap_map_def o_free_def)
  next
    case True
    define f where "f = (\<lambda>y. if oid y = oid x then obj else y)"
    define h1 where "h1 = table_replace (oid x) obj h"
    have o1: "objs h1 = map f (objs h)" by (simp add: h1_def table_replace_def objs_map f_def)
    have inj: "y = z" if "y \<in> set (objs h)" "z \<in> set (objs h)" "oid y = oid z" for y z
      using assms(1) that by (auto simp: hmap_inv_def distinct_map inj_on_def)
    have fk: "okey (f y) = okey y" if "y \<in> set (objs h)" for y
      using inj [OF that x(1)] x(2) by (auto simp: f_def)
    have tab: "h_table h1 = map (map f) (h_table h)"
      by (simp add: h1_def table_replace_def map_table_def f_def)
    have fld: "h_opts h1 = h_opts h" "h_sz h1 = h_sz h" "h_size h1 = h_size h" "h_px h1 = h_px h"
      "h_threshold h1 = h_threshold h" "pcy_op_put h1 = pcy_op_put h" "pcy_op_get h1 = pcy_op_get h"
      by (simp_all add: h1_def table_replace_def map_table_def)
    have "inj_on (\<lambda>i. if i = oid x then oid obj else i) (oid ` set (objs h))"
      using assms(2) by (auto simp: inj_on_def) (metis image_eqI)+
    moreover have "map oid (map f (objs h)) = map (\<lambda>i. if i = oid x then oid obj else i) (map oid (objs h))"
      by (simp add: f_def)
    moreover have "distinct (map oid (objs h))" using assms(1) by (simp add: hmap_inv_def)
    ultimately have d1: "distinct (map oid (objs h1))"
      unfolding o1 by (metis distinct_map set_map)
    have "slots_ok (h_opts h) (h_table h1)"
      unfolding tab using assms(1) fk by (intro slots_ok_map) (auto simp: hmap_inv_def objs_def)
    then have i1: "hmap_inv h1"
      using assms(1) d1 o1 tab by (auto simp: hmap_inv_def fld)
    have m1: "hmap_map h1 = (hmap_map h)(okey obj \<mapsto> oval obj)"
    proof (rule hmap_map_eqI [OF i1])
      fix k v
      show "(\<exists>y \<in> set (objs h1). okey y = k \<and> oval y = v)
          \<longleftrightarrow> ((hmap_map h)(okey obj \<mapsto> oval obj)) k = Some v" (is "?l \<longleftrightarrow> ?r")
      proof (cases "k = okey obj")
        case True
        have "y = obj" if y: "y \<in> set (objs h1)" "okey y = k" for y
        proof -
          obtain z where z: "z \<in> set (objs h)" "y = f z" using y(1) o1 by auto
          then have "okey z = okey x" using fk y(2) True x(2) by simp
          then have "z = x" using objs_key_eq [OF assms(1) z(1) x(1)] by simp
          with z show ?thesis by (simp add: f_def)
        qed
        moreover have "obj \<in> set (objs h1)" using x(1) o1 by (force simp: f_def)
        ultimately show ?thesis using True by auto
      next
        case False
        have "?l \<longleftrightarrow> (\<exists>y \<in> set (objs h). okey y = k \<and> oval y = v)"
          using o1 fk False x(2) by (force simp: f_def)
        then show ?thesis using False hmap_map_Some [OF assms(1), of k v] by simp
      qed
    qed
    let ?h = "if owns h then o_free (oid x) h1 else h1"
    have "overwrite al h x obj = Inr (U_HMAP_ERR_NONE, (if owns h then None else Some x), ?h)"
      using True np by (simp add: overwrite_def h1_def Let_def)
    moreover have oh: "objs ?h = objs h1" by (simp add: objs_def o_free_def)
    moreover have "hmap_inv ?h" using i1 by (auto simp: hmap_inv_def objs_def o_free_def)
    moreover have "hmap_map ?h = hmap_map h1" by (simp add: hmap_map_def oh)
    moreover have "oid ` set (objs ?h) \<subseteq> insert (oid obj) (oid ` set (objs h))"
      unfolding oh o1 by (auto simp: f_def)
    ultimately show ?thesis
      unfolding put using True m1 fld by (auto simp: o_free_def)
  qed
qed

section \<open>Growth\<close>

lemma primes_sorted: "sorted primes"
  unfolding primes_def by (simp only: sorted2 sorted1 simp_thms) simp

lemma primes_range: "list_all (\<lambda>p. 0 < p \<and> p < 2 ^ 32) primes"
  by (simp add: primes_def)

lemma prime_from_sound:
  "prime_from n i ps = Some (p, j) \<Longrightarrow> i \<le> j \<and> j < i + length ps \<and> p = ps ! (j - i) \<and> n \<le> p"
proof (induction ps arbitrary: i)
  case (Cons q ps)
  show ?case
  proof (cases "n \<le> q")
    case False
    then have "Suc i \<le> j \<and> j < Suc i + length ps \<and> p = ps ! (j - Suc i) \<and> n \<le> p"
      using Cons.IH [of "Suc i"] Cons.prems by simp
    moreover from this have "j - i = Suc (j - Suc i)" by (elim conjE) arith
    ultimately show ?thesis by simp
  qed (use Cons in simp)
qed simp

lemma next_prime_sound:
  assumes "next_prime n i = Some (p, j)" "i < length primes"
  shows "j < length primes" "p = primes ! j" "n \<le> p" "primes ! i \<le> p" "0 < p" "p < 2 ^ 32"
proof -
  have "prime_from n i (drop i primes) = Some (p, j)"
    using assms(1) by (simp add: next_prime_def split: if_splits)
  note j = prime_from_sound [OF this]
  from j have ij: "i \<le> j" "j < i + length (drop i primes)" "p = drop i primes ! (j - i)" "n \<le> p"
    by blast+
  from ij show "j < length primes" "p = primes ! j" "n \<le> p" using assms(2) by auto
  then show "primes ! i \<le> p" using ij primes_sorted by (simp add: sorted_nth_mono)
  show "0 < p" "p < 2 ^ 32"
    using primes_range \<open>j < length primes\<close> \<open>p = primes ! j\<close> by (auto simp: list_all_length)
qed

lemma prime_from_self: "sorted ps \<Longrightarrow> p \<in> set ps \<Longrightarrow> \<exists>j. prime_from p i ps = Some (p, j)"
  by (induction ps arbitrary: i) (auto intro: antisym)

lemma next_prime_self: "j < length primes \<Longrightarrow> \<exists>i. next_prime (primes ! j) 0 = Some (primes ! j, i)"
proof -
  assume j: "j < length primes"
  then have "primes ! j \<noteq> 0" using primes_range by (auto simp: list_all_length)
  then show ?thesis
    using prime_from_self [OF primes_sorted, of "primes ! j" 0] j by (simp add: next_prime_def)
qed

lemma hash_slot_upd [simp]:
  "hash_slot (op\<lparr> o_size := p \<rparr>) k n = hash_slot op k n"
  "hash_slot (op\<lparr> o_f_str := b \<rparr>) k n = hash_slot op k n"
  by (cases "o_f_hash op"; simp add: hash_slot_def split: hash_fun.split)+

lemma good_opts_size [simp]: "0 < p \<Longrightarrow> good_opts op \<Longrightarrow> good_opts (op\<lparr> o_size := p \<rparr>)"
  by (auto simp: good_opts_def opts_check_def split: if_splits)

lemma opts_check_str [simp]: "opts_check (op\<lparr> o_f_str := b \<rparr>) = opts_check op"
  by (simp add: opts_check_def)

lemma good_opts_str [simp]: "good_opts (op\<lparr> o_f_str := b \<rparr>) = good_opts op"
  by (simp add: good_opts_def)

text \<open>A new map for a prime number of slots.\<close>

lemma u_hmap_new_ok:
  assumes "good_opts op" "next_prime (o_size op) 0 = Some (p, i)"
  shows "\<exists>nm. u_hmap_new (Some op) True True True = (U_HMAP_ERR_NONE, Some nm) \<and> hmap_inv nm
    \<and> objs nm = [] \<and> h_size nm = p \<and> o_size (h_opts nm) = o_size op
    \<and> o_options (h_opts nm) = o_options op \<and> h_sz nm = 0 \<and> h_freed nm = []"
proof -
  define o2 where "o2 = (if \<not> o_f_str op \<and> (o_key_type op = U_HMAP_OPTS_DATATYPE_STRING
      \<or> o_val_type op = U_HMAP_OPTS_DATATYPE_STRING) then op\<lparr> o_f_str := True \<rparr> else op)"
  have o2: "good_opts o2" "o_size o2 = o_size op" "o_options o2 = o_options op"
    using assms(1) by (simp_all add: o2_def)
  have 0: "0 < length primes" by (simp add: primes_def)
  note np = next_prime_sound [OF assms(2) 0]
  define nm where "nm = pcy_setup
    \<lparr> h_opts = o2, h_sz = 0, h_size = p, h_threshold = 3 * p div 4, h_px = i, pcy_push = None,
      pcy_pop = None, pcy_op_put = False, pcy_op_get = False, h_queue = [],
      h_table = replicate p [], h_freed = [] \<rparr>"
  have pol: "o_policy o2 = U_HMAP_PCY_NONE" "opts_check o2 = U_HMAP_ERR_NONE"
    using o2(1) by (simp_all add: good_opts_def)
  have "u_hmap_new (Some op) True True True = (U_HMAP_ERR_NONE, Some nm)"
    using pol o2(2) assms(2)
    by (simp add: u_hmap_new_def u_hmap_opts_new_def o2_def [symmetric] nm_def)
  moreover have "hmap_inv nm"
    using o2(1,2) np pol
    by (auto simp: hmap_inv_def nm_def pcy_setup_def objs_def slots_ok_def)
  ultimately show ?thesis
    using o2 pol by (auto simp: nm_def pcy_setup_def objs_def)
qed

text \<open>The move of the objects of one map into a new map that has room for them all.\<close>

definition same_shape :: "'v u_hmap \<Rightarrow> 'v u_hmap \<Rightarrow> bool" where
  "same_shape h h' = (h_opts h' = h_opts h \<and> h_size h' = h_size h \<and> h_threshold h' = h_threshold h
     \<and> h_px h' = h_px h \<and> h_freed h' = h_freed h)"

lemma put_no_growth:
  "h_sz h < h_threshold h \<Longrightarrow> u_hmap_put n al ra h obj = put_slot al h obj"
  by (subst u_hmap_put.simps) simp

lemma copy_chain_ok:
  assumes "hmap_inv to" "distinct (map oid (xs @ objs to))" "distinct (map okey (xs @ objs to))"
    "h_sz to + length xs \<le> h_threshold to"
  shows "\<exists>to'. copy_chain (u_hmap_put n al ra) to xs = Inr (True, to', []) \<and> hmap_inv to'
    \<and> mset (objs to') = mset xs + mset (objs to) \<and> same_shape to to' \<and> h_sz to' = h_sz to + length xs"
  using assms
proof (induction xs arbitrary: to)
  case (Cons x xs)
  have r: "h_sz to < h_threshold to" using Cons.prems(4) by simp
  have n: "oid x \<notin> oid ` set (objs to)" "hmap_map to (okey x) = None"
    using Cons.prems(2,3) by (simp_all add: hmap_map_None image_iff) metis
  obtain t1 where t1: "put_slot al to x = Inr (U_HMAP_ERR_NONE, None, t1)" "hmap_inv t1"
      "mset (objs t1) = add_mset x (mset (objs to))" "same_shape to t1" "h_sz t1 = Suc (h_sz to)"
    using put_slot_new [OF Cons.prems(1) _ n, of al] r by (auto simp: room_def same_shape_def)
  have p: "mset (xs @ objs t1) = mset (x # xs @ objs to)" using t1(3) by simp
  have d: "distinct (map oid (xs @ objs t1))" "distinct (map okey (xs @ objs t1))"
    using Cons.prems(2,3) p by (metis append_Cons mset_map mset_eq_imp_distinct_iff)+
  obtain t2 where t2: "copy_chain (u_hmap_put n al ra) t1 xs = Inr (True, t2, [])" "hmap_inv t2"
      "mset (objs t2) = mset xs + mset (objs t1)" "same_shape t1 t2" "h_sz t2 = h_sz t1 + length xs"
    using Cons.IH [OF t1(2) d] Cons.prems(4) t1(4,5) by (auto simp: same_shape_def)
  have "same_shape to t2" using t1(4) t2(4) by (simp add: same_shape_def)
  with t1 t2 put_no_growth [OF r, of n al ra x] show ?case by auto
qed (auto simp: same_shape_def)

lemma copy_table_ok:
  assumes "hmap_inv to" "distinct (map oid (concat t @ objs to))"
    "distinct (map okey (concat t @ objs to))" "h_sz to + length (concat t) \<le> h_threshold to"
  shows "\<exists>to' t'. copy_table (u_hmap_put n al ra) to t = Inr (True, to', t') \<and> hmap_inv to'
    \<and> mset (objs to') = mset (concat t) + mset (objs to) \<and> same_shape to to'
    \<and> h_sz to' = h_sz to + length (concat t)"
  using assms
proof (induction t arbitrary: to)
  case (Cons b bs)
  have d: "distinct (map oid (b @ objs to))" "distinct (map okey (b @ objs to))"
    using Cons.prems(2,3) by auto
  obtain t1 where t1: "copy_chain (u_hmap_put n al ra) to b = Inr (True, t1, [])" "hmap_inv t1"
      "mset (objs t1) = mset b + mset (objs to)" "same_shape to t1" "h_sz t1 = h_sz to + length b"
    using copy_chain_ok [OF Cons.prems(1) d, of n al ra] Cons.prems(4) by auto
  have p: "mset (concat bs @ objs t1) = mset (concat (b # bs) @ objs to)" using t1(3) by simp
  have d1: "distinct (map oid (concat bs @ objs t1))" "distinct (map okey (concat bs @ objs t1))"
    using Cons.prems(2,3) p by (metis mset_map mset_eq_imp_distinct_iff)+
  obtain t2 tb where t2: "copy_table (u_hmap_put n al ra) t1 bs = Inr (True, t2, tb)" "hmap_inv t2"
      "mset (objs t2) = mset (concat bs) + mset (objs t1)" "same_shape t1 t2"
      "h_sz t2 = h_sz t1 + length (concat bs)"
    using Cons.IH [OF t1(2) d1] Cons.prems(4) t1(4,5) by (auto simp: same_shape_def)
  have "same_shape to t2" using t1(4) t2(4) by (simp add: same_shape_def)
  with t1 t2 show ?case by auto
qed (auto simp: same_shape_def)

abbreviation ok_ra :: ralloc where "ok_ra \<equiv> (True, True, True, True)"

lemma hash_opts_cong:
  "h_opts h' = h_opts h \<Longrightarrow> objs h' = objs h \<Longrightarrow> hmap_map h' = hmap_map h"
  by (simp add: hmap_map_def)

lemma distinct_keys:
  assumes "hmap_inv h"
  shows "distinct (map okey (objs h))"
proof -
  have "distinct (objs h)" using assms by (simp add: hmap_inv_def distinct_map)
  then show ?thesis using objs_key_eq [OF assms] by (simp add: distinct_map inj_on_def)
qed

lemma map_mset_eq:
  assumes "hmap_inv h" "hmap_inv h'" "mset (objs h') = mset (objs h)"
  shows "hmap_map h' = hmap_map h"
proof (rule hmap_map_eqI [OF assms(2)])
  fix k v
  have "set (objs h') = set (objs h)" using assms(3) by (metis set_mset_mset)
  then show "(\<exists>x \<in> set (objs h'). okey x = k \<and> oval x = v) \<longleftrightarrow> hmap_map h k = Some v"
    using hmap_map_Some [OF assms(1)] by simp
qed

lemma hmap_resize_ok:
  assumes "hmap_inv h"
  shows "(next_prime (3 * o_size (h_opts h)) (h_px h) = None
       \<and> hmap_resize (u_hmap_put n al ra) ok_ra h = Inr (False, h))
    \<or> (\<exists>h'. hmap_resize (u_hmap_put n al ra) ok_ra h = Inr (True, h') \<and> hmap_inv h' \<and> room h'
       \<and> mset (objs h') = mset (objs h) \<and> o_options (h_opts h') = o_options (h_opts h)
       \<and> h_sz h' = h_sz h)"
proof (cases "next_prime (3 * o_size (h_opts h)) (h_px h)")
  case None
  then show ?thesis
    using assms by (simp add: hmap_resize_def hmap_inv_def good_opts_def)
next
  case (Some pi)
  obtain p i where pi: "pi = (p, i)" by (cases pi)
  have px: "h_px h < length primes" "h_size h \<le> primes ! h_px h" using assms by (simp_all add: hmap_inv_def)
  note np = next_prime_sound [OF Some [unfolded pi] px(1)]
  obtain j where j: "next_prime p 0 = Some (p, j)" using next_prime_self [OF np(1)] np(2) by auto
  have g: "good_opts ((h_opts h)\<lparr> o_size := p \<rparr>)"
    using assms np(5) by (simp add: hmap_inv_def)
  obtain nm where nm: "u_hmap_new (Some ((h_opts h)\<lparr> o_size := p \<rparr>)) True True True = (U_HMAP_ERR_NONE, Some nm)"
      "hmap_inv nm" "objs nm = []" "h_size nm = p" "o_size (h_opts nm) = p"
      "o_options (h_opts nm) = o_options (h_opts h)" "h_sz nm = 0" "h_freed nm = []"
    using u_hmap_new_ok [OF g] j by auto
  have thr: "h_threshold nm = 3 * p div 4" "h_threshold h = 3 * h_size h div 4" "0 < h_size h"
    using nm(2,4) assms by (auto simp: hmap_inv_def)
  have le: "h_sz h \<le> h_threshold nm"
  proof (cases "h_sz h \<le> h_threshold h")
    case True
    have "h_size h \<le> p" using px(2) np(4) by simp
    then have "3 * h_size h div 4 \<le> 3 * p div 4" by (intro div_le_mono) simp
    with True thr show ?thesis by simp
  next
    case False
    then have "h_sz h = h_threshold h + 1" "o_size (h_opts h) = h_size h"
      using assms by (auto simp: hmap_inv_def)
    moreover from this have "3 * h_size h \<le> p" using np(3) by simp
    moreover have "3 * s div 4 + 1 \<le> 3 * q div 4" if "3 * s \<le> q" "0 < s" for s q :: nat
    proof -
      have "(3 * s + 4) div 4 \<le> 3 * q div 4" by (rule div_le_mono) (use that in simp)
      moreover have "(3 * s + 4) div 4 = 3 * s div 4 + 1" by simp
      ultimately show ?thesis by simp
    qed
    ultimately show ?thesis using thr by simp
  qed
  define h2 where "h2 = h\<lparr> h_px := i, h_opts := (h_opts h)\<lparr> o_options := 0 \<rparr> \<rparr>"
  have tab: "h_table h2 = h_table h" "concat (h_table h) = objs h" by (simp_all add: h2_def objs_def)
  have "distinct (map oid (objs h))" "h_sz h = length (objs h)" using assms by (simp_all add: hmap_inv_def)
  then obtain t t' where t: "copy_table (u_hmap_put n al ra) nm (h_table h) = Inr (True, t, t')" "hmap_inv t"
      "mset (objs t) = mset (objs h)" "same_shape nm t" "h_sz t = h_sz h"
    using copy_table_ok [OF nm(2), of "h_table h" n al ra] distinct_keys [OF assms] nm(3,7) le tab by auto
  let ?h = "t\<lparr> h_freed := h_freed t @ h_freed h \<rparr>"
  have o: "objs ?h = objs t" by (simp add: objs_def)
  have "hmap_resize (u_hmap_put n al ra) ok_ra h = Inr (True, ?h)"
    using assms Some pi nm(1) t(1) tab(1)
    by (simp add: hmap_resize_def hmap_inv_def good_opts_def u_hmap_copy_def h2_def [symmetric] Let_def)
  moreover have "hmap_inv ?h" using t(2) by (auto simp: hmap_inv_def objs_def)
  moreover have "room ?h" using t(4,5) nm(4,5) le by (simp add: room_def same_shape_def)
  ultimately show ?thesis
    using t(3-5) o nm(6) by (auto simp: same_shape_def)
qed

text \<open>The effect of an insertion that finds room: a new key enters, an old one obeys the options.\<close>

definition put_post :: "'v u_hmap \<Rightarrow> 'v u_hmap_o \<Rightarrow> u_hmap_ret \<Rightarrow> 'v u_hmap \<Rightarrow> bool" where
  "put_post h obj rc h' =
     (if hmap_map h (okey obj) = None
      then rc = U_HMAP_ERR_NONE \<and> hmap_map h' = (hmap_map h)(okey obj \<mapsto> oval obj)
        \<and> h_sz h' = Suc (h_sz h)
      else h_sz h' = h_sz h
        \<and> (if o_options (h_opts h) AND U_HMAP_OPTS_NO_OVERWRITE = 0
           then rc = U_HMAP_ERR_NONE \<and> hmap_map h' = (hmap_map h)(okey obj \<mapsto> oval obj)
           else rc = U_HMAP_ERR_EXISTS \<and> hmap_map h' = hmap_map h))"

text \<open>
  The insertion: it either meets the limit of the table of primes and leaves the pairs alone, or
  enters a new key, or finds the key and obeys the overwrite option. One level of growth is enough.
\<close>

lemma u_hmap_put_ok:
  assumes "hmap_inv h" "oid obj \<notin> oid ` set (objs h)"
  shows "\<exists>rc old h'. u_hmap_put (Suc n) al ok_ra h obj = Inr (rc, old, h') \<and> hmap_inv h'
    \<and> oid ` set (objs h') \<subseteq> insert (oid obj) (oid ` set (objs h))
    \<and> o_options (h_opts h') = o_options (h_opts h)
    \<and> (rc = U_HMAP_ERR_FAIL \<and> hmap_map h' = hmap_map h \<and> h_threshold h \<le> h_sz h
         \<and> next_prime (3 * o_size (h_opts h)) (h_px h) = None
       \<or> put_post h obj rc h')"
proof -
  have slot: "\<exists>rc old h'. put_slot al g obj = Inr (rc, old, h') \<and> hmap_inv h'
    \<and> oid ` set (objs h') \<subseteq> insert (oid obj) (oid ` set (objs h))
    \<and> o_options (h_opts h') = o_options (h_opts h)
    \<and> put_post h obj rc h'"
    if g: "hmap_inv g" "room g" "mset (objs g) = mset (objs h)" "o_options (h_opts g) = o_options (h_opts h)"
      "h_sz g = h_sz h" for g
  proof -
    have set: "set (objs g) = set (objs h)" using g(3) by (metis set_mset_mset)
    have fresh: "oid obj \<notin> oid ` set (objs g)" using assms(2) set by simp
    have m: "hmap_map g = hmap_map h" by (rule map_mset_eq [OF assms(1) g(1,3)])
    show ?thesis
    proof (cases "hmap_map h (okey obj) = None")
      case True
      then obtain h' where h': "put_slot al g obj = Inr (U_HMAP_ERR_NONE, None, h')" "hmap_inv h'"
          "mset (objs h') = add_mset obj (mset (objs g))" "h_opts h' = h_opts g" "h_sz h' = Suc (h_sz g)"
        using put_slot_new [OF g(1,2) fresh, of al] m by auto
      have s': "set (objs h') = insert obj (set (objs h))"
        using h'(3) set by (metis set_mset_add_mset_insert set_mset_mset)
      have "hmap_map h' = (hmap_map h)(okey obj \<mapsto> oval obj)"
      proof (rule hmap_map_eqI [OF h'(2)])
        fix k v
        show "(\<exists>x \<in> set (objs h'). okey x = k \<and> oval x = v)
            \<longleftrightarrow> ((hmap_map h)(okey obj \<mapsto> oval obj)) k = Some v"
          using True hmap_map_Some [OF assms(1), of k v] s' by (auto simp: hmap_map_None)
      qed
      with h' s' g True show ?thesis by (auto simp: put_post_def)
    next
      case False
      then obtain rc old h' where "put_slot al g obj = Inr (rc, old, h')" "hmap_inv h'" "h_opts h' = h_opts g"
          "h_sz h' = h_sz g" "if o_options (h_opts g) AND U_HMAP_OPTS_NO_OVERWRITE = 0
       then rc = U_HMAP_ERR_NONE \<and> hmap_map h' = (hmap_map g)(okey obj \<mapsto> oval obj)
         \<and> oid ` set (objs h') \<subseteq> insert (oid obj) (oid ` set (objs g))
       else rc = U_HMAP_ERR_EXISTS \<and> hmap_map h' = hmap_map g \<and> objs h' = objs g"
        using put_slot_old [OF g(1) fresh, of al] m by auto
      with g set m False show ?thesis by (auto simp: put_post_def split: if_splits)
    qed
  qed
  have pol: "o_policy (h_opts h) = U_HMAP_PCY_NONE" using assms(1) by (simp add: hmap_inv_def good_opts_def)
  show ?thesis
  proof (cases "h_threshold h \<le> h_sz h")
    case False
    then have "u_hmap_put (Suc n) al ok_ra h obj = put_slot al h obj" by (intro put_no_growth) simp
    moreover have "room h" using False by (simp add: room_def)
    ultimately show ?thesis using slot [OF assms(1)] by auto
  next
    case True
    then have put: "u_hmap_put (Suc n) al ok_ra h obj =
        obind (hmap_resize (u_hmap_put n al ok_ra) ok_ra h)
          (\<lambda>(ok, h1). if \<not> ok then Inr (U_HMAP_ERR_FAIL, None, h1) else put_slot al h1 obj)"
      using pol by (subst u_hmap_put.simps) simp
    from hmap_resize_ok [OF assms(1), of n al ok_ra] show ?thesis
    proof (elim disjE exE conjE)
      assume "next_prime (3 * o_size (h_opts h)) (h_px h) = None"
        "hmap_resize (u_hmap_put n al ok_ra) ok_ra h = Inr (False, h)"
      with put True assms(1) show ?thesis by auto
    next
      fix g assume g: "hmap_resize (u_hmap_put n al ok_ra) ok_ra h = Inr (True, g)" "hmap_inv g" "room g"
        "mset (objs g) = mset (objs h)" "o_options (h_opts g) = o_options (h_opts h)" "h_sz g = h_sz h"
      with put have "u_hmap_put (Suc n) al ok_ra h obj = put_slot al g obj" by simp
      with slot [OF g(2-)] show ?thesis by auto
    qed
  qed
qed

section \<open>Look-up and deletion\<close>

lemma u_hmap_get_ok:
  assumes "hmap_inv h"
  shows "case hmap_map h k of
      None \<Rightarrow> u_hmap_get al (Some h) (Some k) = Inr (U_HMAP_ERR_FAIL, None, Some h)
    | Some v \<Rightarrow> \<exists>x. u_hmap_get al (Some h) (Some k) = Inr (U_HMAP_ERR_NONE, Some x, Some h)
        \<and> okey x = k \<and> oval x = v"
proof -
  obtain r where r: "hmap_lookup h k = Inr r" "\<And>x. r = Some x \<longleftrightarrow> x \<in> set (objs h) \<and> okey x = k"
    using lookup_ok [OF assms] by blast
  have np: "\<not> pcy_op_get h" using assms by (simp add: hmap_inv_def)
  show ?thesis
  proof (cases r)
    case None
    then have "hmap_map h k = None" using r(2) by (simp add: hmap_map_None)
    with None r(1) show ?thesis by (simp add: u_hmap_get_def)
  next
    case (Some x)
    then have "okey x = k" "hmap_map h k = Some (oval x)"
      using r(2) hmap_map_Some [OF assms] by blast+
    with Some r(1) np show ?thesis by (simp add: u_hmap_get_def)
  qed
qed

lemma u_hmap_del_ok:
  assumes "hmap_inv h"
  shows "if hmap_map h k = None then u_hmap_del (Some h) (Some k) = Inr (U_HMAP_ERR_FAIL, None, Some h)
    else \<exists>old h'. u_hmap_del (Some h) (Some k) = Inr (U_HMAP_ERR_NONE, old, Some h') \<and> hmap_inv h'
      \<and> hmap_map h' = (hmap_map h)(k := None) \<and> h_sz h = Suc (h_sz h')
      \<and> set (objs h') \<subseteq> set (objs h) \<and> h_opts h' = h_opts h"
proof -
  obtain r where r: "hmap_lookup h k = Inr r" "\<And>x. r = Some x \<longleftrightarrow> x \<in> set (objs h) \<and> okey x = k"
    using lookup_ok [OF assms] by blast
  show ?thesis
  proof (cases r)
    case None
    then have "hmap_map h k = None" using r(2) by (simp add: hmap_map_None)
    with None r(1) show ?thesis by (simp add: u_hmap_del_def)
  next
    case (Some x)
    then have x: "x \<in> set (objs h)" "okey x = k" using r(2) by auto
    define h1 where "h1 = table_remove (oid x) h"
    have o1: "objs h1 = filter (\<lambda>y. oid y \<noteq> oid x) (objs h)"
      by (simp add: h1_def table_remove_def objs_filter)
    have d: "distinct (map oid (objs h))" using assms by (simp add: hmap_inv_def)
    have ox: "oid y = oid x \<longleftrightarrow> y = x" if "y \<in> set (objs h)" for y
      using d that x(1) by (auto simp: distinct_map inj_on_def)
    have "filter (\<lambda>y. oid y \<noteq> oid x) (objs h) = filter (\<lambda>y. y \<noteq> x) (objs h)"
      using ox by (intro filter_cong) auto
    also have "\<dots> = remove1 x (objs h)"
      using d by (simp add: distinct_map distinct_remove1_removeAll removeAll_filter_not_eq eq_commute)
    finally have "length (objs h) = Suc (length (objs h1))"
      using x(1) o1 by (simp add: length_remove1) (metis Suc_pred length_pos_if_in_set)
    moreover have "h_sz h = length (objs h)" "h_sz h < 2 ^ 64"
      using assms by (auto simp: hmap_inv_def)
    ultimately have sz: "size_sub (h_sz h) 1 = length (objs h1)" "h_sz h = Suc (length (objs h1))"
      by (simp_all add: size_sub_le)
    define h2 where "h2 = (if owns h then o_free (oid x) h1 else h1)\<lparr> h_sz := size_sub (h_sz h) 1 \<rparr>"
    have fld: "h_opts h2 = h_opts h" "h_size h2 = h_size h" "h_px h2 = h_px h" "h_threshold h2 = h_threshold h"
      "pcy_op_put h2 = pcy_op_put h" "pcy_op_get h2 = pcy_op_get h"
      "h_table h2 = map (filter (\<lambda>y. oid y \<noteq> oid x)) (h_table h)" "objs h2 = objs h1"
      using sz(1) by (simp_all add: h2_def h1_def table_remove_def map_table_def o_free_def objs_def)
    have hsz: "h_sz h2 = length (objs h1)" unfolding h2_def sz(1) [symmetric] by simp
    have "distinct (map oid (objs h1))" using d unfolding o1 by (rule distinct_map_filter)
    moreover have "slots_ok (h_opts h) (h_table h2)"
      unfolding fld using assms by (intro slots_ok_filter) (simp add: hmap_inv_def)
    ultimately have i2: "hmap_inv h2"
      using assms sz(2) fld hsz by (auto simp: hmap_inv_def)
    have "hmap_map h2 = (hmap_map h)(k := None)"
    proof (rule hmap_map_eqI [OF i2])
      fix k' v
      have "y \<in> set (objs h2) \<longleftrightarrow> y \<in> set (objs h) \<and> okey y \<noteq> k" for y
        using o1 fld(8) ox x objs_key_eq [OF assms, of y x] by auto
      then show "(\<exists>y \<in> set (objs h2). okey y = k' \<and> oval y = v) \<longleftrightarrow> ((hmap_map h)(k := None)) k' = Some v"
        using hmap_map_Some [OF assms, of k' v] by auto
    qed
    moreover have "u_hmap_del (Some h) (Some k) = Inr (U_HMAP_ERR_NONE, (if owns h then None else Some x), Some h2)"
      using r(1) Some
      by (simp add: u_hmap_del_def h1_def [symmetric] h2_def Let_def)
        (simp add: h1_def table_remove_def map_table_def o_free_def)
    moreover have "hmap_map h k \<noteq> None" using x hmap_map_None by blast
    ultimately show ?thesis using i2 sz(2) fld hsz o1 by auto
  qed
qed

section \<open>The interface of a map and its client\<close>

text \<open>
  A map that enters a key once. Loading a list of pairs succeeds only for different keys, and then
  the map is the one of the list.
\<close>

fun load :: "('s \<Rightarrow> 'k \<Rightarrow> 'v \<Rightarrow> 's option) \<Rightarrow> 's \<Rightarrow> ('k \<times> 'v) list \<Rightarrow> 's option" where
  "load put s [] = Some s"
| "load put s ((k, v) # xs) = (case put s k v of None \<Rightarrow> None | Some t \<Rightarrow> load put t xs)"

locale once_map =
  fixes inv :: "'s \<Rightarrow> bool" and lookup :: "'s \<Rightarrow> 'k \<rightharpoonup> 'v"
    and put :: "'s \<Rightarrow> 'k \<Rightarrow> 'v \<Rightarrow> 's option" and get :: "'s \<Rightarrow> 'k \<Rightarrow> 'v option"
    and del :: "'s \<Rightarrow> 'k \<Rightarrow> 's option"
  assumes get_law: "inv s \<Longrightarrow> get s k = lookup s k"
    and put_law: "inv s \<Longrightarrow> put s k v = Some t \<Longrightarrow>
      inv t \<and> lookup s k = None \<and> lookup t = (lookup s)(k \<mapsto> v)"
    and del_law: "inv s \<Longrightarrow>
      (case del s k of None \<Rightarrow> lookup s k = None
       | Some t \<Rightarrow> inv t \<and> lookup s k \<noteq> None \<and> lookup t = (lookup s)(k := None))"
begin

lemma load_ok:
  assumes "inv s" "load put s xs = Some t"
  shows "inv t \<and> distinct (map fst xs) \<and> (\<forall>k \<in> fst ` set xs. lookup s k = None)
    \<and> lookup t = lookup s ++ map_of xs"
  using assms
proof (induction xs arbitrary: s)
  case (Cons kv xs)
  obtain k v where kv: "kv = (k, v)" by (cases kv)
  obtain u where u: "put s k v = Some u" "load put u xs = Some t"
    using Cons.prems(2) kv by (auto split: option.splits)
  have p: "inv u" "lookup s k = None" "lookup u = (lookup s)(k \<mapsto> v)"
    using put_law [OF Cons.prems(1) u(1)] by auto
  have ih: "inv t" "distinct (map fst xs)" "\<forall>k \<in> fst ` set xs. lookup u k = None"
    "lookup t = lookup u ++ map_of xs"
    using Cons.IH [OF p(1) u(2)] by auto
  have k: "k \<notin> fst ` set xs" using ih(3) p(3) by fastforce
  then have "map_of xs k = None" by (simp add: map_of_eq_None_iff)
  then have "lookup t = lookup s ++ map_of ((k, v) # xs)"
    unfolding ih(4) p(3) by (intro ext) (auto simp: map_add_def split: option.splits)
  moreover have "\<forall>k' \<in> fst ` set xs. lookup s k' = None" using ih(3) p(3) k by (metis fun_upd_other)
  ultimately show ?case using ih(1,2) k p(2) unfolding kv by (auto simp del: map_of.simps)
qed simp

lemma get_after_load:
  assumes "inv s" "lookup s = Map.empty" "load put s xs = Some t"
  shows "get t k = map_of xs k"
  using load_ok [OF assms(1,3)] get_law [of t k] assms(2) by simp

lemma get_after_del: "inv s \<Longrightarrow> del s k = Some t \<Longrightarrow> get t k' = (if k' = k then None else get s k')"
  using del_law [of s k] get_law [of s k'] get_law [of t k'] by auto

end

text \<open>The easy interface of the hash map, with a supply of addresses.\<close>

type_synonym 'v hstate = "'v u_hmap \<times> nat"

definition hm_inv :: "'v hstate \<Rightarrow> bool" where
  "hm_inv s = (hmap_inv (fst s) \<and> (\<forall>x \<in> set (objs (fst s)). oid x < snd s)
     \<and> o_options (h_opts (fst s)) AND U_HMAP_OPTS_NO_OVERWRITE \<noteq> 0)"

definition hm_put :: "'v hstate \<Rightarrow> string \<Rightarrow> 'v \<Rightarrow> 'v hstate option" where
  "hm_put s k v =
     (case u_hmap_easy_put 1 (snd s) (True, True, True) (True, True) ok_ra (Some (fst s)) (Some k) (Some v) of
        Inr (U_HMAP_ERR_NONE, Some h) \<Rightarrow> Some (h, Suc (snd s))
      | _ \<Rightarrow> None)"

definition hm_get :: "'v hstate \<Rightarrow> string \<Rightarrow> 'v option" where
  "hm_get s k =
     (case u_hmap_easy_get (True, True) (Some (fst s)) (Some k) of Inr (r, _) \<Rightarrow> r | Inl _ \<Rightarrow> None)"

definition hm_del :: "'v hstate \<Rightarrow> string \<Rightarrow> 'v hstate option" where
  "hm_del s k =
     (case u_hmap_easy_del (Some (fst s)) (Some k) of
        Inr (U_HMAP_ERR_NONE, Some h) \<Rightarrow> Some (h, snd s) | _ \<Rightarrow> None)"

interpretation hm: once_map hm_inv "\<lambda>s. hmap_map (fst s)" hm_put hm_get hm_del
proof
  fix s :: "'v hstate" and k :: string
  assume i: "hm_inv s"
  then have inv: "hmap_inv (fst s)" by (simp add: hm_inv_def)
  show "hm_get s k = hmap_map (fst s) k"
    using u_hmap_get_ok [OF inv, where k = k and al = "(True, True)"]
    by (cases "hmap_map (fst s) k") (auto simp: hm_get_def u_hmap_easy_get_def)
  show "case hm_del s k of None \<Rightarrow> hmap_map (fst s) k = None
      | Some t \<Rightarrow> hm_inv t \<and> hmap_map (fst s) k \<noteq> None \<and> hmap_map (fst t) = (hmap_map (fst s))(k := None)"
    using u_hmap_del_ok [OF inv, of k] i
    by (cases "hmap_map (fst s) k = None") (auto simp: hm_del_def u_hmap_easy_del_def hm_inv_def subset_iff)
next
  fix s t :: "'v hstate" and k :: string and v :: 'v
  assume i: "hm_inv s" and put: "hm_put s k v = Some t"
  have inv: "hmap_inv (fst s)" "oid \<lparr> oid = snd s, okey = k, oval = v, opqe = False \<rparr> \<notin> oid ` set (objs (fst s))"
    using i by (auto simp: hm_inv_def)
  obtain rc old h' where p: "u_hmap_put (Suc 0) (True, True) ok_ra (fst s)
        \<lparr> oid = snd s, okey = k, oval = v, opqe = False \<rparr> = Inr (rc, old, h')" "hmap_inv h'"
      "oid ` set (objs h') \<subseteq> insert (snd s) (oid ` set (objs (fst s)))"
      "o_options (h_opts h') = o_options (h_opts (fst s))"
      "rc = U_HMAP_ERR_FAIL \<or> put_post (fst s) \<lparr> oid = snd s, okey = k, oval = v, opqe = False \<rparr> rc h'"
    using u_hmap_put_ok [OF inv, of 0 "(True, True)"] by auto
  then have "rc = U_HMAP_ERR_NONE" "t = (h', Suc (snd s))"
    using put by (auto simp: hm_put_def u_hmap_easy_put_def u_hmap_o_new_def split: u_hmap_ret.splits)
  then show "hm_inv t \<and> hmap_map (fst s) k = None \<and> hmap_map (fst t) = (hmap_map (fst s))(k \<mapsto> v)"
    using p i by (fastforce simp: hm_inv_def put_post_def split: if_splits)
qed

section \<open>Properties\<close>

lemma next_prime_some:
  assumes "0 < n" "n \<le> 2147483647" "i < length primes"
  shows "next_prime n i \<noteq> None"
proof -
  have "prime_from n j ps \<noteq> None" if "p \<in> set ps" "n \<le> p" for j p ps
    using that by (induction ps arbitrary: j) auto
  moreover have "last primes \<in> set (drop i primes)"
    using assms(3) last_in_set [of "drop i primes"] by (simp add: last_drop)
  moreover have "last primes = 2147483647" by (simp add: primes_def)
  ultimately show ?thesis using assms by (auto simp: next_prime_def)
qed

text \<open>The bound below which an insertion always finds room.\<close>

definition hmap_bound :: nat where
  "hmap_bound = 2 ^ 28"

lemma growth_possible:
  assumes "hmap_inv h" "h_sz h < hmap_bound" "h_threshold h \<le> h_sz h"
  shows "next_prime (3 * o_size (h_opts h)) (h_px h) \<noteq> None"
proof (rule next_prime_some)
  have i: "o_size (h_opts h) \<le> h_size h" "h_threshold h = 3 * h_size h div 4" "h_px h < length primes"
    "good_opts (h_opts h)"
    using assms(1) by (auto simp: hmap_inv_def)
  show "h_px h < length primes" by (rule i)
  show "0 < 3 * o_size (h_opts h)" using i(4) by (auto simp: good_opts_def opts_check_def split: if_splits)
  have "3 * h_size h div 4 < 2 ^ 28" using assms(2,3) i(2) by (simp add: hmap_bound_def)
  then have "3 * h_size h < 2 ^ 31" by simp
  with i(1) show "3 * o_size (h_opts h) \<le> 2147483647" by simp
qed

lemma hm_put_succeeds:
  assumes "hm_inv s" "h_sz (fst s) < hmap_bound" "hmap_map (fst s) k = None"
  shows "\<exists>t. hm_put s k v = Some t \<and> h_sz (fst t) = Suc (h_sz (fst s))"
proof -
  let ?obj = "\<lparr> oid = snd s, okey = k, oval = v, opqe = False \<rparr>"
  have inv: "hmap_inv (fst s)" "oid ?obj \<notin> oid ` set (objs (fst s))"
    using assms(1) by (auto simp: hm_inv_def)
  obtain rc old h' where p: "u_hmap_put (Suc 0) (True, True) ok_ra (fst s) ?obj = Inr (rc, old, h')"
      "h_threshold (fst s) \<le> h_sz (fst s) \<and> next_prime (3 * o_size (h_opts (fst s))) (h_px (fst s)) = None
       \<or> put_post (fst s) ?obj rc h'"
    using u_hmap_put_ok [OF inv, of 0 "(True, True)"] by auto
  then have "put_post (fst s) ?obj rc h'" using growth_possible [OF inv(1) assms(2)] by auto
  then have "rc = U_HMAP_ERR_NONE" "h_sz h' = Suc (h_sz (fst s))" using assms(3) by (simp_all add: put_post_def)
  with p(1) show ?thesis by (simp add: hm_put_def u_hmap_easy_put_def u_hmap_o_new_def)
qed

lemma load_total:
  assumes "hm_inv s" "distinct (map fst xs)" "\<forall>k \<in> fst ` set xs. hmap_map (fst s) k = None"
    "h_sz (fst s) + length xs \<le> hmap_bound"
  shows "\<exists>t. load hm_put s xs = Some t \<and> h_sz (fst t) = h_sz (fst s) + length xs"
  using assms
proof (induction xs arbitrary: s)
  case (Cons kv xs)
  obtain k v where kv: "kv = (k, v)" by (cases kv)
  obtain t where t: "hm_put s k v = Some t" "h_sz (fst t) = Suc (h_sz (fst s))"
    using hm_put_succeeds [OF Cons.prems(1), of k v] Cons.prems(3,4) kv by auto
  have l: "hm_inv t" "hmap_map (fst t) = (hmap_map (fst s))(k \<mapsto> v)"
    using hm.put_law [OF Cons.prems(1) t(1)] by auto
  have "\<exists>u. load hm_put t xs = Some u \<and> h_sz (fst u) = h_sz (fst t) + length xs"
    using Cons.prems kv l t(2) by (intro Cons.IH) auto
  with t kv show ?case by auto
qed simp

lemma good_optsI:
  assumes "o_f_hash op = Some Default_hash" "o_f_comp op = Some f_comp" "o_type op = U_HMAP_TYPE_CHAIN"
    "o_policy op = U_HMAP_PCY_NONE" "opts_check op = U_HMAP_ERR_NONE"
  shows "good_opts op"
  using assms hash_slot_default [OF assms(1)] fc.str_order_axioms unfolding good_opts_def by blast

lemma default_good_opts: "good_opts (u_hmap_opts_init zero_opts)"
  by (rule good_optsI) (simp_all add: u_hmap_opts_init_def zero_opts_def opts_check_def)

lemma fresh_map:
  "\<exists>h. u_hmap_new None True True True = (U_HMAP_ERR_NONE, Some h) \<and> hmap_inv h
    \<and> objs h = [] \<and> h_sz h = 0 \<and> o_options (h_opts h) AND U_HMAP_OPTS_NO_OVERWRITE \<noteq> 0"
proof -
  let ?o = "u_hmap_opts_init zero_opts :: 'a u_hmap_opts"
  have "next_prime (o_size ?o) 0 = Some (599, 12)"
    by (simp add: u_hmap_opts_init_def next_prime_def primes_def)
  from u_hmap_new_ok [OF default_good_opts this] obtain h :: "'a u_hmap" where
    h: "u_hmap_new (Some ?o) True True True = (U_HMAP_ERR_NONE, Some h)" "hmap_inv h" "objs h = []"
      "h_sz h = 0" "o_options (h_opts h) = o_options ?o" by auto
  moreover have "u_hmap_new None True True True = u_hmap_new (Some ?o) True True True"
    by (simp add: u_hmap_new_def u_hmap_opts_new_def)
  moreover have "o_options ?o AND U_HMAP_OPTS_NO_OVERWRITE \<noteq> 0"
    by (simp add: u_hmap_opts_init_def U_HMAP_OPTS_NO_OVERWRITE_def)
  ultimately show ?thesis by auto
qed

lemma one_key_map: "\<exists>h :: int u_hmap. hmap_inv h \<and> hmap_map h = [''a'' \<mapsto> 5]"
proof -
  let ?obj = "\<lparr> oid = 7, okey = ''a'', oval = 5 :: int, opqe = False \<rparr>"
  obtain h :: "int u_hmap" where h: "hmap_inv h" "objs h = []" "h_sz h = 0" using fresh_map by blast
  then have "h_sz h < hmap_bound" "hmap_map h = Map.empty" by (simp_all add: hmap_bound_def hmap_map_def)
  with u_hmap_put_ok [OF h(1), of ?obj 0 "(True, True)"] growth_possible [OF h(1)] h(2)
  show ?thesis by (auto simp: put_post_def)
qed

text \<open>
  C2: a map with the default options, into which any list of up to \<open>2^28\<close> pairs with different
  keys is put, growing as often as needed, holds exactly these pairs: every put succeeds, the count
  is the length of the list, and every get gives the value the list has for the key, or fails for a
  key that is not in the list.
\<close>

theorem u_hmap_load_get:
  assumes "distinct (map fst xs)" "length xs \<le> 2 ^ 28"
  shows "\<exists>h t. u_hmap_new None True True True = (U_HMAP_ERR_NONE, Some h)
    \<and> load hm_put (h, 0) xs = Some t \<and> u_hmap_count (Some (fst t)) = int (length xs)
    \<and> (\<forall>k. hm_get t k = map_of xs k)"
proof -
  obtain h :: "'a u_hmap" where h: "u_hmap_new None True True True = (U_HMAP_ERR_NONE, Some h)"
    "hmap_inv h" "objs h = []" "h_sz h = 0" "o_options (h_opts h) AND U_HMAP_OPTS_NO_OVERWRITE \<noteq> 0"
    using fresh_map by blast
  have i: "hm_inv (h, 0)" "hmap_map (fst (h, 0)) = Map.empty"
    using h by (simp_all add: hm_inv_def hmap_map_def)
  obtain t where t: "load hm_put (h, 0) xs = Some t" "h_sz (fst t) = length xs"
    using load_total [OF i(1) assms(1)] i(2) assms(2) h(4) by (auto simp: hmap_bound_def)
  have "hm_get t k = map_of xs k" for k using hm.get_after_load [OF i t(1)] .
  then have "load hm_put (h, 0) xs = Some t \<and> u_hmap_count (Some (fst t)) = int (length xs)
    \<and> (\<forall>k. hm_get t k = map_of xs k)"
    using t by (simp add: u_hmap_count_def)
  with h(1) show ?thesis by blast
qed

theorem u_hmap_load_get_witness:
  "\<exists>(h :: int u_hmap) t. u_hmap_new None True True True = (U_HMAP_ERR_NONE, Some h)
    \<and> load hm_put (h, 0) [(''a'', 1), (''b'', 2)] = Some t \<and> u_hmap_count (Some (fst t)) = 2
    \<and> hm_get t ''b'' = Some 2 \<and> hm_get t ''c'' = None"
  using u_hmap_load_get [of "[(''a'', 1), (''b'', 2 :: int)]"] by fastforce

text \<open>
  C34: insertion into a map with chains and without a policy: a new key enters the map with its
  value and the count grows by one; an old key is overwritten, or kept with
  \<open>U_HMAP_ERR_EXISTS\<close> where the options forbid it; nothing changes for the other keys, although the
  table may grow and every object move. The one failure is a table that cannot grow any more.
\<close>

theorem u_hmap_put_spec:
  assumes "hmap_inv h" "oid obj \<notin> oid ` set (objs h)"
  shows "\<exists>rc old h'. u_hmap_put (Suc n) al ok_ra h obj = Inr (rc, old, h') \<and> hmap_inv h'
    \<and> (if hmap_map h (okey obj) = None
        then rc = U_HMAP_ERR_NONE \<and> hmap_map h' = (hmap_map h)(okey obj \<mapsto> oval obj)
             \<and> h_sz h' = Suc (h_sz h)
           \<or> rc = U_HMAP_ERR_FAIL \<and> hmap_map h' = hmap_map h \<and> hmap_bound \<le> h_sz h
        else if o_options (h_opts h) AND U_HMAP_OPTS_NO_OVERWRITE = 0
        then rc = U_HMAP_ERR_NONE \<and> hmap_map h' = (hmap_map h)(okey obj \<mapsto> oval obj)
           \<or> rc = U_HMAP_ERR_FAIL \<and> hmap_map h' = hmap_map h \<and> hmap_bound \<le> h_sz h
        else hmap_map h' = hmap_map h \<and> (rc = U_HMAP_ERR_EXISTS \<or> rc = U_HMAP_ERR_FAIL \<and> hmap_bound \<le> h_sz h))"
proof -
  obtain rc old h' where p: "u_hmap_put (Suc n) al ok_ra h obj = Inr (rc, old, h')" "hmap_inv h'"
      "rc = U_HMAP_ERR_FAIL \<and> hmap_map h' = hmap_map h \<and> h_threshold h \<le> h_sz h
         \<and> next_prime (3 * o_size (h_opts h)) (h_px h) = None \<or> put_post h obj rc h'"
    using u_hmap_put_ok [OF assms, of n al] by blast
  then have "rc = U_HMAP_ERR_FAIL \<and> hmap_map h' = hmap_map h \<and> hmap_bound \<le> h_sz h \<or> put_post h obj rc h'"
    using growth_possible [OF assms(1)] by (meson not_le)
  with p(1,2) show ?thesis by (auto simp: put_post_def split: if_splits)
qed

theorem u_hmap_put_spec_witness:
  "\<exists>(h :: int u_hmap) old h'. u_hmap_new None True True True = (U_HMAP_ERR_NONE, Some h)
     \<and> u_hmap_put 1 (True, True) ok_ra h \<lparr> oid = 7, okey = ''a'', oval = 5, opqe = False \<rparr>
         = Inr (U_HMAP_ERR_NONE, old, h') \<and> hmap_map h' = [''a'' \<mapsto> 5]"
proof -
  obtain h :: "int u_hmap" where h: "u_hmap_new None True True True = (U_HMAP_ERR_NONE, Some h)"
    "hmap_inv h" "objs h = []" "h_sz h = 0" using fresh_map by blast
  have "oid \<lparr> oid = 7, okey = ''a'', oval = 5 :: int, opqe = False \<rparr> \<notin> oid ` set (objs h)" "hmap_map h = Map.empty"
    using h(3) by (simp_all add: hmap_map_def)
  with h u_hmap_put_spec [OF h(2), of "\<lparr> oid = 7, okey = ''a'', oval = 5, opqe = False \<rparr>" 0 "(True, True)"]
  show ?thesis by (auto simp: hmap_bound_def)
qed

text \<open>
  deletion from such a map: a key that is present is removed and nothing else, the count goes
  down by one and the object is handed back unless the map owns its data; for a key that is absent
  the deletion fails and the map is unchanged. A look-up finds exactly the keys of the map.
\<close>

theorem u_hmap_del_spec:
  assumes "hmap_inv h"
  shows "(hmap_map h k = None \<longrightarrow> u_hmap_del (Some h) (Some k) = Inr (U_HMAP_ERR_FAIL, None, Some h)
      \<and> u_hmap_get al (Some h) (Some k) = Inr (U_HMAP_ERR_FAIL, None, Some h))
    \<and> (\<forall>v. hmap_map h k = Some v \<longrightarrow>
        (\<exists>old h'. u_hmap_del (Some h) (Some k) = Inr (U_HMAP_ERR_NONE, old, Some h') \<and> hmap_inv h'
          \<and> hmap_map h' = (hmap_map h)(k := None) \<and> h_sz h = Suc (h_sz h'))
      \<and> (\<exists>x. u_hmap_get al (Some h) (Some k) = Inr (U_HMAP_ERR_NONE, Some x, Some h) \<and> oval x = v))"
  using u_hmap_del_ok [OF assms, of k] u_hmap_get_ok [OF assms, where k = k and al = al]
  by (cases "hmap_map h k") auto

theorem u_hmap_del_spec_witness:
  "\<exists>(h :: int u_hmap) old h'. u_hmap_del (Some h) (Some ''a'') = Inr (U_HMAP_ERR_NONE, old, Some h')
     \<and> hmap_map h = [''a'' \<mapsto> 5] \<and> hmap_map h' = Map.empty"
proof -
  obtain h :: "int u_hmap" where h: "hmap_inv h" "hmap_map h = [''a'' \<mapsto> 5]" using one_key_map by blast
  obtain old h' where "u_hmap_del (Some h) (Some ''a'') = Inr (U_HMAP_ERR_NONE, old, Some h')"
    "hmap_map h' = (hmap_map h)(''a'' := None)"
    using u_hmap_del_spec [OF h(1), of "''a''" "(True, True)"] h(2) by auto
  with h(2) show ?thesis by (metis fun_upd_upd map_upd_triv fun_upd_triv)
qed

end
