(* ===== verification/Lexer.thy ===== *)
theory Lexer
  imports Cstr
begin

text \<open>
  The lexical tokenizer of \<open>srcs/toolbox/lexer.c\<close>: a cursor over a private copy of a string, with
  the bounds of the current match and an error string. The macros \<open>U_LEXER_ERR\<close>, \<open>U_LEXER_NEXT\<close> and
  \<open>U_LEXER_SKIP\<close>, which jump to the error label of the calling function, are the constructor and the
  operations of a result type; the interface of a cursor, with the scanning lemmas its clients
  share, is the locale \<open>cursor\<close>.
\<close>

section \<open>State\<close>

definition U_TOKEN_SZ :: nat where "U_TOKEN_SZ = 128"
definition U_LEXER_ERR_SZ :: nat where "U_LEXER_ERR_SZ = 512"

record u_lexer =
  l_s :: string
  l_pos :: nat
  l_lmatch :: nat
  l_rmatch :: nat
  l_err :: string

text \<open>The flags are the allocations of the context and of the copy of the string.\<close>

definition u_lexer_new :: "string option \<Rightarrow> bool \<Rightarrow> bool \<Rightarrow> u_lexer option" where
  "u_lexer_new s al_ctx al_str =
     (case s of None \<Rightarrow> None
      | Some t \<Rightarrow>
        if al_ctx \<and> al_str then Some \<lparr> l_s = t, l_pos = 0, l_lmatch = 0, l_rmatch = 0, l_err = [] \<rparr>
        else None)"

abbreviation slen :: "u_lexer \<Rightarrow> nat" where
  "slen l \<equiv> length (l_s l)"

definition u_lexer_pos :: "u_lexer \<Rightarrow> nat" where
  "u_lexer_pos l = l_pos l"

definition u_lexer_eot :: "u_lexer \<Rightarrow> bool" where
  "u_lexer_eot l = (l_pos l \<ge> slen l)"

text \<open>The text from the cursor on, and the character under it, the terminator at the end.\<close>

definition u_lexer_lookahead :: "u_lexer \<Rightarrow> string" where
  "u_lexer_lookahead l = drop (l_pos l) (l_s l)"

definition u_lexer_peek :: "u_lexer \<Rightarrow> char" where
  "u_lexer_peek l = (if l_pos l < slen l then l_s l ! l_pos l else NUL)"

definition u_lexer_incr :: "u_lexer \<Rightarrow> u_lexer" where
  "u_lexer_incr l = l\<lparr> l_pos := l_pos l + 1 \<rparr>"

text \<open>The error string holds what \<open>vsnprintf\<close> leaves of the formatted text.\<close>

definition u_lexer_seterr :: "u_lexer \<Rightarrow> string \<Rightarrow> u_lexer" where
  "u_lexer_seterr l msg = l\<lparr> l_err := takeWhile (\<lambda>c. c \<noteq> NUL) (take (U_LEXER_ERR_SZ - 1) msg) \<rparr>"

definition u_lexer_geterr :: "u_lexer option \<Rightarrow> string option" where
  "u_lexer_geterr l = map_option l_err l"

section \<open>Moving the cursor\<close>

text \<open>The loop over white space; the result says whether the end was met inside the loop.\<close>

function eat_ws_loop :: "u_lexer \<Rightarrow> bool \<times> u_lexer" where
  "eat_ws_loop l =
     (if isspace (u_lexer_peek l) then
        (if u_lexer_eot l then (False, l) else eat_ws_loop (u_lexer_incr l))
      else (True, l))"
  by auto

termination
  by (relation "measure (\<lambda>l. slen l - l_pos l)") (auto simp: u_lexer_eot_def u_lexer_incr_def)

declare eat_ws_loop.simps [simp del]

definition u_lexer_eat_ws :: "u_lexer \<Rightarrow> bool \<times> u_lexer" where
  "u_lexer_eat_ws l = (if u_lexer_eot l then (False, l) else eat_ws_loop l)"

definition u_lexer_next_ex :: "u_lexer \<Rightarrow> bool \<Rightarrow> bool \<times> u_lexer" where
  "u_lexer_next_ex l eat_ws =
     (if u_lexer_eot l then (False, l)
      else
        (let l1 = u_lexer_incr l in
         if eat_ws then u_lexer_eat_ws l1 else (True, l1)))"

definition u_lexer_next :: "u_lexer \<Rightarrow> bool \<times> u_lexer" where
  "u_lexer_next l = u_lexer_next_ex l False"

definition u_lexer_skip :: "u_lexer \<Rightarrow> bool \<times> u_lexer" where
  "u_lexer_skip l = u_lexer_next_ex l True"

section \<open>Matches\<close>

definition u_lexer_record_lmatch :: "u_lexer \<Rightarrow> u_lexer" where
  "u_lexer_record_lmatch l = l\<lparr> l_lmatch := l_pos l \<rparr>"

definition u_lexer_record_rmatch :: "u_lexer \<Rightarrow> u_lexer" where
  "u_lexer_record_rmatch l = l\<lparr> l_rmatch := l_pos l \<rparr>"

definition u_lexer_strlen_match :: "u_lexer \<Rightarrow> nat" where
  "u_lexer_strlen_match l = l_rmatch l - l_lmatch l + 1"

text \<open>
  The match, both ends included; \<open>None\<close> is the \<open>NULL\<close> returned for a match of 128 or more characters,
  which leaves the caller's buffer as it was.
\<close>

definition u_lexer_get_match :: "u_lexer \<Rightarrow> string option" where
  "u_lexer_get_match l =
     (if l_rmatch l < l_lmatch l then None
      else if u_lexer_strlen_match l \<ge> U_TOKEN_SZ then None
      else Some (take (u_lexer_strlen_match l) (drop (l_lmatch l) (l_s l))))"

section \<open>Results\<close>

text \<open>
  What a matching function does: it succeeds with a value, jumps to its error label, the error
  string in the context, or runs into undefined behaviour.
\<close>

datatype 'a lex_result = Ok 'a u_lexer | Err u_lexer | Fault fault

definition lbind :: "'a lex_result \<Rightarrow> ('a \<Rightarrow> u_lexer \<Rightarrow> 'b lex_result) \<Rightarrow> 'b lex_result" where
  "lbind r f = (case r of Ok x l \<Rightarrow> f x l | Err l \<Rightarrow> Err l | Fault e \<Rightarrow> Fault e)"

lemma lbind_simps [simp]:
  "lbind (Ok x l) f = f x l" "lbind (Err l) f = Err l" "lbind (Fault e) f = Fault e"
  by (simp_all add: lbind_def)

lemma lbind_cong [fundef_cong]:
  "r = r' \<Longrightarrow> (\<And>x l. r' = Ok x l \<Longrightarrow> f x l = g x l) \<Longrightarrow> lbind r f = lbind r' g"
  by (cases r') (auto simp: lbind_def)

lemma lbind_eq_Ok: "lbind r f = Ok y l' \<longleftrightarrow> (\<exists>x l. r = Ok x l \<and> f x l = Ok y l')"
  by (cases r) auto

definition lex_err :: "u_lexer \<Rightarrow> string \<Rightarrow> 'a lex_result" where
  "lex_err l msg = Err (u_lexer_seterr l msg)"

text \<open>The two macros; the value is the character then under the cursor.\<close>

definition lex_step :: "bool \<times> u_lexer \<Rightarrow> char lex_result" where
  "lex_step r =
     (case r of (ok, l) \<Rightarrow>
        if ok then Ok (u_lexer_peek l) l
        else lex_err l (''EOT at offset '' @ decimal (u_lexer_pos l)))"

definition lex_next :: "u_lexer \<Rightarrow> char lex_result" where
  "lex_next l = lex_step (u_lexer_next l)"

definition lex_skip :: "u_lexer \<Rightarrow> char lex_result" where
  "lex_skip l = lex_step (u_lexer_skip l)"

definition u_lexer_expect_char :: "u_lexer \<Rightarrow> char \<Rightarrow> unit lex_result" where
  "u_lexer_expect_char l expected =
     (let c = u_lexer_peek l in
      if c = expected then lbind (lex_next l) (\<lambda>_ l1. Ok () l1)
      else lex_err l (''expecting '' @ [CHR 0x27, expected, CHR 0x27] @ '', got ''
             @ [CHR 0x27, c, CHR 0x27] @ '' instead''))"

section \<open>The cursor and the text behind it\<close>

text \<open>The cursor does not leave the string, and the recorded bounds are behind it.\<close>

definition lex_ok :: "u_lexer \<Rightarrow> bool" where
  "lex_ok l = (l_pos l \<le> slen l \<and> NUL \<notin> set (l_s l) \<and> l_lmatch l \<le> slen l \<and> l_rmatch l \<le> slen l)"

definition same_text :: "u_lexer \<Rightarrow> u_lexer \<Rightarrow> bool" where
  "same_text l l' = (l_s l' = l_s l)"

lemma peek_lookahead: "u_lexer_peek l = (case u_lexer_lookahead l of [] \<Rightarrow> NUL | c # _ \<Rightarrow> c)"
  by (simp add: u_lexer_peek_def u_lexer_lookahead_def drop_eq_Nil split: list.split)
    (metis Cons_nth_drop_Suc list.inject drop_all leI list.distinct(1))

lemma eot_lookahead: "u_lexer_eot l \<longleftrightarrow> u_lexer_lookahead l = []"
  by (simp add: u_lexer_eot_def u_lexer_lookahead_def)

lemma incr_lookahead [simp]: "u_lexer_lookahead (u_lexer_incr l) = tl (u_lexer_lookahead l)"
  by (simp add: u_lexer_incr_def u_lexer_lookahead_def drop_Suc tl_drop)

text \<open>The cursor moved on by some characters.\<close>

definition move :: "nat \<Rightarrow> u_lexer \<Rightarrow> u_lexer" where
  "move n l = l\<lparr> l_pos := l_pos l + n \<rparr>"

lemma move_simps [simp]:
  "move 0 l = l" "move m (move n l) = move (n + m) l" "l_s (move n l) = l_s l"
  "l_pos (move n l) = l_pos l + n" "l_lmatch (move n l) = l_lmatch l" "l_rmatch (move n l) = l_rmatch l"
  by (simp_all add: move_def ac_simps)

lemma move_lookahead [simp]: "u_lexer_lookahead (move n l) = drop n (u_lexer_lookahead l)"
  by (simp add: move_def u_lexer_lookahead_def add.commute)

lemma record_simps [simp]:
  "u_lexer_lookahead (u_lexer_record_lmatch l) = u_lexer_lookahead l"
  "u_lexer_lookahead (u_lexer_record_rmatch l) = u_lexer_lookahead l"
  "l_s (u_lexer_record_lmatch l) = l_s l" "l_s (u_lexer_record_rmatch l) = l_s l"
  "l_pos (u_lexer_record_lmatch l) = l_pos l" "l_pos (u_lexer_record_rmatch l) = l_pos l"
  "u_lexer_peek (u_lexer_record_lmatch l) = u_lexer_peek l"
  "u_lexer_peek (u_lexer_record_rmatch l) = u_lexer_peek l"
  by (simp_all add: u_lexer_record_lmatch_def u_lexer_record_rmatch_def u_lexer_lookahead_def u_lexer_peek_def)

lemma incr_move: "u_lexer_incr l = move 1 l"
  by (simp add: u_lexer_incr_def move_def)

lemma peek_Nil [simp]: "u_lexer_lookahead l = [] \<Longrightarrow> u_lexer_peek l = NUL"
  and peek_Cons [simp]: "u_lexer_lookahead l = c # r \<Longrightarrow> u_lexer_peek l = c"
  by (simp_all add: peek_lookahead)

lemma eat_ws_loop_eq:
  "eat_ws_loop l = (True, move (length (takeWhile isspace (u_lexer_lookahead l))) l)"
proof (induction l rule: eat_ws_loop.induct)
  case (1 l)
  show ?case
  proof (cases "u_lexer_lookahead l")
    case Nil
    then show ?thesis by (simp add: eat_ws_loop.simps [of l])
  next
    case (Cons c r)
    then show ?thesis
      using 1 by (simp add: eat_ws_loop.simps [of l] eot_lookahead incr_move)
  qed
qed

lemma lex_next_eq:
  "lex_next l = (case u_lexer_lookahead l of
      [] \<Rightarrow> lex_err l (''EOT at offset '' @ decimal (l_pos l))
    | c # r \<Rightarrow> Ok (u_lexer_peek (move 1 l)) (move 1 l))"
  by (simp add: lex_next_def u_lexer_next_def u_lexer_next_ex_def lex_step_def eot_lookahead
      incr_move u_lexer_pos_def split: list.split)

definition spaces :: "string \<Rightarrow> nat" where
  "spaces w = length (takeWhile isspace w)"

lemma drop_spaces: "drop (spaces w) w = dropWhile isspace w"
  unfolding spaces_def by (induction w) auto

lemma spaces_simps [simp]: "spaces [] = 0" "spaces (c # w) = (if isspace c then Suc (spaces w) else 0)"
  by (simp_all add: spaces_def)

lemma lex_skip_eq:
  "lex_skip l = (case u_lexer_lookahead l of
      [] \<Rightarrow> lex_err l (''EOT at offset '' @ decimal (l_pos l))
    | [c] \<Rightarrow> lex_err (move 1 l) (''EOT at offset '' @ decimal (Suc (l_pos l)))
    | c # d # r \<Rightarrow> (let l' = move (1 + spaces (d # r)) l in Ok (u_lexer_peek l') l'))"
  by (simp add: lex_skip_def u_lexer_skip_def u_lexer_next_ex_def lex_step_def eot_lookahead Let_def
      u_lexer_eat_ws_def eat_ws_loop_eq incr_move u_lexer_pos_def spaces_def split: list.split)

lemma eat_ws_eq:
  "u_lexer_eat_ws l = (if u_lexer_lookahead l = [] then (False, l)
     else (True, move (spaces (u_lexer_lookahead l)) l))"
  by (simp add: u_lexer_eat_ws_def eot_lookahead eat_ws_loop_eq spaces_def)

text \<open>The loops \<open>while (P(c)) U_LEXER_NEXT(l, &c)\<close> of the clients.\<close>

function lex_while :: "(char \<Rightarrow> bool) \<Rightarrow> u_lexer \<Rightarrow> unit lex_result" where
  "lex_while P l =
     (if P (u_lexer_peek l) then
        (if u_lexer_eot l then lex_err l (''EOT at offset '' @ decimal (u_lexer_pos l))
         else lex_while P (u_lexer_incr l))
      else Ok () l)"
  by auto

termination
  by (relation "measure (\<lambda>(P, l). slen l - l_pos l)") (auto simp: u_lexer_eot_def u_lexer_incr_def)

declare lex_while.simps [simp del]

lemma lex_while_eq:
  "\<not> P NUL \<Longrightarrow> lex_while P l = Ok () (move (length (takeWhile P (u_lexer_lookahead l))) l)"
proof (induction P l rule: lex_while.induct)
  case (1 P l)
  show ?case
  proof (cases "u_lexer_lookahead l")
    case Nil
    then show ?thesis using 1 by (simp add: lex_while.simps [of P l])
  next
    case (Cons c r)
    then show ?thesis
      using 1 by (simp add: lex_while.simps [of P l] eot_lookahead incr_move)
  qed
qed

section \<open>The interface of a cursor\<close>

text \<open>
  What the parsers rely on: the text from the cursor on, the character under the cursor and a step,
  which fails at the end only. The client reads a given text character by character.
\<close>

locale cursor =
  fixes view :: "'s \<Rightarrow> string" and peek :: "'s \<Rightarrow> char" and step :: "'s \<Rightarrow> 's option"
  assumes peek_law: "peek l = (case view l of [] \<Rightarrow> NUL | c # _ \<Rightarrow> c)"
    and step_law: "case step l of None \<Rightarrow> view l = [] | Some l' \<Rightarrow> view l \<noteq> [] \<and> view l' = tl (view l)"
begin

lemma step_Cons: "view l = c # r \<Longrightarrow> \<exists>l'. step l = Some l' \<and> view l' = r \<and> peek l = c"
  using step_law [of l] peek_law [of l] by (auto split: option.splits)

lemma step_Nil: "view l = [] \<Longrightarrow> step l = None"
  using step_law [of l] by (auto split: option.splits)

lemma step_shortens: "step l = Some l' \<Longrightarrow> length (view l') < length (view l)"
  using step_law [of l] by simp

end

text \<open>The read of a text through any cursor.\<close>

fun read_text :: "('s \<Rightarrow> char) \<Rightarrow> ('s \<Rightarrow> 's option) \<Rightarrow> string \<Rightarrow> 's \<Rightarrow> 's option" where
  "read_text peek step [] l = Some l"
| "read_text peek step (c # w) l =
     (if peek l \<noteq> c then None
      else case step l of None \<Rightarrow> None | Some l' \<Rightarrow> read_text peek step w l')"

context cursor
begin

lemma read_text_ok:
  assumes "NUL \<notin> set w"
  shows "(case read_text peek step w l of
      None \<Rightarrow> \<not> (\<exists>r. view l = w @ r) | Some l' \<Rightarrow> view l = w @ view l')"
  using assms
proof (induction w arbitrary: l)
  case (Cons c w)
  show ?case
  proof (cases "view l")
    case Nil
    then show ?thesis using Cons.prems by (simp add: peek_law)
  next
    case (Cons d r)
    obtain l' where "step l = Some l'" "view l' = r" "peek l = d" using step_Cons [OF Cons] by blast
    with Cons Cons.IH [of l'] Cons.prems show ?thesis by (auto split: option.splits)
  qed
qed simp

end

definition lex_advance :: "u_lexer \<Rightarrow> u_lexer option" where
  "lex_advance l = (case lex_next l of Ok _ l' \<Rightarrow> Some l' | _ \<Rightarrow> None)"

interpretation lx: cursor u_lexer_lookahead u_lexer_peek lex_advance
proof
  fix l
  show "u_lexer_peek l = (case u_lexer_lookahead l of [] \<Rightarrow> NUL | c # _ \<Rightarrow> c)" by (rule peek_lookahead)
  show "case lex_advance l of None \<Rightarrow> u_lexer_lookahead l = []
    | Some l' \<Rightarrow> u_lexer_lookahead l \<noteq> [] \<and> u_lexer_lookahead l' = tl (u_lexer_lookahead l)"
    by (cases "u_lexer_lookahead l") (simp_all add: lex_advance_def lex_next_eq lex_err_def)
qed

text \<open>A sequence of expected characters.\<close>

fun expect_text :: "u_lexer \<Rightarrow> string \<Rightarrow> unit lex_result" where
  "expect_text l [] = Ok () l"
| "expect_text l (c # w) = lbind (u_lexer_expect_char l c) (\<lambda>_ l1. expect_text l1 w)"

lemma expect_char_advance:
  "u_lexer_expect_char l c = Ok () l' \<longleftrightarrow> u_lexer_peek l = c \<and> lex_advance l = Some l'"
  by (auto simp: u_lexer_expect_char_def lex_advance_def lex_err_def Let_def split: lex_result.splits
      simp del: lbind_simps simp add: lbind_def)

lemma expect_text_read:
  "expect_text l w = Ok () l' \<longleftrightarrow> read_text u_lexer_peek lex_advance w l = Some l'"
proof (induction w arbitrary: l)
  case (Cons c w)
  then show ?case by (auto simp: lbind_eq_Ok expect_char_advance split: option.splits)
qed auto

lemma expect_text_ok:
  assumes "NUL \<notin> set w"
  shows "(\<exists>l'. expect_text l w = Ok () l' \<and> u_lexer_lookahead l' = r) \<longleftrightarrow> u_lexer_lookahead l = w @ r"
  using lx.read_text_ok [OF assms, of l]
  by (cases "read_text u_lexer_peek lex_advance w l") (auto simp: expect_text_read)

end
