(* ===== verification/Json.thy ===== *)
theory Json
  imports Lexer
begin

text \<open>
  JSON trees of \<open>srcs/toolbox/json.c\<close>: the tree and its operations, the encoder, and the parser on
  top of the lexer. A node holds its children; the parent pointer and the links between siblings are
  the position of a node in its tree. Allocation succeeds; the parser's failures are those of the
  text and of its limits.
\<close>

section \<open>Data\<close>

datatype u_json_type =
  U_JSON_TYPE_UNKNOWN | U_JSON_TYPE_STRING | U_JSON_TYPE_NUMBER | U_JSON_TYPE_OBJECT
| U_JSON_TYPE_ARRAY | U_JSON_TYPE_TRUE | U_JSON_TYPE_FALSE | U_JSON_TYPE_NULL

definition U_JSON_FQN_SZ :: nat where "U_JSON_FQN_SZ = 256"
definition U_JSON_MAX_DEPTH :: nat where "U_JSON_MAX_DEPTH = 16"

datatype u_json = U_json
  (jtype: u_json_type) (jfqn: string) (jkey: string) (jval: string) (jdepth: nat)
  (jicur: nat) (jcount: nat) (jmap: bool) (jchildren: "u_json list")

definition is_container :: "u_json \<Rightarrow> bool" where
  "is_container jo = (jtype jo = U_JSON_TYPE_OBJECT \<or> jtype jo = U_JSON_TYPE_ARRAY)"

definition u_json_new :: u_json where
  "u_json_new = U_json U_JSON_TYPE_UNKNOWN [] [] [] 0 0 0 False []"

section \<open>Setters\<close>

text \<open>A setter returns whether it succeeded and the node.\<close>

fun u_json_set_type :: "u_json \<Rightarrow> u_json_type \<Rightarrow> bool \<times> u_json" where
  "u_json_set_type (U_json t f k v d i c m cs) t' =
     (if m then (False, U_json t f k v d i c m cs) else (True, U_json t' f k v d i c m cs))"

fun u_json_set_key :: "u_json \<Rightarrow> string option \<Rightarrow> bool \<times> u_json" where
  "u_json_set_key (U_json t f k v d i c m cs) key =
     (if m then (False, U_json t f k v d i c m cs)
      else (case u_strlcpy k (case key of None \<Rightarrow> [] | Some s \<Rightarrow> s) U_TOKEN_SZ of
              (ok, k') \<Rightarrow> (ok, U_json t f k' v d i c m cs)))"

text \<open>The depth is stored before it is checked.\<close>

fun u_json_set_depth :: "u_json \<Rightarrow> nat \<Rightarrow> bool \<times> u_json" where
  "u_json_set_depth (U_json t f k v d i c m cs) d' = (d' < U_JSON_MAX_DEPTH, U_json t f k v d' i c m cs)"

text \<open>The copy of a value that \<open>u_json_set_val_ex\<close> ends with, for strings and numbers only.\<close>

fun store_val :: "u_json \<Rightarrow> string \<Rightarrow> bool \<times> u_json" where
  "store_val (U_json t f k v d i c m cs) val =
     (if t = U_JSON_TYPE_STRING \<or> t = U_JSON_TYPE_NUMBER then
        (case u_strlcpy v val U_TOKEN_SZ of (ok, v') \<Rightarrow> (ok, U_json t f k v' d i c m cs))
      else (True, U_json t f k v d i c m cs))"

definition u_json_set_val :: "u_json \<Rightarrow> string \<Rightarrow> bool \<times> u_json" where
  "u_json_set_val jo val = store_val jo val"

fun u_json_add :: "u_json \<Rightarrow> u_json \<Rightarrow> bool \<times> u_json" where
  "u_json_add (U_json t f k v d i c m cs) jo =
     (if \<not> (t = U_JSON_TYPE_OBJECT \<or> t = U_JSON_TYPE_ARRAY) then (False, U_json t f k v d i c m cs)
      else if m then (False, U_json t f k v d i c m cs)
      else (True, U_json t f k v d i (if t = U_JSON_TYPE_ARRAY then c + 1 else c) m (cs @ [jo])))"

section \<open>The parser\<close>

text \<open>A result of a setter inside a matching function: failure jumps to the error label.\<close>

definition set_or_err :: "u_lexer \<Rightarrow> bool \<times> 'a \<Rightarrow> 'a lex_result" where
  "set_or_err l r = (if fst r then Ok (snd r) l else Err l)"

definition u_json_match_string_first :: "u_lexer \<Rightarrow> bool \<times> u_lexer" where
  "u_json_match_string_first jl =
     (let r = (u_lexer_peek jl = CHR 0x22) in (r, if r then u_lexer_record_lmatch jl else jl))"

definition u_json_match_number_first :: "u_lexer \<Rightarrow> bool \<times> u_lexer" where
  "u_json_match_number_first jl =
     (let c = u_lexer_peek jl; r = (c = CHR ''-'' \<or> isdigit c)
      in (r, if r then u_lexer_record_lmatch jl else jl))"

definition u_json_match_object_first :: "u_lexer \<Rightarrow> bool" where
  "u_json_match_object_first jl = (u_lexer_peek jl = CHR ''{'')"

definition u_json_match_array_first :: "u_lexer \<Rightarrow> bool" where
  "u_json_match_array_first jl = (u_lexer_peek jl = CHR ''['')"

definition u_json_match_true_first :: "u_lexer \<Rightarrow> bool" where
  "u_json_match_true_first jl = (u_lexer_peek jl = CHR ''t'')"

definition u_json_match_false_first :: "u_lexer \<Rightarrow> bool" where
  "u_json_match_false_first jl = (u_lexer_peek jl = CHR ''f'')"

definition u_json_match_null_first :: "u_lexer \<Rightarrow> bool" where
  "u_json_match_null_first jl = (u_lexer_peek jl = CHR ''n'')"

definition u_json_match_pair_first :: "u_lexer \<Rightarrow> bool \<times> u_lexer" where
  "u_json_match_pair_first jl = u_json_match_string_first jl"

subsection \<open>Numbers\<close>

definition u_json_match_int :: "u_lexer \<Rightarrow> unit lex_result" where
  "u_json_match_int jl =
     lbind (if u_lexer_peek jl = CHR ''-'' then lex_next jl else Ok (u_lexer_peek jl) jl) (\<lambda>c l1.
       if c = CHR ''0'' then lbind (lex_next l1) (\<lambda>_ l2. Ok () l2)
       else if isdigit c then lbind (lex_next l1) (\<lambda>_ l2. lex_while isdigit l2)
       else lex_err l1 (''bad int syntax at '' @ u_lexer_lookahead l1))"

definition u_json_match_frac_first :: "char \<Rightarrow> bool" where
  "u_json_match_frac_first c = (c = CHR ''.'')"

definition u_json_match_exp_first :: "char \<Rightarrow> bool" where
  "u_json_match_exp_first c = (c = CHR ''e'' \<or> c = CHR ''E'')"

definition u_json_match_frac :: "u_lexer \<Rightarrow> unit lex_result" where
  "u_json_match_frac jl =
     (if u_lexer_peek jl \<noteq> CHR ''.'' then lex_err jl (''bad frac syntax at '' @ u_lexer_lookahead jl)
      else lbind (lex_next jl) (\<lambda>c l1.
        if \<not> isdigit c then lex_err l1 (''bad frac syntax at '' @ u_lexer_lookahead l1)
        else lex_while isdigit l1))"

definition u_json_match_exp :: "u_lexer \<Rightarrow> unit lex_result" where
  "u_json_match_exp jl =
     (if u_lexer_peek jl \<noteq> CHR ''e'' \<and> u_lexer_peek jl \<noteq> CHR ''E''
      then lex_err jl (''bad exp syntax at '' @ u_lexer_lookahead jl)
      else lbind (lex_next jl) (\<lambda>c l1.
        lbind (if c = CHR ''+'' \<or> c = CHR ''-'' then lex_next l1 else Ok c l1) (\<lambda>c2 l2.
          if \<not> isdigit c2 then lex_err l2 (''bad exp syntax at '' @ u_lexer_lookahead l2)
          else lex_while isdigit l2)))"

text \<open>
  The match includes the character behind the number, which is cut off again. Without a match,
  because it is too long, the buffer that is cut is uninitialised.
\<close>

definition u_json_match_number :: "u_lexer \<Rightarrow> u_json option \<Rightarrow> u_json option lex_result" where
  "u_json_match_number jl jo =
     lbind (u_json_match_int jl) (\<lambda>_ l1.
     lbind (if u_json_match_frac_first (u_lexer_peek l1) then u_json_match_frac l1 else Ok () l1) (\<lambda>_ l2.
     lbind (if u_json_match_exp_first (u_lexer_peek l2) then u_json_match_exp l2 else Ok () l2) (\<lambda>_ l3.
       let l4 = u_lexer_record_rmatch l3 in
       case u_lexer_get_match l4 of
         None \<Rightarrow> Fault Uninitialised
       | Some m \<Rightarrow>
           (case jo of
              None \<Rightarrow> Ok None l4
            | Some j \<Rightarrow>
                lbind (set_or_err l4 (u_json_set_type j U_JSON_TYPE_NUMBER)) (\<lambda>j1 l5.
                lbind (set_or_err l5 (u_json_set_val j1 (butlast m))) (\<lambda>j2 l6. Ok (Some j2) l6))))))"

subsection \<open>Literals\<close>

text \<open>The rest of a literal: white space is skipped between its characters.\<close>

fun match_rem :: "u_lexer \<Rightarrow> string \<Rightarrow> unit lex_result" where
  "match_rem jl [] = Ok () jl"
| "match_rem jl (r # rem) =
     lbind (lex_skip jl) (\<lambda>c l1.
       if c \<noteq> r then lex_err l1 (''expect '' @ [CHR 0x27, r, CHR 0x27] @ '', got '' @ [c] @ '' at ''
             @ u_lexer_lookahead l1)
       else match_rem l1 rem)"

definition u_json_match_seq ::
  "u_lexer \<Rightarrow> u_json option \<Rightarrow> u_json_type \<Rightarrow> char \<Rightarrow> string \<Rightarrow> u_json option lex_result" where
  "u_json_match_seq jl jo ty first rem =
     (if u_lexer_peek jl \<noteq> first then
        lex_err jl (''expect '' @ [CHR 0x27, first, CHR 0x27] @ '', got '' @ [u_lexer_peek jl] @ '' at ''
          @ u_lexer_lookahead jl)
      else
        lbind (match_rem jl rem) (\<lambda>_ l1.
        lbind (lex_skip l1) (\<lambda>_ l2.
          case jo of None \<Rightarrow> Ok None l2
          | Some j \<Rightarrow> lbind (set_or_err l2 (u_json_set_type j ty)) (\<lambda>j1 l3. Ok (Some j1) l3))))"

definition u_json_match_null :: "u_lexer \<Rightarrow> u_json option \<Rightarrow> u_json option lex_result" where
  "u_json_match_null jl jo = u_json_match_seq jl jo U_JSON_TYPE_NULL CHR ''n'' ''ull''"

definition u_json_match_true :: "u_lexer \<Rightarrow> u_json option \<Rightarrow> u_json option lex_result" where
  "u_json_match_true jl jo = u_json_match_seq jl jo U_JSON_TYPE_TRUE CHR ''t'' ''rue''"

definition u_json_match_false :: "u_lexer \<Rightarrow> u_json option \<Rightarrow> u_json option lex_result" where
  "u_json_match_false jl jo = u_json_match_seq jl jo U_JSON_TYPE_FALSE CHR ''f'' ''alse''"

subsection \<open>Strings\<close>

text \<open>Four hexadecimal digits, of which the last is left under the cursor.\<close>

fun match_hex :: "nat \<Rightarrow> u_lexer \<Rightarrow> unit lex_result" where
  "match_hex 0 jl = Ok () jl"
| "match_hex (Suc n) jl =
     lbind (lex_next jl) (\<lambda>c l1.
       if \<not> isxdigit c then lex_err l1 (''non hex digit '' @ [c] @ '' in escaped unicode'')
       else match_hex n l1)"

definition u_json_match_escaped_unicode :: "u_lexer \<Rightarrow> unit lex_result" where
  "u_json_match_escaped_unicode jl = match_hex 4 jl"

definition escape_chars :: "char set" where
  "escape_chars = {CHR 0x22, CHR 0x5C, CHR ''/'', CHR ''b'', CHR ''f'', CHR ''n'', CHR ''r'', CHR ''t''}"

text \<open>What a step of the scanner leaves: a cursor further on in the same text.\<close>

definition ahead :: "u_lexer \<Rightarrow> u_lexer \<Rightarrow> bool" where
  "ahead l l' = (l_s l' = l_s l \<and> l_pos l < l_pos l' \<and> l_pos l' \<le> slen l)"

lemma ahead_trans: "ahead l l1 \<Longrightarrow> ahead l1 l2 \<Longrightarrow> ahead l l2"
  by (simp add: ahead_def)

lemma lex_next_ahead: "lex_next l = Ok c l' \<Longrightarrow> ahead l l'"
  by (auto simp: lex_next_eq ahead_def lex_err_def u_lexer_lookahead_def split: list.splits)
    (metis Suc_leI drop_all leI list.distinct(1))

lemma match_hex_ahead: "match_hex n l = Ok () l' \<Longrightarrow> 0 < n \<Longrightarrow> ahead l l'"
proof (induction n arbitrary: l)
  case (Suc n)
  then obtain c l1 where l1: "lex_next l = Ok c l1" "match_hex n l1 = Ok () l'"
    by (auto simp: lbind_eq_Ok lex_err_def split: if_splits)
  then show ?case using Suc.IH [OF l1(2)] lex_next_ahead [OF l1(1)] by (cases n) (auto intro: ahead_trans)
qed simp

text \<open>
  The characters up to the closing quote; \<open>c\<close> is the last one read. After \<open>\u\<close> it is still the
  \<open>u\<close>, so the next round moves past the last digit.
\<close>

function string_loop :: "char \<Rightarrow> u_lexer \<Rightarrow> unit lex_result" where
  "string_loop c jl =
     (if c = CHR 0x22 then Ok () jl
      else if c = CHR 0x5C then
        lbind (lex_next jl) (\<lambda>c1 l1.
          if c1 = CHR ''u'' then lbind (u_json_match_escaped_unicode l1) (\<lambda>_ l2. string_loop c1 l2)
          else if c1 \<in> escape_chars then lbind (lex_next l1) (\<lambda>c2 l2. string_loop c2 l2)
          else lex_err l1 (''invalid char '' @ [c1] @ '' in escape''))
      else if iscntrl c then lex_err jl ''control character in string''
      else lbind (lex_next jl) (\<lambda>c1 l1. string_loop c1 l1))"
  by auto

termination
proof (relation "measure (\<lambda>(c, l). slen l - l_pos l)", goal_cases)
  case (2 c l c1 l1 u l2)
  then have "ahead l l2"
    using lex_next_ahead match_hex_ahead [of 4] ahead_trans
    by (fastforce simp: u_json_match_escaped_unicode_def)
  then show ?case by (auto simp: ahead_def)
next
  case (3 c l c1 l1 c2 l2)
  then have "ahead l l2" using lex_next_ahead ahead_trans by blast
  then show ?case by (auto simp: ahead_def)
next
  case (4 c l c1 l1)
  then have "ahead l l1" using lex_next_ahead by blast
  then show ?case by (auto simp: ahead_def)
qed simp

declare string_loop.simps [simp del]

definition u_json_match_string :: "u_lexer \<Rightarrow> u_json option \<Rightarrow> u_json option lex_result" where
  "u_json_match_string jl jo =
     (if u_lexer_peek jl \<noteq> CHR 0x22 then
        lex_err jl (''expect '' @ [CHR 0x22] @ '', got '' @ [u_lexer_peek jl] @ '' at '' @ u_lexer_lookahead jl)
      else
        lbind (lex_next jl) (\<lambda>c l1.
        lbind (string_loop c (u_lexer_record_lmatch l1)) (\<lambda>_ l2.
        lbind (lex_next (u_lexer_record_rmatch l2)) (\<lambda>_ l3.
          case jo of
            None \<Rightarrow> Ok None l3
          | Some j \<Rightarrow>
              lbind (set_or_err l3 (u_json_set_type j U_JSON_TYPE_STRING)) (\<lambda>j1 l4.
                case u_lexer_get_match l4 of
                  None \<Rightarrow> Fault Uninitialised
                | Some m \<Rightarrow> lbind (set_or_err l4 (u_json_set_val j1 (butlast m))) (\<lambda>j2 l5. Ok (Some j2) l5))))))"

subsection \<open>Values, arrays and objects\<close>

text \<open>The new node of an element, one level below its container, and its entry in the container.\<close>

definition new_child :: "u_lexer \<Rightarrow> u_json option \<Rightarrow> u_json option lex_result" where
  "new_child l jo =
     (case jo of None \<Rightarrow> Ok None l
      | Some j \<Rightarrow> lbind (set_or_err l (u_json_set_depth u_json_new (jdepth j + 1))) (\<lambda>e l1. Ok (Some e) l1))"

definition add_child :: "u_lexer \<Rightarrow> u_json option \<Rightarrow> u_json option \<Rightarrow> u_json option lex_result" where
  "add_child l jo e =
     (case (jo, e) of
        (Some j, Some x) \<Rightarrow> lbind (set_or_err l (u_json_add j x)) (\<lambda>j1 l1. Ok (Some j1) l1)
      | _ \<Rightarrow> Ok jo l)"

definition lex_trail :: "u_lexer \<Rightarrow> unit lex_result" where
  "lex_trail l = (if isspace (u_lexer_peek l) then lbind (lex_skip l) (\<lambda>_ l1. Ok () l1) else Ok () l)"

definition set_type_opt :: "u_lexer \<Rightarrow> u_json option \<Rightarrow> u_json_type \<Rightarrow> u_json option lex_result" where
  "set_type_opt l jo ty =
     (case jo of None \<Rightarrow> Ok None l
      | Some j \<Rightarrow> lbind (set_or_err l (u_json_set_type j ty)) (\<lambda>j1 l1. Ok (Some j1) l1))"

definition set_key_opt :: "u_lexer \<Rightarrow> u_json option \<Rightarrow> string \<Rightarrow> u_json option lex_result" where
  "set_key_opt l jo k =
     (case jo of None \<Rightarrow> Ok None l
      | Some j \<Rightarrow> lbind (set_or_err l (u_json_set_key j (Some k))) (\<lambda>j1 l1. Ok (Some j1) l1))"

text \<open>The closing bracket; the end of the text behind it is no error here.\<close>

definition close_with :: "u_lexer \<Rightarrow> char \<Rightarrow> u_json option \<Rightarrow> u_json option lex_result" where
  "close_with l b jo =
     (if u_lexer_peek l \<noteq> b then
        lex_err l (''expect '' @ [CHR 0x27, b, CHR 0x27] @ '', got '' @ [u_lexer_peek l] @ '' at ''
          @ u_lexer_lookahead l)
      else Ok jo (snd (u_lexer_skip l)))"

text \<open>
  The mutually recursive matching functions. Each is written over \<open>rec\<close>, which stands for the calls
  of the others; a round of the loop over elements or members is a call of its own. \<open>json_match n\<close>
  ties the knot, \<open>n\<close> being the nesting of calls that is left.
\<close>

datatype json_call = Call_value | Call_array | Call_array_loop | Call_object | Call_object_loop | Call_pair

type_synonym json_rec = "json_call \<Rightarrow> u_lexer \<Rightarrow> u_json option \<Rightarrow> u_json option lex_result"

definition u_json_match_value :: "json_rec \<Rightarrow> u_lexer \<Rightarrow> u_json option \<Rightarrow> u_json option lex_result" where
  "u_json_match_value rec jl jo =
     (if fst (u_json_match_string_first jl) then u_json_match_string (snd (u_json_match_string_first jl)) jo
      else if fst (u_json_match_number_first jl) then u_json_match_number (snd (u_json_match_number_first jl)) jo
      else if u_json_match_object_first jl then rec Call_object jl jo
      else if u_json_match_array_first jl then rec Call_array jl jo
      else if u_json_match_true_first jl then u_json_match_true jl jo
      else if u_json_match_false_first jl then u_json_match_false jl jo
      else if u_json_match_null_first jl then u_json_match_null jl jo
      else lex_err jl (''value not found at '' @ [CHR 0x27] @ u_lexer_lookahead jl @ [CHR 0x27]))"

definition u_json_match_array :: "json_rec \<Rightarrow> u_lexer \<Rightarrow> u_json option \<Rightarrow> u_json option lex_result" where
  "u_json_match_array rec jl jo =
     (if u_lexer_peek jl \<noteq> CHR ''['' then
        lex_err jl (''expect '' @ [CHR 0x27, CHR ''['', CHR 0x27] @ '', got '' @ [u_lexer_peek jl] @ '' at ''
          @ u_lexer_lookahead jl)
      else lbind (set_type_opt jl jo U_JSON_TYPE_ARRAY) (\<lambda>j l1.
           lbind (rec Call_array_loop l1 j) (\<lambda>j2 l2. close_with l2 CHR '']'' j2)))"

definition array_round :: "json_rec \<Rightarrow> u_lexer \<Rightarrow> u_json option \<Rightarrow> u_json option lex_result" where
  "array_round rec jl jo =
     lbind (lex_skip jl) (\<lambda>c l1.
       if c = CHR '']'' then Ok jo l1
       else
         lbind (new_child l1 jo) (\<lambda>elem l2.
         lbind (rec Call_value l2 elem) (\<lambda>elem2 l3.
         lbind (add_child l3 jo elem2) (\<lambda>jo2 l4.
         lbind (lex_trail l4) (\<lambda>_ l5.
           if u_lexer_peek l5 = CHR '','' then rec Call_array_loop l5 jo2 else Ok jo2 l5)))))"

definition u_json_match_object :: "json_rec \<Rightarrow> u_lexer \<Rightarrow> u_json option \<Rightarrow> u_json option lex_result" where
  "u_json_match_object rec jl jo =
     (if u_lexer_peek jl \<noteq> CHR ''{'' then
        lex_err jl (''expect '' @ [CHR 0x27, CHR ''{'', CHR 0x27] @ '', got '' @ [u_lexer_peek jl] @ '' at ''
          @ u_lexer_lookahead jl)
      else lbind (set_type_opt jl jo U_JSON_TYPE_OBJECT) (\<lambda>j l1.
           lbind (rec Call_object_loop l1 j) (\<lambda>j2 l2. close_with l2 CHR ''}'' j2)))"

definition object_round :: "json_rec \<Rightarrow> u_lexer \<Rightarrow> u_json option \<Rightarrow> u_json option lex_result" where
  "object_round rec jl jo =
     lbind (lex_skip jl) (\<lambda>c l1.
       if c = CHR ''}'' then Ok jo l1
       else if \<not> fst (u_json_match_pair_first l1) then Err l1
       else
         lbind (rec Call_pair (snd (u_json_match_pair_first l1)) jo) (\<lambda>jo2 l2.
         lbind (lex_trail l2) (\<lambda>_ l3.
           if u_lexer_peek l3 = CHR '','' then rec Call_object_loop l3 jo2 else Ok jo2 l3)))"

definition u_json_match_pair :: "json_rec \<Rightarrow> u_lexer \<Rightarrow> u_json option \<Rightarrow> u_json option lex_result" where
  "u_json_match_pair rec jl jo =
     lbind (u_json_match_string jl None) (\<lambda>_ l1.
     lbind (new_child l1 jo) (\<lambda>pair l2.
       case u_lexer_get_match l2 of
         None \<Rightarrow> Fault Uninitialised
       | Some m \<Rightarrow>
           lbind (set_key_opt l2 pair (butlast m)) (\<lambda>pair2 l3.
           lbind (lex_trail l3) (\<lambda>_ l4.
             if u_lexer_peek l4 \<noteq> CHR '':'' then
               lex_err l4 (''expect '' @ [CHR 0x27, CHR '':'', CHR 0x27] @ '', got '' @ [u_lexer_peek l4]
                 @ '' at '' @ u_lexer_lookahead l4)
             else
               lbind (lex_skip l4) (\<lambda>_ l5.
               lbind (rec Call_value l5 pair2) (\<lambda>pair3 l6.
                 add_child l6 jo pair3))))))"

primrec json_match :: "nat \<Rightarrow> json_rec" where
  "json_match 0 = (\<lambda>call jl jo. Fault Out_of_fuel)"
| "json_match (Suc n) = (\<lambda>call jl jo.
     case call of
       Call_value \<Rightarrow> u_json_match_value (json_match n) jl jo
     | Call_array \<Rightarrow> u_json_match_array (json_match n) jl jo
     | Call_array_loop \<Rightarrow> array_round (json_match n) jl jo
     | Call_object \<Rightarrow> u_json_match_object (json_match n) jl jo
     | Call_object_loop \<Rightarrow> object_round (json_match n) jl jo
     | Call_pair \<Rightarrow> u_json_match_pair (json_match n) jl jo)"

text \<open>
  The parser of a text: with \<open>build\<close> it returns the tree, without it it only validates. The result is
  the tree, or the error string. Every call moves the cursor within three calls, so the nesting of
  calls that \<open>json_fuel\<close> allows is enough.
\<close>

definition json_fuel :: "string \<Rightarrow> nat" where
  "json_fuel s = 3 * length s + 3"

datatype json_result = Parsed "u_json option" | Rejected string | Undefined fault

definition u_json_do_parse :: "string \<Rightarrow> bool \<Rightarrow> json_result" where
  "u_json_do_parse json build =
     (case u_lexer_new (Some json) True True of
        None \<Rightarrow> Rejected []
      | Some jl \<Rightarrow>
          (let jo = (if build then Some u_json_new else None);
               (ok, l1) = u_lexer_eat_ws jl;
               rec = json_match (json_fuel json)
           in case
             (if \<not> ok then lex_err l1 ''Empty JSON text !''
              else if u_json_match_object_first l1 then rec Call_object l1 jo
              else if u_json_match_array_first l1 then rec Call_array l1 jo
              else lex_err l1 (''Expect '' @ [CHR 0x27, CHR ''{'', CHR 0x27] @ '' or ''
                @ [CHR 0x27, CHR ''['', CHR 0x27] @ '', got '' @ [CHR 0x27, u_lexer_peek l1, CHR 0x27] @ ''.''))
           of Ok j _ \<Rightarrow> Parsed j | Err l2 \<Rightarrow> Rejected (l_err l2) | Fault e \<Rightarrow> Undefined e))"

definition u_json_decode :: "string \<Rightarrow> json_result" where
  "u_json_decode json = u_json_do_parse json True"

definition u_json_validate :: "string \<Rightarrow> json_result" where
  "u_json_validate json = u_json_do_parse json False"

section \<open>The encoder\<close>

text \<open>A node and the siblings behind it; an unknown type is an error.\<close>

fun u_json_do_encode :: "u_json list \<Rightarrow> string option" where
  "u_json_do_encode [] = Some []"
| "u_json_do_encode (U_json t f k v d i c m cs # sibs) =
     (let ks = (if k \<noteq> [] then [CHR 0x22] @ k @ [CHR 0x22] @ '': '' else []);
          vs = (case t of
             U_JSON_TYPE_STRING \<Rightarrow> Some ([CHR 0x22] @ v @ [CHR 0x22])
           | U_JSON_TYPE_NUMBER \<Rightarrow> Some v
           | U_JSON_TYPE_OBJECT \<Rightarrow> Some ''{ ''
           | U_JSON_TYPE_ARRAY \<Rightarrow> Some ''[ ''
           | U_JSON_TYPE_TRUE \<Rightarrow> Some ''true''
           | U_JSON_TYPE_FALSE \<Rightarrow> Some ''false''
           | U_JSON_TYPE_NULL \<Rightarrow> Some ''null''
           | U_JSON_TYPE_UNKNOWN \<Rightarrow> None);
          close = (case t of U_JSON_TYPE_ARRAY \<Rightarrow> '' ]'' | U_JSON_TYPE_OBJECT \<Rightarrow> '' }'' | _ \<Rightarrow> []);
          comma = (if sibs \<noteq> [] then '', '' else [])
      in case vs of None \<Rightarrow> None
         | Some open \<Rightarrow>
             (case u_json_do_encode cs of None \<Rightarrow> None
              | Some inner \<Rightarrow>
                  (case u_json_do_encode sibs of None \<Rightarrow> None
                   | Some rest \<Rightarrow> Some (ks @ open @ inner @ close @ comma @ rest))))"

definition u_json_encode :: "u_json option \<Rightarrow> string option" where
  "u_json_encode jo = (case jo of None \<Rightarrow> None | Some j \<Rightarrow> u_json_do_encode [j])"

end
