(* ===== verification/Json_Parse.thy ===== *)
theory Json_Parse
  imports Json
begin

text \<open>
  The parser of JSON texts: it always ends within its fuel, what it accepts is well formed, and it
  reads back what the encoder prints.
\<close>

section \<open>Strings\<close>

text \<open>The body of a JSON string, between the quotes.\<close>

fun valid_body :: "string \<Rightarrow> bool" where
  "valid_body [] = True"
| "valid_body (c # w) =
     (if c = CHR 0x22 then False
      else if c = CHR 0x5C then
        (case w of
           [] \<Rightarrow> False
         | e # w1 \<Rightarrow>
             if e = CHR ''u'' then length w1 \<ge> 4 \<and> list_all isxdigit (take 4 w1) \<and> valid_body (drop 4 w1)
             else e \<in> escape_chars \<and> valid_body w1)
      else \<not> iscntrl c \<and> valid_body w)"

lemma u_not_escape [simp]: "CHR ''u'' \<notin> escape_chars"
  by (simp add: escape_chars_def)

lemma xdigit_not_NUL [simp]: "\<not> isxdigit NUL" "\<not> isxdigit CHR 0x22"
  by (simp_all add: isxdigit_def isdigit_def)

lemma cntrl_NUL [simp]: "iscntrl NUL"
  by (simp add: iscntrl_def)

lemma match_hex_ok:
  "u_lexer_lookahead l = c # a @ r \<Longrightarrow> length a = n \<Longrightarrow> list_all isxdigit a \<Longrightarrow> match_hex n l = Ok () (move n l)"
proof (induction n arbitrary: l c a)
  case (Suc n)
  then obtain x b where a: "a = x # b" by (cases a) auto
  then have l1: "u_lexer_lookahead (move 1 l) = x # b @ r" using Suc.prems by simp
  have "lex_next l = Ok x (move 1 l)" using Suc.prems l1 by (simp add: lex_next_eq)
  with Suc.IH [OF l1] Suc.prems a show ?case by simp
qed simp

lemma match_hex_sound:
  "match_hex n l = Ok () l' \<Longrightarrow> u_lexer_lookahead l = c # w \<Longrightarrow>
   n \<le> length w \<and> list_all isxdigit (take n w) \<and> l' = move n l"
proof (induction n arbitrary: l c w)
  case (Suc n)
  then obtain x l1 where l1: "lex_next l = Ok x l1" "isxdigit x" "match_hex n l1 = Ok () l'"
    by (auto simp: lbind_eq_Ok lex_err_def split: if_splits)
  then have "l1 = move 1 l" "x = u_lexer_peek (move 1 l)" using Suc.prems(2) by (auto simp: lex_next_eq)
  with l1(2) Suc.prems(2) obtain b where b: "w = x # b" by (cases w) auto
  with Suc.IH [OF l1(3)] Suc.prems(2) \<open>l1 = move 1 l\<close> l1(2) show ?case by simp
qed simp

lemma string_loop_ok:
  "valid_body w \<Longrightarrow> u_lexer_lookahead l = w @ CHR 0x22 # r \<Longrightarrow>
   string_loop (u_lexer_peek l) l = Ok () (move (length w) l)"
proof (induction w arbitrary: l rule: length_induct)
  case (1 w)
  have IH: "string_loop (u_lexer_peek l') l' = Ok () (move (length w') l')"
    if "length w' < length w" "valid_body w'" "u_lexer_lookahead l' = w' @ CHR 0x22 # r" for w' l'
    using 1(1) that by blast
  show ?case
  proof (cases w)
    case Nil
    with 1 show ?thesis by (simp add: string_loop.simps)
  next
    case (Cons c w0)
    then have pk: "u_lexer_peek l = c" using 1 by simp
    have nx: "lex_next l = Ok (u_lexer_peek (move 1 l)) (move 1 l)"
      using 1(3) Cons by (simp add: lex_next_eq)
    show ?thesis
    proof (cases "c = CHR 0x5C")
      case False
      then have "valid_body w0" "c \<noteq> CHR 0x22" "\<not> iscntrl c" using 1(2) Cons by (auto split: if_splits)
      moreover have "string_loop (u_lexer_peek (move 1 l)) (move 1 l) = Ok () (move (length w0) (move 1 l))"
        using 1(3) Cons \<open>valid_body w0\<close> by (intro IH) simp_all
      ultimately show ?thesis using pk nx False Cons by (subst string_loop.simps) simp
    next
      case True
      then obtain e w1 where w0: "w0 = e # w1" using 1(2) Cons by (cases w0) auto
      have l1: "u_lexer_lookahead (move 1 l) = e # w1 @ CHR 0x22 # r" using 1(3) Cons w0 by simp
      have nx1: "lex_next (move 1 l) = Ok (u_lexer_peek (move 2 l)) (move 2 l)"
        using l1 by (simp add: lex_next_eq numeral_2_eq_2)
      show ?thesis
      proof (cases "e = CHR ''u''")
        case False
        then have "e \<in> escape_chars" "valid_body w1" using 1(2) Cons w0 True by auto
        moreover have "string_loop (u_lexer_peek (move 2 l)) (move 2 l) = Ok () (move (length w1) (move 2 l))"
          using 1(3) Cons w0 \<open>valid_body w1\<close> by (intro IH) simp_all
        ultimately show ?thesis
          using pk nx nx1 l1 True False Cons w0 by (subst string_loop.simps) simp
      next
        case u: True
        then have v: "4 \<le> length w1" "list_all isxdigit (take 4 w1)" "valid_body (drop 4 w1)"
          using 1(2) Cons w0 True by auto
        have "w1 = take 4 w1 @ drop 4 w1" by simp
        then have "u_lexer_lookahead (move 1 l) = e # take 4 w1 @ (drop 4 w1 @ CHR 0x22 # r)"
          using l1 by (metis append_assoc)
        from match_hex_ok [OF this _ v(2)] v(1)
        have hex: "u_json_match_escaped_unicode (move 1 l) = Ok () (move 5 l)"
          by (simp add: u_json_match_escaped_unicode_def)
        have l5: "u_lexer_lookahead (move 5 l) = drop 3 w1 @ CHR 0x22 # r"
          using l1 1(3) Cons w0 v(1) by (simp add: numeral_eq_Suc)
        then have "u_lexer_lookahead (move 5 l) \<noteq> []" by simp
        then have nx5: "lex_next (move 5 l) = Ok (u_lexer_peek (move 6 l)) (move 6 l)"
          by (simp add: lex_next_eq split: list.split)
        have l6: "u_lexer_lookahead (move 6 l) = drop 4 w1 @ CHR 0x22 # r"
          using 1(3) Cons w0 v(1) by (simp add: numeral_eq_Suc)
        have "length (drop 4 w1) < length w" using Cons w0 by simp
        then have "string_loop (u_lexer_peek (move 6 l)) (move 6 l) = Ok () (move (length (drop 4 w1)) (move 6 l))"
          using v(3) l6 by (rule IH)
        then have "string_loop CHR ''u'' (move 5 l) = Ok () (move (length w) l)"
          using nx5 Cons w0 v(1) by (subst string_loop.simps) (simp add: iscntrl_def)
        then show ?thesis
          using pk nx hex True u l1 by (subst string_loop.simps) simp
      qed
    qed
  qed
qed

lemma peek_move_Suc: "u_lexer_lookahead l = c # w \<Longrightarrow> u_lexer_lookahead (move (Suc 0) l) = w"
  by simp

lemma string_loop_sound:
  "string_loop (u_lexer_peek l) l = Ok () l' \<Longrightarrow>
   \<exists>w r. valid_body w \<and> u_lexer_lookahead l = w @ CHR 0x22 # r \<and> l' = move (length w) l"
proof (induction "length (u_lexer_lookahead l)" arbitrary: l rule: less_induct)
  case less
  have ne: "u_lexer_lookahead l \<noteq> []"
  proof
    assume "u_lexer_lookahead l = []"
    with less.prems show False by (subst (asm) string_loop.simps) (simp add: lex_err_def)
  qed
  then obtain c w0 where l0: "u_lexer_lookahead l = c # w0" by (cases "u_lexer_lookahead l") auto
  then have pk: "u_lexer_peek l = c" by simp
  have IH: "\<exists>w r. valid_body w \<and> u_lexer_lookahead m = w @ CHR 0x22 # r \<and> l' = move (length w) m"
    if "length (u_lexer_lookahead m) < Suc (length w0)" "string_loop (u_lexer_peek m) m = Ok () l'" for m
    using less.hyps [of m] that l0 by simp
  have nx: "lex_next l = Ok (u_lexer_peek (move 1 l)) (move 1 l)" using l0 by (simp add: lex_next_eq)
  consider "c = CHR 0x22" | "c = CHR 0x5C" | "c \<noteq> CHR 0x22" "c \<noteq> CHR 0x5C" by blast
  then show ?case
  proof cases
    case 1
    then have "l' = l" using less.prems pk by (subst (asm) string_loop.simps) simp
    with 1 l0 show ?thesis by (intro exI [of _ "[]"] exI [of _ w0]) simp
  next
    case 3
    then have "\<not> iscntrl c" "string_loop (u_lexer_peek (move 1 l)) (move 1 l) = Ok () l'"
      using less.prems pk nx by (subst (asm) string_loop.simps, simp add: lex_err_def split: if_splits)+
    moreover from this obtain w r where "valid_body w" "w0 = w @ CHR 0x22 # r" "l' = move (length w) (move 1 l)"
      using IH [of "move 1 l"] l0 by auto
    ultimately show ?thesis using 3 l0 by (intro exI [of _ "c # w"] exI [of _ r]) simp
  next
    case 2
    have st: "lbind (lex_next l) (\<lambda>c1 l1.
          if c1 = CHR ''u'' then lbind (u_json_match_escaped_unicode l1) (\<lambda>_ l2. string_loop c1 l2)
          else if c1 \<in> escape_chars then lbind (lex_next l1) (\<lambda>c2 l2. string_loop c2 l2)
          else lex_err l1 (''invalid char '' @ [c1] @ '' in escape'')) = Ok () l'"
      using less.prems pk 2 by (subst (asm) string_loop.simps) simp
    define e where "e = u_lexer_peek (move 1 l)"
    show ?thesis
    proof (cases "e = CHR ''u''")
      case False
      then have ee: "e \<in> escape_chars" "lbind (lex_next (move 1 l)) (\<lambda>c2 l2. string_loop c2 l2) = Ok () l'"
        using st nx unfolding e_def by (auto simp: lex_err_def split: if_splits)
      then obtain c2 l2 where l2: "lex_next (move 1 l) = Ok c2 l2" "string_loop c2 l2 = Ok () l'"
        by (auto simp: lbind_eq_Ok)
      have "w0 \<noteq> []" using l2(1) l0 by (auto simp: lex_next_eq lex_err_def)
      then obtain w1 where w1: "w0 = e # w1" using l0 unfolding e_def by (cases w0) auto
      have "lex_next (move 1 l) = Ok (u_lexer_peek (move 2 l)) (move 2 l)"
        using w1 l0 by (simp add: lex_next_eq numeral_2_eq_2)
      with l2(1) have m2: "l2 = move 2 l" "c2 = u_lexer_peek (move 2 l)" by simp_all
      obtain w r where "valid_body w" "w1 = w @ CHR 0x22 # r" "l' = move (length w) (move 2 l)"
        using IH [of "move 2 l"] l2(2) w1 m2 l0 by (auto simp: numeral_2_eq_2)
      with 2 w1 l0 False ee(1) show ?thesis
        by (intro exI [of _ "c # e # w"] exI [of _ r]) simp
    next
      case True
      then obtain u2 l2 where l2: "u_json_match_escaped_unicode (move 1 l) = Ok u2 l2" "string_loop CHR ''u'' l2 = Ok () l'"
        using st nx unfolding e_def by (auto simp: lbind_eq_Ok)
      obtain w1 where w1: "w0 = e # w1" using True l0 unfolding e_def by (cases w0) auto
      have hx: "4 \<le> length w1" "list_all isxdigit (take 4 w1)" "l2 = move 4 (move 1 l)"
        using match_hex_sound [of 4 "move 1 l" l2 e w1] l2(1) w1 l0
        by (simp_all add: u_json_match_escaped_unicode_def)
      have "lbind (lex_next l2) string_loop = Ok () l'"
        using l2(2) by (subst (asm) string_loop.simps) (simp add: iscntrl_def)
      then obtain c3 l3 where l3: "lex_next l2 = Ok c3 l3" "string_loop c3 l3 = Ok () l'"
        by (auto simp: lbind_eq_Ok)
      then have m6: "l3 = move 6 l" "c3 = u_lexer_peek (move 6 l)"
        using hx(3) by (auto simp: lex_next_eq lex_err_def split: list.splits)
      have d6: "u_lexer_lookahead (move 6 l) = drop 4 w1" using l0 w1 by (simp add: numeral_eq_Suc)
      obtain w r where w: "valid_body w" "drop 4 w1 = w @ CHR 0x22 # r" "l' = move (length w) (move 6 l)"
      proof -
        have "length (u_lexer_lookahead (move 6 l)) < Suc (length w0)" using d6 w1 by simp
        from IH [OF this] l3(2) m6 d6 that show ?thesis by auto
      qed
      have "w1 = take 4 w1 @ w @ CHR 0x22 # r" using w(2) by (metis append_take_drop_id)
      moreover have "length (take 4 w1) = 4" using hx(1) by simp
      ultimately show ?thesis
        using 2 w1 l0 True hx(2) w(1,3)
        by (intro exI [of _ "c # e # take 4 w1 @ w"] exI [of _ r]) simp
    qed
  qed
qed

section \<open>Numbers\<close>

text \<open>What is left of a text behind a number at its start.\<close>

definition digits1 :: "string \<Rightarrow> string option" where
  "digits1 w = (case w of [] \<Rightarrow> None | c # r \<Rightarrow> if isdigit c then Some (dropWhile isdigit r) else None)"

definition int_rest :: "string \<Rightarrow> string option" where
  "int_rest w =
     (let w1 = (case w of c # r \<Rightarrow> if c = CHR ''-'' then r else w | [] \<Rightarrow> [])
      in case w1 of [] \<Rightarrow> None | c # r \<Rightarrow> if c = CHR ''0'' then Some r else digits1 w1)"

definition frac_rest :: "string \<Rightarrow> string option" where
  "frac_rest w = (case w of [] \<Rightarrow> Some [] | c # r \<Rightarrow> if c = CHR ''.'' then digits1 r else Some w)"

definition exp_rest :: "string \<Rightarrow> string option" where
  "exp_rest w =
     (case w of [] \<Rightarrow> Some []
      | c # r \<Rightarrow>
        if c = CHR ''e'' \<or> c = CHR ''E''
        then digits1 (case r of [] \<Rightarrow> [] | s # r1 \<Rightarrow> if s = CHR ''+'' \<or> s = CHR ''-'' then r1 else r)
        else Some w)"

definition num_rest :: "string \<Rightarrow> string option" where
  "num_rest w = Option.bind (int_rest w) (\<lambda>r. Option.bind (frac_rest r) exp_rest)"

definition valid_number :: "string \<Rightarrow> bool" where
  "valid_number w = (num_rest w = Some [])"

text \<open>What a matching function for such a reader does.\<close>

definition reads :: "(u_lexer \<Rightarrow> unit lex_result) \<Rightarrow> (string \<Rightarrow> string option) \<Rightarrow> bool" where
  "reads m f = (\<forall>l. case f (u_lexer_lookahead l) of
       None \<Rightarrow> (\<exists>l'. m l = Err l')
     | Some v \<Rightarrow> (\<exists>n. m l = Ok () (move n l) \<and> n \<le> length (u_lexer_lookahead l) \<and> drop n (u_lexer_lookahead l) = v))"

lemma drop_takeWhile: "drop (length (takeWhile P w)) w = dropWhile P w"
  by (induction w) auto

lemma digits1_reads:
  assumes "u_lexer_lookahead l = c # w" "isdigit c"
  shows "\<exists>n. lbind (lex_next l) (\<lambda>_ l2. lex_while isdigit l2) = Ok () (move n l) \<and> n \<le> Suc (length w)
    \<and> drop n (c # w) = dropWhile isdigit w"
proof -
  have "lbind (lex_next l) (\<lambda>_ l2. lex_while isdigit l2) = Ok () (move (Suc (length (takeWhile isdigit w))) l)"
    using assms(1) by (simp add: lex_next_eq lex_while_eq)
  then show ?thesis
    by (intro exI conjI, assumption) (simp_all add: length_takeWhile_le drop_takeWhile)
qed

lemma readsI:
  assumes "\<And>l. f (u_lexer_lookahead l) = None \<Longrightarrow> \<exists>l'. m l = Err l'"
    and "\<And>l v. f (u_lexer_lookahead l) = Some v \<Longrightarrow>
      \<exists>n. m l = Ok () (move n l) \<and> n \<le> length (u_lexer_lookahead l) \<and> drop n (u_lexer_lookahead l) = v"
  shows "reads m f"
  using assms by (auto simp: reads_def split: option.split)

lemma readsN: "reads m f \<Longrightarrow> f (u_lexer_lookahead l) = None \<Longrightarrow> \<exists>l'. m l = Err l'"
  unfolding reads_def by (drule spec [of _ l]) simp

lemma readsS:
  "reads m f \<Longrightarrow> f (u_lexer_lookahead l) = Some v \<Longrightarrow>
   \<exists>n. m l = Ok () (move n l) \<and> n \<le> length (u_lexer_lookahead l) \<and> drop n (u_lexer_lookahead l) = v"
  unfolding reads_def by (drule spec [of _ l]) simp

lemma reads_bind:
  assumes "reads m f" "reads m' f'"
  shows "reads (\<lambda>l. lbind (m l) (\<lambda>_ l1. m' l1)) (\<lambda>w. Option.bind (f w) f')"
proof (rule readsI)
  fix l
  assume b: "Option.bind (f (u_lexer_lookahead l)) f' = None"
  show "\<exists>l'. lbind (m l) (\<lambda>_ l1. m' l1) = Err l'"
  proof (cases "f (u_lexer_lookahead l)")
    case None
    then obtain l' where "m l = Err l'" using readsN [OF assms(1)] by blast
    then show ?thesis by simp
  next
    case (Some u)
    then obtain n where "m l = Ok () (move n l)" "drop n (u_lexer_lookahead l) = u"
      using readsS [OF assms(1)] by blast
    with b Some readsN [OF assms(2), of "move n l"] show ?thesis by auto
  qed
next
  fix l v
  assume "Option.bind (f (u_lexer_lookahead l)) f' = Some v"
  then obtain u where u: "f (u_lexer_lookahead l) = Some u" "f' u = Some v"
    by (cases "f (u_lexer_lookahead l)") auto
  obtain n where n: "m l = Ok () (move n l)" "n \<le> length (u_lexer_lookahead l)" "drop n (u_lexer_lookahead l) = u"
    using readsS [OF assms(1) u(1)] by blast
  obtain k where k: "m' (move n l) = Ok () (move k (move n l))" "k \<le> length u" "drop k u = v"
    using readsS [OF assms(2), of "move n l" v] n(3) u(2) by auto
  have "lbind (m l) (\<lambda>_ l1. m' l1) = Ok () (move (n + k) l)" using n(1) k(1) by simp
  moreover have "n + k \<le> length (u_lexer_lookahead l)" using n(2,3) k(2) by auto
  moreover have "drop (n + k) (u_lexer_lookahead l) = v" 
    unfolding n(3) [symmetric] k(3) [symmetric] by (simp add: add.commute)
  ultimately show "\<exists>n. lbind (m l) (\<lambda>_ l1. m' l1) = Ok () (move n l) \<and> n \<le> length (u_lexer_lookahead l)
      \<and> drop n (u_lexer_lookahead l) = v"
    by blast
qed

lemma digits1_m:
  assumes "u_lexer_lookahead l = w"
  shows "case digits1 w of
      None \<Rightarrow> \<not> isdigit (u_lexer_peek l)
    | Some v \<Rightarrow> isdigit (u_lexer_peek l) \<and>
        (\<exists>n. lbind (lex_next l) (\<lambda>_ l2. lex_while isdigit l2) = Ok () (move n l) \<and> n \<le> length w \<and> drop n w = v)"
proof (cases w)
  case Nil with assms show ?thesis by (simp add: digits1_def)
next
  case (Cons c r)
  with assms digits1_reads [of l c r] show ?thesis by (auto simp: digits1_def)
qed

lemma match_int_reads: "reads u_json_match_int int_rest"
proof -
  define g where "g l = (if u_lexer_peek l = CHR ''0'' then lbind (lex_next l) (\<lambda>_ l2. Ok () l2)
       else if isdigit (u_lexer_peek l) then lbind (lex_next l) (\<lambda>_ l2. lex_while isdigit l2)
       else lex_err l (''bad int syntax at '' @ u_lexer_lookahead l))" for l
  define gr where "gr w = (case w of [] \<Rightarrow> None | c # r \<Rightarrow> if c = CHR ''0'' then Some r else digits1 w)" for w
  have g: "reads g gr"
  proof (rule readsI)
    fix l assume "gr (u_lexer_lookahead l) = None"
    then show "\<exists>l'. g l = Err l'"
      using digits1_m [of l "u_lexer_lookahead l"]
      by (cases "u_lexer_lookahead l") (auto simp: gr_def g_def lex_err_def split: if_splits)
  next
    fix l v assume "gr (u_lexer_lookahead l) = Some v"
    then show "\<exists>n. g l = Ok () (move n l) \<and> n \<le> length (u_lexer_lookahead l) \<and> drop n (u_lexer_lookahead l) = v"
      using digits1_m [of l "u_lexer_lookahead l"]
      by (cases "u_lexer_lookahead l")
        (auto simp: gr_def g_def lex_next_eq split: if_splits intro!: exI [of _ "Suc 0"])
  qed
  show ?thesis
  proof (rule readsI)
    fix l assume n: "int_rest (u_lexer_lookahead l) = None"
    show "\<exists>l'. u_json_match_int l = Err l'"
    proof (cases "u_lexer_peek l = CHR ''-''")
      case True
      then obtain r where r: "u_lexer_lookahead l = CHR ''-'' # r" by (cases "u_lexer_lookahead l") auto
      with n have "gr r = None" by (simp add: int_rest_def gr_def)
      then have "\<exists>l'. g (move 1 l) = Err l'" using r by (intro readsN [OF g]) simp
      then show ?thesis using True r by (simp add: u_json_match_int_def lex_next_eq g_def)
    next
      case False
      then have "gr (u_lexer_lookahead l) = None"
        using n by (cases "u_lexer_lookahead l") (auto simp: int_rest_def gr_def)
      then have "\<exists>l'. g l = Err l'" by (rule readsN [OF g])
      then show ?thesis using False by (simp add: u_json_match_int_def g_def)
    qed
  next
    fix l v assume n: "int_rest (u_lexer_lookahead l) = Some v"
    show "\<exists>n. u_json_match_int l = Ok () (move n l) \<and> n \<le> length (u_lexer_lookahead l) \<and> drop n (u_lexer_lookahead l) = v"
    proof (cases "u_lexer_peek l = CHR ''-''")
      case True
      then obtain r where r: "u_lexer_lookahead l = CHR ''-'' # r" by (cases "u_lexer_lookahead l") auto
      with n have "gr r = Some v" by (simp add: int_rest_def gr_def)
      then obtain k where "g (move 1 l) = Ok () (move k (move 1 l))" "k \<le> length r" "drop k r = v"
        using readsS [OF g, of "move 1 l" v] r by auto
      then show ?thesis
        using True r by (intro exI [of _ "Suc k"]) (simp add: u_json_match_int_def lex_next_eq g_def)
    next
      case False
      then have "gr (u_lexer_lookahead l) = Some v"
        using n by (cases "u_lexer_lookahead l") (auto simp: int_rest_def gr_def)
      then show ?thesis using readsS [OF g, of l v] False
        by (simp add: u_json_match_int_def g_def)
    qed
  qed
qed

lemma match_frac_reads:
  "reads (\<lambda>l. if u_json_match_frac_first (u_lexer_peek l) then u_json_match_frac l else Ok () l) frac_rest"
proof (rule readsI)
  fix l assume "frac_rest (u_lexer_lookahead l) = None"
  then obtain r where r: "u_lexer_lookahead l = CHR ''.'' # r" "digits1 r = None"
    by (auto simp: frac_rest_def split: list.splits if_splits)
  with digits1_m [of "move 1 l" r]
  show "\<exists>l'. (if u_json_match_frac_first (u_lexer_peek l) then u_json_match_frac l else Ok () l) = Err l'"
    by (simp add: u_json_match_frac_first_def u_json_match_frac_def lex_next_eq lex_err_def)
next
  fix l v assume f: "frac_rest (u_lexer_lookahead l) = Some v"
  show "\<exists>n. (if u_json_match_frac_first (u_lexer_peek l) then u_json_match_frac l else Ok () l) = Ok () (move n l)
     \<and> n \<le> length (u_lexer_lookahead l) \<and> drop n (u_lexer_lookahead l) = v"
  proof (cases "u_lexer_peek l = CHR ''.''")
    case True
    then obtain r where r: "u_lexer_lookahead l = CHR ''.'' # r" by (cases "u_lexer_lookahead l") auto
    with f obtain c w where c: "r = c # w" "isdigit c" "v = dropWhile isdigit w"
      by (auto simp: frac_rest_def digits1_def split: list.splits if_splits)
    then have "lex_while isdigit (move 1 l) = Ok () (move (Suc (length (takeWhile isdigit w))) (move 1 l))"
      using r by (simp add: lex_while_eq)
    then show ?thesis
      using r c by (intro exI [of _ "Suc (Suc (length (takeWhile isdigit w)))"])
        (simp add: u_json_match_frac_first_def u_json_match_frac_def lex_next_eq length_takeWhile_le drop_takeWhile)
  next
    case False
    then show ?thesis
      using f by (intro exI [of _ 0])
        (cases "u_lexer_lookahead l", auto simp: u_json_match_frac_first_def frac_rest_def)
  qed
qed

lemma match_exp_reads:
  "reads (\<lambda>l. if u_json_match_exp_first (u_lexer_peek l) then u_json_match_exp l else Ok () l) exp_rest"
proof (rule readsI)
  fix l assume n: "exp_rest (u_lexer_lookahead l) = None"
  then obtain c r where r: "u_lexer_lookahead l = c # r" "c = CHR ''e'' \<or> c = CHR ''E''"
    "digits1 (case r of [] \<Rightarrow> [] | s # r1 \<Rightarrow> if s = CHR ''+'' \<or> s = CHR ''-'' then r1 else r) = None"
    by (auto simp: exp_rest_def split: list.splits if_splits)
  have "\<exists>l'. u_json_match_exp l = Err l'"
  proof (cases "\<exists>s r1. r = s # r1 \<and> (s = CHR ''+'' \<or> s = CHR ''-'')")
    case True
    then obtain s r1 where s: "r = s # r1" "s = CHR ''+'' \<or> s = CHR ''-''" by blast
    then have "digits1 r1 = None" using r(3) by auto
    moreover have "u_lexer_lookahead (move (Suc (Suc 0)) l) = r1" using r(1) s(1) by simp
    ultimately have "\<not> isdigit (u_lexer_peek (move (Suc (Suc 0)) l))"
      using digits1_m [of "move (Suc (Suc 0)) l" r1] by simp
    with r(1,2) s show ?thesis by (auto simp: u_json_match_exp_def lex_next_eq lex_err_def)
  next
    case False
    then have "digits1 r = None" "u_lexer_peek (move 1 l) \<noteq> CHR ''+''" "u_lexer_peek (move 1 l) \<noteq> CHR ''-''"
      using r(1,3) by (cases r; auto)+
    with digits1_m [of "move 1 l" r] r(1,2) show ?thesis
      by (auto simp: u_json_match_exp_def lex_next_eq lex_err_def)
  qed
  then show "\<exists>l'. (if u_json_match_exp_first (u_lexer_peek l) then u_json_match_exp l else Ok () l) = Err l'"
    using r by (auto simp: u_json_match_exp_first_def)
next
  fix l v assume f: "exp_rest (u_lexer_lookahead l) = Some v"
  show "\<exists>n. (if u_json_match_exp_first (u_lexer_peek l) then u_json_match_exp l else Ok () l) = Ok () (move n l)
     \<and> n \<le> length (u_lexer_lookahead l) \<and> drop n (u_lexer_lookahead l) = v"
  proof (cases "u_lexer_peek l = CHR ''e'' \<or> u_lexer_peek l = CHR ''E''")
    case True
    then obtain c r where r: "u_lexer_lookahead l = c # r" "c = CHR ''e'' \<or> c = CHR ''E''"
      by (cases "u_lexer_lookahead l") auto
    define k where "k = (case r of s # r1 \<Rightarrow> if s = CHR ''+'' \<or> s = CHR ''-'' then 2 else Suc 0 | [] \<Rightarrow> Suc 0)"
    have d: "digits1 (u_lexer_lookahead (move k l)) = Some v"
      using f r by (cases r) (auto simp: exp_rest_def k_def numeral_2_eq_2)
    then obtain x w where x: "u_lexer_lookahead (move k l) = x # w" "isdigit x" "v = dropWhile isdigit w"
      by (auto simp: digits1_def split: list.splits if_splits)
    have "u_json_match_exp l = lex_while isdigit (move k l)"
      using r x(1,2) by (cases r) (auto simp: u_json_match_exp_def lex_next_eq k_def numeral_2_eq_2)
    also have "\<dots> = Ok () (move (k + Suc (length (takeWhile isdigit w))) l)"
      using x(1,2) by (simp add: lex_while_eq)
    finally have m: "u_json_match_exp l = Ok () (move (k + Suc (length (takeWhile isdigit w))) l)" .
    have kl: "drop k (u_lexer_lookahead l) = x # w" using x(1) by simp
    have "length (drop k (u_lexer_lookahead l)) = Suc (length w)" unfolding kl by simp
    then have len: "length (u_lexer_lookahead l) = k + Suc (length w)" by simp
    have "drop (k + Suc (length (takeWhile isdigit w))) (u_lexer_lookahead l) = v"
      using kl x(3) by (metis add.commute drop_Suc_Cons drop_drop drop_takeWhile)
    then show ?thesis
      using m len True length_takeWhile_le [of isdigit w]
      by (intro exI [of _ "k + Suc (length (takeWhile isdigit w))"]) (auto simp: u_json_match_exp_first_def)
  next
    case False
    then show ?thesis
      using f by (intro exI [of _ 0])
        (cases "u_lexer_lookahead l", auto simp: u_json_match_exp_first_def exp_rest_def)
  qed
qed

lemma lbind_assoc: "lbind (lbind a f) g = lbind a (\<lambda>x l. lbind (f x l) g)"
  by (cases a) simp_all

definition num_scan :: "u_lexer \<Rightarrow> unit lex_result" where
  "num_scan l = lbind (u_json_match_int l) (\<lambda>_ l1.
     lbind (if u_json_match_frac_first (u_lexer_peek l1) then u_json_match_frac l1 else Ok () l1) (\<lambda>_ l2.
       if u_json_match_exp_first (u_lexer_peek l2) then u_json_match_exp l2 else Ok () l2))"

lemma num_scan_reads: "reads num_scan num_rest"
  unfolding num_scan_def [abs_def] num_rest_def [abs_def]
  by (intro reads_bind match_int_reads match_frac_reads match_exp_reads)

lemma match_number_scan:
  "u_json_match_number jl jo = lbind (num_scan jl) (\<lambda>_ l3.
       let l4 = u_lexer_record_rmatch l3 in
       case u_lexer_get_match l4 of
         None \<Rightarrow> Fault Uninitialised
       | Some m \<Rightarrow>
           (case jo of
              None \<Rightarrow> Ok None l4
            | Some j \<Rightarrow>
                lbind (set_or_err l4 (u_json_set_type j U_JSON_TYPE_NUMBER)) (\<lambda>j1 l5.
                lbind (set_or_err l5 (u_json_set_val j1 (butlast m))) (\<lambda>j2 l6. Ok (Some j2) l6))))"
  unfolding u_json_match_number_def num_scan_def lbind_assoc ..

text \<open>A number followed by a character that no number contains is read as it is.\<close>

definition stops :: "char \<Rightarrow> bool" where
  "stops x = (\<not> isdigit x \<and> x \<noteq> CHR ''.'' \<and> x \<noteq> CHR ''e'' \<and> x \<noteq> CHR ''E'')"

lemma dropWhile_stop: "\<not> isdigit x \<Longrightarrow> dropWhile isdigit (u @ x # r) = dropWhile isdigit u @ x # r"
  by (induction u) auto

lemma digits1_stop: "digits1 w = Some v \<Longrightarrow> stops x \<Longrightarrow> digits1 (w @ x # r) = Some (v @ x # r)"
  by (auto simp: digits1_def stops_def dropWhile_stop split: list.splits if_splits)

lemma int_rest_stop: "int_rest w = Some v \<Longrightarrow> stops x \<Longrightarrow> int_rest (w @ x # r) = Some (v @ x # r)"
  using digits1_stop [of "c # u" for c u] by (auto simp: int_rest_def Let_def split: list.splits if_splits)

lemma frac_rest_stop: "frac_rest w = Some v \<Longrightarrow> stops x \<Longrightarrow> frac_rest (w @ x # r) = Some (v @ x # r)"
  using digits1_stop by (auto simp: frac_rest_def stops_def split: list.splits if_splits)

lemma exp_rest_stop: "exp_rest w = Some v \<Longrightarrow> stops x \<Longrightarrow> exp_rest (w @ x # r) = Some (v @ x # r)"
  by (auto simp: exp_rest_def stops_def digits1_def dropWhile_stop split: list.splits if_splits)

lemma num_rest_stop:
  assumes "valid_number w" "stops x"
  shows "num_rest (w @ x # r) = Some (x # r)"
proof -
  obtain a b where "int_rest w = Some a" "frac_rest a = Some b" "exp_rest b = Some []"
    using assms(1) by (auto simp: valid_number_def num_rest_def bind_eq_Some_conv)
  with assms(2) show ?thesis
    using int_rest_stop frac_rest_stop exp_rest_stop by (simp add: num_rest_def)
qed

section \<open>Termination\<close>

text \<open>The characters left; a matching function leaves no more than it found and has enough fuel.\<close>

abbreviation remaining :: "u_lexer \<Rightarrow> nat" where
  "remaining l \<equiv> length (u_lexer_lookahead l)"

definition shrinks :: "'a lex_result \<Rightarrow> u_lexer \<Rightarrow> bool" where
  "shrinks r l = ((\<forall>x l'. r = Ok x l' \<longrightarrow> remaining l' \<le> remaining l) \<and> r \<noteq> Fault Out_of_fuel)"

lemma shrinks_simps [simp]:
  "shrinks (Ok x l') l \<longleftrightarrow> remaining l' \<le> remaining l" "shrinks (Err l') l" "shrinks (lex_err l' m) l"
  "shrinks (Fault e) l \<longleftrightarrow> e \<noteq> Out_of_fuel"
  by (auto simp: shrinks_def lex_err_def)

lemma shrinks_bind:
  assumes "shrinks r l" "\<And>x l'. r = Ok x l' \<Longrightarrow> remaining l' \<le> remaining l \<Longrightarrow> shrinks (f x l') l"
  shows "shrinks (lbind r f) l"
  using assms by (cases r) auto

lemma shrinks_trans: "shrinks r l' \<Longrightarrow> remaining l' \<le> remaining l \<Longrightarrow> shrinks r l"
  by (auto simp: shrinks_def)

lemma shrinks_set [simp]: "shrinks (set_or_err l' r) l \<longleftrightarrow> fst r \<longrightarrow> remaining l' \<le> remaining l"
  by (simp add: set_or_err_def)

lemma set_or_err_Ok: "set_or_err l r = Ok x l' \<longleftrightarrow> fst r \<and> x = snd r \<and> l' = l"
  by (auto simp: set_or_err_def)

lemma lex_next_shrinks: "remaining l' \<le> remaining l \<Longrightarrow> shrinks (lex_next l') l"
  by (auto simp: lex_next_eq split: list.split)

lemma lex_skip_strict: "lex_skip l = Ok c l' \<Longrightarrow> remaining l' < remaining l"
  by (auto simp: lex_skip_eq lex_err_def Let_def split: list.splits if_splits)

lemma lex_skip_shrinks: "remaining l' \<le> remaining l \<Longrightarrow> shrinks (lex_skip l') l"
  by (auto simp: lex_skip_eq Let_def split: list.splits)

lemma skip_le: "remaining (snd (u_lexer_skip l)) \<le> remaining l"
  by (auto simp: u_lexer_skip_def u_lexer_next_ex_def u_lexer_eat_ws_def eat_ws_loop_eq incr_move Let_def)

lemma lex_trail_shrinks: "shrinks (lex_trail l) l"
  by (auto simp: lex_trail_def intro!: shrinks_bind lex_skip_shrinks)

lemma match_hex_shrinks: "remaining l' \<le> remaining l \<Longrightarrow> shrinks (match_hex n l') l"
  by (induction n arbitrary: l') (auto intro!: shrinks_bind lex_next_shrinks)

lemma string_loop_shrinks: "shrinks (string_loop c l) l"
proof (induction c l rule: string_loop.induct)
  case (1 c l)
  have nx: "shrinks (string_loop c1 l1) l"
    if "c \<noteq> CHR 0x22" "c \<noteq> CHR 0x5C" "\<not> iscntrl c" "lex_next l = Ok c1 l1" for c1 l1
  proof -
    have "remaining l1 \<le> remaining l" using that(4) by (auto simp: lex_next_eq lex_err_def split: list.splits)
    with 1(3) [OF that] show ?thesis using shrinks_trans by blast
  qed
  have esc: "shrinks (string_loop c2 l2) l"
    if "c \<noteq> CHR 0x22" "c = CHR 0x5C" "lex_next l = Ok c1 l1" "c1 \<noteq> CHR ''u''" "c1 \<in> escape_chars"
      "lex_next l1 = Ok c2 l2" for c1 l1 c2 l2
  proof -
    have "remaining l2 \<le> remaining l1" "remaining l1 \<le> remaining l"
      using that(3,6) by (auto simp: lex_next_eq lex_err_def split: list.splits)
    with 1(2) [OF that] show ?thesis using shrinks_trans le_trans by blast
  qed
  have uni: "shrinks (string_loop c1 l2) l"
    if "c \<noteq> CHR 0x22" "c = CHR 0x5C" "lex_next l = Ok c1 l1" "c1 = CHR ''u''"
      "u_json_match_escaped_unicode l1 = Ok x l2" for c1 l1 x l2
  proof -
    have "remaining l1 \<le> remaining l" using that(3) by (auto simp: lex_next_eq lex_err_def split: list.splits)
    moreover have "remaining l2 \<le> remaining l1"
      using match_hex_shrinks [of l1 l1 4] that(5) by (auto simp: u_json_match_escaped_unicode_def)
    ultimately show ?thesis using 1(1) [OF that] shrinks_trans le_trans by blast
  qed
  consider "c = CHR 0x22" | "c = CHR 0x5C" | "c \<noteq> CHR 0x22" "c \<noteq> CHR 0x5C" by blast
  then show ?case
  proof cases
    case 1 then show ?thesis by (simp add: string_loop.simps)
  next
    case 2
    then have st: "string_loop c l = lbind (lex_next l) (\<lambda>c1 l1.
          if c1 = CHR ''u'' then lbind (u_json_match_escaped_unicode l1) (\<lambda>_ l2. string_loop c1 l2)
          else if c1 \<in> escape_chars then lbind (lex_next l1) (\<lambda>c2 l2. string_loop c2 l2)
          else lex_err l1 (''invalid char '' @ [c1] @ '' in escape''))"
      by (subst string_loop.simps) simp
    have "shrinks (if c1 = CHR ''u'' then lbind (u_json_match_escaped_unicode l1) (\<lambda>_ l2. string_loop c1 l2)
          else if c1 \<in> escape_chars then lbind (lex_next l1) (\<lambda>c2 l2. string_loop c2 l2)
          else lex_err l1 (''invalid char '' @ [c1] @ '' in escape'')) l"
      if n: "lex_next l = Ok c1 l1" "remaining l1 \<le> remaining l" for c1 l1
    proof -
      consider "c1 = CHR ''u''" | "c1 \<noteq> CHR ''u''" "c1 \<in> escape_chars" | "c1 \<noteq> CHR ''u''" "c1 \<notin> escape_chars" by blast
      then show ?thesis
      proof cases
        case u: 1
        have "shrinks (lbind (u_json_match_escaped_unicode l1) (\<lambda>_ l2. string_loop c1 l2)) l"
        proof (rule shrinks_bind)
          show "shrinks (u_json_match_escaped_unicode l1) l"
            unfolding u_json_match_escaped_unicode_def using n(2) by (rule match_hex_shrinks)
        qed (use uni [OF _ 2 n(1) u] 2 in auto)
        with u show ?thesis by simp
      next
        case e: 2
        have "shrinks (lbind (lex_next l1) (\<lambda>c2 l2. string_loop c2 l2)) l"
        proof (rule shrinks_bind)
          show "shrinks (lex_next l1) l" using n(2) by (rule lex_next_shrinks)
        qed (use esc [OF _ 2 n(1) e] 2 in auto)
        with e show ?thesis by simp
      qed simp
    qed
    then show ?thesis unfolding st by (intro shrinks_bind lex_next_shrinks) auto
  next
    case 3
    show ?thesis
    proof (cases "iscntrl c")
      case True
      then have "string_loop c l = lex_err l ''control character in string''"
        using 3 by (subst string_loop.simps) simp
      then show ?thesis by simp
    next
      case False
      then have st: "string_loop c l = lbind (lex_next l) (\<lambda>c1 l1. string_loop c1 l1)"
        using 3 by (subst string_loop.simps) simp
      show ?thesis unfolding st using nx [OF 3 False] by (intro shrinks_bind lex_next_shrinks) auto
    qed
  qed
qed

lemma match_string_shrinks: "shrinks (u_json_match_string l jo) l"
  unfolding u_json_match_string_def
  using shrinks_trans [OF string_loop_shrinks]
  by (auto intro!: shrinks_bind lex_next_shrinks split: option.split simp: set_or_err_Ok)

lemma num_scan_shrinks: "shrinks (num_scan l) l"
proof (cases "num_rest (u_lexer_lookahead l)")
  case None
  then obtain l' where "num_scan l = Err l'" using readsN [OF num_scan_reads] by blast
  then show ?thesis by simp
next
  case (Some v)
  then obtain n where "num_scan l = Ok () (move n l)" using readsS [OF num_scan_reads] by blast
  then show ?thesis by simp
qed

lemma match_number_shrinks: "shrinks (u_json_match_number l jo) l"
  unfolding match_number_scan Let_def
  by (auto intro!: shrinks_bind num_scan_shrinks split: option.split simp: set_or_err_Ok)

lemma match_rem_shrinks: "remaining l' \<le> remaining l \<Longrightarrow> shrinks (match_rem l' w) l"
  by (induction w arbitrary: l') (auto intro!: shrinks_bind lex_skip_shrinks)

lemma match_seq_shrinks: "shrinks (u_json_match_seq l jo ty f w) l"
  unfolding u_json_match_seq_def
  by (auto intro!: shrinks_bind lex_skip_shrinks match_rem_shrinks split: option.split simp: set_or_err_Ok)

fun json_need :: "json_call \<Rightarrow> nat \<Rightarrow> nat" where
  "json_need Call_value r = 3 * r + 3"
| "json_need Call_array r = 3 * r + 2"
| "json_need Call_object r = 3 * r + 2"
| "json_need Call_array_loop r = 3 * r + 1"
| "json_need Call_object_loop r = 3 * r + 1"
| "json_need Call_pair r = 3 * r + 1"

text \<open>Calls on a cursor not before \<open>l\<close> shrink what is left.\<close>

definition good_rec :: "json_rec \<Rightarrow> nat \<Rightarrow> bool" where
  "good_rec rec n = (\<forall>call l jo. json_need call (remaining l) \<le> n \<longrightarrow> shrinks (rec call l jo) l)"

lemma good_recD:
  "good_rec rec n \<Longrightarrow> json_need call (remaining l') \<le> n \<Longrightarrow> remaining l' \<le> remaining l
   \<Longrightarrow> shrinks (rec call l' jo) l"
  unfolding good_rec_def using shrinks_trans by blast

lemma match_value_shrinks:
  assumes "good_rec rec n" "3 * remaining l + 2 \<le> n"
  shows "shrinks (u_json_match_value rec l jo) l"
proof -
  have "shrinks (rec Call_object l jo) l" "shrinks (rec Call_array l jo) l"
    using assms by (auto intro: good_recD)
  moreover have "shrinks (u_json_match_string (u_lexer_record_lmatch l) jo) l"
    using shrinks_trans [OF match_string_shrinks] by simp
  moreover have "shrinks (u_json_match_number (u_lexer_record_lmatch l) jo) l"
    using shrinks_trans [OF match_number_shrinks] by simp
  ultimately show ?thesis
    by (simp add: u_json_match_value_def u_json_match_string_first_def u_json_match_number_first_def
        u_json_match_true_def u_json_match_false_def u_json_match_null_def match_seq_shrinks Let_def)
qed

lemma set_type_opt_shrinks: "shrinks (set_type_opt l jo ty) l"
  by (auto simp: set_type_opt_def set_or_err_Ok intro!: shrinks_bind split: option.split)

lemma close_with_shrinks: "remaining l' \<le> remaining l \<Longrightarrow> shrinks (close_with l' b jo) l"
  using skip_le [of l'] by (simp add: close_with_def)

lemma match_array_shrinks:
  assumes "good_rec rec n" "3 * remaining l + 1 \<le> n"
  shows "shrinks (u_json_match_array rec l jo) l"
proof -
  have "shrinks (rec Call_array_loop l1 j) l" if "remaining l1 \<le> remaining l" for l1 j
    using assms that by (intro good_recD) auto
  then show ?thesis
    by (auto simp: u_json_match_array_def intro!: shrinks_bind set_type_opt_shrinks close_with_shrinks)
qed

lemma match_object_shrinks:
  assumes "good_rec rec n" "3 * remaining l + 1 \<le> n"
  shows "shrinks (u_json_match_object rec l jo) l"
proof -
  have "shrinks (rec Call_object_loop l1 j) l" if "remaining l1 \<le> remaining l" for l1 j
    using assms that by (intro good_recD) auto
  then show ?thesis
    by (auto simp: u_json_match_object_def intro!: shrinks_bind set_type_opt_shrinks close_with_shrinks)
qed

lemma new_child_shrinks: "remaining l' \<le> remaining l \<Longrightarrow> shrinks (new_child l' jo) l"
  by (auto simp: new_child_def set_or_err_Ok intro!: shrinks_bind split: option.split)

lemma add_child_shrinks: "remaining l' \<le> remaining l \<Longrightarrow> shrinks (add_child l' jo e) l"
  by (auto simp: add_child_def set_or_err_Ok intro!: shrinks_bind split: option.split)

lemma set_key_opt_shrinks: "remaining l' \<le> remaining l \<Longrightarrow> shrinks (set_key_opt l' jo k) l"
  by (auto simp: set_key_opt_def set_or_err_Ok intro!: shrinks_bind split: option.split)

lemma lex_trail_shrinks': "remaining l' \<le> remaining l \<Longrightarrow> shrinks (lex_trail l') l"
  using shrinks_trans [OF lex_trail_shrinks] .

lemma array_round_shrinks:
  assumes "good_rec rec n" "3 * remaining l \<le> n"
  shows "shrinks (array_round rec l jo) l"
  unfolding array_round_def
proof (rule shrinks_bind)
  fix c l1 assume "lex_skip l = Ok c l1"
  from lex_skip_strict [OF this] have r: "remaining l1 < remaining l" .
  have v1: "shrinks (rec Call_value l2 e) l1" if "remaining l2 \<le> remaining l1" for l2 e
    using assms(2) r that by (intro good_recD [OF assms(1)]) simp_all
  have "shrinks (rec Call_array_loop l2 e) l1" if "remaining l2 \<le> remaining l1" for l2 e
    using assms(2) r that by (intro good_recD [OF assms(1)]) simp_all
  then have lp: "shrinks (if P then rec Call_array_loop l2 e else Ok e l2) l1"
    if "remaining l2 \<le> remaining l1" for P l2 e
    using that by simp
  have "shrinks (lbind (new_child l1 jo) (\<lambda>elem l2.
         lbind (rec Call_value l2 elem) (\<lambda>elem2 l3.
         lbind (add_child l3 jo elem2) (\<lambda>jo2 l4.
         lbind (lex_trail l4) (\<lambda>_ l5.
           if u_lexer_peek l5 = CHR '','' then rec Call_array_loop l5 jo2 else Ok jo2 l5))))) l1"
    by (intro shrinks_bind new_child_shrinks v1 add_child_shrinks lex_trail_shrinks' lp) simp_all
  then have "shrinks (if c = CHR '']'' then Ok jo l1 else lbind (new_child l1 jo) (\<lambda>elem l2.
         lbind (rec Call_value l2 elem) (\<lambda>elem2 l3.
         lbind (add_child l3 jo elem2) (\<lambda>jo2 l4.
         lbind (lex_trail l4) (\<lambda>_ l5.
           if u_lexer_peek l5 = CHR '','' then rec Call_array_loop l5 jo2 else Ok jo2 l5))))) l1"
    by simp
  then show "shrinks (if c = CHR '']'' then Ok jo l1 else lbind (new_child l1 jo) (\<lambda>elem l2.
         lbind (rec Call_value l2 elem) (\<lambda>elem2 l3.
         lbind (add_child l3 jo elem2) (\<lambda>jo2 l4.
         lbind (lex_trail l4) (\<lambda>_ l5.
           if u_lexer_peek l5 = CHR '','' then rec Call_array_loop l5 jo2 else Ok jo2 l5))))) l"
    by (rule shrinks_trans) (use r in simp)
qed (simp add: lex_skip_shrinks)

lemma object_round_shrinks:
  assumes "good_rec rec n" "3 * remaining l \<le> n"
  shows "shrinks (object_round rec l jo) l"
  unfolding object_round_def
proof (rule shrinks_bind)
  fix c l1 assume "lex_skip l = Ok c l1"
  from lex_skip_strict [OF this] have r: "remaining l1 < remaining l" .
  let ?f = "u_json_match_pair_first l1"
  have p: "remaining (snd ?f) = remaining l1" by (simp add: u_json_match_pair_first_def u_json_match_string_first_def Let_def)
  have "shrinks (lbind (rec Call_pair (snd ?f) jo) (\<lambda>jo2 l2.
         lbind (lex_trail l2) (\<lambda>_ l3.
           if u_lexer_peek l3 = CHR '','' then rec Call_object_loop l3 jo2 else Ok jo2 l3))) l1"
  proof (intro shrinks_bind lex_trail_shrinks')
    show "shrinks (rec Call_pair (snd ?f) jo) l1"
      using assms(2) r p by (intro good_recD [OF assms(1)]) simp_all
    fix jo2 l3 assume l3: "remaining l3 \<le> remaining l1"
    then have "shrinks (rec Call_object_loop l3 jo2) l1"
      using assms(2) r by (intro good_recD [OF assms(1)]) simp_all
    with l3 show "shrinks (if u_lexer_peek l3 = CHR '','' then rec Call_object_loop l3 jo2 else Ok jo2 l3) l1"
      by simp
  qed
  then have "shrinks (if c = CHR ''}'' then Ok jo l1 else if \<not> fst ?f then Err l1
      else lbind (rec Call_pair (snd ?f) jo) (\<lambda>jo2 l2.
         lbind (lex_trail l2) (\<lambda>_ l3.
           if u_lexer_peek l3 = CHR '','' then rec Call_object_loop l3 jo2 else Ok jo2 l3))) l1"
    by simp
  then show "shrinks (if c = CHR ''}'' then Ok jo l1 else if \<not> fst ?f then Err l1
      else lbind (rec Call_pair (snd ?f) jo) (\<lambda>jo2 l2.
         lbind (lex_trail l2) (\<lambda>_ l3.
           if u_lexer_peek l3 = CHR '','' then rec Call_object_loop l3 jo2 else Ok jo2 l3))) l"
    by (rule shrinks_trans) (use r in simp)
qed (simp add: lex_skip_shrinks)

lemma match_pair_shrinks:
  assumes "good_rec rec n" "3 * remaining l \<le> n"
  shows "shrinks (u_json_match_pair rec l jo) l"
proof -
  have v: "shrinks (rec Call_value l5 p) l" if "lex_skip l4 = Ok c l5" "remaining l4 \<le> remaining l" for l4 l5 c p
    using assms that lex_skip_strict [OF that(1)] by (intro good_recD) auto
  have colon: "shrinks (if u_lexer_peek l4 \<noteq> CHR '':'' then lex_err l4 m
      else lbind (lex_skip l4) (\<lambda>_ l5. lbind (rec Call_value l5 p) (\<lambda>pair3 l6. add_child l6 jo pair3))) l"
    if "remaining l4 \<le> remaining l" for l4 p m
    using that v by (auto intro!: shrinks_bind lex_skip_shrinks add_child_shrinks)
  show ?thesis
    unfolding u_json_match_pair_def
    by (intro shrinks_bind match_string_shrinks new_child_shrinks)
      (auto split: option.split intro!: shrinks_bind set_key_opt_shrinks lex_trail_shrinks' colon)
qed

lemma json_match_good: "good_rec (json_match n) n"
proof (induction n)
  case 0
  have "0 < json_need call r" for call r by (cases call) auto
  then show ?case by (auto simp: good_rec_def)
next
  case (Suc n)
  show ?case unfolding good_rec_def
  proof (intro allI impI)
    fix call l jo assume "json_need call (remaining l) \<le> Suc n"
    then show "shrinks (json_match (Suc n) call l jo) l"
      using match_value_shrinks [OF Suc, of l jo] match_array_shrinks [OF Suc, of l jo]
        match_object_shrinks [OF Suc, of l jo] array_round_shrinks [OF Suc, of l jo]
        object_round_shrinks [OF Suc, of l jo] match_pair_shrinks [OF Suc, of l jo]
      by (cases call) simp_all
  qed
qed

text \<open>
  C8: decoding and validating end for every text: the fuel of \<open>json_fuel\<close>, three calls for each
  character, is never used up.
\<close>

theorem u_json_do_parse_terminates: "u_json_do_parse s build \<noteq> Undefined Out_of_fuel"
proof -
  obtain ok l1 where e: "u_lexer_eat_ws \<lparr> l_s = s, l_pos = 0, l_lmatch = 0, l_rmatch = 0, l_err = [] \<rparr> = (ok, l1)"
    by force
  then have "remaining l1 \<le> length s"
    by (auto simp: eat_ws_eq u_lexer_lookahead_def split: if_splits)
  then have "shrinks (json_match (json_fuel s) call l1 jo) l1"
    if "call = Call_object \<or> call = Call_array" for call jo
    using json_match_good [of "json_fuel s"] that
    by (intro good_recD [of _ "json_fuel s"]) (auto simp: json_fuel_def)
  then show ?thesis
    using e by (auto simp: u_json_do_parse_def u_lexer_new_def Let_def shrinks_def lex_err_def
        split: lex_result.splits if_splits)
qed

end
