(* ===== verification/Json_Roundtrip.thy ===== *)
theory Json_Roundtrip
  imports Json_Parse
begin

text \<open>
  Well-formed JSON trees: what the decoder accepts is one, and the decoder reads back what the
  encoder prints for one.
\<close>

section \<open>Well-formed trees\<close>

text \<open>
  A node as the parser leaves it, at depth \<open>d\<close>: its value fits the token buffer and is valid for its
  type, its depth is below the limit, elements of arrays have no key and members of objects have one
  that is the body of a string.
\<close>

fun wf_json :: "nat \<Rightarrow> u_json \<Rightarrow> bool" where
  "wf_json d (U_json t f k v dp i c m cs) =
     (f = [] \<and> dp = d \<and> d < U_JSON_MAX_DEPTH \<and> i = 0 \<and> \<not> m \<and>
      (case t of
         U_JSON_TYPE_STRING \<Rightarrow> valid_body v \<and> length v < U_TOKEN_SZ - 1 \<and> cs = [] \<and> c = 0
       | U_JSON_TYPE_NUMBER \<Rightarrow> valid_number v \<and> length v < U_TOKEN_SZ - 1 \<and> cs = [] \<and> c = 0
       | U_JSON_TYPE_ARRAY \<Rightarrow> v = [] \<and> c = length cs \<and> (\<forall>x \<in> set cs. jkey x = [] \<and> wf_json (d + 1) x)
       | U_JSON_TYPE_OBJECT \<Rightarrow> v = [] \<and> c = 0 \<and>
           (\<forall>x \<in> set cs. valid_body (jkey x) \<and> length (jkey x) < U_TOKEN_SZ - 1 \<and> wf_json (d + 1) x)
       | U_JSON_TYPE_UNKNOWN \<Rightarrow> False
       | _ \<Rightarrow> v = [] \<and> cs = [] \<and> c = 0))"

text \<open>A node on its way into a container.\<close>

definition fresh :: "nat \<Rightarrow> string \<Rightarrow> u_json" where
  "fresh d k = U_json U_JSON_TYPE_UNKNOWN [] k [] d 0 0 False []"

lemma new_child_Some:
  "new_child l (Some j) = (if jdepth j + 1 < U_JSON_MAX_DEPTH then Ok (Some (fresh (jdepth j + 1) [])) l else Err l)"
  by (simp add: new_child_def set_or_err_def u_json_new_def fresh_def)

section \<open>The scan of a string\<close>

definition str_scan :: "u_lexer \<Rightarrow> unit lex_result" where
  "str_scan l = lbind (lex_next l) (\<lambda>c l1.
        lbind (string_loop c (u_lexer_record_lmatch l1)) (\<lambda>_ l2.
        lbind (lex_next (u_lexer_record_rmatch l2)) (\<lambda>_ l3. Ok () l3)))"

lemma match_string_scan:
  "u_json_match_string jl jo =
     (if u_lexer_peek jl \<noteq> CHR 0x22 then
        lex_err jl (''expect '' @ [CHR 0x22] @ '', got '' @ [u_lexer_peek jl] @ '' at '' @ u_lexer_lookahead jl)
      else lbind (str_scan jl) (\<lambda>_ l3.
          case jo of
            None \<Rightarrow> Ok None l3
          | Some j \<Rightarrow>
              lbind (set_or_err l3 (u_json_set_type j U_JSON_TYPE_STRING)) (\<lambda>j1 l4.
                case u_lexer_get_match l4 of
                  None \<Rightarrow> Fault Uninitialised
                | Some m \<Rightarrow> lbind (set_or_err l4 (u_json_set_val j1 (butlast m))) (\<lambda>j2 l5. Ok (Some j2) l5))))"
  by (simp add: u_json_match_string_def str_scan_def lbind_assoc)

text \<open>The state after a string with the body \<open>w\<close>.\<close>

definition after_string :: "string \<Rightarrow> u_lexer \<Rightarrow> u_lexer" where
  "after_string w l = (move (length w + 2) l)\<lparr> l_lmatch := l_pos l + 1, l_rmatch := l_pos l + 1 + length w \<rparr>"

lemma record_move:
  "u_lexer_record_rmatch (move n (u_lexer_record_lmatch (move k l)))
   = (move (n + k) l)\<lparr> l_lmatch := l_pos l + k, l_rmatch := l_pos l + k + n \<rparr>"
  by (simp add: move_def u_lexer_record_lmatch_def u_lexer_record_rmatch_def ac_simps)

lemma lookahead_upd [simp]:
  "u_lexer_lookahead (l\<lparr> l_lmatch := a \<rparr>) = u_lexer_lookahead l"
  "u_lexer_lookahead (l\<lparr> l_rmatch := a \<rparr>) = u_lexer_lookahead l"
  by (simp_all add: u_lexer_lookahead_def)

lemma str_scan_ok:
  assumes "u_lexer_lookahead l = q # w @ CHR 0x22 # r" "valid_body w"
  shows "str_scan l = Ok () (after_string w l)"
proof -
  have n: "lex_next l = Ok (u_lexer_peek (move 1 l)) (move 1 l)" using assms(1) by (simp add: lex_next_eq)
  have "string_loop (u_lexer_peek (move 1 l)) (u_lexer_record_lmatch (move 1 l))
      = Ok () (move (length w) (u_lexer_record_lmatch (move 1 l)))"
    using string_loop_ok [OF assms(2), of "u_lexer_record_lmatch (move 1 l)" r] assms(1) by simp
  moreover have "lex_next (u_lexer_record_rmatch (move (length w) (u_lexer_record_lmatch (move 1 l))))
      = Ok (u_lexer_peek (after_string w l)) (after_string w l)"
  proof -
    let ?l2 = "u_lexer_record_rmatch (move (length w) (u_lexer_record_lmatch (move 1 l)))"
    have "u_lexer_lookahead ?l2 = CHR 0x22 # r" using assms(1) by simp
    then have "lex_next ?l2 = Ok (u_lexer_peek (move 1 ?l2)) (move 1 ?l2)" by (simp add: lex_next_eq)
    moreover have "move 1 ?l2 = after_string w l"
      unfolding record_move by (simp add: after_string_def move_def)
    ultimately show ?thesis by simp
  qed
  ultimately show ?thesis using n by (simp add: str_scan_def)
qed

lemma str_scan_sound:
  assumes "str_scan l = Ok u l3"
  shows "\<exists>q w r. valid_body w \<and> u_lexer_lookahead l = q # w @ CHR 0x22 # r \<and> l3 = after_string w l"
proof -
  obtain c l1 where l1: "lex_next l = Ok c l1"
      "lbind (string_loop c (u_lexer_record_lmatch l1)) (\<lambda>_ l2.
        lbind (lex_next (u_lexer_record_rmatch l2)) (\<lambda>_ l3. Ok () l3)) = Ok u l3"
    using assms by (auto simp: str_scan_def lbind_eq_Ok)
  then obtain q rest where q: "u_lexer_lookahead l = q # rest" "l1 = move 1 l" "c = u_lexer_peek (move 1 l)"
    by (auto simp: lex_next_eq lex_err_def split: list.splits)
  then obtain l2 where "string_loop (u_lexer_peek (u_lexer_record_lmatch (move 1 l))) (u_lexer_record_lmatch (move 1 l)) = Ok () l2"
    using l1(2) by (auto simp: lbind_eq_Ok)
  then obtain w r where w: "valid_body w" "rest = w @ CHR 0x22 # r"
    using string_loop_sound q(1) by fastforce
  with str_scan_ok [of l q w r] q(1) assms show ?thesis by auto
qed

lemma after_string_lookahead:
  "u_lexer_lookahead l = q # w @ CHR 0x22 # r \<Longrightarrow> u_lexer_lookahead (after_string w l) = r"
  by (simp add: after_string_def)

lemma after_string_match:
  assumes "u_lexer_lookahead l = q # w @ CHR 0x22 # r"
  shows "u_lexer_get_match (after_string w l)
    = (if length w < U_TOKEN_SZ - 1 then Some (w @ [CHR 0x22]) else None)"
proof -
  have "drop 1 (u_lexer_lookahead l) = w @ CHR 0x22 # r" using assms by simp
  then have "drop (Suc (l_pos l)) (l_s l) = w @ CHR 0x22 # r" by (simp add: u_lexer_lookahead_def)
  then show ?thesis
    by (auto simp: u_lexer_get_match_def after_string_def u_lexer_strlen_match_def U_TOKEN_SZ_def)
qed

section \<open>Atoms\<close>

lemma match_string_value:
  assumes "u_lexer_lookahead l = CHR 0x22 # w @ CHR 0x22 # r" "valid_body w" "length w < U_TOKEN_SZ - 1"
  shows "u_json_match_string l (Some (fresh d k))
    = Ok (Some (U_json U_JSON_TYPE_STRING [] k w d 0 0 False [])) (after_string w l)"
  using assms str_scan_ok [OF assms(1,2)]
  by (simp add: match_string_scan after_string_match [OF assms(1)] set_or_err_def fresh_def
      u_json_set_val_def u_strlcpy_eq U_TOKEN_SZ_def)

lemma match_string_value_sound:
  assumes "u_json_match_string l (Some (fresh d k)) = Ok x l'" "d < U_JSON_MAX_DEPTH"
  shows "\<exists>y. x = Some y \<and> wf_json d y \<and> jkey y = k"
proof -
  obtain u l3 where s: "str_scan l = Ok u l3" using assms(1) by (auto simp: match_string_scan lbind_eq_Ok lex_err_def split: if_splits)
  then obtain q w r where w: "valid_body w" "u_lexer_lookahead l = q # w @ CHR 0x22 # r" "l3 = after_string w l"
    using str_scan_sound by blast
  have m: "length w < U_TOKEN_SZ - 1" "q = CHR 0x22"
    using assms(1) s w after_string_match [OF w(2)]
    by (auto simp: match_string_scan lex_err_def set_or_err_def fresh_def split: if_splits)
  with match_string_value [of l w r d k] w assms show ?thesis by auto
qed

lemma match_seq_sound:
  assumes "u_json_match_seq l (Some (fresh d k)) t f w = Ok x l'"
  shows "x = Some (U_json t [] k [] d 0 0 False [])"
  using assms
  by (auto simp: u_json_match_seq_def lbind_eq_Ok set_or_err_def fresh_def lex_err_def split: if_splits)

lemma match_rem_ok:
  "u_lexer_lookahead l = c # w @ x # r \<Longrightarrow> list_all (\<lambda>c. \<not> isspace c) w \<Longrightarrow> match_rem l w = Ok () (move (length w) l)"
proof (induction w arbitrary: l c)
  case (Cons a w)
  then have "lex_skip l = Ok a (move 1 l)" by (cases w) (simp_all add: lex_skip_eq Let_def)
  moreover have "match_rem (move 1 l) w = Ok () (move (length w) (move 1 l))"
    using Cons.prems by (intro Cons.IH [of _ a]) simp_all
  ultimately show ?case by simp
qed simp

lemma match_seq_ok:
  assumes "u_lexer_lookahead l = f # w @ x # r" "list_all (\<lambda>c. \<not> isspace c) w"
  shows "\<exists>l'. u_json_match_seq l (Some (fresh d k)) t f w = Ok (Some (U_json t [] k [] d 0 0 False [])) l'
    \<and> u_lexer_lookahead l' = dropWhile isspace (x # r)"
proof -
  define l1 where "l1 = move (length w) l"
  have r1: "match_rem l w = Ok () l1" unfolding l1_def by (rule match_rem_ok [OF assms])
  obtain a where a: "u_lexer_lookahead l1 = a # x # r"
    using assms(1) by (cases w rule: rev_cases) (auto simp: l1_def)
  have "lex_skip l1 = Ok (u_lexer_peek (move (1 + spaces (x # r)) l1)) (move (1 + spaces (x # r)) l1)"
    using a by (simp add: lex_skip_eq Let_def)
  moreover have "u_lexer_lookahead (move (1 + spaces (x # r)) l1) = dropWhile isspace (x # r)"
    using a drop_spaces [of "x # r"] by simp
  ultimately show ?thesis
    using assms(1) r1 by (simp add: u_json_match_seq_def set_or_err_def fresh_def)
qed

lemma number_match:
  assumes "u_lexer_lookahead l = w @ y" "w \<noteq> []"
  shows "u_lexer_get_match (u_lexer_record_rmatch (move (length w) (u_lexer_record_lmatch l)))
    = (if length w < U_TOKEN_SZ - 1 then Some (w @ take 1 y) else None)"
proof -
  have "drop (l_pos l) (l_s l) = w @ y" using assms(1) by (simp add: u_lexer_lookahead_def)
  then show ?thesis
    by (auto simp: u_lexer_get_match_def u_lexer_record_rmatch_def u_lexer_record_lmatch_def move_def
        u_lexer_strlen_match_def U_TOKEN_SZ_def)
qed

lemma num_scan_sound:
  assumes "num_scan l = Ok u l'"
  shows "\<exists>w y. u_lexer_lookahead l = w @ y \<and> num_rest (w @ y) = Some y \<and> l' = move (length w) l"
proof (cases "num_rest (u_lexer_lookahead l)")
  case None
  then obtain l2 where "num_scan l = Err l2" using readsN [OF num_scan_reads] by blast
  with assms show ?thesis by simp
next
  case (Some y)
  then obtain n where "num_scan l = Ok () (move n l)" "n \<le> remaining l" "drop n (u_lexer_lookahead l) = y"
    using readsS [OF num_scan_reads] by blast
  with assms Some show ?thesis
    by (intro exI [of _ "take n (u_lexer_lookahead l)"] exI [of _ y]) auto
qed

lemma match_number_value:
  assumes "u_lexer_lookahead l = w @ x # r" "valid_number w" "stops x" "length w < U_TOKEN_SZ - 1"
  shows "\<exists>l'. u_json_match_number (u_lexer_record_lmatch l) (Some (fresh d k))
    = Ok (Some (U_json U_JSON_TYPE_NUMBER [] k w d 0 0 False [])) l' \<and> u_lexer_lookahead l' = x # r"
proof -
  let ?l = "u_lexer_record_lmatch l"
  have ne: "w \<noteq> []" using assms(2) by (auto simp: valid_number_def num_rest_def int_rest_def)
  have "num_rest (u_lexer_lookahead ?l) = Some (x # r)" using num_rest_stop [OF assms(2,3)] assms(1) by simp
  then obtain n where n: "num_scan ?l = Ok () (move n ?l)" "n \<le> remaining ?l" "drop n (u_lexer_lookahead ?l) = x # r"
    using readsS [OF num_scan_reads] by blast
  have "n = length w"
  proof -
    have "length (drop n (u_lexer_lookahead ?l)) = Suc (length r)" unfolding n(3) by simp
    with n(2) assms(1) show ?thesis by simp
  qed
  with n(1) number_match [OF assms(1) ne] assms(1,4) show ?thesis
    by (simp add: match_number_scan set_or_err_def fresh_def u_json_set_val_def u_strlcpy_eq U_TOKEN_SZ_def Let_def)
qed

section \<open>The printed text\<close>

fun join :: "string list \<Rightarrow> string" where
  "join [] = []"
| "join [s] = s"
| "join (s # t # ss) = s @ '', '' @ join (t # ss)"

definition key_text :: "u_json \<Rightarrow> string" where
  "key_text x = (if jkey x \<noteq> [] then [CHR 0x22] @ jkey x @ [CHR 0x22] @ '': '' else [])"

fun value_text :: "u_json \<Rightarrow> string" where
  "value_text (U_json t f k v d i c m cs) =
     (case t of
        U_JSON_TYPE_STRING \<Rightarrow> [CHR 0x22] @ v @ [CHR 0x22]
      | U_JSON_TYPE_NUMBER \<Rightarrow> v
      | U_JSON_TYPE_OBJECT \<Rightarrow> ''{ '' @ join (map (\<lambda>x. key_text x @ value_text x) cs) @ '' }''
      | U_JSON_TYPE_ARRAY \<Rightarrow> ''[ '' @ join (map (\<lambda>x. key_text x @ value_text x) cs) @ '' ]''
      | U_JSON_TYPE_TRUE \<Rightarrow> ''true''
      | U_JSON_TYPE_FALSE \<Rightarrow> ''false''
      | U_JSON_TYPE_NULL \<Rightarrow> ''null''
      | U_JSON_TYPE_UNKNOWN \<Rightarrow> [])"

lemma join_Cons: "join (s # ss) = s @ (if ss = [] then [] else '', '' @ join ss)"
  by (cases ss) auto

lemma encode_text:
  "\<forall>x \<in> set xs. \<exists>d. wf_json d x \<Longrightarrow>
   u_json_do_encode xs = Some (join (map (\<lambda>x. key_text x @ value_text x) xs))"
proof (induction xs rule: u_json_do_encode.induct)
  case (2 t f k v d i c m cs sibs)
  obtain e where wf: "wf_json e (U_json t f k v d i c m cs)" using 2(3) by auto
  have ch: "u_json_do_encode cs = Some (join (map (\<lambda>x. key_text x @ value_text x) cs))"
  proof -
    have "\<forall>x \<in> set cs. \<exists>d. wf_json d x" using wf by (cases t) auto
    then show ?thesis using 2 wf by (cases t) auto
  qed
  have sib: "u_json_do_encode sibs = Some (join (map (\<lambda>x. key_text x @ value_text x) sibs))"
    using 2 wf ch by (cases t) auto
  have e: "cs = []" if "t \<noteq> U_JSON_TYPE_ARRAY" "t \<noteq> U_JSON_TYPE_OBJECT"
    using wf that by (cases t) auto
  show ?case
    using sib ch wf e by (cases t) (simp_all add: join_Cons key_text_def)
qed simp

section \<open>Reading back\<close>

definition reads_back :: "nat \<Rightarrow> u_json \<Rightarrow> bool" where
  "reads_back d x = (\<forall>n l c r. json_need Call_value (remaining l) \<le> n
     \<longrightarrow> u_lexer_lookahead l = value_text x @ c # r \<longrightarrow> c = CHR '' '' \<or> c = CHR '','' \<longrightarrow>
     (\<exists>l'. json_match n Call_value l (Some (fresh d (jkey x))) = Ok (Some x) l'
        \<and> (u_lexer_lookahead l' = c # r \<or> u_lexer_lookahead l' = dropWhile isspace (c # r))))"

lemma valid_number_hd: "valid_number w \<Longrightarrow> \<exists>c v. w = c # v \<and> (c = CHR ''-'' \<or> isdigit c)"
  by (cases w) (auto simp: valid_number_def num_rest_def int_rest_def digits1_def Let_def
      split: if_splits list.splits)

lemma value_text_hd:
  assumes "wf_json d x"
  shows "\<exists>c w. value_text x = c # w \<and> \<not> isspace c \<and> c \<noteq> CHR '']'' \<and> c \<noteq> CHR ''}''"
proof -
  obtain t f k v dp i c m cs where x: "x = U_json t f k v dp i c m cs" by (cases x)
  show ?thesis
  proof (cases "t = U_JSON_TYPE_NUMBER")
    case True
    with assms x obtain c0 w where c0: "v = c0 # w" "c0 = CHR ''-'' \<or> isdigit c0"
      using valid_number_hd [of v] by auto
    moreover have "\<not> isspace c0" "c0 \<noteq> CHR '']''" "c0 \<noteq> CHR ''}''" using c0(2) digit_not_space by auto
    ultimately show ?thesis using x True by auto
  next
    case False
    with assms x show ?thesis by (cases t) auto
  qed
qed

lemma lex_skip_blank:
  "u_lexer_lookahead l = b # CHR '' '' # c # w \<Longrightarrow> \<not> isspace c \<Longrightarrow> lex_skip l = Ok c (move 2 l)"
  by (simp add: lex_skip_eq Let_def numeral_2_eq_2)

lemma lex_trail_to:
  assumes "u_lexer_lookahead l = CHR '' '' # b # r \<or> u_lexer_lookahead l = b # r" "\<not> isspace b"
  shows "\<exists>l'. lex_trail l = Ok () l' \<and> u_lexer_lookahead l' = b # r"
  using assms by (auto simp: lex_trail_def lex_skip_eq Let_def)

lemma array_loop_ok:
  assumes "\<forall>x \<in> set cs. wf_json (Suc d) x \<and> jkey x = [] \<and> reads_back (Suc d) x"
    "u_lexer_lookahead l = b # CHR '' '' # join (map (\<lambda>x. key_text x @ value_text x) cs) @ CHR '' '' # CHR '']'' # r"
    "json_need Call_array_loop (remaining l) \<le> n"
  shows "\<exists>l'. json_match n Call_array_loop l (Some (U_json U_JSON_TYPE_ARRAY [] k [] d 0 (length pre) False pre))
    = Ok (Some (U_json U_JSON_TYPE_ARRAY [] k [] d 0 (length pre + length cs) False (pre @ cs))) l'
    \<and> u_lexer_lookahead l' = CHR '']'' # r"
  using assms
proof (induction cs arbitrary: pre l n b)
  case Nil
  then obtain n' where "n = Suc n'" by (cases n) auto
  moreover have "lex_skip l = Ok (CHR '']'') (move 3 l)" using Nil by (simp add: lex_skip_eq Let_def numeral_3_eq_3)
  ultimately show ?case using Nil by (simp add: array_round_def numeral_3_eq_3)
next
  case (Cons x xs)
  obtain n' where n: "n = Suc n'" using Cons.prems(3) by (cases n) auto
  have x: "wf_json (Suc d) x" "jkey x = []" "reads_back (Suc d) x" using Cons.prems(1) by auto
  obtain c0 w where c0: "value_text x = c0 # w" "\<not> isspace c0" "c0 \<noteq> CHR '']''" using value_text_hd [OF x(1)] by blast
  define rest where "rest = (if xs = [] then CHR '' '' # CHR '']'' # r
    else CHR '','' # CHR '' '' # join (map (\<lambda>x. key_text x @ value_text x) xs) @ CHR '' '' # CHR '']'' # r)"
  have l: "u_lexer_lookahead l = b # CHR '' '' # c0 # w @ rest"
    using Cons.prems(2) c0(1) x(2) by (simp add: join_Cons key_text_def rest_def)
  have sk: "lex_skip l = Ok c0 (move 2 l)" using lex_skip_blank [OF l c0(2)] .
  have l2: "u_lexer_lookahead (move 2 l) = value_text x @ rest" using l c0(1) by (simp add: numeral_2_eq_2)
  have d: "Suc d < U_JSON_MAX_DEPTH" using x(1) by (cases x) simp
  obtain cr rr where cr: "rest = cr # rr" "cr = CHR '' '' \<or> cr = CHR '',''"
    by (cases "xs = []") (auto simp: rest_def)
  have "json_need Call_value (remaining (move 2 l)) \<le> n'" using Cons.prems(3) n l l2 by simp
  then obtain l3 where l3: "json_match n' Call_value (move 2 l) (Some (fresh (Suc d) [])) = Ok (Some x) l3"
      "u_lexer_lookahead l3 = rest \<or> u_lexer_lookahead l3 = dropWhile isspace rest"
    using x(3) l2 cr unfolding reads_back_def by (metis x(2))
  define pre' where "pre' = pre @ [x]"
  let ?j = "\<lambda>p. U_json U_JSON_TYPE_ARRAY [] k [] d 0 (length p) False p"
  have ad: "add_child l3 (Some (?j pre)) (Some x) = Ok (Some (?j pre')) l3"
    by (simp add: add_child_def set_or_err_def pre'_def)
  have nc: "new_child (move 2 l) (Some (?j pre)) = Ok (Some (fresh (Suc d) [])) (move 2 l)"
    using d by (simp add: new_child_Some)
  have step: "json_match n Call_array_loop l (Some (?j pre)) =
      lbind (lex_trail l3) (\<lambda>_ l5. if u_lexer_peek l5 = CHR '','' then json_match n' Call_array_loop l5 (Some (?j pre'))
        else Ok (Some (?j pre')) l5)"
    using sk c0(3) by (simp add: n array_round_def nc l3(1) ad)
  show ?case
  proof (cases "xs = []")
    case True
    then have "u_lexer_lookahead l3 = CHR '' '' # CHR '']'' # r \<or> u_lexer_lookahead l3 = CHR '']'' # r"
      using l3(2) by (auto simp: rest_def)
    from lex_trail_to [OF this] obtain l5 where "lex_trail l3 = Ok () l5" "u_lexer_lookahead l5 = CHR '']'' # r"
      by auto
    with step True show ?thesis by (simp add: pre'_def)
  next
    case False
    then have lk: "u_lexer_lookahead l3 = CHR '','' # CHR '' '' # join (map (\<lambda>x. key_text x @ value_text x) xs) @ CHR '' '' # CHR '']'' # r"
      using l3(2) by (simp add: rest_def)
    then have "lex_trail l3 = Ok () l3" by (simp add: lex_trail_def)
    moreover have "remaining l3 + 3 \<le> remaining l" using l lk by (simp add: rest_def False)
    then have "json_need Call_array_loop (remaining l3) \<le> n'" using Cons.prems(3) n by simp
    moreover have "\<forall>x \<in> set xs. wf_json (Suc d) x \<and> jkey x = [] \<and> reads_back (Suc d) x" using Cons.prems(1) by simp
    ultimately show ?thesis
      using Cons.IH [OF _ lk, of n' pre'] step lk by (simp add: pre'_def)
  qed
qed

text \<open>A member of an object: its key, with the text up to the value, and the value.\<close>

lemma match_pair_ok:
  assumes x: "wf_json (Suc d) x" "reads_back (Suc d) x" "valid_body (jkey x)"
      "length (jkey x) < U_TOKEN_SZ - 1"
    and l: "u_lexer_lookahead l = CHR 0x22 # jkey x @ CHR 0x22 # CHR '':'' # CHR '' '' # value_text x @ c # r"
    and c: "c = CHR '' '' \<or> c = CHR '',''"
    and n: "json_need Call_pair (remaining l) \<le> Suc n"
  shows "\<exists>l'. u_json_match_pair (json_match n) l (Some (U_json U_JSON_TYPE_OBJECT [] k [] d 0 0 False pre))
    = Ok (Some (U_json U_JSON_TYPE_OBJECT [] k [] d 0 0 False (pre @ [x]))) l'
    \<and> (u_lexer_lookahead l' = c # r \<or> u_lexer_lookahead l' = dropWhile isspace (c # r))"
proof -
  let ?j = "\<lambda>p. U_json U_JSON_TYPE_OBJECT [] k [] d 0 0 False p"
  let ?r = "CHR '':'' # CHR '' '' # value_text x @ c # r"
  obtain c0 w where c0: "value_text x = c0 # w" "\<not> isspace c0" using value_text_hd [OF x(1)] by blast
  define l1 where "l1 = after_string (jkey x) l"
  have s: "str_scan l = Ok () l1" unfolding l1_def by (rule str_scan_ok [OF l x(3)])
  have k1: "u_lexer_lookahead l1 = ?r" unfolding l1_def by (rule after_string_lookahead [OF l])
  have m: "u_lexer_get_match l1 = Some (jkey x @ [CHR 0x22])"
    unfolding l1_def using after_string_match [OF l] x(4) by simp
  have d: "Suc d < U_JSON_MAX_DEPTH" using x(1) by (cases x) simp
  have key: "set_key_opt l1 (Some (fresh (Suc d) [])) (jkey x) = Ok (Some (fresh (Suc d) (jkey x))) l1"
    using x(4) by (simp add: set_key_opt_def set_or_err_def fresh_def u_strlcpy_eq U_TOKEN_SZ_def)
  have sk: "lex_skip l1 = Ok c0 (move 2 l1)" using k1 c0 by (intro lex_skip_blank [of _ "CHR '':''" _ "w @ c # r"]) simp_all
  have k2: "u_lexer_lookahead (move 2 l1) = value_text x @ c # r" using k1 by (simp add: numeral_2_eq_2)
  have "json_need Call_value (remaining (move 2 l1)) \<le> n" using n l k2 by simp
  then obtain l3 where l3: "json_match n Call_value (move 2 l1) (Some (fresh (Suc d) (jkey x))) = Ok (Some x) l3"
      "u_lexer_lookahead l3 = c # r \<or> u_lexer_lookahead l3 = dropWhile isspace (c # r)"
    using x(2) k2 c unfolding reads_back_def by blast
  have "u_json_match_string l None = Ok None l1" using s l by (simp add: match_string_scan)
  moreover have "lex_trail l1 = Ok () l1" using k1 by (simp add: lex_trail_def)
  moreover have "add_child l3 (Some (?j pre)) (Some x) = Ok (Some (?j (pre @ [x]))) l3"
    by (simp add: add_child_def set_or_err_def)
  ultimately have "u_json_match_pair (json_match n) l (Some (?j pre)) = Ok (Some (?j (pre @ [x]))) l3"
    using m key sk l3(1) k1 d by (simp add: u_json_match_pair_def new_child_Some)
  with l3(2) show ?thesis by blast
qed

lemma object_loop_ok:
  assumes "\<forall>x \<in> set cs. wf_json (Suc d) x \<and> jkey x \<noteq> [] \<and> valid_body (jkey x)
      \<and> length (jkey x) < U_TOKEN_SZ - 1 \<and> reads_back (Suc d) x"
    "u_lexer_lookahead l = b # CHR '' '' # join (map (\<lambda>x. key_text x @ value_text x) cs) @ CHR '' '' # CHR ''}'' # r"
    "json_need Call_object_loop (remaining l) \<le> n"
  shows "\<exists>l'. json_match n Call_object_loop l (Some (U_json U_JSON_TYPE_OBJECT [] k [] d 0 0 False pre))
    = Ok (Some (U_json U_JSON_TYPE_OBJECT [] k [] d 0 0 False (pre @ cs))) l'
    \<and> u_lexer_lookahead l' = CHR ''}'' # r"
  using assms
proof (induction cs arbitrary: pre l n b)
  case Nil
  then obtain n' where "n = Suc n'" by (cases n) auto
  moreover have "lex_skip l = Ok (CHR ''}'') (move 3 l)" using Nil by (simp add: lex_skip_eq Let_def numeral_3_eq_3)
  ultimately show ?case using Nil by (simp add: object_round_def numeral_3_eq_3)
next
  case (Cons x xs)
  obtain n' where n: "n = Suc n'" using Cons.prems(3) by (cases n) auto
  have x: "wf_json (Suc d) x" "reads_back (Suc d) x" "valid_body (jkey x)" "length (jkey x) < U_TOKEN_SZ - 1"
    "jkey x \<noteq> []" using Cons.prems(1) by auto
  define rest where "rest = (if xs = [] then CHR '' '' # CHR ''}'' # r
    else CHR '','' # CHR '' '' # join (map (\<lambda>x. key_text x @ value_text x) xs) @ CHR '' '' # CHR ''}'' # r)"
  obtain cr rr where cr: "rest = cr # rr" "cr = CHR '' '' \<or> cr = CHR '',''"
    by (cases "xs = []") (auto simp: rest_def)
  let ?t = "CHR 0x22 # jkey x @ CHR 0x22 # CHR '':'' # CHR '' '' # value_text x @ cr # rr"
  have l: "u_lexer_lookahead l = b # CHR '' '' # ?t"
    using Cons.prems(2) x(5) unfolding cr(1) [symmetric] by (simp add: join_Cons key_text_def rest_def)
  have sk: "lex_skip l = Ok (CHR 0x22) (move 2 l)" by (rule lex_skip_blank [OF l]) simp
  let ?l2 = "u_lexer_record_lmatch (move 2 l)"
  have l2: "u_lexer_lookahead ?l2 = ?t" using l by (simp add: numeral_2_eq_2)
  have n2: "0 < n'" using Cons.prems(3) n l by simp
  then obtain n'' where n'': "n' = Suc n''" by (cases n') auto
  have "json_need Call_pair (remaining ?l2) \<le> Suc n''" using Cons.prems(3) n n'' l l2 by simp
  from match_pair_ok [OF x(1-4) l2 cr(2) this, of k pre] obtain l3 where
    l3: "json_match n' Call_pair ?l2 (Some (U_json U_JSON_TYPE_OBJECT [] k [] d 0 0 False pre))
      = Ok (Some (U_json U_JSON_TYPE_OBJECT [] k [] d 0 0 False (pre @ [x]))) l3"
      "u_lexer_lookahead l3 = rest \<or> u_lexer_lookahead l3 = dropWhile isspace rest"
    unfolding cr(1) n'' by auto
  let ?j = "\<lambda>p. U_json U_JSON_TYPE_OBJECT [] k [] d 0 0 False p"
  have "fst (u_json_match_pair_first (move 2 l))" "snd (u_json_match_pair_first (move 2 l)) = ?l2"
    using l2 by (simp_all add: u_json_match_pair_first_def u_json_match_string_first_def)
  then have step: "json_match n Call_object_loop l (Some (?j pre)) =
      lbind (lex_trail l3) (\<lambda>_ l5. if u_lexer_peek l5 = CHR '','' then json_match n' Call_object_loop l5 (Some (?j (pre @ [x])))
        else Ok (Some (?j (pre @ [x]))) l5)"
    using sk l3(1) by (simp add: n object_round_def)
  show ?case
  proof (cases "xs = []")
    case True
    then have "u_lexer_lookahead l3 = CHR '' '' # CHR ''}'' # r \<or> u_lexer_lookahead l3 = CHR ''}'' # r"
      using l3(2) by (auto simp: rest_def)
    from lex_trail_to [OF this] obtain l5 where "lex_trail l3 = Ok () l5" "u_lexer_lookahead l5 = CHR ''}'' # r"
      by auto
    with step True show ?thesis by simp
  next
    case False
    then have lk: "u_lexer_lookahead l3 = CHR '','' # CHR '' '' # join (map (\<lambda>x. key_text x @ value_text x) xs) @ CHR '' '' # CHR ''}'' # r"
      using l3(2) by (simp add: rest_def)
    then have "lex_trail l3 = Ok () l3" by (simp add: lex_trail_def)
    moreover have "remaining l3 + 3 \<le> remaining l" using l lk unfolding cr(1) [symmetric] by (simp add: rest_def False)
    then have "json_need Call_object_loop (remaining l3) \<le> n'" using Cons.prems(3) n by simp
    moreover have "\<forall>x \<in> set xs. wf_json (Suc d) x \<and> jkey x \<noteq> [] \<and> valid_body (jkey x)
      \<and> length (jkey x) < U_TOKEN_SZ - 1 \<and> reads_back (Suc d) x" using Cons.prems(1) by simp
    ultimately show ?thesis
      using Cons.IH [OF _ lk, of n' "pre @ [x]"] step lk by simp
  qed
qed

lemma close_ok:
  assumes "u_lexer_lookahead l = b # r"
  shows "\<exists>l'. close_with l b jo = Ok jo l' \<and> u_lexer_lookahead l' = dropWhile isspace r"
  using assms drop_spaces [of r]
  by (auto simp: close_with_def u_lexer_skip_def u_lexer_next_ex_def eot_lookahead eat_ws_eq incr_move Let_def)

text \<open>The members of all objects have a name.\<close>

fun named :: "u_json \<Rightarrow> bool" where
  "named (U_json t f k v d i c m cs) =
     (\<forall>x \<in> set cs. (t = U_JSON_TYPE_OBJECT \<longrightarrow> jkey x \<noteq> []) \<and> named x)"

lemma match_array_ok:
  assumes "\<forall>x \<in> set cs. wf_json (Suc d) x \<and> jkey x = [] \<and> reads_back (Suc d) x"
    "u_lexer_lookahead l = ''[ '' @ join (map (\<lambda>x. key_text x @ value_text x) cs) @ '' ]'' @ r"
    "json_need Call_array (remaining l) \<le> n"
  shows "\<exists>l'. json_match n Call_array l (Some (fresh d k))
      = Ok (Some (U_json U_JSON_TYPE_ARRAY [] k [] d 0 (length cs) False cs)) l'
    \<and> u_lexer_lookahead l' = dropWhile isspace r"
proof -
  obtain n' where n: "n = Suc n'" using assms(3) by (cases n) auto
  have "json_need Call_array_loop (remaining l) \<le> n'" using assms(3) n by simp
  with array_loop_ok [OF assms(1), of l "CHR ''[''" r n' k "[]"] assms(2) obtain l1 where
    l1: "json_match n' Call_array_loop l (Some (U_json U_JSON_TYPE_ARRAY [] k [] d 0 0 False []))
      = Ok (Some (U_json U_JSON_TYPE_ARRAY [] k [] d 0 (length cs) False cs)) l1"
      "u_lexer_lookahead l1 = CHR '']'' # r" by auto
  have "u_lexer_peek l = CHR ''[''" using assms(2) by simp
  with l1 close_ok [OF l1(2)] show ?thesis
    by (simp add: n u_json_match_array_def set_type_opt_def set_or_err_def fresh_def)
qed

lemma match_object_ok:
  assumes "\<forall>x \<in> set cs. wf_json (Suc d) x \<and> jkey x \<noteq> [] \<and> valid_body (jkey x)
      \<and> length (jkey x) < U_TOKEN_SZ - 1 \<and> reads_back (Suc d) x"
    "u_lexer_lookahead l = ''{ '' @ join (map (\<lambda>x. key_text x @ value_text x) cs) @ '' }'' @ r"
    "json_need Call_object (remaining l) \<le> n"
  shows "\<exists>l'. json_match n Call_object l (Some (fresh d k))
      = Ok (Some (U_json U_JSON_TYPE_OBJECT [] k [] d 0 0 False cs)) l'
    \<and> u_lexer_lookahead l' = dropWhile isspace r"
proof -
  obtain n' where n: "n = Suc n'" using assms(3) by (cases n) auto
  have "json_need Call_object_loop (remaining l) \<le> n'" using assms(3) n by simp
  with object_loop_ok [OF assms(1), of l "CHR ''{''" r n' k "[]"] assms(2) obtain l1 where
    l1: "json_match n' Call_object_loop l (Some (U_json U_JSON_TYPE_OBJECT [] k [] d 0 0 False []))
      = Ok (Some (U_json U_JSON_TYPE_OBJECT [] k [] d 0 0 False cs)) l1"
      "u_lexer_lookahead l1 = CHR ''}'' # r" by auto
  have "u_lexer_peek l = CHR ''{''" using assms(2) by simp
  with l1 close_ok [OF l1(2)] show ?thesis
    by (simp add: n u_json_match_object_def set_type_opt_def set_or_err_def fresh_def)
qed

lemmas value_simps = u_json_match_value_def u_json_match_string_first_def u_json_match_number_first_def
  u_json_match_object_first_def u_json_match_array_first_def u_json_match_true_first_def
  u_json_match_false_first_def u_json_match_null_first_def Let_def

lemma reads_back_wf: "wf_json d x \<Longrightarrow> named x \<Longrightarrow> reads_back d x"
proof (induction x arbitrary: d)
  case (U_json t f k v dp i cn m cs)
  let ?x = "U_json t f k v dp i cn m cs"
  have wf: "f = []" "dp = d" "i = 0" "\<not> m" using U_json.prems(1) by auto
  have ih: "reads_back (Suc d) y" if "y \<in> set cs" "t = U_JSON_TYPE_ARRAY \<or> t = U_JSON_TYPE_OBJECT" for y
    using U_json.IH [of y "Suc d"] that U_json.prems by auto
  show ?case unfolding reads_back_def
  proof (intro allI impI)
    fix n l c r
    assume n: "json_need Call_value (remaining l) \<le> n" and l: "u_lexer_lookahead l = value_text ?x @ c # r"
      and c: "c = CHR '' '' \<or> c = CHR '',''"
    obtain n' where n': "n = Suc n'" using n by (cases n) auto
    have st: "stops c" using c by (auto simp: stops_def)
    show "\<exists>l'. json_match n Call_value l (Some (fresh d (jkey ?x))) = Ok (Some ?x) l'
        \<and> (u_lexer_lookahead l' = c # r \<or> u_lexer_lookahead l' = dropWhile isspace (c # r))"
    proof (cases t)
      case U_JSON_TYPE_UNKNOWN then show ?thesis using U_json.prems(1) by simp
    next
      case U_JSON_TYPE_STRING
      then have v: "valid_body v" "length v < U_TOKEN_SZ - 1" "cs = []" "cn = 0" using U_json.prems(1) by auto
      have l1: "u_lexer_lookahead (u_lexer_record_lmatch l) = CHR 0x22 # v @ CHR 0x22 # c # r"
        using l U_JSON_TYPE_STRING by simp
      from match_string_value [OF l1 v(1,2), of d k] after_string_lookahead [OF l1]
      show ?thesis using l1 U_JSON_TYPE_STRING v wf by (simp add: n' value_simps)
    next
      case U_JSON_TYPE_NUMBER
      then have v: "valid_number v" "length v < U_TOKEN_SZ - 1" "cs = []" "cn = 0" using U_json.prems(1) by auto
      have l1: "u_lexer_lookahead l = v @ c # r" using l U_JSON_TYPE_NUMBER by simp
      obtain c0 w where "v = c0 # w" "c0 = CHR ''-'' \<or> isdigit c0" using valid_number_hd [OF v(1)] by blast
      then have "u_lexer_peek l = c0" "c0 = CHR ''-'' \<or> isdigit c0" "c0 \<noteq> CHR 0x22" using l1 by auto
      with match_number_value [OF l1 v(1) st v(2), of d k]
      show ?thesis using U_JSON_TYPE_NUMBER v wf by (auto simp: n' value_simps)
    next
      case U_JSON_TYPE_OBJECT
      have "json_need Call_object (remaining l) \<le> n'" using n n' by simp
      moreover have "\<forall>y \<in> set cs. wf_json (Suc d) y \<and> jkey y \<noteq> [] \<and> valid_body (jkey y)
          \<and> length (jkey y) < U_TOKEN_SZ - 1 \<and> reads_back (Suc d) y"
        using U_json.prems U_JSON_TYPE_OBJECT ih by auto
      moreover have "v = []" "cn = 0" using U_json.prems(1) U_JSON_TYPE_OBJECT by auto
      ultimately show ?thesis
        using match_object_ok [of cs d l "c # r" n' k] l U_JSON_TYPE_OBJECT wf
        by (auto simp: n' value_simps)
    next
      case U_JSON_TYPE_ARRAY
      have "json_need Call_array (remaining l) \<le> n'" using n n' by simp
      moreover have "\<forall>y \<in> set cs. wf_json (Suc d) y \<and> jkey y = [] \<and> reads_back (Suc d) y"
        using U_json.prems U_JSON_TYPE_ARRAY ih by auto
      moreover have "v = []" "cn = length cs" using U_json.prems(1) U_JSON_TYPE_ARRAY by auto
      ultimately show ?thesis
        using match_array_ok [of cs d l "c # r" n' k] l U_JSON_TYPE_ARRAY wf
        by (auto simp: n' value_simps)
    next
      case U_JSON_TYPE_TRUE
      then have "u_lexer_lookahead l = CHR ''t'' # ''rue'' @ c # r" using l by simp
      from match_seq_ok [OF this, of d k U_JSON_TYPE_TRUE] obtain l' where
        l': "u_json_match_true l (Some (fresh d k)) = Ok (Some (U_json U_JSON_TYPE_TRUE [] k [] d 0 0 False [])) l'"
          "u_lexer_lookahead l' = dropWhile isspace (c # r)"
        by (auto simp: u_json_match_true_def isspace_def)
      have pk: "u_lexer_peek l = CHR ''t''" using l U_JSON_TYPE_TRUE by simp
      have "?x = U_json U_JSON_TYPE_TRUE [] k [] d 0 0 False []" using U_json.prems(1) U_JSON_TYPE_TRUE by simp
      with l' pk show ?thesis by (simp add: n' value_simps)
    next
      case U_JSON_TYPE_FALSE
      then have "u_lexer_lookahead l = CHR ''f'' # ''alse'' @ c # r" using l by simp
      from match_seq_ok [OF this, of d k U_JSON_TYPE_FALSE] obtain l' where
        l': "u_json_match_false l (Some (fresh d k)) = Ok (Some (U_json U_JSON_TYPE_FALSE [] k [] d 0 0 False [])) l'"
          "u_lexer_lookahead l' = dropWhile isspace (c # r)"
        by (auto simp: u_json_match_false_def isspace_def)
      have pk: "u_lexer_peek l = CHR ''f''" using l U_JSON_TYPE_FALSE by simp
      have "?x = U_json U_JSON_TYPE_FALSE [] k [] d 0 0 False []" using U_json.prems(1) U_JSON_TYPE_FALSE by simp
      with l' pk show ?thesis by (simp add: n' value_simps)
    next
      case U_JSON_TYPE_NULL
      then have "u_lexer_lookahead l = CHR ''n'' # ''ull'' @ c # r" using l by simp
      from match_seq_ok [OF this, of d k U_JSON_TYPE_NULL] obtain l' where
        l': "u_json_match_null l (Some (fresh d k)) = Ok (Some (U_json U_JSON_TYPE_NULL [] k [] d 0 0 False [])) l'"
          "u_lexer_lookahead l' = dropWhile isspace (c # r)"
        by (auto simp: u_json_match_null_def isspace_def)
      have pk: "u_lexer_peek l = CHR ''n''" using l U_JSON_TYPE_NULL by simp
      have "?x = U_json U_JSON_TYPE_NULL [] k [] d 0 0 False []" using U_json.prems(1) U_JSON_TYPE_NULL by simp
      with l' pk show ?thesis by (simp add: n' value_simps)
    qed
  qed
qed

section \<open>What the parser accepts\<close>

lemma dropWhile_prefix: "dropWhile P (r @ y) = v @ y \<Longrightarrow> dropWhile P r = v"
proof (induction r)
  case Nil
  have "length (dropWhile P y) \<le> length y" by (rule length_dropWhile_le)
  with Nil show ?case by simp
qed (auto split: if_splits)

lemma dropWhile_suffix: "\<exists>u. w = u @ dropWhile P w"
  by (metis takeWhile_dropWhile_id)

lemma digits1_prefix: "digits1 (w @ y) = Some (v @ y) \<Longrightarrow> digits1 w = Some v"
proof (cases w)
  case Nil
  assume a: "digits1 (w @ y) = Some (v @ y)"
  then obtain c r where "y = c # r" "dropWhile isdigit r = v @ y"
    using Nil by (auto simp: digits1_def split: list.splits if_splits)
  then have "length (v @ y) \<le> length r" using length_dropWhile_le [of isdigit r] by simp
  with \<open>y = c # r\<close> show ?thesis by simp
next
  case (Cons c r)
  assume "digits1 (w @ y) = Some (v @ y)"
  with Cons show ?thesis by (auto simp: digits1_def split: if_splits dest: dropWhile_prefix)
qed

lemma digits1_suffix: "digits1 w = Some v \<Longrightarrow> \<exists>u. w = u @ v \<and> u \<noteq> []"
  by (auto simp: digits1_def split: list.splits if_splits) (metis append_Cons dropWhile_suffix list.distinct(1))

lemma int_rest_suffix: "int_rest w = Some v \<Longrightarrow> \<exists>u. w = u @ v \<and> u \<noteq> []"
  using digits1_suffix [of "c # u" for c u]
  by (auto simp: int_rest_def Let_def split: list.splits if_splits) (metis append_Cons list.distinct(1))+

lemma frac_rest_suffix: "frac_rest w = Some v \<Longrightarrow> \<exists>u. w = u @ v"
  using digits1_suffix
  by (auto simp: frac_rest_def split: list.splits if_splits) (metis append_Cons)

lemma exp_rest_suffix: "exp_rest w = Some v \<Longrightarrow> \<exists>u. w = u @ v"
  by (auto simp: exp_rest_def split: list.splits if_splits dest!: digits1_suffix)

lemma int_rest_prefix: "int_rest (w @ y) = Some (v @ y) \<Longrightarrow> int_rest w = Some v"
proof (cases w)
  case Nil
  assume "int_rest (w @ y) = Some (v @ y)"
  from int_rest_suffix [OF this] Nil show ?thesis
    by (auto dest: arg_cong [where f = length])
next
  case (Cons c r)
  assume i: "int_rest (w @ y) = Some (v @ y)"
  have one: "(case x @ y of [] \<Rightarrow> None | c # r \<Rightarrow> if c = CHR ''0'' then Some r else digits1 (x @ y)) = Some (v @ y)
    \<Longrightarrow> (case x of [] \<Rightarrow> None | c # r \<Rightarrow> if c = CHR ''0'' then Some r else digits1 x) = Some v" for x
  proof (cases x)
    case (Cons a b)
    assume "(case x @ y of [] \<Rightarrow> None | c # r \<Rightarrow> if c = CHR ''0'' then Some r else digits1 (x @ y)) = Some (v @ y)"
    with Cons digits1_prefix [of x y v] show ?thesis by (auto split: if_splits)
  next
    case Nil
    assume "(case x @ y of [] \<Rightarrow> None | c # r \<Rightarrow> if c = CHR ''0'' then Some r else digits1 (x @ y)) = Some (v @ y)"
    then have "(case y of [] \<Rightarrow> None | c # r \<Rightarrow> if c = CHR ''0'' then Some r else digits1 y) = Some (v @ y)"
      unfolding Nil append_Nil .
    then have "\<exists>u. y = u @ v @ y \<and> u \<noteq> []"
      using digits1_suffix [of y "v @ y"] by (cases y) (auto split: if_splits)
    then show ?thesis by (auto dest: arg_cong [where f = length])
  qed
  show ?thesis
  proof (cases "c = CHR ''-''")
    case True
    with i Cons one [of r] show ?thesis by (simp add: int_rest_def Let_def)
  next
    case False
    with i Cons one [of "c # r"] show ?thesis by (simp add: int_rest_def Let_def cong: if_cong)
  qed
qed

lemma frac_rest_prefix: "frac_rest (w @ y) = Some (v @ y) \<Longrightarrow> frac_rest w = Some v"
proof (cases w)
  case Nil
  assume "frac_rest (w @ y) = Some (v @ y)"
  from frac_rest_suffix [OF this] Nil have "v = []" by auto
  with Nil show ?thesis by (simp add: frac_rest_def)
next
  case (Cons c r)
  assume "frac_rest (w @ y) = Some (v @ y)"
  with Cons digits1_prefix [of r y v] show ?thesis by (auto simp: frac_rest_def split: if_splits)
qed

lemma exp_rest_prefix: "exp_rest (w @ y) = Some (v @ y) \<Longrightarrow> exp_rest w = Some v"
proof (cases w)
  case Nil
  assume "exp_rest (w @ y) = Some (v @ y)"
  from exp_rest_suffix [OF this] Nil have "v = []" by auto
  with Nil show ?thesis by (simp add: exp_rest_def)
next
  case (Cons c r)
  assume e: "exp_rest (w @ y) = Some (v @ y)"
  show ?thesis
  proof (cases "c = CHR ''e'' \<or> c = CHR ''E''")
    case False
    with e Cons show ?thesis by (auto simp: exp_rest_def)
  next
    case True
    show ?thesis
    proof (cases r)
      case (Cons s r1)
      with e True \<open>w = c # r\<close> digits1_prefix [of r1 y v] digits1_prefix [of r y v]
      show ?thesis by (auto simp: exp_rest_def split: if_splits)
    next
      case Nil
      with e True \<open>w = c # r\<close> have "\<exists>z. digits1 z = Some (v @ y) \<and> (\<exists>u. y = u @ z)"
        by (auto simp: exp_rest_def digits1_def split: list.splits if_splits)
      then obtain z u where z: "digits1 z = Some (v @ y)" "y = u @ z" by blast
      from digits1_suffix [OF z(1)] obtain u1 where "z = u1 @ v @ y" "u1 \<noteq> []" by blast
      with z(2) show ?thesis by (auto dest: arg_cong [where f = length])
    qed
  qed
qed

lemma num_rest_prefix:
  assumes "num_rest (w @ y) = Some y"
  shows "valid_number w"
proof -
  obtain a b where ab: "int_rest (w @ y) = Some a" "frac_rest a = Some b" "exp_rest b = Some y"
    using assms by (auto simp: num_rest_def bind_eq_Some_conv)
  obtain b' where b: "b = b' @ y" using exp_rest_suffix [OF ab(3)] by blast
  obtain a' where a: "a = a' @ b" using frac_rest_suffix [OF ab(2)] by blast
  have "int_rest w = Some (a' @ b')" using int_rest_prefix [of w y "a' @ b'"] ab(1) a b by simp
  moreover have "frac_rest (a' @ b') = Some b'" using frac_rest_prefix [of "a' @ b'" y b'] ab(2) a b by simp
  moreover have "exp_rest b' = Some []" using exp_rest_prefix [of b' y "[]"] ab(3) b by simp
  ultimately show ?thesis by (simp add: valid_number_def num_rest_def)
qed

text \<open>A value at the very end of the text is not used, its container being open.\<close>

lemma match_number_sound:
  assumes "u_json_match_number (u_lexer_record_lmatch l) (Some (fresh d k)) = Ok x l'" "d < U_JSON_MAX_DEPTH"
  shows "remaining l' = 0 \<or> (\<exists>y. x = Some y \<and> wf_json d y \<and> jkey y = k)"
proof -
  let ?l = "u_lexer_record_lmatch l"
  obtain u l3 where s: "num_scan ?l = Ok u l3" using assms(1) by (auto simp: match_number_scan lbind_eq_Ok)
  then obtain w y where w: "u_lexer_lookahead l = w @ y" "num_rest (w @ y) = Some y" "l3 = move (length w) ?l"
    using num_scan_sound [OF s] by auto
  have v: "valid_number w" using num_rest_prefix [OF w(2)] .
  then have ne: "w \<noteq> []" by (auto simp: valid_number_def num_rest_def int_rest_def)
  show ?thesis
  proof (cases y)
    case Nil
    have "l' = u_lexer_record_rmatch l3"
      using assms(1) s by (auto simp: match_number_scan lbind_eq_Ok set_or_err_Ok Let_def split: option.splits)
    with Nil w show ?thesis by simp
  next
    case (Cons c r)
    with assms s w v number_match [OF w(1) ne] show ?thesis
      by (auto simp: match_number_scan set_or_err_def fresh_def u_json_set_val_def u_strlcpy_eq
          U_TOKEN_SZ_def Let_def split: if_splits)
  qed
qed

text \<open>The claim for each of the mutually recursive functions.\<close>

definition node :: "nat \<Rightarrow> string \<Rightarrow> u_json_type \<Rightarrow> u_json option \<Rightarrow> bool" where
  "node d k t x = (\<exists>y. x = Some y \<and> wf_json d y \<and> jkey y = k \<and> jtype y = t)"

fun sound_call :: "json_rec \<Rightarrow> json_call \<Rightarrow> bool" where
  "sound_call rec Call_value = (\<forall>l d k x l'. d < U_JSON_MAX_DEPTH \<longrightarrow> rec Call_value l (Some (fresh d k)) = Ok x l'
     \<longrightarrow> remaining l' = 0 \<or> (\<exists>t. node d k t x))"
| "sound_call rec Call_array = (\<forall>l d k x l'. d < U_JSON_MAX_DEPTH \<longrightarrow> rec Call_array l (Some (fresh d k)) = Ok x l'
     \<longrightarrow> node d k U_JSON_TYPE_ARRAY x)"
| "sound_call rec Call_object = (\<forall>l d k x l'. d < U_JSON_MAX_DEPTH \<longrightarrow> rec Call_object l (Some (fresh d k)) = Ok x l'
     \<longrightarrow> node d k U_JSON_TYPE_OBJECT x)"
| "sound_call rec Call_array_loop = (\<forall>l d k j x l'. node d k U_JSON_TYPE_ARRAY j
     \<longrightarrow> rec Call_array_loop l j = Ok x l' \<longrightarrow> remaining l' = 0 \<or> node d k U_JSON_TYPE_ARRAY x)"
| "sound_call rec Call_object_loop = (\<forall>l d k j x l'. node d k U_JSON_TYPE_OBJECT j
     \<longrightarrow> rec Call_object_loop l j = Ok x l' \<longrightarrow> remaining l' = 0 \<or> node d k U_JSON_TYPE_OBJECT x)"
| "sound_call rec Call_pair = (\<forall>l d k j x l'. node d k U_JSON_TYPE_OBJECT j
     \<longrightarrow> rec Call_pair l j = Ok x l' \<longrightarrow> remaining l' = 0 \<or> node d k U_JSON_TYPE_OBJECT x)"

lemma close_with_sound: "close_with l b jo = Ok x l' \<Longrightarrow> b \<noteq> NUL \<Longrightarrow> x = jo \<and> remaining l \<noteq> 0"
  by (auto simp: close_with_def lex_err_def split: if_splits)

lemma lex_trail_sound: "lex_trail l = Ok u l' \<Longrightarrow> remaining l = 0 \<Longrightarrow> l' = l"
  by (simp add: lex_trail_def)

lemma wf_empty:
  "d < U_JSON_MAX_DEPTH \<Longrightarrow> t = U_JSON_TYPE_ARRAY \<or> t = U_JSON_TYPE_OBJECT \<Longrightarrow>
   node d k t (Some (U_json t [] k [] d 0 0 False []))"
  by (auto simp: node_def)

lemma add_array_sound:
  assumes "node d k U_JSON_TYPE_ARRAY j" "node (Suc d) [] t e"
  shows "\<exists>j'. add_child l j e = Ok j' l \<and> node d k U_JSON_TYPE_ARRAY j'"
proof -
  obtain y x where y: "j = Some y" "wf_json d y" "jkey y = k" "jtype y = U_JSON_TYPE_ARRAY"
    "e = Some x" "wf_json (Suc d) x" "jkey x = []"
    using assms by (auto simp: node_def)
  then show ?thesis by (cases y) (auto simp: add_child_def set_or_err_def node_def)
qed

lemma add_object_sound:
  assumes "node d k U_JSON_TYPE_OBJECT j" "node (Suc d) kx t e" "valid_body kx" "length kx < U_TOKEN_SZ - 1"
  shows "\<exists>j'. add_child l j e = Ok j' l \<and> node d k U_JSON_TYPE_OBJECT j'"
proof -
  obtain y x where y: "j = Some y" "wf_json d y" "jkey y = k" "jtype y = U_JSON_TYPE_OBJECT"
    "e = Some x" "wf_json (Suc d) x" "jkey x = kx"
    using assms by (auto simp: node_def)
  with assms(3,4) show ?thesis by (cases y) (auto simp: add_child_def set_or_err_def node_def)
qed

lemma node_depth: "node d k t j \<Longrightarrow> \<exists>y. j = Some y \<and> jdepth y = d"
proof -
  assume "node d k t j"
  then obtain y where "j = Some y" "wf_json d y" by (auto simp: node_def)
  then show ?thesis by (cases y) auto
qed

lemma value_sound:
  assumes "sound_call rec Call_array" "sound_call rec Call_object" "d < U_JSON_MAX_DEPTH"
    "u_json_match_value rec l (Some (fresh d k)) = Ok x l'"
  shows "remaining l' = 0 \<or> (\<exists>t. node d k t x)"
proof -
  let ?c = "u_lexer_peek l"
  consider "?c = CHR 0x22" | "?c \<noteq> CHR 0x22" "?c = CHR ''-'' \<or> isdigit ?c" | "?c = CHR ''{''" | "?c = CHR ''[''"
    | "?c = CHR ''t''" | "?c = CHR ''f''" | "?c = CHR ''n''"
    | "?c \<noteq> CHR 0x22" "\<not> isdigit ?c" "?c \<noteq> CHR ''-''" "?c \<noteq> CHR ''{''" "?c \<noteq> CHR ''[''" "?c \<noteq> CHR ''t''" "?c \<noteq> CHR ''f''" "?c \<noteq> CHR ''n''"
    by blast
  then show ?thesis
  proof cases
    case 1
    then have "u_json_match_string (u_lexer_record_lmatch l) (Some (fresh d k)) = Ok x l'"
      using assms(4) by (simp add: value_simps)
    from match_string_value_sound [OF this assms(3)] show ?thesis by (auto simp: node_def)
  next
    case 2
    then have "u_json_match_number (u_lexer_record_lmatch l) (Some (fresh d k)) = Ok x l'"
      using assms(4) by (simp add: value_simps)
    from match_number_sound [OF this assms(3)] show ?thesis by (auto simp: node_def)
  next
    case 3
    then have "rec Call_object l (Some (fresh d k)) = Ok x l'" using assms(4) by (simp add: value_simps)
    with assms(2,3) show ?thesis unfolding sound_call.simps by blast
  next
    case 4
    then have "rec Call_array l (Some (fresh d k)) = Ok x l'" using assms(4) by (simp add: value_simps)
    with assms(1,3) show ?thesis unfolding sound_call.simps by blast
  next
    case 5
    then have "u_json_match_true l (Some (fresh d k)) = Ok x l'" using assms(4) by (simp add: value_simps)
    from match_seq_sound [OF this [unfolded u_json_match_true_def]] assms(3) show ?thesis by (auto simp: node_def)
  next
    case 6
    then have "u_json_match_false l (Some (fresh d k)) = Ok x l'" using assms(4) by (simp add: value_simps)
    from match_seq_sound [OF this [unfolded u_json_match_false_def]] assms(3) show ?thesis by (auto simp: node_def)
  next
    case 7
    then have "u_json_match_null l (Some (fresh d k)) = Ok x l'" using assms(4) by (simp add: value_simps)
    from match_seq_sound [OF this [unfolded u_json_match_null_def]] assms(3) show ?thesis by (auto simp: node_def)
  next
    case 8 with assms(4) show ?thesis by (simp add: value_simps lex_err_def)
  qed
qed

lemma array_sound:
  assumes "sound_call rec Call_array_loop" "d < U_JSON_MAX_DEPTH"
    "u_json_match_array rec l (Some (fresh d k)) = Ok x l'"
  shows "node d k U_JSON_TYPE_ARRAY x"
proof -
  obtain j2 l2 where l2: "rec Call_array_loop l (Some (U_json U_JSON_TYPE_ARRAY [] k [] d 0 0 False [])) = Ok j2 l2"
      "close_with l2 CHR '']'' j2 = Ok x l'"
    using assms(3)
    by (auto simp: u_json_match_array_def lbind_eq_Ok set_type_opt_def set_or_err_def fresh_def lex_err_def split: if_splits)
  have "remaining l2 = 0 \<or> node d k U_JSON_TYPE_ARRAY j2"
    using assms(1) wf_empty [OF assms(2)] l2(1) unfolding sound_call.simps by blast
  with close_with_sound [OF l2(2)] show ?thesis by auto
qed

lemma object_sound:
  assumes "sound_call rec Call_object_loop" "d < U_JSON_MAX_DEPTH"
    "u_json_match_object rec l (Some (fresh d k)) = Ok x l'"
  shows "node d k U_JSON_TYPE_OBJECT x"
proof -
  obtain j2 l2 where l2: "rec Call_object_loop l (Some (U_json U_JSON_TYPE_OBJECT [] k [] d 0 0 False [])) = Ok j2 l2"
      "close_with l2 CHR ''}'' j2 = Ok x l'"
    using assms(3)
    by (auto simp: u_json_match_object_def lbind_eq_Ok set_type_opt_def set_or_err_def fresh_def lex_err_def split: if_splits)
  have "remaining l2 = 0 \<or> node d k U_JSON_TYPE_OBJECT j2"
    using assms(1) wf_empty [OF assms(2)] l2(1) unfolding sound_call.simps by blast
  with close_with_sound [OF l2(2)] show ?thesis by auto
qed

text \<open>What follows an element that was put into its container.\<close>

lemma loop_end_sound:
  assumes rec: "\<And>l j x l'. node d k t j \<Longrightarrow> rec call l j = Ok x l' \<Longrightarrow> remaining l' = 0 \<or> node d k t x"
    and x: "lbind (lex_trail l4) (\<lambda>_ l5. if u_lexer_peek l5 = CHR '','' then rec call l5 j else Ok j l5) = Ok x l'"
    and j: "remaining l4 = 0 \<or> node d k t j"
  shows "remaining l' = 0 \<or> node d k t x"
proof (cases "remaining l4 = 0")
  case True
  then have "lex_trail l4 = Ok () l4" by (simp add: lex_trail_def)
  with x True show ?thesis by simp
next
  case False
  with j x rec show ?thesis by (auto simp: lbind_eq_Ok split: if_splits)
qed

lemma array_round_sound:
  assumes "sound_call rec Call_value" "sound_call rec Call_array_loop" "node d k U_JSON_TYPE_ARRAY j"
    "array_round rec l j = Ok x l'"
  shows "remaining l' = 0 \<or> node d k U_JSON_TYPE_ARRAY x"
proof -
  obtain c l1 where sk: "lex_skip l = Ok c l1" using assms(4) by (auto simp: array_round_def lbind_eq_Ok)
  show ?thesis
  proof (cases "c = CHR '']''")
    case True with assms(3,4) sk show ?thesis by (simp add: array_round_def)
  next
    case False
    obtain y where y: "j = Some y" "jdepth y = d" using node_depth [OF assms(3)] by blast
    have nc: "Suc d < U_JSON_MAX_DEPTH" "new_child l1 j = Ok (Some (fresh (Suc d) [])) l1"
      using assms(4) sk False y by (auto simp: array_round_def new_child_Some split: if_splits)
    then obtain e l3 where v: "rec Call_value l1 (Some (fresh (Suc d) [])) = Ok e l3"
      "lbind (add_child l3 j e) (\<lambda>jo2 l4. lbind (lex_trail l4) (\<lambda>_ l5.
           if u_lexer_peek l5 = CHR '','' then rec Call_array_loop l5 jo2 else Ok jo2 l5)) = Ok x l'"
      using assms(4) sk False by (auto simp: array_round_def lbind_eq_Ok)
    then obtain j2 l4 where j2: "add_child l3 j e = Ok j2 l4" "lbind (lex_trail l4) (\<lambda>_ l5.
           if u_lexer_peek l5 = CHR '','' then rec Call_array_loop l5 j2 else Ok j2 l5) = Ok x l'"
      by (auto simp: lbind_eq_Ok)
    have l43: "l4 = l3"
      using j2(1) by (auto simp: add_child_def lbind_eq_Ok set_or_err_Ok split: option.splits)
    have "remaining l3 = 0 \<or> (\<exists>t. node (Suc d) [] t e)"
      using assms(1) nc(1) v(1) unfolding sound_call.simps by blast
    then have j: "remaining l4 = 0 \<or> node d k U_JSON_TYPE_ARRAY j2"
      using add_array_sound [OF assms(3), of _ e l3] j2(1) l43 by auto
    have "remaining l' = 0 \<or> node d k U_JSON_TYPE_ARRAY x"
      if "node d k U_JSON_TYPE_ARRAY j" "rec Call_array_loop l j = Ok x l'" for l j x l'
      using assms(2) that unfolding sound_call.simps by blast
    from this j2(2) j show ?thesis by (rule loop_end_sound)
  qed
qed

lemma object_round_sound:
  assumes "sound_call rec Call_pair" "sound_call rec Call_object_loop" "node d k U_JSON_TYPE_OBJECT j"
    "object_round rec l j = Ok x l'"
  shows "remaining l' = 0 \<or> node d k U_JSON_TYPE_OBJECT x"
proof -
  obtain c l1 where sk: "lex_skip l = Ok c l1" using assms(4) by (auto simp: object_round_def lbind_eq_Ok)
  show ?thesis
  proof (cases "c = CHR ''}''")
    case True with assms(3,4) sk show ?thesis by (simp add: object_round_def)
  next
    case False
    obtain j2 l4 where j2: "rec Call_pair (snd (u_json_match_pair_first l1)) j = Ok j2 l4"
      "lbind (lex_trail l4) (\<lambda>_ l5.
           if u_lexer_peek l5 = CHR '','' then rec Call_object_loop l5 j2 else Ok j2 l5) = Ok x l'"
      using assms(4) sk False by (auto simp: object_round_def lbind_eq_Ok split: if_splits)
    have j: "remaining l4 = 0 \<or> node d k U_JSON_TYPE_OBJECT j2"
      using assms(1,3) j2(1) unfolding sound_call.simps by blast
    have "remaining l' = 0 \<or> node d k U_JSON_TYPE_OBJECT x"
      if "node d k U_JSON_TYPE_OBJECT j" "rec Call_object_loop l j = Ok x l'" for l j x l'
      using assms(2) that unfolding sound_call.simps by blast
    from this j2(2) j show ?thesis by (rule loop_end_sound)
  qed
qed

lemma match_string_None_sound:
  assumes "u_json_match_string l None = Ok x l1" "u_lexer_get_match l1 = Some m"
  shows "\<exists>w. m = w @ [CHR 0x22] \<and> valid_body w \<and> length w < U_TOKEN_SZ - 1"
proof -
  obtain u where s: "str_scan l = Ok u l1"
    using assms(1) by (auto simp: match_string_scan lbind_eq_Ok lex_err_def split: if_splits)
  then obtain q w r where "valid_body w" "u_lexer_lookahead l = q # w @ CHR 0x22 # r" "l1 = after_string w l"
    using str_scan_sound by blast
  with after_string_match assms(2) show ?thesis by (auto split: if_splits)
qed

lemma pair_sound:
  assumes "sound_call rec Call_value" "node d k U_JSON_TYPE_OBJECT j"
    "u_json_match_pair rec l j = Ok x l'"
  shows "remaining l' = 0 \<or> node d k U_JSON_TYPE_OBJECT x"
proof -
  obtain y where y: "j = Some y" "jdepth y = d" using node_depth [OF assms(2)] by blast
  obtain z l1 where s: "u_json_match_string l None = Ok z l1" using assms(3) by (auto simp: u_json_match_pair_def lbind_eq_Ok)
  have nc: "Suc d < U_JSON_MAX_DEPTH" "new_child l1 j = Ok (Some (fresh (Suc d) [])) l1"
    using assms(3) s y by (auto simp: u_json_match_pair_def new_child_Some split: if_splits)
  obtain m where m: "u_lexer_get_match l1 = Some m"
    using assms(3) s nc(2) by (auto simp: u_json_match_pair_def split: option.splits)
  obtain w where w: "m = w @ [CHR 0x22]" "valid_body w" "length w < U_TOKEN_SZ - 1"
    using match_string_None_sound [OF s m] by blast
  have key: "set_key_opt l1 (Some (fresh (Suc d) [])) w = Ok (Some (fresh (Suc d) w)) l1"
    using w(3) by (simp add: set_key_opt_def set_or_err_def fresh_def u_strlcpy_eq U_TOKEN_SZ_def)
  obtain l5 e l6 where e: "rec Call_value l5 (Some (fresh (Suc d) w)) = Ok e l6" "add_child l6 j e = Ok x l'"
    using assms(3) s nc(2) m w(1) key
    by (auto simp: u_json_match_pair_def lbind_eq_Ok lex_err_def split: if_splits)
  have l6: "l' = l6" using e(2) by (auto simp: add_child_def lbind_eq_Ok set_or_err_Ok split: option.splits)
  have "remaining l6 = 0 \<or> (\<exists>t. node (Suc d) w t e)"
    using assms(1) nc(1) e(1) unfolding sound_call.simps by blast
  with add_object_sound [OF assms(2), of w _ e l6] w(2,3) e(2) l6 show ?thesis by auto
qed

lemma json_match_sound: "sound_call (json_match n) call"
proof (induction n arbitrary: call)
  case 0
  show ?case by (cases call) simp_all
next
  case (Suc n)
  show ?case
  proof (cases call)
    case Call_value
    then show ?thesis using value_sound [OF Suc Suc] by simp
  next
    case Call_array
    then show ?thesis using array_sound [OF Suc] by simp
  next
    case Call_object
    then show ?thesis using object_sound [OF Suc] by simp
  next
    case Call_array_loop
    then show ?thesis using array_round_sound [OF Suc Suc] by simp
  next
    case Call_object_loop
    then show ?thesis using object_round_sound [OF Suc Suc] by simp
  next
    case Call_pair
    then show ?thesis using pair_sound [OF Suc] by simp
  qed
qed

section \<open>Properties\<close>

definition start :: "string \<Rightarrow> u_lexer" where
  "start s = \<lparr> l_s = s, l_pos = 0, l_lmatch = 0, l_rmatch = 0, l_err = [] \<rparr>"

lemma start_lookahead [simp]: "u_lexer_lookahead (start s) = s"
  by (simp add: start_def u_lexer_lookahead_def)

lemma do_parse_start:
  assumes "s = c # r" "\<not> isspace c"
  shows "u_json_do_parse s b =
    (case (if c = CHR ''{'' then json_match (json_fuel s) Call_object (start s) (if b then Some (fresh 0 []) else None)
           else if c = CHR ''['' then json_match (json_fuel s) Call_array (start s) (if b then Some (fresh 0 []) else None)
           else lex_err (start s) (''Expect '' @ [CHR 0x27, CHR ''{'', CHR 0x27] @ '' or ''
                @ [CHR 0x27, CHR ''['', CHR 0x27] @ '', got '' @ [CHR 0x27, c, CHR 0x27] @ ''.''))
     of Ok j _ \<Rightarrow> Parsed j | Err l2 \<Rightarrow> Rejected (l_err l2) | Fault e \<Rightarrow> Undefined e)"
proof -
  have "u_lexer_eat_ws (start s) = (True, start s)" using assms by (simp add: eat_ws_eq)
  moreover have "u_lexer_peek (start s) = c" using assms(1) by simp
  ultimately show ?thesis
    unfolding u_json_do_parse_def
    by (simp add: u_lexer_new_def start_def [symmetric] u_json_match_object_first_def
        u_json_match_array_first_def u_json_new_def fresh_def [symmetric] del: fresh_def)
qed

lemma encode_decode:
  assumes "wf_json 0 t" "named t" "jkey t = []" "is_container t"
  shows "\<exists>s. u_json_encode (Some t) = Some s \<and> u_json_decode s = Parsed (Some t)"
proof -
  obtain ty f k v d i c m cs where t: "t = U_json ty f k v d i c m cs" by (cases t)
  have e: "u_json_encode (Some t) = Some (value_text t)"
    using encode_text [of "[t]"] assms(1,3) by (auto simp: u_json_encode_def key_text_def)
  have wf: "f = []" "d = 0" "i = 0" "\<not> m" "k = []" "v = []" using assms t by (auto simp: is_container_def)
  have ch: "wf_json (Suc 0) y \<and> reads_back (Suc 0) y" if "y \<in> set cs" for y
    using that assms t reads_back_wf [of "Suc 0" y] by (auto simp: is_container_def)
  show ?thesis
  proof (cases "ty = U_JSON_TYPE_ARRAY")
    case True
    let ?s = "value_text t"
    have s: "?s = ''[ '' @ join (map (\<lambda>x. key_text x @ value_text x) cs) @ '' ]'' @ []" using t True by simp
    have cs: "\<forall>y \<in> set cs. wf_json (Suc 0) y \<and> jkey y = [] \<and> reads_back (Suc 0) y"
      using ch assms(1) t True by auto
    have "json_need Call_array (remaining (start ?s)) \<le> json_fuel ?s" by (simp add: json_fuel_def)
    from match_array_ok [OF cs _ this, of "[]" "[]"] s obtain l' where
      "json_match (json_fuel ?s) Call_array (start ?s) (Some (fresh 0 []))
        = Ok (Some (U_json U_JSON_TYPE_ARRAY [] [] [] 0 0 (length cs) False cs)) l'" by auto
    moreover have "t = U_json U_JSON_TYPE_ARRAY [] [] [] 0 0 (length cs) False cs"
      using t True wf assms(1) by simp
    ultimately have "u_json_decode ?s = Parsed (Some t)"
      using do_parse_start [of ?s "CHR ''[''" _ True] s by (simp add: u_json_decode_def)
    with e show ?thesis by blast
  next
    case False
    with assms(4) t have ob: "ty = U_JSON_TYPE_OBJECT" by (simp add: is_container_def)
    let ?s = "value_text t"
    have s: "?s = ''{ '' @ join (map (\<lambda>x. key_text x @ value_text x) cs) @ '' }'' @ []" using t ob by simp
    have cs: "\<forall>y \<in> set cs. wf_json (Suc 0) y \<and> jkey y \<noteq> [] \<and> valid_body (jkey y)
        \<and> length (jkey y) < U_TOKEN_SZ - 1 \<and> reads_back (Suc 0) y"
      using ch assms(1,2) t ob by auto
    have "json_need Call_object (remaining (start ?s)) \<le> json_fuel ?s" by (simp add: json_fuel_def)
    from match_object_ok [OF cs _ this, of "[]" "[]"] s obtain l' where
      "json_match (json_fuel ?s) Call_object (start ?s) (Some (fresh 0 []))
        = Ok (Some (U_json U_JSON_TYPE_OBJECT [] [] [] 0 0 0 False cs)) l'" by auto
    moreover have "t = U_json U_JSON_TYPE_OBJECT [] [] [] 0 0 0 False cs"
      using t ob wf assms(1) by simp
    ultimately have "u_json_decode ?s = Parsed (Some t)"
      using do_parse_start [of ?s "CHR ''{''" _ True] s by (simp add: u_json_decode_def)
    with e show ?thesis by blast
  qed
qed

definition sample :: u_json where
  "sample = U_json U_JSON_TYPE_OBJECT [] [] [] 0 0 0 False
     [U_json U_JSON_TYPE_NUMBER [] ''a'' ''-1.5e3'' 1 0 0 False [],
      U_json U_JSON_TYPE_ARRAY [] ''b'' [] 1 0 2 False
        [U_json U_JSON_TYPE_TRUE [] [] [] 2 0 0 False [], U_json U_JSON_TYPE_STRING [] [] ''x'' 2 0 0 False []]]"

lemma sample_wf: "wf_json 0 sample" "named sample" "jkey sample = []" "is_container sample"
  by code_simp+

text \<open>
  C1: the round trip of a tree: what the encoder prints for a container that is well formed, with
  names for all members of objects, is decoded to the same tree, with every type, key, value, depth
  and counter.
\<close>

theorem u_json_roundtrip:
  assumes "wf_json 0 t" "named t" "jkey t = []" "is_container t"
  shows "\<exists>s. u_json_encode (Some t) = Some s \<and> u_json_decode s = Parsed (Some t)"
  using assms by (rule encode_decode)

theorem u_json_roundtrip_witness:
  "u_json_decode (the (u_json_encode (Some sample))) = Parsed (Some sample)"
  using u_json_roundtrip [OF sample_wf] by auto

text \<open>
  C9: whatever the decoder accepts is a tree that is a container without a key of its own, its depth
  is below the limit everywhere, every value is valid for its type and every token fits its buffer.
  Where, in addition, every member of an object has a non-empty name (\<open>named\<close>),
  encoding the tree and decoding the text gives the same tree. A text with an empty name is accepted
  too, and the second part does not cover its tree: \<open>{"":1}\<close>, for one, is encoded to a text that the
  decoder refuses.
\<close>

theorem u_json_decode_sound:
  assumes "u_json_decode s = Parsed x"
  shows "\<exists>t. x = Some t \<and> wf_json 0 t \<and> jkey t = [] \<and> is_container t
    \<and> (named t \<longrightarrow> (\<exists>s'. u_json_encode (Some t) = Some s' \<and> u_json_decode s' = Parsed (Some t)))"
proof -
  obtain ok l1 where e: "u_lexer_eat_ws (start s) = (ok, l1)" by force
  obtain l2 t where t: "node 0 [] t x" "t = U_JSON_TYPE_OBJECT \<or> t = U_JSON_TYPE_ARRAY"
  proof -
    have d: "0 < U_JSON_MAX_DEPTH" by (simp add: U_JSON_MAX_DEPTH_def)
    have so: "sound_call (json_match (json_fuel s)) Call_object" "sound_call (json_match (json_fuel s)) Call_array"
      by (rule json_match_sound)+
    obtain l' where "json_match (json_fuel s) Call_object l1 (Some (fresh 0 [])) = Ok x l'
        \<or> json_match (json_fuel s) Call_array l1 (Some (fresh 0 [])) = Ok x l'"
      using assms e unfolding u_json_decode_def u_json_do_parse_def
      by (auto simp: u_lexer_new_def start_def [symmetric] u_json_new_def fresh_def [symmetric] lex_err_def Let_def
          simp del: json_match.simps split: lex_result.splits if_splits)
    with so d that show ?thesis unfolding sound_call.simps by blast
  qed
  then obtain y where y: "x = Some y" "wf_json 0 y" "jkey y = []" "is_container y"
    by (auto simp: node_def is_container_def)
  then show ?thesis using encode_decode [of y] by auto
qed

text \<open>The text of the sample, with white space of its own.\<close>

definition sample_text :: string where
  "sample_text = '' {'' @ [CHR 0x22] @ ''a'' @ [CHR 0x22] @ '' :-1.5e3 ,'' @ [CHR 0x22] @ ''b'' @ [CHR 0x22]
     @ '': [true,'' @ [CHR 0x22] @ ''x'' @ [CHR 0x22] @ '' ] }''"

lemma sample_parsed: "u_json_decode sample_text = Parsed (Some sample)"
  by code_simp

theorem u_json_decode_sound_witness:
  "\<exists>s'. u_json_encode (Some sample) = Some s' \<and> u_json_decode s' = Parsed (Some sample)"
  using u_json_decode_sound [OF sample_parsed] sample_wf(2) by auto

end
