(* ===== verification/Json_Limits.thy ===== *)
theory Json_Limits
  imports Json_Roundtrip
begin

text \<open>
  Where the JSON parser is more liberal than the grammar, where validating and decoding differ, and
  what happens to tokens that do not fit their buffer.
\<close>

section \<open>White space inside literals\<close>

lemma lex_skip_spaces:
  assumes "u_lexer_lookahead l = x # w @ c # r" "list_all isspace w" "\<not> isspace c"
  shows "\<exists>l'. lex_skip l = Ok c l' \<and> u_lexer_lookahead l' = c # r"
proof -
  have sp: "spaces (w @ c # r) = length w" using assms(2,3) by (induction w) auto
  have "drop (Suc (spaces (w @ c # r))) (x # w @ c # r) = c # r" using sp by simp
  moreover obtain d s where "w @ c # r = d # s" by (cases w) auto
  ultimately show ?thesis using assms(1) by (simp add: lex_skip_eq Let_def peek_lookahead)
qed

lemma match_true_spaces:
  assumes "u_lexer_lookahead l = CHR ''t'' # a @ CHR ''r'' # b @ CHR ''u'' # c @ CHR ''e'' # x # r"
    "list_all isspace a" "list_all isspace b" "list_all isspace c"
  shows "\<exists>l'. u_json_match_true l (Some (fresh d k)) = Ok (Some (U_json U_JSON_TYPE_TRUE [] k [] d 0 0 False [])) l'
    \<and> u_lexer_lookahead l' = dropWhile isspace (x # r)"
proof -
  have n: "\<not> isspace CHR ''r''" "\<not> isspace CHR ''u''" "\<not> isspace CHR ''e''" by (simp_all add: isspace_def)
  obtain l1 where l1: "lex_skip l = Ok CHR ''r'' l1" "u_lexer_lookahead l1 = CHR ''r'' # b @ CHR ''u'' # c @ CHR ''e'' # x # r"
    using lex_skip_spaces [OF assms(1,2) n(1)] by blast
  obtain l2 where l2: "lex_skip l1 = Ok CHR ''u'' l2" "u_lexer_lookahead l2 = CHR ''u'' # c @ CHR ''e'' # x # r"
    using lex_skip_spaces [OF l1(2) assms(3) n(2)] by blast
  obtain l3 where l3: "lex_skip l2 = Ok CHR ''e'' l3" "u_lexer_lookahead l3 = CHR ''e'' # x # r"
    using lex_skip_spaces [OF l2(2) assms(4) n(3)] by blast
  have "lex_skip l3 = Ok (u_lexer_peek (move (1 + spaces (x # r)) l3)) (move (1 + spaces (x # r)) l3)"
    using l3(2) by (simp add: lex_skip_eq Let_def)
  moreover have "u_lexer_lookahead (move (1 + spaces (x # r)) l3) = dropWhile isspace (x # r)"
    using l3(2) drop_spaces [of "x # r"] by simp
  ultimately show ?thesis
    using l1(1) l2(1) l3(1) assms(1)
    by (simp add: u_json_match_true_def u_json_match_seq_def set_or_err_def fresh_def)
qed

text \<open>An array with one element, given how its value is read.\<close>

lemma decode_singleton:
  assumes "\<not> isspace v" "v \<noteq> CHR '']''"
    and v: "\<And>n l. u_lexer_lookahead l = v # w @ '']'' \<Longrightarrow> 3 * length w \<le> n \<Longrightarrow>
      \<exists>l'. json_match (Suc n) Call_value l (Some (fresh 1 [])) = Ok (Some x) l' \<and> u_lexer_lookahead l' = '']''"
  shows "u_json_decode (CHR ''['' # v # w @ '']'') = Parsed (Some (U_json U_JSON_TYPE_ARRAY [] [] [] 0 0 1 False [x]))"
proof -
  let ?s = "CHR ''['' # v # w @ '']''"
  obtain n where n: "json_fuel ?s = Suc (Suc (Suc n))" "3 * length w \<le> n"
    by (simp add: json_fuel_def numeral_3_eq_3)
  have sk: "lex_skip (start ?s) = Ok v (move 1 (start ?s))" using assms(1) by (cases w) (simp_all add: lex_skip_eq Let_def)
  obtain l' where l': "json_match (Suc n) Call_value (move 1 (start ?s)) (Some (fresh 1 [])) = Ok (Some x) l'"
    "u_lexer_lookahead l' = '']''" using v [of "move 1 (start ?s)" n] n(2) by auto
  have nc: "new_child (move 1 (start ?s)) (Some (U_json U_JSON_TYPE_ARRAY [] [] [] 0 0 0 False []))
      = Ok (Some (fresh 1 [])) (move 1 (start ?s))"
    by (simp add: new_child_Some U_JSON_MAX_DEPTH_def)
  have "json_match (Suc (Suc n)) Call_array_loop (start ?s) (Some (U_json U_JSON_TYPE_ARRAY [] [] [] 0 0 0 False []))
      = Ok (Some (U_json U_JSON_TYPE_ARRAY [] [] [] 0 0 1 False [x])) l'"
    using sk l' assms(2) nc
    by (simp add: array_round_def add_child_def set_or_err_def lex_trail_def del: json_match.simps)
      (simp add: array_round_def add_child_def set_or_err_def lex_trail_def)
  then have "\<exists>l2. json_match (json_fuel ?s) Call_array (start ?s) (Some (fresh 0 []))
      = Ok (Some (U_json U_JSON_TYPE_ARRAY [] [] [] 0 0 1 False [x])) l2"
    using close_ok [OF l'(2)]
    by (simp add: n(1) u_json_match_array_def set_type_opt_def set_or_err_def fresh_def) metis
  then show ?thesis
    using do_parse_start [of ?s "CHR ''[''" _ True] by (auto simp: u_json_decode_def)
qed

text \<open>
  white space inside a literal is skipped: the letters of \<open>true\<close> may be any number of blanks
  apart, which the grammar of JSON does not allow.
\<close>

theorem u_json_blank_literal:
  assumes "list_all isspace a" "list_all isspace b" "list_all isspace c"
  shows "u_json_decode (''[t'' @ a @ ''r'' @ b @ ''u'' @ c @ ''e]'') = u_json_decode ''[true]''"
proof -
  let ?x = "U_json U_JSON_TYPE_TRUE [] [] [] 1 0 0 False []"
  have g: "u_json_decode (CHR ''['' # CHR ''t'' # (a' @ ''r'' @ b' @ ''u'' @ c' @ ''e'') @ '']'')
      = Parsed (Some (U_json U_JSON_TYPE_ARRAY [] [] [] 0 0 1 False [?x]))"
    if w: "list_all isspace a'" "list_all isspace b'" "list_all isspace c'" for a' b' c'
  proof (rule decode_singleton)
    fix n l assume l: "u_lexer_lookahead l = CHR ''t'' # (a' @ ''r'' @ b' @ ''u'' @ c' @ ''e'') @ '']''"
    then have l2: "u_lexer_lookahead l = CHR ''t'' # a' @ CHR ''r'' # b' @ CHR ''u'' # c' @ CHR ''e'' # CHR '']'' # []" by simp
    from match_true_spaces [OF this w, of 1 "[]"] l2
    show "\<exists>l'. json_match (Suc n) Call_value l (Some (fresh 1 [])) = Ok (Some ?x) l' \<and> u_lexer_lookahead l' = '']''"
      by (simp add: value_simps)
  qed simp_all
  from g [OF assms] g [of "[]" "[]" "[]"] show ?thesis by simp
qed

theorem u_json_blank_literal_witness:
  "u_json_decode ''[t r  ue]'' = u_json_decode ''[true]''"
  using u_json_blank_literal [of "'' ''" "''  ''" "[]"] by (simp add: isspace_def)

section \<open>Nesting\<close>

definition brackets :: "nat \<Rightarrow> string" where
  "brackets n = replicate n CHR ''['' @ replicate n CHR '']''"

lemma brackets_Suc: "brackets (Suc n) @ r = CHR ''['' # brackets n @ CHR '']'' # r"
  by (simp add: brackets_def replicate_append_same)

lemma brackets_hd: "brackets (Suc n) @ r = CHR ''['' # (brackets n @ CHR '']'' # r)"
  by (rule brackets_Suc)

lemma lex_skip_one:
  "u_lexer_lookahead l = x # c # r \<Longrightarrow> \<not> isspace c \<Longrightarrow> lex_skip l = Ok c (move 1 l)"
  by (simp add: lex_skip_eq Let_def)

lemma validate_brackets:
  "u_lexer_lookahead l = brackets (Suc n) @ r \<Longrightarrow> 3 * Suc n \<le> N \<Longrightarrow>
   \<exists>l'. json_match N Call_array l None = Ok None l' \<and> u_lexer_lookahead l' = dropWhile isspace r"
proof (induction n arbitrary: l r N)
  case 0
  have l: "u_lexer_lookahead l = CHR ''['' # CHR '']'' # r" using 0(1) by (simp add: brackets_def)
  obtain N' where N: "N = Suc (Suc N')"
  proof -
    have "N = Suc (Suc (N - 2))" using 0(2) by simp
    with that show ?thesis by blast
  qed
  have sk: "lex_skip l = Ok (CHR '']'') (move 1 l)" using l by (simp add: lex_skip_one)
  have m: "u_lexer_lookahead (move 1 l) = CHR '']'' # r" using l by simp
  from close_ok [OF m, of None] show ?case
    using l sk by (simp add: N u_json_match_array_def set_type_opt_def array_round_def)
next
  case (Suc n)
  have l: "u_lexer_lookahead l = CHR ''['' # brackets (Suc n) @ CHR '']'' # r"
    using Suc.prems(1) brackets_Suc by metis
  obtain N' where N: "N = Suc (Suc (Suc N'))" "3 * Suc n \<le> N'"
  proof -
    have "N = Suc (Suc (Suc (N - 3)))" "3 * Suc n \<le> N - 3" using Suc.prems(2) by simp_all
    with that show ?thesis by blast
  qed
  have sk: "lex_skip l = Ok (CHR ''['') (move 1 l)"
    using l unfolding brackets_hd by (intro lex_skip_one) simp_all
  have m: "u_lexer_lookahead (move 1 l) = brackets (Suc n) @ CHR '']'' # r" using l by simp
  obtain l1 where l1: "json_match N' Call_array (move 1 l) None = Ok None l1" "u_lexer_lookahead l1 = CHR '']'' # r"
    using Suc.IH [OF m N(2)] by auto
  have pk: "u_lexer_peek (move 1 l) = CHR ''[''" using m unfolding brackets_hd by simp
  from close_ok [OF l1(2), of None] show ?case
    using l sk l1 pk
    by (simp add: N(1) u_json_match_array_def set_type_opt_def array_round_def new_child_def add_child_def
        lex_trail_def value_simps)
qed

lemma decode_brackets:
  "u_lexer_lookahead l = brackets (Suc n) @ r \<Longrightarrow> 3 * Suc n \<le> N \<Longrightarrow> d < U_JSON_MAX_DEPTH \<Longrightarrow>
   U_JSON_MAX_DEPTH \<le> d + n \<Longrightarrow> \<exists>l'. json_match N Call_array l (Some (fresh d k)) = Err l'"
proof (induction n arbitrary: l r N d k)
  case (Suc n)
  have l: "u_lexer_lookahead l = CHR ''['' # brackets (Suc n) @ CHR '']'' # r"
    using Suc.prems(1) brackets_Suc by metis
  obtain N' where N: "N = Suc (Suc (Suc N'))" "3 * Suc n \<le> N'"
  proof -
    have "N = Suc (Suc (Suc (N - 3)))" "3 * Suc n \<le> N - 3" using Suc.prems(2) by simp_all
    with that show ?thesis by blast
  qed
  have sk: "lex_skip l = Ok (CHR ''['') (move 1 l)"
    using l unfolding brackets_hd by (intro lex_skip_one) simp_all
  have m: "u_lexer_lookahead (move 1 l) = brackets (Suc n) @ CHR '']'' # r" using l by simp
  have pk: "u_lexer_peek (move 1 l) = CHR ''[''" using m unfolding brackets_hd by simp
  show ?case
  proof (cases "Suc d < U_JSON_MAX_DEPTH")
    case False
    then show ?thesis
      using l sk
      by (simp add: N(1) u_json_match_array_def set_type_opt_def array_round_def new_child_Some
          set_or_err_def fresh_def)
  next
    case True
    obtain l1 where "json_match N' Call_array (move 1 l) (Some (fresh (Suc d) [])) = Err l1"
      using Suc.IH [OF m N(2) True] Suc.prems(4) by auto
    then show ?thesis
      using l sk True pk
      by (simp add: N(1) u_json_match_array_def set_type_opt_def set_or_err_def array_round_def
          new_child_Some value_simps fresh_def)
  qed
qed simp

text \<open>
  the limit on nesting holds for decoding only: a text of \<open>n\<close> nested arrays is valid for every
  \<open>n\<close>, however deep, while the decoder rejects it beyond 16 levels.
\<close>

theorem u_json_validate_unbounded:
  "u_json_validate (brackets (Suc n)) = Parsed None
   \<and> (U_JSON_MAX_DEPTH \<le> n \<longrightarrow> (\<exists>e. u_json_decode (brackets (Suc n)) = Rejected e))"
proof -
  let ?s = "brackets (Suc n)"
  have s: "?s = CHR ''['' # (brackets n @ '']'')" using brackets_Suc [of n "[]"] by simp
  have len: "3 * Suc n \<le> json_fuel ?s" by (simp add: json_fuel_def brackets_def)
  have "\<exists>l'. json_match (json_fuel ?s) Call_array (start ?s) None = Ok None l'"
    using validate_brackets [of "start ?s" n "[]", OF _ len] by auto
  moreover have "\<exists>l'. json_match (json_fuel ?s) Call_array (start ?s) (Some (fresh 0 [])) = Err l'"
    if "U_JSON_MAX_DEPTH \<le> n"
    using decode_brackets [of "start ?s" n "[]", OF _ len, of 0] that by (auto simp: U_JSON_MAX_DEPTH_def)
  ultimately show ?thesis
    using do_parse_start [OF s, of False] do_parse_start [OF s, of True]
    by (auto simp: u_json_validate_def u_json_decode_def)
qed

theorem u_json_validate_unbounded_witness:
  "\<exists>e. u_json_validate (brackets 17) = Parsed None \<and> u_json_decode (brackets 17) = Rejected e"
  using u_json_validate_unbounded [of 16] by (auto simp: U_JSON_MAX_DEPTH_def)

section \<open>Long tokens\<close>

text \<open>
  a string of 127 or more characters is read from a buffer that was never written: the match is
  too long for it, and the code does not look at the result of the copy.
\<close>

theorem u_json_long_string:
  assumes "valid_body w" "127 \<le> length w"
  shows "u_json_decode (''['' @ [CHR 0x22] @ w @ [CHR 0x22] @ '']'') = Undefined Uninitialised"
proof -
  let ?s = "CHR ''['' # CHR 0x22 # w @ CHR 0x22 # '']''"
  obtain n where n: "json_fuel ?s = Suc (Suc (Suc n))" by (simp add: json_fuel_def numeral_3_eq_3)
  have sk: "lex_skip (start ?s) = Ok (CHR 0x22) (move 1 (start ?s))" by (intro lex_skip_one) simp_all
  let ?l = "u_lexer_record_lmatch (move 1 (start ?s))"
  have l: "u_lexer_lookahead ?l = CHR 0x22 # w @ CHR 0x22 # '']''" by simp
  have "u_json_match_string ?l (Some (fresh 1 [])) = Fault Uninitialised"
    using str_scan_ok [OF l assms(1)] after_string_match [OF l] assms(2) l
    by (simp add: match_string_scan set_or_err_def fresh_def U_TOKEN_SZ_def)
  then have "json_match (json_fuel ?s) Call_array (start ?s) (Some (fresh 0 [])) = Fault Uninitialised"
    using sk by (simp add: n u_json_match_array_def set_type_opt_def set_or_err_def array_round_def
        new_child_Some value_simps fresh_def U_JSON_MAX_DEPTH_def)
  then show ?thesis
    using do_parse_start [of ?s "CHR ''[''" _ True] by (simp add: u_json_decode_def)
qed

theorem u_json_long_string_witness:
  "u_json_decode (''['' @ [CHR 0x22] @ replicate 127 CHR ''x'' @ [CHR 0x22] @ '']'') = Undefined Uninitialised"
proof (rule u_json_long_string)
  have "valid_body (replicate n CHR ''x'')" for n by (induction n) (simp_all add: iscntrl_def)
  then show "valid_body (replicate 127 CHR ''x'')" .
qed simp

section \<open>Members without a name\<close>

text \<open>
  the empty string is a key for the decoder, but the encoder prints no key then: the text of such
  an object is rejected by the decoder.
\<close>

theorem u_json_empty_key:
  "\<exists>t s e. u_json_decode (''{'' @ [CHR 0x22, CHR 0x22] @ '':1}'') = Parsed (Some t)
     \<and> u_json_encode (Some t) = Some s \<and> u_json_decode s = Rejected e"
proof -
  let ?t = "U_json U_JSON_TYPE_OBJECT [] [] [] 0 0 0 False [U_json U_JSON_TYPE_NUMBER [] [] ''1'' 1 0 0 False []]"
  have "u_json_decode (''{'' @ [CHR 0x22, CHR 0x22] @ '':1}'') = Parsed (Some ?t)" by code_simp
  moreover have "u_json_encode (Some ?t) = Some ''{ 1 }''" by code_simp
  moreover have "u_json_decode ''{ 1 }'' = Rejected []" by code_simp
  ultimately show ?thesis by blast
qed

end
