(* ===== verification/Ulist.thy ===== *)
theory Ulist
  imports Prelude
begin

text \<open>
  The linked list of element pointers (\<open>srcs/toolbox/list.c\<close>). An item is the block that
  \<open>u_zalloc\<close> returned for it, named by its address, with the pointer stored in it (\<open>None\<close> is
  \<open>NULL\<close>); the tail queue is the list of its items. The outcome of the allocation in an insertion
  is an argument: \<open>None\<close> is a failure and \<open>Some a\<close> the address of the new block. An iterator is
  the address of the item to visit next, so that a released item shows as \<open>Use_after_free\<close>.
\<close>

section \<open>The data\<close>

record 'a u_list_item =
  i_id :: nat
  i_ptr :: "'a option"

record 'a u_list =
  l_items :: "'a u_list_item list"
  l_count :: size_t

definition u_list_create :: "bool \<Rightarrow> rc \<times> 'a u_list option" where
  "u_list_create ok = (if \<not> ok then (rc_fail, None) else (rc_ok, Some \<lparr> l_items = [], l_count = 0 \<rparr>))"

definition u_list_clear :: "'a u_list option \<Rightarrow> rc \<times> 'a u_list option" where
  "u_list_clear lo =
     (case lo of None \<Rightarrow> (rc_fail, None) | Some l \<Rightarrow> (rc_ok, Some (l\<lparr> l_items := [] \<rparr>)))"

text \<open>The blocks that are released: the items, and then the list itself (\<open>None\<close>).\<close>

definition u_list_free :: "'a u_list option \<Rightarrow> nat option list" where
  "u_list_free lo = (case lo of None \<Rightarrow> [] | Some l \<Rightarrow> map (\<lambda>x. Some (i_id x)) (l_items l) @ [None])"

section \<open>Insertion and removal\<close>

fun insert_before :: "'a u_list_item list \<Rightarrow> size_t \<Rightarrow> 'a u_list_item \<Rightarrow> 'a u_list_item list outcome" where
  "insert_before [] n x = Inl Null_deref"
| "insert_before (y # ys) n x =
     (if n = 0 then Inr (x # y # ys)
      else obind (insert_before ys (n - 1) x) (\<lambda>zs. Inr (y # zs)))"

definition u_list_insert ::
  "nat option \<Rightarrow> 'a u_list option \<Rightarrow> 'a option \<Rightarrow> size_t \<Rightarrow> (rc \<times> 'a u_list option) outcome" where
  "u_list_insert mem lo p n =
     (case lo of None \<Rightarrow> Inr (rc_fail, None)
      | Some l \<Rightarrow>
        if n > l_count l then Inr (rc_fail, lo)
        else
          (case mem of None \<Rightarrow> Inr (rc_fail, lo)
           | Some a \<Rightarrow>
             let x = \<lparr> i_id = a, i_ptr = p \<rparr> in
             obind
               (if n = 0 then Inr (x # l_items l)
                else if n = l_count l then Inr (l_items l @ [x])
                else insert_before (l_items l) n x)
               (\<lambda>xs. Inr (rc_ok, Some (l\<lparr> l_items := xs, l_count := l_count l + 1 \<rparr>)))))"

definition u_list_add ::
  "nat option \<Rightarrow> 'a u_list option \<Rightarrow> 'a option \<Rightarrow> (rc \<times> 'a u_list option) outcome" where
  "u_list_add mem lo p =
     (case lo of None \<Rightarrow> Inl Null_deref | Some l \<Rightarrow> u_list_insert mem lo p (l_count l))"

fun remove_ptr :: "'a u_list_item list \<Rightarrow> 'a option \<Rightarrow> 'a u_list_item list option" where
  "remove_ptr [] p = None"
| "remove_ptr (x # xs) p =
     (if i_ptr x = p then Some xs
      else case remove_ptr xs p of None \<Rightarrow> None | Some ys \<Rightarrow> Some (x # ys))"

definition u_list_del :: "'a u_list option \<Rightarrow> 'a option \<Rightarrow> (rc \<times> 'a u_list option) outcome" where
  "u_list_del lo p =
     (case lo of None \<Rightarrow> Inl Null_deref
      | Some l \<Rightarrow>
        (case remove_ptr (l_items l) p of
           None \<Rightarrow> Inr (rc_fail, lo)
         | Some xs \<Rightarrow> Inr (rc_ok, Some (l\<lparr> l_items := xs, l_count := l_count l - 1 \<rparr>))))"

fun remove_at :: "'a u_list_item list \<Rightarrow> size_t \<Rightarrow> ('a u_list_item \<times> 'a u_list_item list) outcome" where
  "remove_at [] n = Inl Null_deref"
| "remove_at (x # xs) n =
     (if n = 0 then Inr (x, xs)
      else obind (remove_at xs (n - 1)) (\<lambda>(y, ys). Inr (y, x # ys)))"

text \<open>The flag tells whether \<open>pptr\<close> is given; the second component is what is stored there.\<close>

definition u_list_del_n ::
  "'a u_list option \<Rightarrow> size_t \<Rightarrow> bool \<Rightarrow> (rc \<times> 'a option option \<times> 'a u_list option) outcome" where
  "u_list_del_n lo n pptr =
     (case lo of None \<Rightarrow> Inr (rc_fail, None, None)
      | Some l \<Rightarrow>
        if n \<ge> l_count l then Inr (rc_fail, None, lo)
        else obind (remove_at (l_items l) n) (\<lambda>(x, xs).
          Inr (rc_ok, if pptr then Some (i_ptr x) else None,
               Some (l\<lparr> l_items := xs, l_count := l_count l - 1 \<rparr>))))"

section \<open>Access\<close>

definition u_list_count :: "'a u_list option \<Rightarrow> size_t outcome" where
  "u_list_count lo = (case lo of None \<Rightarrow> Inl Null_deref | Some l \<Rightarrow> Inr (l_count l))"

fun item_at :: "'a u_list_item list \<Rightarrow> size_t \<Rightarrow> 'a option" where
  "item_at [] n = None"
| "item_at (x # xs) n = (if n = 0 then i_ptr x else item_at xs (n - 1))"

definition u_list_get_n :: "'a u_list option \<Rightarrow> size_t \<Rightarrow> 'a option" where
  "u_list_get_n lo n =
     (case lo of None \<Rightarrow> None
      | Some l \<Rightarrow> if n > l_count l then None else item_at (l_items l) n)"

text \<open>An iterator argument is \<open>None\<close> when the pointer \<open>it\<close> is \<open>NULL\<close>, else \<open>Some\<close> of what it points to.\<close>

definition tailq_next :: "'a u_list_item list \<Rightarrow> nat option" where
  "tailq_next rest = (case rest of [] \<Rightarrow> None | y # _ \<Rightarrow> Some (i_id y))"

definition u_list_first ::
  "'a u_list option \<Rightarrow> nat option option \<Rightarrow> 'a option \<times> nat option option" where
  "u_list_first lo it =
     (case lo of None \<Rightarrow> (None, it)
      | Some l \<Rightarrow>
        (case l_items l of
           [] \<Rightarrow> (None, if it = None then None else Some None)
         | x # rest \<Rightarrow> (i_ptr x, if it = None then None else Some (tailq_next rest))))"

definition u_list_next ::
  "'a u_list option \<Rightarrow> nat option option \<Rightarrow> ('a option \<times> nat option option) outcome" where
  "u_list_next lo it =
     (case (lo, it) of
        (Some l, Some (Some a)) \<Rightarrow>
          (case dropWhile (\<lambda>x. i_id x \<noteq> a) (l_items l) of
             [] \<Rightarrow> Inl Use_after_free
           | x # rest \<Rightarrow> Inr (i_ptr x, Some (tailq_next rest)))
      | _ \<Rightarrow> Inr (None, it))"

text \<open>
  The loop of the macro \<open>u_list_foreach\<close> with a body that may change the list. The result is the
  list of the visited elements and the list at the end. Every round visits an item that follows
  the one before it in the list, so the number of items at the start is enough fuel for a body that
  adds none.
\<close>

fun foreach_loop ::
  "nat \<Rightarrow> ('a u_list \<Rightarrow> 'a \<Rightarrow> 'a u_list outcome) \<Rightarrow> 'a u_list \<Rightarrow> 'a option \<Rightarrow> nat option option
   \<Rightarrow> ('a list \<times> 'a u_list) outcome" where
  "foreach_loop 0 body l n it = (case n of None \<Rightarrow> Inr ([], l) | Some _ \<Rightarrow> Inl Out_of_fuel)"
| "foreach_loop (Suc k) body l n it =
     (case n of None \<Rightarrow> Inr ([], l)
      | Some p \<Rightarrow>
        obind (body l p) (\<lambda>l'.
        obind (u_list_next (Some l') it) (\<lambda>(n', it').
        obind (foreach_loop k body l' n' it') (\<lambda>(vs, l''). Inr (p # vs, l'')))))"

definition u_list_foreach ::
  "('a u_list \<Rightarrow> 'a \<Rightarrow> 'a u_list outcome) \<Rightarrow> 'a u_list \<Rightarrow> ('a list \<times> 'a u_list) outcome" where
  "u_list_foreach body l =
     (case u_list_first (Some l) (Some None) of
        (n, it) \<Rightarrow> foreach_loop (length (l_items l)) body l n it)"

section \<open>The list of pointers it stands for\<close>

definition contents :: "'a u_list \<Rightarrow> 'a option list" where
  "contents l = map i_ptr (l_items l)"

text \<open>
  The counter of a list with its items, and \<open>e\<close> more: a list that was never cleared has \<open>e = 0\<close>.
\<close>

definition count_inv :: "nat \<Rightarrow> 'a u_list \<Rightarrow> bool" where
  "count_inv e l \<longleftrightarrow> l_count l = of_nat (length (l_items l) + e) \<and> length (l_items l) + e < 2 ^ 64"

definition list_inv :: "'a u_list \<Rightarrow> bool" where
  "list_inv l \<longleftrightarrow> l_count l = of_nat (length (l_items l)) \<and> length (l_items l) < 2 ^ 64"

lemma list_inv_count: "list_inv l \<longleftrightarrow> count_inv 0 l"
  by (simp add: list_inv_def count_inv_def)

lemma of_nat_size_Suc:
  assumes "Suc n < 2 ^ 64"
  shows "(of_nat (Suc n) :: size_t) \<noteq> 0" "(of_nat (Suc n) :: size_t) - 1 = of_nat n"
  using assms size_t_eq [of "Suc n" 0] by simp_all

lemma insert_before_ok:
  "n < length xs \<Longrightarrow> length xs < 2 ^ 64 \<Longrightarrow>
   insert_before xs (of_nat n) x = Inr (take n xs @ x # drop n xs)"
proof (induction xs arbitrary: n)
  case (Cons y ys)
  show ?case
  proof (cases n)
    case (Suc m)
    then show ?thesis using Cons of_nat_size_Suc [of m] by (simp del: of_nat_Suc)
  qed simp
qed simp

lemma remove_at_ok:
  "n < length xs \<Longrightarrow> length xs < 2 ^ 64 \<Longrightarrow>
   remove_at xs (of_nat n) = Inr (xs ! n, take n xs @ drop (Suc n) xs)"
proof (induction xs arbitrary: n)
  case (Cons y ys)
  show ?case
  proof (cases n)
    case (Suc m)
    then show ?thesis using Cons of_nat_size_Suc [of m] by (simp del: of_nat_Suc)
  qed simp
qed simp

lemma past_the_end:
  "length xs \<le> n \<Longrightarrow> n < 2 ^ 64 \<Longrightarrow> insert_before xs (of_nat n) x = Inl Null_deref"
  "length xs \<le> n \<Longrightarrow> n < 2 ^ 64 \<Longrightarrow> remove_at xs (of_nat n) = Inl Null_deref"
proof (induction xs arbitrary: n)
  case (Cons y ys)
  { case 1
    then obtain m where "n = Suc m" by (cases n) auto
    then show ?case using Cons(1) [of m] 1 of_nat_size_Suc [of m] by (simp del: of_nat_Suc)
  next
    case 2
    then obtain m where "n = Suc m" by (cases n) auto
    then show ?case using Cons(2) [of m] 2 of_nat_size_Suc [of m] by (simp del: of_nat_Suc) }
qed simp_all

lemma item_at_ok:
  "n < 2 ^ 64 \<Longrightarrow> item_at xs (of_nat n) = (if n < length xs then map i_ptr xs ! n else None)"
proof (induction xs arbitrary: n)
  case (Cons y ys)
  show ?case
  proof (cases n)
    case (Suc m)
    then show ?thesis using Cons of_nat_size_Suc [of m] by (simp del: of_nat_Suc)
  qed simp
qed simp

lemma remove_ptr_None: "remove_ptr xs p = None \<longleftrightarrow> p \<notin> set (map i_ptr xs)"
  by (induction xs) (auto split: option.splits)

lemma remove_ptr_Some:
  "remove_ptr xs p = Some ys \<Longrightarrow>
   p \<in> set (map i_ptr xs) \<and> map i_ptr ys = remove1 p (map i_ptr xs) \<and> Suc (length ys) = length xs"
  by (induction xs arbitrary: ys) (auto split: option.splits if_splits)

subsection \<open>Operations and what they do to a list of pointers\<close>

datatype 'a list_op =
    Op_add "'a option" | Op_insert "'a option" size_t | Op_del "'a option"
  | Op_del_n size_t | Op_get size_t | Op_count | Op_clear

datatype 'a list_res =
    Res_rc rc | Res_ptr "'a option" | Res_del rc "'a option option" | Res_count size_t

definition list_step ::
  "nat option \<Rightarrow> 'a u_list option \<Rightarrow> 'a list_op \<Rightarrow> ('a list_res \<times> 'a u_list option) outcome" where
  "list_step mem lo op =
     (case op of
        Op_add p \<Rightarrow> obind (u_list_add mem lo p) (\<lambda>(rc, l). Inr (Res_rc rc, l))
      | Op_insert p n \<Rightarrow> obind (u_list_insert mem lo p n) (\<lambda>(rc, l). Inr (Res_rc rc, l))
      | Op_del p \<Rightarrow> obind (u_list_del lo p) (\<lambda>(rc, l). Inr (Res_rc rc, l))
      | Op_del_n n \<Rightarrow> obind (u_list_del_n lo n True) (\<lambda>(rc, x, l). Inr (Res_del rc x, l))
      | Op_get n \<Rightarrow> Inr (Res_ptr (u_list_get_n lo n), lo)
      | Op_count \<Rightarrow> obind (u_list_count lo) (\<lambda>n. Inr (Res_count n, lo))
      | Op_clear \<Rightarrow> (case u_list_clear lo of (rc, l) \<Rightarrow> Inr (Res_rc rc, l)))"

definition insert_at :: "nat \<Rightarrow> 'b \<Rightarrow> 'b list \<Rightarrow> 'b list" where
  "insert_at n p xs = take n xs @ p # drop n xs"

text \<open>
  The list of pointers with the number \<open>e\<close> of elements that the counter still has from before a
  \<open>u_list_clear\<close>. A position from the end of the list to before the stale count leads to a null
  pointer in an insertion or a deletion; with \<open>e = 0\<close> there is no such position.
\<close>

fun abs_step ::
  "bool \<Rightarrow> 'a option list \<times> nat \<Rightarrow> 'a list_op \<Rightarrow> ('a list_res \<times> 'a option list \<times> nat) outcome" where
  "abs_step ok (xs, e) op =
     (case op of
        Op_add p \<Rightarrow> Inr (if ok then (Res_rc 0, xs @ [p], e) else (Res_rc (- 1), xs, e))
      | Op_insert p n \<Rightarrow>
          if \<not> ok \<or> length xs + e < unat n then Inr (Res_rc (- 1), xs, e)
          else if unat n = 0 \<or> unat n < length xs then Inr (Res_rc 0, insert_at (unat n) p xs, e)
          else if unat n = length xs + e then Inr (Res_rc 0, xs @ [p], e)
          else Inl Null_deref
      | Op_del p \<Rightarrow> Inr (if p \<in> set xs then (Res_rc 0, remove1 p xs, e) else (Res_rc (- 1), xs, e))
      | Op_del_n n \<Rightarrow>
          if length xs + e \<le> unat n then Inr (Res_del (- 1) None, xs, e)
          else if unat n < length xs
          then Inr (Res_del 0 (Some (xs ! unat n)), take (unat n) xs @ drop (Suc (unat n)) xs, e)
          else Inl Null_deref
      | Op_get n \<Rightarrow> Inr (Res_ptr (if unat n < length xs then xs ! unat n else None), xs, e)
      | Op_count \<Rightarrow> Inr (Res_count (of_nat (length xs + e)), xs, e)
      | Op_clear \<Rightarrow> Inr (Res_rc 0, [], length xs + e))"

fun list_run ::
  "'a u_list option \<Rightarrow> (nat option \<times> 'a list_op) list \<Rightarrow> ('a list_res list \<times> 'a u_list option) outcome"
where
  "list_run lo [] = Inr ([], lo)"
| "list_run lo ((mem, op) # ops) =
     obind (list_step mem lo op) (\<lambda>(r, lo').
     obind (list_run lo' ops) (\<lambda>(rs, lo''). Inr (r # rs, lo'')))"

fun abs_run ::
  "'a option list \<times> nat \<Rightarrow> (nat option \<times> 'a list_op) list
   \<Rightarrow> ('a list_res list \<times> 'a option list \<times> nat) outcome"
where
  "abs_run s [] = Inr ([], s)"
| "abs_run s ((mem, op) # ops) =
     obind (abs_step (mem \<noteq> None) s op) (\<lambda>(r, s').
     obind (abs_run s' ops) (\<lambda>(rs, s''). Inr (r # rs, s'')))"

lemma size_cases:
  assumes "m < 2 ^ 64"
  shows "(n :: size_t) > of_nat m \<longleftrightarrow> m < unat n" "(n :: size_t) \<ge> of_nat m \<longleftrightarrow> m \<le> unat n"
    "n = of_nat m \<longleftrightarrow> unat n = m"
  using assms by (auto simp: word_less_nat_alt word_le_nat_alt unat_size_t word_unat_eq_iff)

text \<open>What it is for a step or a run of the list to match the abstract one, a fault included.\<close>

definition matches ::
  "('r \<times> 'a u_list option) outcome \<Rightarrow> ('r \<times> 'a option list \<times> nat) outcome \<Rightarrow> bool" where
  "matches c a =
     (case a of Inl f \<Rightarrow> c = Inl f
      | Inr (r, xs, e) \<Rightarrow> (\<exists>l. c = Inr (r, Some l) \<and> contents l = xs \<and> count_inv e l))"

lemma insert_matches:
  assumes "count_inv e l" "Suc (length (contents l) + e) < 2 ^ 64"
  shows "matches (obind (u_list_insert mem (Some l) p n) (\<lambda>(rc, l). Inr (Res_rc rc, l)))
     (abs_step (mem \<noteq> None) (contents l, e) (Op_insert p n))"
proof -
  have cnt: "l_count l = of_nat (length (l_items l) + e)"
    and len: "length (l_items l) + e < 2 ^ 64" "Suc (length (l_items l) + e) < 2 ^ 64"
    using assms by (simp_all add: count_inv_def contents_def)
  note sc = size_cases [OF len(1), folded cnt]
  show ?thesis
  proof (cases "mem = None \<or> length (l_items l) + e < unat n")
    case True
    with assms(1) show ?thesis
      by (auto simp: u_list_insert_def sc matches_def contents_def split: option.splits)
  next
    case False
    then obtain a where a: "mem = Some a" by auto
    define x where "x = \<lparr> i_id = a, i_ptr = p \<rparr>"
    define res where "res = (if n = 0 then Inr (x # l_items l) else if n = l_count l then Inr (l_items l @ [x])
        else insert_before (l_items l) n x)"
    have ins: "u_list_insert mem (Some l) p n
        = obind res (\<lambda>xs. Inr (rc_ok, Some (l\<lparr> l_items := xs, l_count := l_count l + 1 \<rparr>)))"
      using a False by (simp add: u_list_insert_def sc x_def res_def)
    have z: "n = 0 \<longleftrightarrow> unat n = 0" by (simp add: unat_eq_zero)
    consider "unat n = 0 \<or> unat n < length (l_items l)"
      | "unat n \<noteq> 0" "length (l_items l) \<le> unat n" "unat n = length (l_items l) + e"
      | "unat n \<noteq> 0" "length (l_items l) \<le> unat n" "unat n \<noteq> length (l_items l) + e" by linarith
    then show ?thesis
    proof cases
      case 1
      then have "res = Inr (take (unat n) (l_items l) @ x # drop (unat n) (l_items l))"
        using insert_before_ok [of "unat n" "l_items l" x] len by (auto simp: res_def z sc)
      then have "u_list_insert mem (Some l) p n = Inr (rc_ok, Some (l\<lparr> l_items :=
          take (unat n) (l_items l) @ x # drop (unat n) (l_items l), l_count := l_count l + 1 \<rparr>))"
        by (simp add: ins)
      with 1 a False len show ?thesis
        by (auto simp: x_def contents_def insert_at_def count_inv_def cnt take_map drop_map matches_def)
    next
      case 2
      then have "res = Inr (l_items l @ [x])" by (simp add: res_def z sc)
      then have "u_list_insert mem (Some l) p n
          = Inr (rc_ok, Some (l\<lparr> l_items := l_items l @ [x], l_count := l_count l + 1 \<rparr>))"
        by (simp add: ins)
      with 2 a len show ?thesis
        by (auto simp: x_def contents_def count_inv_def cnt matches_def)
    next
      case 3
      then have "res = Inl Null_deref"
        using past_the_end(1) [of "l_items l" "unat n" x] len False by (simp add: res_def z sc)
      then have "u_list_insert mem (Some l) p n = Inl Null_deref" by (simp add: ins)
      with 3 a False show ?thesis by (simp add: contents_def matches_def)
    qed
  qed
qed

lemma list_step_ok:
  assumes "count_inv e l" "Suc (length (contents l) + e) < 2 ^ 64"
  shows "matches (list_step mem (Some l) op) (abs_step (mem \<noteq> None) (contents l, e) op)"
proof -
  have cnt: "l_count l = of_nat (length (l_items l) + e)"
    and len: "length (l_items l) + e < 2 ^ 64"
    using assms by (simp_all add: count_inv_def contents_def)
  note sc = size_cases [OF len, folded cnt]
  have ucnt: "unat (l_count l) = length (l_items l) + e" using len by (simp only: cnt unat_size_t)
  show ?thesis
  proof (cases op)
    case (Op_add p)
    have "abs_step (mem \<noteq> None) (contents l, e) (Op_insert p (l_count l))
        = abs_step (mem \<noteq> None) (contents l, e) op"
      by (auto simp: Op_add ucnt insert_at_def contents_def)
    with insert_matches [OF assms, of mem p "l_count l"] show ?thesis
      by (simp add: Op_add list_step_def u_list_add_def)
  next
    case (Op_insert p n)
    with insert_matches [OF assms, of mem p n] show ?thesis by (simp add: list_step_def)
  next
    case (Op_del p)
    show ?thesis
    proof (cases "remove_ptr (l_items l) p")
      case None
      then have "p \<notin> set (contents l)" by (simp add: remove_ptr_None contents_def)
      with Op_del assms(1) None show ?thesis by (simp add: list_step_def u_list_del_def matches_def)
    next
      case (Some ys)
      have ys: "p \<in> set (contents l)" "map i_ptr ys = remove1 p (contents l)"
          "length (l_items l) = Suc (length ys)"
        using remove_ptr_Some [OF Some] by (simp_all add: contents_def)
      then have "l_count l - 1 = of_nat (length ys + e)" by (simp add: cnt)
      with Some Op_del len ys show ?thesis
        by (simp add: list_step_def u_list_del_def contents_def count_inv_def matches_def)
    qed
  next
    case (Op_del_n n)
    consider "length (l_items l) + e \<le> unat n" | "unat n < length (l_items l)"
      | "length (l_items l) \<le> unat n" "unat n < length (l_items l) + e" by linarith
    then show ?thesis
    proof cases
      case 1
      with assms(1) Op_del_n show ?thesis
        by (simp add: list_step_def u_list_del_n_def sc contents_def matches_def)
    next
      case 2
      moreover have "remove_at (l_items l) n = Inr (l_items l ! unat n,
          take (unat n) (l_items l) @ drop (Suc (unat n)) (l_items l))"
        using remove_at_ok [of "unat n" "l_items l"] 2 len by simp
      moreover have "\<not> l_count l \<le> n" using 2 by (simp add: sc)
      moreover have "l_count l - 1 = of_nat (length (l_items l) - 1 + e)"
        using 2 by (simp add: cnt of_nat_diff)
      moreover have "min (length (l_items l)) (unat n) + (length (l_items l) - Suc (unat n))
          = length (l_items l) - 1" using 2 by simp
      ultimately show ?thesis using Op_del_n len
        by (simp add: list_step_def u_list_del_n_def contents_def count_inv_def
            take_map drop_map matches_def)
    next
      case 3
      moreover have "remove_at (l_items l) n = Inl Null_deref"
        using past_the_end(2) [of "l_items l" "unat n"] 3 len by simp
      ultimately show ?thesis using Op_del_n
        by (simp add: list_step_def u_list_del_n_def contents_def sc matches_def)
    qed
  next
    case (Op_get n)
    have "item_at (l_items l) n = (if unat n < length (l_items l) then contents l ! unat n else None)"
      using item_at_ok [of "unat n" "l_items l"] unsigned_less [of n, where 'a = nat] by (simp add: contents_def)
    with Op_get assms(1) show ?thesis
      by (auto simp: list_step_def u_list_get_n_def contents_def sc matches_def)
  next
    case Op_count
    then show ?thesis using assms(1) by (simp add: list_step_def u_list_count_def contents_def cnt matches_def)
  next
    case Op_clear
    then show ?thesis
      using assms(1) by (simp add: list_step_def u_list_clear_def contents_def count_inv_def matches_def)
  qed
qed

lemma abs_step_length:
  "abs_step ok (xs, e) op = Inr (r, ys, e') \<Longrightarrow> length ys + e' \<le> Suc (length xs + e)"
  by (auto simp: insert_at_def length_remove1 split: list_op.splits if_splits)

lemma list_run_ok:
  assumes "count_inv e l" "length (contents l) + e + length ops < 2 ^ 64"
  shows "matches (list_run (Some l) ops) (abs_run (contents l, e) ops)"
  using assms
proof (induction ops arbitrary: l e)
  case (Cons mo ops)
  obtain mem op where mo: "mo = (mem, op)" by force
  have step: "matches (list_step mem (Some l) op) (abs_step (mem \<noteq> None) (contents l, e) op)"
    using Cons.prems by (intro list_step_ok) simp_all
  show ?case
  proof (cases "abs_step (mem \<noteq> None) (contents l, e) op")
    case (Inl f)
    with step show ?thesis by (simp add: mo matches_def del: abs_step.simps)
  next
    case (Inr t)
    obtain r xs e' where t: "t = (r, xs, e')" by (cases t)
    from step [unfolded Inr t matches_def] obtain l' where
        l': "list_step mem (Some l) op = Inr (r, Some l')" "contents l' = xs" "count_inv e' l'"
      by auto
    have "length (contents l') + e' + length ops < 2 ^ 64"
      using abs_step_length [OF Inr [unfolded t]] Cons.prems(2) l'(2) by simp
    with Cons.IH [OF l'(3)] have "matches (list_run (Some l') ops) (abs_run (xs, e') ops)"
      by (simp add: l'(2))
    then show ?thesis
      using l' Inr by (auto simp: mo t matches_def simp del: abs_step.simps split: sum.splits)
  qed
qed (simp add: matches_def)

text \<open>Without \<open>u_list_clear\<close> a list with the right count keeps it, and nothing faults.\<close>

lemma abs_run_plain:
  "Op_clear \<notin> snd ` set ops \<Longrightarrow> \<exists>rs ys. abs_run (xs, 0) ops = Inr (rs, ys, 0)"
proof (induction ops arbitrary: xs)
  case (Cons mo ops)
  obtain mem op where mo: "mo = (mem, op)" by force
  have "\<exists>r ys. abs_step (mem \<noteq> None) (xs, 0) op = Inr (r, ys, 0)"
    using Cons.prems by (cases op) (auto simp: mo)
  then obtain r ys where "abs_step (mem \<noteq> None) (xs, 0) op = Inr (r, ys, 0)" by blast
  with Cons.IH [of ys] Cons.prems show ?case by (fastforce simp: mo simp del: abs_step.simps)
qed simp

section \<open>Iteration\<close>

definition visited :: "'a option list \<Rightarrow> 'a list" where
  "visited ps = map the (takeWhile (\<lambda>p. p \<noteq> None) ps)"

lemma visited_simps [simp]:
  "visited [] = []" "visited (None # ps) = []" "visited (Some p # ps) = p # visited ps"
  by (simp_all add: visited_def)

lemma visited_all: "None \<notin> set ps \<Longrightarrow> visited ps = map the ps"
proof (induction ps)
  case (Cons p ps)
  then show ?case by (cases p) simp_all
qed simp

lemma foreach_None [simp]: "foreach_loop k body l None it = Inr ([], l)"
  by (cases k) simp_all

declare foreach_loop.simps [simp del]

lemma foreach_Some:
  "foreach_loop (Suc k) body l (Some p) it =
     obind (body l p) (\<lambda>l'.
     obind (u_list_next (Some l') it) (\<lambda>(n', it').
     obind (foreach_loop k body l' n' it') (\<lambda>(vs, l''). Inr (p # vs, l''))))"
  by (simp only: foreach_loop.simps option.case)

lemma next_ok:
  assumes "distinct (map i_id (l_items l))" "l_items l = pre @ y # ys"
  shows "u_list_next (Some l) (Some (Some (i_id y))) = Inr (i_ptr y, Some (tailq_next ys))"
proof -
  have "\<forall>z \<in> set pre. i_id z \<noteq> i_id y" using assms(1) by (auto simp: assms(2) image_iff)
  then have "dropWhile (\<lambda>z. i_id z \<noteq> i_id y) (l_items l) = y # ys"
    by (simp add: assms(2) dropWhile_append3)
  then show ?thesis by (simp add: u_list_next_def)
qed

lemma foreach_keep:
  "distinct (map i_id (l_items l)) \<Longrightarrow> l_items l = pre @ x # rest \<Longrightarrow>
   foreach_loop (Suc (length rest)) (\<lambda>l p. Inr l) l (i_ptr x) (Some (tailq_next rest))
     = Inr (visited (map i_ptr (x # rest)), l)"
proof (induction rest arbitrary: pre x)
  case Nil
  then show ?case
    by (cases "i_ptr x") (simp_all add: tailq_next_def u_list_next_def foreach_Some)
next
  case (Cons y ys)
  have it: "l_items l = (pre @ [x]) @ y # ys" using Cons.prems(2) by simp
  note n = next_ok [OF Cons.prems(1) it] and ih = Cons.IH [OF Cons.prems(1) it]
  have "tailq_next (y # ys) = Some (i_id y)" by (simp add: tailq_next_def)
  with n ih show ?case by (cases "i_ptr x") (simp_all add: foreach_Some)
qed

text \<open>The loop that evicts every element it visits, as the note on disposal recommends.\<close>

definition evict :: "'a u_list \<Rightarrow> 'a \<Rightarrow> 'a u_list outcome" where
  "evict l p = obind (u_list_del (Some l) (Some p)) (\<lambda>(rc, lo).
     case lo of None \<Rightarrow> Inl Null_deref | Some l' \<Rightarrow> Inr l')"

lemma foreach_evict:
  "distinct (map i_id (l_items l)) \<Longrightarrow> l_items l = x # rest \<Longrightarrow> None \<notin> i_ptr ` set (x # rest) \<Longrightarrow>
   foreach_loop (Suc (length rest)) evict l (i_ptr x) (Some (tailq_next rest))
     = Inr (visited (map i_ptr (x # rest)), l\<lparr> l_items := [], l_count := l_count l - of_nat (Suc (length rest)) \<rparr>)"
proof (induction rest arbitrary: l x)
  case Nil
  then obtain p where "i_ptr x = Some p" by force
  with Nil show ?case by (simp add: evict_def u_list_del_def tailq_next_def u_list_next_def foreach_Some)
next
  case (Cons y ys)
  obtain p where p: "i_ptr x = Some p" using Cons.prems(3) by (cases "i_ptr x") auto
  let ?l = "l\<lparr> l_items := y # ys, l_count := l_count l - 1 \<rparr>"
  have e: "evict l p = Inr ?l" using Cons.prems(2) p by (simp add: evict_def u_list_del_def)
  have d: "distinct (map i_id (l_items ?l))" using Cons.prems(1,2) by simp
  have "u_list_next (Some ?l) (Some (Some (i_id y))) = Inr (i_ptr y, Some (tailq_next ys))"
    using next_ok [OF d, of "[]"] by simp
  moreover have "foreach_loop (Suc (length ys)) evict ?l (i_ptr y) (Some (tailq_next ys))
     = Inr (visited (map i_ptr (y # ys)), ?l\<lparr> l_items := [], l_count := l_count ?l - of_nat (Suc (length ys)) \<rparr>)"
    by (rule Cons.IH [OF d]) (use Cons.prems(3) in auto)
  ultimately show ?case
    using e p by (simp add: foreach_Some tailq_next_def [of "y # ys"] algebra_simps)
qed

section \<open>Properties\<close>

text \<open>
  C12: every sequence of additions, insertions, deletions by pointer and by position, look-ups,
  counts and clears of a list gives the results, leaves the elements and faults just as the same
  operations on the abstract list do: a sequence of pointers, with the number of elements that the
  counter keeps from before a \<open>u_list_clear\<close>. Failed allocations and positions
  out of range are included; elements and operations are fewer than 2 ^ 64. When the count is right at the start and nothing is cleared, it stays right, the
  abstract list is a plain sequence, and no operation follows a null pointer.
\<close>
theorem u_list_refines:
  assumes "count_inv e l" "length (contents l) + e + length ops < 2 ^ 64"
  shows "(case abs_run (contents l, e) ops of
       Inl f \<Rightarrow> list_run (Some l) ops = Inl f
     | Inr (rs, ys, e') \<Rightarrow>
        (\<exists>l'. list_run (Some l) ops = Inr (rs, Some l') \<and> contents l' = ys \<and> count_inv e' l'))
   \<and> (e = 0 \<and> Op_clear \<notin> snd ` set ops \<longrightarrow> (\<exists>rs ys. abs_run (contents l, e) ops = Inr (rs, ys, 0)))"
  using list_run_ok [OF assms] abs_run_plain [of ops "contents l"]
  unfolding matches_def by blast

definition abc :: "char u_list" where
  "abc = \<lparr> l_items = [\<lparr> i_id = 1, i_ptr = Some CHR ''a'' \<rparr>, \<lparr> i_id = 2, i_ptr = Some CHR ''b'' \<rparr>,
     \<lparr> i_id = 3, i_ptr = Some CHR ''c'' \<rparr>], l_count = 3 \<rparr>"

theorem u_list_refines_witness:
  "\<exists>l'. list_run (Some abc) [(Some 9, Op_insert (Some CHR ''x'') 1), (None, Op_del_n 7), (None, Op_get 1),
       (None, Op_clear), (Some 8, Op_add (Some CHR ''y'')), (None, Op_count)]
     = Inr ([Res_rc 0, Res_del (- 1) None, Res_ptr (Some CHR ''x''), Res_rc 0, Res_rc 0, Res_count 5], Some l')
     \<and> contents l' = [Some CHR ''y''] \<and> count_inv 4 l'"
  using u_list_refines [of 0 abc
      "[(Some 9, Op_insert (Some CHR ''x'') 1), (None, Op_del_n 7), (None, Op_get 1),
       (None, Op_clear), (Some 8, Op_add (Some CHR ''y'')), (None, Op_count)]"]
  by (auto simp: count_inv_def contents_def insert_at_def abc_def)

text \<open>
  A \<open>u_list_foreach\<close> loop visits the elements in order, and a body that evicts each element
  it is given never uses a released item: it leaves an empty list with count 0.
\<close>
theorem u_list_drain:
  assumes "list_inv l" "distinct (map i_id (l_items l))" "None \<notin> set (contents l)"
  shows "u_list_foreach (\<lambda>l p. Inr l) l = Inr (map the (contents l), l)
    \<and> u_list_foreach evict l = Inr (map the (contents l), l\<lparr> l_items := [], l_count := 0 \<rparr>)"
proof (cases "l_items l")
  case Nil
  with assms(1) show ?thesis
    by (simp add: u_list_foreach_def u_list_first_def contents_def list_inv_def)
next
  case (Cons x rest)
  have v: "visited (map i_ptr (x # rest)) = map the (contents l)"
    using visited_all [OF assms(3)] Cons by (simp add: contents_def)
  then show ?thesis
    using foreach_keep [OF assms(2), of "[]" x rest] foreach_evict [OF assms(2) Cons] assms(1,3) Cons
    by (simp add: u_list_foreach_def u_list_first_def contents_def list_inv_def image_iff)
qed

theorem u_list_drain_witness:
  "u_list_foreach evict abc = Inr (''abc'', abc\<lparr> l_items := [], l_count := 0 \<rparr>)"
  using u_list_drain [of abc] by (simp add: list_inv_def contents_def abc_def)

text \<open>
  \<open>u_list_clear\<close> removes the items but does not reset the counter, so that the empty list
  reports its old count, and a deletion by position that \<open>u_list_count\<close> allows follows a null
  pointer.
\<close>
theorem u_list_clear_stale:
  assumes "list_inv l" "n < l_count l"
  shows "\<exists>l'. u_list_clear (Some l) = (rc_ok, Some l') \<and> contents l' = []
     \<and> u_list_count (Some l') = u_list_count (Some l) \<and> u_list_del_n (Some l') n pptr = Inl Null_deref"
  using assms by (simp add: u_list_clear_def contents_def u_list_count_def u_list_del_n_def not_le)

theorem u_list_clear_stale_witness:
  "\<exists>l'. u_list_clear (Some abc) = (rc_ok, Some l') \<and> u_list_del_n (Some l') 0 True = Inl Null_deref"
  using u_list_clear_stale [of abc 0 True] by (auto simp: list_inv_def abc_def)

end
