(* ===== verification/Strfun.thy ===== *)
theory Strfun
  imports Cstr
begin

text \<open>
  String utilities: tests on characters, trimming, duplicates, concatenation, the tokenizers
  \<open>strsep\<close> and \<open>strtok_r\<close> of \<open>srcs/missing\<close> and \<open>u_strtok\<close>, \<open>u_tokenize\<close>,
  \<open>u_path_snprintf\<close> and the restarting input and output of \<open>srcs/toolbox/misc.c\<close>. A C string is
  the list of its characters. The outcome of an allocation, the text that \<open>vsnprintf\<close> formats
  and the results of the system calls are arguments.
\<close>

section \<open>Characters and blanks\<close>

definition u_isblank :: "char \<Rightarrow> bool" where
  "u_isblank c = (c = CHR '' '' \<or> c = CHR 0x09)"

fun u_isblank_str :: "string \<Rightarrow> bool" where
  "u_isblank_str [] = True"
| "u_isblank_str (c # s) = (if \<not> u_isblank c then False else u_isblank_str s)"

definition u_isnl :: "char \<Rightarrow> bool" where
  "u_isnl c = (c = CHR 0x0A \<or> c = CHR 0x0D)"

definition isascii :: "char \<Rightarrow> bool" where
  "isascii c = ((of_char c :: nat) < 128)"

fun data_is_bin_loop :: "string \<Rightarrow> nat \<Rightarrow> bool outcome" where
  "data_is_bin_loop data 0 = Inr False"
| "data_is_bin_loop [] (Suc n) = Inl Out_of_bounds"
| "data_is_bin_loop (c # data) (Suc n) = (if \<not> isascii c then Inr True else data_is_bin_loop data n)"

definition u_data_is_bin :: "string \<Rightarrow> nat \<Rightarrow> bool outcome" where
  "u_data_is_bin data sz = data_is_bin_loop data sz"

text \<open>The index where the loop over the trailing blanks stops: it never passes the first character.\<close>

fun trail_pos :: "string \<Rightarrow> nat \<Rightarrow> nat" where
  "trail_pos s 0 = 0"
| "trail_pos s (Suc p) = (if u_isblank (s ! Suc p) then trail_pos s p else Suc p)"

definition u_trim :: "string option \<Rightarrow> string option" where
  "u_trim so =
     (case so of None \<Rightarrow> None
      | Some s \<Rightarrow>
        Some (dropWhile u_isblank (if s = [] then [] else take (Suc (trail_pos s (length s - 1))) s)))"

section \<open>Duplicates and concatenation\<close>

definition u_strndup :: "bool \<Rightarrow> string \<Rightarrow> nat \<Rightarrow> string option" where
  "u_strndup ok s len = (if len > length s then None else if \<not> ok then None else Some (take len s))"

definition u_strdup :: "bool \<Rightarrow> string \<Rightarrow> string option" where
  "u_strdup ok s = u_strndup ok s (length s)"

definition u_memdup :: "bool \<Rightarrow> 'a list \<Rightarrow> nat \<Rightarrow> 'a list option outcome" where
  "u_memdup ok src sz = (if \<not> ok then Inr None else obind (slice src 0 sz) (\<lambda>xs. Inr (Some xs)))"

text \<open>
  \<open>strlcat\<close> on a destination of \<open>siz\<close> bytes that holds the text \<open>dst\<close>, which may be longer than
  \<open>siz\<close>; the result is the text and the return value.
\<close>

definition strlcat :: "string \<Rightarrow> string \<Rightarrow> nat \<Rightarrow> string \<times> nat" where
  "strlcat dst src siz =
     (let dlen = min siz (length dst); n = siz - dlen in
      if n = 0 then (dst, dlen + length src)
      else (dst @ strlcpy_loop (n - 1) src, dlen + length src))"

definition u_strlcat :: "string \<Rightarrow> string \<Rightarrow> nat \<Rightarrow> bool \<times> string" where
  "u_strlcat dst src siz = (case strlcat dst src siz of (d, n) \<Rightarrow> (n < siz, d))"

text \<open>
  \<open>u_sstrncpy\<close> on a destination block of known size: the terminator is stored at index \<open>sz\<close>,
  then \<open>strncpy\<close> copies and pads with terminators.
\<close>

definition u_sstrncpy :: "string \<Rightarrow> string \<Rightarrow> nat \<Rightarrow> string outcome" where
  "u_sstrncpy dst src sz =
     obind (blit dst sz [NUL]) (\<lambda>d.
       blit d 0 (take sz src @ replicate (sz - length src) NUL))"

section \<open>Lines\<close>

text \<open>The longest path, with \<open>PATH_MAX\<close> and \<open>NAME_MAX\<close> as Linux has them, and the part of a text that a read of a line of at most \<open>n\<close> characters gives.\<close>

definition U_FILENAME_MAX :: nat where "U_FILENAME_MAX = 4096 + 255"

abbreviation (input) nl :: char where "nl \<equiv> CHR 0x0A"

fun take_line :: "nat \<Rightarrow> string \<Rightarrow> string" where
  "take_line 0 s = []"
| "take_line (Suc n) [] = []"
| "take_line (Suc n) (c # s) = (if c = CHR 0x0A then [c] else c # take_line n s)"

lemma take_line_ok: "nl \<notin> set l \<Longrightarrow> length l < n \<Longrightarrow> take_line n (l @ nl # s) = l @ [nl]"
proof (induction l arbitrary: n)
  case Nil
  then show ?case by (cases n) simp_all
next
  case (Cons c l)
  then show ?case by (cases n) auto
qed

section \<open>Tokens\<close>

fun sep_scan :: "string \<Rightarrow> string \<Rightarrow> string \<times> string option" where
  "sep_scan delim [] = ([], None)"
| "sep_scan delim (c # s) =
     (if c \<in> set delim then ([], Some s)
      else case sep_scan delim s of (tok, rest) \<Rightarrow> (c # tok, rest))"

definition strsep :: "string option \<Rightarrow> string \<Rightarrow> string option \<times> string option" where
  "strsep stringp delim =
     (case stringp of None \<Rightarrow> (None, None)
      | Some s \<Rightarrow> (case sep_scan delim s of (tok, rest) \<Rightarrow> (Some tok, rest)))"

text \<open>The first argument of \<open>strtok_r\<close> is the string, or \<open>None\<close> to go on from \<open>last\<close>.\<close>

definition strtok_r :: "string option \<Rightarrow> string \<Rightarrow> string option \<Rightarrow> string option \<times> string option" where
  "strtok_r so delim lst =
     (case (if so = None then lst else so) of
        None \<Rightarrow> (None, lst)
      | Some s \<Rightarrow>
        (case dropWhile (\<lambda>c. c \<in> set delim) s of
           [] \<Rightarrow> (None, None)
         | t \<Rightarrow> (case sep_scan delim t of (tok, rest) \<Rightarrow> (Some tok, rest))))"

lemma sep_scan_shorter: "sep_scan delim s = (tok, Some rest) \<Longrightarrow> length rest < length s"
proof (induction s arbitrary: tok)
  case (Cons c s)
  then show ?case
    by (cases "sep_scan delim s") (fastforce split: if_splits)
qed simp

definition left :: "string option \<Rightarrow> nat" where
  "left p = (case p of None \<Rightarrow> 0 | Some s \<Rightarrow> Suc (length s))"

lemma strsep_left: "strsep p delim = (Some tok, p') \<Longrightarrow> left p' < left p"
  by (cases p'; cases p) (auto simp: strsep_def left_def sep_scan_shorter split: prod.splits)

text \<open>
  The loop of \<open>u_strtok\<close>: the unread text, the pieces stored so far, the number of slots of the
  vector and the number of reallocations. Storing at a slot behind the vector is a fault. The
  second argument tells which reallocations succeed.
\<close>

function strtok_loop ::
  "string \<Rightarrow> (nat \<Rightarrow> bool) \<Rightarrow> string option \<Rightarrow> string list \<Rightarrow> nat \<Rightarrow> nat \<Rightarrow> string list option outcome"
where
  "strtok_loop delim mem p tv slots k =
     (if length tv \<ge> slots then Inl Out_of_bounds
      else case strsep p delim of
        (None, _) \<Rightarrow> Inr (Some tv)
      | (Some tok, p') \<Rightarrow>
          if tok = [] then strtok_loop delim mem p' tv slots k
          else if Suc (length tv) = slots - 1 then
            (if mem k then strtok_loop delim mem p' (tv @ [tok]) (slots + 10) (Suc k) else Inr None)
          else strtok_loop delim mem p' (tv @ [tok]) slots k)"
  by pat_completeness auto
termination
  by (relation "measure (\<lambda>(delim, mem, p, tv, slots, k). left p)") (auto dest: strsep_left [OF sym])

declare strtok_loop.simps [simp del]

text \<open>\<open>None\<close> is the failure code; the flags tell whether the result arguments are given.\<close>

definition u_strtok ::
  "bool \<Rightarrow> (nat \<Rightarrow> bool) \<Rightarrow> string option \<Rightarrow> string option \<Rightarrow> bool \<Rightarrow> bool \<Rightarrow> (string list \<times> nat) option outcome"
where
  "u_strtok dup mem so delim ptv pnelems =
     (case (so, delim) of
        (Some s, Some d) \<Rightarrow>
          if \<not> ptv \<or> \<not> pnelems then Inr None
          else
            (case u_strdup dup s of None \<Rightarrow> Inr None
             | Some sdup \<Rightarrow>
               if \<not> mem 0 then Inr None
               else obind (strtok_loop d mem (Some sdup) [] 10 1) (\<lambda>r.
                 Inr (map_option (\<lambda>tv. (tv, length tv)) r)))
      | _ \<Rightarrow> Inr None)"

text \<open>
  \<open>u_tokenize\<close> stores into a vector of \<open>tokv_sz\<close> cells; the result is the cells up to and without
  the stopper.
\<close>

function tokenize_loop :: "string \<Rightarrow> string option \<Rightarrow> string list \<Rightarrow> nat \<Rightarrow> string list outcome" where
  "tokenize_loop delim p tokv sz =
     (if length tokv \<ge> sz then Inl Out_of_bounds
      else case strsep p delim of
        (None, _) \<Rightarrow> Inr tokv
      | (Some tok, p') \<Rightarrow>
          if tok = [] then tokenize_loop delim p' tokv sz
          else if Suc (length tokv) \<ge> sz - 1 then
            (if Suc (length tokv) \<ge> sz then Inl Out_of_bounds else Inr (tokv @ [tok]))
          else tokenize_loop delim p' (tokv @ [tok]) sz)"
  by pat_completeness auto
termination
  by (relation "measure (\<lambda>(delim, p, tokv, sz). left p)") (auto dest: strsep_left [OF sym])

declare tokenize_loop.simps [simp del]

definition u_tokenize :: "string option \<Rightarrow> string option \<Rightarrow> nat option \<Rightarrow> (rc \<times> string list) outcome" where
  "u_tokenize wlist delim tokv =
     (case (wlist, delim, tokv) of
        (Some w, Some d, Some sz) \<Rightarrow>
          if sz = 0 then Inr (rc_fail, [])
          else obind (tokenize_loop d (Some w) [] sz) (\<lambda>tv. Inr (rc_ok, tv))
      | _ \<Rightarrow> Inr (rc_fail, []))"

section \<open>Paths\<close>

text \<open>
  The loop of \<open>u_path_snprintf\<close> at index \<open>i\<close>: of two separators in a row the right one is removed
  by moving the rest of the string, with its terminator, down by one.
\<close>

fun path_loop :: "char \<Rightarrow> string \<Rightarrow> nat \<Rightarrow> string" where
  "path_loop sep s 0 = s"
| "path_loop sep s (Suc j) =
     (if Suc j < length s \<and> s ! Suc j = sep \<and> s ! j = sep
      then path_loop sep (take (Suc j) s @ drop (Suc (Suc j)) s) j
      else path_loop sep s j)"

text \<open>
  \<open>txt\<close> is the formatted text, \<open>None\<close> an output error of \<open>vsnprintf\<close>; \<open>NUL\<close> as a separator is
  outside of the model. The string is what the buffer of size \<open>sz\<close> holds.
\<close>

definition u_path_snprintf :: "string \<Rightarrow> nat \<Rightarrow> char \<Rightarrow> string option \<Rightarrow> rc \<times> string" where
  "u_path_snprintf buf sz sep txt =
     (case txt of None \<Rightarrow> (rc_fail, buf)
      | Some t \<Rightarrow>
        if sz \<le> length t then (rc_fail, if sz = 0 then buf else take (sz - 1) t)
        else (rc_ok, path_loop sep t (length t)))"

section \<open>Numbers\<close>

text \<open>
  \<open>strtoumax\<close> in base 10: the value and whether it is out of range; the code does not ask where
  the number ends.
\<close>

definition UINTMAX_MAX :: int where "UINTMAX_MAX = 18446744073709551615"

definition strtoumax :: "string \<Rightarrow> int \<times> bool" where
  "strtoumax s =
     (let r = dropWhile isspace s;
          sgn = (case r of c # _ \<Rightarrow> if c = CHR ''-'' \<or> c = CHR ''+'' then 1 else 0 | [] \<Rightarrow> 0);
          v = digits_val (takeWhile isdigit (drop sgn r))
      in if UINTMAX_MAX < v then (UINTMAX_MAX, True)
         else if sgn = 1 \<and> hd r = CHR ''-'' then ((- v) mod (UINTMAX_MAX + 1), False)
         else (v, False))"

definition u_atoumax :: "errno_val \<Rightarrow> string option \<Rightarrow> int option" where
  "u_atoumax errno nptr =
     (case nptr of None \<Rightarrow> None
      | Some s \<Rightarrow>
        (case strtoumax s of (tmp, oor) \<Rightarrow>
          let e = (if oor then E_RANGE else errno) in
          if tmp = 0 \<and> e = E_INVAL then None
          else if tmp = UINTMAX_MAX \<and> e = E_RANGE then None
          else Some tmp))"

section \<open>Input and output\<close>

text \<open>
  The driver function of \<open>u_io\<close> gets the state \<open>'w\<close> of what is behind the descriptor, the block of
  the buffer, the offset \<open>p\<close> in it and the number of bytes that are left. It returns a number of
  bytes, or \<open>-1\<close> with \<open>EINTR\<close> or with another error, the block after the call and the new state.
\<close>

datatype io_res = Io_bytes nat | Io_EINTR | Io_error

type_synonym ('w, 'a) iof = "'w \<Rightarrow> 'a list \<Rightarrow> nat \<Rightarrow> nat \<Rightarrow> (io_res \<times> 'a list \<times> 'w) outcome"

text \<open>The loop returns what is left, the flag of the end of file, the block and the state.\<close>

fun io_loop ::
  "nat \<Rightarrow> ('w, 'a) iof \<Rightarrow> 'w \<Rightarrow> 'a list \<Rightarrow> nat \<Rightarrow> nat \<Rightarrow> (nat \<times> bool \<times> 'a list \<times> 'w) outcome" where
  "io_loop 0 f w buf p nleft = (if nleft > 0 then Inl Out_of_fuel else Inr (nleft, False, buf, w))"
| "io_loop (Suc fuel) f w buf p nleft =
     (if nleft > 0 then
        obind (f w buf p nleft) (\<lambda>(nret, buf1, w1).
          case nret of
            Io_EINTR \<Rightarrow> io_loop fuel f w1 buf1 p nleft
          | Io_error \<Rightarrow> Inr (nleft, False, buf1, w1)
          | Io_bytes n \<Rightarrow>
              if n = 0 then Inr (nleft, True, buf1, w1)
              else io_loop fuel f w1 buf1 (p + n) (size_sub nleft n))
      else Inr (nleft, False, buf, w))"

text \<open>The return code, the count of bytes, the flag of the end of file, the block and the state.\<close>

definition u_io ::
  "nat \<Rightarrow> ('w, 'a) iof \<Rightarrow> 'w \<Rightarrow> 'a list \<Rightarrow> nat \<Rightarrow> (rc \<times> nat \<times> bool \<times> 'a list \<times> 'w) outcome" where
  "u_io fuel f w buf l =
     obind (io_loop fuel f w buf 0 l) (\<lambda>(nleft, eof, buf1, w1).
       Inr (if nleft \<noteq> 0 then rc_fail else rc_ok, l - nleft, eof, buf1, w1))"

text \<open>
  The drivers \<open>read\<close> and \<open>write\<close>. The state holds how the next calls go (interrupted, failing, or
  transferring at most \<open>Suc k\<close> bytes; the calls behind the list transfer all they can) and the bytes
  that the file has still to give, or that it was given. A \<open>read\<close> returns 0 at the end of the file
  only.
\<close>

datatype io_call = Call_intr | Call_error | Call_some nat

definition read_some ::
  "nat \<Rightarrow> io_call list \<Rightarrow> 'a list \<Rightarrow> 'a list \<Rightarrow> nat \<Rightarrow> (io_res \<times> 'a list \<times> io_call list \<times> 'a list) outcome" where
  "read_some m cs src buf p =
     (let k = min m (length src) in
      obind (blit buf p (take k src)) (\<lambda>buf1. Inr (Io_bytes k, buf1, cs, drop k src)))"

fun read_call :: "(io_call list \<times> 'a list, 'a) iof" where
  "read_call ([], src) buf p n = read_some n [] src buf p"
| "read_call (Call_some k # cs, src) buf p n = read_some (min (Suc k) n) cs src buf p"
| "read_call (Call_intr # cs, src) buf p n = Inr (Io_EINTR, buf, cs, src)"
| "read_call (Call_error # cs, src) buf p n = Inr (Io_error, buf, cs, src)"

definition write_some ::
  "nat \<Rightarrow> io_call list \<Rightarrow> 'a list \<Rightarrow> 'a list \<Rightarrow> nat \<Rightarrow> (io_res \<times> 'a list \<times> io_call list \<times> 'a list) outcome" where
  "write_some m cs dst buf p = obind (slice buf p m) (\<lambda>xs. Inr (Io_bytes m, buf, cs, dst @ xs))"

fun write_call :: "(io_call list \<times> 'a list, 'a) iof" where
  "write_call ([], dst) buf p n = write_some n [] dst buf p"
| "write_call (Call_some k # cs, dst) buf p n = write_some (min (Suc k) n) cs dst buf p"
| "write_call (Call_intr # cs, dst) buf p n = Inr (Io_EINTR, buf, cs, dst)"
| "write_call (Call_error # cs, dst) buf p n = Inr (Io_error, buf, cs, dst)"

definition u_read :: "nat \<Rightarrow> io_call list \<Rightarrow> 'a list \<Rightarrow> 'a list \<Rightarrow> nat \<Rightarrow> (int \<times> 'a list \<times> 'a list) outcome" where
  "u_read fuel cs src buf sz =
     obind (u_io fuel read_call (cs, src) buf sz) (\<lambda>(rc, nw, eof, buf1, cs1, src1).
       Inr (if rc \<noteq> rc_ok then (if eof then int nw else - 1) else int nw, buf1, src1))"

definition u_write :: "nat \<Rightarrow> io_call list \<Rightarrow> 'a list \<Rightarrow> 'a list \<Rightarrow> nat \<Rightarrow> (int \<times> 'a list) outcome" where
  "u_write fuel cs dst buf sz =
     obind (u_io fuel write_call (cs, dst) buf sz) (\<lambda>(rc, nw, eof, buf1, cs1, dst1).
       Inr (if rc \<noteq> rc_ok then - 1 else int sz, dst1))"

text \<open>
  Whole files: what \<open>fopen\<close> and \<open>fstat\<close> say about the file, and its bytes. A call of \<open>fread\<close> or
  \<open>fwrite\<close> for one item of size \<open>0\<close> returns \<open>0\<close>.
\<close>

definition u_load_file :: "bool \<Rightarrow> string option \<Rightarrow> bool \<Rightarrow> bool \<Rightarrow> nat \<Rightarrow> string option" where
  "u_load_file path file stat_ok mem sz_max =
     (if \<not> path then None
      else case file of None \<Rightarrow> None
        | Some cs \<Rightarrow>
          if \<not> stat_ok then None
          else if sz_max > 0 \<and> length cs > sz_max then None
          else if \<not> mem then None
          else if length cs = 0 then None
          else Some cs)"

definition u_data_dump :: "'a list \<Rightarrow> nat \<Rightarrow> bool \<Rightarrow> (rc \<times> 'a list option) outcome" where
  "u_data_dump data sz opened =
     (if \<not> opened then Inr (rc_fail, None)
      else obind (slice data 0 sz) (\<lambda>cs. Inr (if sz = 0 then rc_fail else rc_ok, Some cs)))"

text \<open>
  Sleeping: each call of \<open>sleep\<close> gives the seconds that are left and whether it was interrupted. The number of
  seconds becomes an \<open>int\<close>.
\<close>

fun sleep_loop :: "(nat \<times> bool) list \<Rightarrow> int \<Rightarrow> int outcome" where
  "sleep_loop rs sleep_for =
     (if sleep_for \<le> 0 then Inr 0
      else
        (case rs of [] \<Rightarrow> Inl Out_of_fuel
         | (c, eintr) # rs1 \<Rightarrow> if c = 0 then Inr 0 else if \<not> eintr then Inr (- 1) else sleep_loop rs1 (int c)))"

definition u_sleep :: "(nat \<times> bool) list \<Rightarrow> 32 word \<Rightarrow> int outcome" where
  "u_sleep rs secs = sleep_loop rs (sint secs)"

text \<open>The process number in a file: \<open>printed\<close> is what \<open>fprintf\<close> returns, which is negative after an error.\<close>

definition u_savepid :: "bool \<Rightarrow> (string \<Rightarrow> int) \<Rightarrow> nat \<Rightarrow> string option \<Rightarrow> rc \<times> string option" where
  "u_savepid opened printed pid pf =
     (if pf = None \<or> \<not> opened then (rc_fail, None)
      else
        (let tx = decimal pid @ [nl]; n = printed tx
         in (if n = 0 then rc_fail else rc_ok, Some (take (nat n) tx))))"

text \<open>\<open>strtod\<close>, over any type of numbers, gives the value, the number of characters read, and whether it is out of range.\<close>

definition u_atof :: "(string \<Rightarrow> 'd \<times> nat \<times> bool) \<Rightarrow> ('d \<Rightarrow> bool) \<Rightarrow> string option \<Rightarrow> 'd option" where
  "u_atof strtod is_zero nptr =
     (case nptr of None \<Rightarrow> None
      | Some s \<Rightarrow>
        (case strtod s of (tmp, n, erange) \<Rightarrow> if is_zero tmp \<and> n = 0 then None else if erange then None else Some tmp))"

section \<open>What they compute\<close>

lemma trail_pos_le: "trail_pos s p \<le> p"
  by (induction s p rule: trail_pos.induct) (auto simp: le_SucI)

lemma take_trail:
  "p < length s \<Longrightarrow> take (Suc (trail_pos s p)) s
     = hd s # rev (dropWhile u_isblank (rev (tl (take (Suc p) s))))"
proof (induction s p rule: trail_pos.induct)
  case (1 s)
  then show ?case by (cases s) simp_all
next
  case (2 s p)
  have t: "take (Suc (Suc p)) s = take (Suc p) s @ [s ! Suc p]"
    using 2(2) by (simp add: take_Suc_conv_app_nth)
  have "take (Suc p) s \<noteq> []" using 2(2) by (cases s) simp_all
  then have tl: "tl (take (Suc (Suc p)) s) = tl (take (Suc p) s) @ [s ! Suc p]" by (simp add: t)
  show ?case
  proof (cases "u_isblank (s ! Suc p)")
    case True
    with 2 tl show ?thesis by simp
  next
    case False
    then have "rev (dropWhile u_isblank (rev (tl (take (Suc (Suc p)) s)))) = tl (take (Suc (Suc p)) s)"
      by (simp only: tl) simp
    moreover have "take (Suc (Suc p)) s \<noteq> []" "hd (take (Suc (Suc p)) s) = hd s"
      using 2(2) by (cases s; simp)+
    ultimately show ?thesis using False by (metis list.exhaust_sel trail_pos.simps(2))
  qed
qed

definition strip :: "string \<Rightarrow> string" where
  "strip s = rev (dropWhile u_isblank (rev (dropWhile u_isblank s)))"

lemma dropWhile_snoc:
  "dropWhile P (ys @ [x]) = (if \<forall>y \<in> set ys. P y then dropWhile P [x] else dropWhile P ys @ [x])"
  by (induction ys) auto

lemma strip_commute:
  "dropWhile P (rev (dropWhile P (rev xs))) = rev (dropWhile P (rev (dropWhile P xs)))"
proof (induction xs)
  case (Cons x xs)
  then show ?case by (simp add: dropWhile_snoc del: dropWhile.simps(2)) (auto simp: dropWhile_snoc dest: set_dropWhileD)
qed simp

lemma dropWhile_rev_Cons:
  "dropWhile P (x # rev (dropWhile P (rev xs))) = rev (dropWhile P (rev (dropWhile P (x # xs))))"
proof (cases "P x")
  case True
  then show ?thesis by (simp add: strip_commute)
next
  case False
  then have "dropWhile P (rev xs @ [x]) = dropWhile P (rev xs) @ [x]"
    by (simp add: dropWhile_snoc)
  with False show ?thesis by simp
qed

lemma u_trim_eq: "u_trim (Some s) = Some (strip s)"
proof (cases s)
  case (Cons c cs)
  then show ?thesis
    using take_trail [of "length s - 1" s] dropWhile_rev_Cons [of u_isblank c cs]
    by (simp add: u_trim_def strip_def)
qed (simp add: u_trim_def strip_def)

text \<open>Fields between delimiters, and the text without repeated separators.\<close>

fun fields :: "string \<Rightarrow> string \<Rightarrow> string list" where
  "fields delim [] = [[]]"
| "fields delim (c # s) =
     (if c \<in> set delim then [] # fields delim s
      else case fields delim s of [] \<Rightarrow> [[c]] | f # fs \<Rightarrow> (c # f) # fs)"

lemma fields_not_Nil [simp]: "fields delim s \<noteq> []"
  by (cases s) (auto split: list.splits)

lemma fields_scan:
  "fields delim s = (case sep_scan delim s of (tok, rest) \<Rightarrow>
     tok # (case rest of None \<Rightarrow> [] | Some r \<Rightarrow> fields delim r))"
  by (induction s) (auto split: prod.splits option.splits)

definition pieces :: "string \<Rightarrow> string option \<Rightarrow> string list" where
  "pieces delim p = (case p of None \<Rightarrow> [] | Some s \<Rightarrow> filter (\<lambda>f. f \<noteq> []) (fields delim s))"

lemma pieces_None [simp]: "pieces delim None = []"
  by (simp add: pieces_def)

lemma pieces_strsep:
  "strsep (Some s) delim = (Some tok, p') \<Longrightarrow>
   pieces delim (Some s) = (if tok = [] then [] else [tok]) @ pieces delim p'"
  by (auto simp: pieces_def strsep_def fields_scan [of delim s] split: prod.splits option.splits)

lemma strsep_Some: "\<exists>tok p'. strsep (Some s) delim = (Some tok, p')"
  by (simp add: strsep_def split: prod.splits)

lemma strtok_loop_safe:
  "length tv + 2 \<le> slots \<Longrightarrow>
   strtok_loop delim mem p tv slots k = Inr None
   \<or> strtok_loop delim mem p tv slots k = Inr (Some (tv @ pieces delim p))"
proof (induction delim mem p tv slots k rule: strtok_loop.induct)
  case (1 delim mem p tv slots k)
  show ?case
  proof (cases p)
    case None
    with 1(4) show ?thesis by (subst (1 2) strtok_loop.simps) (simp add: strsep_def)
  next
    case (Some s)
    obtain tok p' where s: "strsep (Some s) delim = (Some tok, p')" using strsep_Some by blast
    have lt: "\<not> slots \<le> length tv" using 1(4) by simp
    note unf = strtok_loop.simps [of delim mem "Some s" tv slots k] and ps = pieces_strsep [OF s]
    show ?thesis
    proof (cases "tok = []")
      case True
      have "strtok_loop delim mem (Some s) tv slots k = strtok_loop delim mem p' tv slots k"
        using True s lt by (subst unf) simp
      with True ps 1(1) [OF lt, of "Some tok" p' tok] s Some 1(4) show ?thesis by simp
    next
      case False
      show ?thesis
      proof (cases "Suc (length tv) = slots - 1")
        case last: True
        have "strtok_loop delim mem (Some s) tv slots k
           = (if mem k then strtok_loop delim mem p' (tv @ [tok]) (slots + 10) (Suc k) else Inr None)"
          using False s lt last by (subst unf) simp
        with False ps 1(2) [OF lt, of "Some tok" p' tok] s Some last show ?thesis by auto
      next
        case more: False
        have "strtok_loop delim mem (Some s) tv slots k = strtok_loop delim mem p' (tv @ [tok]) slots k"
          using False s lt more by (subst unf) simp
        with False ps 1(3) [OF lt, of "Some tok" p' tok] s Some more 1(4) show ?thesis by simp
      qed
    qed
  qed
qed

lemma strtok_loop_mem:
  "length tv + 2 \<le> slots \<Longrightarrow> \<forall>k. mem k \<Longrightarrow>
   strtok_loop delim mem p tv slots k \<noteq> Inr None"
proof (induction delim mem p tv slots k rule: strtok_loop.induct)
  case (1 delim mem p tv slots k)
  have lt: "\<not> slots \<le> length tv" using 1(4) by simp
  show ?case
  proof (cases "strsep p delim")
    case (Pair t p')
    show ?thesis
    proof (cases t)
      case None
      with Pair lt show ?thesis by (subst strtok_loop.simps) simp
    next
      case (Some tok)
      have mk: "mem k" using 1(5) by blast
      have "tok = [] \<Longrightarrow> strtok_loop delim mem p' tv slots k \<noteq> Inr None"
        and "tok \<noteq> [] \<Longrightarrow> Suc (length tv) = slots - 1 \<Longrightarrow>
          strtok_loop delim mem p' (tv @ [tok]) (slots + 10) (Suc k) \<noteq> Inr None"
        and "tok \<noteq> [] \<Longrightarrow> Suc (length tv) \<noteq> slots - 1 \<Longrightarrow>
          strtok_loop delim mem p' (tv @ [tok]) slots k \<noteq> Inr None"
        using 1(1) [OF lt Pair [symmetric] Some _ 1(4,5)] 1(2) [OF lt Pair [symmetric] Some _ _ mk _ 1(5)]
          1(3) [OF lt Pair [symmetric] Some _ _ _ 1(5)] 1(4)
        by simp_all
      then show ?thesis
        using lt Pair Some mk
        by (subst strtok_loop.simps) auto
    qed
  qed
qed

fun squeeze :: "char \<Rightarrow> string \<Rightarrow> string" where
  "squeeze sep (a # b # s) = (if a = sep \<and> b = sep then squeeze sep (b # s) else a # squeeze sep (b # s))"
| "squeeze sep s = s"

lemma squeeze_hd [simp]: "squeeze sep (a # s) \<noteq> []" "hd (squeeze sep (a # s)) = a"
  by (induction s arbitrary: a) auto

lemma path_loop_eq:
  "i < length s \<Longrightarrow> path_loop sep s i = squeeze sep (take (Suc i) s) @ drop (Suc i) s"
proof (induction i arbitrary: s)
  case 0
  then show ?case by (cases s) simp_all
next
  case (Suc j)
  have sq: "squeeze sep (xs @ [a, b])
     = (if a = sep \<and> b = sep then squeeze sep (xs @ [a]) else squeeze sep (xs @ [a]) @ [b])" for xs a b
    by (induction sep xs rule: squeeze.induct) auto
  have t: "take (Suc (Suc j)) s = take j s @ [s ! j, s ! Suc j]" "take (Suc j) s = take j s @ [s ! j]"
    using Suc.prems by (simp_all add: take_Suc_conv_app_nth)
  have d: "drop (Suc j) s = s ! Suc j # drop (Suc (Suc j)) s"
    using Suc.prems by (simp add: Cons_nth_drop_Suc)
  show ?case
  proof (cases "s ! Suc j = sep \<and> s ! j = sep")
    case True
    let ?s = "take (Suc j) s @ drop (Suc (Suc j)) s"
    have "path_loop sep s (Suc j) = path_loop sep ?s j" using True Suc.prems by simp
    also have "\<dots> = squeeze sep (take (Suc j) s) @ drop (Suc (Suc j)) s"
      using Suc.IH [of ?s] Suc.prems by simp
    finally show ?thesis using True by (simp only: sq t) simp
  next
    case False
    then have "path_loop sep s (Suc j) = path_loop sep s j" by auto
    also have "\<dots> = squeeze sep (take (Suc j) s) @ drop (Suc j) s" using Suc by simp
    finally show ?thesis using False by (simp only: sq t d) auto
  qed
qed

lemma path_loop_squeeze: "path_loop sep s (length s) = squeeze sep s"
proof (cases "length s")
  case (Suc n)
  then show ?thesis using path_loop_eq [of n s sep] by simp
qed simp

text \<open>
  What a series of calls does: the sizes of the transfers before the first error, the number of
  bytes that are moved when \<open>a\<close> of them are available, and whether the end of the file is found:
  there are less bytes than asked for, and a call after the last one finds none.
\<close>

fun transfers :: "io_call list \<Rightarrow> nat list" where
  "transfers [] = []"
| "transfers (Call_some k # cs) = Suc k # transfers cs"
| "transfers (Call_intr # cs) = transfers cs"
| "transfers (Call_error # cs) = []"

definition io_moved :: "io_call list \<Rightarrow> nat \<Rightarrow> nat \<Rightarrow> nat" where
  "io_moved cs l a =
     (if Call_error \<in> set cs then min (sum_list (transfers cs)) (min l a) else min l a)"

definition io_at_eof :: "io_call list \<Rightarrow> nat \<Rightarrow> nat \<Rightarrow> bool" where
  "io_at_eof cs l a =
     (a < l \<and> (Call_error \<in> set cs \<longrightarrow> transfers cs \<noteq> [] \<and> a \<le> sum_list (butlast (transfers cs))))"

lemma io_calls [simp]:
  "io_moved (Call_intr # cs) l a = io_moved cs l a" "io_at_eof (Call_intr # cs) l a = io_at_eof cs l a"
  "io_moved (Call_error # cs) l a = 0" "\<not> io_at_eof (Call_error # cs) l a"
  by (simp_all add: io_moved_def io_at_eof_def)

lemma io_moved_le: "io_moved cs l a \<le> l"
  by (auto simp: io_moved_def min_def)

lemma io_moved_some:
  assumes "m = min (Suc k) (min l a)"
  shows "io_moved (Call_some k # cs) l a = m + io_moved cs (l - m) (a - m)"
  using assms by (auto simp: io_moved_def min_def)

lemma io_at_eof_some:
  assumes "m = min (Suc k) (min l a)" "0 < m"
  shows "io_at_eof (Call_some k # cs) l a \<longleftrightarrow> io_at_eof cs (l - m) (a - m)"
  using assms by (auto simp: io_at_eof_def min_def split: if_splits)

lemma read_some_ok:
  assumes "p + m \<le> length buf"
  shows "read_some m cs src buf p = Inr (Io_bytes (min m (length src)),
    take p buf @ take m src @ drop (p + min m (length src)) buf, cs, drop m src)"
proof -
  have "take (min m (length src)) src = take m src" "drop (min m (length src)) src = drop m src"
    by (simp_all add: min_def)
  moreover have "p + min m (length src) \<le> length buf" using assms by simp
  ultimately show ?thesis by (simp add: read_some_def Let_def blit_def min.commute [of "length src"])
qed

lemma splice_step:
  assumes "p + m \<le> length buf" "m \<le> length src"
  shows "take (p + m) (take p buf @ take m src @ drop (p + m) buf) @ take n (drop m src)
      @ drop (p + m + n) (take p buf @ take m src @ drop (p + m) buf)
    = take p buf @ take (m + n) src @ drop (p + m + n) buf"
  using assms by (cases "length buf \<le> p") (simp_all add: take_add min_def ac_simps)

lemma read_loop_ok:
  "p + l \<le> length buf \<Longrightarrow> l < 2 ^ 64 \<Longrightarrow> length cs + 2 \<le> fuel \<Longrightarrow>
   \<exists>cs1. io_loop fuel read_call (cs, src) buf p l =
     Inr (l - io_moved cs l (length src), io_at_eof cs l (length src),
       take p buf @ take (io_moved cs l (length src)) src @ drop (p + io_moved cs l (length src)) buf,
       cs1, drop (io_moved cs l (length src)) src)"
proof (induction cs arbitrary: fuel src buf p l)
  case Nil
  obtain f where f: "fuel = Suc (Suc f)" using Nil.prems(3) by (cases fuel; cases "fuel - 1") auto
  show ?case
  proof (cases "l = 0 \<or> src = [] \<or> l \<le> length src")
    case True
    then show ?thesis using Nil.prems
      by (cases "l = 0") (auto simp: f io_moved_def io_at_eof_def read_some_ok min_def size_sub_le)
  next
    case False
    then show ?thesis using Nil.prems
      by (auto simp: f io_moved_def io_at_eof_def read_some_ok min_def size_sub_le)
  qed
next
  case (Cons c cs)
  obtain f where f: "fuel = Suc f" "length cs + 2 \<le> f" using Cons.prems(3) by (cases fuel) auto
  show ?case
  proof (cases "l = 0")
    case True
    then show ?thesis by (auto simp: f io_moved_def io_at_eof_def)
  next
    case False
    show ?thesis
    proof (cases c)
      case Call_intr
      then show ?thesis
        using Cons.IH [OF Cons.prems(1,2) f(2), of src] False by (simp add: f)
    next
      case Call_error
      then show ?thesis using False by (simp add: f)
    next
      case (Call_some k)
      define m where "m = min (Suc k) (min l (length src))"
      have m: "min (min (Suc k) l) (length src) = m" "m \<le> l" "m \<le> length src" by (simp_all add: m_def)
      have "take (min (Suc k) l) src = take m src" "drop (min (Suc k) l) src = drop m src"
        using m(1) by (metis take_take take_all_iff order_refl min.commute) (metis drop_drop min_def m(1) drop_all le_cases)
      then have call: "read_call (c # cs, src) buf p l
          = Inr (Io_bytes m, take p buf @ take m src @ drop (p + m) buf, cs, drop m src)"
        using Call_some Cons.prems(1) m by (simp add: read_some_ok)
      show ?thesis
      proof (cases "m = 0")
        case True
        then have "src = []" using False by (auto simp: m_def min_def split: if_splits)
        then show ?thesis using call True False Call_some by (simp add: f io_moved_def io_at_eof_def)
      next
        case pos: False
        let ?b = "take p buf @ take m src @ drop (p + m) buf"
        have "p + m + (l - m) \<le> length ?b" using Cons.prems(1) m by simp
        moreover have "l - m < 2 ^ 64" using Cons.prems(2) by simp
        ultimately obtain cs1 where "io_loop f read_call (cs, drop m src) ?b (p + m) (l - m) =
           Inr (l - m - io_moved cs (l - m) (length src - m), io_at_eof cs (l - m) (length src - m),
             take (p + m) ?b @ take (io_moved cs (l - m) (length src - m)) (drop m src)
               @ drop (p + m + io_moved cs (l - m) (length src - m)) ?b,
             cs1, drop (io_moved cs (l - m) (length src - m)) (drop m src))"
          using Cons.IH [of "p + m" "l - m" ?b f "drop m src"] f(2) unfolding length_drop by blast
        moreover have "size_sub l m = l - m" using m Cons.prems(2) by (simp add: size_sub_le)
        moreover have "p + m \<le> length buf" using Cons.prems(1) m by simp
        ultimately show ?thesis
          using call pos False io_moved_some [OF m_def, of cs] io_at_eof_some [OF m_def] m
          unfolding splice_step [OF \<open>p + m \<le> length buf\<close> m(3)] Call_some
          by (simp add: f ac_simps)
      qed
    qed
  qed
qed

lemma write_loop_ok:
  "p + l \<le> length buf \<Longrightarrow> l < 2 ^ 64 \<Longrightarrow> length cs + 1 \<le> fuel \<Longrightarrow>
   \<exists>cs1. io_loop fuel write_call (cs, dst) buf p l =
     Inr (l - io_moved cs l l, False, buf, cs1, dst @ take (io_moved cs l l) (drop p buf))"
proof (induction cs arbitrary: fuel dst p l)
  case Nil
  obtain f where f: "fuel = Suc f" using Nil.prems(3) by (cases fuel) auto
  show ?case using Nil.prems
    by (cases f) (auto simp: f io_moved_def write_some_def slice_def size_sub_le)
next
  case (Cons c cs)
  obtain f where f: "fuel = Suc f" "length cs + 1 \<le> f" using Cons.prems(3) by (cases fuel) auto
  show ?case
  proof (cases "l = 0")
    case True
    then show ?thesis by (auto simp: f io_moved_def)
  next
    case False
    show ?thesis
    proof (cases c)
      case Call_intr
      then show ?thesis using Cons.IH [OF Cons.prems(1,2) f(2), of dst] False by (simp add: f)
    next
      case Call_error
      then show ?thesis using False by (simp add: f)
    next
      case (Call_some k)
      define m where "m = min (Suc k) l"
      have m: "m \<le> l" "0 < m" "m = min (Suc k) (min l l)" using False by (simp_all add: m_def)
      have "io_moved (Call_some k # cs) l l = m + io_moved cs (l - m) (l - m)"
        by (rule io_moved_some [OF m(3)])
      moreover have "p + m + (l - m) \<le> length buf" using Cons.prems(1) m by simp
      note Cons.IH [OF this _ f(2), of "dst @ take m (drop p buf)"]
      moreover have "size_sub l m = l - m" using m Cons.prems(2) by (simp add: size_sub_le)
      ultimately show ?thesis
        using False Cons.prems m(1,2) Call_some
        by (simp add: f write_some_def slice_def m_def [symmetric] take_add add.commute)
    qed
  qed
qed

lemma tokenize_loop_ok:
  "length tokv + 2 \<le> sz \<Longrightarrow>
   tokenize_loop delim p tokv sz = Inr (tokv @ take (sz - 1 - length tokv) (pieces delim p))"
proof (induction delim p tokv sz rule: tokenize_loop.induct)
  case (1 delim p tokv sz)
  have lt: "\<not> sz \<le> length tokv" using 1(3) by simp
  show ?case
  proof (cases p)
    case None
    with lt show ?thesis by (subst tokenize_loop.simps) (simp add: strsep_def)
  next
    case (Some s)
    obtain tok p' where s: "strsep (Some s) delim = (Some tok, p')" using strsep_Some by blast
    note ps = pieces_strsep [OF s] and unf = tokenize_loop.simps [of delim "Some s" tokv sz]
    show ?thesis
    proof (cases "tok = []")
      case True
      with 1(1) [OF lt, of "Some tok" p' tok] 1(3) s Some lt ps show ?thesis by (subst Some, subst unf) simp
    next
      case False
      show ?thesis
      proof (cases "Suc (length tokv) \<ge> sz - 1")
        case last: True
        then have "sz = length tokv + 2" using 1(3) by simp
        with False s Some lt ps show ?thesis by (subst Some, subst unf) simp
      next
        case more: False
        then have e: "sz - Suc (length tokv) = Suc (sz - Suc (Suc (length tokv)))" by simp
        have "tokenize_loop delim (Some s) tokv sz = tokenize_loop delim p' (tokv @ [tok]) sz"
          using False s lt more by (subst unf) simp
        with 1(2) [OF lt, of "Some tok" p' tok] more False s Some ps show ?thesis
          by (simp add: e)
      qed
    qed
  qed
qed

lemma tokenize_loop_one:
  "tokenize_loop delim p [] 1 = (if pieces delim p = [] then Inr [] else Inl Out_of_bounds)"
proof (induction "left p" arbitrary: p rule: less_induct)
  case less
  show ?case
  proof (cases p)
    case None
    then show ?thesis by (subst tokenize_loop.simps) (simp add: strsep_def)
  next
    case (Some s)
    obtain tok p' where s: "strsep (Some s) delim = (Some tok, p')" using strsep_Some by blast
    have "tokenize_loop delim p' [] 1 = (if pieces delim p' = [] then Inr [] else Inl Out_of_bounds)"
      by (rule less) (use strsep_left [OF s] Some in simp)
    then show ?thesis
      using pieces_strsep [OF s] s Some by (subst tokenize_loop.simps) simp
  qed
qed

lemma strtok_loop_ok:
  "strtok_loop d (\<lambda>k. True) (Some s) [] 10 1 = Inr (Some (pieces d (Some s)))"
  using strtok_loop_safe [of "[]" 10 d "\<lambda>k. True" "Some s" 1] strtok_loop_mem [of "[]" 10 "\<lambda>k. True" d "Some s" 1] by auto

lemma u_strtok_ok:
  "u_strtok True (\<lambda>k. True) (Some s) (Some d) True True = Inr (Some (pieces d (Some s), length (pieces d (Some s))))"
  by (simp add: u_strtok_def u_strdup_def u_strndup_def strtok_loop_ok [unfolded One_nat_def])

section \<open>Properties\<close>

text \<open>
  \<open>u_strtok\<close> gives the fields between the delimiters that are not empty, in their order, with
  their number, when the allocations succeed. Whatever the allocations do, it returns this result or
  a failure and never stores behind the vector, however many pieces there are.
\<close>
theorem u_strtok_spec:
  "u_strtok True (\<lambda>k. True) (Some s) (Some d) True True
     = Inr (Some (filter (\<lambda>f. f \<noteq> []) (fields d s), length (filter (\<lambda>f. f \<noteq> []) (fields d s))))
   \<and> u_strtok dup mem (Some s) (Some d) True True
     \<in> {Inr None, Inr (Some (filter (\<lambda>f. f \<noteq> []) (fields d s), length (filter (\<lambda>f. f \<noteq> []) (fields d s))))}"
proof
  show "u_strtok True (\<lambda>k. True) (Some s) (Some d) True True
     = Inr (Some (filter (\<lambda>f. f \<noteq> []) (fields d s), length (filter (\<lambda>f. f \<noteq> []) (fields d s))))"
    unfolding u_strtok_ok by (simp add: pieces_def)
  show "u_strtok dup mem (Some s) (Some d) True True
     \<in> {Inr None, Inr (Some (filter (\<lambda>f. f \<noteq> []) (fields d s), length (filter (\<lambda>f. f \<noteq> []) (fields d s))))}"
    using strtok_loop_safe [of "[]" 10 d mem "Some s" 1]
    by (auto simp: u_strtok_def u_strdup_def u_strndup_def pieces_def)
qed

text \<open>
  \<open>u_tokenize\<close> stores the first \<open>tokv_sz - 1\<close> fields that are not empty, but with a vector of
  one cell and any field it stores the stopper behind the vector.
\<close>
theorem u_tokenize_spec:
  "u_tokenize (Some w) (Some d) (Some sz) =
     (if sz = 0 then Inr (rc_fail, [])
      else if sz = 1 \<and> pieces d (Some w) \<noteq> [] then Inl Out_of_bounds
      else Inr (rc_ok, take (sz - 1) (pieces d (Some w))))"
proof (cases "sz \<le> 1")
  case True
  then have "sz = 0 \<or> sz = 1" by linarith
  then show ?thesis using tokenize_loop_one [of d "Some w"] by (auto simp: u_tokenize_def)
next
  case False
  then show ?thesis using tokenize_loop_ok [of "[]" sz d "Some w"] by (simp add: u_tokenize_def)
qed

text \<open>
  \<open>u_path_snprintf\<close> succeeds just when the formatted text fits the buffer, and then leaves the
  text with every run of separators replaced by one.
\<close>
theorem u_path_snprintf_spec:
  "u_path_snprintf buf sz sep (Some t) =
     (if length t < sz then (rc_ok, squeeze sep t)
      else (rc_fail, if sz = 0 then buf else take (sz - 1) t))"
  by (simp add: u_path_snprintf_def path_loop_squeeze)

text \<open>
  C15: \<open>u_io\<close> with \<open>read\<close> and with \<open>write\<close>, for any series of interrupted, short and failing calls,
  a buffer of at least \<open>l\<close> bytes and fuel for one round a call and two more. Without an error a read
  moves all bytes up to the end of the file, or to \<open>l\<close>: they are at the start of the buffer in
  their order, the rest of the buffer is as before, the count is theirs, the code is that of
  success just when it is \<open>l\<close>, and \<open>*eof\<close> is set just when the file ended before. With an error
  the same holds of the bytes that were moved before it, and \<open>*eof\<close> is set just when the end of the
  file was found before the error. A write appends the first bytes of the buffer, all \<open>l\<close> or those
  before the error, to what was written, and never sets \<open>*eof\<close>.
\<close>
theorem u_io_spec:
  assumes "l \<le> length buf" "l < 2 ^ 64" "length cs + 2 \<le> fuel"
  shows "(let n = io_moved cs l (length src) in
      \<exists>cs1. u_io fuel read_call (cs, src) buf l =
        Inr (if n < l then rc_fail else rc_ok, n, io_at_eof cs l (length src),
          take n src @ drop n buf, cs1, drop n src))
    \<and> (let n = io_moved cs l l in
      \<exists>cs1. u_io fuel write_call (cs, dst) buf l =
        Inr (if n < l then rc_fail else rc_ok, n, False, buf, cs1, dst @ take n buf))"
  using read_loop_ok [of 0 l buf cs fuel src] write_loop_ok [of 0 l buf cs fuel dst] assms
    io_moved_le [of cs l "length src"] io_moved_le [of cs l l]
  by (auto simp: u_io_def Let_def)

theorem u_io_spec_witness:
  "(\<exists>cs1. u_io 10 read_call ([Call_some 2, Call_intr, Call_some 0], ''abcdefg'') ''........'' 8 =
      Inr (rc_fail, 7, True, ''abcdefg.'', cs1, ''''))
    \<and> (\<exists>cs1. u_io 10 write_call ([Call_some 2, Call_intr, Call_some 0], ''>'') ''........'' 8 =
      Inr (rc_ok, 8, False, ''........'', cs1, ''>........''))"
proof -
  let ?cs = "[Call_some 2, Call_intr, Call_some 0]"
  have len: "length ''abcdefg'' = 7" "length ''........'' = 8" by simp_all
  have n: "io_moved ?cs 8 7 = 7" "io_moved ?cs 8 8 = 8" "io_at_eof ?cs 8 7"
    by (simp_all add: io_moved_def io_at_eof_def)
  have "take 7 ''abcdefg'' @ drop 7 ''........'' = ''abcdefg.''" "drop 7 ''abcdefg'' = []"
    "take 8 ''........'' = ''........''" by simp_all
  then show ?thesis
    using u_io_spec [of 8 "''........''" ?cs 10 "''abcdefg''" "''>''", unfolded len Let_def n] n(3) by simp
qed

end
