(* ===== verification/Ustring.thy ===== *)
theory Ustring
  imports Strfun
begin

text \<open>
  The growing string of \<open>srcs/toolbox/str.c\<close>. The block behind \<open>data\<close> is a list of cells, a cell
  that was never written being \<open>None\<close>; the static empty string that \<open>data\<close> points to before the
  first allocation is \<open>None\<close> instead of a block. Sizes are numbers below \<open>2 ^ 64\<close> with the
  wrap-around of \<open>size_t\<close> in \<open>szadd\<close>. Each operation that allocates has the outcomes of its
  allocations as an argument; the text that \<open>vsnprintf\<close> formats is one too, with \<open>None\<close> for an
  output error.
\<close>

section \<open>A store that grows by appending\<close>

text \<open>
  What a client of the growing string and of the growing buffer relies on: an append within the
  limit succeeds and puts the new text behind the old one.
\<close>

locale growing =
  fixes good :: "'s \<Rightarrow> bool"
    and text_of :: "'s \<Rightarrow> string"
    and add :: "'s \<Rightarrow> string \<Rightarrow> (rc \<times> 's) outcome"
    and limit :: nat
  assumes add_ok: "good s \<Longrightarrow> x \<noteq> [] \<Longrightarrow> NUL \<notin> set x \<Longrightarrow> length (text_of s) + length x < limit \<Longrightarrow>
      \<exists>s'. add s x = Inr (rc_ok, s') \<and> good s' \<and> text_of s' = text_of s @ x"
begin

fun add_all :: "'s \<Rightarrow> string list \<Rightarrow> (rc \<times> 's) outcome" where
  "add_all s [] = Inr (rc_ok, s)"
| "add_all s (x # xs) =
     obind (add s x) (\<lambda>(rc, s'). if rc \<noteq> rc_ok then Inr (rc, s') else add_all s' xs)"

lemma add_all_ok:
  "good s \<Longrightarrow> [] \<notin> set xs \<Longrightarrow> NUL \<notin> set (concat xs) \<Longrightarrow>
   length (text_of s) + length (concat xs) < limit \<Longrightarrow>
   \<exists>s'. add_all s xs = Inr (rc_ok, s') \<and> good s' \<and> text_of s' = text_of s @ concat xs"
proof (induction xs arbitrary: s)
  case (Cons x xs)
  obtain s1 where s1: "add s x = Inr (rc_ok, s1)" "good s1" "text_of s1 = text_of s @ x"
    using add_ok [OF Cons.prems(1), of x] Cons.prems(2-4) by auto
  then show ?case using Cons.IH [OF s1(2)] Cons.prems by auto
qed simp

end

section \<open>The string object\<close>

definition szadd :: "nat \<Rightarrow> nat \<Rightarrow> nat" where
  "szadd a b = (a + b) mod 2 ^ 64"

record u_string =
  data :: "char option list option"
  data_sz :: nat
  data_len :: nat
  shift_cnt :: nat

definition u_string_clear :: "u_string option \<Rightarrow> (rc \<times> u_string option) outcome" where
  "u_string_clear so =
     (case so of None \<Rightarrow> Inr (rc_fail, None)
      | Some s \<Rightarrow>
        if data_sz s \<noteq> 0 then
          (case data s of None \<Rightarrow> Inl Out_of_bounds
           | Some d \<Rightarrow> obind (blit d 0 [Some NUL]) (\<lambda>d'.
               Inr (rc_ok, Some (s\<lparr> data := Some d', data_len := 0 \<rparr>))))
        else Inr (rc_ok, so))"

text \<open>
  \<open>u_realloc\<close> keeps the cells that fit the new block; \<open>size + 1\<close> wraps to \<open>0\<close> for the largest
  size. What comes behind is not initialised, but for the last cell.
\<close>

definition u_string_reserve ::
  "bool \<Rightarrow> u_string option \<Rightarrow> nat \<Rightarrow> (rc \<times> u_string option) outcome" where
  "u_string_reserve mem so n =
     (case so of None \<Rightarrow> Inr (rc_fail, None)
      | Some s \<Rightarrow>
        if n \<le> data_sz s then Inr (rc_ok, so)
        else if \<not> mem then Inr (rc_fail, so)
        else
          (let old = (case data s of None \<Rightarrow> [] | Some d \<Rightarrow> d);
               nbuf = take (szadd n 1) old @ replicate (szadd n 1 - length old) None
           in obind (blit nbuf n [Some NUL]) (\<lambda>d.
                Inr (rc_ok, Some (s\<lparr> data := Some d, data_sz := n \<rparr>)))))"

text \<open>
  The growth in \<open>u_string_append\<close>: \<open>BLOCK_SIZE << shift_cnt\<close> is computed as an \<open>int\<close>, so a shift
  by 25 or more overflows. The result is the new size and the new \<open>shift_cnt\<close>.
\<close>

definition BLOCK_SIZE :: nat where "BLOCK_SIZE = 64"

function grow :: "nat \<Rightarrow> nat \<Rightarrow> nat \<Rightarrow> (nat \<times> nat) outcome" where
  "grow nsz mn k =
     (if nsz \<le> mn then
        if k \<ge> 25 then Inl Int_overflow else grow (szadd nsz (BLOCK_SIZE * 2 ^ k)) mn (Suc k)
      else Inr (nsz, k))"
  by pat_completeness auto
termination by (relation "measure (\<lambda>(nsz, mn, k). 25 - k)") auto

declare grow.simps [simp del]

text \<open>
  \<open>strncpy\<close> from the memory at \<open>buf\<close>: it stops at a terminator, pads with terminators, and
  faults when it reads behind the end of the memory. The length is not corrected for the padding.
\<close>

definition strncpy_cells :: "string \<Rightarrow> nat \<Rightarrow> string outcome" where
  "strncpy_cells buf n =
     (let t = takeWhile (\<lambda>c. c \<noteq> NUL) (take n buf) in
      if length t < n \<and> length t = length buf then Inl Out_of_bounds
      else Inr (t @ replicate (n - length t) NUL))"

text \<open>The part of \<open>u_string_append\<close> that allocates a bigger block when there is not enough space.\<close>

definition make_room :: "bool \<Rightarrow> u_string \<Rightarrow> nat \<Rightarrow> (rc \<times> u_string option) outcome" where
  "make_room mem s n =
     (let mn = szadd (szadd (data_len s) n) 1 in
      if mn > data_sz s then
        obind (grow (data_sz s) mn (shift_cnt s)) (\<lambda>(nsz, k).
          u_string_reserve mem (Some (s\<lparr> shift_cnt := k \<rparr>)) nsz)
      else Inr (rc_ok, Some s))"

definition u_string_append ::
  "bool \<Rightarrow> u_string option \<Rightarrow> string option \<Rightarrow> nat \<Rightarrow> (rc \<times> u_string option) outcome" where
  "u_string_append mem so buf n =
     (case (so, buf) of
        (Some s, Some b) \<Rightarrow>
          if n = 0 then Inr (rc_ok, so)
          else
            obind (make_room mem s n) (\<lambda>(rc, s1).
              if rc \<noteq> rc_ok then Inr (rc_fail, s1)
              else
                (case s1 of None \<Rightarrow> Inl Null_deref
                 | Some s2 \<Rightarrow>
                   (case data s2 of None \<Rightarrow> Inl Out_of_bounds
                    | Some d \<Rightarrow>
                      obind (strncpy_cells b n) (\<lambda>cs.
                      obind (blit d (data_len s2) (map Some cs @ [Some NUL])) (\<lambda>d'.
                        Inr (rc_ok, Some (s2\<lparr> data := Some d', data_len := szadd (data_len s2) n \<rparr>)))))))
      | _ \<Rightarrow> Inr (rc_fail, so))"

definition u_string_set ::
  "bool \<Rightarrow> u_string option \<Rightarrow> string option \<Rightarrow> nat \<Rightarrow> (rc \<times> u_string option) outcome" where
  "u_string_set mem so buf n =
     (if so = None then Inr (rc_fail, None)
      else obind (u_string_clear so) (\<lambda>(_, s1). u_string_append mem s1 buf n))"

definition u_string_create :: "bool \<Rightarrow> bool \<Rightarrow> string option \<Rightarrow> nat \<Rightarrow> (rc \<times> u_string option) outcome" where
  "u_string_create mem mem2 buf n =
     (if \<not> mem then Inr (rc_fail, None)
      else
        (let s = \<lparr> data = None, data_sz = 0, data_len = 0, shift_cnt = 0 \<rparr> in
         if buf = None then Inr (rc_ok, Some s)
         else obind (u_string_append mem2 (Some s) buf n) (\<lambda>(rc, s1).
           if rc \<noteq> rc_ok then Inr (rc_fail, None) else Inr (rc_ok, s1))))"

definition u_string_len :: "u_string option \<Rightarrow> nat" where
  "u_string_len so = (case so of None \<Rightarrow> 0 | Some s \<Rightarrow> data_len s)"

text \<open>The memory that the pointer \<open>s->data\<close> gives to a reader, with the static empty string.\<close>

definition cells :: "u_string \<Rightarrow> char option list" where
  "cells s = (case data s of None \<Rightarrow> [Some NUL] | Some d \<Rightarrow> d)"

fun cstr_read :: "char option list \<Rightarrow> string outcome" where
  "cstr_read [] = Inl Out_of_bounds"
| "cstr_read (None # d) = Inl Uninitialised"
| "cstr_read (Some c # d) = (if c = NUL then Inr [] else obind (cstr_read d) (\<lambda>s. Inr (c # s)))"

definition u_string_c :: "u_string option \<Rightarrow> string option outcome" where
  "u_string_c so = (case so of None \<Rightarrow> Inr None | Some s \<Rightarrow> obind (cstr_read (cells s)) (\<lambda>t. Inr (Some t)))"

text \<open>The C string that the caller takes over; \<open>None\<close> when nothing was allocated.\<close>

definition u_string_detach_cstr :: "u_string option \<Rightarrow> string option outcome" where
  "u_string_detach_cstr so =
     (case so of None \<Rightarrow> Inr None
      | Some s \<Rightarrow> (case data s of None \<Rightarrow> Inr None | Some d \<Rightarrow> obind (cstr_read d) (\<lambda>t. Inr (Some t))))"

text \<open>The memory of the source string is read through its cells, which have to be initialised.\<close>

definition u_string_copy ::
  "bool \<Rightarrow> u_string option \<Rightarrow> u_string option \<Rightarrow> (rc \<times> u_string option) outcome" where
  "u_string_copy mem dst src =
     (if dst = None then Inr (rc_fail, None)
      else
        (case src of None \<Rightarrow> Inr (rc_fail, dst)
         | Some s \<Rightarrow>
           obind (u_string_clear dst) (\<lambda>(_, d1).
             if None \<in> set (take (data_len s) (cells s)) then Inl Uninitialised
             else u_string_append mem d1 (Some (map the (take (data_len s) (cells s)))) (data_len s))))"

definition u_string_set_length :: "u_string option \<Rightarrow> nat \<Rightarrow> (rc \<times> u_string option) outcome" where
  "u_string_set_length so n =
     (case so of None \<Rightarrow> Inr (rc_fail, None)
      | Some s \<Rightarrow>
        if n > data_len s then Inr (rc_fail, so)
        else if n < data_len s then
          (case data s of None \<Rightarrow> Inl Out_of_bounds
           | Some d \<Rightarrow> obind (blit d n [Some NUL]) (\<lambda>d'.
               Inr (rc_ok, Some (s\<lparr> data := Some d', data_len := n \<rparr>))))
        else Inr (rc_ok, so))"

text \<open>\<open>u_trim\<close> writes the shorter string over the old one, in place.\<close>

definition u_string_trim :: "u_string option \<Rightarrow> (rc \<times> u_string option) outcome" where
  "u_string_trim so =
     (case so of None \<Rightarrow> Inr (rc_fail, None)
      | Some s \<Rightarrow>
        if data_len s > 0 then
          (case data s of None \<Rightarrow> Inl Out_of_bounds
           | Some d \<Rightarrow>
             obind (cstr_read d) (\<lambda>t.
               let t' = the (u_trim (Some t)) in
               obind (blit d 0 (map Some t' @ [Some NUL])) (\<lambda>d'.
                 Inr (rc_ok, Some (s\<lparr> data := Some d', data_len := length t' \<rparr>)))))
        else Inr (rc_ok, so))"

text \<open>
  The formatted print into the rest of the buffer. \<open>vsnprintf\<close> stores at most \<open>avail - 1\<close>
  characters and a terminator, nothing when \<open>avail\<close> is \<open>0\<close>; its error value becomes the largest
  \<open>size_t\<close>. A round that grows the string is followed by another one.
\<close>

definition vsnprintf_cells :: "nat \<Rightarrow> string \<Rightarrow> char option list" where
  "vsnprintf_cells avail txt =
     (if avail = 0 then [] else map Some (take (avail - 1) txt) @ [Some NUL])"

definition print_into :: "u_string \<Rightarrow> char option list \<Rightarrow> char option list option outcome" where
  "print_into s out =
     (if out = [] then Inr (data s)
      else (case data s of None \<Rightarrow> Inl Out_of_bounds
            | Some d \<Rightarrow> obind (blit d (data_len s) out) (\<lambda>d'. Inr (Some d'))))"

fun vprintf_loop ::
  "nat \<Rightarrow> bool list \<Rightarrow> u_string \<Rightarrow> string option \<Rightarrow> (rc \<times> u_string option) outcome" where
  "vprintf_loop 0 mem s txt = Inl Out_of_fuel"
| "vprintf_loop (Suc fuel) mem s txt =
     (let avail = size_sub (data_sz s) (data_len s);
          sz = (case txt of None \<Rightarrow> 2 ^ 64 - 1 | Some t \<Rightarrow> length t);
          out = (case txt of None \<Rightarrow> [] | Some t \<Rightarrow> vsnprintf_cells avail t)
      in
      obind (print_into s out) (\<lambda>d1.
        if sz \<ge> avail then
          obind (u_string_reserve (case mem of [] \<Rightarrow> False | m # _ \<Rightarrow> m) (Some (s\<lparr> data := d1 \<rparr>))
                   (szadd (szadd (szadd (data_sz s) (data_len s)) (2 * sz mod 2 ^ 64)) 1))
            (\<lambda>(rc, s1).
              if rc \<noteq> rc_ok then Inr (rc_fail, s1)
              else (case s1 of None \<Rightarrow> Inl Null_deref
                | Some s2 \<Rightarrow>
                  (case data s2 of None \<Rightarrow> Inl Out_of_bounds
                   | Some d \<Rightarrow> obind (blit d (data_len s2) [Some NUL]) (\<lambda>d'.
                       vprintf_loop fuel (drop 1 mem) (s2\<lparr> data := Some d' \<rparr>) txt))))
        else Inr (rc_ok, Some (s\<lparr> data := d1, data_len := szadd (data_len s) sz \<rparr>))))"

declare vprintf_loop.simps(2) [simp del]

definition u_string_do_vprintf ::
  "nat \<Rightarrow> bool list \<Rightarrow> u_string option \<Rightarrow> bool \<Rightarrow> string option option \<Rightarrow> (rc \<times> u_string option) outcome" where
  "u_string_do_vprintf fuel mem so clear fmt =
     (case (so, fmt) of
        (Some s, Some txt) \<Rightarrow>
          obind (if clear then u_string_clear so else Inr (rc_ok, so)) (\<lambda>(_, s1).
            case s1 of None \<Rightarrow> Inl Null_deref | Some s2 \<Rightarrow> vprintf_loop fuel mem s2 txt)
      | _ \<Rightarrow> Inr (rc_fail, so))"

definition u_string_do_printf where
  "u_string_do_printf fuel mem so clear fmt = u_string_do_vprintf fuel mem so clear fmt"

definition u_string_sprintf where
  "u_string_sprintf fuel mem so fmt = u_string_do_vprintf fuel mem so True fmt"

definition u_string_aprintf where
  "u_string_aprintf fuel mem so fmt = u_string_do_vprintf fuel mem so False fmt"

text \<open>The blocks that \<open>u_string_free\<close> releases: whether the data is one of them, and the object.\<close>

definition u_string_free :: "u_string option \<Rightarrow> rc \<times> char option list option list" where
  "u_string_free so =
     (rc_ok, case so of None \<Rightarrow> [] | Some s \<Rightarrow> (if data_sz s \<noteq> 0 then [data s] else []) @ [None])"

section \<open>The text of a string object\<close>

definition text_cells :: "string \<Rightarrow> char option list" where
  "text_cells t = map Some t @ [Some NUL]"

definition str_ok :: "u_string \<Rightarrow> string \<Rightarrow> bool" where
  "str_ok s t \<longleftrightarrow> data_len s = length t \<and> NUL \<notin> set t \<and> data_sz s < 2 ^ 40
     \<and> BLOCK_SIZE * (2 ^ shift_cnt s - 1) \<le> data_sz s
     \<and> (case data s of None \<Rightarrow> data_sz s = 0 \<and> t = []
        | Some d \<Rightarrow> length d = Suc (data_sz s) \<and> length t \<le> data_sz s \<and> 0 < data_sz s
            \<and> take (Suc (length t)) d = text_cells t)"

text \<open>The same without the terminator: what an operation that writes at the end of the text needs.\<close>

definition str_pre :: "u_string \<Rightarrow> string \<Rightarrow> bool" where
  "str_pre s t \<longleftrightarrow> data_len s = length t \<and> NUL \<notin> set t \<and> data_sz s < 2 ^ 40
     \<and> BLOCK_SIZE * (2 ^ shift_cnt s - 1) \<le> data_sz s
     \<and> (case data s of None \<Rightarrow> data_sz s = 0 \<and> t = []
        | Some d \<Rightarrow> length d = Suc (data_sz s) \<and> length t \<le> data_sz s \<and> 0 < data_sz s
            \<and> take (length t) d = map Some t)"

text \<open>A block that was reserved before anything was written to it.\<close>

definition str_raw :: "u_string \<Rightarrow> bool" where
  "str_raw s \<longleftrightarrow> str_pre s [] \<and> (case data s of None \<Rightarrow> False | Some d \<Rightarrow> hd d = None)"

definition str_limit :: nat where "str_limit = 2 ^ 30"

lemma text_cells_simps [simp]: "length (text_cells t) = Suc (length t)" "text_cells [] = [Some NUL]"
  by (simp_all add: text_cells_def)

lemma szadd_small [simp]: "a + b < 2 ^ 64 \<Longrightarrow> szadd a b = a + b"
  by (simp add: szadd_def)

lemma cstr_read_text: "NUL \<notin> set t \<Longrightarrow> cstr_read (text_cells t @ d) = Inr t"
  by (induction t) (auto simp: text_cells_def)

lemma str_ok_cells:
  assumes "str_ok s t"
  shows "\<exists>d. cells s = text_cells t @ d"
proof (cases "data s")
  case None
  with assms show ?thesis by (simp add: str_ok_def cells_def)
next
  case (Some d)
  with assms have "take (Suc (length t)) d = text_cells t" by (simp add: str_ok_def)
  then have "d = text_cells t @ drop (Suc (length t)) d" by (metis append_take_drop_id)
  with Some show ?thesis by (auto simp: cells_def)
qed

lemma u_string_c_ok: "str_ok s t \<Longrightarrow> u_string_c (Some s) = Inr (Some t)"
  using str_ok_cells [of s t] by (auto simp: u_string_c_def cstr_read_text str_ok_def)

lemma str_ok_len: "str_ok s t \<Longrightarrow> u_string_len (Some s) = length t"
  by (simp add: str_ok_def u_string_len_def)

lemma str_ok_unique: "str_ok s t \<Longrightarrow> str_ok s t' \<Longrightarrow> t = t'"
  using u_string_c_ok [of s t] u_string_c_ok [of s t'] by simp

text \<open>Writing a text and its terminator at the end of a text that the block holds.\<close>

lemma blit_text:
  assumes "take (length t) d = map Some t" "length t + length x < length d"
  shows "\<exists>d'. blit d (length t) (text_cells x) = Inr d' \<and> length d' = length d
    \<and> take (Suc (length (t @ x))) d' = text_cells (t @ x)"
proof -
  obtain d' where d': "blit d (length t) (text_cells x) = Inr d'"
    using assms(2) by (auto intro: blitE [of "length t" "text_cells x" d])
  have "take (length t + length (text_cells x)) d' = take (length t) d @ text_cells x"
    by (rule blit_take [OF d'])
  with assms(1) d' blit_length [OF d'] show ?thesis by (simp add: text_cells_def)
qed

lemma str_ok_take: "str_ok s t \<Longrightarrow> data s = Some d \<Longrightarrow> k \<le> length t \<Longrightarrow> take k d = map Some (take k t)"
proof -
  assume ok: "str_ok s t" "data s = Some d" and k: "k \<le> length t"
  then have "take k (take (Suc (length t)) d) = take k (text_cells t)" by (simp add: str_ok_def)
  with k show ?thesis by (simp add: text_cells_def take_map min_def)
qed

lemma str_ok_pre: "str_ok s t \<Longrightarrow> str_pre s t"
  using str_ok_take [of s t _ "length t"] by (auto simp: str_ok_def str_pre_def split: option.splits)

section \<open>Growth\<close>

lemma grow_ok:
  "BLOCK_SIZE * (2 ^ k - 1) \<le> nsz \<Longrightarrow> nsz < 2 ^ 40 \<Longrightarrow> mn \<le> str_limit \<Longrightarrow>
   \<exists>nsz' k'. grow nsz mn k = Inr (nsz', k') \<and> mn < nsz' \<and> nsz \<le> nsz' \<and> nsz' < 2 ^ 40
      \<and> BLOCK_SIZE * (2 ^ k' - 1) \<le> nsz'"
proof (induction nsz mn k rule: grow.induct)
  case (1 nsz mn k)
  show ?case
  proof (cases "nsz \<le> mn")
    case False
    then show ?thesis using 1(2,3) by (subst grow.simps) simp
  next
    case True
    have p: "64 * 2 ^ k \<le> 2 ^ 30 + (64 :: nat)"
      using 1(2,4) True by (simp add: BLOCK_SIZE_def str_limit_def diff_mult_distrib2)
    have k: "k < 25"
    proof (rule ccontr)
      assume "\<not> k < 25"
      then have "(2 :: nat) ^ 25 \<le> 2 ^ k" by (intro power_increasing) simp_all
      with p show False by simp
    qed
    have sz: "szadd nsz (BLOCK_SIZE * 2 ^ k) = nsz + 64 * 2 ^ k"
      using p 1(3) by (simp add: BLOCK_SIZE_def)
    have "nsz + 64 * 2 ^ k < 2 ^ 40" using p True 1(4) by (simp add: str_limit_def)
    moreover have "BLOCK_SIZE * (2 ^ Suc k - 1) \<le> nsz + 64 * 2 ^ k"
      using 1(2) by (simp add: BLOCK_SIZE_def diff_mult_distrib2)
    ultimately obtain nsz' k' where
      "grow (nsz + 64 * 2 ^ k) mn (Suc k) = Inr (nsz', k')" "mn < nsz'" "nsz + 64 * 2 ^ k \<le> nsz'"
      "nsz' < 2 ^ 40" "BLOCK_SIZE * (2 ^ k' - 1) \<le> nsz'"
      using 1(1) [OF True] k 1(4) sz by auto
    with True k sz show ?thesis by (subst grow.simps) auto
  qed
qed

definition block_ok :: "u_string \<Rightarrow> string \<Rightarrow> bool" where
  "block_ok s t \<longleftrightarrow>
     (case data s of None \<Rightarrow> data_sz s = 0 \<and> t = []
      | Some d \<Rightarrow> length d = Suc (data_sz s) \<and> length t \<le> data_sz s \<and> take (length t) d = map Some t)"

lemma str_pre_block: "str_pre s t \<Longrightarrow> block_ok s t"
  by (auto simp: str_pre_def block_ok_def split: option.splits)

lemma str_ok_block: "str_ok s t \<Longrightarrow> block_ok s t"
  by (rule str_pre_block) (rule str_ok_pre)

lemma reserve_ok:
  assumes "block_ok s t" "n < 2 ^ 40" "data_sz s < n"
  shows "\<exists>d. u_string_reserve True (Some s) n = Inr (rc_ok, Some (s\<lparr> data := Some d, data_sz := n \<rparr>))
    \<and> length d = Suc n \<and> take (length t) d = map Some t \<and> length t \<le> data_sz s"
proof -
  define old where "old = (case data s of None \<Rightarrow> [] | Some d \<Rightarrow> d)"
  define nbuf where "nbuf = take (Suc n) old @ replicate (Suc n - length old) None"
  have len: "length old \<le> Suc n" and tk: "take (length t) old = map Some t" "length t \<le> length old"
    and tn: "length t \<le> data_sz s"
    using assms(1,3) by (auto simp: block_ok_def old_def split: option.splits)
  have bl: "length nbuf = Suc n" using len by (simp add: nbuf_def)
  then obtain d where d: "blit nbuf n [Some NUL] = Inr d"
    by (auto intro: blitE [of n "[Some NUL]" nbuf])
  have "take (n + length [Some NUL]) d = take n nbuf @ [Some NUL]" by (rule blit_take [OF d])
  then have "take (length t) (take (n + 1) d) = take (length t) (take n nbuf @ [Some NUL])" by simp
  then have "take (length t) d = take (length t) nbuf"
    using tn assms(3) bl by (simp add: min_def split: if_splits)
  then have "take (length t) d = map Some t" using tk len by (simp add: nbuf_def)
  moreover have "szadd n 1 = Suc n" using assms(2) by simp
  then have "u_string_reserve True (Some s) n = Inr (rc_ok, Some (s\<lparr> data := Some d, data_sz := n \<rparr>))"
    using d assms(3) by (simp add: u_string_reserve_def nbuf_def old_def Let_def del: replicate.simps)
  ultimately show ?thesis using blit_length [OF d] bl tn by auto
qed

lemma append_ok:
  assumes "str_pre s t" "x \<noteq> []" "NUL \<notin> set x" "length t + length x < str_limit"
  shows "\<exists>s'. u_string_append True (Some s) (Some x) (length x) = Inr (rc_ok, Some s') \<and> str_ok s' (t @ x)"
proof -
  let ?n = "length x"
  have tw: "takeWhile (\<lambda>c. c \<noteq> NUL) x = x" using assms(3) by (auto simp: takeWhile_eq_all_conv)
  have cp: "strncpy_cells x ?n = Inr x" by (simp add: strncpy_cells_def tw)
  have mn: "szadd (szadd (data_len s) ?n) 1 = Suc (length t + ?n)"
    using assms(1,4) by (simp add: str_pre_def str_limit_def)
  have room: "make_room True s ?n =
      (if Suc (length t + ?n) > data_sz s then
         obind (grow (data_sz s) (Suc (length t + ?n)) (shift_cnt s)) (\<lambda>(nsz, k).
           u_string_reserve True (Some (s\<lparr> shift_cnt := k \<rparr>)) nsz)
       else Inr (rc_ok, Some s))"
    by (simp only: make_room_def mn Let_def)
  have "\<exists>s2 d. make_room True s ?n = Inr (rc_ok, Some s2) \<and> data s2 = Some d
     \<and> length d = Suc (data_sz s2) \<and> take (length t) d = map Some t \<and> data_len s2 = length t
     \<and> length t + ?n < data_sz s2 \<and> data_sz s2 < 2 ^ 40
     \<and> BLOCK_SIZE * (2 ^ shift_cnt s2 - 1) \<le> data_sz s2"
  proof (cases "Suc (length t + ?n) > data_sz s")
    case False
    then obtain d where "data s = Some d"
      using assms(1) by (cases "data s") (auto simp: str_pre_def)
    with False assms(1) show ?thesis by (auto simp: str_pre_def room)
  next
    case True
    obtain nsz k where g: "grow (data_sz s) (Suc (length t + ?n)) (shift_cnt s) = Inr (nsz, k)"
      "Suc (length t + ?n) < nsz" "data_sz s \<le> nsz" "nsz < 2 ^ 40" "BLOCK_SIZE * (2 ^ k - 1) \<le> nsz"
      using grow_ok [of "shift_cnt s" "data_sz s" "Suc (length t + ?n)"] assms(1,4)
      by (auto simp: str_pre_def)
    have szlt: "data_sz s < nsz" using True g(2) by simp
    have b: "block_ok (s\<lparr> shift_cnt := k \<rparr>) t"
      using str_pre_block [OF assms(1)] by (cases "data s") (simp_all add: block_ok_def)
    obtain d where "u_string_reserve True (Some (s\<lparr> shift_cnt := k \<rparr>)) nsz
          = Inr (rc_ok, Some (s\<lparr> shift_cnt := k, data := Some d, data_sz := nsz \<rparr>))"
        "length d = Suc nsz" "take (length t) d = map Some t"
      using reserve_ok [OF b g(4)] szlt by auto
    then show ?thesis using True g assms(1) by (simp add: str_pre_def room)
  qed
  then obtain s2 d where s2: "make_room True s ?n = Inr (rc_ok, Some s2)"
     and d: "data s2 = Some d" "length d = Suc (data_sz s2)" "take (length t) d = map Some t"
     and n2: "data_len s2 = length t" "length t + ?n < data_sz s2" "data_sz s2 < 2 ^ 40"
     "BLOCK_SIZE * (2 ^ shift_cnt s2 - 1) \<le> data_sz s2"
    by blast
  obtain d' where d': "blit d (length t) (text_cells x) = Inr d'" "length d' = length d"
      "take (Suc (length (t @ x))) d' = text_cells (t @ x)"
    using blit_text [OF d(3), of x] d(2) n2(2) by auto
  have "u_string_append True (Some s) (Some x) ?n
     = Inr (rc_ok, Some (s2\<lparr> data := Some d', data_len := length t + ?n \<rparr>))"
    using assms(2) s2 d(1) n2 d'(1) cp by (simp add: u_string_append_def text_cells_def)
  moreover have "str_ok (s2\<lparr> data := Some d', data_len := length t + ?n \<rparr>) (t @ x)"
    using d' d n2 assms(1,3) by (simp add: str_ok_def str_pre_def)
  ultimately show ?thesis by blast
qed

section \<open>The other operations\<close>

lemma overwrite_ok:
  assumes "str_ok s t" "data s = Some d" "k + length x \<le> length t"
  shows "\<exists>d'. blit d k (text_cells x) = Inr d' \<and> length d' = length d
    \<and> take (Suc (k + length x)) d' = text_cells (take k t @ x)"
proof -
  have l: "length d = Suc (data_sz s)" "length t \<le> data_sz s"
    using assms(1,2) by (simp_all add: str_ok_def)
  then have b: "k + length (text_cells x) \<le> length d" using assms(3) by simp
  obtain d' where d': "blit d k (text_cells x) = Inr d'" by (rule blitE [OF b])
  have "take (k + length (text_cells x)) d' = take k d @ text_cells x" by (rule blit_take [OF d'])
  moreover have "take k d = map Some (take k t)" by (rule str_ok_take [OF assms(1,2)]) (use assms(3) in simp)
  ultimately show ?thesis using d' blit_length [OF d'] by (simp add: text_cells_def)
qed

lemma clear_ok:
  assumes "str_pre s t"
  shows "\<exists>s'. u_string_clear (Some s) = Inr (rc_ok, Some s') \<and> str_ok s' [] \<and> data_sz s' = data_sz s"
proof (cases "data s")
  case None
  with assms show ?thesis by (auto simp: u_string_clear_def str_ok_def str_pre_def)
next
  case (Some d)
  obtain d' where "blit d (length []) (text_cells []) = Inr d'" "length d' = length d"
      "take (Suc (length ([] @ []))) d' = text_cells ([] @ [])"
    using blit_text [of "[]" d "[]"] Some assms by (cases d) (auto simp: str_pre_def)
  with Some assms show ?thesis by (auto simp: u_string_clear_def str_ok_def str_pre_def)
qed

lemma set_length_ok:
  assumes "str_ok s t" "n \<le> length t"
  shows "\<exists>s'. u_string_set_length (Some s) n = Inr (rc_ok, Some s') \<and> str_ok s' (take n t)
    \<and> data_sz s' = data_sz s"
proof (cases "n = length t")
  case True
  with assms show ?thesis by (simp add: u_string_set_length_def str_ok_def)
next
  case False
  then have n: "n < length t" using assms(2) by simp
  then obtain d where d: "data s = Some d" using assms(1) by (cases "data s") (auto simp: str_ok_def)
  obtain d' where "blit d n (text_cells []) = Inr d'" "length d' = length d"
      "take (Suc (n + length [])) d' = text_cells (take n t @ [])"
    using overwrite_ok [OF assms(1) d, of n "[]"] n by auto
  with d n assms show ?thesis
    by (auto simp: u_string_set_length_def str_ok_def dest: in_set_takeD)
qed

lemma strip_length: "length (strip s) \<le> length s"
proof -
  have "length (strip s) \<le> length (dropWhile u_isblank s)"
    by (simp add: strip_def) (metis length_dropWhile_le length_rev)
  then show ?thesis using length_dropWhile_le [of u_isblank s] by linarith
qed

lemma strip_set: "set (strip s) \<subseteq> set s"
  by (auto simp: strip_def dest!: set_dropWhileD)

lemma trim_ok:
  assumes "str_ok s t"
  shows "\<exists>s'. u_string_trim (Some s) = Inr (rc_ok, Some s') \<and> str_ok s' (strip t) \<and> data_sz s' = data_sz s"
proof (cases "t = []")
  case True
  with assms show ?thesis by (simp add: u_string_trim_def str_ok_def strip_def)
next
  case False
  then obtain d where d: "data s = Some d" using assms by (cases "data s") (auto simp: str_ok_def)
  obtain e where "d = text_cells t @ e" using str_ok_cells [OF assms] d by (auto simp: cells_def)
  then have rd: "cstr_read d = Inr t" using assms by (simp add: cstr_read_text str_ok_def)
  obtain d' where "blit d 0 (text_cells (strip t)) = Inr d'" "length d' = length d"
      "take (Suc (0 + length (strip t))) d' = text_cells (take 0 t @ strip t)"
    using overwrite_ok [OF assms d, of 0 "strip t"] strip_length [of t] by auto
  with d False assms rd strip_length [of t] strip_set [of t] show ?thesis
    by (auto simp: u_string_trim_def u_trim_eq str_ok_def Let_def text_cells_def)
qed

lemma vprintf_fits:
  assumes "str_pre s t" "NUL \<notin> set x" "length t + length x < data_sz s"
  shows "\<exists>s'. vprintf_loop (Suc f) mem s (Some x) = Inr (rc_ok, Some s') \<and> str_ok s' (t @ x)
    \<and> data_sz s' = data_sz s"
proof -
  obtain d where d: "data s = Some d" using assms by (cases "data s") (auto simp: str_pre_def)
  have s: "data_len s = length t" "data_sz s < 2 ^ 40" "length d = Suc (data_sz s)"
    using assms(1) d by (simp_all add: str_pre_def)
  have av: "size_sub (data_sz s) (length t) = data_sz s - length t"
    using size_sub_le [of "length t" "data_sz s"] s assms(3) by simp
  have tk: "take (length t) d = map Some t" using assms(1) d by (simp add: str_pre_def)
  obtain d' where d': "blit d (length t) (text_cells x) = Inr d'" "length d' = length d"
      "take (Suc (length (t @ x))) d' = text_cells (t @ x)"
    using blit_text [OF tk, of x] s assms(3) by auto
  have "vsnprintf_cells (data_sz s - length t) x = text_cells x"
    using assms(3) by (simp add: vsnprintf_cells_def text_cells_def)
  moreover have "\<not> data_sz s - length t \<le> length x" using assms(3) by simp
  ultimately have "vprintf_loop (Suc f) mem s (Some x)
     = Inr (rc_ok, Some (s\<lparr> data := Some d', data_len := length t + length x \<rparr>))"
    using d s d'(1) assms(3)
    by (simp add: vprintf_loop.simps(2) av Let_def print_into_def) (simp add: text_cells_def)
  moreover have "str_ok (s\<lparr> data := Some d', data_len := length t + length x \<rparr>) (t @ x)"
    using assms d d' s by (simp add: str_ok_def str_pre_def)
  ultimately show ?thesis by fastforce
qed

text \<open>
  A round that does not fit grows the string to more than the text needs, and the next one fits.
\<close>

lemma vprintf_partial:
  assumes "str_pre s t" "length t \<le> data_sz s" "avail = data_sz s - length t" "avail \<le> length x"
  shows "\<exists>d1. print_into s (vsnprintf_cells avail x) = Inr d1 \<and> block_ok (s\<lparr> data := d1 \<rparr>) t"
proof (cases "avail = 0")
  case True
  then show ?thesis using str_pre_block [OF assms(1)] by (simp add: vsnprintf_cells_def print_into_def)
next
  case False
  then obtain d where d: "data s = Some d"
    using assms by (cases "data s") (auto simp: str_pre_def)
  have s: "data_len s = length t" "length d = Suc (data_sz s)"
    using assms(1) d by (simp_all add: str_pre_def)
  have lo: "length (vsnprintf_cells avail x) = avail"
    using False assms(4) by (simp add: vsnprintf_cells_def)
  have b: "length t + length (vsnprintf_cells avail x) \<le> length d"
    using lo s assms(2,3) by simp
  obtain d' where d': "blit d (length t) (vsnprintf_cells avail x) = Inr d'" by (rule blitE [OF b])
  have "take (length t) (take (length t + length (vsnprintf_cells avail x)) d')
      = take (length t) (take (length t) d @ vsnprintf_cells avail x)"
    using blit_take [OF d'] by simp
  then have "take (length t) d' = take (length t) d" using s assms(2) by simp
  then have "take (length t) d' = map Some t" using assms(1) d by (simp add: str_pre_def)
  with d' d s False assms(2) blit_length [OF d'] show ?thesis
    by (auto simp: block_ok_def print_into_def vsnprintf_cells_def)
qed

lemma vprintf_ok:
  assumes "str_pre s t" "NUL \<notin> set x" "length t + length x < str_limit"
  shows "\<exists>s'. vprintf_loop (Suc (Suc f)) (True # mem) s (Some x) = Inr (rc_ok, Some s') \<and> str_ok s' (t @ x)
    \<and> 0 < data_sz s'"
proof (cases "length t + length x < data_sz s")
  case True
  with vprintf_fits [OF assms(1,2) True] show ?thesis by fastforce
next
  case False
  have s: "data_len s = length t" "data_sz s < 2 ^ 40" "length t \<le> data_sz s"
    using assms(1) by (auto simp: str_pre_def split: option.splits)
  define avail where "avail = data_sz s - length t"
  have av: "size_sub (data_sz s) (length t) = avail" "avail \<le> length x"
    using size_sub_le [of "length t" "data_sz s"] s False by (simp_all add: avail_def)
  obtain d1 where d1: "print_into s (vsnprintf_cells avail x) = Inr d1"
    and b: "block_ok (s\<lparr> data := d1 \<rparr>) t"
    using vprintf_partial [OF assms(1) s(3) avail_def av(2)] by blast
  define n where "n = data_sz s + length t + 2 * length x + 1"
  have n: "szadd (szadd (szadd (data_sz s) (data_len s)) (2 * length x mod 2 ^ 64)) 1 = n" "n < 2 ^ 40"
    using s assms(3) False by (simp_all add: n_def str_limit_def)
  obtain d where d: "u_string_reserve True (Some (s\<lparr> data := d1 \<rparr>)) n
       = Inr (rc_ok, Some (s\<lparr> data := Some d, data_sz := n \<rparr>))"
      "length d = Suc n" "take (length t) d = map Some t"
    using reserve_ok [OF b n(2)] by (auto simp: n_def)
  obtain d' where d': "blit d (length t) (text_cells []) = Inr d'" "length d' = length d"
      "take (Suc (length (t @ []))) d' = text_cells (t @ [])"
    using blit_text [OF d(3), of "[]"] d(2) by (auto simp: n_def)
  let ?s = "s\<lparr> data_sz := n, data := Some d' \<rparr>"
  have "vprintf_loop (Suc (Suc f)) (True # mem) s (Some x) = vprintf_loop (Suc f) mem ?s (Some x)"
    using d1 d d'(1) s(1) av n(1) by (simp add: vprintf_loop.simps(2) [of "Suc f"] Let_def)
  moreover have "str_pre ?s t"
    using assms(1) d' d(2) n(2) by (intro str_ok_pre) (auto simp: str_ok_def str_pre_def n_def)
  moreover have "length t + length x < data_sz ?s" by (simp add: n_def)
  ultimately show ?thesis using vprintf_fits [of ?s t x f mem] assms(2) by fastforce
qed

section \<open>The string as a growing store\<close>

definition the_text :: "u_string \<Rightarrow> string" where
  "the_text s = (case cstr_read (cells s) of Inl _ \<Rightarrow> [] | Inr t \<Rightarrow> t)"

definition str_good :: "u_string \<Rightarrow> bool" where
  "str_good s = str_ok s (the_text s)"

definition deref :: "rc \<times> 'a option \<Rightarrow> (rc \<times> 'a) outcome" where
  "deref r = (case r of (rc, so) \<Rightarrow> (case so of None \<Rightarrow> Inl Null_deref | Some s \<Rightarrow> Inr (rc, s)))"

lemma deref_Some [simp]: "deref (rc, Some s) = Inr (rc, s)"
  by (simp add: deref_def)

definition str_add :: "u_string \<Rightarrow> string \<Rightarrow> (rc \<times> u_string) outcome" where
  "str_add s x = obind (u_string_append True (Some s) (Some x) (length x)) deref"

definition str_print :: "u_string \<Rightarrow> string \<Rightarrow> (rc \<times> u_string) outcome" where
  "str_print s x = obind (u_string_aprintf 2 [True] (Some s) (Some (Some x))) deref"

lemma str_ok_text: "str_ok s t \<Longrightarrow> the_text s = t"
  using str_ok_cells [of s t] by (auto simp: the_text_def cstr_read_text str_ok_def)

lemma str_good_ok: "str_ok s t \<Longrightarrow> str_good s"
  using str_ok_text by (simp add: str_good_def)

lemma aprintf_ok:
  assumes "str_pre s t" "NUL \<notin> set x" "length t + length x < str_limit"
  shows "\<exists>s'. u_string_aprintf 2 [True] (Some s) (Some (Some x)) = Inr (rc_ok, Some s') \<and> str_ok s' (t @ x)
    \<and> 0 < data_sz s'"
  using vprintf_ok [OF assms, of 0 "[]"]
  by (simp add: u_string_aprintf_def u_string_do_vprintf_def eval_nat_numeral del: vprintf_loop.simps)

interpretation sa: growing str_good the_text str_add str_limit
proof
  fix s x
  assume "str_good s" "x \<noteq> []" "NUL \<notin> set x" "length (the_text s) + length x < str_limit"
  then obtain s' where "u_string_append True (Some s) (Some x) (length x) = Inr (rc_ok, Some s')"
      "str_ok s' (the_text s @ x)"
    using append_ok [OF str_ok_pre, of s "the_text s" x] by (auto simp: str_good_def)
  then show "\<exists>s'. str_add s x = Inr (rc_ok, s') \<and> str_good s' \<and> the_text s' = the_text s @ x"
    using str_good_ok str_ok_text by (auto simp: str_add_def)
qed

interpretation sp: growing str_good the_text str_print str_limit
proof
  fix s x
  assume "str_good s" "NUL \<notin> set x" "length (the_text s) + length x < str_limit"
  then obtain s' where "u_string_aprintf 2 [True] (Some s) (Some (Some x)) = Inr (rc_ok, Some s')"
      "str_ok s' (the_text s @ x)"
    using aprintf_ok [OF str_ok_pre, of s "the_text s" x] by (auto simp: str_good_def)
  then show "\<exists>s'. str_print s x = Inr (rc_ok, s') \<and> str_good s' \<and> the_text s' = the_text s @ x"
    using str_good_ok str_ok_text by (auto simp: str_print_def)
qed

section \<open>The operations and what they do to the text\<close>

datatype str_op =
    S_append string | S_set string | S_clear | S_trim | S_set_length nat | S_sprintf string
  | S_aprintf string | S_reserve nat

fun op_text :: "str_op \<Rightarrow> string" where
  "op_text (S_append x) = x"
| "op_text (S_set x) = x"
| "op_text (S_sprintf x) = x"
| "op_text (S_aprintf x) = x"
| "op_text _ = []"

fun op_fits :: "str_op \<Rightarrow> bool" where
  "op_fits (S_reserve n) = (n < 2 ^ 40)"
| "op_fits _ = True"

fun str_step :: "u_string option \<Rightarrow> str_op \<Rightarrow> (rc \<times> u_string option) outcome" where
  "str_step so (S_append x) = u_string_append True so (Some x) (length x)"
| "str_step so (S_set x) = u_string_set True so (Some x) (length x)"
| "str_step so S_clear = u_string_clear so"
| "str_step so S_trim = u_string_trim so"
| "str_step so (S_set_length n) = u_string_set_length so n"
| "str_step so (S_sprintf x) = u_string_sprintf 2 [True] so (Some (Some x))"
| "str_step so (S_aprintf x) = u_string_aprintf 2 [True] so (Some (Some x))"
| "str_step so (S_reserve n) = u_string_reserve True so n"

text \<open>
  What a string object stands for: no block yet, a block that was reserved before any text was
  written to it, or a text.
\<close>

datatype str_abs = No_block | Raw_block | Text string

fun abs_text :: "str_abs \<Rightarrow> string" where
  "abs_text (Text t) = t"
| "abs_text _ = []"

text \<open>Writing a text, the empty one included, gives an object with a text.\<close>

fun abs_str :: "str_abs \<Rightarrow> str_op \<Rightarrow> rc \<times> str_abs" where
  "abs_str a (S_append x) = (0, if x = [] then a else Text (abs_text a @ x))"
| "abs_str a (S_set x) = (0, if x = [] \<and> a = No_block then a else Text x)"
| "abs_str a S_clear = (0, if a = No_block then a else Text [])"
| "abs_str a S_trim = (0, case a of Text t \<Rightarrow> Text (strip t) | _ \<Rightarrow> a)"
| "abs_str a (S_set_length n) =
     (if n \<le> length (abs_text a) then (0, case a of Text t \<Rightarrow> Text (take n t) | _ \<Rightarrow> a) else (- 1, a))"
| "abs_str a (S_sprintf x) = (0, Text x)"
| "abs_str a (S_aprintf x) = (0, Text (abs_text a @ x))"
| "abs_str a (S_reserve n) = (0, if a = No_block \<and> 0 < n then Raw_block else a)"

definition str_rep :: "u_string \<Rightarrow> str_abs \<Rightarrow> bool" where
  "str_rep s a \<longleftrightarrow>
     (case a of No_block \<Rightarrow> str_ok s [] \<and> data_sz s = 0
      | Raw_block \<Rightarrow> str_raw s
      | Text t \<Rightarrow> str_ok s t \<and> 0 < data_sz s)"

fun str_run :: "u_string option \<Rightarrow> str_op list \<Rightarrow> (rc list \<times> u_string option) outcome" where
  "str_run so [] = Inr ([], so)"
| "str_run so (p # ps) =
     obind (str_step so p) (\<lambda>(rc, so1). obind (str_run so1 ps) (\<lambda>(rcs, so2). Inr (rc # rcs, so2)))"

fun abs_str_run :: "str_abs \<Rightarrow> str_op list \<Rightarrow> rc list \<times> str_abs" where
  "abs_str_run a [] = ([], a)"
| "abs_str_run a (p # ps) =
     (case abs_str a p of (rc, b) \<Rightarrow> (case abs_str_run b ps of (rcs, c) \<Rightarrow> (rc # rcs, c)))"

lemma str_rep_pre: "str_rep s a \<Longrightarrow> str_pre s (abs_text a)"
  by (cases a) (auto simp: str_rep_def str_raw_def intro: str_ok_pre)

lemma str_rep_block: "str_rep s a \<Longrightarrow> a = No_block \<longleftrightarrow> data_sz s = 0"
  by (cases a) (auto simp: str_rep_def str_raw_def str_pre_def split: option.splits)

lemma str_ok_rep: "str_ok s t \<Longrightarrow> str_rep s (if data_sz s = 0 then No_block else Text t)"
  by (auto simp: str_rep_def str_ok_def split: option.splits)

lemma str_ok_rep_Text: "str_ok s t \<Longrightarrow> t \<noteq> [] \<or> 0 < data_sz s \<Longrightarrow> str_rep s (Text t)"
  by (auto simp: str_rep_def str_ok_def split: option.splits)

text \<open>A bigger block keeps the text with its terminator, or the first cell that was never written.\<close>

lemma reserve_rep:
  assumes "str_rep s a" "n < 2 ^ 40"
  shows "\<exists>s'. u_string_reserve True (Some s) n = Inr (rc_ok, Some s')
    \<and> str_rep s' (if a = No_block \<and> 0 < n then Raw_block else a)"
proof (cases "n \<le> data_sz s")
  case True
  with assms str_rep_block [OF assms(1)] show ?thesis by (auto simp: u_string_reserve_def)
next
  case False
  define old where "old = (case data s of None \<Rightarrow> [] | Some d \<Rightarrow> d)"
  define nbuf where "nbuf = old @ replicate (Suc n - length old) None"
  have pre: "str_pre s (abs_text a)" by (rule str_rep_pre [OF assms(1)])
  have len: "length old \<le> n" "length nbuf = Suc n"
    using pre False by (auto simp: str_pre_def old_def nbuf_def split: option.splits)
  obtain d where d: "blit nbuf n [Some NUL] = Inr d"
    using len by (auto intro: blitE [of n "[Some NUL]" nbuf])
  have ld: "length d = Suc n" using blit_length [OF d] len by simp
  have "take (n + length [Some NUL]) d = take n nbuf @ [Some NUL]" by (rule blit_take [OF d])
  then have "take n (take (n + 1) d) = take n (take n nbuf @ [Some NUL])" by simp
  then have "take n d = take n nbuf" using len by (simp add: min_def)
  then have tk: "take k d = take k nbuf" if "k \<le> n" for k using that by (metis take_take min_def)
  let ?s = "s\<lparr> data := Some d, data_sz := n \<rparr>"
  have "szadd n 1 = Suc n" "take (Suc n) old = old" using assms(2) len by simp_all
  then have run: "u_string_reserve True (Some s) n = Inr (rc_ok, Some ?s)"
    using d False by (simp add: u_string_reserve_def nbuf_def old_def Let_def del: replicate.simps)
  have bs: "BLOCK_SIZE * (2 ^ shift_cnt s - 1) \<le> n" using pre False by (simp add: str_pre_def)
  have "str_rep ?s (if a = No_block \<and> 0 < n then Raw_block else a)"
  proof (cases a)
    case No_block
    have "old = []" using assms(1) No_block by (auto simp: str_rep_def str_ok_def old_def split: option.splits)
    then have "hd d = None" using tk [of 1] False ld by (cases d) (auto simp: nbuf_def)
    with No_block False assms pre ld bs show ?thesis by (auto simp: str_rep_def str_raw_def str_pre_def)
  next
    case Raw_block
    obtain d0 where d0: "data s = Some d0" "hd d0 = None" "length d0 = Suc (data_sz s)"
      using assms(1) Raw_block by (auto simp: str_rep_def str_raw_def str_pre_def split: option.splits)
    then have "hd d = None" using tk [of 1] False ld by (cases d; cases d0) (auto simp: nbuf_def old_def)
    with Raw_block False assms pre ld bs show ?thesis by (auto simp: str_rep_def str_raw_def str_pre_def)
  next
    case (Text t)
    obtain d0 where d0: "data s = Some d0" "length d0 = Suc (data_sz s)" "length t \<le> data_sz s"
        "take (Suc (length t)) d0 = text_cells t"
      using assms(1) Text by (auto simp: str_rep_def str_ok_def split: option.splits)
    then have "take (Suc (length t)) d = text_cells t"
      using tk [of "Suc (length t)"] False by (simp add: nbuf_def old_def)
    with Text False assms pre ld bs d0 show ?thesis by (auto simp: str_rep_def str_ok_def str_pre_def)
  qed
  with run show ?thesis by blast
qed

lemma str_step_ok:
  assumes "str_rep s a" "NUL \<notin> set (op_text p)" "length (abs_text a) + length (op_text p) < str_limit"
    "op_fits p"
  shows "\<exists>s'. str_step (Some s) p = Inr (fst (abs_str a p), Some s') \<and> str_rep s' (snd (abs_str a p))"
proof -
  have pre: "str_pre s (abs_text a)" by (rule str_rep_pre [OF assms(1)])
  have blk: "a = No_block \<longleftrightarrow> data_sz s = 0" by (rule str_rep_block [OF assms(1)])
  have len: "data_len s = length (abs_text a)" using pre by (simp add: str_pre_def)
  obtain s1 where s1: "u_string_clear (Some s) = Inr (rc_ok, Some s1)" "str_ok s1 []" "data_sz s1 = data_sz s"
    using clear_ok [OF pre] by blast
  show ?thesis
  proof (cases p)
    case (S_append x)
    then show ?thesis
      using append_ok [OF pre, of x] assms str_ok_rep_Text
      by (cases "x = []") (fastforce simp: u_string_append_def)+
  next
    case (S_set x)
    show ?thesis
    proof (cases "x = []")
      case True
      then show ?thesis using S_set s1 blk str_ok_rep [OF s1(2)]
        by (auto simp: u_string_set_def u_string_append_def split: if_splits)
    next
      case False
      with append_ok [OF str_ok_pre [OF s1(2)], of x] S_set s1 assms(2,3) str_ok_rep_Text show ?thesis
        by (fastforce simp: u_string_set_def)
    qed
  next
    case S_clear
    then show ?thesis using s1 blk str_ok_rep [OF s1(2)] by (auto split: if_splits)
  next
    case S_trim
    show ?thesis
    proof (cases a)
      case (Text t)
      with assms(1) trim_ok [of s t] S_trim str_ok_rep_Text show ?thesis
        by (fastforce simp: str_rep_def [of s])
    qed (use S_trim assms(1) len in \<open>simp_all add: u_string_trim_def\<close>)
  next
    case (S_set_length n)
    show ?thesis
    proof (cases "n \<le> length (abs_text a)")
      case False
      with S_set_length len assms(1) show ?thesis by (simp add: u_string_set_length_def)
    next
      case True
      show ?thesis
      proof (cases a)
        case (Text t)
        with assms(1) set_length_ok [of s t n] S_set_length True str_ok_rep_Text show ?thesis
          by (fastforce simp: str_rep_def [of s])
      qed (use S_set_length True assms(1) len in \<open>simp_all add: u_string_set_length_def\<close>)
    qed
  next
    case (S_sprintf x)
    obtain s' where "vprintf_loop 2 [True] s1 (Some x) = Inr (rc_ok, Some s')" "str_ok s' x" "0 < data_sz s'"
      using vprintf_ok [OF str_ok_pre [OF s1(2)], of x 0 "[]"] assms(2,3) S_sprintf
      by (auto simp: eval_nat_numeral)
    with s1 S_sprintf str_ok_rep_Text [of s' x] show ?thesis
      by (simp add: u_string_sprintf_def u_string_do_vprintf_def)
  next
    case (S_aprintf x)
    then show ?thesis using aprintf_ok [OF pre, of x] assms(2,3) str_ok_rep_Text by fastforce
  next
    case (S_reserve n)
    then show ?thesis using reserve_rep [OF assms(1), of n] assms(4) by simp
  qed
qed

lemma abs_str_length: "length (abs_text (snd (abs_str a p))) \<le> length (abs_text a) + length (op_text p)"
  using strip_length by (cases p; cases a) auto

lemma str_run_ok:
  "str_rep s a \<Longrightarrow> NUL \<notin> set (concat (map op_text ps)) \<Longrightarrow> list_all op_fits ps \<Longrightarrow>
   length (abs_text a) + length (concat (map op_text ps)) < str_limit \<Longrightarrow>
   \<exists>s'. str_run (Some s) ps = Inr (fst (abs_str_run a ps), Some s') \<and> str_rep s' (snd (abs_str_run a ps))"
proof (induction ps arbitrary: s a)
  case (Cons p ps)
  obtain s1 where s1: "str_step (Some s) p = Inr (fst (abs_str a p), Some s1)"
      "str_rep s1 (snd (abs_str a p))"
    using str_step_ok [OF Cons.prems(1), of p] Cons.prems(2-4) by auto
  have "length (abs_text (snd (abs_str a p))) + length (concat (map op_text ps)) < str_limit"
    using abs_str_length [of a p] Cons.prems(4) by simp
  from Cons.IH [OF s1(2) _ _ this] s1 Cons.prems(2,3) show ?case
    by (auto split: prod.splits)
qed simp

lemma u_string_c_rep:
  "str_rep s a \<Longrightarrow>
   u_string_c (Some s) = (if a = Raw_block then Inl Uninitialised else Inr (Some (abs_text a)))"
proof (cases a)
  case Raw_block
  assume "str_rep s a"
  with Raw_block obtain d where "data s = Some (None # d)"
    by (auto simp: str_rep_def str_raw_def str_pre_def split: option.splits) (metis length_Suc_conv list.sel(1))
  with Raw_block show ?thesis by (simp add: u_string_c_def cells_def)
qed (auto simp: str_rep_def u_string_c_ok)

section \<open>Properties\<close>

text \<open>
  C13: when the allocations succeed, every sequence of appends, assignments, formatted prints,
  trims, truncations, clears and reservations of a string behaves as on an abstract string: the
  return codes, the text that \<open>u_string_c\<close> gives and the length. No access leaves the block and no
  size overflows as long as the texts, which hold no null character, are shorter than \<open>2 ^ 30\<close> in
  all and reservations smaller than \<open>2 ^ 40\<close>. An uninitialised cell is read in one case only: the C
  string of an object that was reserved before any text was written to it.
\<close>
theorem u_string_refines:
  assumes "str_rep s a" "NUL \<notin> set (concat (map op_text ps))" "list_all op_fits ps"
    "length (abs_text a) + length (concat (map op_text ps)) < str_limit"
  shows "\<exists>s'. str_run (Some s) ps = Inr (fst (abs_str_run a ps), Some s')
     \<and> str_rep s' (snd (abs_str_run a ps))
     \<and> u_string_c (Some s') = (if snd (abs_str_run a ps) = Raw_block then Inl Uninitialised
         else Inr (Some (abs_text (snd (abs_str_run a ps)))))
     \<and> u_string_len (Some s') = length (abs_text (snd (abs_str_run a ps)))"
proof -
  obtain s' where "str_run (Some s) ps = Inr (fst (abs_str_run a ps), Some s')"
      "str_rep s' (snd (abs_str_run a ps))"
    using str_run_ok [OF assms] by blast
  then show ?thesis
    using u_string_c_rep [of s'] str_rep_pre [of s'] by (simp add: u_string_len_def str_pre_def)
qed

lemma new_string_ok: "str_rep \<lparr> data = None, data_sz = 0, data_len = 0, shift_cnt = 0 \<rparr> No_block"
  by (simp add: str_rep_def str_ok_def)

theorem u_string_refines_witness:
  "\<exists>s'. str_run (Some \<lparr> data = None, data_sz = 0, data_len = 0, shift_cnt = 0 \<rparr>)
        [S_reserve 10, S_append '' a'', S_aprintf ''b '', S_trim, S_set_length 7] = Inr ([0, 0, 0, 0, - 1], Some s')
     \<and> u_string_c (Some s') = Inr (Some ''ab'')"
  using u_string_refines [OF new_string_ok,
      of "[S_reserve 10, S_append '' a'', S_aprintf ''b '', S_trim, S_set_length 7]"]
  by (auto simp: str_limit_def strip_def u_isblank_def)

text \<open>
  A string that has been enlarged by \<open>u_string_reserve\<close> before its first assignment has length
  0, but its C string starts with a cell that was never written.
\<close>
theorem u_string_reserve_uninitialised:
  assumes "u_string_create True True None 0 = Inr (rc, Some s)" "0 < n" "n < 2 ^ 40"
  shows "\<exists>s'. u_string_reserve True (Some s) n = Inr (rc_ok, Some s')
     \<and> u_string_len (Some s') = 0 \<and> u_string_c (Some s') = Inl Uninitialised"
proof -
  have s: "s = \<lparr> data = None, data_sz = 0, data_len = 0, shift_cnt = 0 \<rparr>"
    using assms(1) by (simp add: u_string_create_def)
  obtain m where m: "n = Suc m" using assms(2) by (cases n) auto
  show ?thesis
    using assms(3)
    by (simp add: s m u_string_reserve_def blit_def u_string_len_def u_string_c_def cells_def)
qed

theorem u_string_reserve_uninitialised_witness:
  "\<exists>s'. u_string_reserve True (Some \<lparr> data = None, data_sz = 0, data_len = 0, shift_cnt = 0 \<rparr>) 10
     = Inr (rc_ok, Some s') \<and> u_string_c (Some s') = Inl Uninitialised"
  using u_string_reserve_uninitialised [of 0 "\<lparr> data = None, data_sz = 0, data_len = 0, shift_cnt = 0 \<rparr>" 10]
  by (auto simp: u_string_create_def)

end
