(* ===== verification/Ubuf.thy ===== *)
theory Ubuf
  imports Ustring
begin

text \<open>
  The growing data buffer of \<open>srcs/toolbox/buf.c\<close>. As for the growing string, the block is a list of
  cells, \<open>None\<close> for a cell that was never written, and the object has no block before the first
  allocation. The outcome of the allocations is an argument. A formatted print may go round for
  ever, so it has fuel.
\<close>

section \<open>The buffer object\<close>

record u_buf =
  bdata :: "char option list option"
  bsize :: nat
  blen :: nat

definition u_buf_create :: "bool \<Rightarrow> bool \<Rightarrow> rc \<times> u_buf option" where
  "u_buf_create mem pubuf =
     (if \<not> pubuf then (rc_fail, None)
      else if \<not> mem then (rc_fail, None)
      else (rc_ok, Some \<lparr> bdata = None, bsize = 0, blen = 0 \<rparr>))"

definition u_buf_reserve :: "bool \<Rightarrow> u_buf option \<Rightarrow> nat \<Rightarrow> (rc \<times> u_buf option) outcome" where
  "u_buf_reserve mem bo n =
     (case bo of None \<Rightarrow> Inr (rc_fail, None)
      | Some b \<Rightarrow>
        if n \<le> bsize b then Inr (rc_ok, bo)
        else if \<not> mem then Inr (rc_fail, bo)
        else
          (let old = (case bdata b of None \<Rightarrow> [] | Some d \<Rightarrow> d);
               nbuf = take (szadd n 1) old @ replicate (szadd n 1 - length old) None
           in obind (blit nbuf n [Some NUL]) (\<lambda>d.
                Inr (rc_ok, Some (b\<lparr> bdata := Some d, bsize := n \<rparr>)))))"

definition store_at :: "u_buf \<Rightarrow> nat \<Rightarrow> char option list \<Rightarrow> u_buf outcome" where
  "store_at b off cs =
     (case bdata b of None \<Rightarrow> Inl Null_deref
      | Some d \<Rightarrow> obind (blit d off cs) (\<lambda>d'. Inr (b\<lparr> bdata := Some d' \<rparr>)))"

text \<open>\<open>memcpy\<close> of \<open>size\<close> bytes from the memory \<open>dat\<close>, with a terminator behind them.\<close>

definition u_buf_append :: "bool \<Rightarrow> u_buf option \<Rightarrow> string option \<Rightarrow> nat \<Rightarrow> (rc \<times> u_buf option) outcome" where
  "u_buf_append mem bo dat n =
     (case (bo, dat) of
        (Some b, Some x) \<Rightarrow>
          if n = 0 then Inr (rc_fail, bo)
          else
            obind
              (if size_sub (bsize b) (blen b) < n
               then u_buf_reserve mem bo (szadd (szadd (bsize b) (blen b)) (2 * n mod 2 ^ 64))
               else Inr (rc_ok, bo))
              (\<lambda>(rc, b1).
                if rc \<noteq> rc_ok then Inr (rc_fail, b1)
                else (case b1 of None \<Rightarrow> Inl Null_deref
                  | Some b2 \<Rightarrow>
                    obind (slice x 0 n) (\<lambda>cs.
                    obind (store_at b2 (blen b2) (map Some cs @ [Some NUL])) (\<lambda>b3.
                      Inr (rc_ok, Some (b3\<lparr> blen := szadd (blen b2) n \<rparr>))))))
      | _ \<Rightarrow> Inr (rc_fail, bo))"

definition u_buf_clear :: "u_buf option \<Rightarrow> rc \<times> u_buf option" where
  "u_buf_clear bo = (case bo of None \<Rightarrow> (rc_fail, None) | Some b \<Rightarrow> (rc_ok, Some (b\<lparr> blen := 0 \<rparr>)))"

definition u_buf_set :: "bool \<Rightarrow> u_buf option \<Rightarrow> string option \<Rightarrow> nat \<Rightarrow> (rc \<times> u_buf option) outcome" where
  "u_buf_set mem bo dat n =
     (if bo = None \<or> dat = None \<or> n = 0 then Inr (rc_fail, bo)
      else
        (case u_buf_clear bo of (rc, b1) \<Rightarrow>
          if rc \<noteq> rc_ok then Inr (rc_fail, b1)
          else obind (u_buf_append mem b1 dat n) (\<lambda>(rc, b2).
            if rc \<noteq> rc_ok then Inr (rc_fail, b2) else Inr (rc_ok, b2))))"

definition u_buf_shrink :: "u_buf option \<Rightarrow> nat \<Rightarrow> rc \<times> u_buf option" where
  "u_buf_shrink bo newlen =
     (case bo of None \<Rightarrow> (rc_fail, None)
      | Some b \<Rightarrow> if newlen > blen b then (rc_fail, bo) else (rc_ok, Some (b\<lparr> blen := newlen \<rparr>)))"

definition u_buf_detach :: "u_buf option \<Rightarrow> rc \<times> u_buf option" where
  "u_buf_detach bo =
     (case bo of None \<Rightarrow> (rc_fail, None)
      | Some b \<Rightarrow> (rc_ok, Some (b\<lparr> bdata := None, bsize := 0, blen := 0 \<rparr>)))"

definition u_buf_size :: "u_buf option \<Rightarrow> int" where
  "u_buf_size bo = (case bo of None \<Rightarrow> - 1 | Some b \<Rightarrow> int (bsize b))"

definition u_buf_len :: "u_buf option \<Rightarrow> int" where
  "u_buf_len bo = (case bo of None \<Rightarrow> - 1 | Some b \<Rightarrow> int (blen b))"

definition u_buf_ptr :: "u_buf option \<Rightarrow> char option list option" where
  "u_buf_ptr bo = (case bo of None \<Rightarrow> None | Some b \<Rightarrow> bdata b)"

text \<open>The blocks that are released: the data, if there is any, and the object (\<open>None\<close>).\<close>

definition u_buf_free :: "u_buf option \<Rightarrow> rc \<times> char option list option list" where
  "u_buf_free bo =
     (case bo of None \<Rightarrow> (rc_fail, [])
      | Some b \<Rightarrow> (rc_ok, (case bdata b of None \<Rightarrow> [] | Some d \<Rightarrow> [Some d]) @ [None]))"

text \<open>
  The file is given by what \<open>stat\<close> says (\<open>None\<close> is an error), whether it can be opened, and
  whether it can be read.
\<close>

definition u_buf_load ::
  "bool \<Rightarrow> u_buf option \<Rightarrow> bool \<Rightarrow> string option \<Rightarrow> bool \<Rightarrow> bool \<Rightarrow> (rc \<times> u_buf option) outcome" where
  "u_buf_load mem bo filename file opened readable =
     (case bo of None \<Rightarrow> Inr (rc_fail, None)
      | Some b \<Rightarrow>
        if \<not> filename then Inr (rc_fail, bo)
        else
          (case file of None \<Rightarrow> Inr (rc_fail, bo)
           | Some cs \<Rightarrow>
             (case u_buf_clear bo of (rc, b1) \<Rightarrow>
               if rc \<noteq> rc_ok then Inr (rc_fail, b1)
               else
                 obind (u_buf_reserve mem b1 (length cs)) (\<lambda>(rc, b2).
                   if rc \<noteq> rc_ok then Inr (rc_fail, b2)
                   else if \<not> opened then Inr (rc_fail, b2)
                   else if length cs = 0 \<or> \<not> readable then Inr (rc_fail, b2)
                   else (case b2 of None \<Rightarrow> Inl Null_deref
                     | Some b3 \<Rightarrow> obind (store_at b3 0 (map Some cs)) (\<lambda>b4.
                         Inr (rc_ok, Some (b4\<lparr> blen := length cs \<rparr>))))))))"

definition u_buf_save :: "u_buf option \<Rightarrow> bool \<Rightarrow> bool \<Rightarrow> (rc \<times> char option list option) outcome" where
  "u_buf_save bo filename opened =
     (if bo = None \<or> \<not> filename then Inr (rc_fail, None)
      else u_data_dump (case u_buf_ptr bo of None \<Rightarrow> [] | Some d \<Rightarrow> d) (nat (u_buf_len bo)) opened)"

text \<open>
  The formatted print: \<open>sz\<close> is unsigned, so that the test \<open>sz <= 0\<close> finds the empty text and not
  the error value of \<open>vsnprintf\<close>.
\<close>

fun printf_loop :: "nat \<Rightarrow> bool \<Rightarrow> u_buf \<Rightarrow> string option \<Rightarrow> (rc \<times> u_buf option) outcome" where
  "printf_loop 0 mem b txt = Inl Out_of_fuel"
| "printf_loop (Suc fuel) mem b txt =
     (let avail = size_sub (bsize b) (blen b);
          sz = (case txt of None \<Rightarrow> 2 ^ 64 - 1 | Some t \<Rightarrow> length t);
          out = (case txt of None \<Rightarrow> [] | Some t \<Rightarrow> vsnprintf_cells avail t)
      in
      obind (if out = [] then Inr b else store_at b (blen b) out) (\<lambda>b1.
        if sz = 0 then Inr (rc_fail, Some b1)
        else if sz \<ge> avail then
          obind (u_buf_reserve mem (Some b1) (szadd (blen b1) (min 128 (szadd sz 1)))) (\<lambda>(rc, b2).
            if rc \<noteq> rc_ok then Inr (rc_fail, b2)
            else (case b2 of None \<Rightarrow> Inl Null_deref
              | Some b3 \<Rightarrow> obind (store_at b3 (blen b3) [Some NUL]) (\<lambda>b4.
                  printf_loop fuel mem b4 txt)))
        else Inr (rc_ok, Some (b1\<lparr> blen := szadd (blen b1) sz \<rparr>))))"

declare printf_loop.simps(2) [simp del]

definition u_buf_printf ::
  "nat \<Rightarrow> bool \<Rightarrow> u_buf option \<Rightarrow> string option option \<Rightarrow> (rc \<times> u_buf option) outcome" where
  "u_buf_printf fuel mem bo fmt =
     (case (bo, fmt) of
        (Some b, Some txt) \<Rightarrow> printf_loop fuel mem b txt
      | _ \<Rightarrow> Inr (rc_fail, bo))"

section \<open>The bytes of a buffer\<close>

definition buf_ok :: "u_buf \<Rightarrow> string \<Rightarrow> bool" where
  "buf_ok b t \<longleftrightarrow> blen b = length t \<and> bsize b < 2 ^ 40
     \<and> (case bdata b of None \<Rightarrow> bsize b = 0 \<and> t = []
        | Some d \<Rightarrow> length d = Suc (bsize b) \<and> length t \<le> bsize b \<and> take (length t) d = map Some t)"

lemma buf_okD:
  assumes "buf_ok b t"
  shows "blen b = length t" "bsize b < 2 ^ 40" "length t \<le> bsize b"
  using assms by (auto simp: buf_ok_def split: option.splits)

lemma buf_avail: "buf_ok b t \<Longrightarrow> size_sub (bsize b) (blen b) = bsize b - length t"
  using buf_okD [of b t] size_sub_le [of "length t" "bsize b"] by simp

lemma buf_reserve_ok:
  assumes "buf_ok b t" "n < 2 ^ 40" "bsize b < n"
  shows "\<exists>d. u_buf_reserve True (Some b) n = Inr (rc_ok, Some (b\<lparr> bdata := Some d, bsize := n \<rparr>))
    \<and> buf_ok (b\<lparr> bdata := Some d, bsize := n \<rparr>) t"
proof -
  define s where "s = \<lparr> data = bdata b, data_sz = bsize b, data_len = blen b, shift_cnt = 0 \<rparr>"
  have "block_ok s t" using assms(1) by (cases "bdata b") (simp_all add: buf_ok_def block_ok_def s_def)
  moreover have "data_sz s < n" using assms(3) by (simp add: s_def)
  ultimately obtain d where d: "u_string_reserve True (Some s) n = Inr (rc_ok, Some (s\<lparr> data := Some d, data_sz := n \<rparr>))"
      "length d = Suc n" "take (length t) d = map Some t"
    using reserve_ok [of s t n] assms(2) by blast
  have "u_buf_reserve True (Some b) n = Inr (rc_ok, Some (b\<lparr> bdata := Some d, bsize := n \<rparr>))"
    using d(1) assms(3)
    by (auto simp: u_string_reserve_def u_buf_reserve_def s_def Let_def outcome_simps)
  moreover have "buf_ok (b\<lparr> bdata := Some d, bsize := n \<rparr>) t"
    using assms d(2,3) buf_okD [OF assms(1)] by (simp add: buf_ok_def)
  ultimately show ?thesis by blast
qed

text \<open>Writing \<open>x\<close> and possibly more behind the bytes of the buffer.\<close>

lemma store_ok:
  assumes "buf_ok b t" "bdata b = Some d" "length t + length x + length y \<le> Suc (bsize b)"
    "length t + length x \<le> bsize b"
  shows "\<exists>b'. store_at b (blen b) (map Some x @ y) = Inr b' \<and> bsize b' = bsize b \<and> blen b' = blen b
    \<and> bdata b' \<noteq> None \<and> buf_ok (b'\<lparr> blen := length t + length x \<rparr>) (t @ x) \<and> buf_ok b' t"
proof -
  have d: "length d = Suc (bsize b)" "take (length t) d = map Some t" "blen b = length t"
    using assms(1,2) by (simp_all add: buf_ok_def)
  have bd: "length t + length (map Some x @ y) \<le> length d" using d(1) assms(3) by simp
  obtain d' where d': "blit d (length t) (map Some x @ y) = Inr d'" by (rule blitE [OF bd])
  have "take (length t + length x) (take (length t + length (map Some x @ y)) d')
      = take (length t + length x) (take (length t) d @ map Some x @ y)"
    using blit_take [OF d'] by simp
  then have t1: "take (length t + length x) d' = map Some (t @ x)" using d bd by simp
  then have "take (length t) (take (length t + length x) d') = take (length t) (map Some (t @ x))" by simp
  then have t2: "take (length t) d' = map Some t" by simp
  have "store_at b (blen b) (map Some x @ y) = Inr (b\<lparr> bdata := Some d' \<rparr>)"
    using d' d assms(2) by (simp add: store_at_def)
  then show ?thesis using t1 t2 d assms(1,4) blit_length [OF d'] by (simp add: buf_ok_def)
qed

definition buf_limit :: nat where "buf_limit = 2 ^ 30"

lemma buf_append_ok:
  assumes "buf_ok b t" "x \<noteq> []" "length t + length x < buf_limit"
  shows "\<exists>b'. u_buf_append True (Some b) (Some x) (length x) = Inr (rc_ok, Some b') \<and> buf_ok b' (t @ x)
    \<and> bsize b' = (if bsize b - length t < length x then bsize b + length t + 2 * length x else bsize b)"
proof -
  note b = buf_okD [OF assms(1)] and av = buf_avail [OF assms(1)]
  define n where "n = bsize b + length t + 2 * length x"
  have "\<exists>b2. (if bsize b - length t < length x
       then u_buf_reserve True (Some b) (szadd (szadd (bsize b) (blen b)) (2 * length x mod 2 ^ 64))
       else Inr (rc_ok, Some b)) = Inr (rc_ok, Some b2) \<and> buf_ok b2 t \<and> length t + length x \<le> bsize b2
       \<and> bdata b2 \<noteq> None \<and> bsize b2 = (if bsize b - length t < length x then n else bsize b)"
  proof (cases "bsize b - length t < length x")
    case False
    then have "bdata b \<noteq> None" "length t + length x \<le> bsize b"
      using assms(1,2) b by (cases "bdata b"; simp add: buf_ok_def)+
    with False assms(1) show ?thesis by auto
  next
    case True
    have n: "szadd (szadd (bsize b) (blen b)) (2 * length x mod 2 ^ 64) = n" "n < 2 ^ 40"
      using b True assms(3) by (simp_all add: n_def buf_limit_def)
    have "bsize b < n" using assms(2) by (simp add: n_def)
    from buf_reserve_ok [OF assms(1) n(2) this] True n(1) show ?thesis by (auto simp: n_def)
  qed
  then obtain b2 d where b2: "(if bsize b - length t < length x
       then u_buf_reserve True (Some b) (szadd (szadd (bsize b) (blen b)) (2 * length x mod 2 ^ 64))
       else Inr (rc_ok, Some b)) = Inr (rc_ok, Some b2)" "buf_ok b2 t" "length t + length x \<le> bsize b2"
       "bdata b2 = Some d" "bsize b2 = (if bsize b - length t < length x then n else bsize b)"
    by blast
  obtain b' where b': "store_at b2 (blen b2) (map Some x @ [Some NUL]) = Inr b'" "blen b' = blen b2"
      "bsize b' = bsize b2" "buf_ok (b'\<lparr> blen := length t + length x \<rparr>) (t @ x)"
    using store_ok [OF b2(2,4), of x "[Some NUL]"] b2(3) by auto
  have "u_buf_append True (Some b) (Some x) (length x)
     = Inr (rc_ok, Some (b'\<lparr> blen := length t + length x \<rparr>))"
    using assms(2,3) b2(1) b'(1,2) buf_okD(1) [OF b2(2)]
    by (simp add: u_buf_append_def av slice_def buf_limit_def)
  with b'(3,4) b2(5) show ?thesis by (simp add: n_def)
qed

lemma printf_fits:
  assumes "buf_ok b t" "x \<noteq> []" "length x < bsize b - length t"
  shows "\<exists>b'. printf_loop (Suc f) mem b (Some x) = Inr (rc_ok, Some b') \<and> buf_ok b' (t @ x)
    \<and> bsize b' = bsize b"
proof -
  note b = buf_okD [OF assms(1)] and av = buf_avail [OF assms(1)]
  obtain d where d: "bdata b = Some d" using assms b by (cases "bdata b") (auto simp: buf_ok_def)
  obtain b' where b': "store_at b (blen b) (map Some x @ [Some NUL]) = Inr b'" "blen b' = blen b"
      "bsize b' = bsize b" "buf_ok (b'\<lparr> blen := length t + length x \<rparr>) (t @ x)"
    using store_ok [OF assms(1) d, of x "[Some NUL]"] assms(3) b(3) by (auto simp: less_diff_conv)
  have "vsnprintf_cells (bsize b - length t) x = map Some x @ [Some NUL]"
    using assms(3) by (simp add: vsnprintf_cells_def)
  moreover have "\<not> bsize b - length t \<le> length x" using assms(3) by simp
  ultimately have "printf_loop (Suc f) mem b (Some x)
     = Inr (rc_ok, Some (b'\<lparr> blen := length t + length x \<rparr>))"
    using b' b av assms(2,3) by (simp add: printf_loop.simps(2) Let_def)
  with b'(3,4) show ?thesis by simp
qed

lemma printf_partial:
  assumes "buf_ok b t" "bsize b - length t \<le> length x" "x \<noteq> []"
  shows "\<exists>b1. (if vsnprintf_cells (bsize b - length t) x = [] then Inr b
       else store_at b (blen b) (vsnprintf_cells (bsize b - length t) x)) = Inr b1
     \<and> bsize b1 = bsize b \<and> buf_ok b1 t"
proof (cases "bsize b - length t = 0")
  case True
  then show ?thesis using assms(1) by (simp add: vsnprintf_cells_def)
next
  case False
  note b = buf_okD [OF assms(1)]
  define x1 where "x1 = take (bsize b - length t - 1) x"
  have x1: "length x1 = bsize b - length t - 1" using assms(2) by (simp add: x1_def)
  obtain d where d: "bdata b = Some d" using False assms(1) by (cases "bdata b") (auto simp: buf_ok_def)
  obtain b' where "store_at b (blen b) (map Some x1 @ [Some NUL]) = Inr b'" "bsize b' = bsize b" "buf_ok b' t"
    using store_ok [OF assms(1) d, of x1 "[Some NUL]"] False x1 b by auto
  with False show ?thesis by (simp add: vsnprintf_cells_def x1_def)
qed

text \<open>A round that does not fit, as a step from one state of the buffer to the next.\<close>

lemma printf_round:
  assumes "buf_ok b t" "bsize b - length t \<le> length x" "x \<noteq> []" "length t + length x < buf_limit"
  shows "\<exists>b'. printf_loop (Suc f) True b (Some x) = printf_loop f True b' (Some x) \<and> buf_ok b' t
     \<and> bsize b' = max (bsize b) (length t + min 128 (Suc (length x)))"
proof -
  note b = buf_okD [OF assms(1)] and av = buf_avail [OF assms(1)]
  obtain b1 where b1: "(if vsnprintf_cells (bsize b - length t) x = [] then Inr b
       else store_at b (blen b) (vsnprintf_cells (bsize b - length t) x)) = Inr b1"
     "bsize b1 = bsize b" "buf_ok b1 t"
    using printf_partial [OF assms(1-3)] by blast
  define n where "n = length t + min 128 (Suc (length x))"
  have n: "szadd (blen b1) (min 128 (szadd (length x) 1)) = n" "n < 2 ^ 40"
    using buf_okD [OF b1(3)] assms(4) by (simp_all add: n_def buf_limit_def)
  have "\<exists>b2. u_buf_reserve True (Some b1) n = Inr (rc_ok, Some b2) \<and> buf_ok b2 t
     \<and> bsize b2 = max (bsize b) n \<and> bdata b2 \<noteq> None"
  proof (cases "n \<le> bsize b")
    case True
    then have "bdata b1 \<noteq> None" using b1(2,3) by (cases "bdata b1") (auto simp: buf_ok_def n_def)
    with True b1(2,3) show ?thesis by (auto simp: u_buf_reserve_def)
  next
    case False
    then have "bsize b1 < n" using b1(2) by simp
    from buf_reserve_ok [OF b1(3) n(2) this] False show ?thesis by auto
  qed
  then obtain b2 d where b2: "u_buf_reserve True (Some b1) n = Inr (rc_ok, Some b2)" "buf_ok b2 t"
     "bsize b2 = max (bsize b) n" "bdata b2 = Some d"
    by blast
  have "length t \<le> bsize b2" using buf_okD(3) [OF b2(2)] .
  then obtain b3 where b3: "store_at b2 (blen b2) [Some NUL] = Inr b3" "bsize b3 = bsize b2" "buf_ok b3 t"
    using store_ok [OF b2(2,4), of "[]" "[Some NUL]"] by auto
  have "printf_loop (Suc f) True b (Some x) = printf_loop f True b3 (Some x)"
    using b1(1) n(1) b2(1) b3(1) b(1) av assms(2,3) by (simp add: printf_loop.simps(2) Let_def)
  with b3 b2(3) show ?thesis by (auto simp: n_def)
qed

lemma printf_ok:
  assumes "buf_ok b t" "x \<noteq> []" "length x < bsize b - length t \<or> length x < 128"
    "length t + length x < buf_limit"
  shows "\<exists>b'. u_buf_printf (Suc (Suc f)) True (Some b) (Some (Some x)) = Inr (rc_ok, Some b')
    \<and> buf_ok b' (t @ x)
    \<and> bsize b' = (if length x < bsize b - length t then bsize b else length t + length x + 1)"
proof (cases "length x < bsize b - length t")
  case True
  from printf_fits [OF assms(1,2) this, of "Suc f"] True show ?thesis by (auto simp: u_buf_printf_def)
next
  case False
  then obtain b' where b': "printf_loop (Suc (Suc f)) True b (Some x) = printf_loop (Suc f) True b' (Some x)"
     "buf_ok b' t" "bsize b' = max (bsize b) (length t + min 128 (Suc (length x)))"
    using printf_round [OF assms(1) _ assms(2,4), of "Suc f"] by auto
  then have sz: "bsize b' = length t + length x + 1" using assms(3) False by auto
  then have "length x < bsize b' - length t" by simp
  from printf_fits [OF b'(2) assms(2) this, of f True] b'(1) sz False show ?thesis
    by (auto simp: u_buf_printf_def)
qed

lemma printf_hangs:
  "buf_ok b t \<Longrightarrow> 128 \<le> length x \<Longrightarrow> bsize b - length t \<le> length x \<Longrightarrow>
   length t + length x < buf_limit \<Longrightarrow> printf_loop f True b (Some x) = Inl Out_of_fuel"
proof (induction f arbitrary: b)
  case (Suc f)
  have "x \<noteq> []" using Suc.prems(2) by auto
  then obtain b' where b': "printf_loop (Suc f) True b (Some x) = printf_loop f True b' (Some x)"
     "buf_ok b' t" "bsize b' = max (bsize b) (length t + min 128 (Suc (length x)))"
    using printf_round [OF Suc.prems(1,3) _ Suc.prems(4), of f] by auto
  have "bsize b' - length t \<le> length x" using b'(3) Suc.prems(2,3) by (auto simp: max_def)
  with Suc.IH [OF b'(2)] Suc.prems b'(1) show ?case by simp
qed simp

section \<open>The buffer as a growing store\<close>

definition buf_bytes :: "u_buf \<Rightarrow> string" where
  "buf_bytes b = map the (take (blen b) (case bdata b of None \<Rightarrow> [] | Some d \<Rightarrow> d))"

lemma buf_ok_bytes: "buf_ok b t \<Longrightarrow> buf_bytes b = t"
  by (cases "bdata b") (simp_all add: buf_ok_def buf_bytes_def comp_def)

definition buf_good :: "u_buf \<Rightarrow> bool" where
  "buf_good b = buf_ok b (buf_bytes b)"

lemma buf_good_ok: "buf_ok b t \<Longrightarrow> buf_good b"
  using buf_ok_bytes by (simp add: buf_good_def)

definition buf_add :: "u_buf \<Rightarrow> string \<Rightarrow> (rc \<times> u_buf) outcome" where
  "buf_add b x = obind (u_buf_append True (Some b) (Some x) (length x)) deref"

interpretation ba: growing buf_good buf_bytes buf_add buf_limit
proof
  fix b :: u_buf and x :: string
  assume "buf_good b" "x \<noteq> []" "length (buf_bytes b) + length x < buf_limit"
  then obtain b' where "u_buf_append True (Some b) (Some x) (length x) = Inr (rc_ok, Some b')"
      "buf_ok b' (buf_bytes b @ x)"
    using buf_append_ok [of b "buf_bytes b" x] by (auto simp: buf_good_def)
  then show "\<exists>b'. buf_add b x = Inr (rc_ok, b') \<and> buf_good b' \<and> buf_bytes b' = buf_bytes b @ x"
    using buf_good_ok buf_ok_bytes by (auto simp: buf_add_def)
qed

section \<open>The operations and what they do to the bytes\<close>

datatype buf_op =
    B_append string | B_set string | B_clear | B_shrink nat | B_printf string | B_detach | B_reserve nat

fun buf_arg :: "buf_op \<Rightarrow> string" where
  "buf_arg (B_append x) = x"
| "buf_arg (B_set x) = x"
| "buf_arg (B_printf x) = x"
| "buf_arg _ = []"

fun buf_fits :: "buf_op \<Rightarrow> bool" where
  "buf_fits (B_reserve n) = (n < 2 ^ 40)"
| "buf_fits _ = True"

fun buf_step :: "nat \<Rightarrow> u_buf option \<Rightarrow> buf_op \<Rightarrow> (rc \<times> u_buf option) outcome" where
  "buf_step fuel bo (B_append x) = u_buf_append True bo (Some x) (length x)"
| "buf_step fuel bo (B_set x) = u_buf_set True bo (Some x) (length x)"
| "buf_step fuel bo B_clear = Inr (u_buf_clear bo)"
| "buf_step fuel bo (B_shrink n) = Inr (u_buf_shrink bo n)"
| "buf_step fuel bo (B_printf x) = u_buf_printf fuel True bo (Some (Some x))"
| "buf_step fuel bo B_detach = Inr (u_buf_detach bo)"
| "buf_step fuel bo (B_reserve n) = u_buf_reserve True bo n"

text \<open>
  A buffer stands for its bytes and the size of its block, which decides whether a long text can be
  printed: \<open>None\<close> is a print that does not return.
\<close>

fun abs_buf :: "string \<times> nat \<Rightarrow> buf_op \<Rightarrow> (rc \<times> string \<times> nat) option" where
  "abs_buf (t, n) (B_append x) =
     Some (if x = [] then (- 1, t, n)
       else (0, t @ x, if n - length t < length x then n + length t + 2 * length x else n))"
| "abs_buf (t, n) (B_set x) =
     Some (if x = [] then (- 1, t, n) else (0, x, if n < length x then n + 2 * length x else n))"
| "abs_buf (t, n) B_clear = Some (0, [], n)"
| "abs_buf (t, n) (B_shrink k) = Some (if k \<le> length t then (0, take k t, n) else (- 1, t, n))"
| "abs_buf (t, n) (B_printf x) =
     (if x = [] then Some (- 1, t, n)
      else if length x < n - length t then Some (0, t @ x, n)
      else if length x < 128 then Some (0, t @ x, length t + length x + 1)
      else None)"
| "abs_buf (t, n) B_detach = Some (0, [], 0)"
| "abs_buf (t, n) (B_reserve m) = Some (0, t, max n m)"

fun buf_run :: "nat \<Rightarrow> u_buf option \<Rightarrow> buf_op list \<Rightarrow> (rc list \<times> u_buf option) outcome" where
  "buf_run fuel bo [] = Inr ([], bo)"
| "buf_run fuel bo (p # ps) =
     obind (buf_step fuel bo p) (\<lambda>(rc, b1). obind (buf_run fuel b1 ps) (\<lambda>(rcs, b2). Inr (rc # rcs, b2)))"

fun abs_buf_run :: "string \<times> nat \<Rightarrow> buf_op list \<Rightarrow> (rc list \<times> string \<times> nat) option" where
  "abs_buf_run s [] = Some ([], s)"
| "abs_buf_run s (p # ps) =
     (case abs_buf s p of None \<Rightarrow> None
      | Some (rc, s1) \<Rightarrow>
        (case abs_buf_run s1 ps of None \<Rightarrow> None | Some (rcs, s2) \<Rightarrow> Some (rc # rcs, s2)))"

definition buf_rep :: "u_buf \<Rightarrow> string \<times> nat \<Rightarrow> bool" where
  "buf_rep b s = (buf_ok b (fst s) \<and> bsize b = snd s)"

lemma buf_shorter: "buf_ok b t \<Longrightarrow> n \<le> length t \<Longrightarrow> buf_ok (b\<lparr> blen := n \<rparr>) (take n t)"
proof -
  assume ok: "buf_ok b t" and n: "n \<le> length t"
  show ?thesis
  proof (cases "bdata b")
    case None
    with ok n show ?thesis by (auto simp: buf_ok_def)
  next
    case (Some d)
    with ok have "take n (take (length t) d) = take n (map Some t)" by (simp add: buf_ok_def)
    then have "take n d = map Some (take n t)" using n by (simp add: take_map)
    with ok n Some show ?thesis by (simp add: buf_ok_def min_absorb2)
  qed
qed

lemma printf_empty:
  assumes "buf_ok b t"
  shows "\<exists>b'. printf_loop (Suc f) mem b (Some []) = Inr (rc_fail, Some b') \<and> buf_ok b' t
    \<and> bsize b' = bsize b"
proof (cases "bsize b - length t = 0")
  case True
  then show ?thesis
    using assms buf_avail [OF assms] by (simp add: printf_loop.simps(2) Let_def vsnprintf_cells_def)
next
  case False
  obtain d where d: "bdata b = Some d" using False assms by (cases "bdata b") (auto simp: buf_ok_def)
  obtain b' where "store_at b (blen b) (map Some [] @ [Some NUL]) = Inr b'" "buf_ok b' t" "bsize b' = bsize b"
    using store_ok [OF assms d, of "[]" "[Some NUL]"] False buf_okD [OF assms] by auto
  with False show ?thesis
    using buf_avail [OF assms] by (simp add: printf_loop.simps(2) Let_def vsnprintf_cells_def)
qed

lemma buf_step_ok:
  assumes "buf_ok b t" "buf_fits p" "length t + length (buf_arg p) < buf_limit"
  shows "case abs_buf (t, bsize b) p of
      None \<Rightarrow> buf_step (Suc (Suc f)) (Some b) p = Inl Out_of_fuel
    | Some (rc, s) \<Rightarrow> \<exists>b'. buf_step (Suc (Suc f)) (Some b) p = Inr (rc, Some b') \<and> buf_rep b' s"
proof (cases p)
  case (B_append x)
  then show ?thesis
    using buf_append_ok [OF assms(1), of x] assms(1,3)
    by (cases "x = []") (auto simp: u_buf_append_def buf_rep_def)
next
  case (B_set x)
  have b0: "buf_ok (b\<lparr> blen := 0 \<rparr>) []" using buf_shorter [OF assms(1), of 0] by simp
  with B_set buf_append_ok [OF b0, of x] assms(1,3) show ?thesis
    by (cases "x = []") (auto simp: u_buf_set_def u_buf_clear_def buf_rep_def)
next
  case B_clear
  then show ?thesis using buf_shorter [OF assms(1), of 0] by (simp add: u_buf_clear_def buf_rep_def)
next
  case (B_shrink n)
  then show ?thesis
    using buf_shorter [OF assms(1), of n] buf_okD(1) [OF assms(1)] assms(1)
    by (simp add: u_buf_shrink_def not_le buf_rep_def)
next
  case (B_printf x)
  consider "x = []" | "x \<noteq> []" "length x < bsize b - length t \<or> length x < 128"
    | "x \<noteq> []" "bsize b - length t \<le> length x" "128 \<le> length x" by linarith
  then show ?thesis
  proof cases
    case 1
    then show ?thesis
      using B_printf printf_empty [OF assms(1), of "Suc f" True] by (auto simp: u_buf_printf_def buf_rep_def)
  next
    case 2
    then show ?thesis
      using B_printf printf_ok [OF assms(1) 2, of f] assms(3) by (auto simp: buf_rep_def)
  next
    case 3
    then show ?thesis
      using B_printf printf_hangs [OF assms(1) 3(3,2), of "Suc (Suc f)"] assms(3)
      by (simp add: u_buf_printf_def)
  qed
next
  case B_detach
  then show ?thesis by (simp add: u_buf_detach_def buf_ok_def buf_rep_def)
next
  case (B_reserve n)
  show ?thesis
  proof (cases "n \<le> bsize b")
    case True
    then show ?thesis using B_reserve assms(1) by (simp add: u_buf_reserve_def buf_rep_def)
  next
    case False
    then show ?thesis
      using B_reserve buf_reserve_ok [OF assms(1), of n] assms(2) by (auto simp: buf_rep_def)
  qed
qed

lemma abs_buf_length:
  "abs_buf (t, n) p = Some (rc, u, m) \<Longrightarrow> length u \<le> length t + length (buf_arg p)"
  by (cases p) (auto split: if_splits)

lemma buf_run_ok:
  "buf_ok b t \<Longrightarrow> list_all buf_fits ps \<Longrightarrow> length t + length (concat (map buf_arg ps)) < buf_limit \<Longrightarrow>
   case abs_buf_run (t, bsize b) ps of
     None \<Rightarrow> buf_run (Suc (Suc f)) (Some b) ps = Inl Out_of_fuel
   | Some (rcs, s) \<Rightarrow> \<exists>b'. buf_run (Suc (Suc f)) (Some b) ps = Inr (rcs, Some b') \<and> buf_rep b' s"
proof (induction ps arbitrary: b t)
  case (Cons p ps)
  note step = buf_step_ok [OF Cons.prems(1), of p f]
  show ?case
  proof (cases "abs_buf (t, bsize b) p")
    case None
    then show ?thesis using step Cons.prems(2,3) by simp
  next
    case (Some r)
    obtain rc u n where r: "r = (rc, u, n)" by (cases r)
    obtain b1 where b1: "buf_step (Suc (Suc f)) (Some b) p = Inr (rc, Some b1)" "buf_ok b1 u" "bsize b1 = n"
      using step Cons.prems(2,3) Some r by (auto simp: buf_rep_def)
    have len: "length u + length (concat (map buf_arg ps)) < buf_limit"
      using abs_buf_length [OF Some [unfolded r]] Cons.prems(3) by simp
    have "list_all buf_fits ps" using Cons.prems(2) by simp
    from Cons.IH [OF b1(2) this len] b1 Some r show ?thesis by (auto split: option.splits)
  qed
qed (simp add: buf_rep_def)

section \<open>Properties\<close>

text \<open>
  C14: when the allocations succeed, every sequence of appends, assignments, truncations, clears,
  detachments, reservations and formatted prints behaves as on an abstract list of bytes with the
  size of its block: the return codes, the bytes that \<open>u_buf_ptr\<close> and \<open>u_buf_len\<close> give, and the size;
  no access leaves the block. A sequence with a print of 128 or more characters for which the block
  has no room does not return, whatever the fuel. The bytes are less than \<open>2 ^ 30\<close> in all and
  reservations smaller than \<open>2 ^ 40\<close>.
\<close>
theorem u_buf_refines:
  assumes "buf_ok b t" "list_all buf_fits ps" "length t + length (concat (map buf_arg ps)) < buf_limit"
  shows "case abs_buf_run (t, bsize b) ps of
      None \<Rightarrow> buf_run (Suc (Suc f)) (Some b) ps = Inl Out_of_fuel
    | Some (rcs, u, n) \<Rightarrow>
       \<exists>b'. buf_run (Suc (Suc f)) (Some b) ps = Inr (rcs, Some b')
         \<and> u_buf_len (Some b') = int (length u) \<and> u_buf_size (Some b') = int n
         \<and> take (length u) (case u_buf_ptr (Some b') of None \<Rightarrow> [] | Some d \<Rightarrow> d) = map Some u"
proof (cases "abs_buf_run (t, bsize b) ps")
  case None
  then show ?thesis using buf_run_ok [OF assms, of f] by simp
next
  case (Some r)
  obtain rcs u n where r: "r = (rcs, u, n)" by (cases r)
  obtain b' where "buf_run (Suc (Suc f)) (Some b) ps = Inr (rcs, Some b')" "buf_ok b' u" "bsize b' = n"
    using buf_run_ok [OF assms, of f] Some r by (auto simp: buf_rep_def)
  with Some r show ?thesis
    by (cases "bdata b'") (auto simp: buf_ok_def u_buf_len_def u_buf_ptr_def u_buf_size_def)
qed

lemma new_buf_ok: "buf_ok \<lparr> bdata = None, bsize = 0, blen = 0 \<rparr> []"
  by (simp add: buf_ok_def)

theorem u_buf_refines_witness:
  "\<exists>b'. buf_run (Suc (Suc 0)) (Some \<lparr> bdata = None, bsize = 0, blen = 0 \<rparr>)
        [B_append ''abc'', B_printf ''de'', B_append [], B_shrink 4, B_reserve 20] = Inr ([0, 0, - 1, 0, 0], Some b')
     \<and> u_buf_len (Some b') = 4 \<and> u_buf_size (Some b') = 20"
  using u_buf_refines [OF new_buf_ok,
      of "[B_append ''abc'', B_printf ''de'', B_append [], B_shrink 4, B_reserve 20]" 0]
  by (auto simp: buf_limit_def simp del: buf_run.simps)



end
