(* ===== verification/Fnmatch.thy ===== *)
theory Fnmatch
  imports Cstr
begin

text \<open>
  The shell pattern matching of \<open>srcs/missing/fnmatch.c\<close>, and its equivalence with the meaning of
  patterns as lists of elements. Pattern characters are kept in a \<open>char\<close>, which is signed, and
  compared with the \<open>int\<close> that \<open>FOLDCASE\<close> gives for a character of the string, which is not
  negative: \<open>schar\<close> and \<open>uchar\<close> are these two values.
\<close>

unbundle bit_operations_syntax

section \<open>Flags and characters\<close>

type_synonym fflags = "32 word"

definition FNM_NOESCAPE :: fflags where "FNM_NOESCAPE = 0x01"
definition FNM_PATHNAME :: fflags where "FNM_PATHNAME = 0x02"
definition FNM_PERIOD :: fflags where "FNM_PERIOD = 0x04"
definition FNM_CASEFOLD :: fflags where "FNM_CASEFOLD = 0x08"
definition FNM_LEADING_DIR :: fflags where "FNM_LEADING_DIR = 0x10"

definition fset :: "fflags \<Rightarrow> fflags \<Rightarrow> bool" where
  "fset flags f = (flags AND f \<noteq> 0)"

definition foldcase :: "char \<Rightarrow> fflags \<Rightarrow> char" where
  "foldcase c flags = (if fset flags FNM_CASEFOLD \<and> isupper c then tolower c else c)"

definition uchar :: "char \<Rightarrow> int" where
  "uchar c = int (of_char c)"

definition schar :: "char \<Rightarrow> int" where
  "schar c = (if uchar c < 128 then uchar c else uchar c - 256)"

text \<open>The character at the front of the rest of a string, its terminator at the end.\<close>

definition at :: "string \<Rightarrow> fflags \<Rightarrow> char" where
  "at s flags = (case s of [] \<Rightarrow> NUL | c # _ \<Rightarrow> foldcase c flags)"

section \<open>Bracket expressions\<close>

text \<open>
  One round of the loop of \<open>rangematch\<close>: \<open>None\<close> when the pattern ends inside of the brackets, else
  whether the closing bracket was found, the new \<open>ok\<close> and the rest of the pattern.
\<close>

definition range_step :: "string \<Rightarrow> int \<Rightarrow> fflags \<Rightarrow> bool \<Rightarrow> (bool \<times> bool \<times> string) option" where
  "range_step p test flags ok =
     (case p of [] \<Rightarrow> None
      | c0 # p1 \<Rightarrow>
        if foldcase c0 flags = CHR '']'' then Some (True, ok, p1)
        else
          (let esc = (foldcase c0 flags = CHR 0x5C \<and> \<not> fset flags FNM_NOESCAPE);
               c = (if esc then at p1 flags else foldcase c0 flags);
               p2 = (if esc then tl p1 else p1)
           in
           if c = NUL then None
           else if p2 \<noteq> [] \<and> hd p2 = CHR ''-'' \<and> at (tl p2) flags \<noteq> NUL \<and> at (tl p2) flags \<noteq> CHR '']'' then
             (let esc2 = (at (tl p2) flags = CHR 0x5C \<and> \<not> fset flags FNM_NOESCAPE);
                  p3 = tl (tl p2);
                  c2 = (if esc2 then at p3 flags else at (tl p2) flags);
                  p4 = (if esc2 then tl p3 else p3)
              in
              if c2 = NUL then None
              else Some (False, ok \<or> (schar c \<le> test \<and> test \<le> schar c2), p4))
           else Some (False, ok \<or> schar c = test, p2)))"

lemma range_step_length: "range_step p test flags ok = Some (b, ok', q) \<Longrightarrow> length q < length p"
  by (auto simp: range_step_def Let_def split: list.splits if_splits)

function range_loop :: "string \<Rightarrow> int \<Rightarrow> fflags \<Rightarrow> bool \<Rightarrow> (bool \<times> string) option" where
  "range_loop p test flags ok =
     (case range_step p test flags ok of
        None \<Rightarrow> None
      | Some (finished, ok', q) \<Rightarrow> if finished then Some (ok', q) else range_loop q test flags ok')"
  by pat_completeness auto
termination
  by (relation "measure (\<lambda>(p, test, flags, ok). length p)") (auto dest: range_step_length)

declare range_loop.simps [simp del]

definition rangematch :: "string \<Rightarrow> int \<Rightarrow> fflags \<Rightarrow> string option" where
  "rangematch p test flags =
     (let negate = (p \<noteq> [] \<and> (hd p = CHR ''!'' \<or> hd p = CHR ''^''));
          p1 = (if negate then tl p else p)
      in case range_loop p1 test flags False of
           None \<Rightarrow> None
         | Some (ok, rest) \<Rightarrow> if ok = negate then None else Some rest)"

lemma range_loop_length: "range_loop p test flags ok = Some (b, rest) \<Longrightarrow> length rest < length p"
proof (induction p test flags ok rule: range_loop.induct)
  case (1 p test flags ok)
  obtain f ok' q where s: "range_step p test flags ok = Some (f, ok', q)"
    using 1(2) by (cases "range_step p test flags ok") (auto simp: range_loop.simps [of p])
  show ?case
  proof (cases f)
    case True
    with 1(2) s range_step_length [OF s] show ?thesis by (simp add: range_loop.simps [of p])
  next
    case False
    with 1(2) s have "range_loop q test flags ok' = Some (b, rest)"
      by (simp add: range_loop.simps [of p])
    then have "length rest < length q" using 1(1) [OF s] False by simp
    with range_step_length [OF s] show ?thesis by simp
  qed
qed

lemma rangematch_length: "rangematch p test flags = Some rest \<Longrightarrow> length rest < length p"
  by (auto simp: rangematch_def Let_def split: option.splits prod.splits if_splits
      dest!: range_loop_length)

section \<open>Matching\<close>

text \<open>
  The suffixes of the string that the loop of the general case of a star tries. The character
  before the rest of the string is an argument, \<open>None\<close> at its start.
\<close>

fun stops :: "fflags \<Rightarrow> string \<Rightarrow> string list" where
  "stops flags [] = []"
| "stops flags (c # s) =
     (c # s) # (if foldcase c flags = CHR ''/'' \<and> fset flags FNM_PATHNAME then [] else stops flags s)"

definition period_guard :: "string \<Rightarrow> char option \<Rightarrow> fflags \<Rightarrow> bool" where
  "period_guard s prev flags =
     (s \<noteq> [] \<and> hd s = CHR ''.'' \<and> fset flags FNM_PERIOD
      \<and> (prev = None \<or> (fset flags FNM_PATHNAME \<and> prev = Some (CHR ''/''))))"

definition slash :: "string \<Rightarrow> fflags \<Rightarrow> bool" where
  "slash s flags = (s \<noteq> [] \<and> hd s = CHR ''/'' \<and> fset flags FNM_PATHNAME)"

text \<open>\<open>strchr(string, '/')\<close>, with the character in front of it.\<close>

fun to_slash :: "char option \<Rightarrow> string \<Rightarrow> (char option \<times> string) option" where
  "to_slash prev [] = None"
| "to_slash prev (c # s) = (if c = CHR ''/'' then Some (prev, c # s) else to_slash (Some c) s)"

definition is_star :: "fflags \<Rightarrow> char \<Rightarrow> bool" where
  "is_star flags c = (foldcase c flags = CHR ''*'')"

function fnm :: "string \<Rightarrow> string \<Rightarrow> char option \<Rightarrow> fflags \<Rightarrow> bool" where
  "fnm pattern str prev flags =
     (case pattern of
        [] \<Rightarrow> (fset flags FNM_LEADING_DIR \<and> str \<noteq> [] \<and> hd str = CHR ''/'') \<or> str = []
      | c0 # p1 \<Rightarrow>
        (let c = foldcase c0 flags in
         if c = CHR ''?'' then
           (if str = [] then False else if slash str flags then False
            else if period_guard str prev flags then False
            else fnm p1 (tl str) (Some (hd str)) flags)
         else if c = CHR ''*'' then
           (let p2 = dropWhile (is_star flags) p1 in
            if period_guard str prev flags then False
            else if p2 = [] then
              (if fset flags FNM_PATHNAME then fset flags FNM_LEADING_DIR \<or> to_slash prev str = None else True)
            else if at p2 flags = CHR ''/'' \<and> fset flags FNM_PATHNAME then
              (case to_slash prev str of None \<Rightarrow> False
               | Some (prev', str') \<Rightarrow> fnm p2 str' prev' flags)
            else list_ex (\<lambda>str'. fnm p2 str' None (flags AND NOT FNM_PERIOD)) (stops flags str))
         else if c = CHR ''['' then
           (if str = [] then False else if slash str flags then False
            else (case rangematch p1 (uchar (at str flags)) flags of
                    None \<Rightarrow> False
                  | Some p2 \<Rightarrow> fnm p2 (tl str) (Some (hd str)) flags))
         else
           (let esc = (c = CHR 0x5C \<and> \<not> fset flags FNM_NOESCAPE);
                c' = (if esc \<and> p1 \<noteq> [] then at p1 flags else c);
                p2 = (if esc then tl p1 else p1)
            in if str = [] \<or> schar c' \<noteq> uchar (at str flags) then False
               else fnm p2 (tl str) (Some (hd str)) flags)))"
  by pat_completeness auto
termination
proof (relation "measure (\<lambda>(pattern, str, prev, flags). length pattern)")
qed (auto simp: le_imp_less_Suc [OF length_dropWhile_le] dest!: rangematch_length)

declare fnm.simps [simp del]

definition fnmatch :: "string \<Rightarrow> string \<Rightarrow> fflags \<Rightarrow> int" where
  "fnmatch pattern str flags = (if fnm pattern str None flags then 0 else 1)"

section \<open>The meaning of patterns\<close>

text \<open>
  A pattern as a list of elements, and the strings it matches, on the values of the characters.
  In a path a slash is matched by a slash only. A bracket expression that does not end matches
  nothing.
\<close>

datatype pat = P_any | P_star | P_char int | P_set bool "(int \<times> int) list" | P_bad

definition slash_val :: int where "slash_val = 47"

definition elem :: "bool \<Rightarrow> pat \<Rightarrow> int \<Rightarrow> bool" where
  "elem path e x =
     (case e of
        P_any \<Rightarrow> \<not> (path \<and> x = slash_val)
      | P_star \<Rightarrow> False
      | P_char c \<Rightarrow> c = x
      | P_set neg rs \<Rightarrow> \<not> (path \<and> x = slash_val) \<and> (\<exists>(lo, hi) \<in> set rs. lo \<le> x \<and> x \<le> hi) \<noteq> neg
      | P_bad \<Rightarrow> False)"

inductive glob :: "bool \<Rightarrow> pat list \<Rightarrow> int list \<Rightarrow> bool" for path where
  glob_Nil: "glob path [] []"
| glob_elem: "elem path e x \<Longrightarrow> glob path es xs \<Longrightarrow> glob path (e # es) (x # xs)"
| glob_star: "\<not> (path \<and> slash_val \<in> set xs) \<Longrightarrow> glob path es ys \<Longrightarrow> glob path (P_star # es) (xs @ ys)"

inductive_simps glob_Nil_iff: "glob path [] xs"
inductive_cases glob_ConsE: "glob path (e # es) xs"
inductive_cases glob_starE: "glob path (P_star # es) xs"

text \<open>
  The ranges of a bracket expression up to its end. All values are those of the characters as they
  are, from 0 to 255, in the pattern as in the string.
\<close>

function ranges :: "string \<Rightarrow> fflags \<Rightarrow> ((int \<times> int) list \<times> string) option" where
  "ranges p flags =
     (case p of [] \<Rightarrow> None
      | c0 # p1 \<Rightarrow>
        if foldcase c0 flags = CHR '']'' then Some ([], p1)
        else
          (let esc = (foldcase c0 flags = CHR 0x5C \<and> \<not> fset flags FNM_NOESCAPE);
               c = (if esc then at p1 flags else foldcase c0 flags);
               p2 = (if esc then tl p1 else p1);
               dash = (p2 \<noteq> [] \<and> hd p2 = CHR ''-'' \<and> at (tl p2) flags \<noteq> NUL \<and> at (tl p2) flags \<noteq> CHR '']'');
               esc2 = (at (tl p2) flags = CHR 0x5C \<and> \<not> fset flags FNM_NOESCAPE);
               c2 = (if dash then if esc2 then at (tl (tl p2)) flags else at (tl p2) flags else c);
               p3 = (if dash then if esc2 then tl (tl (tl p2)) else tl (tl p2) else p2)
           in
           if c = NUL \<or> c2 = NUL then None
           else map_option (\<lambda>(rs, rest). ((uchar c, uchar c2) # rs, rest)) (ranges p3 flags)))"
  by pat_completeness auto
termination
  by (relation "measure (\<lambda>(p, flags). length p)") (auto simp: Let_def)

declare ranges.simps [simp del]

definition bracket :: "string \<Rightarrow> fflags \<Rightarrow> (pat \<times> string) option" where
  "bracket p flags =
     (let neg = (p \<noteq> [] \<and> (hd p = CHR ''!'' \<or> hd p = CHR ''^'')) in
      map_option (\<lambda>(rs, rest). (P_set neg rs, rest)) (ranges (if neg then tl p else p) flags))"

text \<open>
  The characters of a pattern are read from a signed \<open>char\<close>. They have their own values when the
  pattern is in ASCII.
\<close>

definition seven :: "string \<Rightarrow> bool" where
  "seven p = list_all (\<lambda>c. uchar c < 128) p"

lemma seven_simps [simp]: "seven []" "seven (c # p) \<longleftrightarrow> uchar c < 128 \<and> seven p"
  by (simp_all add: seven_def)

lemma seven_tl [simp]: "seven p \<Longrightarrow> seven (tl p)"
  by (cases p) simp_all

lemma seven_dropWhile [simp]: "seven p \<Longrightarrow> seven (dropWhile P p)"
  by (induction p) simp_all

lemma uchar_foldcase: "uchar c < 128 \<Longrightarrow> uchar (foldcase c flags) < 128"
  by (auto simp: foldcase_def tolower_def uchar_def isupper_def of_char_mod_256)

lemma uchar_at [simp]: "seven p \<Longrightarrow> uchar (at p flags) < 128"
  by (cases p) (simp_all add: at_def uchar_foldcase uchar_def [of NUL])

lemma schar_uchar: "uchar c < 128 \<Longrightarrow> schar c = uchar c"
  by (simp add: schar_def)

lemma schar_foldcase [simp]: "uchar c < 128 \<Longrightarrow> schar (foldcase c flags) = uchar (foldcase c flags)"
  by (rule schar_uchar) (rule uchar_foldcase)

lemma schar_at [simp]: "seven p \<Longrightarrow> schar (at p flags) = uchar (at p flags)"
  by (rule schar_uchar) (rule uchar_at)

lemma range_step_seven:
  "range_step p test flags ok = Some (b, ok', q) \<Longrightarrow> seven p \<Longrightarrow> seven q"
  by (auto simp: range_step_def Let_def split: list.splits if_splits)

lemma range_loop_seven:
  "range_loop p test flags ok = Some (b, rest) \<Longrightarrow> seven p \<Longrightarrow> seven rest"
proof (induction p test flags ok rule: range_loop.induct)
  case (1 p test flags ok)
  then obtain f ok' q where s: "range_step p test flags ok = Some (f, ok', q)"
    by (cases "range_step p test flags ok") (auto simp: range_loop.simps [of p])
  then show ?case
    using 1(1) [OF s refl refl] 1(2,3) range_step_seven [OF s]
    by (auto simp: range_loop.simps [of p] split: if_splits)
qed

lemma range_step_ranges:
  assumes "range_step p test flags ok = Some (False, ok', q)" "seven p"
  shows "\<exists>lo hi. ranges p flags = map_option (\<lambda>(rs, rest). ((lo, hi) # rs, rest)) (ranges q flags)
    \<and> ok' = (ok \<or> (lo \<le> test \<and> test \<le> hi))"
proof -
  obtain c0 p1 where p: "p = c0 # p1" using assms by (cases p) (auto simp: range_step_def)
  have nb: "foldcase c0 flags \<noteq> CHR '']''" using assms by (auto simp: range_step_def p)
  define esc where "esc = (foldcase c0 flags = CHR 0x5C \<and> \<not> fset flags FNM_NOESCAPE)"
  define c where "c = (if esc then at p1 flags else foldcase c0 flags)"
  define p2 where "p2 = (if esc then tl p1 else p1)"
  have sv: "seven p2" "schar c = uchar c" using assms(2) by (simp_all add: p p2_def c_def)
  define dash where "dash = (p2 \<noteq> [] \<and> hd p2 = CHR ''-'' \<and> at (tl p2) flags \<noteq> NUL \<and> at (tl p2) flags \<noteq> CHR '']'')"
  define esc2 where "esc2 = (at (tl p2) flags = CHR 0x5C \<and> \<not> fset flags FNM_NOESCAPE)"
  have s: "range_step p test flags ok =
     (if c = NUL then None
      else if dash then
        (if (if esc2 then at (tl (tl p2)) flags else at (tl p2) flags) = NUL then None
         else Some (False, ok \<or> (schar c \<le> test \<and> test \<le> schar (if esc2 then at (tl (tl p2)) flags else at (tl p2) flags)),
                if esc2 then tl (tl (tl p2)) else tl (tl p2)))
      else Some (False, ok \<or> schar c = test, p2))"
    using nb unfolding range_step_def p list.case Let_def esc_def c_def p2_def dash_def esc2_def
    by (simp only: if_False)
  have g: "ranges p flags =
     (let c2 = (if dash then if esc2 then at (tl (tl p2)) flags else at (tl p2) flags else c) in
      if c = NUL \<or> c2 = NUL then None
      else map_option (\<lambda>(rs, rest). ((uchar c, uchar c2) # rs, rest))
        (ranges (if dash then if esc2 then tl (tl (tl p2)) else tl (tl p2) else p2) flags))"
    using nb unfolding p ranges.simps [of "c0 # p1" flags] list.case Let_def esc_def c_def p2_def dash_def esc2_def
    by (simp only: if_False)
  have cn: "c \<noteq> NUL" using assms s by auto
  show ?thesis
  proof (cases dash)
    case True
    with s g cn assms(1) sv show ?thesis by (auto simp: Let_def split: if_splits)
  next
    case False
    with s cn assms(1) sv have "ok' = (ok \<or> (uchar c \<le> test \<and> test \<le> uchar c))" "q = p2" by auto
    with False g cn show ?thesis by (simp add: Let_def) blast
  qed
qed

lemma range_loop_ranges:
  "seven p \<Longrightarrow> range_loop p test flags ok =
     map_option (\<lambda>(rs, rest). (ok \<or> (\<exists>(lo, hi) \<in> set rs. lo \<le> test \<and> test \<le> hi), rest)) (ranges p flags)"
proof (induction p test flags ok rule: range_loop.induct)
  case (1 p test flags ok)
  show ?case
  proof (cases "range_step p test flags ok")
    case None
    then have "ranges p flags = None"
      by (subst ranges.simps) (auto simp: range_step_def Let_def split: list.splits if_splits)
    with None show ?thesis by (simp add: range_loop.simps [of p])
  next
    case (Some r)
    obtain f ok' q where r: "r = (f, ok', q)" by (cases r) auto
    show ?thesis
    proof (cases f)
      case True
      then have "ok' = ok"
        using Some r by (auto simp: range_step_def Let_def split: list.splits if_splits)
      moreover have "ranges p flags = Some ([], q)"
        using True Some r
        by (subst ranges.simps) (auto simp: range_step_def Let_def split: list.splits if_splits)
      ultimately have "ok' = ok" "ranges p flags = Some ([], q)" by simp_all
      with Some r True show ?thesis by (simp add: range_loop.simps [of p])
    next
      case False
      then have "\<exists>lo hi. ranges p flags = map_option (\<lambda>(rs, rest). ((lo, hi) # rs, rest)) (ranges q flags)
          \<and> ok' = (ok \<or> (lo \<le> test \<and> test \<le> hi))"
        using Some 1(2) by (simp add: r range_step_ranges)
      moreover have "range_loop p test flags ok = range_loop q test flags ok'"
        using Some r False by (simp add: range_loop.simps [of p])
      moreover note 1(1) [OF Some r [symmetric] refl False
          range_step_seven [OF Some [unfolded r] 1(2)]]
      ultimately show ?thesis
        by (cases "ranges q flags") (auto simp: r)
    qed
  qed
qed

lemma rangematch_bracket:
  "seven p \<Longrightarrow> rangematch p test flags =
     (case bracket p flags of None \<Rightarrow> None
      | Some (P_set neg rs, rest) \<Rightarrow>
          if (\<exists>(lo, hi) \<in> set rs. lo \<le> test \<and> test \<le> hi) \<noteq> neg then Some rest else None
      | _ \<Rightarrow> None)"
  by (auto simp: rangematch_def bracket_def Let_def range_loop_ranges split: option.splits)

lemma ranges_length: "ranges p flags = Some (rs, rest) \<Longrightarrow> length rest < length p"
proof (induction "length p" arbitrary: p rs rule: less_induct)
  case less
  obtain c0 p1 where p: "p = c0 # p1" using less(2) by (cases p) (simp_all add: ranges.simps)
  show ?case
  proof (cases "foldcase c0 flags = CHR '']''")
    case True
    then show ?thesis using less(2) unfolding p by (subst (asm) ranges.simps) simp
  next
    case False
    obtain p3 rs' where "length p3 \<le> length p1" "ranges p3 flags = Some (rs', rest)"
    proof -
      define p2 where "p2 = (if foldcase c0 flags = CHR 0x5C \<and> \<not> fset flags FNM_NOESCAPE then tl p1 else p1)"
      have len: "length (tl (tl (tl p2))) \<le> length p1" "length (tl (tl p2)) \<le> length p1"
        "length p2 \<le> length p1" by (simp_all add: p2_def)
      show thesis
        using less(2) False unfolding p ranges.simps [of "c0 # p1"] list.case Let_def p2_def [symmetric]
        by (auto split: if_split_asm intro: that [OF len(1)] that [OF len(2)] that [OF len(3)])
    qed
    then show ?thesis using less(1) [of p3 rs'] by (simp add: p)
  qed
qed

lemma bracket_length: "bracket p flags = Some (e, rest) \<Longrightarrow> length rest < length p"
  using ranges_length [of "tl p"] ranges_length [of p] by (fastforce simp: bracket_def Let_def split: if_splits)

lemma bracket_seven: "bracket p flags = Some (e, rest) \<Longrightarrow> seven p \<Longrightarrow> seven rest"
proof -
  assume a: "bracket p flags = Some (e, rest)" "seven p"
  define q where "q = (if p \<noteq> [] \<and> (hd p = CHR ''!'' \<or> hd p = CHR ''^'') then tl p else p)"
  have q: "seven q" using a(2) by (simp add: q_def)
  obtain rs where "ranges q flags = Some (rs, rest)"
    using a(1) by (auto simp: bracket_def Let_def q_def [symmetric])
  then have "\<exists>b. range_loop q 0 flags False = Some (b, rest)" using q by (simp add: range_loop_ranges)
  then show ?thesis using q range_loop_seven by blast
qed

function elems :: "fflags \<Rightarrow> string \<Rightarrow> pat list" where
  "elems flags p =
     (case p of [] \<Rightarrow> []
      | c0 # p1 \<Rightarrow>
        (let c = foldcase c0 flags in
         if c = CHR ''?'' then P_any # elems flags p1
         else if c = CHR ''*'' then P_star # elems flags p1
         else if c = CHR ''['' then
           (case bracket p1 flags of None \<Rightarrow> [P_bad] | Some (e, p2) \<Rightarrow> e # elems flags p2)
         else if c = CHR 0x5C \<and> \<not> fset flags FNM_NOESCAPE then
           (case p1 of [] \<Rightarrow> [P_char (uchar c)] | d # p2 \<Rightarrow> P_char (uchar (foldcase d flags)) # elems flags p2)
         else P_char (uchar c) # elems flags p1))"
  by pat_completeness auto
termination
  by (relation "measure (\<lambda>(flags, p). length p)") (auto dest!: bracket_length)

declare elems.simps [simp del]

definition vals :: "fflags \<Rightarrow> string \<Rightarrow> int list" where
  "vals flags s = map (\<lambda>c. uchar (foldcase c flags)) s"

section \<open>Matching as the meaning says\<close>

lemma fold_slash: "foldcase c flags = CHR ''/'' \<longleftrightarrow> c = CHR ''/''"
proof (cases "isupper c")
  case True
  then have "(of_char c :: nat) \<le> 90" "65 \<le> (of_char c :: nat)" by (simp_all add: isupper_def)
  then have "(of_char (char_of ((of_char c :: nat) + 32)) :: nat) \<noteq> 47" "(of_char c :: nat) \<noteq> 47"
    by (simp_all add: of_char_mod_256)
  moreover have "(of_char (CHR ''/'') :: nat) = 47" by simp
  ultimately have "char_of ((of_char c :: nat) + 32) \<noteq> CHR ''/''" "c \<noteq> CHR ''/''" by metis+
  then show ?thesis by (simp add: foldcase_def tolower_def)
qed (simp add: foldcase_def)

lemma uchar_slash: "uchar c = slash_val \<longleftrightarrow> c = CHR ''/''"
proof -
  have "uchar (CHR ''/'') = slash_val" by (simp add: uchar_def slash_val_def)
  moreover have "uchar a = uchar b \<longleftrightarrow> a = b" for a b by (simp add: uchar_def)
  ultimately show ?thesis by metis
qed

lemma uchar_slash_val: "uchar (CHR ''/'') = slash_val"
  by (simp add: uchar_slash)

lemma vals_simps [simp]:
  "vals flags [] = []" "vals flags (c # s) = uchar (foldcase c flags) # vals flags s"
  by (simp_all add: vals_def)

lemma at_simps [simp]: "at [] flags = NUL" "at (c # s) flags = foldcase c flags"
  by (simp_all add: at_def)

lemma no_period:
  assumes "\<not> fset flags FNM_PERIOD"
  shows "flags AND NOT FNM_PERIOD = flags"
proof (rule bit_word_eqI)
  fix n assume "n < LENGTH(32)"
  have "\<not> bit (flags AND FNM_PERIOD) n" using assms by (simp add: fset_def)
  then show "bit (flags AND NOT FNM_PERIOD) n = bit flags n"
    using \<open>n < LENGTH(32)\<close> by (auto simp: bit_and_iff bit_not_iff)
qed

lemma glob_Nil_simp [simp]: "glob path [] xs \<longleftrightarrow> xs = []"
  by (auto simp: glob_Nil_iff)

lemma glob_elem_iff [simp]:
  assumes "e \<noteq> P_star"
  shows "glob path (e # es) [] \<longleftrightarrow> False"
    "glob path (e # es) (x # xs) \<longleftrightarrow> elem path e x \<and> glob path es xs"
  using assms by (auto elim: glob_ConsE intro: glob_elem)

lemma glob_star_iff:
  "glob path (P_star # es) xs \<longleftrightarrow> (\<exists>a b. xs = a @ b \<and> \<not> (path \<and> slash_val \<in> set a) \<and> glob path es b)"
proof
  assume "glob path (P_star # es) xs"
  then show "\<exists>a b. xs = a @ b \<and> \<not> (path \<and> slash_val \<in> set a) \<and> glob path es b"
    by (rule glob_starE) (auto simp: elem_def)
qed (auto intro: glob_star)

lemma glob_star_Nil: "glob path (P_star # es) [] \<longleftrightarrow> glob path es []"
  by (simp add: glob_star_iff)

lemma glob_star_Cons:
  "glob path (P_star # es) (x # xs) \<longleftrightarrow>
     glob path es (x # xs) \<or> (\<not> (path \<and> x = slash_val) \<and> glob path (P_star # es) xs)"
proof
  assume "glob path (P_star # es) (x # xs)"
  then obtain a b where ab: "x # xs = a @ b" "\<not> (path \<and> slash_val \<in> set a)" "glob path es b"
    by (auto simp: glob_star_iff)
  then show "glob path es (x # xs) \<or> (\<not> (path \<and> x = slash_val) \<and> glob path (P_star # es) xs)"
    by (cases a) (auto intro: glob_star)
next
  assume "glob path es (x # xs) \<or> (\<not> (path \<and> x = slash_val) \<and> glob path (P_star # es) xs)"
  then show "glob path (P_star # es) (x # xs)"
  proof
    assume "glob path es (x # xs)"
    then show ?thesis using glob_star [of path "[]" es "x # xs"] by simp
  next
    assume "\<not> (path \<and> x = slash_val) \<and> glob path (P_star # es) xs"
    then obtain a b where "xs = a @ b" "\<not> (path \<and> slash_val \<in> set (x # a))" "glob path es b"
      by (auto simp: glob_star_iff)
    then show ?thesis using glob_star [of path "x # a" es b] by simp
  qed
qed

lemma glob_last_star: "glob path [P_star] xs \<longleftrightarrow> \<not> (path \<and> slash_val \<in> set xs)"
  by (induction xs) (auto simp: glob_star_Nil glob_star_Cons)

lemma glob_star_star: "glob path (P_star # P_star # es) xs \<longleftrightarrow> glob path (P_star # es) xs"
  by (induction xs) (auto simp: glob_star_Nil glob_star_Cons)

lemma elems_stars:
  "glob path (P_star # elems flags p) xs \<longleftrightarrow>
   glob path (P_star # elems flags (dropWhile (is_star flags) p)) xs"
proof (induction p)
  case (Cons c p)
  show ?case
  proof (cases "is_star flags c")
    case True
    then have "elems flags (c # p) = P_star # elems flags p"
      by (subst elems.simps) (simp add: is_star_def Let_def)
    with Cons True show ?thesis by (simp add: glob_star_star)
  qed simp
qed simp

lemma elems_Nil [simp]: "elems flags [] = []"
  by (simp add: elems.simps)

lemma elems_hd:
  assumes "p \<noteq> []" "\<not> is_star flags (hd p)"
  shows "\<exists>e es. elems flags p = e # es \<and> e \<noteq> P_star"
proof -
  obtain c q where p: "p = c # q" using assms(1) by (cases p) auto
  have "foldcase c flags \<noteq> CHR ''*''" using assms(2) by (simp add: p is_star_def)
  then show ?thesis
    by (subst p, subst elems.simps) (auto simp: Let_def bracket_def split: list.splits option.splits if_splits)
qed

lemma stops_glob:
  assumes "e \<noteq> P_star"
  shows "glob (fset flags FNM_PATHNAME) (P_star # e # es) (vals flags s) \<longleftrightarrow>
    list_ex (\<lambda>s'. glob (fset flags FNM_PATHNAME) (e # es) (vals flags s')) (stops flags s)"
proof (induction s)
  case Nil
  then show ?case using assms by (simp add: glob_star_Nil)
next
  case (Cons c s)
  have "uchar (foldcase c flags) = slash_val \<longleftrightarrow> foldcase c flags = CHR ''/''" by (rule uchar_slash)
  with Cons show ?case using assms by (auto simp: glob_star_Cons)
qed

lemma to_slash_glob:
  assumes "fset flags FNM_PATHNAME"
  shows "glob True (P_star # P_char slash_val # es) (vals flags s) \<longleftrightarrow>
    (case to_slash prev s of None \<Rightarrow> False | Some (_, s') \<Rightarrow> glob True (P_char slash_val # es) (vals flags s'))"
proof (induction s arbitrary: prev)
  case Nil
  then show ?case by (simp add: glob_star_Nil)
next
  case (Cons c s)
  have "uchar (foldcase c flags) = slash_val \<longleftrightarrow> c = CHR ''/''" by (simp add: uchar_slash fold_slash)
  with Cons [of "Some c"] show ?case by (auto simp: glob_star_Cons elem_def)
qed

lemma to_slash_None: "to_slash prev s = None \<longleftrightarrow> slash_val \<notin> set (vals flags s)"
  by (induction s arbitrary: prev) (auto simp: uchar_slash fold_slash eq_commute [of slash_val])

lemma slash_at: "slash (x # s) flags \<longleftrightarrow> fset flags FNM_PATHNAME \<and> uchar (foldcase x flags) = slash_val"
  by (auto simp: slash_def uchar_slash fold_slash)

lemma fnm_glob:
  assumes "\<not> fset flags FNM_PERIOD" "\<not> fset flags FNM_LEADING_DIR" "seven p"
  shows "fnm p s prev flags \<longleftrightarrow> glob (fset flags FNM_PATHNAME) (elems flags p) (vals flags s)"
  using assms(3)
proof (induction "length p" arbitrary: p s prev rule: less_induct)
  case less
  let ?g = "glob (fset flags FNM_PATHNAME)"
  have np: "period_guard s prev flags \<longleftrightarrow> False" for s prev
    using assms(1) by (simp add: period_guard_def)
  show ?case
  proof (cases p)
    case Nil
    then show ?thesis using assms(2) by (subst fnm.simps) (cases s; simp)
  next
    case (Cons c0 p1)
    have sv: "seven p1" "uchar c0 < 128" using less(2) by (simp_all add: Cons)
    have ih: "length q \<le> length p1 \<Longrightarrow> seven q \<Longrightarrow> fnm q s prev flags \<longleftrightarrow> ?g (elems flags q) (vals flags s)" for q s prev
      using less(1) [of q] by (simp add: Cons)
    define c where "c = foldcase c0 flags"
    note fn = fnm.simps [of "c0 # p1" s prev flags, unfolded list.case Let_def, folded c_def]
    note el = elems.simps [of flags "c0 # p1", unfolded list.case Let_def, folded c_def]
    consider "c = CHR ''?''" | "c = CHR ''*''" | "c = CHR ''[''"
      | "c \<notin> {CHR ''?'', CHR ''*'', CHR ''[''}" by auto
    then show ?thesis
    proof cases
      case 1
      have "fnm p s prev flags \<longleftrightarrow> s \<noteq> [] \<and> \<not> slash s flags \<and> fnm p1 (tl s) (Some (hd s)) flags"
        using 1 by (simp add: Cons fn np)
      moreover have "elems flags p = P_any # elems flags p1" using 1 by (simp add: Cons el)
      ultimately show ?thesis by (cases s) (auto simp: ih sv slash_at elem_def)
    next
      case 2
      define p2 where "p2 = dropWhile (is_star flags) p1"
      have len: "length p2 \<le> length p1" "seven p2" by (simp_all add: p2_def length_dropWhile_le sv)
      have g: "?g (elems flags p) (vals flags s) \<longleftrightarrow> ?g (P_star # elems flags p2) (vals flags s)"
        using elems_stars [of "fset flags FNM_PATHNAME" flags p1] 2 by (simp add: Cons el p2_def)
      have f: "fnm p s prev flags \<longleftrightarrow>
         (if p2 = [] then (if fset flags FNM_PATHNAME then to_slash prev s = None else True)
          else if at p2 flags = CHR ''/'' \<and> fset flags FNM_PATHNAME then
            (case to_slash prev s of None \<Rightarrow> False | Some (prev', str') \<Rightarrow> fnm p2 str' prev' flags)
          else list_ex (\<lambda>str'. fnm p2 str' None flags) (stops flags s))"
        using 2 assms(2) by (simp add: Cons fn np p2_def no_period [OF assms(1)] split: option.split)
      show ?thesis
      proof (cases "p2 = []")
        case True
        with f g show ?thesis by (simp add: glob_last_star to_slash_None)
      next
        case False
        have hd: "\<not> is_star flags (hd p2)" using False hd_dropWhile [of "is_star flags" p1] by (simp add: p2_def)
        show ?thesis
        proof (cases "at p2 flags = CHR ''/'' \<and> fset flags FNM_PATHNAME")
          case True
          obtain d q where p2: "p2 = d # q" using False by (cases p2) auto
          have "elems flags p2 = P_char slash_val # elems flags q"
            using True by (subst p2, subst elems.simps) (simp add: p2 Let_def uchar_slash_val)
          with True False f g ih [OF len(1,2)] to_slash_glob [of flags "elems flags q" s prev] show ?thesis
            by (simp split: option.splits)
        next
          case nslash: False
          obtain e es where e: "elems flags p2 = e # es" "e \<noteq> P_star"
            using elems_hd [OF False hd] by blast
          have "fnm p s prev flags \<longleftrightarrow> list_ex (\<lambda>s'. ?g (e # es) (vals flags s')) (stops flags s)"
            unfolding f if_not_P [OF False] if_not_P [OF nslash] ih [OF len(1,2)] e(1) ..
          with stops_glob [OF e(2), of flags es s] g e(1) show ?thesis by simp
        qed
      qed
    next
      case 3
      have f: "fnm p s prev flags \<longleftrightarrow> s \<noteq> [] \<and> \<not> slash s flags
          \<and> (case rangematch p1 (uchar (at s flags)) flags of None \<Rightarrow> False
             | Some p2 \<Rightarrow> fnm p2 (tl s) (Some (hd s)) flags)"
        using 3 by (simp add: Cons fn)
      have g: "elems flags p =
          (case bracket p1 flags of None \<Rightarrow> [P_bad] | Some (e, p2) \<Rightarrow> e # elems flags p2)"
        using 3 by (simp add: Cons el)
      show ?thesis
      proof (cases "bracket p1 flags")
        case None
        with f g show ?thesis by (cases s) (simp_all add: rangematch_bracket [OF sv(1)] elem_def)
      next
        case (Some ep)
        obtain neg rs p2 where ep: "ep = (P_set neg rs, p2)"
          using Some by (auto simp: bracket_def Let_def)
        have "length p2 \<le> length p1" using bracket_length [of p1 flags] Some ep by fastforce
        moreover have "seven p2" using bracket_seven [of p1 flags] Some ep sv(1) by simp
        ultimately show ?thesis using ih [of p2] f g Some ep
          by (cases s) (auto simp: rangematch_bracket [OF sv(1)] elem_def slash_at)
      qed
    next
      case 4
      define esc where "esc = (c = CHR 0x5C \<and> \<not> fset flags FNM_NOESCAPE)"
      define c' where "c' = (if esc \<and> p1 \<noteq> [] then at p1 flags else c)"
      define p2 where "p2 = (if esc then tl p1 else p1)"
      have f: "fnm p s prev flags \<longleftrightarrow>
          \<not> (s = [] \<or> schar c' \<noteq> uchar (at s flags)) \<and> fnm p2 (tl s) (Some (hd s)) flags"
        using 4 by (simp add: Cons fn esc_def c'_def p2_def)
      have "elems flags p =
          (if esc then (case p1 of [] \<Rightarrow> [P_char (uchar c)]
             | d # q \<Rightarrow> P_char (uchar (foldcase d flags)) # elems flags q)
           else P_char (uchar c) # elems flags p1)"
        using 4 by (simp add: Cons el esc_def)
      then have g: "elems flags p = P_char (uchar c') # elems flags p2"
        by (cases p1) (simp_all add: c'_def p2_def)
      have p2: "length p2 \<le> length p1" "seven p2" by (simp_all add: p2_def sv)
      have "schar c' = uchar c'" using sv by (simp add: c'_def c_def)
      with ih [OF p2] f g show ?thesis by (cases s) (auto simp: elem_def)
    qed
  qed
qed

section \<open>Properties\<close>

text \<open>
  C11: for a pattern in ASCII and flags without \<open>FNM_PERIOD\<close> and \<open>FNM_LEADING_DIR\<close>, \<open>fnmatch\<close>
  returns 0 just when the string, of any characters, is matched by the pattern read as a list of
  elements: any character, any sequence, bracket expressions and characters, with slashes kept
  apart in a path. The short cuts for stars at the end and before a slash, and the bounded search
  for other stars, change nothing. Characters have their values from 0 to 255 in this reading.
\<close>
theorem fnmatch_glob:
  assumes "\<not> fset flags FNM_PERIOD" "\<not> fset flags FNM_LEADING_DIR" "seven p"
  shows "fnmatch p s flags = 0 \<longleftrightarrow> glob (fset flags FNM_PATHNAME) (elems flags p) (vals flags s)"
  using fnm_glob [OF assms] by (simp add: fnmatch_def)

theorem fnmatch_glob_witness:
  "fnmatch ''*/x'' ''ab/x'' FNM_PATHNAME = 0
     \<longleftrightarrow> glob True [P_star, P_char 47, P_char 120] [97, 98, 47, 120]"
  using fnmatch_glob [of FNM_PATHNAME "''*/x''" "''ab/x''"]
  by (simp add: fset_def FNM_PATHNAME_def FNM_PERIOD_def FNM_LEADING_DIR_def FNM_CASEFOLD_def
      elems.simps Let_def foldcase_def vals_def uchar_def)

text \<open>
  The hypothesis on the pattern is needed. Outside of ASCII a character in a pattern never matches
  itself: kept in a signed \<open>char\<close> it is negative, and it is compared with the value of the
  string's character, which is not.
\<close>
theorem fnmatch_non_ascii:
  assumes "128 \<le> (of_char c :: nat)" "\<not> isupper c"
  shows "fnmatch [c] [c] flags = 1"
proof -
  have f: "foldcase c flags = c" using assms(2) by (simp add: foldcase_def)
  have "c \<noteq> d" if "(of_char d :: nat) < 128" for d using assms(1) that by auto
  then have "c \<noteq> CHR ''?''" "c \<noteq> CHR ''*''" "c \<noteq> CHR ''[''" "c \<noteq> CHR 0x5C" by simp_all
  moreover have "128 \<le> uchar c" using assms(1) by (simp add: uchar_def)
  ultimately show ?thesis
    by (simp add: fnmatch_def fnm.simps [of "[c]"] f Let_def schar_def)
qed

theorem fnmatch_non_ascii_witness: "fnmatch [CHR 0xE9] [CHR 0xE9] 0 = 1"
  by (rule fnmatch_non_ascii) (simp_all add: isupper_def)

end
