(* ===== verification/Uri.thy ===== *)
theory Uri
  imports Strfun Lexer
begin

text \<open>
  The URI parser and printer of \<open>srcs/toolbox/uri.c\<close>, on the cursor of \<open>Lexer\<close>. The fields of the
  object are strings of at most 127 characters. A parsing function returns the object and the
  cursor, jumps to its error label, or faults: a token of 128 characters or more, which
  \<open>u_lexer_get_match\<close> refuses to copy, makes the callers index their buffer at \<open>strlen - 1\<close> of what
  was there before, which may be empty.
\<close>

unbundle bit_operations_syntax

section \<open>The object\<close>

type_synonym uflags = "32 word"

definition U_URI_STRMAX :: nat where "U_URI_STRMAX = 4096"
definition U_URI_OPT_DONT_PARSE_USERINFO :: uflags where "U_URI_OPT_DONT_PARSE_USERINFO = 0x01"
definition U_URI_FLAGS_HOST_IS_IPADDRESS :: uflags where "U_URI_FLAGS_HOST_IS_IPADDRESS = 0x01"
definition U_URI_FLAGS_HOST_IS_IPLITERAL :: uflags where "U_URI_FLAGS_HOST_IS_IPLITERAL = 0x02"

record u_uri =
  uri_opts :: uflags
  uri_flags :: uflags
  uri_scheme :: string
  uri_userinfo :: string
  uri_user :: string
  uri_pwd :: string
  uri_authority :: string
  uri_host :: string
  uri_port :: string
  uri_path :: string
  uri_query :: string
  uri_fragment :: string

datatype uri_field = F_scheme | F_userinfo | F_user | F_pwd | F_authority | F_host | F_port | F_path
  | F_query | F_fragment

fun field_get :: "uri_field \<Rightarrow> u_uri \<Rightarrow> string" where
  "field_get F_scheme u = uri_scheme u"
| "field_get F_userinfo u = uri_userinfo u"
| "field_get F_user u = uri_user u"
| "field_get F_pwd u = uri_pwd u"
| "field_get F_authority u = uri_authority u"
| "field_get F_host u = uri_host u"
| "field_get F_port u = uri_port u"
| "field_get F_path u = uri_path u"
| "field_get F_query u = uri_query u"
| "field_get F_fragment u = uri_fragment u"

fun field_put :: "uri_field \<Rightarrow> string \<Rightarrow> u_uri \<Rightarrow> u_uri" where
  "field_put F_scheme v u = u\<lparr> uri_scheme := v \<rparr>"
| "field_put F_userinfo v u = u\<lparr> uri_userinfo := v \<rparr>"
| "field_put F_user v u = u\<lparr> uri_user := v \<rparr>"
| "field_put F_pwd v u = u\<lparr> uri_pwd := v \<rparr>"
| "field_put F_authority v u = u\<lparr> uri_authority := v \<rparr>"
| "field_put F_host v u = u\<lparr> uri_host := v \<rparr>"
| "field_put F_port v u = u\<lparr> uri_port := v \<rparr>"
| "field_put F_path v u = u\<lparr> uri_path := v \<rparr>"
| "field_put F_query v u = u\<lparr> uri_query := v \<rparr>"
| "field_put F_fragment v u = u\<lparr> uri_fragment := v \<rparr>"

text \<open>The accessors that the macro \<open>U_URI_GETSET_F\<close> makes for each field.\<close>

definition u_uri_get :: "uri_field \<Rightarrow> u_uri option \<Rightarrow> string option" where
  "u_uri_get f uo = map_option (field_get f) uo"

definition u_uri_set :: "uri_field \<Rightarrow> u_uri option \<Rightarrow> string option \<Rightarrow> rc \<times> u_uri option" where
  "u_uri_set f uo v =
     (case (uo, v) of
        (Some u, Some s) \<Rightarrow>
          (case u_strlcpy (field_get f u) s U_TOKEN_SZ of (ok, t) \<Rightarrow>
             (if ok then rc_ok else rc_fail, Some (field_put f t u)))
      | _ \<Rightarrow> (rc_fail, uo))"

definition u_uri_get_flags :: "u_uri \<Rightarrow> uflags" where
  "u_uri_get_flags u = uri_flags u"

definition empty_uri :: "uflags \<Rightarrow> u_uri" where
  "empty_uri opts = \<lparr> uri_opts = opts, uri_flags = 0, uri_scheme = [], uri_userinfo = [], uri_user = [],
     uri_pwd = [], uri_authority = [], uri_host = [], uri_port = [], uri_path = [], uri_query = [],
     uri_fragment = [] \<rparr>"

definition u_uri_new :: "bool \<Rightarrow> uflags \<Rightarrow> rc \<times> u_uri option" where
  "u_uri_new mem opts =
     (if \<not> mem then (rc_fail, None)
      else (case u_uri_set F_path (Some (empty_uri opts)) (Some ''/'') of
              (rc, u) \<Rightarrow> if rc \<noteq> rc_ok then (rc_fail, None) else (rc_ok, u)))"

section \<open>Character classes\<close>

definition isalnum :: "char \<Rightarrow> bool" where
  "isalnum c = (isalpha c \<or> isdigit c)"

definition ups_marks :: string where
  "ups_marks = ''-._~!$&()*+,;='' @ [CHR 0x27]"

definition u_uri_expect_pct_encoded :: "u_lexer \<Rightarrow> unit lex_result" where
  "u_uri_expect_pct_encoded l =
     (if u_lexer_peek l \<noteq> CHR ''%'' then lex_err l ''Expect %''
      else
        lbind (lex_next l) (\<lambda>c l1.
          if \<not> isxdigit c then lex_err l1 (''Non hex digit '' @ [CHR 0x27, c, CHR 0x27] @ '' in percent encoding.'')
          else lbind (lex_next l1) (\<lambda>d l2.
            if \<not> isxdigit d then lex_err l2 (''Non hex digit '' @ [CHR 0x27, d, CHR 0x27] @ '' in percent encoding.'')
            else Ok () l2)))"

text \<open>A test that may move the cursor: over the first two characters of a percent encoding.\<close>

definition u_uri_match_ups :: "u_lexer \<Rightarrow> bool \<times> u_lexer" where
  "u_uri_match_ups l =
     (let c = u_lexer_peek l in
      if c = CHR ''%'' then
        (case u_uri_expect_pct_encoded l of Ok _ l' \<Rightarrow> (True, l') | Err l' \<Rightarrow> (False, l') | Fault _ \<Rightarrow> (False, l))
      else if c \<in> set ups_marks then (True, l)
      else (isalnum c, l))"

definition u_uri_match_pchar_minus_at_sign :: "u_lexer \<Rightarrow> bool \<times> u_lexer" where
  "u_uri_match_pchar_minus_at_sign l =
     (if u_lexer_peek l = CHR '':'' then (True, l) else u_uri_match_ups l)"

definition u_uri_match_pchar :: "u_lexer \<Rightarrow> bool \<times> u_lexer" where
  "u_uri_match_pchar l =
     (if u_lexer_peek l = CHR ''@'' then (True, l) else u_uri_match_pchar_minus_at_sign l)"

datatype char_class = C_ups | C_pchar_minus_at | C_pchar

fun match_class :: "char_class \<Rightarrow> u_lexer \<Rightarrow> bool \<times> u_lexer" where
  "match_class C_ups l = u_uri_match_ups l"
| "match_class C_pchar_minus_at l = u_uri_match_pchar_minus_at_sign l"
| "match_class C_pchar l = u_uri_match_pchar l"

definition ahead_len :: "u_lexer \<Rightarrow> nat" where
  "ahead_len l = length (u_lexer_lookahead l)"

lemma ahead_seterr [simp]: "ahead_len (u_lexer_seterr l m) = ahead_len l"
  by (simp add: ahead_len_def u_lexer_seterr_def u_lexer_lookahead_def)

lemma lex_next_ahead_len: "lex_next l = Ok c l' \<Longrightarrow> ahead_len l' < ahead_len l"
  by (auto simp: lex_next_eq ahead_len_def lex_err_def split: list.splits)

lemma lex_next_err_len: "lex_next l = Err l' \<Longrightarrow> ahead_len l' = ahead_len l"
  by (auto simp: lex_next_eq lex_err_def split: list.splits)

lemma pct_ahead:
  "u_uri_expect_pct_encoded l = Ok x l' \<Longrightarrow> ahead_len l' \<le> ahead_len l"
  "u_uri_expect_pct_encoded l = Err l' \<Longrightarrow> ahead_len l' \<le> ahead_len l"
  by (auto simp: u_uri_expect_pct_encoded_def lex_err_def lbind_def
      split: if_splits lex_result.splits dest!: lex_next_ahead_len lex_next_err_len)

lemma match_ups_ahead: "u_uri_match_ups l = (b, l') \<Longrightarrow> ahead_len l' \<le> ahead_len l"
  by (auto simp: u_uri_match_ups_def Let_def split: if_splits lex_result.splits dest: pct_ahead)

lemma match_class_ahead: "match_class k l = (b, l') \<Longrightarrow> ahead_len l' \<le> ahead_len l"
  by (cases k)
    (auto simp: u_uri_match_pchar_def u_uri_match_pchar_minus_at_sign_def split: if_splits dest: match_ups_ahead)

text \<open>The loops \<open>do U_LEXER_NEXT(l, NULL) while (match(l))\<close>, the character read last as a result.\<close>

function do_class :: "char_class \<Rightarrow> u_lexer \<Rightarrow> char lex_result" where
  "do_class k l =
     lbind (lex_next l) (\<lambda>c l1.
       case match_class k l1 of (b, l2) \<Rightarrow> if b then do_class k l2 else Ok c l2)"
  by pat_completeness auto
termination
  by (relation "measure (\<lambda>(k, l). ahead_len l)")
    (fastforce dest: lex_next_ahead_len match_class_ahead match_class_ahead [OF sym])+

declare do_class.simps [simp del]

section \<open>Copies of the match\<close>

text \<open>
  \<open>u_uri_adjust_greedy_match\<close> on a buffer that holds \<open>old\<close>: the match, or what was there before when
  the token is too long, without the character behind the token and a closing bracket. On an empty
  buffer \<open>mlen\<close> wraps around and the buffer is indexed far outside.
\<close>

definition u_uri_adjust_greedy_match :: "u_lexer \<Rightarrow> string \<Rightarrow> string outcome" where
  "u_uri_adjust_greedy_match l old =
     (let m = (case u_lexer_get_match l of None \<Rightarrow> old | Some m \<Rightarrow> m) in
      if \<not> u_lexer_eot l \<and> m = [] then Inl Out_of_bounds
      else
        (let mlen = (if u_lexer_eot l then length m else length m - 1);
             mlen' = (if mlen > 0 \<and> m ! (mlen - 1) = CHR '']'' then mlen - 1 else mlen)
         in Inr (take mlen' m)))"

definition store_match :: "uri_field \<Rightarrow> u_lexer \<Rightarrow> u_uri \<Rightarrow> u_uri lex_result" where
  "store_match f l u =
     (case u_uri_adjust_greedy_match l (field_get f u) of
        Inl e \<Rightarrow> Fault e | Inr t \<Rightarrow> Ok (field_put f t u) l)"

section \<open>The grammar\<close>

definition got :: "string \<Rightarrow> char \<Rightarrow> string" where
  "got ex c = ''Expect '' @ ex @ '', got '' @ [CHR 0x27, c, CHR 0x27] @ '' instead.''"

definition scheme_char :: "char \<Rightarrow> bool" where
  "scheme_char c = (isalnum c \<or> c = CHR ''+'' \<or> c = CHR ''-'' \<or> c = CHR ''.'')"

text \<open>The loops \<open>do U_LEXER_NEXT(l, &c) while (P(c))\<close>.\<close>

definition do_chars :: "(char \<Rightarrow> bool) \<Rightarrow> u_lexer \<Rightarrow> unit lex_result" where
  "do_chars P l = lbind (lex_next l) (\<lambda>c l1. lex_while P l1)"

definition u_uri_parse_scheme :: "u_lexer \<Rightarrow> u_uri \<Rightarrow> u_uri lex_result" where
  "u_uri_parse_scheme l u =
     (let c = u_lexer_peek l; l0 = u_lexer_record_lmatch l in
      if \<not> isalpha c then lex_err l0 (got ''an alpha char'' c)
      else
        lbind (do_chars scheme_char l0) (\<lambda>_ l1.
          let l2 = u_lexer_record_rmatch l1;
              m = (case u_lexer_get_match l2 of None \<Rightarrow> uri_scheme u | Some m \<Rightarrow> m)
          in if m = [] then Fault Out_of_bounds
             else Ok (u\<lparr> uri_scheme := butlast m \<rparr>) l2))"

definition port_char :: "char \<Rightarrow> bool" where
  "port_char c = (isalnum c \<or> c = CHR ''_'' \<or> c = CHR ''-'' \<or> c = CHR ''.'')"

definition u_uri_parse_port :: "u_lexer \<Rightarrow> u_uri \<Rightarrow> u_uri lex_result" where
  "u_uri_parse_port l u =
     (let c = u_lexer_peek l in
      if c \<noteq> CHR '':'' then lex_err l (got '':'' c)
      else
        lbind (lex_next l) (\<lambda>_ l1.
        lbind (lex_while port_char (u_lexer_record_lmatch l1)) (\<lambda>_ l2.
          store_match F_port (u_lexer_record_rmatch l2) u)))"

definition u_uri_parse_ipv4address :: "u_lexer \<Rightarrow> unit lex_result" where
  "u_uri_parse_ipv4address l = do_chars (\<lambda>c. isdigit c \<or> c = CHR ''.'') l"

definition u_uri_parse_regname :: "u_lexer \<Rightarrow> unit lex_result" where
  "u_uri_parse_regname l = lbind (do_class C_ups l) (\<lambda>_ l1. Ok () l1)"

text \<open>The loop \<open>while (u_uri_match_pchar(l) && c != ']') U_LEXER_NEXT(l, &c)\<close>.\<close>

function ipliteral_loop :: "char \<Rightarrow> u_lexer \<Rightarrow> unit lex_result" where
  "ipliteral_loop c l =
     (case u_uri_match_pchar l of (b, l1) \<Rightarrow>
        if b \<and> c \<noteq> CHR '']'' then lbind (lex_next l1) (\<lambda>d l2. ipliteral_loop d l2) else Ok () l1)"
  by pat_completeness auto
termination
  by (relation "measure (\<lambda>(c, l). ahead_len l)")
    (fastforce dest: lex_next_ahead_len match_class_ahead [of C_pchar, simplified]
      match_class_ahead [of C_pchar, simplified, OF sym])+

declare ipliteral_loop.simps [simp del]

definition u_uri_parse_ipliteral :: "u_lexer \<Rightarrow> unit lex_result" where
  "u_uri_parse_ipliteral l =
     (let c = u_lexer_peek l in
      if c \<noteq> CHR ''['' then lex_err l (got ''['' c)
      else
        lbind (lex_next l) (\<lambda>c1 l1.
        lbind (ipliteral_loop c1 (u_lexer_record_lmatch l1)) (\<lambda>_ l2.
          let d = u_lexer_peek l2 in
          if d \<noteq> CHR '']'' then lex_err l2 (got '']'' d)
          else lbind (lex_next l2) (\<lambda>_ l3. Ok () l3))))"

definition u_uri_parse_host :: "u_lexer \<Rightarrow> u_uri \<Rightarrow> u_uri lex_result" where
  "u_uri_parse_host l u =
     (let l0 = u_lexer_record_lmatch l in
      lbind
        (if isdigit (u_lexer_peek l0) then
           lbind (u_uri_parse_ipv4address l0) (\<lambda>_ l1.
             Ok (u\<lparr> uri_flags := uri_flags u OR U_URI_FLAGS_HOST_IS_IPADDRESS \<rparr>) l1)
         else
           (case u_uri_match_ups l0 of (b, l1) \<Rightarrow>
             if b then lbind (u_uri_parse_regname l1) (\<lambda>_ l2. Ok u l2)
             else if u_lexer_peek l1 = CHR ''['' then
               lbind (u_uri_parse_ipliteral l1) (\<lambda>_ l2.
                 Ok (u\<lparr> uri_flags := uri_flags u OR
                        (U_URI_FLAGS_HOST_IS_IPADDRESS OR U_URI_FLAGS_HOST_IS_IPLITERAL) \<rparr>) l2)
             else Ok u l1))
        (\<lambda>u1 l2. store_match F_host (u_lexer_record_rmatch l2) u1))"

text \<open>The loop \<open>do u_lexer_next(l, &c) while (P && !u_lexer_eot(l))\<close>, which ignores failures.\<close>

function next_until :: "char option \<Rightarrow> u_lexer \<Rightarrow> u_lexer" where
  "next_until stop l =
     (let l1 = snd (u_lexer_next l) in
      if Some (u_lexer_peek l1) \<noteq> stop \<and> \<not> u_lexer_eot l1 then next_until stop l1 else l1)"
  by pat_completeness auto
termination
  by (relation "measure (\<lambda>(stop, l). ahead_len l)")
    (auto simp: u_lexer_next_def u_lexer_next_ex_def ahead_len_def eot_lookahead Let_def)

declare next_until.simps [simp del]

definition u_uri_crumble_user_password :: "bool \<Rightarrow> u_uri \<Rightarrow> u_uri outcome" where
  "u_uri_crumble_user_password mem u =
     (if uri_userinfo u = [] then Inr u
      else
        (case u_lexer_new (Some (uri_userinfo u)) mem mem of
           None \<Rightarrow> Inr u
         | Some l0 \<Rightarrow>
             let l1 = u_lexer_record_rmatch (next_until (Some (CHR '':'')) (u_lexer_record_lmatch l0)) in
             obind (u_uri_adjust_greedy_match l1 (uri_user u)) (\<lambda>user.
               let u1 = u\<lparr> uri_user := user \<rparr> in
               if u_lexer_eot l1 then Inr u1
               else
                 (case lex_next l1 of
                    Ok _ l2 \<Rightarrow>
                      let l3 = u_lexer_record_rmatch (next_until None (u_lexer_record_lmatch l2)) in
                      obind (u_uri_adjust_greedy_match l3 (uri_pwd u1)) (\<lambda>pwd. Inr (u1\<lparr> uri_pwd := pwd \<rparr>))
                  | _ \<Rightarrow> Inr u1))))"

definition u_uri_parse_userinfo :: "bool \<Rightarrow> u_lexer \<Rightarrow> u_uri \<Rightarrow> u_uri lex_result" where
  "u_uri_parse_userinfo mem l u =
     lbind (do_class C_pchar_minus_at (u_lexer_record_lmatch l)) (\<lambda>c l1.
       if u_lexer_peek l1 \<noteq> CHR ''@'' then lex_err l1 (got ''@'' c)
       else
         lbind (store_match F_userinfo (u_lexer_record_rmatch l1) u) (\<lambda>u1 l2.
         lbind
           (if uri_opts u1 AND U_URI_OPT_DONT_PARSE_USERINFO = 0 then
              (case u_uri_crumble_user_password mem u1 of Inl e \<Rightarrow> Fault e | Inr u2 \<Rightarrow> Ok u2 l2)
            else Ok u1 l2)
           (\<lambda>u2 l3. lbind (lex_next l3) (\<lambda>_ l4. Ok u2 l4))))"

lemma do_class_len:
  "do_class k l = Ok c l' \<Longrightarrow> ahead_len l' < ahead_len l"
  "do_class k l = Err l' \<Longrightarrow> ahead_len l' \<le> ahead_len l \<and> (u_lexer_lookahead l \<noteq> [] \<longrightarrow> ahead_len l' < ahead_len l)"
proof (induction k l rule: do_class.induct)
  case (1 k l)
  show "do_class k l = Ok c l' \<Longrightarrow> ahead_len l' < ahead_len l"
  proof -
    assume ok: "do_class k l = Ok c l'"
    then obtain d l1 where n: "lex_next l = Ok d l1"
      by (subst (asm) do_class.simps) (auto simp: lbind_eq_Ok)
    obtain b l2 where m: "match_class k l1 = (b, l2)" by force
    have len: "ahead_len l2 < ahead_len l"
      using lex_next_ahead_len [OF n] match_class_ahead [OF m] by simp
    show ?thesis
    proof (cases b)
      case True
      then have "do_class k l2 = Ok c l'" using ok n m by (subst (asm) do_class.simps) simp
      with 1(1) [OF n m [symmetric] True] len show ?thesis by simp
    next
      case False
      then have "l' = l2" using ok n m by (subst (asm) do_class.simps) simp
      with len show ?thesis by simp
    qed
  qed
  show "do_class k l = Err l' \<Longrightarrow>
      ahead_len l' \<le> ahead_len l \<and> (u_lexer_lookahead l \<noteq> [] \<longrightarrow> ahead_len l' < ahead_len l)"
  proof -
    assume e: "do_class k l = Err l'"
    show ?thesis
    proof (cases "lex_next l")
      case (Ok d l1)
      obtain b l2 where m: "match_class k l1 = (b, l2)" by force
      have len: "ahead_len l2 < ahead_len l"
        using lex_next_ahead_len [OF Ok] match_class_ahead [OF m] by simp
      have b: "b" using e Ok m by (subst (asm) do_class.simps) (auto split: if_splits)
      then have "do_class k l2 = Err l'" using e Ok m by (subst (asm) do_class.simps) simp
      with 1(2) [OF Ok m [symmetric] b] len show ?thesis by simp
    next
      case (Err l1)
      then have "l' = l1" using e by (subst (asm) do_class.simps) simp
      with Err lex_next_err_len [OF Err] show ?thesis
        by (auto simp: lex_next_eq split: list.splits)
    next
      case (Fault x)
      with e show ?thesis by (subst (asm) do_class.simps) simp
    qed
  qed
qed

text \<open>The loop over the segments, which goes on after a segment that failed.\<close>

function abempty_loop :: "u_lexer \<Rightarrow> unit lex_result" where
  "abempty_loop l =
     (if u_lexer_peek l \<noteq> CHR ''/'' then Ok () l
      else
        (case do_class C_pchar l of
           Ok _ l1 \<Rightarrow> abempty_loop l1 | Err l1 \<Rightarrow> abempty_loop l1 | Fault e \<Rightarrow> Fault e))"
  by pat_completeness auto
termination
proof (relation "measure ahead_len")
  fix l l1 assume "\<not> u_lexer_peek l \<noteq> CHR ''/''" "do_class C_pchar l = Err l1"
  then show "(l1, l) \<in> measure ahead_len"
    using do_class_len(2) [of C_pchar l l1] by (cases "u_lexer_lookahead l") auto
qed (auto dest: do_class_len)

declare abempty_loop.simps [simp del]

definition u_uri_expect_segment :: "u_lexer \<Rightarrow> unit lex_result" where
  "u_uri_expect_segment l = lbind (do_class C_pchar l) (\<lambda>_ l1. Ok () l1)"

definition u_uri_expect_path_abempty :: "u_lexer \<Rightarrow> unit lex_result" where
  "u_uri_expect_path_abempty l = (if u_lexer_peek l \<noteq> CHR ''/'' then Ok () l else abempty_loop l)"

definition u_uri_expect_segment_nz :: "u_lexer \<Rightarrow> unit lex_result" where
  "u_uri_expect_segment_nz l =
     (case u_uri_match_pchar l of (b, l1) \<Rightarrow>
        if \<not> b then lex_err l1 (got ''a pchar'' (u_lexer_peek l1))
        else lbind (do_class C_pchar l1) (\<lambda>_ l2. Ok () l2))"

definition u_uri_parse_abempty :: "u_lexer \<Rightarrow> u_uri \<Rightarrow> u_uri lex_result" where
  "u_uri_parse_abempty l u =
     lbind (u_uri_expect_path_abempty (u_lexer_record_lmatch l)) (\<lambda>_ l1.
       store_match F_path (u_lexer_record_rmatch l1) u)"

definition u_uri_parse_path :: "u_lexer \<Rightarrow> u_uri \<Rightarrow> u_uri lex_result" where
  "u_uri_parse_path l u =
     (let l0 = u_lexer_record_lmatch l in
      lbind (if u_lexer_peek l0 = CHR ''/'' then lbind (lex_next l0) (\<lambda>_ l1. Ok () l1) else Ok () l0) (\<lambda>_ l1.
      lbind (u_uri_expect_segment_nz l1) (\<lambda>_ l2.
      lbind (u_uri_expect_path_abempty l2) (\<lambda>_ l3.
        store_match F_path (u_lexer_record_rmatch l3) u))))"

definition expect_slash :: "u_lexer \<Rightarrow> unit lex_result" where
  "expect_slash l =
     (let c = u_lexer_peek l in
      if c \<noteq> CHR ''/'' then lex_err l (got ''/'' c) else lbind (lex_next l) (\<lambda>_ l1. Ok () l1))"

definition u_uri_parse_authority :: "bool \<Rightarrow> u_lexer \<Rightarrow> u_uri \<Rightarrow> u_uri lex_result" where
  "u_uri_parse_authority mem l u =
     lbind (expect_slash l) (\<lambda>_ l1.
     lbind (expect_slash l1) (\<lambda>_ l2.
     lbind (if CHR ''@'' \<in> set (u_lexer_lookahead l2) then u_uri_parse_userinfo mem l2 u else Ok u l2) (\<lambda>u1 l3.
     lbind (u_uri_parse_host l3 u1) (\<lambda>u2 l4.
     lbind (if u_lexer_peek l4 = CHR '':'' then u_uri_parse_port l4 u2 else Ok u2 l4) (\<lambda>u3 l5.
       u_uri_parse_abempty l5 u3)))))"

definition u_uri_path_first :: "u_lexer \<Rightarrow> bool \<times> u_lexer" where
  "u_uri_path_first l = (if u_lexer_peek l = CHR ''/'' then (True, l) else u_uri_match_pchar l)"

definition u_uri_parse_hier_part :: "bool \<Rightarrow> u_lexer \<Rightarrow> u_uri \<Rightarrow> u_uri lex_result" where
  "u_uri_parse_hier_part mem l u =
     (if take 2 (u_lexer_lookahead l) = ''//'' then u_uri_parse_authority mem l u
      else
        (case u_uri_path_first l of (b, l1) \<Rightarrow>
           if b then u_uri_parse_path l1 u else Ok (u\<lparr> uri_path := [] \<rparr>) l1))"

text \<open>The loop \<open>while (c == '/' || c == '?' || u_uri_match_pchar(l)) U_LEXER_NEXT(l, &c)\<close>.\<close>

function qf_loop :: "u_lexer \<Rightarrow> unit lex_result" where
  "qf_loop l =
     (let c = u_lexer_peek l in
      case (if c = CHR ''/'' \<or> c = CHR ''?'' then (True, l) else u_uri_match_pchar l) of
        (b, l1) \<Rightarrow> if b then lbind (lex_next l1) (\<lambda>_ l2. qf_loop l2) else Ok () l1)"
  by pat_completeness auto
termination
  by (relation "measure ahead_len")
    (fastforce dest: lex_next_ahead_len match_class_ahead [of C_pchar, simplified]
      match_class_ahead [of C_pchar, simplified, OF sym] split: if_splits)+

declare qf_loop.simps [simp del]

definition u_uri_parse_query :: "u_lexer \<Rightarrow> u_uri \<Rightarrow> u_uri lex_result" where
  "u_uri_parse_query l u =
     (let c = u_lexer_peek l in
      if c \<noteq> CHR ''?'' then lex_err l (got ''?'' c)
      else
        lbind (lex_next l) (\<lambda>_ l1.
        lbind (qf_loop (u_lexer_record_lmatch l1)) (\<lambda>_ l2.
          store_match F_query (u_lexer_record_rmatch l2) u)))"

text \<open>The fragment is copied as it is, with the character behind it when there is one.\<close>

definition u_uri_parse_fragment :: "u_lexer \<Rightarrow> u_uri \<Rightarrow> u_uri lex_result" where
  "u_uri_parse_fragment l u =
     (let c = u_lexer_peek l in
      if c \<noteq> CHR ''#'' then lex_err l (got ''#'' c)
      else
        lbind (lex_next l) (\<lambda>_ l1.
        lbind (qf_loop (u_lexer_record_lmatch l1)) (\<lambda>_ l2.
          let l3 = u_lexer_record_rmatch l2 in
          Ok (case u_lexer_get_match l3 of None \<Rightarrow> u | Some m \<Rightarrow> u\<lparr> uri_fragment := m \<rparr>) l3)))"

definition u_uri_parser :: "bool \<Rightarrow> bool \<Rightarrow> u_lexer \<Rightarrow> uflags \<Rightarrow> u_uri lex_result" where
  "u_uri_parser mem mem_pw l opts =
     (case u_uri_new mem opts of
        (rc, None) \<Rightarrow> Err l
      | (rc, Some u) \<Rightarrow>
        lbind (u_uri_parse_scheme l u) (\<lambda>u1 l1.
        lbind (u_lexer_expect_char l1 (CHR '':'')) (\<lambda>_ l2.
        lbind (u_uri_parse_hier_part mem_pw l2 u1) (\<lambda>u2 l3.
        lbind (if u_lexer_peek l3 = CHR ''?'' then u_uri_parse_query l3 u2 else Ok u2 l3) (\<lambda>u3 l4.
          if u_lexer_peek l4 = CHR ''#'' then u_uri_parse_fragment l4 u3 else Ok u3 l4)))))"

text \<open>The allocations are those of the lexer, of the object and of the lexer for user and password.\<close>

definition u_uri_crumble :: "bool \<times> bool \<times> bool \<Rightarrow> string option \<Rightarrow> uflags \<Rightarrow> (rc \<times> u_uri option) outcome" where
  "u_uri_crumble al uri opts =
     (case al of (mem_lex, mem, mem_pw) \<Rightarrow>
      case u_lexer_new uri mem_lex mem_lex of
        None \<Rightarrow> Inr (rc_fail, None)
      | Some l \<Rightarrow>
        (case u_uri_parser mem mem_pw l opts of
           Ok u _ \<Rightarrow> Inr (rc_ok, Some u) | Err _ \<Rightarrow> Inr (rc_fail, None) | Fault e \<Rightarrow> Inl e))"

definition u_uri_is_absolute :: "bool \<times> bool \<times> bool \<Rightarrow> string option \<Rightarrow> int outcome" where
  "u_uri_is_absolute al uri =
     (if uri = None then Inr (- 1)
      else obind (u_uri_crumble al uri 0) (\<lambda>(rc, uo).
        if rc \<noteq> rc_ok then Inr 0
        else if u_uri_get F_scheme uo = None \<or> u_uri_get F_scheme uo = Some [] then Inr 0
        else if u_uri_get F_fragment uo \<noteq> None \<and> u_uri_get F_fragment uo \<noteq> Some [] then Inr 0
        else Inr 1))"

section \<open>Assembly\<close>

text \<open>A sequence of \<open>u_strlcat\<close> calls, up to the first that does not fit.\<close>

fun cats :: "string \<Rightarrow> string list \<Rightarrow> bool \<times> string" where
  "cats s [] = (True, s)"
| "cats s (x # xs) = (case u_strlcat s x U_URI_STRMAX of (ok, s1) \<Rightarrow> if ok then cats s1 xs else (False, s1))"

text \<open>The pieces of the authority, in the order of the calls.\<close>

definition auth_parts :: "u_uri \<Rightarrow> string list" where
  "auth_parts u =
     (let lit = (uri_flags u AND U_URI_FLAGS_HOST_IS_IPLITERAL \<noteq> 0) in
      [''//''] @
      (if uri_userinfo u \<noteq> [] then [uri_userinfo u, ''@'']
       else if uri_user u \<noteq> [] then
         [uri_user u] @ (if uri_pwd u \<noteq> [] then ['':'', uri_pwd u] else []) @ [''@'']
       else []) @
      (if lit then [''[''] else []) @ [uri_host u] @ (if lit then ['']''] else []) @
      (if uri_port u \<noteq> [] then ['':'', uri_port u] else []))"

definition u_uri_knead_authority :: "u_uri option \<Rightarrow> string \<Rightarrow> rc \<times> string \<times> u_uri option" where
  "u_uri_knead_authority uo s =
     (case uo of None \<Rightarrow> (rc_fail, s, None)
      | Some u \<Rightarrow>
        if uri_host u = [] then (rc_fail, s, uo)
        else
          (let u1 = (if CHR '':'' \<in> set (uri_host u)
                     then u\<lparr> uri_flags := uri_flags u OR U_URI_FLAGS_HOST_IS_IPLITERAL \<rparr> else u);
               (ok, s1) = cats s (auth_parts u1)
           in (if ok then rc_ok else rc_fail, s1, Some u1)))"

definition u_uri_knead :: "u_uri option \<Rightarrow> rc \<times> string \<times> u_uri option" where
  "u_uri_knead uo =
     (case uo of None \<Rightarrow> (rc_fail, [], None)
      | Some u \<Rightarrow>
        (case (if uri_scheme u \<noteq> [] then cats [] [uri_scheme u, '':''] else (True, [])) of (ok1, s1) \<Rightarrow>
         if \<not> ok1 then (rc_fail, s1, uo)
         else
           (case (if uri_authority u \<noteq> []
                  then (case cats s1 [''//'', uri_authority u] of (ok, s2) \<Rightarrow> (if ok then rc_ok else rc_fail, s2, uo))
                  else u_uri_knead_authority uo s1) of
              (rc, s2, u2) \<Rightarrow>
              if rc \<noteq> rc_ok then (rc_fail, s2, u2)
              else
                (case cats s2
                   ([uri_path u] @ (if uri_query u \<noteq> [] then [''?'', uri_query u] else []) @
                    (if uri_fragment u \<noteq> [] then [''#'', uri_fragment u] else [])) of
                   (ok, s3) \<Rightarrow> (if ok then rc_ok else rc_fail, s3, u2)))))"

section \<open>Runs of characters of a class\<close>

definition in_class :: "char_class \<Rightarrow> char \<Rightarrow> bool" where
  "in_class k c = (c \<noteq> CHR ''%'' \<and> (c \<in> set ups_marks \<or> isalnum c
     \<or> (c = CHR '':'' \<and> k \<noteq> C_ups) \<or> (c = CHR ''@'' \<and> k = C_pchar)))"

fun units :: "char_class \<Rightarrow> string \<Rightarrow> bool" where
  "units k [] = True"
| "units k (c # w) =
     (if c = CHR ''%'' then
        (case w of h1 # h2 # w' \<Rightarrow> isxdigit h1 \<and> isxdigit h2 \<and> units k w' | _ \<Rightarrow> False)
      else in_class k c \<and> units k w)"

definition stop :: "char_class \<Rightarrow> string \<Rightarrow> bool" where
  "stop k r = (r = [] \<or> (hd r \<noteq> CHR ''%'' \<and> \<not> in_class k (hd r)))"

lemma marks_not_NUL [simp]: "NUL \<notin> set ups_marks"
  by (simp add: ups_marks_def)

lemma NUL_classes [simp]: "\<not> isalnum NUL" "\<not> isalpha NUL" "\<not> isxdigit NUL" "\<not> in_class k NUL"
  by (simp_all add: isalnum_def isalpha_def isupper_def islower_def isxdigit_def isdigit_def in_class_def)

lemma match_class_Nil: "u_lexer_lookahead l = [] \<Longrightarrow> match_class k l = (False, l)"
  by (cases k) (simp_all add: u_uri_match_pchar_def u_uri_match_pchar_minus_at_sign_def
      u_uri_match_ups_def Let_def)

lemma match_class_Cons:
  "u_lexer_lookahead l = c # r \<Longrightarrow> c \<noteq> CHR ''%'' \<Longrightarrow> match_class k l = (in_class k c, l)"
  by (cases k) (auto simp: u_uri_match_pchar_def u_uri_match_pchar_minus_at_sign_def
      u_uri_match_ups_def in_class_def ups_marks_def isalnum_def isalpha_def isupper_def islower_def isdigit_def)

lemma lex_next_Cons: "u_lexer_lookahead l = c # r \<Longrightarrow> lex_next l = Ok (u_lexer_peek (move 1 l)) (move 1 l)"
  by (simp add: lex_next_eq)

lemma match_class_pct:
  assumes "u_lexer_lookahead l = CHR ''%'' # h1 # h2 # r" "isxdigit h1" "isxdigit h2"
  shows "match_class k l = (True, move 2 l)"
proof -
  have "lex_next l = Ok h1 (move 1 l)" "lex_next (move 1 l) = Ok h2 (move 2 l)"
    using assms(1) by (simp_all add: lex_next_eq eval_nat_numeral)
  with assms show ?thesis
    by (cases k) (simp_all add: u_uri_match_pchar_def u_uri_match_pchar_minus_at_sign_def
        u_uri_match_ups_def u_uri_expect_pct_encoded_def)
qed

lemma match_class_stop: "u_lexer_lookahead l = r \<Longrightarrow> stop k r \<Longrightarrow> match_class k l = (False, l)"
  by (cases r) (auto simp: stop_def match_class_Nil match_class_Cons)

lemma do_class_ok:
  "u_lexer_lookahead l = c # w @ r \<Longrightarrow> units k w \<Longrightarrow> stop k r \<Longrightarrow>
   \<exists>d. do_class k l = Ok d (move (Suc (length w)) l)"
proof (induction "length w" arbitrary: w c l rule: less_induct)
  case less
  note n = lex_next_Cons [OF less.prems(1)]
  have v: "u_lexer_lookahead (move 1 l) = w @ r" using less.prems(1) by simp
  show ?case
  proof (cases w)
    case Nil
    with v less.prems(3) have "match_class k (move 1 l) = (False, move 1 l)"
      by (intro match_class_stop) simp_all
    with n Nil show ?thesis by (subst do_class.simps) simp
  next
    case (Cons e w')
    show ?thesis
    proof (cases "e = CHR ''%''")
      case True
      then obtain h1 h2 w2 where w: "w' = h1 # h2 # w2" "isxdigit h1" "isxdigit h2" "units k w2"
        using less.prems(2) Cons by (auto split: list.splits)
      have m: "match_class k (move 1 l) = (True, move 2 (move 1 l))"
        using match_class_pct [of "move 1 l" h1 h2 "w2 @ r" k] v Cons True w by simp
      have v2: "u_lexer_lookahead (move 2 (move 1 l)) = h2 # w2 @ r"
        using less.prems(1) Cons w(1) by (simp add: eval_nat_numeral)
      then obtain d where "do_class k (move 2 (move 1 l)) = Ok d (move (Suc (length w2)) (move 2 (move 1 l)))"
        using less.hyps [OF _ v2 w(4) less.prems(3)] by (auto simp: w(1) Cons)
      with n m Cons w(1) show ?thesis by (subst do_class.simps) simp
    next
      case False
      then have e: "in_class k e" "units k w'" using less.prems(2) Cons by auto
      have m: "match_class k (move 1 l) = (True, move 1 l)"
        using v Cons False e(1) by (subst match_class_Cons) simp_all
      obtain d where "do_class k (move 1 l) = Ok d (move (Suc (length w')) (move 1 l))"
        using less.hyps [of w' "move 1 l" e] less.prems(3) v e(2) Cons by auto
      with n m Cons show ?thesis by (subst do_class.simps) simp
    qed
  qed
qed

text \<open>A test of the first character of a run, and then the run.\<close>

lemma class_run:
  assumes "u_lexer_lookahead l = t @ r" "units k t" "stop k r" "t \<noteq> []"
  shows "\<exists>l1 d. match_class k l = (True, l1) \<and> do_class k l1 = Ok d (move (length t) l)"
proof -
  obtain c w where t: "t = c # w" using assms(4) by (cases t) auto
  show ?thesis
  proof (cases "c = CHR ''%''")
    case True
    then obtain h1 h2 w' where w: "w = h1 # h2 # w'" "isxdigit h1" "isxdigit h2" "units k w'"
      using assms(2) t by (auto split: list.splits)
    have m: "match_class k l = (True, move 2 l)"
      using match_class_pct [of l h1 h2 "w' @ r" k] assms(1) t True w by simp
    have "u_lexer_lookahead (move 2 l) = h2 # w' @ r"
      using assms(1) t w(1) by (simp add: eval_nat_numeral)
    from do_class_ok [OF this w(4) assms(3)] m t w(1) show ?thesis by (auto simp: eval_nat_numeral)
  next
    case False
    then have "in_class k c" "units k w" using assms(2) t by auto
    with assms(1) t False have m: "match_class k l = (True, l)" by (subst match_class_Cons) simp_all
    have "u_lexer_lookahead l = c # w @ r" using assms(1) t by simp
    from do_class_ok [OF this \<open>units k w\<close> assms(3)] m t show ?thesis by auto
  qed
qed

section \<open>Tokens\<close>

definition no_bracket :: "string \<Rightarrow> string" where
  "no_bracket t = (if t \<noteq> [] \<and> List.last t = CHR '']'' then butlast t else t)"

lemma no_bracket_id: "CHR '']'' \<notin> set t \<Longrightarrow> no_bracket t = t"
  by (metis last_in_set no_bracket_def)

definition fit :: "u_lexer \<Rightarrow> bool" where
  "fit l = (l_pos l \<le> slen l)"

lemma get_match_token:
  assumes "u_lexer_lookahead l = t @ r" "fit l" "length t + 1 < U_TOKEN_SZ"
  shows "u_lexer_get_match (u_lexer_record_rmatch (move (length t) (u_lexer_record_lmatch l)))
    = Some (t @ take 1 r)"
proof -
  have "take (Suc (length t)) (u_lexer_lookahead l) = t @ take 1 r" using assms(1) by simp
  with assms(3) show ?thesis
    by (simp add: u_lexer_get_match_def u_lexer_record_rmatch_def u_lexer_record_lmatch_def move_def
        u_lexer_strlen_match_def u_lexer_lookahead_def)
qed

lemma adjust_token:
  assumes "u_lexer_lookahead l = t @ r" "fit l" "length t + 1 < U_TOKEN_SZ"
  shows "u_uri_adjust_greedy_match (u_lexer_record_rmatch (move (length t) (u_lexer_record_lmatch l))) old
    = Inr (no_bracket t)"
proof -
  have e: "u_lexer_eot (u_lexer_record_rmatch (move (length t) (u_lexer_record_lmatch l))) \<longleftrightarrow> r = []"
    using assms(1) by (simp add: eot_lookahead)
  show ?thesis
  proof (cases "t = []")
    case True
    with assms(1) e get_match_token [OF assms] show ?thesis
      by (cases r) (simp_all add: u_uri_adjust_greedy_match_def no_bracket_def)
  next
    case False
    then have "(t @ r') ! (length t - 1) = List.last t" "t ! (length t - 1) = List.last t" for r'
      by (simp_all add: nth_append last_conv_nth)
    with False e get_match_token [OF assms] show ?thesis
      by (cases r) (auto simp: u_uri_adjust_greedy_match_def Let_def no_bracket_def butlast_conv_take)
  qed
qed

lemma store_token:
  assumes "u_lexer_lookahead l = t @ r" "fit l" "length t + 1 < U_TOKEN_SZ"
  shows "\<exists>l'. store_match f (u_lexer_record_rmatch (move (length t) (u_lexer_record_lmatch l))) u
      = Ok (field_put f (no_bracket t) u) l' \<and> u_lexer_lookahead l' = r \<and> fit l'"
proof -
  have "fit (move (length t) l)"
    using assms(1,2) by (simp add: fit_def u_lexer_lookahead_def) (metis length_append length_drop le_diff_conv2 le_add1 add.commute)
  then have "fit (u_lexer_record_rmatch (move (length t) (u_lexer_record_lmatch l)))"
    by (simp add: fit_def)
  with assms(1) show ?thesis by (simp add: store_match_def adjust_token [OF assms])
qed

section \<open>The parts of a URI\<close>

lemma fit_move: "u_lexer_lookahead l = t @ r \<Longrightarrow> fit l \<Longrightarrow> fit (move (length t) l)"
proof -
  assume v: "u_lexer_lookahead l = t @ r" and f: "fit l"
  have "length (u_lexer_lookahead l) = slen l - l_pos l" by (simp add: u_lexer_lookahead_def)
  with v have "length t \<le> slen l - l_pos l" by simp
  with f show ?thesis by (simp add: fit_def)
qed

lemma do_chars_ok:
  assumes "u_lexer_lookahead l = c # w @ r" "list_all P w" "r = [] \<or> \<not> P (hd r)" "\<not> P NUL"
  shows "do_chars P l = Ok () (move (length (c # w)) l)"
proof -
  have "takeWhile P (w @ r) = w" using assms(2,3) by (induction w) (cases r; auto)+
  then show ?thesis
    using lex_while_eq [of P "move 1 l"] assms(4) assms(1) by (simp add: do_chars_def lex_next_eq)
qed

lemma lex_while_ok:
  assumes "u_lexer_lookahead l = w @ r" "list_all P w" "r = [] \<or> \<not> P (hd r)" "\<not> P NUL"
  shows "lex_while P l = Ok () (move (length w) l)"
proof -
  have "takeWhile P (w @ r) = w" using assms(2,3) by (induction w) (cases r; auto)+
  then show ?thesis using lex_while_eq [of P l] assms(4) assms(1) by simp
qed

lemma parse_scheme_ok:
  assumes "u_lexer_lookahead l = s @ CHR '':'' # r" "fit l" "s \<noteq> []" "isalpha (hd s)"
    "list_all scheme_char (tl s)" "length s + 1 < U_TOKEN_SZ"
  shows "\<exists>l'. u_uri_parse_scheme l u = Ok (u\<lparr> uri_scheme := s \<rparr>) l' \<and> u_lexer_lookahead l' = CHR '':'' # r \<and> fit l'"
proof -
  obtain c w where s: "s = c # w" using assms(3) by (cases s) auto
  have nc: "\<not> scheme_char (CHR '':'')" "\<not> scheme_char NUL"
    by (simp_all add: scheme_char_def isalnum_def isalpha_def isupper_def islower_def isdigit_def)
  have "do_chars scheme_char (u_lexer_record_lmatch l) = Ok () (move (length s) (u_lexer_record_lmatch l))"
    using do_chars_ok [of "u_lexer_record_lmatch l" c w "CHR '':'' # r" scheme_char] assms(1,5) s nc by simp
  moreover have "u_lexer_get_match (u_lexer_record_rmatch (move (length s) (u_lexer_record_lmatch l)))
      = Some (s @ [CHR '':''])"
    using get_match_token [OF assms(1,2,6)] by simp
  ultimately show ?thesis
    using assms(1,4) s fit_move [OF assms(1,2)]
    by (simp add: u_uri_parse_scheme_def Let_def fit_def)
qed

lemma parse_port_ok:
  assumes "u_lexer_lookahead l = CHR '':'' # p @ r" "fit l" "list_all port_char p"
    "r = [] \<or> \<not> port_char (hd r)" "length p + 1 < U_TOKEN_SZ"
  shows "\<exists>l'. u_uri_parse_port l u = Ok (u\<lparr> uri_port := p \<rparr>) l' \<and> u_lexer_lookahead l' = r \<and> fit l'"
proof -
  let ?l = "move 1 l"
  have v: "u_lexer_lookahead ?l = p @ r" using assms(1) by simp
  have f: "fit ?l" using fit_move [of l "'':''" "p @ r"] assms(1,2) by simp
  have npc: "\<not> port_char NUL" "\<not> port_char (CHR '']'')"
    by (simp_all add: port_char_def isalnum_def isalpha_def isupper_def islower_def isdigit_def)
  have "lex_while port_char (u_lexer_record_lmatch ?l) = Ok () (move (length p) (u_lexer_record_lmatch ?l))"
    using lex_while_ok [of "u_lexer_record_lmatch ?l" p r port_char] v assms(3,4) npc by simp
  moreover have "no_bracket p = p"
    using assms(3) npc by (intro no_bracket_id) (auto simp: list_all_iff)
  ultimately show ?thesis
    using store_token [OF v f assms(5), of F_port u] assms(1)
    by (simp add: u_uri_parse_port_def Let_def lex_next_Cons)
qed

lemma units_no_bracket: "units k t \<Longrightarrow> CHR '']'' \<notin> set t"
proof (induction k t rule: units.induct)
  case (2 k c w)
  have nx: "\<not> isxdigit (CHR '']'')" "\<not> in_class k (CHR '']'')"
    by (auto simp: isxdigit_def isdigit_def in_class_def ups_marks_def isalnum_def isalpha_def isupper_def islower_def)
  show ?case
  proof (cases "c = CHR ''%''")
    case True
    with 2 nx show ?thesis by (auto split: list.splits)
  next
    case False
    with 2 nx show ?thesis by auto
  qed
qed simp

lemma units_token: "units k t \<Longrightarrow> no_bracket t = t"
  by (rule no_bracket_id) (rule units_no_bracket)

text \<open>The path behind an authority: segments, each with its slash.\<close>

definition segs_text :: "string list \<Rightarrow> string" where
  "segs_text ss = concat (map (\<lambda>s. CHR ''/'' # s) ss)"

lemma segs_text_simps [simp]:
  "segs_text [] = []" "segs_text (s # ss) = CHR ''/'' # s @ segs_text ss"
  by (simp_all add: segs_text_def)

lemma slash_not_class: "\<not> in_class k (CHR ''/'')"
  by (auto simp: in_class_def ups_marks_def isalnum_def isalpha_def isupper_def islower_def isdigit_def)

lemma abempty_loop_ok:
  "u_lexer_lookahead l = segs_text ss @ r \<Longrightarrow> list_all (units C_pchar) ss \<Longrightarrow> stop C_pchar r \<Longrightarrow>
   r = [] \<or> hd r \<noteq> CHR ''/'' \<Longrightarrow> abempty_loop l = Ok () (move (length (segs_text ss)) l)"
proof (induction ss arbitrary: l)
  case Nil
  then have "u_lexer_peek l \<noteq> CHR ''/''" by (cases r) (auto simp: peek_lookahead)
  then show ?case by (subst abempty_loop.simps) simp
next
  case (Cons s ss)
  have v: "u_lexer_lookahead l = CHR ''/'' # s @ (segs_text ss @ r)" using Cons.prems(1) by simp
  have st: "stop C_pchar (segs_text ss @ r)"
    using Cons.prems(3) slash_not_class by (cases ss) (auto simp: stop_def)
  obtain d where d: "do_class C_pchar l = Ok d (move (Suc (length s)) l)"
    using do_class_ok [OF v _ st] Cons.prems(2) by auto
  have "u_lexer_lookahead (move (Suc (length s)) l) = segs_text ss @ r" using v by simp
  then have "abempty_loop (move (Suc (length s)) l)
      = Ok () (move (length (segs_text ss)) (move (Suc (length s)) l))"
    using Cons.IH Cons.prems(2-4) by simp
  with d v show ?case by (subst abempty_loop.simps) (simp add: add.commute add.left_commute)
qed

lemma segs_no_bracket: "list_all (units C_pchar) ss \<Longrightarrow> no_bracket (segs_text ss) = segs_text ss"
proof -
  assume "list_all (units C_pchar) ss"
  then have "CHR '']'' \<notin> set (segs_text ss)"
    by (induction ss) (auto dest: units_no_bracket)
  then show ?thesis by (rule no_bracket_id)
qed

lemma parse_abempty_ok:
  assumes "u_lexer_lookahead l = segs_text ss @ r" "fit l" "list_all (units C_pchar) ss"
    "stop C_pchar r" "r = [] \<or> hd r \<noteq> CHR ''/''" "length (segs_text ss) + 1 < U_TOKEN_SZ"
  shows "\<exists>l'. u_uri_parse_abempty l u = Ok (u\<lparr> uri_path := segs_text ss \<rparr>) l'
    \<and> u_lexer_lookahead l' = r \<and> fit l'"
proof -
  let ?l = "u_lexer_record_lmatch l"
  have "abempty_loop ?l = Ok () (move (length (segs_text ss)) ?l)"
    by (rule abempty_loop_ok) (use assms in simp_all)
  then have "u_uri_expect_path_abempty ?l = Ok () (move (length (segs_text ss)) ?l)"
    by (cases ss) (auto simp: u_uri_expect_path_abempty_def abempty_loop.simps [of ?l])
  then show ?thesis
    using store_token [OF assms(1,2,6), of F_path u] segs_no_bracket [OF assms(3)]
    by (simp add: u_uri_parse_abempty_def)
qed

text \<open>Queries and fragments.\<close>

fun qunits :: "string \<Rightarrow> bool" where
  "qunits [] = True"
| "qunits (c # w) =
     (if c = CHR ''%'' then
        (case w of h1 # h2 # w' \<Rightarrow> isxdigit h1 \<and> isxdigit h2 \<and> qunits w' | _ \<Rightarrow> False)
      else (in_class C_pchar c \<or> c = CHR ''/'' \<or> c = CHR ''?'') \<and> qunits w)"

definition qstop :: "string \<Rightarrow> bool" where
  "qstop r = (r = [] \<or> (hd r \<noteq> CHR ''%'' \<and> hd r \<noteq> CHR ''/'' \<and> hd r \<noteq> CHR ''?'' \<and> \<not> in_class C_pchar (hd r)))"

lemma qf_loop_ok:
  "u_lexer_lookahead l = t @ r \<Longrightarrow> qunits t \<Longrightarrow> qstop r \<Longrightarrow> qf_loop l = Ok () (move (length t) l)"
proof (induction "length t" arbitrary: t l rule: less_induct)
  case less
  show ?case
  proof (cases t)
    case Nil
    have "u_uri_match_pchar l = (False, l)"
      using less.prems(1,3) Nil match_class_stop [of l r C_pchar] by (auto simp: stop_def qstop_def)
    moreover have "u_lexer_peek l \<noteq> CHR ''/''" "u_lexer_peek l \<noteq> CHR ''?''"
      using less.prems(1,3) Nil by (cases r; auto simp: peek_lookahead qstop_def)+
    ultimately show ?thesis using Nil by (subst qf_loop.simps) simp
  next
    case (Cons c w)
    note pk = peek_Cons [of l c "w @ r"]
    show ?thesis
    proof (cases "c = CHR ''%''")
      case True
      then obtain h1 h2 w' where w: "w = h1 # h2 # w'" "isxdigit h1" "isxdigit h2" "qunits w'"
        using less.prems(2) Cons by (auto split: list.splits)
      have m: "u_uri_match_pchar l = (True, move 2 l)"
        using match_class_pct [of l h1 h2 "w' @ r" C_pchar] less.prems(1) Cons True w by simp
      have v2: "u_lexer_lookahead (move 2 l) = h2 # w' @ r" and v3: "u_lexer_lookahead (move 3 l) = w' @ r"
        using less.prems(1) Cons w(1) by (simp_all add: eval_nat_numeral)
      have n: "lex_next (move 2 l) = Ok (u_lexer_peek (move 3 l)) (move 3 l)"
        using lex_next_Cons [OF v2] by simp
      have "qf_loop (move 3 l) = Ok () (move (length w') (move 3 l))"
        using less.hyps [OF _ v3 w(4) less.prems(3)] w Cons by simp
      with m n True pk less.prems(1) Cons w show ?thesis by (subst qf_loop.simps) (simp add: eval_nat_numeral)
    next
      case False
      then have c: "in_class C_pchar c \<or> c = CHR ''/'' \<or> c = CHR ''?''" "qunits w"
        using less.prems(2) Cons by auto
      have m: "u_uri_match_pchar l = (in_class C_pchar c, l)"
        using match_class_Cons [of l c "w @ r" C_pchar] less.prems(1) Cons False by simp
      have v: "u_lexer_lookahead (move 1 l) = w @ r" using less.prems(1) Cons by simp
      have n: "lex_next l = Ok (u_lexer_peek (move 1 l)) (move 1 l)"
        using lex_next_Cons [of l c "w @ r"] less.prems(1) Cons by simp
      have "qf_loop (move 1 l) = Ok () (move (length w) (move 1 l))"
        using less.hyps [OF _ v c(2) less.prems(3)] Cons by simp
      with m n c pk less.prems(1) Cons show ?thesis by (subst qf_loop.simps) auto
    qed
  qed
qed

lemma qunits_no_bracket: "qunits t \<Longrightarrow> CHR '']'' \<notin> set t"
proof (induction t rule: qunits.induct)
  case (2 c w)
  have nx: "\<not> isxdigit (CHR '']'')" "\<not> in_class C_pchar (CHR '']'')"
    by (auto simp: isxdigit_def isdigit_def in_class_def ups_marks_def isalnum_def isalpha_def isupper_def islower_def)
  show ?case
  proof (cases "c = CHR ''%''")
    case True
    with 2 nx show ?thesis by (auto split: list.splits)
  next
    case False
    with 2 nx show ?thesis by auto
  qed
qed simp

lemma parse_query_ok:
  assumes "u_lexer_lookahead l = CHR ''?'' # t @ r" "fit l" "qunits t" "qstop r" "length t + 1 < U_TOKEN_SZ"
  shows "\<exists>l'. u_uri_parse_query l u = Ok (u\<lparr> uri_query := t \<rparr>) l' \<and> u_lexer_lookahead l' = r \<and> fit l'"
proof -
  let ?l = "move 1 l"
  have v: "u_lexer_lookahead ?l = t @ r" using assms(1) by simp
  have f: "fit ?l" using fit_move [of l "''?''" "t @ r"] assms(1,2) by simp
  have "qf_loop (u_lexer_record_lmatch ?l) = Ok () (move (length t) (u_lexer_record_lmatch ?l))"
    by (rule qf_loop_ok) (use v assms(3,4) in simp_all)
  moreover have "no_bracket t = t" by (rule no_bracket_id [OF qunits_no_bracket [OF assms(3)]])
  ultimately show ?thesis
    using store_token [OF v f assms(5), of F_query u] assms(1)
    by (simp add: u_uri_parse_query_def Let_def lex_next_Cons)
qed

lemma parse_fragment_ok:
  assumes "u_lexer_lookahead l = CHR ''#'' # t" "fit l" "qunits t" "length t + 1 < U_TOKEN_SZ"
  shows "\<exists>l'. u_uri_parse_fragment l u = Ok (u\<lparr> uri_fragment := t \<rparr>) l'"
proof -
  let ?l = "move 1 l"
  have v: "u_lexer_lookahead ?l = t @ []" using assms(1) by simp
  have f: "fit ?l" using fit_move [of l "''#''" "t"] assms(1,2) by simp
  have "qf_loop (u_lexer_record_lmatch ?l) = Ok () (move (length t) (u_lexer_record_lmatch ?l))"
    by (rule qf_loop_ok [of _ _ "[]"]) (use v assms(3) in \<open>simp_all add: qstop_def\<close>)
  with get_match_token [OF v f assms(4)] assms(1) show ?thesis
    by (simp add: u_uri_parse_fragment_def Let_def lex_next_Cons)
qed

text \<open>Hosts: names, IPv4 addresses and literals, and what may follow them.\<close>

definition sep :: "string \<Rightarrow> bool" where
  "sep r = (r = [] \<or> hd r \<in> {CHR '':'', CHR ''/'', CHR ''?'', CHR ''#''})"

definition ip4 :: "string \<Rightarrow> bool" where
  "ip4 h = (h \<noteq> [] \<and> isdigit (hd h) \<and> list_all (\<lambda>c. isdigit c \<or> c = CHR ''.'') (tl h))"

lemma class_marks [simp]:
  "\<not> in_class C_ups (CHR '':'')" "\<not> in_class k (CHR ''/'')" "\<not> in_class k (CHR ''?'')"
  "\<not> in_class k (CHR ''#'')" "\<not> in_class k (CHR ''['')" "\<not> in_class k (CHR '']'')" "\<not> in_class C_pchar_minus_at (CHR ''@'')"
  "\<not> isdigit (CHR '':'')" "\<not> isdigit (CHR ''/'')" "\<not> isdigit (CHR ''?'')" "\<not> isdigit (CHR ''#'')" "\<not> isdigit (CHR '']'')"
  by (auto simp: in_class_def ups_marks_def isalnum_def isalpha_def isupper_def islower_def isdigit_def)

lemma sep_stop: "sep r \<Longrightarrow> stop C_ups r"
  by (auto simp: sep_def stop_def)

lemma parse_regname_ok:
  assumes "u_lexer_lookahead l = h @ r" "fit l" "units C_ups h" "h \<noteq> []" "\<not> isdigit (hd h)" "sep r"
    "length h + 1 < U_TOKEN_SZ"
  shows "\<exists>l'. u_uri_parse_host l u = Ok (u\<lparr> uri_host := h \<rparr>) l' \<and> u_lexer_lookahead l' = r \<and> fit l'"
proof -
  let ?l = "u_lexer_record_lmatch l"
  have v: "u_lexer_lookahead ?l = h @ r" using assms(1) by simp
  obtain l1 d where m: "match_class C_ups ?l = (True, l1)" and d: "do_class C_ups l1 = Ok d (move (length h) ?l)"
    using class_run [OF v assms(3) sep_stop [OF assms(6)] assms(4)] by blast
  have "\<not> isdigit (u_lexer_peek ?l)" using assms(1,4,5) by (cases h) (simp_all add: peek_lookahead)
  moreover note store_token [OF assms(1,2,7), of F_host u] units_token [OF assms(3)]
  ultimately show ?thesis
    using m d by (simp add: u_uri_parse_host_def Let_def u_uri_parse_regname_def)
qed

lemma parse_ip4_ok:
  assumes "u_lexer_lookahead l = h @ r" "fit l" "ip4 h" "sep r" "length h + 1 < U_TOKEN_SZ"
  shows "\<exists>l'. u_uri_parse_host l u
      = Ok (u\<lparr> uri_flags := uri_flags u OR U_URI_FLAGS_HOST_IS_IPADDRESS, uri_host := h \<rparr>) l'
    \<and> u_lexer_lookahead l' = r \<and> fit l'"
proof -
  let ?l = "u_lexer_record_lmatch l" and ?P = "\<lambda>c. isdigit c \<or> c = CHR ''.''"
  obtain c w where h: "h = c # w" "isdigit c" "list_all ?P w" using assms(3) by (cases h) (auto simp: ip4_def)
  have "do_chars ?P ?l = Ok () (move (length h) ?l)"
    using do_chars_ok [of ?l c w r ?P] assms(1,4) h by (auto simp: sep_def)
  moreover have "CHR '']'' \<notin> set h"
  proof
    assume "CHR '']'' \<in> set h"
    then have "isdigit (CHR '']'') \<or> CHR '']'' = CHR ''.''" using h by (auto simp: list_all_iff)
    then show False by simp
  qed
  then have "no_bracket h = h" by (rule no_bracket_id)
  moreover note store_token [OF assms(1,2,5), of F_host "u\<lparr> uri_flags := uri_flags u OR U_URI_FLAGS_HOST_IS_IPADDRESS \<rparr>"]
  ultimately show ?thesis
    using assms(1) h by (simp add: u_uri_parse_host_def Let_def u_uri_parse_ipv4address_def)
qed

lemma ipliteral_loop_ok:
  "u_lexer_lookahead l = t @ CHR '']'' # r \<Longrightarrow> units C_pchar t \<Longrightarrow> c = u_lexer_peek l \<Longrightarrow>
   ipliteral_loop c l = Ok () (move (length t) l)"
proof (induction "length t" arbitrary: t l c rule: less_induct)
  case less
  show ?case
  proof (cases t)
    case Nil
    then have "u_uri_match_pchar l = (False, l)"
      using less.prems(1) match_class_stop [of l "CHR '']'' # r" C_pchar] by (simp add: stop_def)
    with Nil show ?thesis by (subst ipliteral_loop.simps) simp
  next
    case (Cons e w)
    have pk: "c = e" using less.prems(1,3) Cons by simp
    have ne: "e \<noteq> CHR '']''" using units_no_bracket [OF less.prems(2)] Cons by auto
    show ?thesis
    proof (cases "e = CHR ''%''")
      case True
      then obtain h1 h2 w' where w: "w = h1 # h2 # w'" "isxdigit h1" "isxdigit h2" "units C_pchar w'"
        using less.prems(2) Cons by (auto split: list.splits)
      have m: "u_uri_match_pchar l = (True, move 2 l)"
        using match_class_pct [of l h1 h2 "w' @ CHR '']'' # r" C_pchar] less.prems(1) Cons True w by simp
      have v2: "u_lexer_lookahead (move 2 l) = h2 # w' @ CHR '']'' # r"
        and v3: "u_lexer_lookahead (move 3 l) = w' @ CHR '']'' # r"
        using less.prems(1) Cons w(1) by (simp_all add: eval_nat_numeral)
      have n: "lex_next (move 2 l) = Ok (u_lexer_peek (move 3 l)) (move 3 l)"
        using lex_next_Cons [OF v2] by simp
      have "ipliteral_loop (u_lexer_peek (move 3 l)) (move 3 l) = Ok () (move (length w') (move 3 l))"
        using less.hyps [OF _ v3 w(4) refl] w Cons by simp
      with m n ne pk Cons w show ?thesis by (subst ipliteral_loop.simps) (simp add: eval_nat_numeral)
    next
      case False
      then have c: "in_class C_pchar e" "units C_pchar w" using less.prems(2) Cons by auto
      have m: "u_uri_match_pchar l = (True, l)"
        using match_class_Cons [of l e "w @ CHR '']'' # r" C_pchar] less.prems(1) Cons False c(1) by simp
      have v: "u_lexer_lookahead (move 1 l) = w @ CHR '']'' # r" using less.prems(1) Cons by simp
      have n: "lex_next l = Ok (u_lexer_peek (move 1 l)) (move 1 l)"
        using lex_next_Cons [of l e "w @ CHR '']'' # r"] less.prems(1) Cons by simp
      have "ipliteral_loop (u_lexer_peek (move 1 l)) (move 1 l) = Ok () (move (length w) (move 1 l))"
        using less.hyps [OF _ v c(2) refl] Cons by simp
      with m n ne pk Cons show ?thesis by (subst ipliteral_loop.simps) simp
    qed
  qed
qed

lemma parse_literal_ok:
  assumes "u_lexer_lookahead l = CHR ''['' # h @ CHR '']'' # r" "fit l" "units C_pchar h"
    "length h + 2 < U_TOKEN_SZ"
  shows "\<exists>l'. u_uri_parse_host l u
      = Ok (u\<lparr> uri_flags := uri_flags u OR (U_URI_FLAGS_HOST_IS_IPADDRESS OR U_URI_FLAGS_HOST_IS_IPLITERAL),
               uri_host := h \<rparr>) l'
    \<and> u_lexer_lookahead l' = r \<and> fit l'"
proof -
  let ?s = "u_lexer_record_lmatch l" and ?m = "u_lexer_record_lmatch (move 1 (u_lexer_record_lmatch l))"
  let ?l = "move 1 (u_lexer_record_lmatch l)"
  have v: "u_lexer_lookahead ?l = (h @ '']'') @ r" using assms(1) by simp
  have f0: "fit ?s" using assms(2) by (simp add: fit_def)
  have v0: "u_lexer_lookahead ?s = ''['' @ (h @ CHR '']'' # r)" using assms(1) by simp
  have "fit (move (length ''['') ?s)" by (rule fit_move [OF v0 f0])
  then have f: "fit ?l" by simp
  have ups: "u_uri_match_ups ?s = (False, ?s)"
    using match_class_stop [of ?s _ C_ups] assms(1) by (simp add: stop_def)
  have lp: "ipliteral_loop (u_lexer_peek ?l) ?m = Ok () (move (length h) ?m)"
    by (rule ipliteral_loop_ok [of _ _ r]) (use v assms(3) in simp_all)
  have n1: "lex_next ?s = Ok (u_lexer_peek ?l) ?l"
    using lex_next_Cons [of ?s "CHR ''[''" "h @ CHR '']'' # r"] assms(1) by simp
  have n2: "lex_next (move (length h) ?m) = Ok (u_lexer_peek (move (Suc (length h)) ?m)) (move (Suc (length h)) ?m)"
    using lex_next_Cons [of "move (length h) ?m" "CHR '']''" r] assms(1) by simp
  have pk: "u_lexer_peek (move (length h) ?m) = CHR '']''" "u_lexer_peek ?s = CHR ''[''"
    using assms(1) by (simp_all add: peek_lookahead)
  have lit: "u_uri_parse_ipliteral ?s = Ok () (move (Suc (length h)) ?m)"
    using n1 lp n2 pk by (simp add: u_uri_parse_ipliteral_def Let_def)
  have nb: "no_bracket (h @ '']'') = h" by (simp add: no_bracket_def)
  have "length (h @ '']'') + 1 < U_TOKEN_SZ" using assms(4) by simp
  from store_token [OF v f this, of F_host "u\<lparr> uri_flags := uri_flags u OR (U_URI_FLAGS_HOST_IS_IPADDRESS OR U_URI_FLAGS_HOST_IS_IPLITERAL) \<rparr>"] nb
  show ?thesis using ups lit pk(2) by (simp add: u_uri_parse_host_def Let_def)
qed

text \<open>User information, with the split into user and password.\<close>

lemma next_until_ok:
  "u_lexer_lookahead l = c # w @ r \<Longrightarrow> \<forall>x \<in> set w. Some x \<noteq> st \<Longrightarrow> r = [] \<or> Some (hd r) = st \<Longrightarrow>
   next_until st l = move (Suc (length w)) l"
proof (induction w arbitrary: c l)
  case Nil
  have "u_lexer_next l = (True, move 1 l)"
    using Nil(1) by (simp add: u_lexer_next_def u_lexer_next_ex_def eot_lookahead incr_move)
  with Nil show ?case by (subst next_until.simps) (cases r; simp add: eot_lookahead)
next
  case (Cons e w)
  have "u_lexer_next l = (True, move 1 l)"
    using Cons.prems(1) by (simp add: u_lexer_next_def u_lexer_next_ex_def eot_lookahead incr_move)
  moreover have "u_lexer_lookahead (move 1 l) = e # w @ r" using Cons.prems(1) by simp
  moreover have "next_until st (move 1 l) = move (Suc (length w)) (move 1 l)"
    using Cons.IH [of "move 1 l" e] Cons.prems by simp
  ultimately show ?case using Cons.prems(2) by (subst next_until.simps) (simp add: eot_lookahead)
qed

lemma next_until_Nil: "u_lexer_lookahead l = [] \<Longrightarrow> next_until st l = l"
  by (subst next_until.simps) (simp add: u_lexer_next_def u_lexer_next_ex_def eot_lookahead)

definition split_ok :: "string \<Rightarrow> string \<Rightarrow> string \<Rightarrow> bool" where
  "split_ok ui user pwd \<longleftrightarrow>
     (ui \<noteq> [] \<and> CHR '':'' \<notin> set (tl ui) \<and> user = ui \<and> pwd = [])
     \<or> (user \<noteq> [] \<and> CHR '':'' \<notin> set (tl user) \<and> ui = user @ CHR '':'' # pwd)"

lemma crumble_user_ok:
  assumes "split_ok ui user pwd" "uri_userinfo u = ui" "CHR '']'' \<notin> set ui" "length ui + 1 < U_TOKEN_SZ"
  shows "u_uri_crumble_user_password True u = Inr (u\<lparr> uri_user := user, uri_pwd := (if pwd = [] \<and> user = ui then uri_pwd u else pwd) \<rparr>)"
proof -
  define l0 where "l0 = \<lparr> l_s = ui, l_pos = 0, l_lmatch = 0, l_rmatch = 0, l_err = [] \<rparr>"
  have new: "u_lexer_new (Some ui) True True = Some l0" by (simp add: u_lexer_new_def l0_def)
  have v0: "u_lexer_lookahead l0 = ui" and f0: "fit l0"
    by (simp_all add: l0_def u_lexer_lookahead_def fit_def)
  obtain c w where user: "user = c # w" "CHR '':'' \<notin> set w"
    using assms(1) by (auto simp: split_ok_def neq_Nil_conv)
  have ui: "ui = user \<and> pwd = [] \<or> ui = user @ CHR '':'' # pwd" using assms(1) by (auto simp: split_ok_def)
  define r where "r = drop (length user) ui"
  have uir: "ui = user @ r" "r = [] \<or> hd r = CHR '':''" using ui by (auto simp: r_def)
  have nu: "next_until (Some (CHR '':'')) (u_lexer_record_lmatch l0) = move (length user) (u_lexer_record_lmatch l0)"
    using next_until_ok [of "u_lexer_record_lmatch l0" c w r "Some (CHR '':'')"] v0 user uir by auto
  let ?l1 = "u_lexer_record_rmatch (move (length user) (u_lexer_record_lmatch l0))"
  have nb: "CHR '']'' \<notin> set user" "CHR '']'' \<notin> set pwd" using assms(3) ui by auto
  have "length user + 1 < U_TOKEN_SZ" using assms(4) uir(1) by (metis add_lessD1 add.commute add.left_commute length_append)
  then have a1: "u_uri_adjust_greedy_match ?l1 old = Inr user" for old
    using adjust_token [of l0 user r] v0 f0 uir(1) no_bracket_id [OF nb(1)] by simp
  have e1: "u_lexer_eot ?l1 \<longleftrightarrow> r = []" using v0 uir(1) by (simp add: eot_lookahead)
  have ne: "ui \<noteq> []" using uir(1) user by auto
  show ?thesis
  proof (cases "r = []")
    case True
    then have "ui = user" "pwd = []" using uir(1) ui by auto
    with True new nu a1 e1 ne assms(2) show ?thesis
      by (simp add: u_uri_crumble_user_password_def Let_def)
  next
    case False
    then have r: "r = CHR '':'' # pwd" "user \<noteq> ui" using uir ui by auto
    have v1: "u_lexer_lookahead ?l1 = CHR '':'' # pwd" using v0 uir(1) r(1) by simp
    let ?l2 = "move 1 ?l1"
    have n2: "lex_next ?l1 = Ok (u_lexer_peek ?l2) ?l2" by (rule lex_next_Cons [OF v1])
    have v2: "u_lexer_lookahead ?l2 = pwd" using v1 by simp
    have f1: "fit ?l1" using fit_move [of l0 user r] v0 f0 uir(1) by (simp add: fit_def)
    then have f2: "fit ?l2" using fit_move [of ?l1 "'':''" pwd] v1 by simp
    have "next_until None (u_lexer_record_lmatch ?l2) = move (length pwd) (u_lexer_record_lmatch ?l2)"
    proof (cases pwd)
      case Nil
      then show ?thesis using next_until_Nil [of "u_lexer_record_lmatch ?l2"] v2 by simp
    next
      case (Cons a b)
      then show ?thesis using next_until_ok [of "u_lexer_record_lmatch ?l2" a b "[]" None] v2 by simp
    qed
    moreover have "length pwd + 1 < U_TOKEN_SZ" using assms(4) uir(1) r(1) by simp
    then have "u_uri_adjust_greedy_match (u_lexer_record_rmatch (move (length pwd) (u_lexer_record_lmatch ?l2))) old = Inr pwd" for old
      using adjust_token [of ?l2 pwd "[]"] v2 f2 no_bracket_id [OF nb(2)] by simp
    ultimately show ?thesis
      using False r(2) new nu a1 e1 ne assms(2) n2
      by (simp add: u_uri_crumble_user_password_def Let_def del: move_simps(2))
  qed
qed

lemma xdigit_class: "isxdigit c \<Longrightarrow> in_class k c \<and> c \<noteq> CHR ''%''"
proof -
  assume x: "isxdigit c"
  then have "isalnum c" by (auto simp: isxdigit_def isalnum_def isalpha_def isupper_def islower_def)
  moreover have "\<not> isxdigit (CHR ''%'')" by (simp add: isxdigit_def isdigit_def)
  with x have "c \<noteq> CHR ''%''" by blast
  ultimately show ?thesis unfolding in_class_def by blast
qed

lemma units_tl: "units k (c # w) \<Longrightarrow> units k w"
proof -
  assume u: "units k (c # w)"
  show ?thesis
  proof (cases "c = CHR ''%''")
    case True
    then obtain h1 h2 w' where "w = h1 # h2 # w'" "isxdigit h1" "isxdigit h2" "units k w'"
      using u by (auto split: list.splits)
    with xdigit_class [of h1 k] xdigit_class [of h2 k] show ?thesis by simp
  next
    case False
    with u show ?thesis by simp
  qed
qed

definition wf_userinfo :: "u_uri \<Rightarrow> bool" where
  "wf_userinfo u =
     (if uri_userinfo u = [] then uri_user u = [] \<and> uri_pwd u = []
      else units C_pchar_minus_at (uri_userinfo u) \<and>
        (if uri_opts u AND U_URI_OPT_DONT_PARSE_USERINFO = 0
         then split_ok (uri_userinfo u) (uri_user u) (uri_pwd u) else uri_user u = [] \<and> uri_pwd u = []))"

lemma parse_userinfo_ok:
  assumes "u_lexer_lookahead l = ui @ CHR ''@'' # r" "fit l" "ui \<noteq> []" "length ui + 1 < U_TOKEN_SZ"
    "uri_user u = []" "uri_pwd u = []"
    "wf_userinfo (u\<lparr> uri_userinfo := ui, uri_user := user, uri_pwd := pwd \<rparr>)"
  shows "\<exists>l'. u_uri_parse_userinfo True l u = Ok (u\<lparr> uri_userinfo := ui, uri_user := user, uri_pwd := pwd \<rparr>) l'
    \<and> u_lexer_lookahead l' = r \<and> fit l'"
proof -
  have un: "units C_pchar_minus_at ui" using assms(3,7) by (simp add: wf_userinfo_def)
  obtain c w where ui: "ui = c # w" using assms(3) by (cases ui) auto
  have v: "u_lexer_lookahead (u_lexer_record_lmatch l) = c # w @ CHR ''@'' # r" using assms(1) ui by simp
  have st: "stop C_pchar_minus_at (CHR ''@'' # r)" by (simp add: stop_def)
  obtain d where d: "do_class C_pchar_minus_at (u_lexer_record_lmatch l)
      = Ok d (move (length ui) (u_lexer_record_lmatch l))"
    using do_class_ok [OF v _ st] units_tl un ui by fastforce
  have pk: "u_lexer_peek (move (length ui) (u_lexer_record_lmatch l)) = CHR ''@''"
    using assms(1) by (simp add: peek_lookahead)
  let ?u1 = "u\<lparr> uri_userinfo := ui \<rparr>" and ?u2 = "u\<lparr> uri_userinfo := ui, uri_user := user, uri_pwd := pwd \<rparr>"
  obtain m where m: "store_match F_userinfo (u_lexer_record_rmatch (move (length ui) (u_lexer_record_lmatch l))) u
      = Ok ?u1 m" "u_lexer_lookahead m = CHR ''@'' # r" "fit m"
    using store_token [OF assms(1,2,4), of F_userinfo u] units_token [OF un] by auto
  have up: "(if uri_opts ?u1 AND U_URI_OPT_DONT_PARSE_USERINFO = 0 then
      (case u_uri_crumble_user_password True ?u1 of Inl e \<Rightarrow> Fault e | Inr u2 \<Rightarrow> Ok u2 m) else Ok ?u1 m) = Ok ?u2 m"
  proof (cases "uri_opts u AND U_URI_OPT_DONT_PARSE_USERINFO = 0")
    case True
    then have so: "split_ok ui user pwd" using assms(3,7) by (simp add: wf_userinfo_def)
    from crumble_user_ok [OF so _ units_no_bracket [OF un] assms(4), of ?u1] True assms(6)
    show ?thesis by auto
  next
    case False
    then have "user = []" "pwd = []" using assms(3,7) by (simp_all add: wf_userinfo_def)
    with False assms(5,6) show ?thesis by simp
  qed
  have n: "lex_next m = Ok (u_lexer_peek (move 1 m)) (move 1 m)" by (rule lex_next_Cons [OF m(2)])
  have "fit (move (length ''@'') m)" by (rule fit_move [of m _ r]) (use m in simp_all)
  then have f: "fit (move 1 m)" by simp
  have "u_uri_parse_userinfo True l u = Ok ?u2 (move 1 m)"
    unfolding u_uri_parse_userinfo_def d lbind_simps
    using pk m(1) up n by simp
  with m(2) f show ?thesis by simp
qed

text \<open>The host with its flags, as the parser sets them.\<close>

definition wf_host :: "uflags \<Rightarrow> string \<Rightarrow> bool" where
  "wf_host fl h = (h \<noteq> [] \<and> length h + 2 < U_TOKEN_SZ \<and>
     (fl = 0 \<and> units C_ups h \<and> \<not> isdigit (hd h)
      \<or> fl = U_URI_FLAGS_HOST_IS_IPADDRESS \<and> ip4 h
      \<or> fl = U_URI_FLAGS_HOST_IS_IPADDRESS OR U_URI_FLAGS_HOST_IS_IPLITERAL \<and> units C_pchar h))"

definition host_text :: "uflags \<Rightarrow> string \<Rightarrow> string" where
  "host_text fl h = (if fl AND U_URI_FLAGS_HOST_IS_IPLITERAL \<noteq> 0 then CHR ''['' # h @ '']'' else h)"

lemma parse_host_ok:
  assumes "u_lexer_lookahead l = host_text fl h @ r" "fit l" "wf_host fl h" "sep r"
  shows "\<exists>l'. u_uri_parse_host l u = Ok (u\<lparr> uri_flags := uri_flags u OR fl, uri_host := h \<rparr>) l'
    \<and> u_lexer_lookahead l' = r \<and> fit l'"
proof -
  have len: "length h + 1 < U_TOKEN_SZ" "length h + 2 < U_TOKEN_SZ" and ne: "h \<noteq> []"
    using assms(3) by (simp_all add: wf_host_def)
  consider (name) "fl = 0" "units C_ups h" "\<not> isdigit (hd h)"
    | (ip) "fl = U_URI_FLAGS_HOST_IS_IPADDRESS" "ip4 h"
    | (lit) "fl = U_URI_FLAGS_HOST_IS_IPADDRESS OR U_URI_FLAGS_HOST_IS_IPLITERAL" "units C_pchar h"
    using assms(3) by (auto simp: wf_host_def)
  then show ?thesis
  proof cases
    case name
    then have "u_lexer_lookahead l = h @ r" using assms(1) by (simp add: host_text_def)
    from parse_regname_ok [OF this assms(2) name(2) ne name(3) assms(4) len(1), of u] name(1)
    show ?thesis by simp
  next
    case ip
    then have "u_lexer_lookahead l = h @ r"
      using assms(1) by (simp add: host_text_def U_URI_FLAGS_HOST_IS_IPADDRESS_def U_URI_FLAGS_HOST_IS_IPLITERAL_def)
    from parse_ip4_ok [OF this assms(2) ip(2) assms(4) len(1), of u] ip(1) show ?thesis by simp
  next
    case lit
    then have "u_lexer_lookahead l = CHR ''['' # h @ CHR '']'' # r"
      using assms(1) by (simp add: host_text_def U_URI_FLAGS_HOST_IS_IPADDRESS_def U_URI_FLAGS_HOST_IS_IPLITERAL_def)
    from parse_literal_ok [OF this assms(2) lit(2) len(2), of u] lit(1) show ?thesis by simp
  qed
qed

section \<open>Round trip\<close>

definition tail_text :: "u_uri \<Rightarrow> string" where
  "tail_text u = (if uri_query u \<noteq> [] then CHR ''?'' # uri_query u else []) @
     (if uri_fragment u \<noteq> [] then CHR ''#'' # uri_fragment u else [])"

definition port_text :: "u_uri \<Rightarrow> string" where
  "port_text u = (if uri_port u \<noteq> [] then CHR '':'' # uri_port u else []) @ uri_path u @ tail_text u"

definition auth_text :: "u_uri \<Rightarrow> string" where
  "auth_text u = (if uri_userinfo u \<noteq> [] then uri_userinfo u @ ''@'' else []) @
     host_text (uri_flags u) (uri_host u) @ port_text u"

definition uri_text :: "u_uri \<Rightarrow> string" where
  "uri_text u = uri_scheme u @ ''://'' @ auth_text u"

text \<open>An object that the parser can give for a URI with an authority.\<close>

definition wf_scheme :: "string \<Rightarrow> bool" where
  "wf_scheme s = (s \<noteq> [] \<and> isalpha (hd s) \<and> list_all scheme_char (tl s) \<and> length s + 1 < U_TOKEN_SZ)"

definition wf_uri :: "string list \<Rightarrow> u_uri \<Rightarrow> bool" where
  "wf_uri segs u =
     (wf_scheme (uri_scheme u) \<and> wf_userinfo u \<and> length (uri_userinfo u) + 1 < U_TOKEN_SZ \<and>
      uri_authority u = [] \<and> wf_host (uri_flags u) (uri_host u) \<and>
      list_all port_char (uri_port u) \<and> length (uri_port u) + 1 < U_TOKEN_SZ \<and>
      uri_path u = segs_text segs \<and> list_all (units C_pchar) segs \<and> length (uri_path u) + 1 < U_TOKEN_SZ \<and>
      qunits (uri_query u) \<and> length (uri_query u) + 1 < U_TOKEN_SZ \<and>
      qunits (uri_fragment u) \<and> length (uri_fragment u) + 1 < U_TOKEN_SZ \<and>
      (uri_userinfo u = [] \<longrightarrow> CHR ''@'' \<notin> set (auth_text u)))"

lemma tail_text_stop: "qstop (if f \<noteq> [] then CHR ''#'' # f else [])" "stop C_pchar (tail_text u)"
  "tail_text u = [] \<or> hd (tail_text u) \<noteq> CHR ''/''" "tail_text u = [] \<or> \<not> port_char (hd (tail_text u))"
  by (auto simp: qstop_def stop_def tail_text_def port_char_def isalnum_def isalpha_def isupper_def islower_def isdigit_def)

lemma port_text_stop:
  assumes "uri_path u = segs_text segs"
  shows "sep (port_text u)" "uri_path u @ tail_text u = [] \<or> \<not> port_char (hd (uri_path u @ tail_text u))"
  by (cases segs; auto simp: assms sep_def port_text_def tail_text_def port_char_def isalnum_def isalpha_def
      isupper_def islower_def isdigit_def)+

lemma expect_slash_ok:
  "u_lexer_lookahead l = CHR ''/'' # r \<Longrightarrow> expect_slash l = Ok () (move 1 l)"
  by (simp add: expect_slash_def lex_next_Cons)

lemma expect_colon_ok:
  "u_lexer_lookahead l = CHR '':'' # r \<Longrightarrow> u_lexer_expect_char l (CHR '':'') = Ok () (move 1 l)"
  by (simp add: u_lexer_expect_char_def lex_next_Cons)

lemma fit_move1: "u_lexer_lookahead l = c # r \<Longrightarrow> fit l \<Longrightarrow> fit (move 1 l)"
  using fit_move [of l "[c]" r] by simp

text \<open>Everything behind the authority.\<close>

definition parse_tail :: "u_lexer \<Rightarrow> u_uri \<Rightarrow> u_uri lex_result" where
  "parse_tail l u =
     lbind (if u_lexer_peek l = CHR ''?'' then u_uri_parse_query l u else Ok u l) (\<lambda>u1 l1.
       if u_lexer_peek l1 = CHR ''#'' then u_uri_parse_fragment l1 u1 else Ok u1 l1)"

lemma parse_tail_ok:
  assumes "u_lexer_lookahead l = tail_text w" "fit l" "qunits (uri_query w)" "qunits (uri_fragment w)"
    "length (uri_query w) + 1 < U_TOKEN_SZ" "length (uri_fragment w) + 1 < U_TOKEN_SZ"
    "uri_query u = []" "uri_fragment u = []"
  shows "\<exists>l'. parse_tail l u = Ok (u\<lparr> uri_query := uri_query w, uri_fragment := uri_fragment w \<rparr>) l'"
proof -
  let ?r = "if uri_fragment w \<noteq> [] then CHR ''#'' # uri_fragment w else []"
  have "\<exists>l1. (if u_lexer_peek l = CHR ''?'' then u_uri_parse_query l u else Ok u l)
      = Ok (u\<lparr> uri_query := uri_query w \<rparr>) l1 \<and> u_lexer_lookahead l1 = ?r \<and> fit l1"
  proof (cases "uri_query w = []")
    case True
    then have "u_lexer_lookahead l = ?r" using assms(1) by (simp add: tail_text_def)
    moreover from this have "u_lexer_peek l \<noteq> CHR ''?''" by (simp add: peek_lookahead split: if_splits)
    ultimately show ?thesis using True assms(2,7) by simp
  next
    case False
    then have v: "u_lexer_lookahead l = CHR ''?'' # uri_query w @ ?r" using assms(1) by (simp add: tail_text_def)
    have "u_lexer_peek l = CHR ''?''" using v by (simp add: peek_lookahead)
    with parse_query_ok [OF v assms(2,3) tail_text_stop(1) assms(5), of u] show ?thesis by simp
  qed
  then obtain l1 where q: "(if u_lexer_peek l = CHR ''?'' then u_uri_parse_query l u else Ok u l)
      = Ok (u\<lparr> uri_query := uri_query w \<rparr>) l1" "u_lexer_lookahead l1 = ?r" "fit l1" by blast
  show ?thesis
  proof (cases "uri_fragment w = []")
    case True
    then have "u_lexer_peek l1 \<noteq> CHR ''#''" using q(2) by (simp add: peek_lookahead)
    then show ?thesis using True assms(8) q(1) by (simp add: parse_tail_def)
  next
    case False
    then have v: "u_lexer_lookahead l1 = CHR ''#'' # uri_fragment w" using q(2) by simp
    have "u_lexer_peek l1 = CHR ''#''" using v by (simp add: peek_lookahead)
    with parse_fragment_ok [OF v q(3) assms(4,6), of "u\<lparr> uri_query := uri_query w \<rparr>"] q(1)
    show ?thesis by (simp add: parse_tail_def)
  qed
qed

text \<open>Port and path, behind the host.\<close>

lemma parse_port_path_ok:
  assumes "u_lexer_lookahead l = port_text w" "fit l" "wf_uri segs w" "uri_port u = []"
  shows "\<exists>l'. lbind (if u_lexer_peek l = CHR '':'' then u_uri_parse_port l u else Ok u l)
      (\<lambda>u3 l5. u_uri_parse_abempty l5 u3) = Ok (u\<lparr> uri_port := uri_port w, uri_path := uri_path w \<rparr>) l'
    \<and> u_lexer_lookahead l' = tail_text w \<and> fit l'"
proof -
  have w: "list_all port_char (uri_port w)" "length (uri_port w) + 1 < U_TOKEN_SZ" "uri_path w = segs_text segs"
    "list_all (units C_pchar) segs" "length (uri_path w) + 1 < U_TOKEN_SZ"
    using assms(3) unfolding wf_uri_def by blast+
  have "\<exists>l1. (if u_lexer_peek l = CHR '':'' then u_uri_parse_port l u else Ok u l)
      = Ok (u\<lparr> uri_port := uri_port w \<rparr>) l1 \<and> u_lexer_lookahead l1 = uri_path w @ tail_text w \<and> fit l1"
  proof (cases "uri_port w = []")
    case True
    then have v: "u_lexer_lookahead l = uri_path w @ tail_text w" using assms(1) by (simp add: port_text_def)
    have "u_lexer_peek l \<noteq> CHR '':''"
      using v w(3) by (cases segs) (simp_all add: peek_lookahead tail_text_def split: if_splits)
    with True v assms(2,4) show ?thesis by simp
  next
    case False
    then have v: "u_lexer_lookahead l = CHR '':'' # uri_port w @ (uri_path w @ tail_text w)"
      using assms(1) by (simp add: port_text_def)
    have "u_lexer_peek l = CHR '':''" using v by (simp add: peek_lookahead)
    with parse_port_ok [OF v assms(2) w(1) port_text_stop(2) [OF w(3)] w(2), of u] show ?thesis by simp
  qed
  then obtain l1 where p: "(if u_lexer_peek l = CHR '':'' then u_uri_parse_port l u else Ok u l)
      = Ok (u\<lparr> uri_port := uri_port w \<rparr>) l1" "u_lexer_lookahead l1 = uri_path w @ tail_text w" "fit l1" by blast
  have v: "u_lexer_lookahead l1 = segs_text segs @ tail_text w" using p(2) w(3) by simp
  have len: "length (segs_text segs) + 1 < U_TOKEN_SZ" using w(3,5) by simp
  from parse_abempty_ok [OF v p(3) w(4) tail_text_stop(2,3) len, of "u\<lparr> uri_port := uri_port w \<rparr>"] p(1) w(3)
  show ?thesis by simp
qed

lemma parse_authority_ok:
  assumes "u_lexer_lookahead l = ''//'' @ auth_text w" "fit l" "wf_uri segs w"
    "u = empty_uri (uri_opts w)\<lparr> uri_scheme := sch, uri_path := pth \<rparr>"
  shows "\<exists>l'. u_uri_parse_authority True l u
      = Ok (w\<lparr> uri_scheme := sch, uri_query := [], uri_fragment := [] \<rparr>) l'
    \<and> u_lexer_lookahead l' = tail_text w \<and> fit l'"
proof -
  have w: "wf_userinfo w" "length (uri_userinfo w) + 1 < U_TOKEN_SZ" "uri_authority w = []"
    "wf_host (uri_flags w) (uri_host w)" "uri_path w = segs_text segs"
    "uri_userinfo w = [] \<longrightarrow> CHR ''@'' \<notin> set (auth_text w)"
    using assms(3) unfolding wf_uri_def by blast+
  have v1: "u_lexer_lookahead l = CHR ''/'' # CHR ''/'' # auth_text w" using assms(1) by simp
  have v2: "u_lexer_lookahead (move 1 l) = CHR ''/'' # auth_text w" using v1 by simp
  have v3: "u_lexer_lookahead (move 2 l) = auth_text w" using v1 by (simp add: eval_nat_numeral)
  have f1: "fit (move 1 l)" by (rule fit_move1 [OF v1 assms(2)])
  have f: "fit (move 2 l)" using fit_move1 [OF v2 f1] by (simp add: eval_nat_numeral)
  have s1: "expect_slash l = Ok () (move 1 l)" by (rule expect_slash_ok [OF v1])
  have s2: "expect_slash (move 1 l) = Ok () (move 2 l)" using expect_slash_ok [OF v2] by (simp add: eval_nat_numeral)
  let ?u1 = "u\<lparr> uri_userinfo := uri_userinfo w, uri_user := uri_user w, uri_pwd := uri_pwd w \<rparr>"
  let ?r = "host_text (uri_flags w) (uri_host w) @ port_text w"
  have "\<exists>l3. (if CHR ''@'' \<in> set (u_lexer_lookahead (move 2 l)) then u_uri_parse_userinfo True (move 2 l) u
      else Ok u (move 2 l)) = Ok ?u1 l3 \<and> u_lexer_lookahead l3 = ?r \<and> fit l3"
  proof (cases "uri_userinfo w = []")
    case True
    then have "uri_user w = []" "uri_pwd w = []" "CHR ''@'' \<notin> set (auth_text w)" "auth_text w = ?r"
      using w(1,6) by (simp_all add: wf_userinfo_def auth_text_def)
    with True v3 f assms(4) show ?thesis by (simp add: empty_uri_def)
  next
    case False
    then have v: "u_lexer_lookahead (move 2 l) = uri_userinfo w @ CHR ''@'' # ?r"
      using v3 by (simp add: auth_text_def)
    have "wf_userinfo ?u1" using w(1) assms(4) by (simp add: wf_userinfo_def empty_uri_def)
    with parse_userinfo_ok [OF v f False w(2), of u "uri_pwd w" "uri_user w"] assms(4) v
    show ?thesis by (simp add: empty_uri_def)
  qed
  then obtain l3 where a: "(if CHR ''@'' \<in> set (u_lexer_lookahead (move 2 l)) then u_uri_parse_userinfo True (move 2 l) u
      else Ok u (move 2 l)) = Ok ?u1 l3" "u_lexer_lookahead l3 = ?r" "fit l3" by blast
  let ?u2 = "?u1\<lparr> uri_flags := uri_flags w, uri_host := uri_host w \<rparr>"
  obtain l4 where h: "u_uri_parse_host l3 ?u1 = Ok ?u2 l4" "u_lexer_lookahead l4 = port_text w" "fit l4"
    using parse_host_ok [OF a(2,3) w(4) port_text_stop(1) [OF w(5)], of ?u1] assms(4)
    by (auto simp: empty_uri_def)
  obtain l5 where p: "lbind (if u_lexer_peek l4 = CHR '':'' then u_uri_parse_port l4 ?u2 else Ok ?u2 l4)
      (\<lambda>u3 l5. u_uri_parse_abempty l5 u3) = Ok (?u2\<lparr> uri_port := uri_port w, uri_path := uri_path w \<rparr>) l5"
    "u_lexer_lookahead l5 = tail_text w" "fit l5"
    using parse_port_path_ok [OF h(2,3) assms(3), of ?u2] assms(4) by (auto simp: empty_uri_def)
  have "?u2\<lparr> uri_port := uri_port w, uri_path := uri_path w \<rparr>
      = w\<lparr> uri_scheme := sch, uri_query := [], uri_fragment := [] \<rparr>"
    using assms(4) w(3) by (simp add: empty_uri_def)
  with p have "u_uri_parse_authority True l u = Ok (w\<lparr> uri_scheme := sch, uri_query := [], uri_fragment := [] \<rparr>) l5"
    unfolding u_uri_parse_authority_def s1 s2 lbind_simps a(1) h(1) by simp
  with p(2,3) show ?thesis by blast
qed

lemma crumble_text:
  assumes "wf_uri segs w"
  shows "u_uri_crumble (True, True, True) (Some (uri_text w)) (uri_opts w) = Inr (rc_ok, Some w)"
proof -
  define l where "l = \<lparr> l_s = uri_text w, l_pos = 0, l_lmatch = 0, l_rmatch = 0, l_err = [] \<rparr>"
  have new: "u_lexer_new (Some (uri_text w)) True True = Some l" by (simp add: u_lexer_new_def l_def)
  have v: "u_lexer_lookahead l = uri_scheme w @ CHR '':'' # (''//'' @ auth_text w)" and f: "fit l"
    by (simp_all add: l_def u_lexer_lookahead_def fit_def uri_text_def)
  have w: "wf_scheme (uri_scheme w)" "qunits (uri_query w)" "length (uri_query w) + 1 < U_TOKEN_SZ"
    "qunits (uri_fragment w)" "length (uri_fragment w) + 1 < U_TOKEN_SZ"
    using assms unfolding wf_uri_def by blast+
  let ?u = "empty_uri (uri_opts w)\<lparr> uri_path := ''/'' \<rparr>"
  have nu: "u_uri_new True (uri_opts w) = (rc_ok, Some ?u)"
    by (simp add: u_uri_new_def u_uri_set_def u_strlcpy_def strlcpy_def strlcpy_loop_take empty_uri_def U_TOKEN_SZ_def)
  obtain l1 where s: "u_uri_parse_scheme l ?u = Ok (?u\<lparr> uri_scheme := uri_scheme w \<rparr>) l1"
    "u_lexer_lookahead l1 = CHR '':'' # (''//'' @ auth_text w)" "fit l1"
    using parse_scheme_ok [OF v f, of ?u] w(1) unfolding wf_scheme_def by blast
  note c = expect_colon_ok [OF s(2)]
  have v2: "u_lexer_lookahead (move 1 l1) = ''//'' @ auth_text w" using s(2) by simp
  have u1: "?u\<lparr> uri_scheme := uri_scheme w \<rparr> = empty_uri (uri_opts w)\<lparr> uri_scheme := uri_scheme w, uri_path := ''/'' \<rparr>"
    by (simp add: empty_uri_def)
  let ?w = "w\<lparr> uri_scheme := uri_scheme w, uri_query := [], uri_fragment := [] \<rparr>"
  obtain l3 where a: "u_uri_parse_authority True (move 1 l1) (?u\<lparr> uri_scheme := uri_scheme w \<rparr>) = Ok ?w l3"
    "u_lexer_lookahead l3 = tail_text w" "fit l3"
    using parse_authority_ok [OF v2 fit_move1 [OF s(2,3)] assms u1] by blast
  have h: "u_uri_parse_hier_part True (move 1 l1) (?u\<lparr> uri_scheme := uri_scheme w \<rparr>) = Ok ?w l3"
    using a(1) v2 by (simp add: u_uri_parse_hier_part_def eval_nat_numeral)
  obtain l4 where t: "parse_tail l3 ?w = Ok (?w\<lparr> uri_query := uri_query w, uri_fragment := uri_fragment w \<rparr>) l4"
    using parse_tail_ok [OF a(2,3) w(2,4) w(3,5), of ?w] by auto
  have "u_uri_parser True True l (uri_opts w) = Ok w l4"
    using t unfolding u_uri_parser_def nu prod.case option.case s(1) lbind_simps c h parse_tail_def by simp
  then show ?thesis by (simp add: u_uri_crumble_def new)
qed

lemma strlcat_fits: "length s + length x < U_URI_STRMAX \<Longrightarrow> u_strlcat s x U_URI_STRMAX = (True, s @ x)"
  by (simp add: u_strlcat_def strlcat_def strlcpy_loop_take Let_def)

lemma cats_fits: "length s + length (concat xs) < U_URI_STRMAX \<Longrightarrow> cats s xs = (True, s @ concat xs)"
  by (induction xs arbitrary: s) (simp_all add: strlcat_fits)

lemma wf_flags: "wf_host fl h \<Longrightarrow> CHR '':'' \<in> set h \<Longrightarrow> fl OR U_URI_FLAGS_HOST_IS_IPLITERAL = fl"
proof -
  assume w: "wf_host fl h" "CHR '':'' \<in> set h"
  have "units C_ups t \<Longrightarrow> CHR '':'' \<notin> set t" for t
  proof (induction "length t" arbitrary: t rule: less_induct)
    case less
    have "\<not> isxdigit (CHR '':'')" by (simp add: isxdigit_def isdigit_def)
    with less show ?case by (cases t) (auto split: if_splits list.splits)
  qed
  moreover have "\<not> ip4 h"
  proof
    assume "ip4 h"
    then have "list_all (\<lambda>c. isdigit c \<or> c = CHR ''.'') h" by (cases h) (auto simp: ip4_def)
    with w(2) have "isdigit (CHR '':'') \<or> CHR '':'' = CHR ''.''" by (auto simp: list_all_iff)
    then show False by simp
  qed
  ultimately show ?thesis using w
    by (auto simp: wf_host_def U_URI_FLAGS_HOST_IS_IPADDRESS_def U_URI_FLAGS_HOST_IS_IPLITERAL_def)
qed

lemma knead_text:
  assumes "wf_uri segs w"
  shows "u_uri_knead (Some w) = (rc_ok, uri_text w, Some w)"
proof -
  have w: "wf_scheme (uri_scheme w)" "length (uri_userinfo w) + 1 < U_TOKEN_SZ"
    "uri_authority w = []" "wf_host (uri_flags w) (uri_host w)" "length (uri_port w) + 1 < U_TOKEN_SZ"
    "length (uri_path w) + 1 < U_TOKEN_SZ" "length (uri_query w) + 1 < U_TOKEN_SZ"
    "length (uri_fragment w) + 1 < U_TOKEN_SZ" "wf_userinfo w"
    using assms unfolding wf_uri_def by blast+
  have len: "length (uri_scheme w) + 1 < U_TOKEN_SZ" "uri_scheme w \<noteq> []" "uri_host w \<noteq> []"
    "length (uri_host w) + 2 < U_TOKEN_SZ"
    using w(1,4) by (simp_all add: wf_scheme_def wf_host_def)
  have us: "uri_userinfo w = [] \<Longrightarrow> uri_user w = []" using w(9) by (simp add: wf_userinfo_def)
  have fl: "(if CHR '':'' \<in> set (uri_host w) then w\<lparr> uri_flags := uri_flags w OR U_URI_FLAGS_HOST_IS_IPLITERAL \<rparr> else w) = w"
    using wf_flags [OF w(4)] by simp
  define a where "a = auth_parts w"
  have a: "a = [''//''] @ (if uri_userinfo w \<noteq> [] then [uri_userinfo w, ''@''] else []) @
    (if uri_flags w AND U_URI_FLAGS_HOST_IS_IPLITERAL \<noteq> 0 then [''[''] else []) @ [uri_host w] @
    (if uri_flags w AND U_URI_FLAGS_HOST_IS_IPLITERAL \<noteq> 0 then ['']''] else []) @
    (if uri_port w \<noteq> [] then ['':'', uri_port w] else [])"
    using us by (simp add: a_def auth_parts_def)
  define t where "t = [uri_path w] @ (if uri_query w \<noteq> [] then [''?'', uri_query w] else []) @
    (if uri_fragment w \<noteq> [] then [''#'', uri_fragment w] else [])"
  let ?s = "uri_scheme w @ '':''"
  have la: "length (concat a) < 3 * U_TOKEN_SZ + 5"
    using w(2,5) len by (simp add: a)
  have lt: "length (concat t) < 3 * U_TOKEN_SZ + 2"
    using w(6,7,8) by (simp add: t_def)
  have c1: "cats [] [uri_scheme w, '':''] = (True, ?s)"
    using cats_fits [of "[]" "[uri_scheme w, '':'']"] len by (simp add: U_URI_STRMAX_def U_TOKEN_SZ_def)
  have c2: "cats ?s a = (True, ?s @ concat a)"
    by (rule cats_fits) (use la len in \<open>simp add: U_URI_STRMAX_def U_TOKEN_SZ_def\<close>)
  have c3: "cats (?s @ concat a) t = (True, (?s @ concat a) @ concat t)"
    by (rule cats_fits) (use la lt len in \<open>simp add: U_URI_STRMAX_def U_TOKEN_SZ_def\<close>)
  have "u_uri_knead_authority (Some w) ?s = (rc_ok, ?s @ concat a, Some w)"
    unfolding u_uri_knead_authority_def option.case fl Let_def a_def [symmetric]
    using c2 len(3) by simp
  then have "u_uri_knead (Some w) = (rc_ok, (?s @ concat a) @ concat t, Some w)"
    using c1 c3 len(2) w(3) by (simp add: u_uri_knead_def t_def)
  moreover have "(?s @ concat a) @ concat t = uri_text w"
    by (simp add: uri_text_def auth_text_def port_text_def tail_text_def host_text_def a t_def)
  ultimately show ?thesis by simp
qed

text \<open>C10: Every well-formed URI object with an authority (scheme, optional user information with its split
  into user and password, a name, an IPv4 address or a literal as host, optional port, a path of
  segments, query and fragment, each shorter than a token) is assembled by \<open>u_uri_knead\<close> to the text of
  the grammar of RFC 3986, and \<open>u_uri_crumble\<close> takes this text apart into the same object, the flags of
  the host included.\<close>

theorem u_uri_roundtrip:
  assumes "wf_uri segs u"
  shows "u_uri_knead (Some u) = (rc_ok, uri_text u, Some u)
    \<and> u_uri_crumble (True, True, True) (Some (uri_text u)) (uri_opts u) = Inr (rc_ok, Some u)"
  using knead_text [OF assms] crumble_text [OF assms] by simp_all

definition sample_uri :: u_uri where
  "sample_uri = \<lparr> uri_opts = 0, uri_flags = 3, uri_scheme = ''svn+ssh'', uri_userinfo = ''jo:p%40w'', uri_user = ''jo'',
     uri_pwd = ''p%40w'', uri_authority = [], uri_host = ''::1'', uri_port = ''http'', uri_path = ''/a//%20b'',
     uri_query = ''k=v?/'', uri_fragment = ''top'' \<rparr>"

theorem u_uri_roundtrip_witness:
  "uri_text sample_uri = ''svn+ssh://jo:p%40w@[::1]:http/a//%20b?k=v?/#top''
   \<and> u_uri_crumble (True, True, True) (Some (uri_text sample_uri)) 0 = Inr (rc_ok, Some sample_uri)"
proof -
  have "wf_uri [''a'', [], ''%20b''] sample_uri"
    by code_simp
  from u_uri_roundtrip [OF this]
  have "u_uri_crumble (True, True, True) (Some (uri_text sample_uri)) 0 = Inr (rc_ok, Some sample_uri)"
    by (simp add: sample_uri_def)
  moreover have "uri_text sample_uri = ''svn+ssh://jo:p%40w@[::1]:http/a//%20b?k=v?/#top''" by code_simp
  ultimately show ?thesis by blast
qed

lemma get_match_long:
  assumes "u_lexer_lookahead l = t @ r" "U_TOKEN_SZ \<le> length t"
  shows "u_lexer_get_match (u_lexer_record_rmatch (move (length t) (u_lexer_record_lmatch l))) = None"
  using assms(2) by (simp add: u_lexer_get_match_def u_lexer_record_rmatch_def u_lexer_record_lmatch_def move_def
      u_lexer_strlen_match_def)

text \<open>A path that does not fit into a token is accepted and lost without an error: at the end of the
  text the object keeps the path \<open>/\<close> it was made with, in front of a query or a fragment the path
  becomes empty.\<close>

theorem u_uri_path_too_long:
  assumes "u_lexer_lookahead l = segs_text ss @ r" "list_all (units C_pchar) ss"
    "stop C_pchar r" "r = [] \<or> hd r \<noteq> CHR ''/''" "U_TOKEN_SZ \<le> length (segs_text ss)" "uri_path u = ''/''"
  shows "\<exists>l'. u_uri_parse_abempty l u = Ok (u\<lparr> uri_path := (if r = [] then ''/'' else []) \<rparr>) l'
    \<and> u_lexer_lookahead l' = r"
proof -
  let ?l = "u_lexer_record_lmatch l" and ?n = "length (segs_text ss)"
  have "abempty_loop ?l = Ok () (move ?n ?l)"
    by (rule abempty_loop_ok) (use assms in simp_all)
  then have "u_uri_expect_path_abempty ?l = Ok () (move ?n ?l)"
    by (cases ss) (auto simp: u_uri_expect_path_abempty_def abempty_loop.simps [of ?l])
  moreover have "u_lexer_eot (u_lexer_record_rmatch (move ?n ?l)) \<longleftrightarrow> r = []"
    using assms(1) by (simp add: eot_lookahead)
  ultimately show ?thesis
    using get_match_long [OF assms(1,5)] assms(1,6)
    by (simp add: u_uri_parse_abempty_def store_match_def u_uri_adjust_greedy_match_def Let_def)
qed

definition long_path_uri :: string where
  "long_path_uri = ''/'' @ replicate 130 (CHR ''a'')"

theorem u_uri_path_too_long_witness:
  "\<exists>l'. u_uri_parse_abempty \<lparr> l_s = long_path_uri, l_pos = 0, l_lmatch = 0, l_rmatch = 0, l_err = [] \<rparr>
      (empty_uri 0\<lparr> uri_path := ''/'' \<rparr>) = Ok (empty_uri 0\<lparr> uri_path := ''/'' \<rparr>) l'"
proof -
  let ?l = "\<lparr> l_s = long_path_uri, l_pos = 0, l_lmatch = 0, l_rmatch = 0, l_err = [] \<rparr>"
  have "u_lexer_lookahead ?l = segs_text [replicate 130 (CHR ''a'')] @ []"
    by (simp add: u_lexer_lookahead_def long_path_uri_def)
  moreover have "list_all (units C_pchar) [replicate 130 (CHR ''a'')]" by code_simp
  ultimately show ?thesis
    using u_uri_path_too_long [of ?l "[replicate 130 (CHR ''a'')]" "[]" "empty_uri 0\<lparr> uri_path := ''/'' \<rparr>"]
    by (auto simp: stop_def U_TOKEN_SZ_def empty_uri_def)
qed

text \<open>The parts that a parse gives, or nothing when it is refused.\<close>

definition crumbs :: "string \<Rightarrow> (string \<times> string \<times> string \<times> string) option" where
  "crumbs s =
     (case u_uri_crumble (True, True, True) (Some s) 0 of
        Inr (_, Some u) \<Rightarrow> Some (uri_host u, uri_path u, uri_query u, uri_fragment u) | _ \<Rightarrow> None)"

text \<open>Where the parser leaves the grammar of RFC 3986. The percent encoding at the start of a path
  without a slash is cut off, as the look-ahead for the path moves the cursor; an at sign behind the
  authority makes it look for user information, and a legal URI is refused; the path of one slash is
  refused; the fragment keeps the character behind it, and the rest of the text is ignored; an
  incomplete percent encoding and a host that begins with a digit are cut without an error; and an
  object without a host, as the parser makes it for a \<open>mailto\<close> URI, cannot be assembled again.\<close>

theorem u_uri_crumble_deviations:
  "crumbs ''a:%41b'' = Some ([], ''1b'', [], [])
   \<and> crumbs ''http://h/a@b'' = None
   \<and> crumbs ''a:/'' = None
   \<and> crumbs ''http://h/#a b'' = Some (''h'', ''/'', [], ''a '')
   \<and> crumbs ''x:a%zz'' = Some ([], ''a%'', [], [])
   \<and> crumbs ''http://3com.com/'' = Some (''3'', [], [], [])
   \<and> u_uri_crumble (True, True, True) (Some ''mailto:x'') 0 = Inr (rc_ok, Some (empty_uri 0\<lparr> uri_scheme := ''mailto'', uri_path := ''x'' \<rparr>))
   \<and> u_uri_knead (Some (empty_uri 0\<lparr> uri_scheme := ''mailto'', uri_path := ''x'' \<rparr>)) = (rc_fail, ''mailto:'', Some (empty_uri 0\<lparr> uri_scheme := ''mailto'', uri_path := ''x'' \<rparr>))"
  by (intro conjI) code_simp+

end
