(* ===== verification/Config.thy ===== *)
theory Config
  imports Strfun
begin

text \<open>
  The configuration trees of \<open>srcs/toolbox/config.c\<close>: look-up of qualified names, setting of values
  with substitution of variables, the line based parser with groups and inclusion, printing, and
  loading from and saving to memory. A node holds its children in order. A pointer to a node is its
  path from the root of the tree, a list of positions, so that the parent and the root of a node can
  be followed; children are only added at the end while a pointer is held. A growing string is its
  text, as \<open>Ustring\<close> shows. The argument \<open>mem\<close> tells whether the allocations of a call succeed.
\<close>

section \<open>Trees and pointers\<close>

datatype u_config = Config (ckey: "string option") (cval: "string option") (kids: "u_config list")

type_synonym ptr = "nat list"

fun node_at :: "u_config \<Rightarrow> ptr \<Rightarrow> u_config" where
  "node_at c [] = c"
| "node_at c (i # p) = node_at (kids c ! i) p"

fun upd_at :: "(u_config \<Rightarrow> u_config) \<Rightarrow> u_config \<Rightarrow> ptr \<Rightarrow> u_config" where
  "upd_at f c [] = f c"
| "upd_at f c (i # p) = Config (ckey c) (cval c) ((kids c)[i := upd_at f (kids c ! i) p])"

definition set_cval :: "string option \<Rightarrow> u_config \<Rightarrow> u_config" where
  "set_cval v c = Config (ckey c) v (kids c)"

definition add_kids :: "u_config list \<Rightarrow> u_config \<Rightarrow> u_config" where
  "add_kids ks c = Config (ckey c) (cval c) (kids c @ ks)"

definition u_config_create :: "bool \<Rightarrow> u_config option" where
  "u_config_create mem = (if \<not> mem then None else Some (Config None None []))"

definition u_config_free :: "u_config option \<Rightarrow> rc" where
  "u_config_free c = rc_ok"

definition u_config_add_child :: "bool \<Rightarrow> u_config \<Rightarrow> ptr \<Rightarrow> string \<Rightarrow> rc \<times> u_config \<times> ptr" where
  "u_config_add_child mem r p key =
     (case u_config_create mem of None \<Rightarrow> (rc_fail, r, p)
      | Some c \<Rightarrow>
        (case u_strdup mem key of None \<Rightarrow> (rc_fail, r, p)
         | Some k \<Rightarrow>
             (rc_ok, upd_at (add_kids [Config (Some k) (cval c) (kids c)]) r p, p @ [length (kids (node_at r p))])))"

definition u_config_get_key :: "u_config option \<Rightarrow> string option" where
  "u_config_get_key co = Option.bind co ckey"

definition u_config_get_value :: "u_config option \<Rightarrow> string option" where
  "u_config_get_value co = Option.bind co cval"

definition u_config_has_children :: "u_config \<Rightarrow> bool" where
  "u_config_has_children c = (kids c \<noteq> [])"

definition u_config_del_key :: "u_config \<Rightarrow> ptr \<Rightarrow> nat \<Rightarrow> u_config" where
  "u_config_del_key r p i =
     upd_at (\<lambda>c. Config (ckey c) (cval c) (take i (kids c) @ drop (Suc i) (kids c))) r p"

definition u_config_del_child :: "u_config \<Rightarrow> ptr \<Rightarrow> ptr \<Rightarrow> rc \<times> u_config" where
  "u_config_del_child r p child =
     (if child \<noteq> [] \<and> butlast child = p \<and> List.last child < length (kids (node_at r p))
      then (rc_ok, u_config_del_key r p (List.last child)) else (rc_fail, r))"

text \<open>\<open>qsort\<close> is the function of the C library.\<close>

definition u_config_sort_children ::
  "bool \<Rightarrow> ((u_config \<Rightarrow> u_config \<Rightarrow> int) \<Rightarrow> u_config list \<Rightarrow> u_config list) \<Rightarrow>
   (u_config \<Rightarrow> u_config \<Rightarrow> int) \<Rightarrow> u_config \<Rightarrow> rc \<times> u_config" where
  "u_config_sort_children mem qsort cmp c =
     (if \<not> mem then (rc_fail, c) else (rc_ok, Config (ckey c) (cval c) (qsort cmp (kids c))))"

section \<open>Look-up\<close>

fun child_loop :: "u_config list \<Rightarrow> string option \<Rightarrow> int \<Rightarrow> nat \<Rightarrow> nat option" where
  "child_loop [] key n i = None"
| "child_loop (x # xs) key n i =
     (if key = None \<or> ckey x = key
      then (if n = 0 then Some i else child_loop xs key (n - 1) (Suc i))
      else child_loop xs key n (Suc i))"

definition u_config_get_child_n :: "u_config \<Rightarrow> string option \<Rightarrow> int \<Rightarrow> nat option" where
  "u_config_get_child_n c key n = child_loop (kids c) key n 0"

definition u_config_get_child :: "u_config \<Rightarrow> string \<Rightarrow> nat option" where
  "u_config_get_child c key = u_config_get_child_n c (Some key) 0"

text \<open>The part of a name in front of its first dot, and the part behind it.\<close>

definition first_key :: "string \<Rightarrow> string" where
  "first_key k = takeWhile (\<lambda>c. c \<noteq> CHR ''.'') k"

definition rest_key :: "string \<Rightarrow> string" where
  "rest_key k = tl (dropWhile (\<lambda>c. c \<noteq> CHR ''.'') k)"

lemma rest_key_shorter: "CHR ''.'' \<in> set k \<Longrightarrow> length (rest_key k) < length k"
  by (induction k) (auto simp: rest_key_def)

function u_config_get_subkey_nth :: "bool \<Rightarrow> u_config \<Rightarrow> string \<Rightarrow> int \<Rightarrow> ptr option" where
  "u_config_get_subkey_nth mem c subkey n =
     (if CHR ''.'' \<notin> set subkey then map_option (\<lambda>i. [i]) (u_config_get_child_n c (Some subkey) n)
      else
        (case u_strndup mem subkey (length (first_key subkey)) of None \<Rightarrow> None
         | Some f \<Rightarrow>
           (case u_config_get_child c f of None \<Rightarrow> None
            | Some i \<Rightarrow> map_option (\<lambda>q. i # q) (u_config_get_subkey_nth mem (kids c ! i) (rest_key subkey) 0))))"
  by pat_completeness auto
termination
  by (relation "measure (\<lambda>(mem, c, subkey, n). length subkey)") (auto simp: rest_key_shorter)

declare u_config_get_subkey_nth.simps [simp del]

definition u_config_get_subkey :: "bool \<Rightarrow> u_config \<Rightarrow> string \<Rightarrow> ptr option" where
  "u_config_get_subkey mem c subkey = u_config_get_subkey_nth mem c subkey 0"

definition u_config_get_subkey_value :: "bool \<Rightarrow> u_config \<Rightarrow> string \<Rightarrow> string option" where
  "u_config_get_subkey_value mem c subkey =
     (case u_config_get_subkey mem c subkey of None \<Rightarrow> None
      | Some q \<Rightarrow> u_config_get_value (Some (node_at c q)))"

definition u_config_get_subkey_value_i ::
  "bool \<Rightarrow> errno_val \<Rightarrow> u_config \<Rightarrow> string \<Rightarrow> int \<Rightarrow> int option" where
  "u_config_get_subkey_value_i mem errno c subkey dflt =
     (case u_config_get_subkey_value mem c subkey of None \<Rightarrow> Some dflt | Some v \<Rightarrow> u_atoi errno (Some v))"

definition true_words :: "string list" where
  "true_words = [''yes'', ''enable'', ''1'', ''on'']"

definition false_words :: "string list" where
  "false_words = [''no'', ''disable'', ''0'', ''off'']"

definition u_config_get_subkey_value_b :: "bool \<Rightarrow> u_config \<Rightarrow> string \<Rightarrow> int \<Rightarrow> int option" where
  "u_config_get_subkey_value_b mem c subkey dflt =
     (case u_config_get_subkey_value mem c subkey of None \<Rightarrow> Some dflt
      | Some v \<Rightarrow>
        if list_ex (strcaseeq v) true_words then Some 1
        else if list_ex (strcaseeq v) false_words then Some 0
        else None)"

section \<open>Traversal\<close>

datatype u_config_walk_t = U_CONFIG_WALK_PREORDER | U_CONFIG_WALK_POSTORDER

lemma child_loop_all: "child_loop xs None (int n) i = (if n < length xs then Some (i + n) else None)"
proof (induction xs arbitrary: n i)
  case (Cons x xs)
  then show ?case by (cases n) simp_all
qed simp

lemma get_child_all: "u_config_get_child_n c None (int n) = (if n < length (kids c) then Some n else None)"
  by (simp add: u_config_get_child_n_def child_loop_all)

lemma kid_size: "i < length (kids c) \<Longrightarrow> size (kids c ! i) < size c"
  by (cases c) (auto simp: less_Suc_eq_le dest!: nth_mem size_list_estimation' [where f = size, OF _ order_refl])

text \<open>The nodes that the callback is given, in their order, from the child number \<open>i\<close> on.\<close>

function walk_from :: "u_config \<Rightarrow> u_config_walk_t \<Rightarrow> nat \<Rightarrow> u_config list" where
  "walk_from c s i =
     (case u_config_get_child_n c None (int i) of None \<Rightarrow> []
      | Some j \<Rightarrow>
        (let cc = kids c ! j in
         (if s = U_CONFIG_WALK_PREORDER then [cc] else []) @
         (if u_config_has_children cc then walk_from cc s 0 else []) @
         (if s = U_CONFIG_WALK_POSTORDER then [cc] else []) @
         walk_from c s (Suc i)))"
  by pat_completeness auto
termination
  by (relation "measures [\<lambda>(c, s, i). size c, \<lambda>(c, s, i). length (kids c) - i]")
    (auto simp: get_child_all kid_size split: if_splits)

declare walk_from.simps [simp del]

definition u_config_walk :: "u_config \<Rightarrow> u_config_walk_t \<Rightarrow> u_config list" where
  "u_config_walk c s = walk_from c s 0"

section \<open>Values\<close>

text \<open>The text in front of the first \<open>${\<close> and the text behind it.\<close>

fun find_var :: "string \<Rightarrow> (string \<times> string) option" where
  "find_var [] = None"
| "find_var (c # s) =
     (if c = CHR ''$'' \<and> s \<noteq> [] \<and> hd s = CHR 0x7B then Some ([], tl s)
      else map_option (\<lambda>(a, b). (c # a, b)) (find_var s))"

lemma find_var_length: "find_var s = Some (a, b) \<Longrightarrow> length b < length s"
  by (induction s arbitrary: a) (auto split: if_splits simp: less_Suc_eq)

text \<open>
  The loop over the variables: a variable is looked up in the parent first and in the root when the
  parent does not have it. The result is \<open>None\<close> when a closing bracket is missing.
\<close>

function subst_vars :: "u_config \<Rightarrow> ptr \<Rightarrow> string \<Rightarrow> string \<Rightarrow> string option outcome" where
  "subst_vars r p vs acc =
     (case find_var vs of
        None \<Rightarrow> Inr (Some (acc @ vs))
      | Some (pre, s) \<Rightarrow>
        if CHR 0x7D \<notin> set s then Inr None
        else if p = [] then Inl Null_deref
        else
          (let var = takeWhile (\<lambda>c. c \<noteq> CHR 0x7D) s;
               ve = tl (dropWhile (\<lambda>c. c \<noteq> CHR 0x7D) s);
               parent = node_at r (butlast p);
               root = (if u_config_get_subkey True parent var = None then r else parent);
               varval = (case u_config_get_subkey_value True root var of None \<Rightarrow> [] | Some v \<Rightarrow> v)
           in subst_vars r p ve (acc @ pre @ varval)))"
  by pat_completeness auto
termination
proof (relation "measure (\<lambda>(r, p, vs, acc). length vs)", goal_cases)
  case (2 r p vs acc a pre s var ve)
  have "length (tl (dropWhile (\<lambda>c. c \<noteq> CHR 0x7D) s)) \<le> length s"
    using length_dropWhile_le [of "\<lambda>c. c \<noteq> CHR 0x7D" s] by simp
  with 2 find_var_length [of vs pre s] show ?case by simp
qed simp

declare subst_vars.simps [simp del]

definition u_config_set_value :: "bool \<Rightarrow> u_config \<Rightarrow> ptr \<Rightarrow> string option \<Rightarrow> (rc \<times> u_config) outcome" where
  "u_config_set_value mem r p val =
     (let r1 = upd_at (set_cval None) r p in
      case val of None \<Rightarrow> Inr (rc_ok, r1)
      | Some v \<Rightarrow>
        if \<not> mem then Inr (rc_fail, r1)
        else obind (subst_vars r1 p v []) (\<lambda>vo.
          case vo of None \<Rightarrow> Inr (rc_fail, r1)
          | Some t \<Rightarrow> Inr (rc_ok, upd_at (set_cval (u_trim (Some t))) r1 p)))"

text \<open>The third component is the child that was set, which only a name without dots gives.\<close>

function u_config_do_set_key ::
  "bool \<Rightarrow> u_config \<Rightarrow> ptr \<Rightarrow> string \<Rightarrow> string option \<Rightarrow> bool \<Rightarrow> (rc \<times> u_config \<times> ptr option) outcome" where
  "u_config_do_set_key mem r p key val overwrite =
     (if CHR ''.'' \<notin> set key then
        (let (rc, r1, q) =
           (case u_config_get_child (node_at r p) key of
              Some i \<Rightarrow> if \<not> overwrite then u_config_add_child mem r p key else (rc_ok, r, p @ [i])
            | None \<Rightarrow> u_config_add_child mem r p key)
         in if rc \<noteq> rc_ok then Inr (rc_fail, r1, None)
            else obind (u_config_set_value mem r1 q val) (\<lambda>(rc, r2).
              if rc \<noteq> rc_ok then Inr (rc_fail, r2, None) else Inr (rc_ok, r2, Some q)))
      else
        (case u_strndup mem key (length (first_key key)) of None \<Rightarrow> Inr (rc_fail, r, None)
         | Some child_key \<Rightarrow>
           (let (rc, r1, q) =
              (case u_config_get_child (node_at r p) child_key of
                 Some i \<Rightarrow> (rc_ok, r, p @ [i])
               | None \<Rightarrow> u_config_add_child mem r p child_key)
            in if rc \<noteq> rc_ok then Inr (rc_fail, r1, None)
               else obind (u_config_do_set_key mem r1 q (rest_key key) val overwrite) (\<lambda>(rc, r2, _).
                 Inr (rc, r2, None)))))"
  by pat_completeness auto
termination
  by (relation "measure (\<lambda>(mem, r, p, key, val, overwrite). length key)") (auto simp: rest_key_shorter)

declare u_config_do_set_key.simps [simp del]

definition u_config_add_key :: "bool \<Rightarrow> u_config \<Rightarrow> ptr \<Rightarrow> string \<Rightarrow> string option \<Rightarrow> (rc \<times> u_config) outcome" where
  "u_config_add_key mem r p key val =
     obind (u_config_do_set_key mem r p key val False) (\<lambda>(rc, r1, _). Inr (rc, r1))"

definition u_config_set_key :: "bool \<Rightarrow> u_config \<Rightarrow> ptr \<Rightarrow> string \<Rightarrow> string option \<Rightarrow> (rc \<times> u_config) outcome" where
  "u_config_set_key mem r p key val =
     obind (u_config_do_set_key mem r p key val True) (\<lambda>(rc, r1, _). Inr (rc, r1))"

section \<open>Lines\<close>

text \<open>
  A driver: the callbacks of the user, over the state of an open resource. \<open>gets\<close> gives the line or
  the part of it that fits, as a C string.
\<close>

record 's u_config_driver =
  d_open :: "(string \<Rightarrow> 's option) option"
  d_close :: "('s \<Rightarrow> bool) option"
  d_gets :: "('s \<Rightarrow> nat \<Rightarrow> string option \<times> 's) option"
  d_resolv :: "(string \<Rightarrow> nat \<Rightarrow> string option) option"

definition BUFSZ :: nat where "BUFSZ = 1024"

fun cs_getline :: "nat \<Rightarrow> ('s \<Rightarrow> nat \<Rightarrow> string option \<times> 's) \<Rightarrow> 's \<Rightarrow> string \<Rightarrow> (bool \<times> string \<times> 's) outcome" where
  "cs_getline 0 cb st ln = Inl Out_of_fuel"
| "cs_getline (Suc n) cb st ln =
     (case cb st BUFSZ of
        (None, st1) \<Rightarrow> Inr (False, ln, st1)
      | (Some buf, st1) \<Rightarrow>
        if buf = [] then Inr (True, ln, st1)
        else if \<not> u_isnl (List.last buf) then cs_getline n cb st1 (ln @ butlast buf)
        else Inr (True, ln @ butlast buf, st1))"

text \<open>The buffer of \<open>u_config_remove_comment\<close>, as the characters in front of and behind \<open>p\<close>.\<close>

fun uncomment :: "char \<Rightarrow> string \<Rightarrow> string \<Rightarrow> string" where
  "uncomment prev out [] = out"
| "uncomment prev out (c # s) =
     (if c = CHR ''#'' then
        (if prev \<noteq> CHR 0x5C then out else uncomment c (butlast out @ [c]) s)
      else uncomment c (out @ [c]) s)"

definition u_config_remove_comment :: "string \<Rightarrow> string option" where
  "u_config_remove_comment line = (if 2048 \<le> length line then None else Some (uncomment NUL [] line))"

datatype cline = L_bad | L_empty | L_open bool | L_close bool | L_entry string string

text \<open>What the body of the loop makes of a line; the flag of a bracket tells that it stands alone.\<close>

definition read_cline :: "string \<Rightarrow> cline" where
  "read_cline line =
     (case u_config_remove_comment line of None \<Rightarrow> L_bad
      | Some l0 \<Rightarrow>
        (let l1 = the (u_trim (Some l0)); l2 = rev (dropWhile u_isnl (rev l1)) in
         if l2 = [] then L_empty
         else
           (let ln = dropWhile u_isblank l2 in
            if ln \<noteq> [] \<and> hd ln = CHR 0x7B then L_open (u_isblank_str (tl ln))
            else if ln \<noteq> [] \<and> hd ln = CHR 0x7D then L_close (u_isblank_str (tl ln))
            else L_entry (takeWhile (\<lambda>c. \<not> u_isblank c) ln)
              (the (u_trim (Some (dropWhile (\<lambda>c. \<not> u_isblank c) ln)))))))"

section \<open>Loading\<close>

text \<open>
  The search for another \<open>include\<close> of the same path among the children \<open>xs\<close>, of which the first has
  position \<open>i\<close> and the one that is loaded position \<open>q\<close>.
\<close>

fun include_seen :: "u_config list \<Rightarrow> nat \<Rightarrow> nat \<Rightarrow> string \<Rightarrow> bool outcome" where
  "include_seen [] i q path = Inr False"
| "include_seen (x # xs) i q path =
     (if ckey x = Some ''include'' \<and> i \<noteq> q then
        (case cval x of None \<Rightarrow> Inl Null_deref
         | Some v \<Rightarrow> if v = path then Inr True else include_seen xs (Suc i) q path)
      else include_seen xs (Suc i) q path)"

definition u_config_include ::
  "(u_config \<Rightarrow> ptr \<Rightarrow> 's \<Rightarrow> (rc \<times> u_config \<times> 's) outcome) \<Rightarrow> 's u_config_driver \<Rightarrow>
   u_config \<Rightarrow> ptr \<Rightarrow> ptr \<Rightarrow> (rc \<times> u_config) outcome" where
  "u_config_include load drv r p inckey =
     (case u_config_get_value (Some (node_at r inckey)) of None \<Rightarrow> Inr (rc_fail, r)
      | Some path \<Rightarrow>
        obind (include_seen (kids (node_at r p)) 0 (List.last inckey) path) (\<lambda>seen.
          if seen then Inr (rc_fail, r)
          else
            (case d_open drv of None \<Rightarrow> Inr (rc_fail, r)
             | Some open_cb \<Rightarrow>
               (let name = dropWhile u_isblank path in
                case (case d_resolv drv of None \<Rightarrow> Some name | Some f \<Rightarrow> f name (U_FILENAME_MAX + 1)) of
                  None \<Rightarrow> Inr (rc_fail, r)
                | Some uri \<Rightarrow>
                  (case open_cb uri of None \<Rightarrow> Inr (rc_fail, r)
                   | Some st \<Rightarrow>
                     obind (load r p st) (\<lambda>(rc, r1, st1).
                       if rc \<noteq> rc_ok then Inr (rc_fail, r1)
                       else
                         (case d_close drv of None \<Rightarrow> Inr (rc_ok, r1)
                          | Some f \<Rightarrow> if f st1 then Inr (rc_ok, r1) else Inr (rc_fail, r1))))))))"

text \<open>The child that a bracket opens.\<close>

definition group_child :: "bool \<Rightarrow> bool \<Rightarrow> u_config \<Rightarrow> ptr \<Rightarrow> string \<Rightarrow> rc \<times> u_config \<times> ptr" where
  "group_child mem overwrite r p lastkey =
     (case u_config_get_child (node_at r p) lastkey of
        Some i \<Rightarrow> if \<not> overwrite then u_config_add_child mem r p lastkey else (rc_ok, r, p @ [i])
      | None \<Rightarrow> u_config_add_child mem r p lastkey)"

text \<open>An inclusion, when the key asks for one.\<close>

definition handle_include ::
  "(u_config \<Rightarrow> ptr \<Rightarrow> 's \<Rightarrow> (rc \<times> u_config \<times> 's) outcome) \<Rightarrow> bool \<Rightarrow> 's u_config_driver \<Rightarrow>
   u_config \<Rightarrow> ptr \<Rightarrow> string \<Rightarrow> string \<Rightarrow> (rc \<times> u_config) outcome" where
  "handle_include load mem drv r p key val =
     (if key \<noteq> ''include'' \<and> key \<noteq> ''-include'' then Inr (rc_ok, r)
      else if val = [] then Inr (rc_fail, r)
      else
        obind (u_config_do_set_key mem r p key (Some val) False) (\<lambda>(rc, r1, qo).
          case qo of None \<Rightarrow> Inr (rc_fail, r1)
          | Some q \<Rightarrow>
            obind (u_config_include load drv r1 p q) (\<lambda>(rc, r2).
              if rc \<noteq> rc_ok \<and> hd key \<noteq> CHR ''-'' then Inr (rc_fail, r2) else Inr (rc_ok, r2))))"

text \<open>The loop of \<open>u_config_do_load_drv\<close> for the node at \<open>p\<close>, after the last key without a value.\<close>

fun load_loop ::
  "nat \<Rightarrow> bool \<Rightarrow> 's u_config_driver \<Rightarrow> ('s \<Rightarrow> nat \<Rightarrow> string option \<times> 's) \<Rightarrow> bool \<Rightarrow>
   u_config \<Rightarrow> ptr \<Rightarrow> 's \<Rightarrow> string \<Rightarrow> (rc \<times> u_config \<times> 's) outcome" where
  "load_loop 0 mem drv cb overwrite r p st lastkey = Inl Out_of_fuel"
| "load_loop (Suc n) mem drv cb overwrite r p st lastkey =
     obind (cs_getline n cb st []) (\<lambda>(ok, line, st1).
       if \<not> ok then Inr (rc_ok, r, st1)
       else
         (case read_cline line of
            L_bad \<Rightarrow> Inr (rc_fail, r, st1)
          | L_empty \<Rightarrow> load_loop n mem drv cb overwrite r p st1 lastkey
          | L_open blank \<Rightarrow>
            if lastkey = [] \<or> \<not> blank then Inr (rc_fail, r, st1)
            else
              (case group_child mem overwrite r p lastkey of (rc, r1, q) \<Rightarrow>
                 if rc \<noteq> rc_ok then Inr (rc_fail, r1, st1)
                 else
                   obind (load_loop n mem drv cb overwrite r1 q st1 []) (\<lambda>(rc, r2, st2).
                     if rc \<noteq> rc_ok then Inr (rc_fail, r2, st2)
                     else load_loop n mem drv cb overwrite r2 p st2 []))
          | L_close blank \<Rightarrow> if p = [] \<or> \<not> blank then Inr (rc_fail, r, st1) else Inr (rc_ok, r, st1)
          | L_entry key val \<Rightarrow>
            obind (handle_include (\<lambda>r p st. load_loop n mem drv cb overwrite r p st []) mem drv r p key val) (\<lambda>(rc, r1).
              if rc \<noteq> rc_ok then Inr (rc_fail, r1, st1)
              else if val = [] then load_loop n mem drv cb overwrite r1 p st1 key
              else
                obind (u_config_do_set_key mem r1 p key (Some val) overwrite) (\<lambda>(rc, r2, _).
                  if rc \<noteq> rc_ok then Inr (rc_fail, r2, st1)
                  else load_loop n mem drv cb overwrite r2 p st1 lastkey))))"

definition u_config_do_load_drv ::
  "nat \<Rightarrow> bool \<Rightarrow> 's u_config_driver \<Rightarrow> bool \<Rightarrow> u_config \<Rightarrow> ptr \<Rightarrow> 's \<Rightarrow> (rc \<times> u_config \<times> 's) outcome" where
  "u_config_do_load_drv fuel mem drv overwrite r p st =
     (if \<not> mem then Inr (rc_fail, r, st)
      else
        (case d_gets drv of None \<Rightarrow> Inr (rc_fail, r, st)
         | Some cb \<Rightarrow> load_loop fuel mem drv cb overwrite r p st []))"

definition u_config_load_from ::
  "nat \<Rightarrow> bool \<Rightarrow> u_config \<Rightarrow> ptr \<Rightarrow> ('s \<Rightarrow> nat \<Rightarrow> string option \<times> 's) \<Rightarrow> 's \<Rightarrow> bool \<Rightarrow>
   (rc \<times> u_config \<times> 's) outcome" where
  "u_config_load_from fuel mem r p cb st overwrite =
     u_config_do_load_drv fuel mem \<lparr> d_open = None, d_close = None, d_gets = Some cb, d_resolv = None \<rparr>
       overwrite r p st"

text \<open>A driver without \<open>open\<close> reads from the null pointer, here the state \<open>null\<close>.\<close>

definition u_config_load_from_drv ::
  "nat \<Rightarrow> bool \<Rightarrow> 's \<Rightarrow> string option \<Rightarrow> 's u_config_driver option \<Rightarrow> bool \<Rightarrow> (rc \<times> u_config option) outcome" where
  "u_config_load_from_drv fuel mem null urio drvo overwrite =
     (case (urio, drvo) of
        (Some uri, Some drv) \<Rightarrow>
          if d_gets drv = None then Inr (rc_fail, None)
          else
            (case u_config_create mem of None \<Rightarrow> Inr (rc_fail, None)
             | Some c \<Rightarrow>
               (case (case d_open drv of None \<Rightarrow> Some null | Some f \<Rightarrow> f uri) of
                  None \<Rightarrow> Inr (rc_fail, None)
                | Some st \<Rightarrow>
                  obind (u_config_do_load_drv fuel mem drv overwrite c [] st) (\<lambda>(rc, r, st1).
                    if rc \<noteq> rc_ok then Inr (rc_fail, None)
                    else
                      (case d_close drv of None \<Rightarrow> Inr (rc_ok, Some r)
                       | Some f \<Rightarrow> if f st1 then Inr (rc_ok, Some r) else Inr (rc_fail, None)))))
      | _ \<Rightarrow> Inr (rc_fail, None))"

text \<open>
  Files: \<open>fs\<close> is the driver \<open>u_config_drv_fs\<close> over the streams of the C library, and \<open>file\<close> the stream
  that \<open>fdopen\<close> gives.
\<close>

definition u_config_load ::
  "nat \<Rightarrow> bool \<Rightarrow> 's u_config_driver \<Rightarrow> 's option \<Rightarrow> u_config \<Rightarrow> ptr \<Rightarrow> bool \<Rightarrow> (rc \<times> u_config) outcome" where
  "u_config_load fuel mem fs file r p overwrite =
     (case file of None \<Rightarrow> Inr (rc_fail, r)
      | Some st \<Rightarrow>
        obind (u_config_do_load_drv fuel mem fs overwrite r p st) (\<lambda>(rc, r1, _).
          if rc \<noteq> rc_ok then Inr (rc_fail, r1) else Inr (rc_ok, r1)))"

definition u_config_load_from_file ::
  "nat \<Rightarrow> bool \<Rightarrow> 's \<Rightarrow> 's u_config_driver \<Rightarrow> string option \<Rightarrow> (rc \<times> u_config option) outcome" where
  "u_config_load_from_file fuel mem null fs file =
     (case file of None \<Rightarrow> Inr (rc_fail, None)
      | Some f \<Rightarrow> u_config_load_from_drv fuel mem null (Some f) (Some fs) False)"

section \<open>Memory buffers\<close>

definition u_config_buf_gets :: "string \<Rightarrow> nat \<Rightarrow> string option \<times> string" where
  "u_config_buf_gets st n =
     (if n = 0 then (None, st)
      else if st = [] \<or> hd st = NUL then (None, st)
      else
        (let chunk = take_line (n - 1) st in
         (Some (takeWhile (\<lambda>c. c \<noteq> NUL) chunk), drop (length chunk) st)))"

definition u_config_load_from_buf :: "nat \<Rightarrow> bool \<Rightarrow> string \<Rightarrow> nat \<Rightarrow> (rc \<times> u_config option) outcome" where
  "u_config_load_from_buf fuel mem buf len =
     (case u_config_create mem of None \<Rightarrow> Inr (rc_fail, None)
      | Some c \<Rightarrow>
        obind (u_config_do_load_drv fuel mem
            \<lparr> d_open = None, d_close = None, d_gets = Some u_config_buf_gets, d_resolv = None \<rparr>
            False c [] (take len buf)) (\<lambda>(rc, r, _).
          if rc \<noteq> rc_ok then Inr (rc_fail, None) else Inr (rc_ok, Some r)))"

section \<open>Printing\<close>

text \<open>The text that is written for a node; \<open>sub\<close> tells that it has a parent.\<close>

definition key_line :: "string \<Rightarrow> string option \<Rightarrow> string" where
  "key_line k v = k @ '' '' @ (case v of None \<Rightarrow> [] | Some t \<Rightarrow> t) @ [CHR 0x0A]"

fun u_config_to_str :: "bool \<Rightarrow> u_config \<Rightarrow> string" where
  "u_config_to_str sub (Config k v ks) =
     (case k of None \<Rightarrow> [] | Some t \<Rightarrow> if t \<noteq> ''include'' then key_line t v else []) @
     (if ks \<noteq> [] then
        (if sub then [CHR 0x7B, CHR 0x0A] else []) @
        concat (map (u_config_to_str True) ks) @
        (if sub then [CHR 0x7D, CHR 0x0A] else [])
      else [])"

definition u_config_save_to_buf :: "bool \<Rightarrow> bool \<Rightarrow> u_config \<Rightarrow> string \<Rightarrow> nat \<Rightarrow> rc \<times> string" where
  "u_config_save_to_buf mem sub c buf sz =
     (if \<not> mem then (rc_fail, buf)
      else
        (let s = u_config_to_str sub c in
         if sz \<le> length s then (rc_fail, buf) else (rc_ok, snd (u_strlcpy buf s sz))))"

text \<open>The text that is printed to a stream.\<close>

definition indent :: "nat \<Rightarrow> string" where
  "indent l = replicate (l - 1) (CHR 0x09)"

fun u_config_print_to_fp :: "bool \<Rightarrow> u_config \<Rightarrow> nat \<Rightarrow> string" where
  "u_config_print_to_fp sub (Config k v ks) lev =
     indent lev @
     (case k of None \<Rightarrow> []
      | Some t \<Rightarrow> if t \<noteq> ''include''
                  then t @ (case v of None \<Rightarrow> [] | Some x \<Rightarrow> CHR 0x09 # x) @ [CHR 0x0A] else []) @
     (if ks \<noteq> [] then
        (if sub then indent lev @ [CHR 0x7B, CHR 0x0A] else []) @
        concat (map (\<lambda>c. u_config_print_to_fp True c (Suc lev)) ks) @
        (if sub then indent lev @ [CHR 0x7D, CHR 0x0A] else [])
      else [])"

section \<open>Pointers into a tree\<close>

fun valid_ptr :: "u_config \<Rightarrow> ptr \<Rightarrow> bool" where
  "valid_ptr c [] = True"
| "valid_ptr c (i # p) = (i < length (kids c) \<and> valid_ptr (kids c ! i) p)"

named_theorems ptr_simps \<open>rewriting of updates and look-ups through pointers\<close>

lemma node_upd [ptr_simps]: "valid_ptr c p \<Longrightarrow> node_at (upd_at f c p) p = f (node_at c p)"
  by (induction c p rule: valid_ptr.induct) simp_all

lemma upd_upd [ptr_simps]: "valid_ptr c p \<Longrightarrow> upd_at g (upd_at f c p) p = upd_at (\<lambda>x. g (f x)) c p"
  by (induction c p rule: valid_ptr.induct) simp_all

lemma valid_upd [ptr_simps]: "valid_ptr c p \<Longrightarrow> valid_ptr (upd_at f c p) p"
  by (induction c p rule: valid_ptr.induct) simp_all

lemma upd_cong: "f (node_at c p) = g (node_at c p) \<Longrightarrow> upd_at f c p = upd_at g c p"
  by (induction c p rule: node_at.induct) simp_all

lemma node_app [ptr_simps]: "node_at c (p @ q) = node_at (node_at c p) q"
  by (induction c p rule: node_at.induct) simp_all

lemma upd_app [ptr_simps]: "upd_at f c (p @ q) = upd_at (\<lambda>x. upd_at f x q) c p"
  by (induction c p rule: node_at.induct) simp_all

lemma valid_app [ptr_simps]: "valid_ptr c (p @ q) \<longleftrightarrow> valid_ptr c p \<and> valid_ptr (node_at c p) q"
  by (induction c p rule: node_at.induct) auto

lemma tree_sel [simp]:
  "ckey (set_cval v c) = ckey c" "cval (set_cval v c) = v" "kids (set_cval v c) = kids c"
  "ckey (add_kids ks c) = ckey c" "cval (add_kids ks c) = cval c" "kids (add_kids ks c) = kids c @ ks"
  by (simp_all add: set_cval_def add_kids_def)

lemma add_child_ok:
  "u_config_add_child True r p key
   = (rc_ok, upd_at (add_kids [Config (Some key) None []]) r p, p @ [length (kids (node_at r p))])"
  by (simp add: u_config_add_child_def u_config_create_def u_strdup_def u_strndup_def)

section \<open>Setting a value and looking it up\<close>

lemma child_loop_shift: "child_loop xs key n (Suc j) = map_option Suc (child_loop xs key n j)"
  by (induction xs arbitrary: n j key) simp_all

definition first_at :: "u_config list \<Rightarrow> string \<Rightarrow> nat option" where
  "first_at xs k = child_loop xs (Some k) 0 0"

lemma first_at_simps [simp]:
  "first_at [] k = None"
  "first_at (x # xs) k = (if ckey x = Some k then Some 0 else map_option Suc (first_at xs k))"
  by (simp_all add: first_at_def child_loop_shift)

lemma get_child_eq: "u_config_get_child c k = first_at (kids c) k"
  by (simp add: u_config_get_child_def u_config_get_child_n_def first_at_def)

lemma get_child_Some: "u_config_get_child c k = Some i \<Longrightarrow> i < length (kids c) \<and> ckey (kids c ! i) = Some k"
proof -
  have "first_at xs k = Some i \<Longrightarrow> i < length xs \<and> ckey (xs ! i) = Some k" for xs i
    by (induction xs arbitrary: i) (auto split: if_splits)
  then show "u_config_get_child c k = Some i \<Longrightarrow> ?thesis" by (simp add: get_child_eq)
qed

lemma get_child_keys: "map ckey (kids c) = map ckey (kids d) \<Longrightarrow> u_config_get_child c k = u_config_get_child d k"
proof -
  assume keys: "map ckey (kids c) = map ckey (kids d)"
  have e: "first_at xs k = first_at (map (\<lambda>m. Config m None []) (map ckey xs)) k" for xs
    by (induction xs) simp_all
  show ?thesis unfolding get_child_eq by (subst (1 2) e) (simp only: keys)
qed

lemma get_child_new:
  "u_config_get_child (add_kids [x] c) k =
     (case u_config_get_child c k of Some i \<Rightarrow> Some i
      | None \<Rightarrow> if ckey x = Some k then Some (length (kids c)) else None)"
proof -
  have "first_at (xs @ [x]) k =
      (case first_at xs k of Some i \<Rightarrow> Some i | None \<Rightarrow> if ckey x = Some k then Some (length xs) else None)" for xs
    by (induction xs) (simp_all split: option.split)
  from this [of "kids c"] show ?thesis by (simp add: get_child_eq)
qed

lemma strndup_first: "u_strndup True k (length (first_key k)) = Some (first_key k)"
proof -
  have "k = first_key k @ dropWhile (\<lambda>c. c \<noteq> CHR ''.'') k" by (simp add: first_key_def)
  then have "take (length (first_key k)) k = first_key k" by (metis append_eq_conv_conj)
  moreover have "length (first_key k) \<le> length k" by (simp add: first_key_def length_takeWhile_le)
  ultimately show ?thesis by (simp add: u_strndup_def)
qed

lemma key_parts: "CHR ''.'' \<in> set k \<Longrightarrow> k = first_key k @ CHR ''.'' # rest_key k \<and> CHR ''.'' \<notin> set (first_key k)"
  by (induction k) (auto simp: first_key_def rest_key_def)

lemma value_plain:
  "CHR ''.'' \<notin> set k \<Longrightarrow> u_config_get_subkey_value True c k =
   (case u_config_get_child c k of None \<Rightarrow> None | Some i \<Rightarrow> cval (kids c ! i))"
  by (simp add: u_config_get_subkey_value_def u_config_get_subkey_def u_config_get_subkey_nth.simps
      u_config_get_child_def u_config_get_value_def split: option.split)

lemma value_dotted:
  "CHR ''.'' \<in> set k \<Longrightarrow> u_config_get_subkey_value True c k =
   (case u_config_get_child c (first_key k) of None \<Rightarrow> None
    | Some i \<Rightarrow> u_config_get_subkey_value True (kids c ! i) (rest_key k))"
  by (simp add: u_config_get_subkey_value_def u_config_get_subkey_def u_config_get_subkey_nth.simps [of True c]
      strndup_first u_config_get_value_def split: option.split)

text \<open>What \<open>u_config_do_set_key\<close> does to the node it is called on, for a value without variables.\<close>

function set_sub :: "string \<Rightarrow> string option \<Rightarrow> bool \<Rightarrow> u_config \<Rightarrow> u_config" where
  "set_sub key v overwrite c =
     (if CHR ''.'' \<notin> set key then
        (case u_config_get_child c key of
           Some i \<Rightarrow>
             if overwrite then Config (ckey c) (cval c) ((kids c)[i := set_cval v (kids c ! i)])
             else add_kids [Config (Some key) v []] c
         | None \<Rightarrow> add_kids [Config (Some key) v []] c)
      else
        (case u_config_get_child c (first_key key) of
           Some i \<Rightarrow> Config (ckey c) (cval c) ((kids c)[i := set_sub (rest_key key) v overwrite (kids c ! i)])
         | None \<Rightarrow> add_kids [set_sub (rest_key key) v overwrite (Config (Some (first_key key)) None [])] c))"
  by pat_completeness auto
termination
  by (relation "measure (\<lambda>(key, v, overwrite, c). length key)") (auto simp: rest_key_shorter)

declare set_sub.simps [simp del]

lemma set_sub_sel [simp]: "ckey (set_sub k v ow c) = ckey c" "cval (set_sub k v ow c) = cval c"
  by (simp_all add: set_sub.simps [of k] split: option.split)

definition no_vars :: "string option \<Rightarrow> bool" where
  "no_vars v = (case v of None \<Rightarrow> True | Some t \<Rightarrow> find_var t = None)"

lemma set_value_plain:
  assumes "valid_ptr r p" "no_vars v"
  shows "u_config_set_value True r p v = Inr (rc_ok, upd_at (set_cval (map_option strip v)) r p)"
proof -
  have sv: "set_cval a (set_cval b c) = set_cval a c" for a b c by (simp add: set_cval_def)
  show ?thesis
    using assms by (cases v)
      (simp_all add: u_config_set_value_def no_vars_def subst_vars.simps u_trim_eq ptr_simps sv)
qed

lemma set_list_nth_Suc: "(xs @ [x])[length xs := y] = xs @ [y]"
  by simp

lemma do_set_key_plain:
  assumes "valid_ptr r p" "no_vars v"
  shows "\<exists>q. u_config_do_set_key True r p key v ow
    = Inr (rc_ok, upd_at (set_sub key (map_option strip v) ow) r p, q)"
  using assms(1)
proof (induction "length key" arbitrary: key r p rule: less_induct)
  case less
  let ?v = "map_option strip v" and ?c = "node_at r p"
  show ?case
  proof (cases "CHR ''.'' \<in> set key")
    case False
    show ?thesis
    proof (cases "\<exists>i. u_config_get_child ?c key = Some i \<and> ow")
      case True
      then obtain i where i: "u_config_get_child ?c key = Some i" "ow" by blast
      then have "valid_ptr r (p @ [i])" using less.prems get_child_Some by (simp add: ptr_simps)
      note sv = set_value_plain [OF this assms(2)]
      have "upd_at (\<lambda>x. upd_at (set_cval ?v) x [i]) r p = upd_at (set_sub key ?v ow) r p"
        by (rule upd_cong) (use i False in \<open>simp add: set_sub.simps [of key]\<close>)
      with sv i False show ?thesis by (simp add: u_config_do_set_key.simps [of True r p key] ptr_simps)
    next
      case no: False
      let ?r = "upd_at (add_kids [Config (Some key) None []]) r p" and ?q = "p @ [length (kids ?c)]"
      have "valid_ptr ?r ?q" using less.prems by (simp add: ptr_simps)
      note sv = set_value_plain [OF this assms(2)]
      have "upd_at (set_cval ?v) ?r ?q = upd_at (set_sub key ?v ow) r p"
        unfolding upd_app upd_upd [OF less.prems]
        by (rule upd_cong) (use no False in \<open>auto simp: set_sub.simps [of key] add_kids_def set_cval_def split: option.split\<close>)
      with sv no False show ?thesis
        by (auto simp: u_config_do_set_key.simps [of True r p key] add_child_ok split: option.split)
    qed
  next
    case True
    have sh: "length (rest_key key) < length key" by (rule rest_key_shorter [OF True])
    show ?thesis
    proof (cases "u_config_get_child ?c (first_key key)")
      case (Some i)
      then have "valid_ptr r (p @ [i])" using less.prems get_child_Some by (simp add: ptr_simps)
      from less.hyps [OF sh this] obtain q where
        q: "u_config_do_set_key True r (p @ [i]) (rest_key key) v ow
          = Inr (rc_ok, upd_at (set_sub (rest_key key) ?v ow) r (p @ [i]), q)" by blast
      have "upd_at (set_sub (rest_key key) ?v ow) r (p @ [i]) = upd_at (set_sub key ?v ow) r p"
        unfolding upd_app by (rule upd_cong) (use Some True in \<open>simp add: set_sub.simps [of key]\<close>)
      with q Some True show ?thesis
        by (simp add: u_config_do_set_key.simps [of True r p key] strndup_first)
    next
      case None
      let ?r = "upd_at (add_kids [Config (Some (first_key key)) None []]) r p" and ?q = "p @ [length (kids ?c)]"
      have "valid_ptr ?r ?q" using less.prems by (simp add: ptr_simps)
      from less.hyps [OF sh this] obtain q where
        q: "u_config_do_set_key True ?r ?q (rest_key key) v ow
          = Inr (rc_ok, upd_at (set_sub (rest_key key) ?v ow) ?r ?q, q)" by blast
      have "upd_at (set_sub (rest_key key) ?v ow) ?r ?q = upd_at (set_sub key ?v ow) r p"
        unfolding upd_app upd_upd [OF less.prems]
        by (rule upd_cong) (use None True in \<open>simp add: set_sub.simps [of key] add_kids_def\<close>)
      with q None True show ?thesis
        by (simp add: u_config_do_set_key.simps [of True r p key] strndup_first add_child_ok)
    qed
  qed
qed

lemma keys_update: "i < length (kids c) \<Longrightarrow> ckey x = ckey (kids c ! i) \<Longrightarrow>
    u_config_get_child (Config a b ((kids c)[i := x])) k = u_config_get_child c k"
  by (rule get_child_keys) (simp add: map_update list_update_same_conv)

lemma value_empty: "u_config_get_subkey_value True (Config a b []) k = None"
proof (cases "CHR ''.'' \<in> set k")
  case True
  then show ?thesis by (simp add: value_dotted u_config_get_child_def u_config_get_child_n_def)
next
  case False
  then show ?thesis by (simp add: value_plain u_config_get_child_def u_config_get_child_n_def)
qed

lemma key_eqI:
  assumes "CHR ''.'' \<in> set k" "CHR ''.'' \<in> set k'"
  shows "k = k' \<longleftrightarrow> first_key k = first_key k' \<and> rest_key k = rest_key k'"
  using key_parts [OF assms(1)] key_parts [OF assms(2)] by metis

text \<open>How look-ups change with a child: the value of the whole name, given the child \<open>x\<close> that is reached.\<close>

definition value_in :: "u_config \<Rightarrow> string \<Rightarrow> string option" where
  "value_in x k = (if CHR ''.'' \<in> set k then u_config_get_subkey_value True x (rest_key k) else cval x)"

definition step_key :: "string \<Rightarrow> string" where
  "step_key k = (if CHR ''.'' \<in> set k then first_key k else k)"

lemma value_step:
  "u_config_get_subkey_value True c k =
   (case u_config_get_child c (step_key k) of None \<Rightarrow> None | Some i \<Rightarrow> value_in (kids c ! i) k)"
  by (simp add: value_plain value_dotted value_in_def step_key_def split: option.split)

lemma value_update:
  assumes "u_config_get_child c f = Some i" "ckey x = Some f"
  shows "u_config_get_subkey_value True (Config a b ((kids c)[i := x])) k =
    (if step_key k = f then value_in x k else u_config_get_subkey_value True c k)"
proof -
  have i: "i < length (kids c)" "ckey (kids c ! i) = Some f" using get_child_Some [OF assms(1)] by auto
  have "u_config_get_child (Config a b ((kids c)[i := x])) k' = u_config_get_child c k'" for k'
    by (rule keys_update) (use i assms(2) in simp_all)
  moreover have "u_config_get_child c (step_key k) = Some i \<longleftrightarrow> step_key k = f"
    using get_child_Some [of c "step_key k" i] i(2) assms(1) by auto
  ultimately show ?thesis
    using i(1) by (cases "step_key k = f")
      (simp_all add: value_step [of _ k] nth_list_update assms(1) split: option.split)
qed

lemma value_add:
  assumes "u_config_get_child c f = None" "ckey x = Some f"
  shows "u_config_get_subkey_value True (add_kids [x] c) k =
    (if step_key k = f then value_in x k else u_config_get_subkey_value True c k)"
  using assms get_child_Some [of c "step_key k"]
  by (auto simp: value_step [of _ k] get_child_new nth_append split: option.split)

lemma value_absent:
  "u_config_get_child c (step_key k) = None \<Longrightarrow> u_config_get_subkey_value True c k = None"
  by (simp add: value_step)

lemma value_present:
  "u_config_get_child c (step_key k) = Some i \<Longrightarrow> u_config_get_subkey_value True c k = value_in (kids c ! i) k"
  by (simp add: value_step)

text \<open>A plain key: the child has a new value, and its own children are as before.\<close>

lemma value_in_set_cval:
  "value_in (set_cval v x) k = (if CHR ''.'' \<in> set k then value_in x k else v)"
proof -
  have "u_config_get_child (set_cval v x) k' = u_config_get_child x k'" for k'
    by (rule get_child_keys) simp
  then have "u_config_get_subkey_value True (set_cval v x) k' = u_config_get_subkey_value True x k'" for k'
    unfolding value_step by (simp split: option.split)
  then show ?thesis by (simp add: value_in_def)
qed

lemma lookup_plain:
  assumes "CHR ''.'' \<notin> set key"
  shows "u_config_get_subkey_value True (set_sub key v True c) k =
    (if k = key then v else u_config_get_subkey_value True c k)"
proof (cases "u_config_get_child c key")
  case None
  have new: "value_in (Config (Some key) v []) k = (if CHR ''.'' \<in> set k then None else v)"
    by (simp add: value_in_def value_empty)
  have "u_config_get_subkey_value True (set_sub key v True c) k =
      (if step_key k = key then value_in (Config (Some key) v []) k else u_config_get_subkey_value True c k)"
    using assms None value_add [of c key "Config (Some key) v []" k] by (simp add: set_sub.simps [of key])
  with None assms new value_absent [of c k] show ?thesis by (auto simp: step_key_def)
next
  case (Some i)
  let ?x = "set_cval v (kids c ! i)"
  have "ckey ?x = Some key" using get_child_Some [OF Some] by simp
  then have "u_config_get_subkey_value True (set_sub key v True c) k =
      (if step_key k = key then value_in ?x k else u_config_get_subkey_value True c k)"
    using assms Some value_update [of c key i ?x] by (simp add: set_sub.simps [of key])
  with Some assms value_in_set_cval [of v "kids c ! i" k] value_present [of c k i] show ?thesis
    by (auto simp: step_key_def)
qed

lemma set_sub_lookup:
  "u_config_get_subkey_value True (set_sub key v True c) k =
   (if k = key then v else u_config_get_subkey_value True c k)"
proof (induction "length key" arbitrary: key c k rule: less_induct)
  case less
  show ?case
  proof (cases "CHR ''.'' \<in> set key")
    case False
    then show ?thesis by (rule lookup_plain)
  next
    case True
    let ?f = "first_key key" and ?x = "\<lambda>x. set_sub (rest_key key) v True x"
    have ih: "value_in (?x x) k = (if k = key \<and> step_key k = ?f then v else value_in x k)" if "step_key k = ?f" for x
      using less.hyps [OF rest_key_shorter [OF True]] True that key_eqI [of k key]
      by (auto simp: value_in_def step_key_def)
    have sk: "step_key key = ?f" using True by (simp add: step_key_def)
    show ?thesis
    proof (cases "u_config_get_child c ?f")
      case None
      let ?n = "Config (Some ?f) None []"
      have "u_config_get_subkey_value True (set_sub key v True c) k =
          (if step_key k = ?f then value_in (?x ?n) k else u_config_get_subkey_value True c k)"
        using True None value_add [of c ?f "?x ?n" k] by (simp add: set_sub.simps [of key])
      moreover have "value_in ?n k = None" by (simp add: value_in_def value_empty)
      ultimately show ?thesis using ih [of ?n] sk None value_absent [of c k] by auto
    next
      case (Some i)
      have "ckey (?x (kids c ! i)) = Some ?f" using get_child_Some [OF Some] by simp
      then have "u_config_get_subkey_value True (set_sub key v True c) k =
          (if step_key k = ?f then value_in (?x (kids c ! i)) k else u_config_get_subkey_value True c k)"
        using True Some value_update [of c ?f i "?x (kids c ! i)"] by (simp add: set_sub.simps [of key])
      with ih [of "kids c ! i"] sk Some value_present [of c k i] show ?thesis by auto
    qed
  qed
qed

section \<open>Variables\<close>

text \<open>A value as literal texts, each followed by a variable, and a last literal.\<close>

definition var_text :: "(string \<times> string) list \<Rightarrow> string \<Rightarrow> string" where
  "var_text ps e = concat (map (\<lambda>(l, v). l @ CHR ''$'' # CHR 0x7B # v @ [CHR 0x7D]) ps) @ e"

definition wf_pieces :: "(string \<times> string) list \<Rightarrow> string \<Rightarrow> bool" where
  "wf_pieces ps e = (list_all (\<lambda>(l, v). find_var l = None \<and> CHR 0x7D \<notin> set v) ps \<and> find_var e = None)"

text \<open>The value of a variable at the node \<open>p\<close>: in the scope of its parent, or else from the root.\<close>

definition resolve :: "u_config \<Rightarrow> ptr \<Rightarrow> string \<Rightarrow> string" where
  "resolve r p v =
     (let parent = node_at r (butlast p) in
      case u_config_get_subkey_value True (if u_config_get_subkey True parent v = None then r else parent) v of
        None \<Rightarrow> [] | Some t \<Rightarrow> t)"

definition expand :: "u_config \<Rightarrow> ptr \<Rightarrow> (string \<times> string) list \<Rightarrow> string \<Rightarrow> string" where
  "expand r p ps e = concat (map (\<lambda>(l, v). l @ resolve r p v) ps) @ e"

lemma find_var_app: "find_var l = None \<Longrightarrow> find_var (l @ CHR ''$'' # CHR 0x7B # s) = Some (l, s)"
  by (induction l) (auto simp: hd_append split: if_splits)

lemma until_char:
  "x \<notin> set v \<Longrightarrow> takeWhile (\<lambda>c. c \<noteq> x) (v @ x # y) = v"
  "x \<notin> set v \<Longrightarrow> dropWhile (\<lambda>c. c \<noteq> x) (v @ x # y) = x # y"
  by (induction v) auto

lemma subst_vars_ok:
  assumes "p \<noteq> []" "wf_pieces ps e"
  shows "subst_vars r p (var_text ps e) acc = Inr (Some (acc @ expand r p ps e))"
  using assms(2)
proof (induction ps arbitrary: acc)
  case Nil
  then show ?case by (simp add: subst_vars.simps var_text_def expand_def wf_pieces_def)
next
  case (Cons lv ps)
  obtain l v where lv: "lv = (l, v)" by force
  have w: "find_var l = None" "CHR 0x7D \<notin> set v" "wf_pieces ps e"
    using Cons.prems lv by (simp_all add: wf_pieces_def)
  have t: "var_text (lv # ps) e = l @ CHR ''$'' # CHR 0x7B # v @ CHR 0x7D # var_text ps e"
    by (simp add: var_text_def lv)
  have s: "takeWhile (\<lambda>c. c \<noteq> CHR 0x7D) (v @ CHR 0x7D # x) = v"
    "dropWhile (\<lambda>c. c \<noteq> CHR 0x7D) (v @ CHR 0x7D # x) = CHR 0x7D # x" for x
    using until_char [OF w(2)] by simp_all
  let ?s = "v @ CHR 0x7D # var_text ps e"
  have f: "find_var (var_text (lv # ps) e) = Some (l, ?s)" unfolding t by (rule find_var_app [OF w(1)])
  have i: "CHR 0x7D \<in> set ?s" by simp
  have "subst_vars r p (var_text (lv # ps) e) acc = subst_vars r p (var_text ps e) (acc @ l @ resolve r p v)"
    unfolding subst_vars.simps [of r p "var_text (lv # ps) e"] f option.case prod.case s Let_def
    using assms(1) i by (simp only: resolve_def Let_def if_False not_True_eq_False list.sel)
  with Cons.IH [OF w(3)] show ?case by (simp add: expand_def lv)
qed

section \<open>Traversal as a recursion\<close>

fun preorder :: "u_config \<Rightarrow> u_config list" where
  "preorder (Config k v ks) = concat (map (\<lambda>c. c # preorder c) ks)"

fun postorder :: "u_config \<Rightarrow> u_config list" where
  "postorder (Config k v ks) = concat (map (\<lambda>c. postorder c @ [c]) ks)"

lemma orders_kids:
  "preorder c = concat (map (\<lambda>c. c # preorder c) (kids c))"
  "postorder c = concat (map (\<lambda>c. postorder c @ [c]) (kids c))"
  by (cases c; simp)+

lemma walk_from_eq:
  "walk_from c s i =
     concat (map (\<lambda>x. if s = U_CONFIG_WALK_PREORDER then x # preorder x else postorder x @ [x]) (drop i (kids c)))"
proof (induction c s i rule: walk_from.induct)
  case (1 c s i)
  show ?case
  proof (cases "i < length (kids c)")
    case False
    then show ?thesis by (subst walk_from.simps) (simp add: get_child_all)
  next
    case True
    then have j: "u_config_get_child_n c None (int i) = Some i" by (simp add: get_child_all)
    let ?x = "kids c ! i"
    have sub: "(if u_config_has_children ?x then walk_from ?x s 0 else [])
        = (if s = U_CONFIG_WALK_PREORDER then preorder ?x else postorder ?x)"
    proof (cases "u_config_has_children ?x")
      case True
      with 1(1) [OF j refl] show ?thesis by (cases s) (simp_all add: orders_kids [of ?x])
    next
      case False
      then show ?thesis by (simp add: u_config_has_children_def orders_kids [of ?x])
    qed
    have d: "drop i (kids c) = ?x # drop (Suc i) (kids c)" using True by (simp add: Cons_nth_drop_Suc)
    show ?thesis
      using 1(2) [OF j refl] by (subst walk_from.simps) (cases s; simp add: j Let_def sub d)
  qed
qed

section \<open>Printed lines\<close>

definition blanks :: "string \<Rightarrow> bool" where
  "blanks b = list_all u_isblank b"

definition plain_char :: "char \<Rightarrow> bool" where
  "plain_char c = (\<not> u_isnl c \<and> c \<noteq> NUL \<and> c \<noteq> CHR ''#'')"

definition wf_key :: "string \<Rightarrow> bool" where
  "wf_key k = (k \<noteq> [] \<and> list_all (\<lambda>c. plain_char c \<and> \<not> u_isblank c \<and> c \<noteq> CHR ''.'') k \<and>
     hd k \<noteq> CHR 0x7B \<and> hd k \<noteq> CHR 0x7D \<and> k \<noteq> ''include'' \<and> k \<noteq> ''-include'')"

definition wf_val :: "string \<Rightarrow> bool" where
  "wf_val v = (v \<noteq> [] \<and> list_all plain_char v \<and> \<not> u_isblank (hd v) \<and> \<not> u_isblank (List.last v) \<and>
     find_var v = None)"

lemma uncomment_plain: "CHR ''#'' \<notin> set s \<Longrightarrow> uncomment prev out s = out @ s"
  by (induction s arbitrary: prev out) auto

lemma dropWhile_blanks: "blanks b \<Longrightarrow> s = [] \<or> \<not> u_isblank (hd s) \<Longrightarrow> dropWhile u_isblank (b @ s) = s"
  by (induction b) (cases s; simp add: blanks_def)+

lemma strip_core:
  assumes "blanks b1" "blanks b2" "s \<noteq> []" "\<not> u_isblank (hd s)" "\<not> u_isblank (List.last s)"
  shows "strip (b1 @ s @ b2) = s"
proof -
  have "dropWhile u_isblank (b1 @ s @ b2) = s @ b2"
    by (rule dropWhile_blanks) (use assms in auto)
  moreover have "dropWhile u_isblank (rev b2 @ rev s) = rev s"
    by (rule dropWhile_blanks) (use assms in \<open>auto simp: blanks_def list_all_iff hd_rev\<close>)
  ultimately show ?thesis by (simp add: strip_def)
qed

lemma strip_blanks: "blanks b \<Longrightarrow> strip b = []"
  unfolding strip_def using dropWhile_blanks [of b "[]"] by (simp del: dropWhile_eq_Nil_conv)

lemma strip_Nil [simp]: "strip [] = []"
  by (simp add: strip_def)

lemma no_newline_end: "s \<noteq> [] \<Longrightarrow> \<not> u_isnl (List.last s) \<Longrightarrow> rev (dropWhile u_isnl (rev s)) = s"
  by (cases s rule: rev_cases) simp_all

text \<open>A line whose text between blanks is \<open>s\<close>.\<close>

lemma read_cline_core:
  assumes "blanks b1" "blanks b2" "s \<noteq> []" "\<not> u_isblank (hd s)" "\<not> u_isblank (List.last s)"
    "\<not> u_isnl (List.last s)" "CHR ''#'' \<notin> set s" "length (b1 @ s @ b2) < 2048"
  shows "read_cline (b1 @ s @ b2) =
    (if hd s = CHR 0x7B then L_open (u_isblank_str (tl s))
     else if hd s = CHR 0x7D then L_close (u_isblank_str (tl s))
     else L_entry (takeWhile (\<lambda>c. \<not> u_isblank c) s) (strip (dropWhile (\<lambda>c. \<not> u_isblank c) s)))"
proof -
  have "CHR ''#'' \<notin> set (b1 @ s @ b2)"
    using assms(1,2,7) by (auto simp: blanks_def list_all_iff u_isblank_def)
  then have "u_config_remove_comment (b1 @ s @ b2) = Some (b1 @ s @ b2)"
    using assms(8) by (simp add: u_config_remove_comment_def uncomment_plain)
  moreover have "dropWhile u_isblank s = s" using assms(3,4) by (cases s) simp_all
  moreover have "\<exists>x \<in> set s. \<not> u_isnl x" using assms(3,6) last_in_set by blast
  ultimately show ?thesis
    using assms(3) strip_core [OF assms(1-5)] no_newline_end [OF assms(3,6)]
    by (simp add: read_cline_def u_trim_eq Let_def)
qed

lemma wf_key_chars:
  assumes "wf_key k"
  shows "k \<noteq> []" "CHR ''#'' \<notin> set k" "CHR ''.'' \<notin> set k" "\<not> u_isblank (hd k)" "\<not> u_isblank (List.last k)"
    "\<not> u_isnl (List.last k)" "takeWhile (\<lambda>c. \<not> u_isblank c) k = k" "dropWhile (\<lambda>c. \<not> u_isblank c) k = []"
    "\<forall>c \<in> set k. \<not> u_isblank c" "k \<noteq> ''include''" "k \<noteq> ''-include''" "NUL \<notin> set k" "\<forall>c \<in> set k. \<not> u_isnl c"
  using assms last_in_set [of k] hd_in_set [of k]
  by (auto simp: wf_key_def plain_char_def list_all_iff)

lemma read_key:
  assumes "blanks b1" "blanks b2" "wf_key k" "length (b1 @ k @ b2) < 2048"
  shows "read_cline (b1 @ k @ b2) = L_entry k []"
proof -
  have "strip (dropWhile (\<lambda>c. \<not> u_isblank c) k) = []"
    by (simp only: wf_key_chars(8) [OF assms(3)] strip_Nil)
  then show ?thesis
    using read_cline_core [OF assms(1,2) wf_key_chars(1,4,5,6,2) [OF assms(3)] assms(4)] wf_key_chars(7) [OF assms(3)]
      assms(3) by (simp add: wf_key_def)
qed

lemma read_entry:
  assumes "blanks b1" "blanks b2" "b2 \<noteq> []" "wf_key k" "wf_val v" "length (b1 @ k @ b2 @ v) < 2048"
  shows "read_cline (b1 @ k @ b2 @ v) = L_entry k v"
proof -
  note k = wf_key_chars [OF assms(4)]
  have v: "v \<noteq> []" "\<not> u_isblank (hd v)" "\<not> u_isblank (List.last v)" "\<not> u_isnl (List.last v)" "CHR ''#'' \<notin> set v"
    using assms(5) last_in_set [of v] by (auto simp: wf_val_def plain_char_def list_all_iff)
  have b: "CHR ''#'' \<notin> set b2" using assms(2) by (auto simp: blanks_def list_all_iff u_isblank_def)
  let ?s = "k @ b2 @ v"
  have nb: "blanks []" by (simp add: blanks_def)
  have s: "?s \<noteq> []" "hd ?s = hd k" "List.last ?s = List.last v" "CHR ''#'' \<notin> set ?s"
    using k(1,2) v(1,5) b by simp_all
  have tk: "takeWhile (\<lambda>c. \<not> u_isblank c) ?s = k" "dropWhile (\<lambda>c. \<not> u_isblank c) ?s = b2 @ v"
    using k(9) assms(2,3) by (cases b2; simp add: blanks_def takeWhile_append dropWhile_append)+
  have "strip (b2 @ v) = v" using strip_core [OF assms(2) nb v(1-3)] by simp
  moreover have "read_cline (b1 @ ?s @ []) = L_entry k (strip (b2 @ v))"
    using read_cline_core [OF assms(1) nb s(1) _ _ _ s(4)] k(4) v(3,4) s(2,3) assms(4,6) tk
    by (simp add: wf_key_def)
  ultimately show ?thesis by simp
qed

lemma read_open: "blanks b \<Longrightarrow> length b < 2000 \<Longrightarrow> read_cline (b @ [CHR 0x7B]) = L_open True"
  using read_cline_core [of b "[]" "[CHR 0x7B]"] by (simp add: blanks_def u_isblank_def u_isnl_def)

lemma read_close: "blanks b \<Longrightarrow> length b < 2000 \<Longrightarrow> read_cline (b @ [CHR 0x7D]) = L_close True"
  using read_cline_core [of b "[]" "[CHR 0x7D]"] by (simp add: blanks_def u_isblank_def u_isnl_def)

section \<open>Sources of lines\<close>

text \<open>
  What the parser relies on: \<open>gets\<close> gives the next line of the text that is left, \<open>fgets\<close> like, and
  reports the end.
\<close>

locale line_source =
  fixes gets :: "'s \<Rightarrow> nat \<Rightarrow> string option \<times> 's" and good :: "'s \<Rightarrow> bool" and view :: "'s \<Rightarrow> string"
  assumes gets_end: "good st \<Longrightarrow> view st = [] \<Longrightarrow> \<exists>st'. gets st BUFSZ = (None, st') \<and> good st' \<and> view st' = []"
    and gets_line: "good st \<Longrightarrow> view st \<noteq> [] \<Longrightarrow>
      \<exists>st'. gets st BUFSZ = (Some (take_line (BUFSZ - 1) (view st)), st') \<and> good st' \<and>
        view st' = drop (length (take_line (BUFSZ - 1) (view st))) (view st)"
begin

lemma getline_ok:
  assumes "good st" "view st = l @ nl # s" "nl \<notin> set l" "length l < BUFSZ - 1"
  shows "\<exists>st'. cs_getline (Suc n) gets st [] = Inr (True, l, st') \<and> good st' \<and> view st' = s"
proof -
  have "take_line (BUFSZ - 1) (view st) = l @ [nl]" using assms(2-4) by (simp add: take_line_ok)
  with gets_line [OF assms(1)] assms(2) obtain st' where
    "gets st BUFSZ = (Some (l @ [nl]), st')" "good st'" "view st' = s" by auto
  then show ?thesis by (simp add: u_isnl_def)
qed

lemma getline_end:
  assumes "good st" "view st = []"
  shows "\<exists>st'. cs_getline (Suc n) gets st [] = Inr (False, [], st') \<and> good st' \<and> view st' = []"
  using gets_end [OF assms] by auto

end

section \<open>Loading what was printed\<close>

text \<open>Trees that can be printed: a node has either a value or children.\<close>

fun wf_config :: "u_config \<Rightarrow> bool" where
  "wf_config (Config k v ks) =
     ((case k of None \<Rightarrow> False | Some t \<Rightarrow> wf_key t) \<and>
      (if ks = [] then (case v of None \<Rightarrow> False | Some t \<Rightarrow> wf_val t) else v = None \<and> list_all wf_config ks))"

text \<open>A printed tree, with any blanks as indentation and between the key and the value.\<close>

fun layout :: "(nat \<Rightarrow> string) \<Rightarrow> string \<Rightarrow> string \<Rightarrow> nat \<Rightarrow> u_config \<Rightarrow> string" where
  "layout ind sp tail lev (Config k v ks) =
     ind lev @ the k @ (case v of None \<Rightarrow> tail | Some t \<Rightarrow> sp @ t) @ [nl] @
     (if ks = [] then []
      else ind lev @ [CHR 0x7B, nl] @ concat (map (layout ind sp tail (Suc lev)) ks) @ ind lev @ [CHR 0x7D, nl])"

text \<open>Every line is shorter than the buffer.\<close>

fun fits_lines :: "(nat \<Rightarrow> string) \<Rightarrow> string \<Rightarrow> string \<Rightarrow> nat \<Rightarrow> u_config \<Rightarrow> bool" where
  "fits_lines ind sp tail lev (Config k v ks) =
     (length (ind lev @ the k @ (case v of None \<Rightarrow> tail | Some t \<Rightarrow> sp @ t)) < BUFSZ - 1 \<and>
      list_all (fits_lines ind sp tail (Suc lev)) ks)"

text \<open>The rounds of the loop for a tree, in all and in the call for its parent.\<close>

fun rounds :: "u_config \<Rightarrow> nat" where
  "rounds (Config k v ks) = (if ks = [] then 1 else 3 + sum_list (map rounds ks))"

definition own_rounds :: "u_config \<Rightarrow> nat" where
  "own_rounds c = (if kids c = [] then 1 else 2)"

abbreviation (input) all_rounds :: "u_config list \<Rightarrow> nat" where "all_rounds ks \<equiv> sum_list (map rounds ks)"
abbreviation (input) all_own :: "u_config list \<Rightarrow> nat" where "all_own ks \<equiv> sum_list (map own_rounds ks)"

lemma own_le: "all_own ks \<le> all_rounds ks"
proof -
  have "own_rounds c \<le> rounds c" for c by (cases c) (simp add: own_rounds_def)
  then show ?thesis by (simp add: sum_list_mono)
qed

lemma rounds_layout: "rounds c \<le> length (layout ind sp tail lev c)"
proof (induction c arbitrary: lev)
  case (Config k v ks)
  have "sum_list (map rounds ks) \<le> length (concat (map (layout ind sp tail (Suc lev)) ks))"
    using Config by (simp add: length_concat comp_def sum_list_mono)
  then show ?case by simp
qed

lemma plain_include:
  "wf_key k \<Longrightarrow> handle_include load mem drv r p k v = Inr (rc_ok, r)"
  by (simp add: handle_include_def wf_key_def)

lemma set_key_new:
  assumes "valid_ptr r p" "wf_key k" "wf_val v"
  shows "\<exists>q. u_config_do_set_key True r p k (Some v) False
    = Inr (rc_ok, upd_at (add_kids [Config (Some k) (Some v) []]) r p, q)"
proof -
  have "strip v = v"
    using strip_core [of "[]" "[]" v] assms(3) by (simp add: wf_val_def blanks_def)
  moreover have "set_sub k w False = add_kids [Config (Some k) w []]" for w
    using wf_key_chars(3) [OF assms(2)] by (intro ext) (simp add: set_sub.simps split: option.split)
  ultimately show ?thesis
    using do_set_key_plain [OF assms(1), of "Some v" k False] assms(3)
    by (simp add: wf_val_def no_vars_def)
qed

lemma wf_line_chars:
  assumes "wf_key k" "blanks b" "blanks b'"
  shows "nl \<notin> set (b @ k @ b')" "wf_val v \<Longrightarrow> nl \<notin> set v"
proof -
  have n: "u_isnl nl" "\<not> u_isblank nl" by (simp_all add: u_isnl_def u_isblank_def)
  show "nl \<notin> set (b @ k @ b')"
    using n assms(2,3) wf_key_chars(13) [OF assms(1)] by (auto simp: blanks_def list_all_iff)
  show "wf_val v \<Longrightarrow> nl \<notin> set v"
    using n by (auto simp: wf_val_def plain_char_def list_all_iff)
qed

lemma add_kids_Cons: "add_kids ks (add_kids [c] x) = add_kids (c # ks) x"
  by (simp add: add_kids_def)

lemma add_kids_Nil: "upd_at (add_kids []) r p = r"
proof (induction r p rule: node_at.induct)
  case (1 c)
  then show ?case by (cases c) (simp add: add_kids_def)
next
  case (2 c i p)
  then show ?case by (cases c) simp
qed

lemma fill_child:
  assumes "valid_ptr r p"
  shows "upd_at (add_kids ks) (upd_at (add_kids [Config k v []]) r p) (p @ [length (kids (node_at r p))])
    = upd_at (add_kids [Config k v ks]) r p"
  unfolding upd_app upd_upd [OF assms] by (rule upd_cong) (simp add: add_kids_def)

context line_source
begin

lemma getline_pos:
  assumes "good st" "view st = l @ nl # s" "nl \<notin> set l" "length l < BUFSZ - 1" "n > 0"
  shows "\<exists>st'. cs_getline n gets st [] = Inr (True, l, st') \<and> good st' \<and> view st' = s"
  using getline_ok [OF assms(1-4), of "n - 1"] assms(5) by simp

lemma step_end:
  assumes "good st" "view st = []" "n > 0"
  shows "\<exists>st1. load_loop (Suc n) True drv gets ow r p st lk = Inr (rc_ok, r, st1) \<and> good st1"
  using getline_end [OF assms(1,2), of "n - 1"] assms(3) by auto

lemma step_value:
  assumes "good st" "view st = l @ nl # s" "nl \<notin> set l" "length l < BUFSZ - 1" "n > 0"
    "read_cline l = L_entry k v" "wf_key k" "wf_val v" "valid_ptr r p"
  shows "\<exists>st1. good st1 \<and> view st1 = s \<and> load_loop (Suc n) True drv gets False r p st lk
    = load_loop n True drv gets False (upd_at (add_kids [Config (Some k) (Some v) []]) r p) p st1 lk"
proof -
  obtain st1 where g: "cs_getline n gets st [] = Inr (True, l, st1)" "good st1" "view st1 = s"
    using getline_pos [OF assms(1-5)] by blast
  obtain q where q: "u_config_do_set_key True r p k (Some v) False
      = Inr (rc_ok, upd_at (add_kids [Config (Some k) (Some v) []]) r p, q)"
    using set_key_new [OF assms(9,7,8)] by blast
  have "v \<noteq> []" using assms(8) by (simp add: wf_val_def)
  with g q show ?thesis by (intro exI [of _ st1]) (simp add: assms(6) plain_include [OF assms(7)])
qed

lemma step_key:
  assumes "good st" "view st = l @ nl # s" "nl \<notin> set l" "length l < BUFSZ - 1" "n > 0"
    "read_cline l = L_entry k []" "wf_key k"
  shows "\<exists>st1. good st1 \<and> view st1 = s \<and> load_loop (Suc n) True drv gets False r p st lk
    = load_loop n True drv gets False r p st1 k"
proof -
  obtain st1 where g: "cs_getline n gets st [] = Inr (True, l, st1)" "good st1" "view st1 = s"
    using getline_pos [OF assms(1-5)] by blast
  then show ?thesis by (intro exI [of _ st1]) (simp add: assms(6) plain_include [OF assms(7)])
qed

lemma step_open:
  assumes "good st" "view st = l @ nl # s" "nl \<notin> set l" "length l < BUFSZ - 1" "n > 0"
    "read_cline l = L_open True" "k \<noteq> []"
  shows "\<exists>st1. good st1 \<and> view st1 = s \<and> load_loop (Suc n) True drv gets False r p st k
    = obind (load_loop n True drv gets False (upd_at (add_kids [Config (Some k) None []]) r p)
          (p @ [length (kids (node_at r p))]) st1 [])
        (\<lambda>(rc, r2, st2). if rc \<noteq> rc_ok then Inr (rc_fail, r2, st2) else load_loop n True drv gets False r2 p st2 [])"
proof -
  obtain st1 where g: "cs_getline n gets st [] = Inr (True, l, st1)" "good st1" "view st1 = s"
    using getline_pos [OF assms(1-5)] by blast
  have "group_child True False r p k = (rc_ok, upd_at (add_kids [Config (Some k) None []]) r p, p @ [length (kids (node_at r p))])"
    by (simp add: group_child_def add_child_ok split: option.split)
  with g show ?thesis by (intro exI [of _ st1]) (simp add: assms(6,7))
qed

lemma step_close:
  assumes "good st" "view st = l @ nl # s" "nl \<notin> set l" "length l < BUFSZ - 1" "n > 0"
    "read_cline l = L_close True" "p \<noteq> []"
  shows "\<exists>st1. good st1 \<and> view st1 = s \<and> load_loop (Suc n) True drv gets False r p st lk = Inr (rc_ok, r, st1)"
proof -
  obtain st1 where g: "cs_getline n gets st [] = Inr (True, l, st1)" "good st1" "view st1 = s"
    using getline_pos [OF assms(1-5)] by blast
  then show ?thesis by (intro exI [of _ st1]) (simp add: assms(6,7))
qed

end

text \<open>The lines of one tree, apart from its children.\<close>

definition blank_layout :: "(nat \<Rightarrow> string) \<Rightarrow> string \<Rightarrow> string \<Rightarrow> bool" where
  "blank_layout ind sp tail \<longleftrightarrow> (\<forall>lev. blanks (ind lev)) \<and> blanks sp \<and> sp \<noteq> [] \<and> blanks tail"

lemma bracket_line:
  assumes "blanks b" "length b + 1 < BUFSZ - 1"
  shows "nl \<notin> set (b @ [CHR 0x7B])" "nl \<notin> set (b @ [CHR 0x7D])"
    "read_cline (b @ [CHR 0x7B]) = L_open True" "read_cline (b @ [CHR 0x7D]) = L_close True"
proof -
  have "\<not> u_isblank nl" by (simp add: u_isblank_def)
  then show "nl \<notin> set (b @ [CHR 0x7B])" "nl \<notin> set (b @ [CHR 0x7D])"
    using assms(1) by (auto simp: blanks_def list_all_iff)
  show "read_cline (b @ [CHR 0x7B]) = L_open True" "read_cline (b @ [CHR 0x7D]) = L_close True"
    by (rule read_open read_close; use assms in \<open>simp add: BUFSZ_def\<close>)+
qed

context line_source
begin

lemma load_leaf:
  assumes "blank_layout ind sp tail" "good st" "view st = layout ind sp tail lev c @ s" "wf_config c"
    "fits_lines ind sp tail lev c" "kids c = []" "valid_ptr r p" "n > 0"
  shows "\<exists>st1. good st1 \<and> view st1 = s \<and> load_loop (Suc n) True drv gets False r p st []
    = load_loop n True drv gets False (upd_at (add_kids [c]) r p) p st1 []"
proof -
  obtain k v where c: "c = Config (Some k) (Some v) []" "wf_key k" "wf_val v"
    using assms(4,6) by (cases c) (auto split: option.splits)
  have b: "blanks (ind lev)" "blanks sp" "sp \<noteq> []" using assms(1) by (simp_all add: blank_layout_def)
  let ?l = "ind lev @ k @ sp @ v"
  have len: "length ?l < BUFSZ - 1" using assms(5) by (simp add: c(1))
  have v: "view st = ?l @ nl # s" using assms(3) by (simp add: c(1))
  have nn: "nl \<notin> set ?l" using wf_line_chars(1) [OF c(2) b(1,2)] wf_line_chars(2) [OF c(2) b(1,2) c(3)] by auto
  have rd: "read_cline ?l = L_entry k v"
    by (rule read_entry [OF b c(2,3)]) (use len in \<open>simp add: BUFSZ_def\<close>)
  show ?thesis using step_value [OF assms(2) v nn len assms(8) rd c(2,3) assms(7)] by (simp add: c(1))
qed

lemma load_head:
  assumes "blank_layout ind sp tail" "good st" "c = Config (Some k) None sub" "sub \<noteq> []"
    "view st = layout ind sp tail lev c @ s" "wf_config c" "fits_lines ind sp tail lev c" "n > 0"
  shows "\<exists>st2. good st2
    \<and> view st2 = concat (map (layout ind sp tail (Suc lev)) sub) @ (ind lev @ [CHR 0x7D]) @ nl # s
    \<and> load_loop (Suc (Suc n)) True drv gets False r p st []
      = obind (load_loop n True drv gets False (upd_at (add_kids [Config (Some k) None []]) r p)
            (p @ [length (kids (node_at r p))]) st2 [])
          (\<lambda>(rc, r2, st2). if rc \<noteq> rc_ok then Inr (rc_fail, r2, st2) else load_loop n True drv gets False r2 p st2 [])"
proof -
  have b: "blanks (ind lev)" "blanks tail" using assms(1) by (simp_all add: blank_layout_def)
  have k: "wf_key k" using assms(6) by (simp add: assms(3))
  let ?l = "ind lev @ k @ tail" and ?o = "ind lev @ [CHR 0x7B]"
  let ?s = "concat (map (layout ind sp tail (Suc lev)) sub) @ (ind lev @ [CHR 0x7D]) @ nl # s"
  have len: "length ?l < BUFSZ - 1" using assms(7) by (simp add: assms(3))
  then have leno: "length (ind lev) + 1 < BUFSZ - 1" using wf_key_chars(1) [OF k] by (cases k) simp_all
  have v: "view st = ?l @ nl # ?o @ nl # ?s" using assms(4,5) by (simp add: assms(3))
  have rd: "read_cline ?l = L_entry k []"
    by (rule read_key [OF b k]) (use len in \<open>simp add: BUFSZ_def\<close>)
  obtain st1 where st1: "good st1" "view st1 = ?o @ nl # ?s"
    "load_loop (Suc (Suc n)) True drv gets False r p st [] = load_loop (Suc n) True drv gets False r p st1 k"
    using step_key [OF assms(2) v wf_line_chars(1) [OF k b] len _ rd k, of "Suc n"] by blast
  note br = bracket_line [OF b(1) leno]
  have leno': "length ?o < BUFSZ - 1" using leno by simp
  from step_open [OF st1(1,2) br(1) leno' assms(8) br(3) wf_key_chars(1) [OF k]] st1(3)
  show ?thesis by auto
qed

lemma load_layout:
  assumes bl: "blank_layout ind sp tail"
  shows "good st \<Longrightarrow> view st = concat (map (layout ind sp tail lev) ks) @ s \<Longrightarrow> list_all wf_config ks \<Longrightarrow>
    list_all (fits_lines ind sp tail lev) ks \<Longrightarrow> valid_ptr r p \<Longrightarrow> all_rounds ks < n \<Longrightarrow>
    \<exists>st'. good st' \<and> view st' = s \<and> load_loop n True drv gets False r p st []
      = load_loop (n - all_own ks) True drv gets False (upd_at (add_kids ks) r p) p st' []"
proof (induction "size_list size ks" arbitrary: ks lev st s r p n rule: less_induct)
  case less
  show ?case
  proof (cases ks)
    case Nil
    with less.prems show ?thesis by (intro exI [of _ st]) (simp add: add_kids_Nil)
  next
    case (Cons c cs)
    let ?s = "concat (map (layout ind sp tail lev) cs) @ s"
    have v: "view st = layout ind sp tail lev c @ ?s" using less.prems(2) Cons by simp
    have w: "wf_config c" "list_all wf_config cs" "fits_lines ind sp tail lev c"
      "list_all (fits_lines ind sp tail lev) cs" using less.prems(3,4) Cons by simp_all
    let ?r1 = "upd_at (add_kids [c]) r p"
    have vr: "valid_ptr ?r1 p" using less.prems(5) by (simp add: ptr_simps)
    have up: "upd_at (add_kids cs) ?r1 p = upd_at (add_kids ks) r p"
      using upd_upd [OF less.prems(5)] Cons by (simp add: add_kids_Cons)
    show ?thesis
    proof (cases "kids c = []")
      case True
      then have rc: "rounds c = 1" "own_rounds c = 1" by (cases c; simp add: own_rounds_def)+
      then obtain m where m: "n = Suc m" "all_rounds cs < m" using less.prems(6) Cons by (cases n) auto
      obtain st1 where st1: "good st1" "view st1 = ?s"
        "load_loop (Suc m) True drv gets False r p st [] = load_loop m True drv gets False ?r1 p st1 []"
        using load_leaf [OF bl less.prems(1) v w(1,3) True less.prems(5), of m] m by auto
      from less.hyps [OF _ st1(1,2) w(2,4) vr m(2)] show ?thesis using Cons m(1) rc up st1(3) by simp
    next
      case False
      then obtain k sub where c: "c = Config (Some k) None sub" "sub \<noteq> []"
        using w(1) by (cases c) (auto split: option.splits)
      have ws: "list_all wf_config sub" "list_all (fits_lines ind sp tail (Suc lev)) sub"
        using w(1,3) c by simp_all
      have rc: "rounds c = 3 + all_rounds sub" "own_rounds c = 2" using c by (simp_all add: own_rounds_def)
      define m where "m = n - 2"
      have m: "n = Suc (Suc m)" "all_rounds sub + all_rounds cs + 1 < m" using less.prems(6) Cons rc by (simp_all add: m_def)
      let ?b = "ind lev @ [CHR 0x7D]" and ?q = "p @ [length (kids (node_at r p))]"
      let ?r0 = "upd_at (add_kids [Config (Some k) None []]) r p"
      obtain st2 where st2: "good st2" "view st2 = concat (map (layout ind sp tail (Suc lev)) sub) @ ?b @ nl # ?s"
        "load_loop n True drv gets False r p st [] = obind (load_loop m True drv gets False ?r0 ?q st2 [])
          (\<lambda>(rc, r2, st2). if rc \<noteq> rc_ok then Inr (rc_fail, r2, st2) else load_loop m True drv gets False r2 p st2 [])"
        using load_head [OF bl less.prems(1) c v w(1,3), where n = m and r = r and p = p] m by auto
      have vq: "valid_ptr ?r0 ?q" using less.prems(5) by (simp add: ptr_simps)
      have sz: "size_list size sub < size_list size ks" by (simp add: Cons c(1))
      obtain st3 where st3: "good st3" "view st3 = ?b @ nl # ?s"
        "load_loop m True drv gets False ?r0 ?q st2 []
          = load_loop (m - all_own sub) True drv gets False (upd_at (add_kids sub) ?r0 ?q) ?q st3 []"
        using less.hyps [OF sz st2(1,2) ws vq, of m] m(2) by auto
      define j where "j = m - all_own sub - 1"
      have j: "m - all_own sub = Suc j" "j > 0" using own_le [of sub] m(2) by (simp_all add: j_def)
      have len: "length (ind lev) + 1 < BUFSZ - 1" "length ?b < BUFSZ - 1"
        using w(1,3) c wf_key_chars(1) [of k] by (cases k; simp)+
      note br = bracket_line [of "ind lev", OF _ len(1)]
      have bi: "blanks (ind lev)" using bl by (simp add: blank_layout_def)
      obtain st4 where st4: "good st4" "view st4 = ?s"
        "load_loop (Suc j) True drv gets False (upd_at (add_kids sub) ?r0 ?q) ?q st3 []
          = Inr (rc_ok, upd_at (add_kids sub) ?r0 ?q, st4)"
        using step_close [OF st3(1,2) br(2) [OF bi] len(2) j(2) br(4) [OF bi]] by blast
      have r1: "upd_at (add_kids sub) ?r0 ?q = ?r1" using fill_child [OF less.prems(5)] c(1) by simp
      have "load_loop n True drv gets False r p st [] = load_loop m True drv gets False ?r1 p st4 []"
        using st2(3) st3(3) st4(3) j(1) r1 by simp
      moreover have "all_rounds cs < m" using m(2) by simp
      note less.hyps [OF _ st4(1,2) w(2,4) vr this]
      ultimately show ?thesis using Cons m(1) rc up by simp
    qed
  qed
qed

end

context line_source
begin

lemma load_printed:
  assumes "blank_layout ind sp tail" "good st" "view st = concat (map (layout ind sp tail lev) ks)"
    "list_all wf_config ks" "list_all (fits_lines ind sp tail lev) ks" "length (view st) + 1 < n"
  shows "\<exists>st'. load_loop n True drv gets False (Config None None []) [] st [] = Inr (rc_ok, Config None None ks, st') \<and> good st'"
proof -
  have "all_rounds ks \<le> length (view st)"
    unfolding assms(3) by (simp add: length_concat comp_def sum_list_mono rounds_layout)
  then have n: "all_rounds ks + 1 < n" using assms(6) by simp
  obtain st1 where st1: "good st1" "view st1 = []"
    "load_loop n True drv gets False (Config None None []) [] st []
      = load_loop (n - all_own ks) True drv gets False (Config None None ks) [] st1 []"
    using load_layout [OF assms(1,2) _ assms(4,5), of "[]" "Config None None []" "[]" n] assms(3) n
    by (auto simp: add_kids_def)
  define j where "j = n - all_own ks - 1"
  have "n - all_own ks = Suc j" "j > 0" using own_le [of ks] n by (simp_all add: j_def)
  with step_end [OF st1(1,2), of j] st1(3) show ?thesis by simp
qed

text \<open>A source that never ends is the only reason for the parser to go on, when nothing is included.\<close>

lemma take_line_pos: "view st \<noteq> [] \<Longrightarrow> 0 < length (take_line (BUFSZ - 1) (view st))"
  by (cases "view st") (simp_all add: BUFSZ_def eval_nat_numeral)

lemma getline_total:
  "good st \<Longrightarrow> length (view st) < n \<Longrightarrow> \<exists>ok l st'. cs_getline n gets st ln = Inr (ok, l, st') \<and> good st' \<and>
     length (view st') \<le> length (view st) \<and> (ok \<longrightarrow> length (view st') < length (view st))"
proof (induction n arbitrary: st ln)
  case (Suc n)
  show ?case
  proof (cases "view st = []")
    case True
    with gets_end [OF Suc.prems(1)] show ?thesis by auto
  next
    case False
    obtain st' where st': "gets st BUFSZ = (Some (take_line (BUFSZ - 1) (view st)), st')" "good st'"
      "view st' = drop (length (take_line (BUFSZ - 1) (view st))) (view st)"
      using gets_line [OF Suc.prems(1) False] by blast
    have ne: "take_line (BUFSZ - 1) (view st) \<noteq> []" using take_line_pos [OF False] by simp
    have sh: "length (view st') < length (view st)" using st'(3) take_line_pos [OF False] False by simp
    show ?thesis
    proof (cases "u_isnl (List.last (take_line (BUFSZ - 1) (view st)))")
      case True
      with st' ne sh show ?thesis by (intro exI [of _ True] exI conjI) auto
    next
      case False
      have "length (view st') < n" using sh Suc.prems(2) by simp
      from Suc.IH [OF st'(2) this, of "ln @ butlast (take_line (BUFSZ - 1) (view st))"] st'(1) ne sh False
      show ?thesis by fastforce
    qed
  qed
qed simp

end

lemma subst_vars_fault: "subst_vars r p vs acc = Inl e \<Longrightarrow> e = Null_deref"
proof (induction r p vs acc rule: subst_vars.induct)
  case (1 r p vs acc)
  then show ?case
    by (subst (asm) (2) subst_vars.simps) (auto simp: Let_def split: option.splits if_splits)
qed

lemma set_value_fault: "u_config_set_value mem r p v = Inl e \<Longrightarrow> e = Null_deref"
  by (auto simp: u_config_set_value_def Let_def obind_def split: option.splits if_splits sum.splits
      dest: subst_vars_fault)

lemma do_set_key_fault: "u_config_do_set_key mem r p key v ow = Inl e \<Longrightarrow> e = Null_deref"
proof (induction mem r p key v ow rule: u_config_do_set_key.induct)
  case (1 mem r p key v ow)
  show ?case
  proof (cases "CHR ''.'' \<in> set key")
    case False
    with 1(2) show ?thesis
      by (subst (asm) u_config_do_set_key.simps)
        (auto simp: obind_def split: prod.splits sum.splits if_splits dest: set_value_fault)
  next
    case True
    with 1(2) obtain ck r1 q where c: "u_strndup mem key (length (first_key key)) = Some ck"
      "(case u_config_get_child (node_at r p) ck of Some i \<Rightarrow> (rc_ok, r, p @ [i])
        | None \<Rightarrow> u_config_add_child mem r p ck) = (rc_ok, r1, q)"
      "u_config_do_set_key mem r1 q (rest_key key) v ow = Inl e"
      by (subst (asm) u_config_do_set_key.simps)
        (auto simp: obind_def split: option.splits prod.splits sum.splits if_splits)
    show ?thesis by (rule 1(1) [OF _ c(1) c(2) [symmetric] refl refl _ c(3)]) (use True in simp_all)
  qed
qed

lemma include_seen_fault: "include_seen xs i q path = Inl e \<Longrightarrow> e = Null_deref"
  by (induction xs i q path rule: include_seen.induct) (auto split: option.splits if_splits)

lemma handle_include_fault:
  "d_open drv = None \<Longrightarrow> handle_include load mem drv r p k v = Inl e \<Longrightarrow> e = Null_deref"
  by (auto simp: handle_include_def u_config_include_def obind_def split: if_splits sum.splits option.splits
      dest: do_set_key_fault include_seen_fault)

context line_source
begin

text \<open>The parser ends on every source without inclusion, and reads only forwards.\<close>

lemma loop_total:
  assumes "d_open drv = None"
  shows "good st \<Longrightarrow> length (view st) + 1 < n \<Longrightarrow>
    (\<exists>rc r' st'. load_loop n True drv gets ow r p st lk = Inr (rc, r', st') \<and> good st'
       \<and> length (view st') \<le> length (view st))
    \<or> load_loop n True drv gets ow r p st lk = Inl Null_deref"
proof (induction n arbitrary: st r p lk)
  case (Suc n)
  obtain ok l st1 where g: "cs_getline n gets st [] = Inr (ok, l, st1)" "good st1"
    "length (view st1) \<le> length (view st)" "ok \<Longrightarrow> length (view st1) < length (view st)"
    using getline_total [OF Suc.prems(1), of n "[]"] Suc.prems(2) by auto
  show ?case
  proof (cases ok)
    case False
    with g show ?thesis by simp
  next
    case True
    have sh: "length (view st1) < length (view st)" using g(4) True by simp
    have go: "(\<exists>rc r' st'. load_loop n True drv gets ow r2 p2 st2 lk2 = Inr (rc, r', st') \<and> good st'
         \<and> length (view st') \<le> length (view st))
      \<or> load_loop n True drv gets ow r2 p2 st2 lk2 = Inl Null_deref"
      if "good st2" "length (view st2) \<le> length (view st1)" for r2 p2 st2 lk2
    proof -
      have "length (view st2) + 1 < n" using that(2) sh Suc.prems(2) by simp
      from Suc.IH [OF that(1) this, of r2 p2 lk2] that(2) sh show ?thesis by fastforce
    qed
    show ?thesis
    proof (cases "read_cline l")
      case (L_open blank)
      obtain rc r1 q where gc: "group_child True ow r p lk = (rc, r1, q)" by (metis prod_cases3)
      have len: "length (view st1) + 1 < n" using sh Suc.prems(2) by simp
      show ?thesis
      proof (cases "lk = [] \<or> \<not> blank \<or> rc \<noteq> rc_ok")
        case True
        with L_open g gc \<open>ok\<close> show ?thesis by auto
      next
        case False
        from Suc.IH [OF g(2) len, of r1 q "[]"] show ?thesis
        proof
          assume "load_loop n True drv gets ow r1 q st1 [] = Inl Null_deref"
          with L_open g gc \<open>ok\<close> False show ?thesis by simp
        next
          assume "\<exists>rc r' st'. load_loop n True drv gets ow r1 q st1 [] = Inr (rc, r', st') \<and> good st'
            \<and> length (view st') \<le> length (view st1)"
          then obtain rc2 r2 st2 where i: "load_loop n True drv gets ow r1 q st1 [] = Inr (rc2, r2, st2)"
            "good st2" "length (view st2) \<le> length (view st1)" by blast
          with go [OF i(2,3), of r2 p "[]"] L_open g gc \<open>ok\<close> False sh show ?thesis by auto
        qed
      qed
    next
      case (L_entry k v)
      let ?load = "\<lambda>r p st. load_loop n True drv gets ow r p st []"
      show ?thesis
      proof (cases "handle_include ?load True drv r p k v")
        case (Inl e)
        with handle_include_fault [OF assms Inl] L_entry g \<open>ok\<close> show ?thesis by simp
      next
        case (Inr x)
        obtain rc r1 where x: "x = (rc, r1)" by force
        show ?thesis
        proof (cases "u_config_do_set_key True r1 p k (Some v) ow")
          case (Inl e)
          with do_set_key_fault [OF Inl] L_entry g \<open>ok\<close> Inr x go [OF g(2) order_refl, of r1 p k] show ?thesis by auto
        next
          case (Inr y)
          obtain rc2 r2 q where "y = (rc2, r2, q)" by (metis prod_cases3)
          with Inr L_entry g \<open>ok\<close> \<open>handle_include _ _ _ _ _ _ _ = Inr x\<close> x
            go [OF g(2) order_refl, of r1 p k] go [OF g(2) order_refl, of r2 p lk]
          show ?thesis by auto
        qed
      qed
    next
      case L_empty
      with g go [OF g(2) order_refl, of r p lk] \<open>ok\<close> show ?thesis by auto
    qed (use g \<open>ok\<close> in auto)
  qed
qed simp

end

interpretation bl: line_source u_config_buf_gets "\<lambda>st. NUL \<notin> set st" "\<lambda>st. st"
proof
  fix st :: string
  assume st: "NUL \<notin> set st" "st \<noteq> []"
  have nt: "NUL \<notin> set (take_line n st)" for n
  proof -
    have "set (take_line n s) \<subseteq> set s" for s by (induction n s rule: take_line.induct) auto
    then show ?thesis using st(1) by blast
  qed
  then have "takeWhile (\<lambda>c. c \<noteq> NUL) (take_line (BUFSZ - 1) st) = take_line (BUFSZ - 1) st"
    unfolding takeWhile_eq_all_conv by blast
  moreover have "hd st \<noteq> NUL" using st by (cases st) auto
  moreover have "NUL \<notin> set (drop n st)" for n using st(1) by (meson in_set_dropD)
  ultimately show "\<exists>st'. u_config_buf_gets st BUFSZ = (Some (take_line (BUFSZ - 1) st), st') \<and> NUL \<notin> set st' \<and>
      st' = drop (length (take_line (BUFSZ - 1) st)) st"
    using st(2) by (simp add: u_config_buf_gets_def Let_def) (simp add: BUFSZ_def)
qed (simp add: u_config_buf_gets_def)

declare load_loop.simps [simp del]

section \<open>Properties\<close>

definition to_str_fits :: "u_config list \<Rightarrow> bool" where
  "to_str_fits ks = list_all (fits_lines (\<lambda>lev. []) '' '' '' '' 1) ks"

definition print_fits :: "u_config list \<Rightarrow> bool" where
  "print_fits ks = list_all (fits_lines indent [CHR 0x09] [] 1) ks"

lemma blank_layouts: "blank_layout (\<lambda>lev. []) '' '' '' ''" "blank_layout indent [CHR 0x09] []"
  by (simp_all add: blank_layout_def blanks_def u_isblank_def indent_def list_all_iff)

lemma to_str_layout: "wf_config c \<Longrightarrow> u_config_to_str True c = layout (\<lambda>lev. []) '' '' '' '' lev c"
proof (induction c arbitrary: lev)
  case (Config k v ks)
  have "list_all wf_config ks" using Config.prems by (cases ks) auto
  then have "concat (map (u_config_to_str True) ks) = concat (map (layout (\<lambda>lev. []) '' '' '' '' (Suc lev)) ks)"
    using Config.IH by (intro arg_cong [of _ _ concat] map_cong) (simp_all add: list_all_iff)
  moreover obtain t where "k = Some t" "t \<noteq> ''include''" using Config.prems by (auto simp: wf_key_def split: option.splits)
  ultimately show ?case by (auto simp: key_line_def split: option.split)
qed

lemma print_layout: "wf_config c \<Longrightarrow> u_config_print_to_fp True c lev = layout indent [CHR 0x09] [] lev c"
proof (induction c arbitrary: lev)
  case (Config k v ks)
  have "list_all wf_config ks" using Config.prems by (cases ks) auto
  then have "concat (map (\<lambda>c. u_config_print_to_fp True c (Suc lev)) ks) = concat (map (layout indent [CHR 0x09] [] (Suc lev)) ks)"
    using Config.IH by (intro arg_cong [of _ _ concat] map_cong) (simp_all add: list_all_iff)
  moreover obtain t where "k = Some t" "t \<noteq> ''include''" using Config.prems by (auto simp: wf_key_def split: option.splits)
  ultimately show ?case by (auto split: option.split)
qed

lemma NUL_blanks: "blanks b \<Longrightarrow> NUL \<notin> set b"
proof
  assume "blanks b" "NUL \<in> set b"
  then have "u_isblank NUL" by (simp add: blanks_def list_all_iff)
  then show False by (simp add: u_isblank_def)
qed

lemma layout_NUL:
  assumes "blank_layout ind sp tail"
  shows "wf_config c \<Longrightarrow> NUL \<notin> set (layout ind sp tail lev c)"
proof (induction c arbitrary: lev)
  case (Config k v ks)
  have b: "NUL \<notin> set (ind lev)" "NUL \<notin> set sp" "NUL \<notin> set tail"
    using assms by (simp_all add: blank_layout_def NUL_blanks)
  obtain t where t: "k = Some t" "NUL \<notin> set t"
    using Config.prems wf_key_chars(12) by (auto split: option.splits)
  have v: "v = Some x \<Longrightarrow> NUL \<notin> set x" for x
    using Config.prems by (auto simp: wf_val_def plain_char_def list_all_iff split: if_splits)
  have "list_all wf_config ks" using Config.prems by (cases ks) auto
  then have "NUL \<notin> set (concat (map (layout ind sp tail (Suc lev)) ks))"
    using Config.IH by (auto simp: list_all_iff)
  with b t v show ?case by (auto split: option.split)
qed

lemma layouts_NUL:
  "blank_layout ind sp tail \<Longrightarrow> list_all wf_config ks \<Longrightarrow> NUL \<notin> set (concat (map (layout ind sp tail lev) ks))"
  using layout_NUL by (auto simp: list_all_iff)

lemma root_text:
  assumes "list_all wf_config ks"
  shows "u_config_to_str False (Config None None ks) = concat (map (layout (\<lambda>lev. []) '' '' '' '' 1) ks)"
    "u_config_print_to_fp False (Config None None ks) 0 = concat (map (layout indent [CHR 0x09] [] 1) ks)"
proof -
  have "concat (map (u_config_to_str True) ks) = concat (map (layout (\<lambda>lev. []) '' '' '' '' 1) ks)"
    "concat (map (\<lambda>c. u_config_print_to_fp True c 1) ks) = concat (map (layout indent [CHR 0x09] [] 1) ks)"
    using assms to_str_layout print_layout
    by (intro arg_cong [of _ _ concat] map_cong refl; simp add: list_all_iff)+
  then show "u_config_to_str False (Config None None ks) = concat (map (layout (\<lambda>lev. []) '' '' '' '' 1) ks)"
    "u_config_print_to_fp False (Config None None ks) 0 = concat (map (layout indent [CHR 0x09] [] 1) ks)"
    by (simp_all add: indent_def)
qed

text \<open>
  C16: a configuration in which every key is a non-empty word of plain characters (no blanks, dots,
  comment signs, line ends or NUL), does not start with a brace and is neither
  \<open>include\<close> nor \<open>-include\<close>, and in which every node has either subkeys and
  no value, or a non-empty value without comment signs, line ends, variables and outer blanks and no
  subkeys (\<open>wf_config\<close>), and whose lines are shorter than the buffer of the parser, is
  the same after it was saved to a buffer that it fits and loaded from it, and also after it was
  printed, with its indentation, and the printed lines were read again. Configurations outside these
  conditions are not covered; a key without a value and without subkeys, for one, is not read again.
\<close>

theorem u_config_roundtrip:
  assumes "list_all wf_config ks" "to_str_fits ks" "print_fits ks"
    "length (u_config_to_str False (Config None None ks)) < sz"
  shows "\<exists>t st. u_config_save_to_buf True False (Config None None ks) buf sz = (rc_ok, t)
    \<and> u_config_load_from_buf (length t + 2) True t (length t) = Inr (rc_ok, Some (Config None None ks))
    \<and> u_config_load_from (length (u_config_print_to_fp False (Config None None ks) 0) + 2) True (Config None None []) []
        u_config_buf_gets (u_config_print_to_fp False (Config None None ks) 0) False = Inr (rc_ok, Config None None ks, st)"
proof -
  let ?c = "Config None None ks"
  let ?t = "u_config_to_str False ?c" and ?p = "u_config_print_to_fp False ?c 0"
  have sv: "u_config_save_to_buf True False ?c buf sz = (rc_ok, ?t)"
    using assms(4) by (simp add: u_config_save_to_buf_def Let_def u_strlcpy_ok)
  note tx = root_text [OF assms(1)]
  obtain st1 where "load_loop (length ?t + 2) True \<lparr> d_open = None, d_close = None, d_gets = Some u_config_buf_gets, d_resolv = None \<rparr>
      u_config_buf_gets False (Config None None []) [] ?t [] = Inr (rc_ok, ?c, st1)"
    using bl.load_printed [OF blank_layouts(1) _ tx(1) assms(1)] layouts_NUL [OF blank_layouts(1) assms(1)] assms(2)
    unfolding to_str_fits_def tx(1) by fastforce
  then have ld: "u_config_load_from_buf (length ?t + 2) True ?t (length ?t) = Inr (rc_ok, Some ?c)"
    by (simp add: u_config_load_from_buf_def u_config_create_def u_config_do_load_drv_def)
  obtain st2 where "load_loop (length ?p + 2) True \<lparr> d_open = None, d_close = None, d_gets = Some u_config_buf_gets, d_resolv = None \<rparr>
      u_config_buf_gets False (Config None None []) [] ?p [] = Inr (rc_ok, ?c, st2)"
    using bl.load_printed [OF blank_layouts(2) _ tx(2) assms(1)] layouts_NUL [OF blank_layouts(2) assms(1)] assms(3)
    unfolding print_fits_def tx(2) by fastforce
  with sv ld show ?thesis by (auto simp: u_config_load_from_def u_config_do_load_drv_def)
qed

definition elwood :: "u_config list" where
  "elwood = [Config (Some ''type'') (Some ''musician  (blues)'') [],
     Config (Some ''name'') None [Config (Some ''first'') (Some ''joliet'') [],
       Config (Some ''alias'') None [Config (Some ''x'') (Some ''{jake}'') []]]]"

theorem u_config_roundtrip_witness:
  "u_config_load_from_buf 68 True (u_config_to_str False (Config None None elwood)) 66
     = Inr (rc_ok, Some (Config None None elwood))"
proof -
  have w: "list_all wf_config elwood" "to_str_fits elwood" "print_fits elwood"
    "length (u_config_to_str False (Config None None elwood)) = 66" by code_simp+
  obtain t where t: "u_config_save_to_buf True False (Config None None elwood) [] 100 = (rc_ok, t)"
    "u_config_load_from_buf (length t + 2) True t (length t) = Inr (rc_ok, Some (Config None None elwood))"
    using u_config_roundtrip [OF w(1-3), of 100 "[]"] w(4) by auto
  from t(1) w(4) have "t = u_config_to_str False (Config None None elwood)"
    by (simp add: u_config_save_to_buf_def Let_def u_strlcpy_ok)
  with t(2) w(4) show ?thesis by simp
qed

text \<open>C17: Setting a key, with a qualified name of any depth and a value without variables, always succeeds
  when memory is there, changes the value of this name to the trimmed text and the value of no other
  name, seen from the node on which it is called: the values behave as a finite map. Sections on the
  way are made when they are missing.\<close>

theorem u_config_set_lookup:
  assumes "valid_ptr r p" "find_var v = None"
  shows "\<exists>r'. u_config_set_key True r p key (Some v) = Inr (rc_ok, r') \<and> valid_ptr r' p
    \<and> u_config_get_subkey_value True (node_at r' p) = (u_config_get_subkey_value True (node_at r p))(key \<mapsto> strip v)"
proof -
  have "no_vars (Some v)" using assms(2) by (simp add: no_vars_def)
  from do_set_key_plain [OF assms(1) this, of key True] obtain q where
    "u_config_do_set_key True r p key (Some v) True = Inr (rc_ok, upd_at (set_sub key (Some (strip v)) True) r p, q)"
    by auto
  then show ?thesis using assms(1)
    by (auto simp: u_config_set_key_def ptr_simps set_sub_lookup)
qed

theorem u_config_set_lookup_witness:
  "\<exists>r'. u_config_set_key True (Config None None []) [] ''name.first'' (Some '' jake '') = Inr (rc_ok, r')
    \<and> u_config_get_subkey_value True r' ''name.first'' = Some ''jake''"
  using u_config_set_lookup [of "Config None None []" "[]" "'' jake ''" "''name.first''"]
  by (auto simp: strip_def u_isblank_def)

text \<open>
  C18: a value whose variables are all closed is stored with each variable replaced by the value
  that the name has below the parent of the node, or, where the parent has no such key, below the
  root of the configuration, or by nothing; the result is trimmed. No section between the parent and
  the root is searched. On the root itself, which has no parent, a variable is looked up through a
  null pointer. The allocations succeed.
\<close>

theorem u_config_set_value_expands:
  assumes "valid_ptr r p" "wf_pieces ps e"
  shows "u_config_set_value True r p (Some (var_text ps e)) =
    (if p = [] \<and> ps \<noteq> [] then Inl Null_deref
     else Inr (rc_ok, upd_at (set_cval (Some (strip (expand (upd_at (set_cval None) r p) p ps e)))) r p))"
proof -
  have sv: "set_cval a (set_cval b c) = set_cval a c" for a b c by (simp add: set_cval_def)
  show ?thesis
  proof (cases "p = [] \<and> ps \<noteq> []")
    case False
    then have "subst_vars r' p (var_text ps e) [] = Inr (Some (expand r' p ps e))" for r'
      using subst_vars_ok [OF _ assms(2), of p r' "[]"] assms(2)
      by (cases "p = []") (auto simp: subst_vars.simps var_text_def expand_def wf_pieces_def)
    with False assms(1) show ?thesis by (auto simp: u_config_set_value_def u_trim_eq ptr_simps sv)
  next
    case True
    then obtain l v qs where ps: "ps = (l, v) # qs" "find_var l = None" using assms(2)
      by (cases ps) (auto simp: wf_pieces_def)
    have "var_text ps e = l @ CHR ''$'' # CHR 0x7B # (v @ CHR 0x7D # var_text qs e)"
      by (simp add: ps var_text_def)
    then have "find_var (var_text ps e) = Some (l, v @ CHR 0x7D # var_text qs e)"
      by (simp only: find_var_app [OF ps(2)])
    with True show ?thesis by (simp add: u_config_set_value_def subst_vars.simps)
  qed
qed

definition with_host :: u_config where
  "with_host = Config None None [Config (Some ''host'') (Some ''h'') [],
     Config (Some ''s'') None [Config (Some ''url'') None [], Config (Some ''port'') (Some ''80'') []]]"

theorem u_config_set_value_expands_witness:
  "u_config_set_value True with_host [1, 0] (Some ''${host}:${port}/${x}.'') =
     Inr (rc_ok, upd_at (set_cval (Some ''h:80/.'')) with_host [1, 0])"
proof -
  let ?ps = "[('''', ''host''), ('':'', ''port''), (''/'', ''x'')]"
  have "valid_ptr with_host [1, 0]" "wf_pieces ?ps ''.''" by code_simp+
  note u_config_set_value_expands [OF this]
  moreover have "var_text ?ps ''.'' = ''${host}:${port}/${x}.''" by code_simp
  moreover have "strip (expand (upd_at (set_cval None) with_host [1, 0]) [1, 0] ?ps ''.'') = ''h:80/.''"
    by code_simp
  ultimately show ?thesis by simp
qed

text \<open>\<open>u_config_walk\<close>, which asks for one child after the other by its number, visits the nodes below the
  given one in the order of the recursive traversal, parents before or behind their children.\<close>

theorem u_config_walk_orders:
  "u_config_walk c U_CONFIG_WALK_PREORDER = preorder c \<and> u_config_walk c U_CONFIG_WALK_POSTORDER = postorder c"
  by (simp add: u_config_walk_def walk_from_eq orders_kids [of c, symmetric])

text \<open>C19: Loading from a buffer ends for every text: one round for each character is enough. The only
  undefined behaviour on the way is to follow a null pointer.\<close>

theorem u_config_load_ends:
  assumes "NUL \<notin> set buf" "length buf + 1 < fuel"
  shows "(\<exists>x. u_config_load_from_buf fuel mem buf (length buf) = Inr x)
    \<or> u_config_load_from_buf fuel mem buf (length buf) = Inl Null_deref"
proof (cases mem)
  case True
  let ?d = "\<lparr> d_open = None, d_close = None, d_gets = Some u_config_buf_gets, d_resolv = None \<rparr>"
  from bl.loop_total [of ?d buf fuel False "Config None None []" "[]" "[]"] assms True show ?thesis
    by (auto simp: u_config_load_from_buf_def u_config_create_def u_config_do_load_drv_def)
next
  case False
  then show ?thesis by (simp add: u_config_load_from_buf_def u_config_create_def)
qed

definition unclosed :: string where
  "unclosed = ''a'' @ [nl] @ [CHR 0x7B, nl] @ ''b c'' @ [nl]"

theorem u_config_load_ends_witness:
  "((\<exists>x. u_config_load_from_buf 11 True unclosed 8 = Inr x) \<or> u_config_load_from_buf 11 True unclosed 8 = Inl Null_deref)
   \<and> u_config_load_from_buf 11 True unclosed 8
     = Inr (rc_ok, Some (Config None None [Config (Some ''a'') None [Config (Some ''b'') (Some ''c'') []]]))"
proof -
  have u: "NUL \<notin> set unclosed" "length unclosed = 8" by code_simp+
  have "(\<exists>x. u_config_load_from_buf 11 True unclosed 8 = Inr x) \<or> u_config_load_from_buf 11 True unclosed 8 = Inl Null_deref"
    using u_config_load_ends [of unclosed 11 True] u by simp
  moreover have "u_config_load_from_buf 11 True unclosed 8
     = Inr (rc_ok, Some (Config None None [Config (Some ''a'') None [Config (Some ''b'') (Some ''c'') []]]))"
    by code_simp
  ultimately show ?thesis by blast
qed

text \<open>A resource that asks for its own inclusion.\<close>

definition self_driver :: "string u_config_driver" where
  "self_driver = \<lparr> d_open = Some (\<lambda>uri. Some (''-include f'' @ [nl])), d_close = None,
     d_gets = Some u_config_buf_gets, d_resolv = None \<rparr>"

lemma self_include:
  "valid_ptr r p \<Longrightarrow> Some ''include'' \<notin> ckey ` set (kids (node_at r p)) \<Longrightarrow>
   load_loop n True self_driver u_config_buf_gets ow r p (''-include f'' @ [nl]) [] = Inl Out_of_fuel"
proof (induction n arbitrary: r p)
  case 0
  then show ?case by (simp add: load_loop.simps)
next
  case (Suc n)
  show ?case
  proof (cases n)
    case 0
    then show ?thesis by (simp add: load_loop.simps)
  next
    case (Suc m)
    have "u_config_buf_gets (''-include f'' @ [nl]) BUFSZ = (Some (''-include f'' @ [nl]), [])" by code_simp
    moreover have "u_isnl nl" by (simp add: u_isnl_def)
    ultimately have g: "cs_getline n u_config_buf_gets (''-include f'' @ [nl]) [] = Inr (True, ''-include f'', [])"
      by (simp add: Suc)
    have rd: "read_cline ''-include f'' = L_entry ''-include'' ''f''" by code_simp
    have "no_vars (Some ''f'')" by code_simp
    have st: "strip ''f'' = ''f''" "CHR ''.'' \<notin> set ''-include''" by code_simp+
    let ?q = "p @ [length (kids (node_at r p))]"
    let ?ra = "upd_at (add_kids [Config (Some ''-include'') None []]) r p"
    let ?r = "upd_at (add_kids [Config (Some ''-include'') (Some ''f'') []]) r p"
    have "valid_ptr ?ra ?q" using Suc.prems(1) by (simp add: ptr_simps)
    from set_value_plain [OF this \<open>no_vars (Some ''f'')\<close>] st(1)
    have "u_config_set_value True ?ra ?q (Some ''f'') = Inr (rc_ok, upd_at (set_cval (Some ''f'')) ?ra ?q)" by simp
    moreover have "upd_at (set_cval (Some ''f'')) ?ra ?q = ?r"
      unfolding upd_app upd_upd [OF Suc.prems(1)] by (rule upd_cong) (simp add: add_kids_def set_cval_def)
    ultimately have k: "u_config_do_set_key True r p ''-include'' (Some ''f'') False = Inr (rc_ok, ?r, Some ?q)"
      using st(2) by (auto simp: u_config_do_set_key.simps [of True r p] add_child_ok split: option.split)
    have kd: "kids (node_at ?r p) = kids (node_at r p) @ [Config (Some ''-include'') (Some ''f'') []]"
      using Suc.prems(1) by (simp add: ptr_simps)
    then have ni: "Some ''include'' \<notin> ckey ` set (kids (node_at ?r p))" using Suc.prems(2) by auto
    have ns: "Some ''include'' \<notin> ckey ` set xs \<Longrightarrow> include_seen xs i j path = Inr False" for xs i j path
      by (induction xs arbitrary: i) auto
    have vl: "u_config_get_value (Some (node_at ?r ?q)) = Some ''f''"
      using kd by (simp add: node_app u_config_get_value_def)
    have "valid_ptr ?r p" using Suc.prems(1) by (simp add: ptr_simps)
    note ih = Suc.IH [OF this ni]
    have "u_config_include (\<lambda>r p st. load_loop n True self_driver u_config_buf_gets ow r p st []) self_driver ?r p ?q
        = Inl Out_of_fuel"
      using ih vl ns [OF ni] by (simp add: u_config_include_def self_driver_def)
    then have "handle_include (\<lambda>r p st. load_loop n True self_driver u_config_buf_gets ow r p st []) True self_driver
        r p ''-include'' ''f'' = Inl Out_of_fuel"
      using k by (simp add: handle_include_def)
    with g rd show ?thesis by (simp add: load_loop.simps)
  qed
qed

text \<open>The nesting of inclusions is not limited: loading a resource whose only line is \<open>-include\<close> with its
  own name does not return, whatever the fuel, as only keys \<open>include\<close> are compared in the search for
  circular inclusions and the constant \<open>MAX_NEST_LEV\<close> is not used. Also, a line \<open>include.x\<close> makes a section
  \<open>include\<close> without a value, and with it the next inclusion compares its path with a null pointer.\<close>

theorem u_config_include_unbounded:
  "u_config_load_from_drv fuel True null (Some uri) (Some self_driver) ow = Inl Out_of_fuel
   \<and> u_config_load_from_buf 27 True (''include.x 1'' @ [nl] @ ''include y'' @ [nl]) 22 = Inl Null_deref"
proof
  have "d_gets self_driver = Some u_config_buf_gets" "\<exists>f. d_open self_driver = Some f \<and> f uri = Some (''-include f'' @ [nl])"
    by (simp_all add: self_driver_def)
  then show "u_config_load_from_drv fuel True null (Some uri) (Some self_driver) ow = Inl Out_of_fuel"
    using self_include [of "Config None None []" "[]" fuel ow]
    by (auto simp: u_config_load_from_drv_def u_config_create_def u_config_do_load_drv_def)
  show "u_config_load_from_buf 27 True (''include.x 1'' @ [nl] @ ''include y'' @ [nl]) 22 = Inl Null_deref"
    by code_simp
qed

text \<open>A line that does not fit into the buffer loses the character at the end of each part that is read,
  without an error.\<close>

theorem cs_getline_drops:
  assumes "nl \<notin> set l" "CHR 0x0D \<notin> set l" "NUL \<notin> set (l @ s)" "1023 \<le> length l" "length l < 2046" "1 < n"
  shows "cs_getline n u_config_buf_gets (l @ nl # s) [] = Inr (True, take 1022 l @ drop 1023 l, s)"
proof -
  define m where "m = n - 2"
  have n: "n = Suc (Suc m)" using assms(6) by (simp add: m_def)
  have tl: "take_line k (x @ y) = x" if "nl \<notin> set x" "length x = k" for k x y
    using that by (induction k x rule: take_line.induct) auto
  have notnul: "c \<in> set (l @ s) \<Longrightarrow> c \<noteq> NUL" for c using assms(3) by auto
  have np: "\<forall>c \<in> set (take 1023 l). c \<noteq> NUL" "\<forall>c \<in> set (drop 1023 l). c \<noteq> NUL"
    using notnul by (auto dest: in_set_takeD in_set_dropD)
  have l1: "take_line 1023 (l @ nl # s) = take 1023 l"
  proof -
    have "nl \<notin> set (take 1023 l)" using assms(1) by (meson in_set_takeD)
    then have "take_line 1023 (take 1023 l @ (drop 1023 l @ nl # s)) = take 1023 l"
      by (rule tl) (use assms(4) in simp)
    then show ?thesis by (simp only: append.assoc [symmetric] append_take_drop_id)
  qed
  have l2: "take_line 1023 (drop 1023 l @ nl # s) = drop 1023 l @ [nl]"
    by (rule take_line_ok) (use assms(1,5) in \<open>auto dest: in_set_dropD\<close>)
  have h: "l \<noteq> []" "hd (l @ nl # s) \<noteq> NUL" "hd (drop 1023 l @ nl # s) \<noteq> NUL"
    using assms(3,4) notnul hd_in_set [of "drop 1023 l"] by (cases l; auto simp: hd_append dest: in_set_dropD)+
  have g1: "u_config_buf_gets (l @ nl # s) BUFSZ = (Some (take 1023 l), drop 1023 l @ nl # s)"
    using l1 h(1,2) np assms(4)
    by (simp add: u_config_buf_gets_def Let_def BUFSZ_def min_absorb2)
  have g2: "u_config_buf_gets (drop 1023 l @ nl # s) BUFSZ = (Some (drop 1023 l @ [nl]), s)"
  proof -
    have "takeWhile (\<lambda>c. c \<noteq> NUL) (drop 1023 l @ [nl]) = drop 1023 l @ [nl]"
      unfolding takeWhile_eq_all_conv using np(2) by auto
    moreover have "BUFSZ - 1 = 1023" "BUFSZ \<noteq> 0" by (simp_all add: BUFSZ_def)
    ultimately show ?thesis
      unfolding u_config_buf_gets_def Let_def using h(3)
      by (simp only: l2 if_False simp_thms append_is_Nil_conv list.distinct) simp
  qed
  have "take 1023 l \<noteq> []" using h(1) by simp
  then have "List.last (take 1023 l) \<in> set l" by (rule in_set_takeD [OF last_in_set])
  then have "\<not> u_isnl (List.last (take 1023 l))" using assms(1,2) by (auto simp: u_isnl_def)
  moreover have "butlast (take 1023 l) = take 1022 l" using assms(4) by (simp add: butlast_take)
  ultimately show ?thesis using g1 g2 h(1) by (simp add: n u_isnl_def)
qed

theorem cs_getline_drops_witness:
  "\<exists>l. cs_getline 2 u_config_buf_gets (replicate 1023 (CHR ''a'') @ CHR ''b'' # nl # []) [] = Inr (True, l, [])
     \<and> length l = 1023"
  using cs_getline_drops [of "replicate 1023 (CHR ''a'') @ [CHR ''b'']" "[]" 2] by simp

end
