(* ===== verification/Json_Index.thy ===== *)
theory Json_Index
  imports Json Hmap_Map
begin

text \<open>
  The rest of \<open>srcs/toolbox/json.c\<close>: constructors and values of nodes, the walk over a tree, iteration
  and access to arrays, removal, and the index, a hash map from the qualified names of the nodes to
  the nodes. A pointer to a node is its path from the root, the list of positions in the lists of
  children; the pointer \<open>map\<close> of a node is the flag \<open>jmap\<close> of the tree, and the map itself belongs to
  the document. Allocation succeeds.
\<close>

section \<open>Values of nodes\<close>

text \<open>
  A value may be checked: it is matched as a string, with quotes around it, or as a number. The match
  need not reach the end of the text.
\<close>

definition quoted_val :: "u_json \<Rightarrow> string \<Rightarrow> string" where
  "quoted_val jo val =
     (if jtype jo = U_JSON_TYPE_STRING then [CHR 0x22] @ val @ [CHR 0x22] else val)"

definition val_check :: "u_json \<Rightarrow> string \<Rightarrow> bool outcome" where
  "val_check jo val =
     (case u_lexer_new (Some (quoted_val jo val)) True True of
        None \<Rightarrow> Inr False
      | Some vl \<Rightarrow>
          (case (if jtype jo = U_JSON_TYPE_STRING then u_json_match_string vl None
                 else if jtype jo = U_JSON_TYPE_NUMBER then u_json_match_number vl None
                 else Ok None vl) of
             Fault e \<Rightarrow> Inl e | Err _ \<Rightarrow> Inr False | Ok _ _ \<Rightarrow> Inr True))"

definition u_json_set_val_ex :: "u_json option \<Rightarrow> string option \<Rightarrow> bool \<Rightarrow> (rc \<times> u_json option) outcome" where
  "u_json_set_val_ex jp vp check =
     (case (jp, vp) of
        (Some jo, Some val) \<Rightarrow>
          obind (if check then val_check jo val else Inr True) (\<lambda>good.
            if \<not> good then Inr (rc_fail, jp)
            else (case store_val jo val of (ok, jo1) \<Rightarrow> Inr (if ok then rc_ok else rc_fail, Some jo1)))
      | _ \<Rightarrow> Inr (rc_fail, jp))"

definition u_json_new_container :: "u_json_type \<Rightarrow> string option \<Rightarrow> rc \<times> u_json option" where
  "u_json_new_container ty key =
     (case u_json_set_type u_json_new ty of (ok1, j1) \<Rightarrow>
       if \<not> ok1 then (rc_fail, None)
       else (case u_json_set_key j1 (case key of None \<Rightarrow> Some [] | Some k \<Rightarrow> Some k) of (ok2, j2) \<Rightarrow>
         if ok2 then (rc_ok, Some j2) else (rc_fail, None)))"

definition u_json_new_array :: "string option \<Rightarrow> rc \<times> u_json option" where
  "u_json_new_array key = u_json_new_container U_JSON_TYPE_ARRAY key"

definition u_json_new_object :: "string option \<Rightarrow> rc \<times> u_json option" where
  "u_json_new_object key = u_json_new_container U_JSON_TYPE_OBJECT key"

definition u_json_new_atom ::
  "u_json_type \<Rightarrow> string option \<Rightarrow> string option \<Rightarrow> bool \<Rightarrow> (rc \<times> u_json option) outcome" where
  "u_json_new_atom ty key val check =
     (case u_json_set_type u_json_new ty of (ok1, j1) \<Rightarrow>
       if \<not> ok1 then Inr (rc_fail, None)
       else (case u_json_set_key j1 key of (ok2, j2) \<Rightarrow>
         if \<not> ok2 then Inr (rc_fail, None)
         else if ty = U_JSON_TYPE_NUMBER \<or> ty = U_JSON_TYPE_STRING then
           obind (u_json_set_val_ex (Some j2) val check) (\<lambda>(rc, j3).
             if rc \<noteq> rc_ok then Inr (rc_fail, None) else Inr (rc_ok, j3))
         else Inr (rc_ok, Some j2)))"

definition u_json_new_string :: "string option \<Rightarrow> string option \<Rightarrow> (rc \<times> u_json option) outcome" where
  "u_json_new_string key val = u_json_new_atom U_JSON_TYPE_STRING key val True"

definition u_json_new_number :: "string option \<Rightarrow> string option \<Rightarrow> (rc \<times> u_json option) outcome" where
  "u_json_new_number key val = u_json_new_atom U_JSON_TYPE_NUMBER key val True"

definition u_json_new_int :: "string option \<Rightarrow> int \<Rightarrow> (rc \<times> u_json option) outcome" where
  "u_json_new_int key val =
     (case u_snprintf U_TOKEN_SZ (decimal_int val) of (ok, sval) \<Rightarrow>
       if \<not> ok then Inr (rc_fail, None) else u_json_new_atom U_JSON_TYPE_NUMBER key (Some sval) False)"

text \<open>
  Floating point numbers are a type of their own, with \<open>isfinite\<close>, the conversion \<open>%g\<close> and \<open>u_atof\<close> as arguments.
\<close>

definition u_json_new_real ::
  "('d \<Rightarrow> bool) \<Rightarrow> ('d \<Rightarrow> string) \<Rightarrow> string option \<Rightarrow> 'd \<Rightarrow> (rc \<times> u_json option) outcome" where
  "u_json_new_real isfinite fmt_g key val =
     (if \<not> isfinite val then Inr (rc_fail, None)
      else (case u_snprintf U_TOKEN_SZ (fmt_g val) of (ok, sval) \<Rightarrow>
        if \<not> ok then Inr (rc_fail, None) else u_json_new_atom U_JSON_TYPE_NUMBER key (Some sval) False))"

definition u_json_new_null :: "string option \<Rightarrow> (rc \<times> u_json option) outcome" where
  "u_json_new_null key = u_json_new_atom U_JSON_TYPE_NULL key None False"

definition u_json_new_bool :: "string option \<Rightarrow> bool \<Rightarrow> (rc \<times> u_json option) outcome" where
  "u_json_new_bool key val =
     u_json_new_atom (if val then U_JSON_TYPE_TRUE else U_JSON_TYPE_FALSE) key None False"

definition u_json_get_val :: "u_json option \<Rightarrow> string option" where
  "u_json_get_val jp =
     (case jp of None \<Rightarrow> None
      | Some jo \<Rightarrow>
        (case jtype jo of
           U_JSON_TYPE_STRING \<Rightarrow> Some (jval jo)
         | U_JSON_TYPE_NUMBER \<Rightarrow> Some (jval jo)
         | U_JSON_TYPE_TRUE \<Rightarrow> Some ''true''
         | U_JSON_TYPE_FALSE \<Rightarrow> Some ''false''
         | U_JSON_TYPE_NULL \<Rightarrow> Some ''null''
         | _ \<Rightarrow> None))"

definition u_json_get_int :: "errno_val \<Rightarrow> u_json option \<Rightarrow> int option" where
  "u_json_get_int errno jp =
     (case jp of None \<Rightarrow> None
      | Some jo \<Rightarrow> if jtype jo \<noteq> U_JSON_TYPE_NUMBER then None else u_atol errno (Some (jval jo)))"

definition u_json_get_real :: "(string \<Rightarrow> 'd option) \<Rightarrow> u_json option \<Rightarrow> 'd option" where
  "u_json_get_real atof jp =
     (case jp of None \<Rightarrow> None
      | Some jo \<Rightarrow> if jtype jo \<noteq> U_JSON_TYPE_NUMBER then None else atof (jval jo))"

definition u_json_get_bool :: "u_json option \<Rightarrow> bool option" where
  "u_json_get_bool jp =
     (case jp of None \<Rightarrow> None
      | Some jo \<Rightarrow>
        (case jtype jo of U_JSON_TYPE_TRUE \<Rightarrow> Some True | U_JSON_TYPE_FALSE \<Rightarrow> Some False | _ \<Rightarrow> None))"

definition u_json_type_str :: "u_json_type \<Rightarrow> string" where
  "u_json_type_str ty =
     (case ty of
        U_JSON_TYPE_STRING \<Rightarrow> ''string''
      | U_JSON_TYPE_NUMBER \<Rightarrow> ''number''
      | U_JSON_TYPE_ARRAY \<Rightarrow> ''array''
      | U_JSON_TYPE_OBJECT \<Rightarrow> ''object''
      | U_JSON_TYPE_TRUE \<Rightarrow> ''true''
      | U_JSON_TYPE_FALSE \<Rightarrow> ''false''
      | U_JSON_TYPE_NULL \<Rightarrow> ''null''
      | U_JSON_TYPE_UNKNOWN \<Rightarrow> ''unknown'')"

definition u_json_array_count :: "u_json option \<Rightarrow> nat" where
  "u_json_array_count jp =
     (case jp of None \<Rightarrow> 0 | Some jo \<Rightarrow> if jtype jo \<noteq> U_JSON_TYPE_ARRAY then 0 else jcount jo)"

section \<open>Pointers into a tree\<close>

type_synonym jptr = "nat list"

fun jat :: "u_json \<Rightarrow> jptr \<Rightarrow> u_json" where
  "jat c [] = c"
| "jat c (i # p) = jat (jchildren c ! i) p"

fun set_children :: "u_json list \<Rightarrow> u_json \<Rightarrow> u_json" where
  "set_children cs' (U_json t f k v d i c m cs) = U_json t f k v d i c m cs'"

fun jupd :: "(u_json \<Rightarrow> u_json) \<Rightarrow> u_json \<Rightarrow> jptr \<Rightarrow> u_json" where
  "jupd f c [] = f c"
| "jupd f c (i # p) = set_children ((jchildren c)[i := jupd f (jchildren c ! i) p]) c"

fun set_fqn :: "string \<Rightarrow> u_json \<Rightarrow> u_json" where
  "set_fqn f' (U_json t f k v d i c m cs) = U_json t f' k v d i c m cs"

fun set_map :: "bool \<Rightarrow> u_json \<Rightarrow> u_json" where
  "set_map m' (U_json t f k v d i c m cs) = U_json t f k v d i c m' cs"

fun set_icur :: "nat \<Rightarrow> u_json \<Rightarrow> u_json" where
  "set_icur i' (U_json t f k v d i c m cs) = U_json t f k v d i' c m cs"

fun set_count :: "nat \<Rightarrow> u_json \<Rightarrow> u_json" where
  "set_count c' (U_json t f k v d i c m cs) = U_json t f k v d i c' m cs"

fun put_type :: "u_json_type \<Rightarrow> u_json \<Rightarrow> u_json" where
  "put_type t' (U_json t f k v d i c m cs) = U_json t' f k v d i c m cs"

text \<open>The siblings of a node are the children of its parent; the root has none.\<close>

definition next_sibling :: "u_json \<Rightarrow> jptr \<Rightarrow> jptr option" where
  "next_sibling r p =
     (if p \<noteq> [] \<and> Suc (List.last p) < length (jchildren (jat r (butlast p)))
      then Some (butlast p @ [Suc (List.last p)]) else None)"

definition u_json_child_first :: "u_json \<Rightarrow> jptr option \<Rightarrow> jptr option" where
  "u_json_child_first r jp =
     (case jp of None \<Rightarrow> None
      | Some p \<Rightarrow> if \<not> is_container (jat r p) then None
          else if jchildren (jat r p) = [] then None else Some (p @ [0]))"

definition u_json_child_last :: "u_json \<Rightarrow> jptr option \<Rightarrow> jptr option" where
  "u_json_child_last r jp =
     (case jp of None \<Rightarrow> None
      | Some p \<Rightarrow> if \<not> is_container (jat r p) then None
          else if jchildren (jat r p) = [] then None else Some (p @ [length (jchildren (jat r p)) - 1]))"

text \<open>
  An iterator is its cursor. The macro for the previous sibling follows the back link of the node,
  which is a null pointer in a node that was never added to a container.
\<close>

type_synonym u_json_it_t = "jptr option"

definition u_json_it :: "jptr option \<Rightarrow> u_json_it_t" where
  "u_json_it jp = jp"

definition u_json_it_next :: "u_json \<Rightarrow> u_json_it_t \<Rightarrow> jptr option \<times> u_json_it_t" where
  "u_json_it_next r it = (it, case it of None \<Rightarrow> None | Some p \<Rightarrow> next_sibling r p)"

definition u_json_it_prev :: "u_json \<Rightarrow> u_json_it_t \<Rightarrow> (jptr option \<times> u_json_it_t) outcome" where
  "u_json_it_prev r it =
     (case it of None \<Rightarrow> Inr (None, None)
      | Some p \<Rightarrow>
          if p = [] then Inl Null_deref
          else Inr (it, if List.last p = 0 then None else Some (butlast p @ [List.last p - 1])))"

section \<open>The walk\<close>

datatype u_json_walk_t = U_JSON_WALK_PREORDER | U_JSON_WALK_POSTORDER

text \<open>
  The nodes that the walk visits, with their levels, in the order of the calls of the callback: a node,
  the nodes below it, and its following siblings; in post-order a node comes behind its siblings.
  \<open>walk_list p i l xs\<close> is the walk that starts at the first of the nodes \<open>xs\<close>, which are the children
  of \<open>p\<close> from position \<open>i\<close> on.
\<close>

fun walk_list :: "u_json_walk_t \<Rightarrow> jptr \<Rightarrow> nat \<Rightarrow> nat \<Rightarrow> u_json list \<Rightarrow> (jptr \<times> nat) list" where
  "walk_list strategy p i l [] = []"
| "walk_list strategy p i l (U_json t f k v d ic c m cs # xs) =
     (if strategy = U_JSON_WALK_PREORDER then [(p @ [i], l)] else []) @
     walk_list strategy (p @ [i]) 0 (l + 1) cs @
     walk_list strategy p (Suc i) l xs @
     (if strategy = U_JSON_WALK_POSTORDER then [(p @ [i], l)] else [])"

definition u_json_walk :: "u_json \<Rightarrow> jptr \<Rightarrow> u_json_walk_t \<Rightarrow> nat \<Rightarrow> (jptr \<times> nat) list" where
  "u_json_walk r p strategy l =
     (if p = [] then
        (if strategy = U_JSON_WALK_PREORDER then [([], l)] else []) @
        walk_list strategy [] 0 (l + 1) (jchildren r) @
        (if strategy = U_JSON_WALK_POSTORDER then [([], l)] else [])
      else walk_list strategy (butlast p) (List.last p) l (drop (List.last p) (jchildren (jat r (butlast p)))))"

text \<open>
  Releasing a node walks from it in post-order and gives back each node that is visited. The list is
  that of the nodes that are released, by their paths before the call.
\<close>

definition u_json_free :: "u_json \<Rightarrow> jptr \<Rightarrow> jptr list" where
  "u_json_free r p = map fst (u_json_walk r p U_JSON_WALK_POSTORDER 0)"

text \<open>
  Removal: the node leaves the list of its parent, but keeps its own links, which the release follows.
\<close>

definition u_json_remove :: "u_json \<Rightarrow> jptr \<Rightarrow> rc \<times> u_json \<times> jptr list" where
  "u_json_remove r p =
     (if jmap (jat r p) then (rc_fail, r, [])
      else
        (let evict = (\<lambda>q. set_children (take (List.last p) (jchildren q) @ drop (Suc (List.last p)) (jchildren q))
                      (if jtype q = U_JSON_TYPE_ARRAY then set_count ((jcount q + 2 ^ 32 - 1) mod 2 ^ 32) q else q));
             r1 = (if p = [] then r else jupd evict r (butlast p))
         in (rc_ok, r1, u_json_free r p)))"

section \<open>The index\<close>

text \<open>
  A document: the tree, and the map that the nodes with the flag \<open>jmap\<close> point to, with its supply of
  addresses; \<open>None\<close> when the map was released or never made.
\<close>

record u_json_doc =
  d_root :: u_json
  d_map :: "jptr hstate option"

text \<open>The qualified name of a child, from the name, type and counter of its parent.\<close>

definition child_fqn :: "u_json_type \<Rightarrow> string \<Rightarrow> nat \<Rightarrow> u_json \<Rightarrow> string" where
  "child_fqn t f i c =
     (if t = U_JSON_TYPE_OBJECT then snd (u_snprintf U_JSON_FQN_SZ (f @ ''.'' @ jkey c))
      else if t = U_JSON_TYPE_ARRAY then snd (u_snprintf U_JSON_FQN_SZ (f @ ''['' @ decimal i @ '']''))
      else jfqn c)"

definition index_put :: "string \<Rightarrow> jptr \<Rightarrow> jptr hstate \<Rightarrow> jptr hstate outcome" where
  "index_put k q s =
     obind (u_hmap_easy_put 1 (snd s) (True, True, True) (True, True) ok_ra (Some (fst s)) (Some k) (Some q))
       (\<lambda>(rc, hm). Inr (case hm of None \<Rightarrow> s | Some h \<Rightarrow> (h, Suc (snd s))))"

definition u_json_do_index :: "jptr \<Rightarrow> u_json \<times> jptr hstate \<Rightarrow> (u_json \<times> jptr hstate) outcome" where
  "u_json_do_index q st =
     (case st of (r, s) \<Rightarrow>
       (let par = jat r (butlast q);
            in_array = (q \<noteq> [] \<and> jtype par = U_JSON_TYPE_ARRAY);
            fqn = (if q = [] then ''.'' else child_fqn (jtype par) (jfqn par) (jicur par) (jat r q));
            r1 = (if in_array then jupd (set_icur (jicur par + 1)) r (butlast q) else r);
            r2 = jupd (set_fqn fqn) r1 q;
            r3 = (if in_array \<and> jtype (jat r q) = U_JSON_TYPE_ARRAY then jupd (set_icur 0) r2 q else r2)
        in obind (index_put fqn q s) (\<lambda>s1. Inr (jupd (set_map True) r3 q, s1))))"

fun index_walk :: "jptr list \<Rightarrow> u_json \<times> jptr hstate \<Rightarrow> (u_json \<times> jptr hstate) outcome" where
  "index_walk [] st = Inr st"
| "index_walk (q # qs) st = obind (u_json_do_index q st) (index_walk qs)"

definition index_map :: "jptr u_hmap option" where
  "index_map =
     (case u_hmap_opts_new True of (_, o1) \<Rightarrow>
      (case u_hmap_opts_set_val_type o1 U_HMAP_OPTS_DATATYPE_POINTER of (_, o2) \<Rightarrow>
      (case u_hmap_opts_set_val_freefunc o2 True of (_, o3) \<Rightarrow>
      (case u_hmap_easy_new o3 True True True of (rc, h) \<Rightarrow> if rc = U_HMAP_ERR_NONE then h else None))))"

definition u_json_index :: "u_json_doc \<Rightarrow> jptr \<Rightarrow> (rc \<times> u_json_doc) outcome" where
  "u_json_index d p =
     (if jmap (jat (d_root d) p) then Inr (rc_ok, d)
      else if p \<noteq> [] then Inr (rc_fail, d)
      else
        (case index_map of None \<Rightarrow> Inr (rc_fail, d)
         | Some h \<Rightarrow>
             obind (index_walk (map fst (u_json_walk (set_icur 0 (d_root d)) [] U_JSON_WALK_PREORDER 0))
                      (set_icur 0 (d_root d), (h, 0)))
               (\<lambda>(r, s). Inr (rc_ok, d\<lparr> d_root := set_map True r, d_map := Some s \<rparr>))))"

text \<open>
  The end of the index: the map is released and the pointer of the node is reset; all other nodes
  keep theirs.
\<close>

definition u_json_unindex :: "u_json_doc \<Rightarrow> jptr \<Rightarrow> (rc \<times> u_json_doc) outcome" where
  "u_json_unindex d p =
     (if \<not> jmap (jat (d_root d) p) then Inr (rc_ok, d)
      else if d_map d = None then Inl Use_after_free
      else Inr (rc_ok, d\<lparr> d_root := jupd (set_map False) (d_root d) p, d_map := None \<rparr>))"

text \<open>A look-up in a map without a policy, which does not change it.\<close>

definition map_get :: "u_json_doc \<Rightarrow> string \<Rightarrow> jptr option outcome" where
  "map_get d name =
     (case d_map d of None \<Rightarrow> Inl Use_after_free
      | Some s \<Rightarrow> obind (u_hmap_easy_get (True, True) (Some (fst s)) (Some name)) (\<lambda>(q, _). Inr q))"

definition u_json_cache_get :: "u_json_doc \<Rightarrow> jptr option \<Rightarrow> string option \<Rightarrow> jptr option outcome" where
  "u_json_cache_get d jp namep =
     (case jp of None \<Rightarrow> Inr None
      | Some p \<Rightarrow>
        if \<not> jmap (jat (d_root d) p) then Inr None
        else (case namep of None \<Rightarrow> Inr None
          | Some name \<Rightarrow>
            if p = [] then map_get d name
            else obind (map_get d name) (\<lambda>res.
              if res \<noteq> None then Inr res
              else map_get d (snd (u_snprintf U_JSON_FQN_SZ (jfqn (jat (d_root d) p) @ name))))))"

text \<open>
  Setting type and value through the index. It is the node of the call, and not the one that was
  found, that must not be a container.
\<close>

definition u_json_cache_set_tv ::
  "u_json_doc \<Rightarrow> jptr option \<Rightarrow> string option \<Rightarrow> u_json_type \<Rightarrow> string option \<Rightarrow> (rc \<times> u_json_doc) outcome" where
  "u_json_cache_set_tv d jp name ty val =
     (case jp of None \<Rightarrow> Inl Null_deref
      | Some p \<Rightarrow>
        if is_container (jat (d_root d) p) then Inr (rc_fail, d)
        else if ty = U_JSON_TYPE_OBJECT \<or> ty = U_JSON_TYPE_ARRAY then Inr (rc_fail, d)
        else
          obind (u_json_cache_get d jp name) (\<lambda>res.
            case res of None \<Rightarrow> Inr (rc_fail, d)
            | Some q \<Rightarrow>
              (let r1 = (if ty \<noteq> U_JSON_TYPE_UNKNOWN then jupd (put_type ty) (d_root d) q else d_root d);
                   n = jat r1 q
               in if jtype n = U_JSON_TYPE_STRING \<or> jtype n = U_JSON_TYPE_NUMBER then
                    (case val of None \<Rightarrow> Inr (rc_fail, d\<lparr> d_root := r1 \<rparr>)
                     | Some v \<Rightarrow>
                       Inr (if fst (store_val n v) then rc_ok else rc_fail,
                            d\<lparr> d_root := jupd (\<lambda>x. snd (store_val x v)) r1 q \<rparr>))
                  else Inr (rc_ok, d\<lparr> d_root := r1 \<rparr>))))"

definition u_json_cache_get_val :: "u_json_doc \<Rightarrow> jptr option \<Rightarrow> string option \<Rightarrow> string option outcome" where
  "u_json_cache_get_val d jp name =
     obind (u_json_cache_get d jp name) (\<lambda>res. Inr (u_json_get_val (map_option (jat (d_root d)) res)))"

definition u_json_cache_get_int ::
  "errno_val \<Rightarrow> u_json_doc \<Rightarrow> jptr option \<Rightarrow> string option \<Rightarrow> int option outcome" where
  "u_json_cache_get_int errno d jp name =
     obind (u_json_cache_get d jp name) (\<lambda>res. Inr (u_json_get_int errno (map_option (jat (d_root d)) res)))"

definition u_json_cache_get_real ::
  "(string \<Rightarrow> 'd option) \<Rightarrow> u_json_doc \<Rightarrow> jptr option \<Rightarrow> string option \<Rightarrow> 'd option outcome" where
  "u_json_cache_get_real atof d jp name =
     obind (u_json_cache_get d jp name) (\<lambda>res. Inr (u_json_get_real atof (map_option (jat (d_root d)) res)))"

definition u_json_cache_get_bool :: "u_json_doc \<Rightarrow> jptr option \<Rightarrow> string option \<Rightarrow> bool option outcome" where
  "u_json_cache_get_bool d jp name =
     obind (u_json_cache_get d jp name) (\<lambda>res. Inr (u_json_get_bool (map_option (jat (d_root d)) res)))"

text \<open>
  An element of an array: by its name when there is an index, or else along the list of children from
  the nearer end.
\<close>

fun nth_from :: "nat \<Rightarrow> nat list \<Rightarrow> nat option" where
  "nth_from n [] = None"
| "nth_from n (x # xs) = (if n = 0 then Some x else nth_from (n - 1) xs)"

definition u_json_array_get_nth :: "u_json_doc \<Rightarrow> jptr option \<Rightarrow> nat \<Rightarrow> jptr option outcome" where
  "u_json_array_get_nth d jp n =
     (case jp of None \<Rightarrow> Inr None
      | Some p \<Rightarrow>
        (let jo = jat (d_root d) p; elems = [0..<length (jchildren jo)] in
         if jtype jo \<noteq> U_JSON_TYPE_ARRAY then Inr None
         else if n \<ge> jcount jo then Inr None
         else if jmap jo then
           u_json_cache_get d jp (Some (snd (u_snprintf U_JSON_FQN_SZ (jfqn jo @ ''['' @ decimal n @ '']''))))
         else Inr (map_option (\<lambda>i. p @ [i])
           (if n > jcount jo div 2 then nth_from (jcount jo - (n + 1)) (rev elems) else nth_from n elems))))"

section \<open>Facts on pointers\<close>

fun jvalid :: "u_json \<Rightarrow> jptr \<Rightarrow> bool" where
  "jvalid c [] = True"
| "jvalid c (i # p) = (i < length (jchildren c) \<and> jvalid (jchildren c ! i) p)"

named_theorems jptr_simps \<open>rewriting of updates and look-ups through pointers into JSON trees\<close>

lemma jset_sel [simp]:
  "jtype (set_children cs c) = jtype c" "jfqn (set_children cs c) = jfqn c" "jkey (set_children cs c) = jkey c"
  "jicur (set_children cs c) = jicur c" "jmap (set_children cs c) = jmap c" "jchildren (set_children cs c) = cs"
  "jcount (set_children cs c) = jcount c"
  "jtype (set_fqn f c) = jtype c" "jfqn (set_fqn f c) = f" "jkey (set_fqn f c) = jkey c"
  "jicur (set_fqn f c) = jicur c" "jmap (set_fqn f c) = jmap c" "jchildren (set_fqn f c) = jchildren c"
  "jtype (set_map m c) = jtype c" "jfqn (set_map m c) = jfqn c" "jkey (set_map m c) = jkey c"
  "jicur (set_map m c) = jicur c" "jmap (set_map m c) = m" "jchildren (set_map m c) = jchildren c"
  "jtype (set_icur i c) = jtype c" "jfqn (set_icur i c) = jfqn c" "jkey (set_icur i c) = jkey c"
  "jicur (set_icur i c) = i" "jmap (set_icur i c) = jmap c" "jchildren (set_icur i c) = jchildren c"
  "jtype (set_count n c) = jtype c" "jfqn (set_count n c) = jfqn c" "jkey (set_count n c) = jkey c"
  "jchildren (set_count n c) = jchildren c"
  by (cases c; simp)+

lemma jset_set [simp]:
  "set_children a (set_children b c) = set_children a c" "set_icur i (set_icur j c) = set_icur i c"
  "set_children a (set_icur j c) = set_icur j (set_children a c)" "set_icur (jicur c) c = c"
  "set_icur (jicur c) (set_children b c) = set_children b c" "set_children (jchildren c) c = c" "set_map True (set_map True c) = set_map True c"
  by (cases c; simp)+

lemma jat_upd [jptr_simps]: "jvalid c p \<Longrightarrow> jat (jupd f c p) p = f (jat c p)"
  by (induction c p rule: jvalid.induct) simp_all

lemma jupd_upd [jptr_simps]: "jvalid c p \<Longrightarrow> jupd g (jupd f c p) p = jupd (\<lambda>x. g (f x)) c p"
  by (induction c p rule: jvalid.induct) simp_all

lemma jvalid_upd [jptr_simps]: "jvalid c p \<Longrightarrow> jvalid (jupd f c p) p"
  by (induction c p rule: jvalid.induct) simp_all

lemma jupd_cong: "f (jat c p) = g (jat c p) \<Longrightarrow> jupd f c p = jupd g c p"
  by (induction c p rule: jat.induct) simp_all

lemma jat_app [jptr_simps]: "jat c (p @ q) = jat (jat c p) q"
  by (induction c p rule: jat.induct) simp_all

lemma jupd_app [jptr_simps]: "jupd f c (p @ q) = jupd (\<lambda>x. jupd f x q) c p"
  by (induction c p rule: jat.induct) simp_all

lemma jvalid_app [jptr_simps]: "jvalid c (p @ q) \<longleftrightarrow> jvalid c p \<and> jvalid (jat c p) q"
  by (induction c p rule: jat.induct) auto

lemma obind_assoc: "obind (obind r f) g = obind r (\<lambda>x. obind (f x) g)"
  by (cases r) simp_all

section \<open>What the index makes of a tree\<close>

text \<open>
  The counter that an array starts with: it is reset in an array inside an array and in the root, and
  otherwise left over. The names of the nodes, with their pointers, in the order of the walk, and the
  tree afterwards.
\<close>

definition start_icur :: "u_json_type \<Rightarrow> u_json \<Rightarrow> nat" where
  "start_icur t x = (if t = U_JSON_TYPE_ARRAY \<and> jtype x = U_JSON_TYPE_ARRAY then 0 else jicur x)"

definition next_icur :: "u_json_type \<Rightarrow> nat \<Rightarrow> nat \<Rightarrow> nat" where
  "next_icur t s n = (if t = U_JSON_TYPE_ARRAY then s + n else s)"

lemma next_icur_simps [simp]: "next_icur t s 0 = s" "next_icur t (next_icur t s m) n = next_icur t s (m + n)"
  by (simp_all add: next_icur_def)

fun nodes :: "u_json list \<Rightarrow> nat" where
  "nodes [] = 0"
| "nodes (U_json t f k v d i c m cs # xs) = Suc (nodes cs + nodes xs)"

fun index_forest :: "u_json_type \<Rightarrow> string \<Rightarrow> nat \<Rightarrow> u_json list \<Rightarrow> u_json list" where
  "index_forest T F s [] = []"
| "index_forest T F s (U_json t f k v d i c m cs # xs) =
     (let x = U_json t f k v d i c m cs; g = child_fqn T F s x; i0 = start_icur T x in
      U_json t g k v d (next_icur t i0 (length cs)) c True (index_forest t g i0 cs))
     # index_forest T F (next_icur T s 1) xs"

fun name_list :: "jptr \<Rightarrow> nat \<Rightarrow> u_json_type \<Rightarrow> string \<Rightarrow> nat \<Rightarrow> u_json list \<Rightarrow> (string \<times> jptr) list" where
  "name_list p j T F s [] = []"
| "name_list p j T F s (U_json t f k v d i c m cs # xs) =
     (let x = U_json t f k v d i c m cs; g = child_fqn T F s x in
      (g, p @ [j]) # name_list (p @ [j]) 0 t g (start_icur T x) cs) @ name_list p (Suc j) T F (next_icur T s 1) xs"

lemma length_name_list: "length (name_list p j T F s xs) = nodes xs"
  by (induction p j T F s xs rule: name_list.induct) (simp_all add: Let_def)

fun index_puts :: "(string \<times> jptr) list \<Rightarrow> jptr hstate \<Rightarrow> jptr hstate outcome" where
  "index_puts [] s = Inr s"
| "index_puts ((k, q) # xs) s = obind (index_put k q s) (index_puts xs)"

lemma index_puts_append: "index_puts (xs @ ys) = (\<lambda>s. obind (index_puts xs s) (index_puts ys))"
  by (induction xs) (auto simp: obind_assoc)

lemma index_walk_append: "index_walk (xs @ ys) = (\<lambda>st. obind (index_walk xs st) (index_walk ys))"
  by (induction xs) (auto simp: obind_assoc)

definition indexed :: "u_json_type \<Rightarrow> string \<Rightarrow> nat \<Rightarrow> u_json \<Rightarrow> u_json" where
  "indexed T F s x = set_map True (set_icur (start_icur T x) (set_fqn (child_fqn T F s x) x))"

lemma do_index_child:
  assumes "jvalid r p" "jchildren (jat r p) = as @ x # xs"
  shows "u_json_do_index (p @ [length as]) (r, s0) =
    obind (index_put (child_fqn (jtype (jat r p)) (jfqn (jat r p)) (jicur (jat r p)) x) (p @ [length as]) s0)
      (\<lambda>s1. Inr (jupd (\<lambda>n. set_icur (next_icur (jtype n) (jicur n) 1)
        (set_children (as @ indexed (jtype n) (jfqn n) (jicur n) x # xs) n)) r p, s1))"
proof -
  let ?n = "jat r p"
  have upd: "(as @ y # xs)[length as := z] = as @ z # xs" for y z :: u_json by simp
  have q: "jat r (p @ [length as]) = x" using assms(2) by (simp add: jptr_simps)
  have ne: "p @ [length as] \<noteq> []" "butlast (p @ [length as]) = p" by simp_all
  let ?ia = "jtype ?n = U_JSON_TYPE_ARRAY"
  define R where "R g = (let r2 = jupd (set_fqn g) (if ?ia then jupd (set_icur (Suc (jicur ?n))) r p else r) (p @ [length as])
    in jupd (set_map True) (if ?ia \<and> jtype x = U_JSON_TYPE_ARRAY then jupd (set_icur 0) r2 (p @ [length as]) else r2)
         (p @ [length as]))" for g
  have step: "u_json_do_index (p @ [length as]) (r, s0) =
    obind (index_put (child_fqn (jtype ?n) (jfqn ?n) (jicur ?n) x) (p @ [length as]) s0)
      (\<lambda>s1. Inr (R (child_fqn (jtype ?n) (jfqn ?n) (jicur ?n) x), s1))"
    by (simp add: u_json_do_index_def R_def q Let_def split del: if_split cong: if_cong)
  have "R g = jupd (\<lambda>n. set_icur (next_icur (jtype ?n) (jicur ?n) 1)
        (set_children (as @ set_map True (set_icur (start_icur (jtype ?n) x) (set_fqn g x)) # xs) n)) r p" for g
  proof -
    have i: "set_icur (start_icur (jtype ?n) x) (set_fqn g x) =
      (if ?ia \<and> jtype x = U_JSON_TYPE_ARRAY then set_icur 0 (set_fqn g x) else set_fqn g x)"
      by (cases x) (simp add: start_icur_def)
    show ?thesis unfolding i using assms
      by (cases ?ia; cases "jtype x = U_JSON_TYPE_ARRAY")
        (auto simp: R_def Let_def jptr_simps next_icur_def upd intro!: jupd_cong)
  qed
  also have "jupd (\<lambda>n. set_icur (next_icur (jtype ?n) (jicur ?n) 1) (set_children (as @ set_map True
        (set_icur (start_icur (jtype ?n) x) (set_fqn (child_fqn (jtype ?n) (jfqn ?n) (jicur ?n) x) x)) # xs) n)) r p
    = jupd (\<lambda>n. set_icur (next_icur (jtype n) (jicur n) 1)
        (set_children (as @ indexed (jtype n) (jfqn n) (jicur n) x # xs) n)) r p"
    by (rule jupd_cong) (simp add: indexed_def)
  finally show ?thesis unfolding step by simp
qed

text \<open>
  Indexing the children of a node from one position on: their names enter the map, and the tree below
  the node becomes the indexed one.
\<close>

lemma index_walk_kids:
  assumes "jvalid r p" "jchildren (jat r p) = as @ cs"
  shows "index_walk (map fst (walk_list U_JSON_WALK_PREORDER p (length as) l cs)) (r, s0) =
    obind (index_puts (name_list p (length as) (jtype (jat r p)) (jfqn (jat r p)) (jicur (jat r p)) cs) s0)
      (\<lambda>s1. Inr (jupd (\<lambda>n. set_icur (next_icur (jtype n) (jicur n) (length cs))
        (set_children (as @ index_forest (jtype n) (jfqn n) (jicur n) cs) n)) r p, s1))"
  using assms
proof (induction cs arbitrary: r p as l s0 rule: nodes.induct)
  case 1
  then have "jupd (\<lambda>n. set_children as n) r p = jupd (\<lambda>n. n) r p" by (intro jupd_cong) (simp, metis jset_set(6))
  moreover have "jupd (\<lambda>n. n) c q = c" for c q
    by (induction c q rule: jat.induct) simp_all
  ultimately show ?case by simp
next
  case (2 t f k v d ic c m cs xs)
  let ?x = "U_json t f k v d ic c m cs" and ?n = "jat r p" and ?q = "p @ [length as]"
  let ?T = "jtype ?n" and ?F = "jfqn ?n" and ?s = "jicur ?n"
  let ?g = "child_fqn ?T ?F ?s ?x" and ?i0 = "start_icur ?T ?x" and ?x1 = "indexed ?T ?F ?s ?x"
  define r1 where "r1 = jupd (\<lambda>n. set_icur (next_icur ?T ?s 1) (set_children (as @ ?x1 # xs) n)) r p"
  have r1: "jupd (\<lambda>n. set_icur (next_icur (jtype n) (jicur n) 1)
        (set_children (as @ indexed (jtype n) (jfqn n) (jicur n) ?x # xs) n)) r p = r1"
    unfolding r1_def by (rule jupd_cong) simp
  have n1: "jvalid r1 p" "jat r1 p = set_icur (next_icur ?T ?s 1) (set_children (as @ ?x1 # xs) ?n)"
    using "2.prems" by (simp_all add: r1_def jptr_simps)
  have x1: "?x1 = U_json t ?g k v d ?i0 c True cs" by (simp add: indexed_def)
  have q1: "jvalid r1 ?q" "jat r1 ?q = ?x1" using n1 by (simp_all add: jptr_simps)
  let ?x2 = "U_json t ?g k v d (next_icur t ?i0 (length cs)) c True (index_forest t ?g ?i0 cs)"
  define r2 where "r2 = jupd (\<lambda>n. set_icur (next_icur (jtype n) (jicur n) (length cs))
        (set_children ([] @ index_forest (jtype n) (jfqn n) (jicur n) cs) n)) r1 ?q"
  have r2: "r2 = jupd (\<lambda>n. set_icur (next_icur ?T ?s 1) (set_children ((as @ [?x2]) @ xs) n)) r p"
    unfolding r2_def r1_def using "2.prems" by (simp add: jptr_simps) (rule jupd_cong, simp add: x1)
  have n2: "jvalid r2 p" "jat r2 p = set_icur (next_icur ?T ?s 1) (set_children ((as @ [?x2]) @ xs) ?n)"
    using "2.prems" by (simp_all add: r2 jptr_simps)
  have ih1: "index_walk (map fst (walk_list U_JSON_WALK_PREORDER ?q 0 (l + 1) cs)) (r1, s1) =
    obind (index_puts (name_list ?q 0 t ?g ?i0 cs) s1) (\<lambda>s2. Inr (r2, s2))" for s1
    using "2.IH"(1) [OF q1(1), of "[]" "l + 1" s1] q1(2) x1 unfolding r2_def by simp
  have l1: "length (as @ [?x2]) = Suc (length as)" by simp
  have ih2: "index_walk (map fst (walk_list U_JSON_WALK_PREORDER p (Suc (length as)) l xs)) (r2, s2) =
    obind (index_puts (name_list p (Suc (length as)) ?T ?F (next_icur ?T ?s 1) xs) s2)
      (\<lambda>s3. Inr (jupd (\<lambda>n. set_icur (next_icur (jtype n) (jicur n) (length xs))
        (set_children ((as @ [?x2]) @ index_forest (jtype n) (jfqn n) (jicur n) xs) n)) r2 p, s3))" for s2
    using "2.IH"(2) [OF n2(1), of "as @ [?x2]" l s2] n2(2) unfolding l1 by simp
  have fin: "jupd (\<lambda>n. set_icur (next_icur (jtype n) (jicur n) (length xs))
        (set_children ((as @ [?x2]) @ index_forest (jtype n) (jfqn n) (jicur n) xs) n)) r2 p
    = jupd (\<lambda>n. set_icur (next_icur (jtype n) (jicur n) (length (?x # xs)))
        (set_children (as @ index_forest (jtype n) (jfqn n) (jicur n) (?x # xs)) n)) r p"
    unfolding r2 using "2.prems" by (simp add: jptr_simps) (rule jupd_cong, simp add: Let_def)
  show ?case
    unfolding fin [symmetric] 
    using ih1 ih2 r1 by (simp add: index_walk_append index_puts_append obind_assoc do_index_child [OF "2.prems"] Let_def
        del: index_forest.simps One_nat_def)
qed

section \<open>The names in the map\<close>

lemma index_map_ok:
  "\<exists>h. index_map = Some h \<and> hmap_inv h \<and> objs h = [] \<and> h_sz h = 0
    \<and> o_options (h_opts h) AND U_HMAP_OPTS_NO_OVERWRITE \<noteq> 0"
proof -
  let ?o = "(u_hmap_opts_init zero_opts :: jptr u_hmap_opts)
    \<lparr> o_val_type := U_HMAP_OPTS_DATATYPE_POINTER, o_f_val_free := True, o_val_free_set := True, o_easy := True \<rparr>"
  have h: "o_f_hash ?o = Some Default_hash" by (simp add: u_hmap_opts_init_def)
  have "o_type ?o = U_HMAP_TYPE_CHAIN" "o_policy ?o = U_HMAP_PCY_NONE" "opts_check ?o = U_HMAP_ERR_NONE"
    "o_f_comp ?o = Some f_comp"
    by (simp_all add: u_hmap_opts_init_def zero_opts_def opts_check_def)
  then have g: "good_opts ?o"
    using hash_slot_default [OF h] fc.str_order_axioms unfolding good_opts_def by blast
  have "next_prime (o_size ?o) 0 = Some (599, 12)"
    by (simp add: u_hmap_opts_init_def next_prime_def primes_def)
  from u_hmap_new_ok [OF g this] obtain h where
    n: "u_hmap_new (Some ?o) True True True = (U_HMAP_ERR_NONE, Some h)" "hmap_inv h" "objs h = []"
      "h_sz h = 0" "o_options (h_opts h) = o_options ?o" by auto
  have "index_map = (case u_hmap_new (Some ?o) True True True of (rc, h) \<Rightarrow> if rc = U_HMAP_ERR_NONE then h else None)"
    by (simp add: index_map_def u_hmap_opts_new_def u_hmap_opts_set_val_type_def u_hmap_opts_set_val_freefunc_def
        u_hmap_easy_new_def split: prod.splits)
  with n have "index_map = Some h" by simp
  moreover have "o_options ?o AND U_HMAP_OPTS_NO_OVERWRITE \<noteq> 0"
    by (simp add: u_hmap_opts_init_def U_HMAP_OPTS_NO_OVERWRITE_def)
  ultimately show ?thesis using n by auto
qed

lemma index_put_ok:
  assumes "hm_inv s" "h_sz (fst s) < hmap_bound"
  shows "\<exists>t. index_put k q s = Inr t \<and> hm_inv t \<and> h_sz (fst t) \<le> Suc (h_sz (fst s))
    \<and> hmap_map (fst t) = [k \<mapsto> q] ++ hmap_map (fst s)"
proof -
  let ?obj = "\<lparr> oid = snd s, okey = k, oval = q, opqe = False \<rparr>"
  have inv: "hmap_inv (fst s)" "oid ?obj \<notin> oid ` set (objs (fst s))"
    using assms(1) by (auto simp: hm_inv_def)
  obtain rc old h' where p: "u_hmap_put (Suc 0) (True, True) ok_ra (fst s) ?obj = Inr (rc, old, h')" "hmap_inv h'"
      "oid ` set (objs h') \<subseteq> insert (snd s) (oid ` set (objs (fst s)))"
      "o_options (h_opts h') = o_options (h_opts (fst s))"
      "h_threshold (fst s) \<le> h_sz (fst s) \<and> next_prime (3 * o_size (h_opts (fst s))) (h_px (fst s)) = None
       \<or> put_post (fst s) ?obj rc h'"
    using u_hmap_put_ok [OF inv, of 0 "(True, True)"] by auto
  then have post: "put_post (fst s) ?obj rc h'" using growth_possible [OF inv(1) assms(2)] by auto
  have "index_put k q s = Inr (h', Suc (snd s))"
    using p(1) by (simp add: index_put_def u_hmap_easy_put_def u_hmap_o_new_def)
  moreover have "hm_inv (h', Suc (snd s))" using p(2-4) assms(1) by (fastforce simp: hm_inv_def)
  moreover have "h_sz h' \<le> Suc (h_sz (fst s))" using post by (auto simp: put_post_def split: if_splits)
  moreover have "hmap_map h' = [k \<mapsto> q] ++ hmap_map (fst s)"
    using post assms(1) by (auto simp: put_post_def hm_inv_def map_add_def fun_eq_iff split: if_splits option.splits)
  ultimately show ?thesis by auto
qed

lemma index_puts_ok:
  assumes "hm_inv s" "h_sz (fst s) + length xs \<le> hmap_bound"
  shows "\<exists>t. index_puts xs s = Inr t \<and> hm_inv t \<and> hmap_map (fst t) = map_of xs ++ hmap_map (fst s)"
  using assms
proof (induction xs arbitrary: s)
  case (Cons kq xs)
  obtain k q where kq: "kq = (k, q)" by (cases kq)
  obtain t where t: "index_put k q s = Inr t" "hm_inv t" "h_sz (fst t) \<le> Suc (h_sz (fst s))"
    "hmap_map (fst t) = [k \<mapsto> q] ++ hmap_map (fst s)"
    using index_put_ok [OF Cons.prems(1), of k q] Cons.prems(2) by auto
  then obtain u where u: "index_puts xs t = Inr u" "hm_inv u" "hmap_map (fst u) = map_of xs ++ hmap_map (fst t)"
    using Cons.IH [of t] Cons.prems(2) by auto
  have "map_of (kq # xs) ++ hmap_map (fst s) = hmap_map (fst u)"
    unfolding u(3) t(4) kq by (auto simp: map_add_def fun_eq_iff split: option.splits)
  with t(1) u(1,2) kq show ?case by (simp del: map_of.simps)
qed simp

lemma map_get_ok:
  assumes "d_map d = Some s" "hm_inv s"
  shows "map_get d name = Inr (hmap_map (fst s) name)"
  using u_hmap_get_ok [of "fst s", where k = name and al = "(True, True)"] assms
  by (cases "hmap_map (fst s) name") (auto simp: map_get_def u_hmap_easy_get_def hm_inv_def)

text \<open>The names of a whole document, and the document after indexing.\<close>

definition json_names :: "u_json \<Rightarrow> (string \<times> jptr) list" where
  "json_names r = (''.'', []) # name_list [] 0 (jtype r) ''.'' 0 (jchildren r)"

definition index_tree :: "u_json \<Rightarrow> u_json" where
  "index_tree r = set_map True (set_fqn ''.'' (set_icur (next_icur (jtype r) 0 (length (jchildren r)))
     (set_children (index_forest (jtype r) ''.'' 0 (jchildren r)) r)))"

lemma index_ok:
  assumes "\<not> jmap (d_root d)" "Suc (nodes (jchildren (d_root d))) \<le> hmap_bound"
  shows "\<exists>s. u_json_index d [] = Inr (rc_ok, \<lparr> d_root = index_tree (d_root d), d_map = Some s \<rparr>)
    \<and> hm_inv s \<and> hmap_map (fst s) = map_of (json_names (d_root d))"
proof -
  let ?r = "d_root d"
  define r1 where "r1 = set_map True (set_fqn ''.'' (set_icur 0 ?r))"
  obtain h where h: "index_map = Some h" "hmap_inv h" "objs h = []" "h_sz h = 0"
    "o_options (h_opts h) AND U_HMAP_OPTS_NO_OVERWRITE \<noteq> 0" using index_map_ok by blast
  have i: "hm_inv (h, 0)" "hmap_map (fst (h, 0)) = Map.empty"
    using h by (simp_all add: hm_inv_def hmap_map_def)
  have len: "h_sz (fst (h, 0)) + length (json_names ?r) \<le> hmap_bound"
    using assms(2) h(4) by (simp add: json_names_def length_name_list)
  obtain s where s: "index_puts (json_names ?r) (h, 0) = Inr s" "hm_inv s" "hmap_map (fst s) = map_of (json_names ?r)"
    using index_puts_ok [OF i(1) len] unfolding i(2) by auto
  have root: "u_json_do_index [] (set_icur 0 ?r, (h, 0)) = obind (index_put ''.'' [] (h, 0)) (\<lambda>s1. Inr (r1, s1))"
    by (simp add: u_json_do_index_def r1_def Let_def)
  have kids: "index_walk (map fst (walk_list U_JSON_WALK_PREORDER [] 0 l (jchildren ?r))) (r1, s1) =
    obind (index_puts (name_list [] 0 (jtype ?r) ''.'' 0 (jchildren ?r)) s1) (\<lambda>s2. Inr (index_tree ?r, s2))" for l s1
  proof -
    have "set_icur i (set_children cs r1) = set_map True (set_fqn ''.'' (set_icur i (set_children cs ?r)))" for i cs
      unfolding r1_def by (cases ?r) simp
    then show ?thesis
      using index_walk_kids [of r1 "[]" "[]" "jchildren ?r" l s1] by (simp add: r1_def index_tree_def)
  qed
  have "index_walk (map fst (u_json_walk (set_icur 0 ?r) [] U_JSON_WALK_PREORDER 0)) (set_icur 0 ?r, (h, 0))
    = obind (index_puts (json_names ?r) (h, 0)) (\<lambda>s2. Inr (index_tree ?r, s2))"
    by (simp add: u_json_walk_def root json_names_def obind_assoc kids)
  then have "index_walk (map fst (u_json_walk (set_icur 0 ?r) [] U_JSON_WALK_PREORDER 0)) (set_icur 0 ?r, (h, 0))
    = Inr (index_tree ?r, s)" unfolding s(1) by simp
  moreover have "set_map True (index_tree ?r) = index_tree ?r" by (simp add: index_tree_def)
  ultimately have "u_json_index d [] = Inr (rc_ok, \<lparr> d_root = index_tree ?r, d_map = Some s \<rparr>)"
    using assms(1) unfolding u_json_index_def h(1) by simp
  with s(2,3) show ?thesis by blast
qed

section \<open>Names and paths\<close>

text \<open>
  The name that a path should have: for each step the key in an object, or the position in an array.
  A tree is plain when keys are different words without the signs of names, counters are new, only
  containers have children, and all names are short enough.
\<close>

definition step_name :: "u_json_type \<Rightarrow> nat \<Rightarrow> string \<Rightarrow> string" where
  "step_name T j k = (if T = U_JSON_TYPE_OBJECT then ''.'' @ k else ''['' @ decimal j @ '']'')"

fun path_name :: "u_json \<Rightarrow> jptr \<Rightarrow> string" where
  "path_name c [] = []"
| "path_name c (i # p) = step_name (jtype c) i (jkey (jchildren c ! i)) @ path_name (jchildren c ! i) p"

definition key_ok :: "string \<Rightarrow> bool" where
  "key_ok k = (k \<noteq> [] \<and> CHR ''.'' \<notin> set k \<and> CHR ''['' \<notin> set k)"

definition plain_node :: "u_json \<Rightarrow> bool" where
  "plain_node c =
     ((jtype c = U_JSON_TYPE_OBJECT \<longrightarrow> distinct (map jkey (jchildren c)) \<and> list_all key_ok (map jkey (jchildren c)))
      \<and> (jtype c = U_JSON_TYPE_ARRAY \<longrightarrow> jcount c = length (jchildren c))
      \<and> (jchildren c \<noteq> [] \<longrightarrow> is_container c))"

fun plain_forest :: "u_json_type \<Rightarrow> string \<Rightarrow> nat \<Rightarrow> u_json list \<Rightarrow> bool" where
  "plain_forest T F j [] = True"
| "plain_forest T F j (U_json t f k v d i c m cs # xs) =
     (length (F @ step_name T j k) < U_JSON_FQN_SZ \<and> i = 0 \<and> plain_node (U_json t f k v d i c m cs)
      \<and> plain_forest t (F @ step_name T j k) 0 cs \<and> plain_forest T F (Suc j) xs)"

definition json_plain :: "u_json \<Rightarrow> bool" where
  "json_plain r = (plain_node r \<and> plain_forest (jtype r) ''.'' 0 (jchildren r))"

lemma plain_forest_nth:
  "plain_forest T F j xs \<Longrightarrow> i < length xs \<Longrightarrow>
    length (F @ step_name T (j + i) (jkey (xs ! i))) < U_JSON_FQN_SZ \<and> jicur (xs ! i) = 0 \<and> plain_node (xs ! i)
    \<and> plain_forest (jtype (xs ! i)) (F @ step_name T (j + i) (jkey (xs ! i))) 0 (jchildren (xs ! i))"
proof (induction T F j xs arbitrary: i rule: plain_forest.induct)
  case (2 T F j t f k v d ic c m cs xs)
  then show ?case by (cases i) (auto simp: add.commute)
qed simp

lemma plain_at:
  assumes "plain_node c" "plain_forest (jtype c) F 0 (jchildren c)" "jvalid c p"
  shows "plain_node (jat c p) \<and> plain_forest (jtype (jat c p)) (F @ path_name c p) 0 (jchildren (jat c p))
    \<and> (p \<noteq> [] \<longrightarrow> jicur (jat c p) = 0 \<and> length (F @ path_name c p) < U_JSON_FQN_SZ)"
  using assms
proof (induction c p arbitrary: F rule: jvalid.induct)
  case (2 c i p)
  let ?x = "jchildren c ! i" and ?G = "F @ step_name (jtype c) i (jkey (jchildren c ! i))"
  have x: "length ?G < U_JSON_FQN_SZ" "jicur ?x = 0" "plain_node ?x" "plain_forest (jtype ?x) ?G 0 (jchildren ?x)"
    using plain_forest_nth [OF "2.prems"(2), of i] "2.prems"(3) by auto
  have v: "jvalid ?x p" using "2.prems"(3) by simp
  show ?case using "2.IH" [OF x(3,4) v] x(1,2) by (cases "p = []") (auto simp: append_assoc)
qed simp

lemma snprintf_fits: "length s < n \<Longrightarrow> u_snprintf n s = (True, s)"
  by (simp add: u_snprintf_def)

lemma child_fqn_step:
  assumes "T = U_JSON_TYPE_OBJECT \<or> T = U_JSON_TYPE_ARRAY" "length (F @ step_name T j (jkey x)) < U_JSON_FQN_SZ"
  shows "child_fqn T F j x = F @ step_name T j (jkey x)"
  using assms by (auto simp: child_fqn_def step_name_def snprintf_fits)

lemma object_icur:
  "name_list p j U_JSON_TYPE_OBJECT F s xs = name_list p j U_JSON_TYPE_OBJECT F s' xs"
  "index_forest U_JSON_TYPE_OBJECT F s xs = index_forest U_JSON_TYPE_OBJECT F s' xs"
proof -
  have c: "child_fqn U_JSON_TYPE_OBJECT F s = child_fqn U_JSON_TYPE_OBJECT F s'" for F s s'
    by (rule ext) (simp add: child_fqn_def)
  have n: "next_icur U_JSON_TYPE_OBJECT s n = s" for s n by (simp add: next_icur_def)
  have l: "map jtype xs = map jtype xs" by simp
  show "name_list p j U_JSON_TYPE_OBJECT F s xs = name_list p j U_JSON_TYPE_OBJECT F s' xs"
  proof (induction xs arbitrary: j)
    case (Cons x xs)
    then show ?case by (cases x) (simp add: Let_def n c [of F s s'])
  qed simp
  show "index_forest U_JSON_TYPE_OBJECT F s xs = index_forest U_JSON_TYPE_OBJECT F s' xs"
  proof (induction xs)
    case (Cons x xs)
    then show ?case by (cases x) (simp add: Let_def n c [of F s s'])
  qed simp
qed

lemma forest_split:
  "(\<exists>i q'. i < length (U_json t f k v d ic c m cs # xs) \<and> jvalid ((U_json t f k v d ic c m cs # xs) ! i) q' \<and> P i q') \<longleftrightarrow>
  P 0 [] \<or> (\<exists>i q'. i < length cs \<and> jvalid (cs ! i) q' \<and> P 0 (i # q'))
  \<or> (\<exists>i q'. i < length xs \<and> jvalid (xs ! i) q' \<and> P (Suc i) q')"
proof
  assume "\<exists>i q'. i < length (U_json t f k v d ic c m cs # xs) \<and> jvalid ((U_json t f k v d ic c m cs # xs) ! i) q' \<and> P i q'"
  then obtain i q' where i: "i < length (U_json t f k v d ic c m cs # xs)" "jvalid ((U_json t f k v d ic c m cs # xs) ! i) q'" "P i q'" by blast
  then show "P 0 [] \<or> (\<exists>i q'. i < length cs \<and> jvalid (cs ! i) q' \<and> P 0 (i # q'))
    \<or> (\<exists>i q'. i < length xs \<and> jvalid (xs ! i) q' \<and> P (Suc i) q')"
    by (cases i; cases q') auto
next
  assume "P 0 [] \<or> (\<exists>i q'. i < length cs \<and> jvalid (cs ! i) q' \<and> P 0 (i # q'))
    \<or> (\<exists>i q'. i < length xs \<and> jvalid (xs ! i) q' \<and> P (Suc i) q')"
  then show "\<exists>i q'. i < length (U_json t f k v d ic c m cs # xs) \<and> jvalid ((U_json t f k v d ic c m cs # xs) ! i) q' \<and> P i q'"
  proof (elim disjE exE conjE)
    fix i q' assume "i < length cs" "jvalid (cs ! i) q'" "P 0 (i # q')"
    then show ?thesis by (intro exI [of _ 0] exI [of _ "i # q'"]) simp
  next
    fix i q' assume "i < length xs" "jvalid (xs ! i) q'" "P (Suc i) q'"
    then show ?thesis by (intro exI [of _ "Suc i"] exI [of _ q']) simp
  qed (intro exI [of _ 0] exI [of _ "[]"], simp)
qed

lemma name_list_set:
  assumes "plain_forest T F j xs" "T = U_JSON_TYPE_OBJECT \<or> T = U_JSON_TYPE_ARRAY"
  shows "(n, q) \<in> set (name_list p j T F j xs) \<longleftrightarrow>
    (\<exists>i q'. i < length xs \<and> jvalid (xs ! i) q' \<and> q = p @ (j + i) # q'
      \<and> n = F @ step_name T (j + i) (jkey (xs ! i)) @ path_name (xs ! i) q')"
  using assms
proof (induction T F j xs arbitrary: p n q rule: plain_forest.induct)
  case (2 T F j t f k v d ic c m cs xs)
  let ?x = "U_json t f k v d ic c m cs" and ?G = "F @ step_name T j k"
  have g: "child_fqn T F j ?x = ?G" using child_fqn_step [of T F j ?x] "2.prems" by simp
  have i0: "start_icur T ?x = 0" using "2.prems"(1) by (simp add: start_icur_def)
  have tl: "name_list p (Suc j) T F (next_icur T j 1) xs = name_list p (Suc j) T F (Suc j) xs"
    using "2.prems"(2) object_icur(1) by (auto simp: next_icur_def)
  have kids: "(n, q) \<in> set (name_list (p @ [j]) 0 t ?G 0 cs) \<longleftrightarrow>
    (\<exists>i q'. i < length cs \<and> jvalid (cs ! i) q' \<and> q = p @ j # i # q'
      \<and> n = ?G @ step_name t i (jkey (cs ! i)) @ path_name (cs ! i) q')"
  proof (cases "cs = []")
    case False
    then have "t = U_JSON_TYPE_OBJECT \<or> t = U_JSON_TYPE_ARRAY" "plain_forest t ?G 0 cs"
      using "2.prems"(1) by (auto simp: plain_node_def is_container_def)
    then show ?thesis using "2.IH"(1) [of n q "p @ [j]"] by simp
  qed simp
  have rest: "(n, q) \<in> set (name_list p (Suc j) T F (Suc j) xs) \<longleftrightarrow>
    (\<exists>i q'. i < length xs \<and> jvalid (xs ! i) q' \<and> q = p @ (Suc j + i) # q'
      \<and> n = F @ step_name T (Suc j + i) (jkey (xs ! i)) @ path_name (xs ! i) q')"
    using "2.IH"(2) "2.prems" by simp
  have nl: "name_list p j T F j (?x # xs) = (?G, p @ [j]) # name_list (p @ [j]) 0 t ?G 0 cs @ name_list p (Suc j) T F (Suc j) xs"
    using g i0 tl by (simp add: Let_def)
  show ?case
    unfolding nl forest_split using kids rest by (simp add: add.commute) blast
qed simp

text \<open>The nodes of the indexed tree.\<close>

fun index_node :: "string \<Rightarrow> u_json \<Rightarrow> u_json" where
  "index_node g (U_json t f k v d i c m cs) = U_json t g k v d (next_icur t 0 (length cs)) c True (index_forest t g 0 cs)"

lemma index_node_sel [simp]:
  "jtype (index_node g x) = jtype x" "jfqn (index_node g x) = g" "jmap (index_node g x) = True"
  "jcount (index_node g x) = jcount x" "jchildren (index_node g x) = index_forest (jtype x) g 0 (jchildren x)"
  "jkey (index_node g x) = jkey x"
  by (cases x; simp)+

lemma length_index_forest [simp]: "length (index_forest T F s xs) = length xs"
  by (induction T F s xs rule: index_forest.induct) simp_all

lemma index_forest_nth:
  assumes "plain_forest T F j xs" "T = U_JSON_TYPE_OBJECT \<or> T = U_JSON_TYPE_ARRAY" "i < length xs"
  shows "index_forest T F j xs ! i = index_node (F @ step_name T (j + i) (jkey (xs ! i))) (xs ! i)"
  using assms
proof (induction xs arbitrary: j i)
  case (Cons x xs)
  obtain t f k v d ic c m cs where x: "x = U_json t f k v d ic c m cs" by (cases x)
  have g: "child_fqn T F j x = F @ step_name T j k" using child_fqn_step [of T F j x] Cons.prems x by simp
  have i0: "start_icur T x = 0" using Cons.prems(1) x by (simp add: start_icur_def)
  have tl: "index_forest T F (next_icur T j 1) xs = index_forest T F (Suc j) xs"
    using Cons.prems(2) object_icur(2) by (auto simp: next_icur_def)
  show ?case
  proof (cases i)
    case 0
    then show ?thesis using g i0 by (simp add: x Let_def)
  next
    case (Suc i')
    then show ?thesis using Cons.IH [of "Suc j" i'] Cons.prems tl by (simp add: x Let_def)
  qed
qed simp

lemma plain_container:
  "plain_node c \<Longrightarrow> i < length (jchildren c) \<Longrightarrow> jtype c = U_JSON_TYPE_OBJECT \<or> jtype c = U_JSON_TYPE_ARRAY"
  by (auto simp: plain_node_def is_container_def)

lemma index_node_at:
  assumes "plain_node x" "plain_forest (jtype x) G 0 (jchildren x)" "jvalid x q"
  shows "jat (index_node G x) q = index_node (G @ path_name x q) (jat x q)"
  using assms
proof (induction x q arbitrary: G rule: jvalid.induct)
  case (2 x i q)
  let ?y = "jchildren x ! i" and ?H = "G @ step_name (jtype x) i (jkey (jchildren x ! i))"
  have i: "i < length (jchildren x)" using "2.prems"(3) by simp
  have y: "plain_node ?y" "plain_forest (jtype ?y) ?H 0 (jchildren ?y)"
    using plain_forest_nth [OF "2.prems"(2) i] by auto
  have "jchildren (index_node G x) ! i = index_node ?H ?y"
    using index_forest_nth [OF "2.prems"(2) plain_container [OF "2.prems"(1) i] i] by simp
  then show ?case using "2.IH" [OF y] "2.prems"(3) by simp
qed simp

lemma index_tree_eq: "index_tree r = index_node ''.'' r"
  by (cases r) (simp add: index_tree_def)

text \<open>A name determines its path.\<close>

lemma digits_snoc: "digits_val (ds @ [c]) = 10 * digits_val ds + (int (of_char c) - 48)"
  by (simp add: digits_val_def)

lemma digits_decimal: "digits_val (decimal n) = int n"
proof (induction n rule: decimal.induct)
  case (1 n)
  show ?case
  proof (cases "n < 10")
    case True
    then show ?thesis using digits_snoc [of "[]"] by (simp add: decimal.simps [of n]) (simp add: digits_val_def)
  next
    case False
    then have d: "decimal n = decimal (n div 10) @ [char_of (48 + n mod 10)]" by (subst decimal.simps) simp
    have "int (n div 10) * 10 + int (n mod 10) = int n" by (metis div_mult_mod_eq of_nat_add of_nat_mult of_nat_numeral)
    then show ?thesis using 1 False unfolding d digits_snoc by simp
  qed
qed

lemma decimal_inj: "decimal m = decimal n \<Longrightarrow> m = n"
  by (metis digits_decimal of_nat_eq_iff)

definition sign_first :: "string \<Rightarrow> bool" where
  "sign_first s = (s = [] \<or> hd s = CHR ''.'' \<or> hd s = CHR ''['')"

lemma path_name_first: "sign_first (path_name c p)" "path_name c p = [] \<longleftrightarrow> p = []"
  by (cases p; simp add: sign_first_def step_name_def)+

lemma split_unique:
  assumes "k @ s = k' @ s'" "sign_first s" "sign_first s'" "key_ok k" "key_ok k'"
  shows "k = k' \<and> s = s'"
proof -
  let ?P = "\<lambda>c. c \<noteq> CHR ''.'' \<and> c \<noteq> CHR ''[''"
  have "takeWhile ?P (x @ y) = x" if "key_ok x" "sign_first y" for x y
  proof -
    have "takeWhile ?P (x @ y) = x @ takeWhile ?P y"
      by (rule takeWhile_append2) (use that in \<open>auto simp: key_ok_def\<close>)
    moreover have "takeWhile ?P y = []" using that(2) by (cases y) (auto simp: sign_first_def)
    ultimately show ?thesis by simp
  qed
  then show ?thesis using assms by (metis same_append_eq)
qed

lemma bracket_unique:
  assumes "decimal m @ CHR '']'' # s = decimal n @ CHR '']'' # s'"
  shows "m = n \<and> s = s'"
proof -
  have "takeWhile isdigit (decimal k @ CHR '']'' # t) = decimal k" for k t
  proof -
    have "takeWhile isdigit (decimal k @ CHR '']'' # t) = decimal k @ takeWhile isdigit (CHR '']'' # t)"
      by (rule takeWhile_append2) (rule decimal_digits)
    then show ?thesis by (simp add: isdigit_def)
  qed
  then have "decimal m = decimal n" using assms by metis
  then show ?thesis using assms decimal_inj by auto
qed

lemma path_name_inj:
  assumes "plain_node c" "plain_forest (jtype c) F 0 (jchildren c)" "jvalid c p" "jvalid c q"
    "path_name c p = path_name c q"
  shows "p = q"
  using assms
proof (induction c p arbitrary: F q rule: jvalid.induct)
  case (1 c)
  then show ?case using path_name_first(2) [of c q] by simp
next
  case (2 c i p)
  then obtain j q' where q: "q = j # q'" using path_name_first(2) [of c "i # p"] by (cases q) auto
  let ?x = "jchildren c ! i" and ?y = "jchildren c ! j"
  have v: "i < length (jchildren c)" "j < length (jchildren c)" "jvalid ?x p" "jvalid ?y q'"
    using "2.prems"(3,4) q by auto
  have eq: "step_name (jtype c) i (jkey ?x) @ path_name ?x p = step_name (jtype c) j (jkey ?y) @ path_name ?y q'"
    using "2.prems"(5) q by simp
  have "i = j \<and> path_name ?x p = path_name ?y q'"
  proof (cases "jtype c = U_JSON_TYPE_OBJECT")
    case True
    then have d: "distinct (map jkey (jchildren c))" "list_all key_ok (map jkey (jchildren c))"
      using "2.prems"(1) by (auto simp: plain_node_def)
    have "key_ok (jkey ?x)" "key_ok (jkey ?y)" using d(2) v(1,2) by (auto simp: list_all_iff)
    then have "jkey ?x = jkey ?y \<and> path_name ?x p = path_name ?y q'"
      using eq True path_name_first(1) split_unique [of "jkey ?x" "path_name ?x p"] by (simp add: step_name_def)
    moreover have "jkey ?x = jkey ?y \<Longrightarrow> i = j" using d(1) v(1,2) by (auto simp: distinct_conv_nth)
    ultimately show ?thesis by blast
  next
    case False
    then show ?thesis using eq bracket_unique [of i "path_name ?x p" j] by (simp add: step_name_def)
  qed
  moreover have "plain_node ?x" "plain_forest (jtype ?x) (F @ step_name (jtype c) i (jkey ?x)) 0 (jchildren ?x)"
    using plain_forest_nth [OF "2.prems"(2) v(1)] by auto
  ultimately show ?case using "2.IH" [of _ q'] v q by auto
qed

lemma json_names_set:
  assumes "json_plain r"
  shows "(n, p) \<in> set (json_names r) \<longleftrightarrow> jvalid r p \<and> n = ''.'' @ path_name r p"
proof -
  have pl: "plain_node r" "plain_forest (jtype r) ''.'' 0 (jchildren r)" using assms by (auto simp: json_plain_def)
  show ?thesis
  proof (cases "jchildren r = []")
    case True
    then show ?thesis by (cases p) (auto simp: json_names_def)
  next
    case False
    then have t: "jtype r = U_JSON_TYPE_OBJECT \<or> jtype r = U_JSON_TYPE_ARRAY"
      using pl(1) by (auto simp: plain_node_def is_container_def)
    show ?thesis
      using name_list_set [OF pl(2) t, of n p "[]"] by (cases p) (auto simp: json_names_def)
  qed
qed

lemma json_names_map:
  assumes "json_plain r"
  shows "map_of (json_names r) n = Some p \<longleftrightarrow> jvalid r p \<and> n = ''.'' @ path_name r p"
proof
  assume "map_of (json_names r) n = Some p"
  then show "jvalid r p \<and> n = ''.'' @ path_name r p" using json_names_set [OF assms] map_of_SomeD by metis
next
  assume p: "jvalid r p \<and> n = ''.'' @ path_name r p"
  then have "(n, p) \<in> set (json_names r)" by (simp only: json_names_set [OF assms])
  then have "n \<in> fst ` set (json_names r)" by (metis fst_conv image_eqI)
  then obtain q where q: "map_of (json_names r) n = Some q" by (metis map_of_eq_None_iff not_None_eq)
  then have "jvalid r q \<and> n = ''.'' @ path_name r q" using json_names_set [OF assms] map_of_SomeD by metis
  then have "q = p" using path_name_inj [of r "''.''" q p] p assms by (simp add: json_plain_def)
  with q show "map_of (json_names r) n = Some p" by simp
qed

section \<open>Properties\<close>

lemma cache_root:
  assumes "jmap (d_root d)" "d_map d = Some s" "hm_inv s" "hmap_map (fst s) = m"
  shows "u_json_cache_get d (Some []) (Some name) = Inr (m name)"
  using map_get_ok [OF assms(2,3)] assms(1,4) by (simp add: u_json_cache_get_def)

lemma cache_below:
  assumes "jmap (jat (d_root d) q)" "q \<noteq> []" "d_map d = Some s" "hm_inv s" "hmap_map (fst s) = m"
    "m name = None"
  shows "u_json_cache_get d (Some q) (Some name) = Inr (m (snd (u_snprintf U_JSON_FQN_SZ (jfqn (jat (d_root d) q) @ name))))"
  using map_get_ok [OF assms(3,4)] assms(1,2,5,6) by (simp add: u_json_cache_get_def)

lemma path_name_app:
  "path_name c (p @ q) = path_name c p @ path_name (jat c p) q"
  by (induction c p rule: jat.induct) simp_all

text \<open>No relative name is a qualified one.\<close>

lemma relative_not_full:
  assumes "json_plain r" "jvalid r q" "jvalid (jat r q) p"
  shows "map_of (json_names r) (path_name (jat r q) p) = None"
proof (rule ccontr)
  let ?c = "jat r q"
  assume "map_of (json_names r) (path_name ?c p) \<noteq> None"
  then obtain p' where "path_name ?c p = ''.'' @ path_name r p'" using json_names_map [OF assms(1)] by blast
  moreover have "plain_node ?c" using plain_at [of r "''.''" q] assms by (simp add: json_plain_def)
  ultimately show False
  proof (cases p)
    case (Cons i p'')
    have i: "i < length (jchildren ?c)" using assms(3) Cons by simp
    show ?thesis
    proof (cases "jtype ?c = U_JSON_TYPE_OBJECT")
      case True
      then have "key_ok (jkey (jchildren ?c ! i))"
        using \<open>plain_node ?c\<close> i by (auto simp: plain_node_def list_all_iff)
      then show ?thesis using \<open>path_name ?c p = ''.'' @ path_name r p'\<close> Cons True path_name_first [of r p']
          path_name_first(1) [of "jchildren ?c ! i" p'']
        by (cases "jkey (jchildren ?c ! i)"; cases "path_name r p'") (auto simp: step_name_def key_ok_def sign_first_def)
    next
      case False
      then show ?thesis using \<open>path_name ?c p = ''.'' @ path_name r p'\<close> Cons by (simp add: step_name_def)
    qed
  qed simp
qed

text \<open>What an index of a document gives.\<close>

lemma indexed_doc:
  assumes "\<not> jmap (d_root d)" "nodes [d_root d] \<le> hmap_bound"
  shows "\<exists>d' s. u_json_index d [] = Inr (rc_ok, d') \<and> d_root d' = index_node ''.'' (d_root d) \<and> d_map d' = Some s
    \<and> hm_inv s \<and> hmap_map (fst s) = map_of (json_names (d_root d))"
proof -
  have "Suc (nodes (jchildren (d_root d))) \<le> hmap_bound" using assms(2) by (cases "d_root d") simp
  then show ?thesis using index_ok [OF assms(1)] by (auto simp: index_tree_eq)
qed

lemma relative_get:
  assumes "json_plain r" "d_root d' = index_node ''.'' r" "d_map d' = Some s" "hm_inv s"
    "hmap_map (fst s) = map_of (json_names r)" "jvalid r (q @ p)" "q \<noteq> []"
  shows "u_json_cache_get d' (Some q) (Some (path_name (jat r q) p)) = Inr (Some (q @ p))"
proof -
  have v: "jvalid r q" "jvalid (jat r q) p" using assms(6) by (simp_all add: jptr_simps)
  have pl: "plain_node r" "plain_forest (jtype r) ''.'' 0 (jchildren r)"
    using assms(1) by (auto simp: json_plain_def)
  have at: "jat (d_root d') q = index_node (''.'' @ path_name r q) (jat r q)"
    unfolding assms(2) using index_node_at [OF pl v(1)] .
  have len: "length (''.'' @ path_name r (q @ p)) < U_JSON_FQN_SZ"
    using plain_at [OF pl assms(6)] assms(7) by simp
  have full: "jfqn (jat (d_root d') q) @ path_name (jat r q) p = ''.'' @ path_name r (q @ p)"
    unfolding at by (simp add: path_name_app)
  have "u_json_cache_get d' (Some q) (Some (path_name (jat r q) p)) = Inr (map_of (json_names r) (''.'' @ path_name r (q @ p)))"
    using cache_below [OF _ assms(7,3,4,5) relative_not_full [OF assms(1) v]] at
    unfolding full snprintf_fits [OF len] by simp
  moreover have "map_of (json_names r) (''.'' @ path_name r (q @ p)) = Some (q @ p)"
    using json_names_map [OF assms(1)] assms(6) by simp
  ultimately show ?thesis by simp
qed

text \<open>
  Documents in general, with any keys: the paths of the nodes in preorder, and the name that a path
  gets, where each name on the way is cut at the size of its buffer. The counters of the elements are
  those of a document that was not indexed before.
\<close>

fun json_paths :: "nat \<Rightarrow> u_json list \<Rightarrow> jptr list" where
  "json_paths j [] = []"
| "json_paths j (U_json t f k v d i c m cs # xs) = [j] # map ((#) j) (json_paths 0 cs) @ json_paths (Suc j) xs"

fun cut_name :: "string \<Rightarrow> u_json \<Rightarrow> jptr \<Rightarrow> string" where
  "cut_name F c [] = F"
| "cut_name F c (i # p) =
     cut_name (take (U_JSON_FQN_SZ - 1) (F @ step_name (jtype c) i (jkey (jchildren c ! i)))) (jchildren c ! i) p"

fun fresh_forest :: "u_json list \<Rightarrow> bool" where
  "fresh_forest [] = True"
| "fresh_forest (U_json t f k v d i c m cs # xs) =
     (i = 0 \<and> (cs \<noteq> [] \<longrightarrow> t = U_JSON_TYPE_OBJECT \<or> t = U_JSON_TYPE_ARRAY) \<and> fresh_forest cs \<and> fresh_forest xs)"

definition json_fresh :: "u_json \<Rightarrow> bool" where
  "json_fresh r = ((jchildren r \<noteq> [] \<longrightarrow> is_container r) \<and> fresh_forest (jchildren r))"

lemma json_paths_set: "q \<in> set (json_paths j xs) \<longleftrightarrow> (\<exists>i q'. i < length xs \<and> jvalid (xs ! i) q' \<and> q = (j + i) # q')"
proof (induction j xs arbitrary: q rule: json_paths.induct)
  case (2 j t f k v d i c m cs xs)
  let ?x = "U_json t f k v d i c m cs"
  have "q \<in> set (json_paths j (?x # xs)) \<longleftrightarrow> q = [j] \<or> (\<exists>r. r \<in> set (json_paths 0 cs) \<and> q = j # r) \<or> q \<in> set (json_paths (Suc j) xs)"
    by auto
  also have "\<dots> \<longleftrightarrow> (\<exists>i q'. i < length (?x # xs) \<and> jvalid ((?x # xs) ! i) q' \<and> q = (j + i) # q')"
    unfolding "2.IH" forest_split by auto
  finally show ?case .
qed simp

lemma child_fqn_cut:
  assumes "T = U_JSON_TYPE_OBJECT \<or> T = U_JSON_TYPE_ARRAY"
  shows "child_fqn T F j x = take (U_JSON_FQN_SZ - 1) (F @ step_name T j (jkey x))"
  using assms by (auto simp: child_fqn_def step_name_def u_snprintf_def)

lemma name_list_cut:
  assumes "fresh_forest xs" "T = jtype r" "T = U_JSON_TYPE_OBJECT \<or> T = U_JSON_TYPE_ARRAY \<or> xs = []" "drop j (jchildren r) = xs"
  shows "name_list p j T F j xs = map (\<lambda>q. (cut_name F r q, p @ q)) (json_paths j xs)"
  using assms
proof (induction xs arbitrary: p j T F r rule: fresh_forest.induct)
  case (2 t f k v d i c m cs xs)
  let ?x = "U_json t f k v d i c m cs"
  have T: "T = U_JSON_TYPE_OBJECT \<or> T = U_JSON_TYPE_ARRAY" using "2.prems"(3) by simp
  have x: "jchildren r ! j = ?x" "drop (Suc j) (jchildren r) = xs"
    using "2.prems"(4) by (metis nth_via_drop, metis drop_Suc list.sel(3) tl_drop)
  have g: "cut_name F r (j # q) = cut_name (child_fqn T F j ?x) ?x q" for q
    using child_fqn_cut [OF T, of F j ?x] x(1) "2.prems"(2) by simp
  have i0: "start_icur T ?x = 0" using "2.prems"(1) by (simp add: start_icur_def)
  have tl: "name_list p (Suc j) T F (next_icur T j 1) xs = name_list p (Suc j) T F (Suc j) xs"
    using T object_icur(1) by (auto simp: next_icur_def)
  have kids: "name_list (p @ [j]) 0 t G 0 cs = map (\<lambda>q. (cut_name G ?x q, (p @ [j]) @ q)) (json_paths 0 cs)" for G
    using "2.IH"(1) [of t ?x 0] "2.prems"(1) by auto
  have rest: "name_list p (Suc j) T F (Suc j) xs = map (\<lambda>q. (cut_name F r q, p @ q)) (json_paths (Suc j) xs)"
    using "2.IH"(2) [of T r "Suc j"] "2.prems" T x(2) by auto
  show ?case
    using i0 tl kids rest g [of "[]"] by (simp add: Let_def g o_def del: cut_name.simps(2))
qed simp

lemma json_names_cut:
  assumes "json_fresh r"
  shows "json_names r = map (\<lambda>q. (cut_name ''.'' r q, q)) ([] # json_paths 0 (jchildren r))"
  using name_list_cut [of "jchildren r" "jtype r" r 0 "[]" "''.''"] assms
  by (auto simp: json_names_def json_fresh_def is_container_def)

lemma map_of_find: "map_of (map (\<lambda>q. (f q, q)) qs) n = find (\<lambda>q. f q = n) qs"
  by (induction qs) auto

lemma plain_fresh: "json_plain r \<Longrightarrow> json_fresh r"
proof -
  have "plain_forest T F j xs \<Longrightarrow> fresh_forest xs" for T F j xs
    by (induction T F j xs rule: plain_forest.induct) (auto simp: plain_node_def is_container_def)
  then show "json_plain r \<Longrightarrow> json_fresh r" by (auto simp: json_plain_def json_fresh_def plain_node_def)
qed

text \<open>C25: For a document that was not indexed before, with any keys and names, and up to 2^28 nodes: the
  index is made, and a name looked up from the top gives the first node in preorder that has this name, where
  each name on the path to a node is cut at 255 characters, or nothing when no node has it; so of nodes with
  equal or equally cut names only the first is found. When the keys within each object differ and have no
  dots or brackets, and all names fit (\<open>json_plain\<close>), every node is found under its qualified name, which
  spells its path, nothing else is found, and below any node but the root its descendants are found by the
  rest of their names.\<close>

theorem u_json_index_names:
  assumes "json_fresh (d_root d)" "\<not> jmap (d_root d)" "nodes [d_root d] \<le> 2 ^ 28"
  shows "\<exists>d'. u_json_index d [] = Inr (rc_ok, d')
    \<and> (\<forall>name. u_json_cache_get d' (Some []) (Some name)
          = Inr (find (\<lambda>p. cut_name ''.'' (d_root d) p = name) ([] # json_paths 0 (jchildren (d_root d)))))
    \<and> (json_plain (d_root d) \<longrightarrow>
        (\<forall>name p. u_json_cache_get d' (Some []) (Some name) = Inr (Some p)
          \<longleftrightarrow> jvalid (d_root d) p \<and> name = ''.'' @ path_name (d_root d) p)
      \<and> (\<forall>q p. q \<noteq> [] \<and> jvalid (d_root d) (q @ p) \<longrightarrow>
          u_json_cache_get d' (Some q) (Some (path_name (jat (d_root d) q) p)) = Inr (Some (q @ p))))"
proof -
  obtain d' s where d': "u_json_index d [] = Inr (rc_ok, d')" "d_root d' = index_node ''.'' (d_root d)"
    "d_map d' = Some s" "hm_inv s" "hmap_map (fst s) = map_of (json_names (d_root d))"
    using indexed_doc [OF assms(2)] assms(3) by (auto simp: hmap_bound_def)
  have "jmap (d_root d')" using d'(2) by simp
  note get = cache_root [OF this d'(3,4,5)]
  have all: "map_of (json_names (d_root d)) name
      = find (\<lambda>p. cut_name ''.'' (d_root d) p = name) ([] # json_paths 0 (jchildren (d_root d)))" for name
    unfolding json_names_cut [OF assms(1)] by (rule map_of_find)
  have pl: "(\<forall>name p. u_json_cache_get d' (Some []) (Some name) = Inr (Some p)
          \<longleftrightarrow> jvalid (d_root d) p \<and> name = ''.'' @ path_name (d_root d) p)
      \<and> (\<forall>q p. q \<noteq> [] \<and> jvalid (d_root d) (q @ p) \<longrightarrow>
          u_json_cache_get d' (Some q) (Some (path_name (jat (d_root d) q) p)) = Inr (Some (q @ p)))"
    if "json_plain (d_root d)"
    using get json_names_map [OF that] relative_get [OF that d'(2-5)] by simp
  show ?thesis using d'(1) get all pl by (intro exI [of _ d']) simp
qed

definition sample_doc :: u_json_doc where
  "sample_doc =
     (let leaf = (\<lambda>k v. U_json U_JSON_TYPE_NUMBER [] k v 0 0 0 False []) in
      \<lparr> d_root = U_json U_JSON_TYPE_OBJECT [] [] [] 0 0 0 False
          [U_json U_JSON_TYPE_ARRAY [] ''a'' [] 0 0 2 False [leaf [] ''7'', leaf [] ''8''], leaf ''b'' ''9''],
        d_map = None \<rparr>)"

lemma sample_nodes: "nodes [d_root sample_doc] \<le> 2 ^ 28"
  by (simp add: sample_doc_def Let_def)

theorem u_json_index_names_witness:
  "\<exists>d'. u_json_index sample_doc [] = Inr (rc_ok, d')
    \<and> u_json_cache_get d' (Some []) (Some ''..a[1]'') = Inr (Some [0, 1])
    \<and> u_json_cache_get d' (Some [0]) (Some ''[0]'') = Inr (Some [0, 0])"
proof -
  have h: "json_plain (d_root sample_doc)" "\<not> jmap (d_root sample_doc)" by code_simp+
  from u_json_index_names [OF plain_fresh [OF h(1)] h(2) sample_nodes] h(1) obtain d' where d': "u_json_index sample_doc [] = Inr (rc_ok, d')"
    "\<And>p. u_json_cache_get d' (Some []) (Some (''.'' @ path_name (d_root sample_doc) p)) = Inr (Some p)
       \<longleftrightarrow> jvalid (d_root sample_doc) p"
    "\<And>q p. q \<noteq> [] \<and> jvalid (d_root sample_doc) (q @ p) \<Longrightarrow>
          u_json_cache_get d' (Some q) (Some (path_name (jat (d_root sample_doc) q) p)) = Inr (Some (q @ p))"
    by auto
  have "path_name (d_root sample_doc) [0, 1] = ''.a[1]''" "path_name (jat (d_root sample_doc) [0]) [0] = ''[0]''"
    "jvalid (d_root sample_doc) [0, 1]" "jvalid (d_root sample_doc) ([0] @ [0])"
    by code_simp+
  with d'(1) d'(2) [of "[0, 1]"] d'(3) [of "[0]" "[0]"] show ?thesis by auto
qed

lemma nth_from_nth: "n < length xs \<Longrightarrow> nth_from n xs = Some (xs ! n)"
  by (induction n xs rule: nth_from.induct) (auto simp: nth_Cons')

lemma array_scan:
  assumes "jtype (jat (d_root d) p) = U_JSON_TYPE_ARRAY" "jcount (jat (d_root d) p) = length (jchildren (jat (d_root d) p))"
    "\<not> jmap (jat (d_root d) p)"
  shows "u_json_array_get_nth d (Some p) n = Inr (if n < length (jchildren (jat (d_root d) p)) then Some (p @ [n]) else None)"
proof -
  let ?l = "length (jchildren (jat (d_root d) p))"
  have "nth_from (?l - (n + 1)) (rev [0..<?l]) = Some n" if "n < ?l"
    using that nth_from_nth [of "?l - (n + 1)" "rev [0..<?l]"] by (simp add: rev_nth)
  moreover have "nth_from n [0..<?l] = Some n" if "n < ?l"
    using that nth_from_nth [of n "[0..<?l]"] by simp
  ultimately show ?thesis using assms by (simp add: u_json_array_get_nth_def Let_def)
qed

text \<open>An element of an array is the child at its position, or nothing behind the end: by the scan of
  the list from the nearer end while there is no index, and by the name of the element afterwards. The
  index does not change the elements.\<close>

theorem u_json_array_get_nth_spec:
  assumes "json_plain (d_root d)" "list_all (\<lambda>c. \<not> jmap c) (map (jat (d_root d)) [[], p])" "nodes [d_root d] \<le> 2 ^ 28"
    "jvalid (d_root d) p" "jtype (jat (d_root d) p) = U_JSON_TYPE_ARRAY" "p \<noteq> []"
  shows "\<exists>d'. u_json_index d [] = Inr (rc_ok, d')
    \<and> u_json_array_get_nth d (Some p) n = Inr (if n < length (jchildren (jat (d_root d) p)) then Some (p @ [n]) else None)
    \<and> u_json_array_get_nth d' (Some p) n = u_json_array_get_nth d (Some p) n"
proof -
  let ?r = "d_root d"
  have pl: "plain_node ?r" "plain_forest (jtype ?r) ''.'' 0 (jchildren ?r)"
    using assms(1) by (auto simp: json_plain_def)
  have cnt: "jcount (jat ?r p) = length (jchildren (jat ?r p))"
    using plain_at [OF pl assms(4)] assms(5) by (simp add: plain_node_def)
  obtain d' s where d': "u_json_index d [] = Inr (rc_ok, d')" "d_root d' = index_node ''.'' ?r"
    "d_map d' = Some s" "hm_inv s" "hmap_map (fst s) = map_of (json_names ?r)"
    using indexed_doc [of d] assms(2,3) by (auto simp: hmap_bound_def)
  have at: "jat (d_root d') p = index_node (''.'' @ path_name ?r p) (jat ?r p)"
    unfolding d'(2) using index_node_at [OF pl assms(4)] .
  have "u_json_array_get_nth d' (Some p) n = Inr (Some (p @ [n]))" if n: "n < length (jchildren (jat ?r p))"
  proof -
    have v: "jvalid ?r (p @ [n])" using assms(4) n by (simp add: jptr_simps)
    have nm: "path_name (jat ?r p) [n] = ''['' @ decimal n @ '']''" using assms(5) by (simp add: step_name_def)
    have fq: "jfqn (jat (d_root d') p) @ ''['' @ decimal n @ '']'' = ''.'' @ path_name ?r (p @ [n])"
      unfolding at by (simp add: path_name_app step_name_def assms(5))
    have len: "length (''.'' @ path_name ?r (p @ [n])) < U_JSON_FQN_SZ" using plain_at [OF pl v] by simp
    have full: "map_get d' (''.'' @ path_name ?r (p @ [n])) = Inr (Some (p @ [n]))"
      using map_get_ok [OF d'(3,4)] json_names_map [OF assms(1), of _ "p @ [n]"] v unfolding d'(5) by simp
    have "u_json_array_get_nth d' (Some p) n = u_json_cache_get d' (Some p) (Some (''.'' @ path_name ?r (p @ [n])))"
      unfolding u_json_array_get_nth_def Let_def option.case fq snprintf_fits [OF len] unfolding at
      using assms(5) cnt n by simp
    also have "\<dots> = Inr (Some (p @ [n]))"
      using full at assms(6) by (simp add: u_json_cache_get_def)
    finally show ?thesis .
  qed
  moreover have "u_json_array_get_nth d' (Some p) n = Inr None" if "\<not> n < length (jchildren (jat ?r p))"
    using that at cnt by (simp add: u_json_array_get_nth_def Let_def)
  ultimately show ?thesis using d'(1) array_scan [OF assms(5) cnt] assms(2) by auto
qed

theorem u_json_array_get_nth_spec_witness:
  "u_json_array_get_nth sample_doc (Some [0]) 1 = Inr (Some [0, 1])
   \<and> (\<exists>d'. u_json_index sample_doc [] = Inr (rc_ok, d') \<and> u_json_array_get_nth d' (Some [0]) 1 = Inr (Some [0, 1]))"
proof -
  have h: "json_plain (d_root sample_doc)" "list_all (\<lambda>c. \<not> jmap c) (map (jat (d_root sample_doc)) [[], [0]])"
    "jvalid (d_root sample_doc) [0]" "jtype (jat (d_root sample_doc) [0]) = U_JSON_TYPE_ARRAY" "[0 :: nat] \<noteq> []"
    by code_simp+
  have "1 < length (jchildren (jat (d_root sample_doc) [0]))" by code_simp
  with u_json_array_get_nth_spec [OF h(1,2) sample_nodes h(3-5), of 1] show ?thesis by auto
qed

lemma walk_list_set:
  "q \<in> fst ` set (walk_list strategy p j l xs) \<longleftrightarrow> (\<exists>i q'. i < length xs \<and> jvalid (xs ! i) q' \<and> q = p @ (j + i) # q')"
proof (induction strategy p j l xs arbitrary: q rule: walk_list.induct)
  case (2 strategy p j l t f k v d ic c m cs xs)
  let ?x = "U_json t f k v d ic c m cs"
  have "q \<in> fst ` set (walk_list strategy p j l (?x # xs)) \<longleftrightarrow> q = p @ [j]
    \<or> q \<in> fst ` set (walk_list strategy (p @ [j]) 0 (l + 1) cs) \<or> q \<in> fst ` set (walk_list strategy p (Suc j) l xs)"
    by (cases strategy) auto
  also have "\<dots> \<longleftrightarrow> (\<exists>i q'. i < length (?x # xs) \<and> jvalid ((?x # xs) ! i) q' \<and> q = p @ (j + i) # q')"
    unfolding "2.IH" forest_split by auto
  finally show ?case .
qed simp

lemma walk_list_distinct: "distinct (map fst (walk_list strategy p j l xs))"
proof (induction strategy p j l xs rule: walk_list.induct)
  case (2 strategy p j l t f k v d ic c m cs xs)
  have "fst ` set (walk_list strategy (p @ [j]) 0 (l + 1) cs) \<inter> fst ` set (walk_list strategy p (Suc j) l xs) = {}"
    by (auto simp del: image_iff simp: walk_list_set set_eq_iff)
  moreover have "p @ [j] \<notin> fst ` set (walk_list strategy (p @ [j]) 0 (l + 1) cs)"
    "p @ [j] \<notin> fst ` set (walk_list strategy p (Suc j) l xs)"
    by (simp_all add: walk_list_set del: image_iff)
  ultimately show ?case using "2.IH" by (cases strategy) auto
qed simp

text \<open>Removing a node releases the node and all below it, each once, and takes it out of the children of
  its parent; but it also releases the siblings behind it, with all below them, which stay in the list of
  children.\<close>

theorem u_json_remove_spec:
  assumes "jvalid r (p @ [i])" "\<not> jmap (jat r (p @ [i]))"
  shows "\<exists>r' freed. u_json_remove r (p @ [i]) = (rc_ok, r', freed) \<and> distinct freed
    \<and> jchildren (jat r' p) = take i (jchildren (jat r p)) @ drop (Suc i) (jchildren (jat r p))
    \<and> set freed = {p @ j # q | j q. i \<le> j \<and> j < length (jchildren (jat r p)) \<and> jvalid (jat r (p @ [j])) q}"
proof -
  let ?cs = "jchildren (jat r p)"
  have v: "jvalid r p" "i < length ?cs" using assms(1) by (simp_all add: jptr_simps)
  have walk: "u_json_free r (p @ [i]) = map fst (walk_list U_JSON_WALK_POSTORDER p i 0 (drop i ?cs))"
    by (simp add: u_json_free_def u_json_walk_def)
  have "q' \<in> set (u_json_free r (p @ [i])) \<longleftrightarrow>
    (\<exists>j q. i \<le> j \<and> j < length ?cs \<and> jvalid (jat r (p @ [j])) q \<and> q' = p @ j # q)" for q'
  proof -
    have "q' \<in> set (u_json_free r (p @ [i])) \<longleftrightarrow>
      (\<exists>k q. k < length (drop i ?cs) \<and> jvalid (drop i ?cs ! k) q \<and> q' = p @ (i + k) # q)"
      unfolding walk set_map walk_list_set by simp
    also have "\<dots> \<longleftrightarrow> (\<exists>j q. i \<le> j \<and> j < length ?cs \<and> jvalid (?cs ! j) q \<and> q' = p @ j # q)"
      using v(2) by (auto simp: nth_drop) (metis add.commute le_add_diff_inverse2 less_diff_conv)+
    finally show ?thesis by (simp add: jptr_simps)
  qed
  then have "set (u_json_free r (p @ [i])) = {p @ j # q | j q. i \<le> j \<and> j < length ?cs \<and> jvalid (jat r (p @ [j])) q}"
    by auto
  moreover have "distinct (u_json_free r (p @ [i]))" unfolding walk by (rule walk_list_distinct)
  ultimately show ?thesis using assms(2) v by (simp add: u_json_remove_def Let_def jptr_simps)
qed

theorem u_json_remove_spec_witness:
  "\<exists>r' freed. u_json_remove (d_root sample_doc) [0] = (rc_ok, r', freed)
    \<and> map jkey (jchildren r') = [''b''] \<and> set freed = {[0], [0, 0], [0, 1], [1]}"
proof -
  have h: "jvalid (d_root sample_doc) ([] @ [0])" "\<not> jmap (jat (d_root sample_doc) ([] @ [0]))" by code_simp+
  have c: "map jkey (drop 1 (jchildren (d_root sample_doc))) = [''b'']" by code_simp
  have "set (u_json_free (d_root sample_doc) [0]) = {[0], [0, 0], [0, 1], [1]}" by code_simp
  then have "set (snd (snd (u_json_remove (d_root sample_doc) [0]))) = {[0], [0, 0], [0, 1], [1]}"
    using h(2) by (simp add: u_json_remove_def Let_def)
  with u_json_remove_spec [OF h] c show ?thesis by auto
qed

lemma length_decimal: "n < 10 ^ k \<Longrightarrow> 0 < k \<Longrightarrow> length (decimal n) \<le> k"
proof (induction n arbitrary: k rule: decimal.induct)
  case (1 n)
  show ?case
  proof (cases "n < 10")
    case True
    then show ?thesis using 1(3) by (subst decimal.simps) simp
  next
    case False
    then obtain k' where k: "k = Suc k'" "0 < k'" using 1(2,3) by (cases k; cases "k - 1") auto
    then have "n div 10 < 10 ^ k'" using 1(2) by (simp add: less_mult_imp_div_less mult.commute)
    then show ?thesis using 1(1) [of k'] False k by (subst decimal.simps) simp
  qed
qed

lemma decimal_int_text:
  assumes "LONG_MIN \<le> v" "v \<le> LONG_MAX"
  shows "length (decimal_int v) < U_TOKEN_SZ" "strtol (decimal_int v) = (v, length (decimal_int v), False)"
proof -
  have n: "nat (- v) < 10 ^ 20" "nat v < 10 ^ 20"
    using assms by (simp_all add: LONG_MIN_def LONG_MAX_def)
  show "length (decimal_int v) < U_TOKEN_SZ"
    using length_decimal [OF n(1)] length_decimal [OF n(2)] by (simp add: decimal_int_def U_TOKEN_SZ_def)
  have sp: "takeWhile isspace (decimal m) = []" for m
    using decimal_digits [of "hd (decimal m)" m] decimal_not_Nil [of m]
    by (cases "decimal m") (auto simp: isspace_def isdigit_def)
  have sg: "(case decimal m of c # _ \<Rightarrow> if c = CHR ''-'' \<or> c = CHR ''+'' then 1 else 0 | [] \<Rightarrow> 0) = (0 :: nat)" for m
    using decimal_digits [of "hd (decimal m)" m] decimal_not_Nil [of m]
    by (cases "decimal m") (auto simp: isdigit_def)
  have tw: "takeWhile isdigit (decimal m) = decimal m" for m
    using decimal_digits by (simp add: takeWhile_eq_all_conv)
  show "strtol (decimal_int v) = (v, length (decimal_int v), False)"
    using assms by (cases "v < 0") (simp_all add: strtol_def decimal_int_def Let_def sp sg tw digits_decimal isspace_def)
qed

text \<open>A number node made of any integer of the machine gives this integer back, and its text is the
  decimal one.\<close>

theorem u_json_int_roundtrip:
  assumes "LONG_MIN \<le> v" "v \<le> LONG_MAX" "length key < U_TOKEN_SZ"
  shows "\<exists>jo. u_json_new_int (Some key) v = Inr (rc_ok, Some jo) \<and> jkey jo = key
    \<and> u_json_get_val (Some jo) = Some (decimal_int v) \<and> u_json_get_int E_none (Some jo) = Some v"
proof -
  note t = decimal_int_text [OF assms(1,2)]
  have "strtol (decimal_int v) = (v, Suc (length (decimal_int v) - 1), False)"
    using t(2) by (cases "decimal_int v") (auto simp: decimal_int_def split: if_splits)
  then show ?thesis
    using t(1) assms(3)
    by (simp add: u_json_new_int_def snprintf_fits u_json_new_atom_def u_json_new_def u_json_set_val_ex_def u_strlcpy_ok
        u_json_get_val_def u_json_get_int_def u_atol_def Let_def)
qed

theorem u_json_int_roundtrip_witness:
  "\<exists>jo. u_json_new_int (Some ''n'') (- 42) = Inr (rc_ok, Some jo) \<and> jkey jo = ''n''
    \<and> u_json_get_int E_none (Some jo) = Some (- 42)"
  using u_json_int_roundtrip [of "- 42" "''n''"] by (auto simp: LONG_MIN_def LONG_MAX_def U_TOKEN_SZ_def)

text \<open>An index that is made anew, after it was removed, gives other names to the elements of an array in
  an object, whose counter goes on; and in between the nodes below the root have a pointer to the map that was
  released.\<close>

theorem u_json_reindex_shifts:
  "\<exists>d1 d2 d3. u_json_index sample_doc [] = Inr (rc_ok, d1) \<and> u_json_unindex d1 [] = Inr (rc_ok, d2)
    \<and> u_json_index d2 [] = Inr (rc_ok, d3)
    \<and> u_json_cache_get d1 (Some []) (Some ''..a[0]'') = Inr (Some [0, 0])
    \<and> u_json_cache_get d2 (Some [0]) (Some ''..a[0]'') = Inl Use_after_free
    \<and> u_json_cache_get d3 (Some []) (Some ''..a[0]'') = Inr None
    \<and> u_json_cache_get d3 (Some []) (Some ''..a[2]'') = Inr (Some [0, 0])"
proof -
  let ?r = "d_root sample_doc"
  define r2 where "r2 = set_map False (index_tree ?r)"
  have n: "\<not> jmap ?r" "Suc (nodes (jchildren ?r)) \<le> hmap_bound"
    by (simp_all add: sample_doc_def Let_def hmap_bound_def)
  obtain s where s: "u_json_index sample_doc [] = Inr (rc_ok, \<lparr> d_root = index_tree ?r, d_map = Some s \<rparr>)"
    "hm_inv s" "hmap_map (fst s) = map_of (json_names ?r)" using index_ok [OF n] by blast
  let ?d1 = "\<lparr> d_root = index_tree ?r, d_map = Some s \<rparr>"
  have m1: "jmap (d_root ?d1)" by (simp add: index_tree_def)
  have d2: "u_json_unindex ?d1 [] = Inr (rc_ok, \<lparr> d_root = r2, d_map = None \<rparr>)"
    using m1 by (simp add: u_json_unindex_def r2_def)
  let ?d2 = "\<lparr> d_root = r2, d_map = None \<rparr>"
  have "nodes (jchildren r2) = 4" unfolding r2_def by code_simp
  then have n2: "\<not> jmap (d_root ?d2)" "Suc (nodes (jchildren (d_root ?d2))) \<le> hmap_bound"
    by (simp_all add: r2_def hmap_bound_def)
  obtain s3 where s3: "u_json_index ?d2 [] = Inr (rc_ok, \<lparr> d_root = index_tree r2, d_map = Some s3 \<rparr>)"
    "hm_inv s3" "hmap_map (fst s3) = map_of (json_names r2)" using index_ok [OF n2] by auto
  let ?d3 = "\<lparr> d_root = index_tree r2, d_map = Some s3 \<rparr>"
  have m3: "jmap (d_root ?d3)" by (simp add: index_tree_def)
  have get: "map_of (json_names ?r) ''..a[0]'' = Some [0, 0]" "map_of (json_names r2) ''..a[0]'' = None"
    "map_of (json_names r2) ''..a[2]'' = Some [0, 0]" "jmap (jat r2 [0])"
    unfolding r2_def by code_simp+
  have "u_json_cache_get ?d2 (Some [0]) (Some ''..a[0]'') = Inl Use_after_free"
    using get(4) by (simp add: u_json_cache_get_def map_get_def)
  with s(1) d2 s3(1) cache_root [OF m1 _ s(2,3)] cache_root [OF m3 _ s3(2,3)] get(1-3) show ?thesis
    by (intro exI [of _ ?d1] exI [of _ ?d2] exI [of _ ?d3]) simp
qed

text \<open>The check of a value stops at its first part: a number with text behind it and a string with a
  quote inside are accepted, and encoded to texts that are no JSON. The type and value of a leaf cannot be
  set through the root or any other container, and stepping back from a root follows a null pointer.\<close>

theorem u_json_value_deviations:
  "(\<exists>jo. u_json_new_number None (Some ''12ab'') = Inr (rc_ok, Some jo) \<and> u_json_encode (Some jo) = Some ''12ab'')
   \<and> (\<exists>jo. u_json_new_string None (Some [CHR ''a'', CHR 0x22, CHR ''b'']) = Inr (rc_ok, Some jo)
        \<and> u_json_encode (Some jo) = Some [CHR 0x22, CHR ''a'', CHR 0x22, CHR ''b'', CHR 0x22])
   \<and> u_json_cache_set_tv \<lparr> d_root = U_json U_JSON_TYPE_OBJECT f k v dp i c m cs, d_map = hm \<rparr> (Some []) name ty val
        = Inr (rc_fail, \<lparr> d_root = U_json U_JSON_TYPE_OBJECT f k v dp i c m cs, d_map = hm \<rparr>)
   \<and> u_json_it_prev r (u_json_it (Some [])) = Inl Null_deref"
proof (intro conjI)
  show "\<exists>jo. u_json_new_number None (Some ''12ab'') = Inr (rc_ok, Some jo) \<and> u_json_encode (Some jo) = Some ''12ab''"
    by (intro exI [of _ "U_json U_JSON_TYPE_NUMBER [] [] ''12ab'' 0 0 0 False []"]) code_simp
  show "\<exists>jo. u_json_new_string None (Some [CHR ''a'', CHR 0x22, CHR ''b'']) = Inr (rc_ok, Some jo)
      \<and> u_json_encode (Some jo) = Some [CHR 0x22, CHR ''a'', CHR 0x22, CHR ''b'', CHR 0x22]"
    by (intro exI [of _ "U_json U_JSON_TYPE_STRING [] [] [CHR ''a'', CHR 0x22, CHR ''b''] 0 0 0 False []"]) code_simp
qed (simp_all add: u_json_cache_set_tv_def is_container_def u_json_it_prev_def u_json_it_def)

end
