(* ===== verification/Uarray.thy ===== *)
theory Uarray
  imports Prelude
begin

text \<open>
  Dynamic arrays of \<open>srcs/toolbox/array.c\<close>. A slot is a known value or, after the block was enlarged,
  unknown (\<open>None\<close>). The getters and setters of all types are instances of one macro and so of one
  definition here; those of pointers have an interface of their own. Sizes are those of a 64-bit
  machine that has all types.
\<close>

section \<open>State\<close>

datatype u_array_type =
  U_ARRAY_TYPE_UNSET | U_ARRAY_TYPE_BOOL | U_ARRAY_TYPE_CHAR | U_ARRAY_TYPE_U_CHAR | U_ARRAY_TYPE_SHORT
| U_ARRAY_TYPE_U_SHORT | U_ARRAY_TYPE_INT | U_ARRAY_TYPE_U_INT | U_ARRAY_TYPE_LONG | U_ARRAY_TYPE_U_LONG
| U_ARRAY_TYPE_LONG_LONG | U_ARRAY_TYPE_U_LONG_LONG | U_ARRAY_TYPE_INTMAX | U_ARRAY_TYPE_U_INTMAX
| U_ARRAY_TYPE_FLOAT | U_ARRAY_TYPE_DOUBLE | U_ARRAY_TYPE_LONG_DOUBLE | U_ARRAY_TYPE_FLOAT_COMPLEX
| U_ARRAY_TYPE_DOUBLE_COMPLEX | U_ARRAY_TYPE_LONG_DOUBLE_COMPLEX | U_ARRAY_TYPE_PTR

fun sizeof_type :: "u_array_type \<Rightarrow> nat" where
  "sizeof_type U_ARRAY_TYPE_UNSET = 0"
| "sizeof_type U_ARRAY_TYPE_BOOL = 1"
| "sizeof_type U_ARRAY_TYPE_CHAR = 1"
| "sizeof_type U_ARRAY_TYPE_U_CHAR = 1"
| "sizeof_type U_ARRAY_TYPE_SHORT = 2"
| "sizeof_type U_ARRAY_TYPE_U_SHORT = 2"
| "sizeof_type U_ARRAY_TYPE_INT = 4"
| "sizeof_type U_ARRAY_TYPE_U_INT = 4"
| "sizeof_type U_ARRAY_TYPE_LONG = 8"
| "sizeof_type U_ARRAY_TYPE_U_LONG = 8"
| "sizeof_type U_ARRAY_TYPE_LONG_LONG = 8"
| "sizeof_type U_ARRAY_TYPE_U_LONG_LONG = 8"
| "sizeof_type U_ARRAY_TYPE_INTMAX = 8"
| "sizeof_type U_ARRAY_TYPE_U_INTMAX = 8"
| "sizeof_type U_ARRAY_TYPE_FLOAT = 4"
| "sizeof_type U_ARRAY_TYPE_DOUBLE = 8"
| "sizeof_type U_ARRAY_TYPE_LONG_DOUBLE = 16"
| "sizeof_type U_ARRAY_TYPE_FLOAT_COMPLEX = 8"
| "sizeof_type U_ARRAY_TYPE_DOUBLE_COMPLEX = 16"
| "sizeof_type U_ARRAY_TYPE_LONG_DOUBLE_COMPLEX = 32"
| "sizeof_type U_ARRAY_TYPE_PTR = 8"

definition MAX_SIZE :: nat where "MAX_SIZE = 2 ^ 64 - 1"
definition U_ARRAY_NSLOTS_DFL :: nat where "U_ARRAY_NSLOTS_DFL = 512"
definition U_ARRAY_RESIZE_PAD :: nat where "U_ARRAY_RESIZE_PAD = 100"

record 'v u_array =
  nslots :: nat
  a_type :: u_array_type
  base :: "'v option list"

definition MAX_NSLOTS :: "u_array_type \<Rightarrow> nat" where
  "MAX_NSLOTS t = MAX_SIZE div sizeof_type t"

text \<open>The last index of an array, with the wrap-around of a subtraction from zero.\<close>

definition last_idx :: "'v u_array \<Rightarrow> nat" where
  "last_idx da = (nslots da + MAX_SIZE) mod 2 ^ 64"

section \<open>Operations\<close>

text \<open>A zeroed block: \<open>z\<close> is the value of the type whose bytes are all zero.\<close>

definition u_array_create :: "bool \<Rightarrow> 'v \<Rightarrow> u_array_type \<Rightarrow> nat \<Rightarrow> rc \<times> 'v u_array option" where
  "u_array_create mem z t n =
     (if t = U_ARRAY_TYPE_UNSET then (rc_fail, None)
      else if \<not> mem then (rc_fail, None)
      else
        (let k = (if n = 0 then U_ARRAY_NSLOTS_DFL else if n > MAX_NSLOTS t then MAX_NSLOTS t else n)
         in (rc_ok, Some \<lparr> nslots = k, a_type = t, base = replicate k (Some z) \<rparr>)))"

text \<open>A block that is reallocated keeps its contents; the new slots are not initialised.\<close>

definition u_array_resize :: "bool \<Rightarrow> 'v u_array \<Rightarrow> nat \<Rightarrow> rc \<times> 'v u_array" where
  "u_array_resize mem da idx =
     (if idx < nslots da then (rc_ok, da)
      else if idx \<ge> MAX_NSLOTS (a_type da) - 1 then (rc_fail, da)
      else
        (let new_nslots = (if MAX_NSLOTS (a_type da) - U_ARRAY_RESIZE_PAD - 1 \<ge> idx
                           then idx + U_ARRAY_RESIZE_PAD + 1 else MAX_NSLOTS (a_type da))
         in if \<not> mem then (rc_fail, da)
            else (rc_ok, da\<lparr> nslots := new_nslots,
                             base := base da @ replicate (new_nslots - length (base da)) None \<rparr>)))"

text \<open>
  The setter of a type; with \<open>old\<close> it copies out the slot as it was before. A slot that is copied out
  may be unknown.
\<close>

definition u_array_set ::
  "bool \<Rightarrow> u_array_type \<Rightarrow> 'v u_array option \<Rightarrow> nat \<Rightarrow> 'v \<Rightarrow> bool
   \<Rightarrow> (rc \<times> 'v option option \<times> 'v u_array option) outcome" where
  "u_array_set mem dtype dap idx v old =
     (case dap of None \<Rightarrow> Inr (rc_fail, None, None)
      | Some da \<Rightarrow>
        if a_type da \<noteq> dtype then Inr (rc_fail, None, dap)
        else
          (let (rc, da1) = (if idx > last_idx da then u_array_resize mem da idx else (rc_ok, da))
           in if rc \<noteq> rc_ok then Inr (rc_fail, None, Some da1)
              else if idx \<ge> length (base da1) then Inl Out_of_bounds
              else Inr (rc_ok, (if old then Some (base da1 ! idx) else None),
                        Some (da1\<lparr> base := (base da1)[idx := Some v] \<rparr>))))"

definition u_array_get ::
  "u_array_type \<Rightarrow> 'v u_array option \<Rightarrow> nat \<Rightarrow> (rc \<times> 'v option option) outcome" where
  "u_array_get dtype dap idx =
     (case dap of None \<Rightarrow> Inr (rc_fail, None)
      | Some da \<Rightarrow>
        if a_type da \<noteq> dtype then Inr (rc_fail, None)
        else if idx > last_idx da then Inr (rc_fail, None)
        else if idx \<ge> length (base da) then Inl Out_of_bounds
        else Inr (rc_ok, Some (base da ! idx)))"

text \<open>
  The interface for pointers: \<open>v\<close> is a pointer, with \<open>None\<close> for the null pointer, which is also the
  result of a failure. The result is the slot as it was before, or is now.
\<close>

type_synonym 'p ptr_array = "'p option u_array"

definition u_array_set_ptr ::
  "bool \<Rightarrow> 'p ptr_array option \<Rightarrow> nat \<Rightarrow> 'p option \<Rightarrow> (rc \<times> 'p option option \<times> 'p ptr_array option) outcome" where
  "u_array_set_ptr mem dap idx v =
     (case dap of None \<Rightarrow> Inr (rc_fail, Some None, None)
      | Some da \<Rightarrow>
        if a_type da \<noteq> U_ARRAY_TYPE_PTR then Inr (rc_fail, Some None, dap)
        else
          (let (rc, da1) = (if idx > last_idx da then u_array_resize mem da idx else (rc_ok, da))
           in if rc \<noteq> rc_ok then Inr (rc_fail, Some None, Some da1)
              else if idx \<ge> length (base da1) then Inl Out_of_bounds
              else Inr (rc_ok, base da1 ! idx, Some (da1\<lparr> base := (base da1)[idx := Some v] \<rparr>))))"

definition u_array_get_ptr :: "'p ptr_array option \<Rightarrow> nat \<Rightarrow> (rc \<times> 'p option option) outcome" where
  "u_array_get_ptr dap idx =
     (case dap of None \<Rightarrow> Inr (rc_fail, Some None)
      | Some da \<Rightarrow>
        if a_type da \<noteq> U_ARRAY_TYPE_PTR then Inr (rc_fail, Some None)
        else if idx > last_idx da then Inr (rc_fail, Some None)
        else if idx \<ge> length (base da) then Inl Out_of_bounds
        else Inr (rc_ok, base da ! idx))"

section \<open>The invariant and the view\<close>

definition array_inv :: "'v u_array \<Rightarrow> bool" where
  "array_inv da =
     (a_type da \<noteq> U_ARRAY_TYPE_UNSET \<and> length (base da) = nslots da \<and> 0 < nslots da
      \<and> nslots da \<le> MAX_NSLOTS (a_type da))"

text \<open>What is known of a slot: nothing behind the end, and nothing of a slot that was never written.\<close>

definition known :: "'v u_array \<Rightarrow> nat \<rightharpoonup> 'v" where
  "known da i = (if i < nslots da then base da ! i else None)"

lemma max_nslots:
  "t \<noteq> U_ARRAY_TYPE_UNSET \<Longrightarrow> U_ARRAY_RESIZE_PAD + 1 < MAX_NSLOTS t \<and> U_ARRAY_NSLOTS_DFL \<le> MAX_NSLOTS t \<and> MAX_NSLOTS t < 2 ^ 64"
  by (cases t) (simp_all add: MAX_NSLOTS_def MAX_SIZE_def U_ARRAY_RESIZE_PAD_def U_ARRAY_NSLOTS_DFL_def)

lemma last_idx_inv: "array_inv da \<Longrightarrow> last_idx da = nslots da - 1"
proof -
  assume a: "array_inv da"
  then have "0 < nslots da" "nslots da < 2 ^ 64"
    using max_nslots [of "a_type da"] by (auto simp: array_inv_def)
  moreover from this have "nslots da + MAX_SIZE = (nslots da - 1) + 2 ^ 64" by (simp add: MAX_SIZE_def)
  ultimately show ?thesis unfolding last_idx_def by (metis less_imp_diff_less mod_add_self2 mod_less)
qed

lemma create_ok:
  assumes "t \<noteq> U_ARRAY_TYPE_UNSET"
  shows "\<exists>da. u_array_create True z t n = (rc_ok, Some da) \<and> array_inv da \<and> a_type da = t
    \<and> nslots da = (if n = 0 then U_ARRAY_NSLOTS_DFL else min n (MAX_NSLOTS t))
    \<and> known da = (\<lambda>i. if i < nslots da then Some z else None)"
  using assms max_nslots [OF assms]
  by (auto simp: u_array_create_def array_inv_def known_def Let_def U_ARRAY_NSLOTS_DFL_def fun_eq_iff)

lemma resize_ok:
  assumes "array_inv da" "\<not> idx < nslots da" "idx < MAX_NSLOTS (a_type da) - 1"
  shows "\<exists>da'. u_array_resize True da idx = (rc_ok, da') \<and> array_inv da' \<and> a_type da' = a_type da
    \<and> idx < nslots da' \<and> nslots da' = min (idx + U_ARRAY_RESIZE_PAD + 1) (MAX_NSLOTS (a_type da)) \<and> known da' = known da"
proof -
  define n where "n = (if MAX_NSLOTS (a_type da) - U_ARRAY_RESIZE_PAD - 1 \<ge> idx
    then idx + U_ARRAY_RESIZE_PAD + 1 else MAX_NSLOTS (a_type da))"
  have n: "n = min (idx + U_ARRAY_RESIZE_PAD + 1) (MAX_NSLOTS (a_type da))" "idx < n" "nslots da < n"
    using assms max_nslots [of "a_type da"] by (auto simp: n_def array_inv_def U_ARRAY_RESIZE_PAD_def)
  let ?da = "da\<lparr> nslots := n, base := base da @ replicate (n - length (base da)) None \<rparr>"
  have "u_array_resize True da idx = (rc_ok, ?da)"
    using assms by (simp add: u_array_resize_def n_def Let_def)
  moreover have "array_inv ?da" using assms(1) n by (simp add: array_inv_def)
  moreover have "known ?da = known da"
    using assms(1) n by (auto simp: known_def array_inv_def fun_eq_iff nth_append)
  ultimately show ?thesis using n by auto
qed

text \<open>A setter, seen through the view.\<close>

lemma set_ok:
  assumes "array_inv da" "idx < MAX_NSLOTS (a_type da) - 1"
  shows "\<exists>da'. u_array_set True (a_type da) (Some da) idx v old = Inr (rc_ok, (if old then Some (known da idx) else None), Some da')
    \<and> array_inv da' \<and> a_type da' = a_type da \<and> known da' = (known da)(idx \<mapsto> v)
    \<and> nslots da' = (if idx < nslots da then nslots da else min (idx + U_ARRAY_RESIZE_PAD + 1) (MAX_NSLOTS (a_type da)))"
proof -
  note l = last_idx_inv [OF assms(1)]
  have pos: "idx > last_idx da \<longleftrightarrow> \<not> idx < nslots da" using assms(1) l by (auto simp: array_inv_def)
  obtain da1 where d: "(if idx > last_idx da then u_array_resize True da idx else (rc_ok, da)) = (rc_ok, da1)"
    "array_inv da1" "a_type da1 = a_type da" "known da1 = known da" "idx < nslots da1"
    "nslots da1 = (if idx < nslots da then nslots da else min (idx + U_ARRAY_RESIZE_PAD + 1) (MAX_NSLOTS (a_type da)))"
    unfolding pos using resize_ok [OF assms(1) _ assms(2)] assms(1) by (cases "idx < nslots da") fastforce+
  let ?da = "da1\<lparr> base := (base da1)[idx := Some v] \<rparr>"
  have len: "length (base da1) = nslots da1" using d(2) by (simp add: array_inv_def)
  have "known ?da = (known da1)(idx \<mapsto> v)" using d(5) len by (auto simp: known_def fun_eq_iff nth_list_update)
  moreover have "known da idx = base da1 ! idx" using d(5) unfolding d(4) [symmetric] by (simp add: known_def)
  moreover have "array_inv ?da" using d(2) by (simp add: array_inv_def)
  ultimately show ?thesis using d len by (simp add: u_array_set_def)
qed

lemma set_refused:
  assumes "array_inv da" "\<not> idx < MAX_NSLOTS (a_type da) - 1" "\<not> idx < nslots da"
  shows "u_array_set mem (a_type da) (Some da) idx v old = Inr (rc_fail, None, Some da)"
  using assms last_idx_inv [OF assms(1)] by (auto simp: u_array_set_def u_array_resize_def array_inv_def)

lemma get_known:
  assumes "array_inv da"
  shows "u_array_get (a_type da) (Some da) i = Inr (if i < nslots da then (rc_ok, Some (known da i)) else (rc_fail, None))"
  using assms last_idx_inv [OF assms] by (auto simp: u_array_get_def known_def array_inv_def)

section \<open>The interface of an array and its client\<close>

text \<open>
  An array that is written by index: a write changes what is known of its slot and of no other. After
  any sequence of writes a slot holds the last value written to it, or is as before.
\<close>

fun writes :: "('a \<Rightarrow> nat \<Rightarrow> 'v \<Rightarrow> 'a option) \<Rightarrow> 'a \<Rightarrow> (nat \<times> 'v) list \<Rightarrow> 'a option" where
  "writes put a [] = Some a"
| "writes put a ((i, v) # xs) = (case put a i v of None \<Rightarrow> None | Some b \<Rightarrow> writes put b xs)"

locale indexed_store =
  fixes inv :: "'a \<Rightarrow> bool" and tag :: "'a \<Rightarrow> 't" and bound :: "'t \<Rightarrow> nat" and look :: "'a \<Rightarrow> nat \<rightharpoonup> 'v" and put :: "'a \<Rightarrow> nat \<Rightarrow> 'v \<Rightarrow> 'a option"
  assumes put_law: "inv a \<Longrightarrow> i < bound (tag a) \<Longrightarrow>
    \<exists>b. put a i v = Some b \<and> inv b \<and> tag b = tag a \<and> look b = (look a)(i \<mapsto> v)"
begin

lemma writes_ok:
  assumes "inv a" "\<forall>i \<in> fst ` set xs. i < bound (tag a)"
  shows "\<exists>b. writes put a xs = Some b \<and> inv b \<and> tag b = tag a \<and> look b = look a ++ map_of (rev xs)"
  using assms
proof (induction xs arbitrary: a)
  case (Cons x xs)
  obtain i v where x: "x = (i, v)" by (cases x)
  obtain b where b: "put a i v = Some b" "inv b" "tag b = tag a" "look b = (look a)(i \<mapsto> v)"
    using put_law [OF Cons.prems(1), of i v] Cons.prems(2) x by auto
  obtain c where c: "writes put b xs = Some c" "inv c" "tag c = tag b" "look c = look b ++ map_of (rev xs)"
    using Cons.IH [OF b(2)] Cons.prems(2) b(3) by auto
  have "look c = look a ++ map_of (rev (x # xs))"
    unfolding c(4) b(4) x by (auto simp: map_add_def fun_eq_iff map_of_append split: option.splits)
  with b c x show ?case by auto
qed simp

end

definition array_put :: "'v u_array \<Rightarrow> nat \<Rightarrow> 'v \<Rightarrow> 'v u_array option" where
  "array_put da i v =
     (case u_array_set True (a_type da) (Some da) i v False of
        Inr (rc, _, d) \<Rightarrow> if rc = rc_ok then d else None | Inl _ \<Rightarrow> None)"

interpretation da: indexed_store array_inv a_type "\<lambda>t. MAX_NSLOTS t - 1" known array_put
proof
  fix a :: "'v u_array" and i v
  assume "array_inv a" "i < MAX_NSLOTS (a_type a) - 1"
  from set_ok [OF this, of v False] show "\<exists>b. array_put a i v = Some b \<and> array_inv b
    \<and> a_type b = a_type a \<and> known b = (known a)(i \<mapsto> v)"
    by (auto simp: array_put_def)
qed

section \<open>Properties\<close>

text \<open>C20: An array of any type that is created and written in any order, at any indexes below the last but
  one that the machine can address, accepts all writes, and a read gives the last value written to the index;
  where nothing was written it gives zero for the slots of the creation, an unknown value for the slots of a
  later growth, and an error behind the end.\<close>

theorem u_array_refines:
  assumes "t \<noteq> U_ARRAY_TYPE_UNSET" "list_all (\<lambda>(i, v). i < MAX_NSLOTS t - 1) xs"
  shows "\<exists>da da'. u_array_create True z t n = (rc_ok, Some da) \<and> writes array_put da xs = Some da'
    \<and> nslots da = (if n = 0 then 512 else min n (MAX_NSLOTS t))
    \<and> u_array_get t (Some da') i =
        Inr (case map_of (rev xs) i of
               Some v \<Rightarrow> (rc_ok, Some (Some v))
             | None \<Rightarrow> if i < nslots da then (rc_ok, Some (Some z))
                 else if i < nslots da' then (rc_ok, Some None) else (rc_fail, None))"
proof -
  obtain da where da: "u_array_create True z t n = (rc_ok, Some da)" "array_inv da" "a_type da = t"
    "nslots da = (if n = 0 then U_ARRAY_NSLOTS_DFL else min n (MAX_NSLOTS t))"
    "\<And>j. known da j = (if j < nslots da then Some z else None)"
  proof -
    from create_ok [OF assms(1), of z n] obtain da where c: "u_array_create True z t n = (rc_ok, Some da)" "array_inv da"
      "a_type da = t" "nslots da = (if n = 0 then U_ARRAY_NSLOTS_DFL else min n (MAX_NSLOTS t))"
      "known da = (\<lambda>j. if j < nslots da then Some z else None)" by blast
    show ?thesis by (rule that [OF c(1-4)]) (simp add: c(5))
  qed
  have "\<forall>i \<in> fst ` set xs. i < MAX_NSLOTS (a_type da) - 1" using assms(2) da(3) by (auto simp: list_all_iff)
  from da.writes_ok [OF da(2) this] obtain da' where da': "writes array_put da xs = Some da'" "array_inv da'"
    "known da' = known da ++ map_of (rev xs)" "a_type da' = t" using da(3) by blast
  have "u_array_get t (Some da') i = Inr (if i < nslots da' then (rc_ok, Some (known da' i)) else (rc_fail, None))"
    using get_known [OF da'(2), of i] da'(4) by simp
  moreover have "known da' i \<noteq> None \<Longrightarrow> i < nslots da'" by (simp add: known_def split: if_splits)
  moreover have "known da' i = (case map_of (rev xs) i of Some v \<Rightarrow> Some v
      | None \<Rightarrow> if i < nslots da then Some z else None)"
    unfolding da'(3) da(5) map_add_def by simp
  ultimately have "u_array_get t (Some da') i =
        Inr (case map_of (rev xs) i of
               Some v \<Rightarrow> (rc_ok, Some (Some v))
             | None \<Rightarrow> if i < nslots da then (rc_ok, Some (Some z))
                 else if i < nslots da' then (rc_ok, Some None) else (rc_fail, None))"
    by (cases "map_of (rev xs) i"; cases "i < nslots da") simp_all
  with da'(1) da(1,4) show ?thesis unfolding U_ARRAY_NSLOTS_DFL_def by blast
qed

theorem u_array_refines_witness:
  "\<exists>da da'. u_array_create True 0 U_ARRAY_TYPE_INT 2 = (rc_ok, Some da)
    \<and> writes array_put da [(1, 7 :: int), (5, 8), (1, 9)] = Some da'
    \<and> u_array_get U_ARRAY_TYPE_INT (Some da') 1 = Inr (rc_ok, Some (Some 9))
    \<and> u_array_get U_ARRAY_TYPE_INT (Some da') 0 = Inr (rc_ok, Some (Some 0))"
proof -
  have t: "U_ARRAY_TYPE_INT \<noteq> U_ARRAY_TYPE_UNSET" by simp
  have x: "list_all (\<lambda>(i, v). i < MAX_NSLOTS U_ARRAY_TYPE_INT - 1) [(1, 7 :: int), (5, 8), (1, 9)]"
    by (simp add: MAX_NSLOTS_def MAX_SIZE_def)
  have m: "MAX_NSLOTS U_ARRAY_TYPE_INT = 4611686018427387903" by (simp add: MAX_NSLOTS_def MAX_SIZE_def)
  obtain da da' where "u_array_create True 0 U_ARRAY_TYPE_INT 2 = (rc_ok, Some da)"
    "writes array_put da [(1, 7 :: int), (5, 8), (1, 9)] = Some da'" by (use u_array_refines [OF t x, of 0 2 0] in blast)
  moreover note u_array_refines [OF t x, of 0 2 0] u_array_refines [OF t x, of 0 2 1]
  ultimately show ?thesis by (intro exI [of _ da] exI [of _ da']) (auto simp: m)
qed

text \<open>The slots that a growth adds are not initialised: the first write of a pointer behind the end hands
  back an unknown old pointer, where the documentation lets the caller release it. The last two indexes that
  can be addressed are refused.\<close>

theorem u_array_set_ptr_unknown:
  assumes "array_inv da" "a_type da = U_ARRAY_TYPE_PTR" "nslots da \<le> idx"
  shows "if idx < 2 ^ 61 - 2 then \<exists>da'. u_array_set_ptr True (Some da) idx v = Inr (rc_ok, None, Some da') \<and> known da' idx = Some v
    else u_array_set_ptr True (Some da) idx v = Inr (rc_fail, Some None, Some da)"
proof -
  have m: "MAX_NSLOTS U_ARRAY_TYPE_PTR - 1 = 2 ^ 61 - 2" by (simp add: MAX_NSLOTS_def MAX_SIZE_def)
  have eq: "u_array_set_ptr True (Some da) idx v =
    (case u_array_set True U_ARRAY_TYPE_PTR (Some da) idx v True of
       Inl e \<Rightarrow> Inl e | Inr (rc, old, d) \<Rightarrow> Inr (rc, (case old of None \<Rightarrow> Some None | Some x \<Rightarrow> x), d))"
    using assms(2) by (simp add: u_array_set_ptr_def u_array_set_def Let_def split: prod.splits)
  have k: "known da idx = None" using assms(3) by (simp add: known_def)
  show ?thesis
  proof (cases "idx < 2 ^ 61 - 2")
    case True
    then have "idx < MAX_NSLOTS (a_type da) - 1" using m assms(2) by simp
    from set_ok [OF assms(1) this, of v True] show ?thesis unfolding eq using assms(2) True k by auto
  next
    case False
    then have "\<not> idx < MAX_NSLOTS (a_type da) - 1" using m assms(2) by simp
    from set_refused [OF assms(1) this, of True v True] show ?thesis
      unfolding eq using assms(2,3) False by simp
  qed
qed

theorem u_array_set_ptr_unknown_witness:
  "\<exists>(da :: nat ptr_array) da'. u_array_create True None U_ARRAY_TYPE_PTR 2 = (rc_ok, Some da)
    \<and> u_array_set_ptr True (Some da) 5 (Some 3) = Inr (rc_ok, None, Some da')"
proof -
  obtain da :: "nat ptr_array" where da: "u_array_create True None U_ARRAY_TYPE_PTR 2 = (rc_ok, Some da)" "array_inv da"
    "a_type da = U_ARRAY_TYPE_PTR" "nslots da = min 2 (MAX_NSLOTS U_ARRAY_TYPE_PTR)"
    using create_ok [of U_ARRAY_TYPE_PTR None 2] by auto
  then have "nslots da \<le> 5" by simp
  from u_array_set_ptr_unknown [OF da(2,3) this, of "Some 3"] da(1) show ?thesis by auto
qed

end
