(* ===== verification/Utest.thy ===== *)
theory Utest
  imports Cstr
begin

text \<open>
  The test framework of \<open>srcs/toolbox/test.c\<close>: test cases and suites, the registration of dependencies
  between them, and the sequencer, which ranks the objects of a list so that each has a higher rank
  than those it depends on. Test suites and test cases share the structure of a test object; here
  its contents are a parameter. A pointer to an object is its position in the list, which does not
  change after registration.
\<close>

section \<open>Objects\<close>

definition U_TEST_SUCCESS :: int where "U_TEST_SUCCESS = 0"
definition U_TEST_FAILURE :: int where "U_TEST_FAILURE = 1"
definition U_TEST_ABORTED :: int where "U_TEST_ABORTED = 2"
definition U_TEST_SKIPPED :: int where "U_TEST_SKIPPED = 3"
definition U_TEST_ID_MAX :: nat where "U_TEST_ID_MAX = 128"
definition U_TEST_MAX_PARALLEL :: nat where "U_TEST_MAX_PARALLEL = 32"
definition U_TEST_CASE_PID_INITIALIZER :: int where "U_TEST_CASE_PID_INITIALIZER = - 1"

record u_test_dep =
  td_id :: string
  upref :: "nat option"

record 'b u_test_obj =
  to_id :: string
  to_status :: int
  to_rank :: nat
  to_sequenced :: bool
  to_deps :: "u_test_dep list"
  to_body :: 'b

record 'b test_objs =
  currank :: nat
  nchildren :: nat
  to_objs :: "'b u_test_obj list"

text \<open>A test case: its function, from a world to a return code, and the process it runs in.\<close>

record 'w u_test_case =
  tc_func :: "('w \<Rightarrow> int \<times> 'w) option"
  tc_pid :: int

record u_test_syn =
  syn_total :: nat
  syn_pass :: nat
  syn_fail :: nat
  syn_abrt :: nat
  syn_skip :: nat

record 'w u_test_suite =
  u_test_cases :: "'w u_test_case test_objs"
  ts_syn :: u_test_syn

record 'w u_test =
  t_id :: string
  u_test_suites :: "'w u_test_suite test_objs"
  t_sandboxed :: bool
  t_max_parallel :: nat
  t_syn :: u_test_syn

section \<open>Dependencies\<close>

definition u_test_dep_new :: "bool \<Rightarrow> string option \<Rightarrow> u_test_dep option" where
  "u_test_dep_new mem idp =
     (case idp of None \<Rightarrow> None
      | Some i \<Rightarrow>
        if \<not> mem then None
        else (case u_strlcpy [] i U_TEST_ID_MAX of (ok, s) \<Rightarrow>
          if ok then Some \<lparr> td_id = s, upref = None \<rparr> else None))"

definition u_test_dep_search :: "u_test_dep list \<Rightarrow> string \<Rightarrow> u_test_dep option" where
  "u_test_dep_search h i = List.find (\<lambda>td. td_id td = i) h"

text \<open>The position of the first object with an identifier.\<close>

fun search_from :: "nat \<Rightarrow> 'b u_test_obj list \<Rightarrow> string \<Rightarrow> nat option" where
  "search_from n [] i = None"
| "search_from n (x # xs) i = (if to_id x = i then Some n else search_from (Suc n) xs i)"

definition u_test_obj_search :: "'b test_objs \<Rightarrow> string \<Rightarrow> nat option" where
  "u_test_obj_search h i = search_from 0 (to_objs h) i"

text \<open>
  The search for an entry that is there already looks for the identifier of the object itself, and not
  for that of the new dependency.
\<close>

definition u_test_obj_dep_add :: "u_test_dep \<Rightarrow> 'b u_test_obj \<Rightarrow> 'b u_test_obj" where
  "u_test_obj_dep_add td x =
     (if u_test_dep_search (to_deps x) (to_id x) = None then x\<lparr> to_deps := td # to_deps x \<rparr> else x)"

definition dep_register :: "bool \<Rightarrow> string option \<Rightarrow> 'b u_test_obj \<Rightarrow> rc \<times> 'b u_test_obj" where
  "dep_register mem idp x =
     (case u_test_dep_new mem idp of None \<Rightarrow> (rc_fail, x) | Some td \<Rightarrow> (rc_ok, u_test_obj_dep_add td x))"

definition u_test_case_dep_register ::
  "bool \<Rightarrow> string option \<Rightarrow> 'w u_test_case u_test_obj \<Rightarrow> rc \<times> 'w u_test_case u_test_obj" where
  "u_test_case_dep_register mem idp tc = dep_register mem idp tc"

definition u_test_suite_dep_register ::
  "bool \<Rightarrow> string option \<Rightarrow> 'w u_test_suite u_test_obj \<Rightarrow> rc \<times> 'w u_test_suite u_test_obj" where
  "u_test_suite_dep_register mem idp ts = dep_register mem idp ts"

definition u_test_obj_depends_on :: "bool \<Rightarrow> string \<Rightarrow> string \<Rightarrow> 'b test_objs \<Rightarrow> rc \<times> 'b test_objs" where
  "u_test_obj_depends_on mem i depid parent =
     (case u_test_obj_search parent i of
        None \<Rightarrow> (rc_fail, parent)
      | Some n \<Rightarrow>
        if u_test_dep_search (to_deps (to_objs parent ! n)) depid \<noteq> None then (rc_ok, parent)
        else (case u_test_dep_new mem (Some depid) of
                None \<Rightarrow> (rc_fail, parent)
              | Some td \<Rightarrow>
                (rc_ok, parent\<lparr> to_objs := (to_objs parent)[n := u_test_obj_dep_add td (to_objs parent ! n)] \<rparr>)))"

definition u_test_case_depends_on :: "bool \<Rightarrow> string \<Rightarrow> string \<Rightarrow> 'w u_test_suite \<Rightarrow> rc \<times> 'w u_test_suite" where
  "u_test_case_depends_on mem tcid depid ts =
     (case u_test_obj_depends_on mem tcid depid (u_test_cases ts) of (rc, h) \<Rightarrow> (rc, ts\<lparr> u_test_cases := h \<rparr>))"

definition u_test_suite_depends_on :: "bool \<Rightarrow> string \<Rightarrow> string \<Rightarrow> 'w u_test \<Rightarrow> rc \<times> 'w u_test" where
  "u_test_suite_depends_on mem tsid depid t =
     (case u_test_obj_depends_on mem tsid depid (u_test_suites t) of (rc, h) \<Rightarrow> (rc, t\<lparr> u_test_suites := h \<rparr>))"

section \<open>Construction\<close>

definition u_test_obj_init :: "string option \<Rightarrow> 'b \<Rightarrow> 'b u_test_obj option" where
  "u_test_obj_init idp b =
     (case idp of None \<Rightarrow> None
      | Some i \<Rightarrow>
        (case u_strlcpy [] i U_TEST_ID_MAX of (ok, s) \<Rightarrow>
          if ok then Some \<lparr> to_id = s, to_status = U_TEST_SUCCESS, to_rank = 0, to_sequenced = False,
                           to_deps = [], to_body = b \<rparr>
          else None))"

definition u_test_case_new :: "bool \<Rightarrow> string option \<Rightarrow> ('w \<Rightarrow> int \<times> 'w) option \<Rightarrow> 'w u_test_case u_test_obj option" where
  "u_test_case_new mem idp func =
     (if \<not> mem then None
      else u_test_obj_init idp \<lparr> tc_func = func, tc_pid = U_TEST_CASE_PID_INITIALIZER \<rparr>)"

definition empty_objs :: "'b test_objs" where
  "empty_objs = \<lparr> currank = 0, nchildren = 0, to_objs = [] \<rparr>"

definition zero_syn :: u_test_syn where
  "zero_syn = \<lparr> syn_total = 0, syn_pass = 0, syn_fail = 0, syn_abrt = 0, syn_skip = 0 \<rparr>"

definition u_test_suite_new :: "bool \<Rightarrow> string option \<Rightarrow> 'w u_test_suite u_test_obj option" where
  "u_test_suite_new mem idp =
     (if \<not> mem then None else u_test_obj_init idp \<lparr> u_test_cases = empty_objs, ts_syn = zero_syn \<rparr>)"

definition u_test_new :: "bool \<Rightarrow> string \<Rightarrow> 'w u_test option" where
  "u_test_new mem i =
     (if \<not> mem then None
      else (case u_strlcpy [] i U_TEST_ID_MAX of (ok, s) \<Rightarrow>
        if ok then Some \<lparr> t_id = s, u_test_suites = empty_objs, t_sandboxed = True,
                         t_max_parallel = U_TEST_MAX_PARALLEL, t_syn = zero_syn \<rparr>
        else None))"

text \<open>New objects enter at the head of the list.\<close>

definition u_test_case_add :: "'w u_test_case u_test_obj option \<Rightarrow> 'w u_test_suite \<Rightarrow> rc \<times> 'w u_test_suite" where
  "u_test_case_add tcp ts =
     (case tcp of None \<Rightarrow> (rc_fail, ts)
      | Some tc \<Rightarrow> (rc_ok, ts\<lparr> u_test_cases := (u_test_cases ts)\<lparr> to_objs := tc # to_objs (u_test_cases ts) \<rparr> \<rparr>))"

definition u_test_suite_add :: "'w u_test_suite u_test_obj option \<Rightarrow> 'w u_test \<Rightarrow> rc \<times> 'w u_test" where
  "u_test_suite_add tsp t =
     (case tsp of None \<Rightarrow> (rc_fail, t)
      | Some ts \<Rightarrow> (rc_ok, t\<lparr> u_test_suites := (u_test_suites t)\<lparr> to_objs := ts # to_objs (u_test_suites t) \<rparr> \<rparr>))"

definition u_test_case_register ::
  "bool \<Rightarrow> string option \<Rightarrow> ('w \<Rightarrow> int \<times> 'w) option \<Rightarrow> 'w u_test_suite \<Rightarrow> rc \<times> 'w u_test_suite" where
  "u_test_case_register mem idp func ts =
     (case u_test_case_new mem idp func of None \<Rightarrow> (rc_fail, ts) | Some tc \<Rightarrow> u_test_case_add (Some tc) ts)"

section \<open>The sequencer\<close>

text \<open>A dependency is resolved when it refers to its object.\<close>

definition u_test_dep_dry :: "u_test_dep list \<Rightarrow> bool" where
  "u_test_dep_dry h = list_all (\<lambda>td. upref td \<noteq> None) h"

fun pick_from :: "nat \<Rightarrow> 'b u_test_obj list \<Rightarrow> nat option" where
  "pick_from n [] = None"
| "pick_from n (x # xs) =
     (if \<not> to_sequenced x \<and> u_test_dep_dry (to_deps x) then Some n else pick_from (Suc n) xs)"

definition u_test_obj_pick_top :: "'b test_objs \<Rightarrow> (nat \<times> 'b test_objs) option" where
  "u_test_obj_pick_top h =
     (case pick_from 0 (to_objs h) of None \<Rightarrow> None
      | Some n \<Rightarrow> Some (n, h\<lparr> currank := max (to_rank (to_objs h ! n)) (currank h) \<rparr>))"

text \<open>The first dependency of an object on the evicted one is resolved, and the rank of the object is set.\<close>

fun resolve_first :: "string \<Rightarrow> nat option \<Rightarrow> u_test_dep list \<Rightarrow> bool \<times> u_test_dep list" where
  "resolve_first i r [] = (False, [])"
| "resolve_first i r (td # tds) =
     (if td_id td = i then (True, td\<lparr> upref := r \<rparr> # tds)
      else (case resolve_first i r tds of (b, tds') \<Rightarrow> (b, td # tds')))"

definition evict_obj :: "'b test_objs \<Rightarrow> string \<Rightarrow> 'b u_test_obj \<Rightarrow> 'b u_test_obj" where
  "evict_obj h i x =
     (let (hit, deps) = resolve_first i (u_test_obj_search h i) (to_deps x);
          x1 = (if hit then x\<lparr> to_rank := currank h + 1, to_deps := deps \<rparr> else x)
      in if to_id x = i then x1\<lparr> to_sequenced := True \<rparr> else x1)"

definition u_test_obj_evict_id :: "'b test_objs \<Rightarrow> string \<Rightarrow> 'b test_objs" where
  "u_test_obj_evict_id h i = h\<lparr> to_objs := map (evict_obj h i) (to_objs h) \<rparr>"

definition unsequenced :: "'b test_objs \<Rightarrow> nat" where
  "unsequenced h = length (filter (\<lambda>x. \<not> to_sequenced x) (to_objs h))"

lemma pick_from_Some:
  "pick_from n xs = Some m \<Longrightarrow> n \<le> m \<and> m - n < length xs \<and> \<not> to_sequenced (xs ! (m - n)) \<and> u_test_dep_dry (to_deps (xs ! (m - n)))"
proof (induction xs arbitrary: n)
  case (Cons x xs)
  show ?case
  proof (cases "\<not> to_sequenced x \<and> u_test_dep_dry (to_deps x)")
    case False
    then have "pick_from (Suc n) xs = Some m" using Cons.prems by auto
    from Cons.IH [OF this] show ?thesis by (auto simp: nth_Cons')
  qed (use Cons.prems in auto)
qed simp

lemma evict_obj_sel [simp]:
  "to_id (evict_obj h i x) = to_id x" "to_status (evict_obj h i x) = to_status x" "to_body (evict_obj h i x) = to_body x"
  "to_sequenced (evict_obj h i x) = (to_sequenced x \<or> to_id x = i)"
  by (auto simp: evict_obj_def Let_def split: prod.splits)

lemma unsequenced_evict:
  assumes "n < length (to_objs h)" "\<not> to_sequenced (to_objs h ! n)"
  shows "unsequenced (u_test_obj_evict_id h (to_id (to_objs h ! n))) < unsequenced h"
proof -
  let ?i = "to_id (to_objs h ! n)"
  have f: "filter (\<lambda>x. \<not> to_sequenced (evict_obj h ?i x)) (to_objs h)
    = filter (\<lambda>x. to_id x \<noteq> ?i) (filter (\<lambda>x. \<not> to_sequenced x) (to_objs h))" by (simp add: conj_commute)
  have "to_objs h ! n \<in> set (filter (\<lambda>x. \<not> to_sequenced x) (to_objs h))" using assms by simp
  then have "length (filter (\<lambda>x. to_id x \<noteq> ?i) (filter (\<lambda>x. \<not> to_sequenced x) (to_objs h)))
    < length (filter (\<lambda>x. \<not> to_sequenced x) (to_objs h))" by (rule length_filter_less) simp
  then show ?thesis
    unfolding unsequenced_def u_test_obj_evict_id_def by (simp add: filter_map o_def f)
qed

function sequence_loop :: "'b test_objs \<Rightarrow> 'b test_objs" where
  "sequence_loop h =
     (case u_test_obj_pick_top h of
        None \<Rightarrow> h
      | Some (n, h1) \<Rightarrow> sequence_loop (u_test_obj_evict_id h1 (to_id (to_objs h1 ! n))))"
  by auto

termination
proof (relation "measure unsequenced", goal_cases)
  case (2 h p n h1)
  then have h1: "pick_from 0 (to_objs h) = Some n" "h1 = h\<lparr> currank := max (to_rank (to_objs h ! n)) (currank h) \<rparr>"
    by (auto simp: u_test_obj_pick_top_def split: option.splits)
  then have "to_objs h1 = to_objs h" "unsequenced h1 = unsequenced h" by (simp_all add: unsequenced_def)
  then show ?case using unsequenced_evict [of n h1] pick_from_Some [OF h1(1)] by simp
qed simp

declare sequence_loop.simps [simp del]

text \<open>
  The sequencer of a list; \<open>sub\<close> is what it does with the contents of an object, one after the other:
  for suites the sequencing of their cases.
\<close>

fun sequence_subs :: "('b \<Rightarrow> rc \<times> 'b) \<Rightarrow> 'b u_test_obj list \<Rightarrow> rc \<times> 'b u_test_obj list" where
  "sequence_subs sub [] = (rc_ok, [])"
| "sequence_subs sub (x # xs) =
     (case sub (to_body x) of (rc, b) \<Rightarrow>
       if rc \<noteq> rc_ok then (rc_fail, x\<lparr> to_body := b \<rparr> # xs)
       else (case sequence_subs sub xs of (rc2, ys) \<Rightarrow> (rc2, x\<lparr> to_body := b \<rparr> # ys)))"

definition u_test_obj_sequencer :: "('b \<Rightarrow> rc \<times> 'b) option \<Rightarrow> 'b test_objs \<Rightarrow> rc \<times> 'b test_objs" where
  "u_test_obj_sequencer sub h =
     (let h1 = sequence_loop h in
      if list_ex (\<lambda>x. \<not> to_sequenced x) (to_objs h1) then (rc_fail, h1)
      else (case sub of None \<Rightarrow> (rc_ok, h1)
            | Some f \<Rightarrow> (case sequence_subs f (to_objs h1) of (rc, xs) \<Rightarrow> (rc, h1\<lparr> to_objs := xs \<rparr>))))"

definition sequence_cases :: "'w u_test_suite \<Rightarrow> rc \<times> 'w u_test_suite" where
  "sequence_cases ts =
     (case u_test_obj_sequencer None (u_test_cases ts) of (rc, h) \<Rightarrow> (rc, ts\<lparr> u_test_cases := h \<rparr>))"

definition u_test_sequencer :: "'w u_test \<Rightarrow> rc \<times> 'w u_test" where
  "u_test_sequencer t =
     (case u_test_obj_sequencer (Some sequence_cases) (u_test_suites t) of (rc, h) \<Rightarrow> (rc, t\<lparr> u_test_suites := h \<rparr>))"

section \<open>What can be sequenced\<close>

text \<open>
  An object can be sequenced when its dependencies are recorded once each, and each of them names an
  object of the list that can be sequenced; so there is neither a loop nor a name without an object
  among them.
\<close>

inductive seqable :: "'b u_test_obj list \<Rightarrow> nat \<Rightarrow> bool" for xs where
  seqableI: "i < length xs \<Longrightarrow> distinct (map td_id (to_deps (xs ! i))) \<Longrightarrow> (\<And>d. d \<in> td_id ` set (to_deps (xs ! i)) \<Longrightarrow> \<exists>j. j < length xs \<and> to_id (xs ! j) = d \<and> seqable xs j)
    \<Longrightarrow> seqable xs i"

text \<open>Lists as they are after registration: new objects with different names, and any dependencies.\<close>

definition fresh_obj :: "'b u_test_obj \<Rightarrow> bool" where
  "fresh_obj x = (\<not> to_sequenced x \<and> to_rank x = 0 \<and> to_status x = U_TEST_SUCCESS
     \<and> list_all (\<lambda>td. upref td = None) (to_deps x))"

definition registered :: "'b test_objs \<Rightarrow> bool" where
  "registered h = (distinct (map to_id (to_objs h)) \<and> list_all fresh_obj (to_objs h) \<and> currank h = 0)"

lemma search_from_Some:
  "distinct (map to_id xs) \<Longrightarrow> search_from n xs d = Some j \<longleftrightarrow> n \<le> j \<and> j - n < length xs \<and> to_id (xs ! (j - n)) = d"
proof (induction xs arbitrary: n)
  case (Cons x xs)
  show ?case
  proof (cases "to_id x = d")
    case True
    then have "d \<notin> to_id ` set xs" using Cons.prems by auto
    then have "to_id (xs ! k) \<noteq> d" if "k < length xs" for k using that by (metis image_eqI nth_mem)
    then show ?thesis using True by (cases "j - n") (auto simp: not_le)
  next
    case False
    then have "search_from n (x # xs) d = search_from (Suc n) xs d" by simp
    also have "\<dots> = Some j \<longleftrightarrow> Suc n \<le> j \<and> j - Suc n < length xs \<and> to_id (xs ! (j - Suc n)) = d"
      using Cons by simp
    also have "\<dots> \<longleftrightarrow> n \<le> j \<and> j - n < length (x # xs) \<and> to_id ((x # xs) ! (j - n)) = d"
    proof (cases "n < j")
      case True
      then obtain m where "j = Suc (n + m)" using less_imp_Suc_add by blast
      then show ?thesis by simp
    next
      case nj: False
      then show ?thesis using False by (cases "j = n") auto
    qed
    finally show ?thesis .
  qed
qed simp

lemma obj_search_Some:
  "distinct (map to_id (to_objs h)) \<Longrightarrow>
    u_test_obj_search h d = Some j \<longleftrightarrow> j < length (to_objs h) \<and> to_id (to_objs h ! j) = d"
  using search_from_Some [of "to_objs h" 0 d j] by (simp add: u_test_obj_search_def)

lemma resolve_first_map:
  "distinct (map td_id tds) \<Longrightarrow> resolve_first i r tds
    = (i \<in> td_id ` set tds, map (\<lambda>td. if td_id td = i then td\<lparr> upref := r \<rparr> else td) tds)"
proof (induction tds)
  case (Cons td tds)
  show ?case
  proof (cases "td_id td = i")
    case True
    then have "map (\<lambda>td. if td_id td = i then td\<lparr> upref := r \<rparr> else td) tds = tds"
      using Cons.prems True by (intro map_idI) (force simp: image_iff)
    then show ?thesis using True by simp
  next
    case False
    then show ?thesis using Cons by auto
  qed
qed simp

lemma resolve_first_ids: "fst (resolve_first i r tds) = (i \<in> td_id ` set tds)"
    "map td_id (snd (resolve_first i r tds)) = map td_id tds"
  by (induction tds) (auto split: prod.splits)

lemma evict_obj_eq:
  "to_deps (evict_obj h i x) = snd (resolve_first i (u_test_obj_search h i) (to_deps x))"
  "to_rank (evict_obj h i x) = (if i \<in> td_id ` set (to_deps x) then currank h + 1 else to_rank x)"
proof -
  have same: "snd (resolve_first i r tds) = tds" if "i \<notin> td_id ` set tds" for r and tds :: "u_test_dep list"
    using that by (induction tds) (auto split: prod.splits)
  obtain b tds where r: "resolve_first i (u_test_obj_search h i) (to_deps x) = (b, tds)" by (cases "resolve_first i (u_test_obj_search h i) (to_deps x)")
  moreover have "b = (i \<in> td_id ` set (to_deps x))" using resolve_first_ids(1) [of i "u_test_obj_search h i" "to_deps x"] r by simp
  moreover have "tds = to_deps x" if "i \<notin> td_id ` set (to_deps x)" using same [OF that] r by (metis snd_conv)
  ultimately show "to_deps (evict_obj h i x) = snd (resolve_first i (u_test_obj_search h i) (to_deps x))"
    "to_rank (evict_obj h i x) = (if i \<in> td_id ` set (to_deps x) then currank h + 1 else to_rank x)"
    by (auto simp: evict_obj_def Let_def)
qed

text \<open>A second record of a dependency is never resolved, and keeps its object in the list.\<close>

definition stuck :: "u_test_dep list \<Rightarrow> bool" where
  "stuck tds = (\<exists>b < length tds. td_id (tds ! b) \<in> td_id ` set (take b tds) \<and> upref (tds ! b) = None)"

lemma stuck_not_dry: "stuck tds \<Longrightarrow> \<not> u_test_dep_dry tds"
  by (auto simp: stuck_def u_test_dep_dry_def list_all_iff)

lemma stuck_start:
  assumes "list_all (\<lambda>td. upref td = None) tds"
  shows "distinct (map td_id tds) \<or> stuck tds"
proof (cases "distinct (map td_id tds)")
  case False
  then obtain i j where "i < length tds" "j < length tds" "i \<noteq> j" "td_id (tds ! i) = td_id (tds ! j)"
    by (auto simp: distinct_conv_nth)
  then obtain a b where ab: "a < b" "b < length tds" "td_id (tds ! a) = td_id (tds ! b)"
    by (metis nat_neq_iff)
  then have "tds ! a \<in> set (take b tds)" by (auto simp: in_set_conv_nth)
  then have "td_id (tds ! b) \<in> td_id ` set (take b tds)" using ab(3) by (metis image_eqI)
  then show ?thesis using ab assms unfolding stuck_def by (auto simp: list_all_length)
qed simp

lemma resolve_first_later:
  "b < length tds \<Longrightarrow> (td_id (tds ! b) = i \<longrightarrow> i \<in> td_id ` set (take b tds)) \<Longrightarrow> snd (resolve_first i r tds) ! b = tds ! b"
proof (induction tds arbitrary: b)
  case (Cons td tds)
  show ?case
  proof (cases b)
    case 0
    then show ?thesis using Cons.prems by (auto split: prod.splits)
  next
    case (Suc c)
    then show ?thesis using Cons.IH [of c] Cons.prems by (auto split: prod.splits)
  qed
qed simp

lemma stuck_resolve: "stuck tds \<Longrightarrow> stuck (snd (resolve_first i r tds))"
proof -
  assume "stuck tds"
  then obtain b where b: "b < length tds" "td_id (tds ! b) \<in> td_id ` set (take b tds)" "upref (tds ! b) = None"
    by (auto simp: stuck_def)
  let ?ys = "snd (resolve_first i r tds)"
  have ids: "map td_id ?ys = map td_id tds" by (rule resolve_first_ids)
  then have "length ?ys = length tds" "td_id ` set (take b ?ys) = td_id ` set (take b tds)"
    by (metis length_map, metis list.set_map take_map)
  moreover have "?ys ! b = tds ! b" using resolve_first_later [OF b(1), of i r] b(2) by metis
  ultimately show "stuck ?ys" using b unfolding stuck_def by (intro exI [of _ b]) simp
qed

text \<open>The invariant of the loop, for the list \<open>xs\<close> it was started with.\<close>

definition same_obj :: "'b u_test_obj \<Rightarrow> 'b u_test_obj \<Rightarrow> bool" where
  "same_obj x y = (to_id x = to_id y \<and> to_status x = to_status y \<and> to_body x = to_body y
     \<and> map td_id (to_deps x) = map td_id (to_deps y))"

definition dep_ok :: "'b u_test_obj list \<Rightarrow> 'b u_test_obj \<Rightarrow> u_test_dep \<Rightarrow> bool" where
  "dep_ok ys x td =
     (\<forall>j < length ys. to_id (ys ! j) = td_id td \<longrightarrow>
        (if to_sequenced (ys ! j) then upref td = Some j \<and> to_rank (ys ! j) < to_rank x else upref td = None))"

definition seq_inv :: "'b u_test_obj list \<Rightarrow> 'b test_objs \<Rightarrow> bool" where
  "seq_inv xs h =
     (length (to_objs h) = length xs \<and> distinct (map to_id xs)
      \<and> (\<forall>i < length xs. let x = to_objs h ! i in same_obj x (xs ! i) \<and> (distinct (map td_id (to_deps x)) \<or> stuck (to_deps x))
          \<and> (distinct (map td_id (to_deps x)) \<longrightarrow>
              (\<forall>td \<in> set (to_deps x). dep_ok (to_objs h) x td \<and> (upref td \<noteq> None \<longrightarrow> td_id td \<in> to_id ` set xs)))
          \<and> (to_sequenced x \<longrightarrow> to_rank x \<le> currank h \<and> u_test_dep_dry (to_deps x) \<and> seqable xs i)))"

lemma seq_inv_ids: "seq_inv xs h \<Longrightarrow> map to_id (to_objs h) = map to_id xs"
  by (rule nth_equalityI) (auto simp: seq_inv_def same_obj_def Let_def)

lemma seq_inv_start: "registered h \<Longrightarrow> seq_inv (to_objs h) h"
proof -
  assume r: "registered h"
  have "fresh_obj (to_objs h ! i)" if "i < length (to_objs h)" for i
    using r that by (simp add: registered_def list_all_length)
  then show ?thesis
    using r stuck_start by (auto simp: registered_def seq_inv_def fresh_obj_def list_all_iff same_obj_def dep_ok_def Let_def)
qed

lemma pick_seqable:
  assumes "seq_inv xs h" "n < length xs" "u_test_dep_dry (to_deps (to_objs h ! n))"
  shows "seqable xs n" "\<And>td. td \<in> set (to_deps (to_objs h ! n)) \<Longrightarrow>
    \<exists>j < length xs. to_id (to_objs h ! j) = td_id td \<and> to_sequenced (to_objs h ! j)"
proof -
  let ?x = "to_objs h ! n"
  note inv = assms(1) [unfolded seq_inv_def Let_def]
  have ids: "to_id (to_objs h ! j) = to_id (xs ! j)" if "j < length xs" for j
    using inv that by (simp add: same_obj_def)
  have dx: "distinct (map td_id (to_deps ?x))" using inv assms(2,3) stuck_not_dry by blast
  show dep: "\<exists>j < length xs. to_id (to_objs h ! j) = td_id td \<and> to_sequenced (to_objs h ! j)"
    if td: "td \<in> set (to_deps ?x)" for td
  proof -
    have "upref td \<noteq> None" using assms(3) td by (simp add: u_test_dep_dry_def list_all_iff)
    moreover from this have "td_id td \<in> to_id ` set xs" using inv assms(2) td dx by blast
    then obtain j where j: "j < length xs" "to_id (xs ! j) = td_id td" by (auto simp: in_set_conv_nth)
    moreover have "dep_ok (to_objs h) ?x td" using inv assms(2) td dx by blast
    ultimately have "to_sequenced (to_objs h ! j)" using ids inv by (auto simp: dep_ok_def split: if_splits)
    then show ?thesis using j ids by auto
  qed
  show "seqable xs n"
  proof (rule seqableI)
    show "n < length xs" by (rule assms(2))
    show "distinct (map td_id (to_deps (xs ! n)))" using dx inv assms(2) by (simp add: same_obj_def)
    fix d assume "d \<in> td_id ` set (to_deps (xs ! n))"
    moreover have "td_id ` set (to_deps (xs ! n)) = td_id ` set (to_deps ?x)"
      using inv assms(2) by (metis same_obj_def set_map)
    ultimately obtain td where "td \<in> set (to_deps ?x)" "d = td_id td" by auto
    from dep [OF this(1)] this(2) obtain j where "j < length xs" "to_id (to_objs h ! j) = d" "to_sequenced (to_objs h ! j)"
      by auto
    then show "\<exists>j. j < length xs \<and> to_id (xs ! j) = d \<and> seqable xs j" using inv ids by auto
  qed
qed

lemma seq_inv_step:
  assumes "seq_inv xs h" "u_test_obj_pick_top h = Some (n, h1)"
  shows "seq_inv xs (u_test_obj_evict_id h1 (to_id (to_objs h1 ! n)))"
proof -
  let ?i = "to_id (to_objs h1 ! n)" and ?ys = "to_objs h"
  note inv = assms(1) [unfolded seq_inv_def Let_def]
  have p: "pick_from 0 ?ys = Some n" "h1 = h\<lparr> currank := max (to_rank (?ys ! n)) (currank h) \<rparr>"
    using assms(2) by (auto simp: u_test_obj_pick_top_def split: option.splits)
  have n: "n < length xs" "\<not> to_sequenced (?ys ! n)" "u_test_dep_dry (to_deps (?ys ! n))" "to_objs h1 = ?ys"
    using pick_from_Some [OF p(1)] inv p(2) by auto
  have d: "distinct (map to_id ?ys)" using seq_inv_ids [OF assms(1)] inv by simp
  have uniq: "to_id (?ys ! j) = ?i \<longleftrightarrow> j = n" if "j < length xs" for j
    using d that n(1,4) inv by (auto simp: distinct_conv_nth)
  have sr: "u_test_obj_search h1 ?i = Some n"
    using obj_search_Some [of h1 ?i n] d n inv by simp
  let ?h = "u_test_obj_evict_id h1 ?i"
  have y: "to_objs ?h ! j = evict_obj h1 ?i (?ys ! j)" if "j < length xs" for j
    using that n(4) inv by (simp add: u_test_obj_evict_id_def)
  note pk = pick_seqable [OF assms(1) n(1,3)]
  have nodep: "?i \<notin> td_id ` set (to_deps (?ys ! j))" if j: "j < length xs" "to_sequenced (?ys ! j) \<or> j = n" for j
  proof
    assume "?i \<in> td_id ` set (to_deps (?ys ! j))"
    then obtain td where td: "td \<in> set (to_deps (?ys ! j))" "td_id td = ?i" by auto
    have "u_test_dep_dry (to_deps (?ys ! j))" using j inv n(3) by blast
    from pick_seqable(2) [OF assms(1) j(1) this td(1)] td(2) uniq n(2) show False by auto
  qed
  have rk: "to_rank (to_objs ?h ! j) = (if ?i \<in> td_id ` set (to_deps (?ys ! j)) then currank h1 + 1 else to_rank (?ys ! j))"
    if "j < length xs" for j using y that inv by (simp add: evict_obj_eq)
  have cr: "currank ?h = currank h1" "currank h \<le> currank h1" "to_rank (?ys ! n) \<le> currank h1"
    by (simp_all add: u_test_obj_evict_id_def p(2))
  have main: "same_obj (to_objs ?h ! k) (xs ! k)
      \<and> (distinct (map td_id (to_deps (to_objs ?h ! k))) \<or> stuck (to_deps (to_objs ?h ! k)))
      \<and> (distinct (map td_id (to_deps (to_objs ?h ! k))) \<longrightarrow>
          (\<forall>td \<in> set (to_deps (to_objs ?h ! k)). dep_ok (to_objs ?h) (to_objs ?h ! k) td
           \<and> (upref td \<noteq> None \<longrightarrow> td_id td \<in> to_id ` set xs)))
      \<and> (to_sequenced (to_objs ?h ! k) \<longrightarrow> to_rank (to_objs ?h ! k) \<le> currank ?h \<and> u_test_dep_dry (to_deps (to_objs ?h ! k)) \<and> seqable xs k)"
    if k: "k < length xs" for k
  proof (intro conjI ballI impI)
    let ?x = "?ys ! k"
    have so: "same_obj ?x (xs ! k)" using inv k by blast
    have mid: "map td_id (to_deps (to_objs ?h ! k)) = map td_id (to_deps ?x)"
      unfolding y [OF k] evict_obj_eq(1) by (rule resolve_first_ids)
    have dp: "to_deps (to_objs ?h ! k) = map (\<lambda>td. if td_id td = ?i then td\<lparr> upref := Some n \<rparr> else td) (to_deps ?x)"
      if "distinct (map td_id (to_deps ?x))"
      unfolding y [OF k] evict_obj_eq(1) sr resolve_first_map [OF that] by simp
    show "same_obj (to_objs ?h ! k) (xs ! k)" using so mid unfolding same_obj_def by (simp add: y [OF k])
    show "distinct (map td_id (to_deps (to_objs ?h ! k))) \<or> stuck (to_deps (to_objs ?h ! k))"
      unfolding mid using inv k stuck_resolve unfolding y [OF k] evict_obj_eq(1) by blast
    show "to_rank (to_objs ?h ! k) \<le> currank ?h" if "to_sequenced (to_objs ?h ! k)"
    proof -
      have "to_sequenced ?x \<or> k = n" using that y [OF k] uniq [OF k] by auto
      then have "to_rank (to_objs ?h ! k) = to_rank ?x" "to_rank ?x \<le> currank h1"
        using nodep [OF k] rk [OF k] inv k cr by auto
      then show ?thesis using cr(1) by simp
    qed
    show "seqable xs k" if "to_sequenced (to_objs ?h ! k)"
      using that y [OF k] uniq [OF k] inv k pk(1) by auto
    show "u_test_dep_dry (to_deps (to_objs ?h ! k))" if "to_sequenced (to_objs ?h ! k)"
    proof -
      have "to_sequenced ?x \<or> k = n" using that y [OF k] uniq [OF k] by auto
      then have dry: "u_test_dep_dry (to_deps ?x)" using inv k n(3) by blast
      then have "distinct (map td_id (to_deps ?x))" using inv k stuck_not_dry by blast
      from dp [OF this] dry show ?thesis by (auto simp: u_test_dep_dry_def list_all_iff)
    qed
    fix td' assume dx': "distinct (map td_id (to_deps (to_objs ?h ! k)))" and td': "td' \<in> set (to_deps (to_objs ?h ! k))"
    have dx: "distinct (map td_id (to_deps ?x))" using dx' unfolding mid .
    then obtain td where td: "td \<in> set (to_deps ?x)" "td' = (if td_id td = ?i then td\<lparr> upref := Some n \<rparr> else td)"
      using dp [OF dx] td' by auto
    have ok: "dep_ok ?ys ?x td" "upref td \<noteq> None \<Longrightarrow> td_id td \<in> to_id ` set xs" using inv k td(1) dx by blast+
    have idn: "?i \<in> to_id ` set xs"
      using seq_inv_ids [OF assms(1)] n(1,4) inv by (metis list.set_map nth_mem image_eqI)
    show "td_id td' \<in> to_id ` set xs" if "upref td' \<noteq> None"
      using that td(2) ok(2) idn by (auto split: if_splits)
    show "dep_ok (to_objs ?h) (to_objs ?h ! k) td'"
      unfolding dep_ok_def
    proof (intro allI impI)
      fix j assume j: "j < length (to_objs ?h)" "to_id (to_objs ?h ! j) = td_id td'"
      have jl: "j < length xs" using j(1) inv n(4) by (simp add: u_test_obj_evict_id_def)
      have jd: "to_id (?ys ! j) = td_id td" using j(2) y [OF jl] td(2) by (simp split: if_splits)
      have old: "if to_sequenced (?ys ! j) then upref td = Some j \<and> to_rank (?ys ! j) < to_rank ?x else upref td = None"
        using ok(1) jl jd inv by (simp add: dep_ok_def)
      show "if to_sequenced (to_objs ?h ! j) then upref td' = Some j \<and> to_rank (to_objs ?h ! j) < to_rank (to_objs ?h ! k)
        else upref td' = None"
      proof (cases "j = n")
        case True
        then have i: "td_id td = ?i" using jd n(4) by simp
        then have "?i \<in> td_id ` set (to_deps ?x)" using td(1) by force
        then have "to_rank (to_objs ?h ! k) = currank h1 + 1" using rk [OF k] by simp
        moreover have "to_rank (to_objs ?h ! j) = to_rank (?ys ! n)" using rk [OF jl] nodep [OF n(1)] True by simp
        ultimately show ?thesis using True td(2) i y [OF jl] n(4) cr(3) by simp
      next
        case False
        then have ni: "td_id td \<noteq> ?i" using jd uniq [OF jl] by metis
        have sj: "to_sequenced (to_objs ?h ! j) = to_sequenced (?ys ! j)" using y [OF jl] uniq [OF jl] False by simp
        have "to_rank (?ys ! j) \<le> currank h1" "to_rank (to_objs ?h ! j) = to_rank (?ys ! j)" if "to_sequenced (?ys ! j)"
          using that nodep [OF jl] rk [OF jl] inv jl cr(2) by auto
        then show ?thesis using old sj ni td(2) rk [OF k] by auto
      qed
    qed
  qed
  have "length (to_objs ?h) = length xs" "distinct (map to_id xs)" using inv n(4) by (simp_all add: u_test_obj_evict_id_def)
  then show ?thesis unfolding seq_inv_def Let_def using main by blast
qed

lemma loop_inv: "seq_inv xs h \<Longrightarrow> seq_inv xs (sequence_loop h) \<and> pick_from 0 (to_objs (sequence_loop h)) = None"
proof (induction h rule: sequence_loop.induct)
  case (1 h)
  show ?case
  proof (cases "u_test_obj_pick_top h")
    case None
    then have "sequence_loop h = h" "pick_from 0 (to_objs h) = None"
      by (simp_all add: sequence_loop.simps [of h] u_test_obj_pick_top_def split: option.splits)
    then show ?thesis using "1.prems" by simp
  next
    case (Some p)
    obtain n h1 where p: "p = (n, h1)" by (cases p)
    have "sequence_loop h = sequence_loop (u_test_obj_evict_id h1 (to_id (to_objs h1 ! n)))"
      using Some p by (subst sequence_loop.simps) simp
    then show ?thesis using "1.IH" [OF Some p [symmetric] seq_inv_step] Some p "1.prems" by simp
  qed
qed

lemma pick_None: "pick_from n xs = None \<Longrightarrow> i < length xs \<Longrightarrow> u_test_dep_dry (to_deps (xs ! i)) \<Longrightarrow> to_sequenced (xs ! i)"
  by (induction xs arbitrary: n i) (auto simp: nth_Cons' split: if_splits)

lemma seqable_sequenced:
  assumes "seqable xs i" "seq_inv xs h" "pick_from 0 (to_objs h) = None"
  shows "to_sequenced (to_objs h ! i)"
  using assms(1)
proof (induction rule: seqable.induct)
  case (seqableI i)
  let ?x = "to_objs h ! i"
  note inv = assms(2) [unfolded seq_inv_def Let_def]
  have ids: "map td_id (to_deps ?x) = map td_id (to_deps (xs ! i))" using inv seqableI(1) by (auto simp: same_obj_def)
  then have dx: "distinct (map td_id (to_deps ?x))" using seqableI(2) by simp
  have "upref td \<noteq> None" if td: "td \<in> set (to_deps ?x)" for td
  proof -
    have "td_id td \<in> td_id ` set (to_deps (xs ! i))" using td ids by (metis image_eqI list.set_map)
    from seqableI(3) [OF this] obtain j where j: "j < length xs" "to_id (xs ! j) = td_id td" "to_sequenced (to_objs h ! j)"
      by blast
    have "to_id (to_objs h ! j) = td_id td" using j inv by (auto simp: same_obj_def)
    moreover have "dep_ok (to_objs h) ?x td" using inv seqableI(1) td dx by blast
    ultimately show ?thesis using j inv by (auto simp: dep_ok_def)
  qed
  then have "u_test_dep_dry (to_deps ?x)" by (simp add: u_test_dep_dry_def list_all_iff)
  then show ?case using pick_None [OF assms(3)] seqableI(1) inv by simp
qed

text \<open>A list in which every object has a higher rank than its dependencies, which are resolved.\<close>

definition ranked :: "'b test_objs \<Rightarrow> bool" where
  "ranked h = (\<forall>i < length (to_objs h). to_rank (to_objs h ! i) \<le> currank h
     \<and> (\<forall>td \<in> set (to_deps (to_objs h ! i)). \<exists>j < length (to_objs h). upref td = Some j
          \<and> to_id (to_objs h ! j) = td_id td \<and> to_rank (to_objs h ! j) < to_rank (to_objs h ! i)))"

lemma sequence_loop_ok:
  assumes "registered h"
  shows "list_ex (\<lambda>x. \<not> to_sequenced x) (to_objs (sequence_loop h)) \<longleftrightarrow> \<not> (\<forall>i < length (to_objs h). seqable (to_objs h) i)"
    and "list_all2 same_obj (to_objs (sequence_loop h)) (to_objs h)"
    and "\<forall>i < length (to_objs h). seqable (to_objs h) i \<Longrightarrow> ranked (sequence_loop h)"
proof -
  let ?h = "sequence_loop h" and ?xs = "to_objs h"
  have l: "seq_inv ?xs ?h" "pick_from 0 (to_objs ?h) = None" using loop_inv [OF seq_inv_start [OF assms]] by auto
  note inv = l(1) [unfolded seq_inv_def Let_def]
  have iff: "to_sequenced (to_objs ?h ! i) \<longleftrightarrow> seqable ?xs i" if "i < length ?xs" for i
    using seqable_sequenced [OF _ l] inv that by blast
  show "list_ex (\<lambda>x. \<not> to_sequenced x) (to_objs ?h) \<longleftrightarrow> \<not> (\<forall>i < length ?xs. seqable ?xs i)"
    using iff inv by (auto simp: list_ex_length)
  show "list_all2 same_obj (to_objs ?h) ?xs" using inv by (simp add: list_all2_conv_all_nth)
  show "ranked ?h" if "\<forall>i < length ?xs. seqable ?xs i"
    unfolding ranked_def
  proof (intro allI impI conjI ballI)
    fix i assume "i < length (to_objs ?h)"
    then have i: "i < length ?xs" "to_sequenced (to_objs ?h ! i)" using inv iff that by auto
    then show "to_rank (to_objs ?h ! i) \<le> currank ?h" using inv by blast
    fix td assume td: "td \<in> set (to_deps (to_objs ?h ! i))"
    have dry: "u_test_dep_dry (to_deps (to_objs ?h ! i))" using inv i by blast
    then have dx: "distinct (map td_id (to_deps (to_objs ?h ! i)))" using inv i stuck_not_dry by blast
    obtain j where j: "j < length ?xs" "to_id (to_objs ?h ! j) = td_id td" "to_sequenced (to_objs ?h ! j)"
      using pick_seqable(2) [OF l(1) i(1) dry td] by blast
    moreover have "dep_ok (to_objs ?h) (to_objs ?h ! i) td" using inv i(1) td dx by blast
    ultimately show "\<exists>j < length (to_objs ?h). upref td = Some j \<and> to_id (to_objs ?h ! j) = td_id td
        \<and> to_rank (to_objs ?h ! j) < to_rank (to_objs ?h ! i)"
      using inv by (auto simp: dep_ok_def)
  qed
qed

lemma sequence_subs_ok:
  "fst (sequence_subs f xs) = rc_ok \<longleftrightarrow> (\<forall>x \<in> set xs. fst (f (to_body x)) = rc_ok)"
  "fst (sequence_subs f xs) = rc_ok \<Longrightarrow> snd (sequence_subs f xs) = map (\<lambda>x. x\<lparr> to_body := snd (f (to_body x)) \<rparr>) xs"
  by (induction xs) (auto split: prod.splits if_splits)

definition all_seqable :: "'b test_objs \<Rightarrow> bool" where
  "all_seqable h = (\<forall>i < length (to_objs h). seqable (to_objs h) i)"

lemma ranked_bodies: "ranked h \<Longrightarrow> ranked (h\<lparr> to_objs := map (\<lambda>x. x\<lparr> to_body := f x \<rparr>) (to_objs h) \<rparr>)"
  unfolding ranked_def by fastforce

lemma cases_sequenced:
  assumes "registered (u_test_cases ts)"
  shows "fst (sequence_cases ts) = rc_ok \<longleftrightarrow> all_seqable (u_test_cases ts)"
    "list_all2 same_obj (to_objs (u_test_cases (snd (sequence_cases ts)))) (to_objs (u_test_cases ts))"
    "all_seqable (u_test_cases ts) \<Longrightarrow> ranked (u_test_cases (snd (sequence_cases ts)))"
proof -
  have c: "u_test_cases (snd (sequence_cases ts)) = sequence_loop (u_test_cases ts)"
    by (simp add: sequence_cases_def u_test_obj_sequencer_def Let_def)
  show "fst (sequence_cases ts) = rc_ok \<longleftrightarrow> all_seqable (u_test_cases ts)"
    using sequence_loop_ok(1) [OF assms]
    by (simp add: sequence_cases_def u_test_obj_sequencer_def Let_def all_seqable_def)
  show "list_all2 same_obj (to_objs (u_test_cases (snd (sequence_cases ts)))) (to_objs (u_test_cases ts))"
    unfolding c by (rule sequence_loop_ok(2) [OF assms])
  show "all_seqable (u_test_cases ts) \<Longrightarrow> ranked (u_test_cases (snd (sequence_cases ts)))"
    unfolding c all_seqable_def by (rule sequence_loop_ok(3) [OF assms])
qed

lemma suites_sequenced:
  fixes t :: "'w u_test"
  assumes "registered (u_test_suites t)"
    "list_all (\<lambda>x. registered (u_test_cases (to_body x))) (to_objs (u_test_suites t))"
  defines "h \<equiv> sequence_loop (u_test_suites t)"
  shows "fst (u_test_sequencer t) = rc_ok \<longleftrightarrow>
      all_seqable (u_test_suites t) \<and> (\<forall>x \<in> set (to_objs h). all_seqable (u_test_cases (to_body x)))"
    "fst (u_test_sequencer t) = rc_ok \<Longrightarrow> u_test_suites (snd (u_test_sequencer t)) =
      h\<lparr> to_objs := map (\<lambda>x. x\<lparr> to_body := snd (sequence_cases (to_body x)) \<rparr>) (to_objs h) \<rparr>"
    "x \<in> set (to_objs h) \<Longrightarrow> registered (u_test_cases (to_body x))"
    "to_body ` set (to_objs h) = to_body ` set (to_objs (u_test_suites t))"
proof -
  note s = sequence_loop_ok [OF assms(1), folded h_def all_seqable_def]
  have bodies: "map to_body (to_objs h) = map to_body (to_objs (u_test_suites t))"
    using s(2) by (auto simp: list_all2_conv_all_nth same_obj_def intro: nth_equalityI)
  show bset: "to_body ` set (to_objs h) = to_body ` set (to_objs (u_test_suites t))" using bodies by (metis list.set_map)
  show reg: "registered (u_test_cases (to_body x))" if "x \<in> set (to_objs h)" for x
  proof -
    from that bset obtain y where "y \<in> set (to_objs (u_test_suites t))" "to_body x = to_body y" by (metis image_iff)
    then show ?thesis using assms(2) by (auto simp: list_all_iff)
  qed
  let ?ss = "sequence_subs sequence_cases (to_objs h)"
  have seq: "u_test_sequencer t = (if list_ex (\<lambda>x. \<not> to_sequenced x) (to_objs h) then (rc_fail, t\<lparr> u_test_suites := h \<rparr>)
      else (fst ?ss, t\<lparr> u_test_suites := h\<lparr> to_objs := snd ?ss \<rparr> \<rparr>))"
    by (simp add: u_test_sequencer_def u_test_obj_sequencer_def h_def Let_def split: prod.splits)
  have sub: "fst ?ss = rc_ok \<longleftrightarrow> (\<forall>x \<in> set (to_objs h). all_seqable (u_test_cases (to_body x)))"
    unfolding sequence_subs_ok(1) using cases_sequenced(1) [OF reg] by blast
  show "fst (u_test_sequencer t) = rc_ok \<longleftrightarrow>
      all_seqable (u_test_suites t) \<and> (\<forall>x \<in> set (to_objs h). all_seqable (u_test_cases (to_body x)))"
    using s(1) sub unfolding seq by auto
  show "u_test_suites (snd (u_test_sequencer t)) =
      h\<lparr> to_objs := map (\<lambda>x. x\<lparr> to_body := snd (sequence_cases (to_body x)) \<rparr>) (to_objs h) \<rparr>"
    if "fst (u_test_sequencer t) = rc_ok"
  proof -
    have "\<not> list_ex (\<lambda>x. \<not> to_sequenced x) (to_objs h)" "fst ?ss = rc_ok" using that unfolding seq by (auto split: if_splits)
    then show ?thesis using sequence_subs_ok(2) unfolding seq by fastforce
  qed
qed


text \<open>A test with one suite, in which the case \<open>b\<close> depends on the case \<open>a\<close>.\<close>

definition sample_case :: "string \<Rightarrow> string list \<Rightarrow> int \<Rightarrow> 'w u_test_case u_test_obj" where
  "sample_case i ds rc = \<lparr> to_id = i, to_status = U_TEST_SUCCESS, to_rank = 0, to_sequenced = False,
     to_deps = map (\<lambda>d. \<lparr> td_id = d, upref = None \<rparr>) ds,
     to_body = \<lparr> tc_func = Some (\<lambda>w. (rc, w)), tc_pid = U_TEST_CASE_PID_INITIALIZER \<rparr> \<rparr>"

definition sample_suite :: "string \<Rightarrow> 'w u_test_case u_test_obj list \<Rightarrow> 'w u_test_suite u_test_obj" where
  "sample_suite i cs = \<lparr> to_id = i, to_status = U_TEST_SUCCESS, to_rank = 0, to_sequenced = False, to_deps = [],
     to_body = \<lparr> u_test_cases = \<lparr> currank = 0, nchildren = 0, to_objs = cs \<rparr>, ts_syn = zero_syn \<rparr> \<rparr>"

definition sample_test :: "unit u_test" where
  "sample_test = \<lparr> t_id = ''t'', u_test_suites = \<lparr> currank = 0, nchildren = 0,
     to_objs = [sample_suite ''s'' [sample_case ''b'' [''a''] 0, sample_case ''a'' [] 0]] \<rparr>,
     t_sandboxed = False, t_max_parallel = 32, t_syn = zero_syn \<rparr>"

lemma sample_registers:
  "(case u_test_new True ''t'' of Some t \<Rightarrow>
    (case u_test_suite_new True (Some ''s'') of Some s \<Rightarrow>
      (case u_test_case_register True (Some ''a'') (Some (\<lambda>w. (0, w))) (to_body s) of (_, s1) \<Rightarrow>
      (case u_test_case_register True (Some ''b'') (Some (\<lambda>w. (0, w))) s1 of (_, s2) \<Rightarrow>
      (case u_test_case_depends_on True ''b'' ''a'' s2 of (_, s3) \<Rightarrow>
       snd (u_test_suite_add (Some (s\<lparr> to_body := s3 \<rparr>)) (t\<lparr> t_sandboxed := False \<rparr>)))))
     | None \<Rightarrow> t) | None \<Rightarrow> undefined) = sample_test"
  by (simp add: u_test_new_def u_test_suite_new_def u_test_obj_init_def u_test_case_register_def u_test_case_new_def
      u_test_case_add_def u_test_case_depends_on_def u_test_obj_depends_on_def u_test_obj_search_def u_test_dep_search_def
      u_test_dep_new_def u_test_obj_dep_add_def u_test_suite_add_def empty_objs_def sample_test_def sample_suite_def
      sample_case_def u_strlcpy_ok U_TEST_ID_MAX_def U_TEST_MAX_PARALLEL_def)

lemma sample_seqable:
  "registered (u_test_suites sample_test)"
  "list_all (\<lambda>x. registered (u_test_cases (to_body x))) (to_objs (u_test_suites sample_test))"
  "all_seqable (u_test_suites sample_test)"
  "x \<in> set (to_objs (u_test_suites sample_test)) \<Longrightarrow> all_seqable (u_test_cases (to_body x))"
proof -
  let ?s = "u_test_suites sample_test" and ?a = "sample_case ''a'' [] 0 :: unit u_test_case u_test_obj"
    and ?b = "sample_case ''b'' [''a''] 0 :: unit u_test_case u_test_obj"
  show "registered ?s" "list_all (\<lambda>x. registered (u_test_cases (to_body x))) (to_objs ?s)"
    by (simp_all add: sample_test_def sample_suite_def sample_case_def registered_def fresh_obj_def)
  have "seqable (to_objs ?s) 0" by (rule seqableI) (simp_all add: sample_test_def sample_suite_def)
  then show "all_seqable ?s" by (simp add: all_seqable_def sample_test_def)
  have a: "seqable [?b, ?a] 1" by (rule seqableI) (simp_all add: sample_case_def)
  have b: "seqable [?b, ?a] 0"
  proof (rule seqableI)
    show "distinct (map td_id (to_deps ([?b, ?a] ! 0)))" by (simp add: sample_case_def)
    fix d assume "d \<in> td_id ` set (to_deps ([?b, ?a] ! 0))"
    then have "d = ''a''" by (simp add: sample_case_def)
    then show "\<exists>j. j < length [?b, ?a] \<and> to_id ([?b, ?a] ! j) = d \<and> seqable [?b, ?a] j"
      using a by (intro exI [of _ 1]) (simp add: sample_case_def)
  qed simp
  show "all_seqable (u_test_cases (to_body x))" if "x \<in> set (to_objs ?s)"
    using that a b by (auto simp: all_seqable_def sample_test_def sample_suite_def less_Suc_eq)
qed


end
