(* ===== verification/Utest_Run.thy ===== *)
theory Utest_Run
  imports Utest
begin

text \<open>
  The scheduler of \<open>srcs/toolbox/test.c\<close>, which runs the objects of a list rank by rank and skips those
  with a failed dependency, in the simple form for suites and for cases that run in the process of
  the test, and in the form for cases that run in processes of their own, in chunks. Signals of the
  user do not arrive. The results of \<open>fork\<close> and \<open>wait\<close> are lists in the state of the run.
\<close>

section \<open>The state of a run\<close>

text \<open>What a call of \<open>wait\<close> returns: no child or an interruption, another error, or the fate of a child.\<close>

datatype wait_event = W_none | W_bad | W_exited int int | W_signaled int | W_stopped int

record 'w run_state =
  r_world :: 'w
  r_forks :: "int list"
  r_waits :: "wait_event list"

definition upd_obj :: "nat \<Rightarrow> ('b u_test_obj \<Rightarrow> 'b u_test_obj) \<Rightarrow> 'b test_objs \<Rightarrow> 'b test_objs" where
  "upd_obj i f h = h\<lparr> to_objs := (to_objs h)[i := f (to_objs h ! i)] \<rparr>"

definition u_test_dep_failed :: "'b u_test_obj list \<Rightarrow> u_test_dep list \<Rightarrow> bool" where
  "u_test_dep_failed xs h =
     list_ex (\<lambda>td. case upref td of None \<Rightarrow> False | Some j \<Rightarrow> to_status (xs ! j) \<noteq> U_TEST_SUCCESS) h"

section \<open>Test cases\<close>

definition u_test_case_exec ::
  "bool \<Rightarrow> 'w run_state \<Rightarrow> nat \<Rightarrow> 'w u_test_case test_objs \<Rightarrow> 'w run_state \<times> 'w u_test_case test_objs \<times> rc" where
  "u_test_case_exec sandboxed st i h =
     (case tc_func (to_body (to_objs h ! i)) of
        None \<Rightarrow> (st, h, rc_ok)
      | Some f \<Rightarrow>
        if \<not> sandboxed then
          (case f (r_world st) of (rc, w) \<Rightarrow>
            (st\<lparr> r_world := w \<rparr>, upd_obj i (\<lambda>x. x\<lparr> to_status := rc \<rparr>) h, rc_ok))
        else
          (case r_forks st of
             [] \<Rightarrow> (st, h, rc_fail)
           | p # ps \<Rightarrow>
             if p = - 1 then (st\<lparr> r_forks := ps \<rparr>, h, rc_fail)
             else (st\<lparr> r_forks := ps \<rparr>,
                   (upd_obj i (\<lambda>x. x\<lparr> to_body := (to_body x)\<lparr> tc_pid := p \<rparr> \<rparr>) h)\<lparr> nchildren := nchildren h + 1 \<rparr>, rc_ok)))"

definition u_test_case_scheduler ::
  "bool \<Rightarrow> 'w run_state \<Rightarrow> nat \<Rightarrow> 'w u_test_case test_objs \<Rightarrow> ('w run_state \<times> 'w u_test_case test_objs \<times> rc) outcome" where
  "u_test_case_scheduler sandboxed st i h = Inr (u_test_case_exec sandboxed st i h)"

fun pid_from :: "nat \<Rightarrow> 'w u_test_case u_test_obj list \<Rightarrow> int \<Rightarrow> nat option" where
  "pid_from n [] p = None"
| "pid_from n (x # xs) p = (if tc_pid (to_body x) = p then Some n else pid_from (Suc n) xs p)"

definition u_test_cases_search_by_pid :: "'w u_test_case test_objs \<Rightarrow> int \<Rightarrow> nat option" where
  "u_test_cases_search_by_pid h p = pid_from 0 (to_objs h) p"

text \<open>The end of a child: its case gets the status, and the child is counted off.\<close>

definition child_done :: "nat \<Rightarrow> int \<Rightarrow> 'w u_test_case test_objs \<Rightarrow> 'w u_test_case test_objs" where
  "child_done i status h =
     (upd_obj i (\<lambda>x. x\<lparr> to_status := status, to_body := (to_body x)\<lparr> tc_pid := U_TEST_CASE_PID_INITIALIZER \<rparr> \<rparr>) h)
       \<lparr> nchildren := nchildren h - 1 \<rparr>"

text \<open>The loop of the reaper, over the events that are left; it ends with whether the wait was fatal.\<close>

fun reap_loop :: "wait_event list \<Rightarrow> 'w u_test_case test_objs \<Rightarrow> bool \<times> wait_event list \<times> 'w u_test_case test_objs" where
  "reap_loop [] h = (True, [], h)"
| "reap_loop (e # es) h =
     (if nchildren h = 0 then (True, e # es, h)
      else
        (case e of
           W_none \<Rightarrow> (True, es, h)
         | W_bad \<Rightarrow> (False, es, h)
         | W_stopped p \<Rightarrow> reap_loop es h
         | W_exited p status \<Rightarrow>
             (case u_test_cases_search_by_pid h p of None \<Rightarrow> reap_loop es h | Some i \<Rightarrow> reap_loop es (child_done i status h))
         | W_signaled p \<Rightarrow>
             (case u_test_cases_search_by_pid h p of None \<Rightarrow> reap_loop es h
              | Some i \<Rightarrow> reap_loop es (child_done i U_TEST_ABORTED h))))"

definition u_test_cases_reap ::
  "'w run_state \<Rightarrow> 'w u_test_case test_objs \<Rightarrow> 'w run_state \<times> 'w u_test_case test_objs \<times> rc" where
  "u_test_cases_reap st h =
     (case reap_loop (r_waits st) h of (fine, es, h1) \<Rightarrow>
       (st\<lparr> r_waits := es \<rparr>, h1, if fine \<and> nchildren h1 = 0 then rc_ok else rc_fail))"

section \<open>The scheduler of a list\<close>

text \<open>
  The simple form: the positions of the list for one rank; \<open>sched\<close> runs an object, \<open>skip\<close> changes the
  contents of one that is skipped.
\<close>

definition skip_obj :: "('b \<Rightarrow> 'b) \<Rightarrow> 'b u_test_obj \<Rightarrow> 'b u_test_obj" where
  "skip_obj skip x = x\<lparr> to_status := U_TEST_SKIPPED, to_body := skip (to_body x) \<rparr>"

fun simple_pass ::
  "('s \<Rightarrow> nat \<Rightarrow> 'b test_objs \<Rightarrow> ('s \<times> 'b test_objs \<times> rc) outcome) \<Rightarrow> ('b \<Rightarrow> 'b) \<Rightarrow> nat
   \<Rightarrow> nat list \<Rightarrow> 's \<Rightarrow> 'b test_objs \<Rightarrow> ('s \<times> 'b test_objs) outcome" where
  "simple_pass sched skip r [] st h = Inr (st, h)"
| "simple_pass sched skip r (i # is) st h =
     (if to_rank (to_objs h ! i) = r then
        (if u_test_dep_failed (to_objs h) (to_deps (to_objs h ! i))
         then simple_pass sched skip r is st (upd_obj i (skip_obj skip) h)
         else obind (sched st i h) (\<lambda>(st1, h1, _). simple_pass sched skip r is st1 h1))
      else simple_pass sched skip r is st h)"

fun simple_ranks ::
  "('s \<Rightarrow> nat \<Rightarrow> 'b test_objs \<Rightarrow> ('s \<times> 'b test_objs \<times> rc) outcome) \<Rightarrow> ('b \<Rightarrow> 'b)
   \<Rightarrow> nat list \<Rightarrow> 's \<Rightarrow> 'b test_objs \<Rightarrow> ('s \<times> 'b test_objs) outcome" where
  "simple_ranks sched skip [] st h = Inr (st, h)"
| "simple_ranks sched skip (r # rs) st h =
     obind (simple_pass sched skip r [0..<length (to_objs h)] st h) (\<lambda>(st1, h1). simple_ranks sched skip rs st1 h1)"

text \<open>
  The form with processes. A scan starts at some position, runs the cases of the rank, and stops
  where the number of parallel cases is reached; \<open>tptr\<close> is where to start again, and is reset by every
  position that is passed, but not by one that is skipped.
\<close>

fun sandbox_scan ::
  "nat \<Rightarrow> nat \<Rightarrow> nat list \<Rightarrow> nat option \<Rightarrow> nat \<Rightarrow> 'w run_state \<Rightarrow> 'w u_test_case test_objs
   \<Rightarrow> nat option \<times> nat \<times> 'w run_state \<times> 'w u_test_case test_objs" where
  "sandbox_scan r maxp [] tptr parallel st h = (tptr, parallel, st, h)"
| "sandbox_scan r maxp (i # is) tptr parallel st h =
     (if to_rank (to_objs h ! i) = r then
        (if u_test_dep_failed (to_objs h) (to_deps (to_objs h ! i))
         then sandbox_scan r maxp is tptr parallel st (upd_obj i (skip_obj id) h)
         else
           (case u_test_case_exec True st i h of (st1, h1, _) \<Rightarrow>
             (let par = (parallel + 1) mod 2 ^ 32
              in if par = maxp then ((case is of [] \<Rightarrow> None | j # _ \<Rightarrow> Some j), par, st1, h1)
                 else sandbox_scan r maxp is None par st1 h1)))
      else sandbox_scan r maxp is None parallel st h)"

fun sandbox_chunks ::
  "nat \<Rightarrow> nat \<Rightarrow> nat \<Rightarrow> nat \<Rightarrow> nat \<Rightarrow> 'w run_state \<Rightarrow> 'w u_test_case test_objs
   \<Rightarrow> (rc \<times> nat \<times> 'w run_state \<times> 'w u_test_case test_objs) outcome" where
  "sandbox_chunks 0 r maxp start parallel st h = Inl Out_of_fuel"
| "sandbox_chunks (Suc n) r maxp start parallel st h =
     (case sandbox_scan r maxp [start..<length (to_objs h)] (Some start) parallel st h of (tptr, par, st1, h1) \<Rightarrow>
      (case u_test_cases_reap st1 h1 of (st2, h2, rc) \<Rightarrow>
        if rc \<noteq> rc_ok then Inr (rc_fail, par, st2, h2)
        else (case tptr of Some i \<Rightarrow> sandbox_chunks n r maxp i 0 st2 h2 | None \<Rightarrow> Inr (rc_ok, par, st2, h2))))"

fun sandbox_ranks ::
  "nat \<Rightarrow> nat \<Rightarrow> nat list \<Rightarrow> nat \<Rightarrow> 'w run_state \<Rightarrow> 'w u_test_case test_objs
   \<Rightarrow> ('w run_state \<times> 'w u_test_case test_objs \<times> rc) outcome" where
  "sandbox_ranks fuel maxp [] parallel st h = Inr (st, h, rc_ok)"
| "sandbox_ranks fuel maxp (r # rs) parallel st h =
     obind (sandbox_chunks fuel r maxp 0 parallel st h) (\<lambda>(rc, par, st1, h1).
       if rc \<noteq> rc_ok then Inr (st1, h1, rc_fail) else sandbox_ranks fuel maxp rs par st1 h1)"

definition cases_obj_scheduler ::
  "nat \<Rightarrow> bool \<Rightarrow> nat \<Rightarrow> 'w run_state \<Rightarrow> 'w u_test_case test_objs \<Rightarrow> ('w run_state \<times> 'w u_test_case test_objs \<times> rc) outcome" where
  "cases_obj_scheduler fuel sandboxed maxp st h =
     (if to_objs h = [] then Inr (st, h, rc_ok)
      else
        (let h1 = h\<lparr> nchildren := 0 \<rparr>; ranks = [0..<Suc (currank h)]
         in if sandboxed then sandbox_ranks fuel maxp ranks 0 st h1
            else obind (simple_ranks (u_test_case_scheduler False) id ranks st h1) (\<lambda>(st2, h2). Inr (st2, h2, rc_ok))))"

section \<open>Suites and the whole test\<close>

definition syn_count :: "u_test_syn \<Rightarrow> int \<Rightarrow> u_test_syn" where
  "syn_count syn status =
     (let s1 = syn\<lparr> syn_total := syn_total syn + 1 \<rparr> in
      if status = U_TEST_SUCCESS then s1\<lparr> syn_pass := syn_pass s1 + 1 \<rparr>
      else if status = U_TEST_FAILURE then s1\<lparr> syn_fail := syn_fail s1 + 1 \<rparr>
      else if status = U_TEST_ABORTED then s1\<lparr> syn_abrt := syn_abrt s1 + 1 \<rparr>
      else if status = U_TEST_SKIPPED then s1\<lparr> syn_skip := syn_skip s1 + 1 \<rparr>
      else s1)"

definition u_test_syn_update :: "u_test_syn \<Rightarrow> 'b u_test_obj list \<Rightarrow> u_test_syn" where
  "u_test_syn_update syn xs = foldl (\<lambda>s x. syn_count s (to_status x)) syn xs"

definition u_test_suite_update_all_status :: "int \<Rightarrow> 'w u_test_suite \<Rightarrow> 'w u_test_suite" where
  "u_test_suite_update_all_status status ts =
     ts\<lparr> u_test_cases := (u_test_cases ts)\<lparr> to_objs := map (\<lambda>x. x\<lparr> to_status := status \<rparr>) (to_objs (u_test_cases ts)) \<rparr> \<rparr>"

definition suite_result :: "'w u_test_suite u_test_obj \<Rightarrow> 'w u_test_case test_objs \<Rightarrow> 'w u_test_suite u_test_obj" where
  "suite_result x h =
     x\<lparr> to_status := (if list_ex (\<lambda>c. to_status c \<noteq> U_TEST_SUCCESS) (to_objs h) then U_TEST_FAILURE else to_status x),
       to_body := (to_body x)\<lparr> u_test_cases := h, ts_syn := u_test_syn_update (ts_syn (to_body x)) (to_objs h) \<rparr> \<rparr>"

definition u_test_suite_scheduler ::
  "nat \<Rightarrow> bool \<Rightarrow> nat \<Rightarrow> 'w run_state \<Rightarrow> nat \<Rightarrow> 'w u_test_suite test_objs
   \<Rightarrow> ('w run_state \<times> 'w u_test_suite test_objs \<times> rc) outcome" where
  "u_test_suite_scheduler fuel sandboxed maxp st i h =
     obind (cases_obj_scheduler fuel sandboxed maxp st (u_test_cases (to_body (to_objs h ! i)))) (\<lambda>(st1, h1, rc).
       Inr (st1, upd_obj i (\<lambda>x. suite_result x h1) h, rc))"

definition u_test_scheduler :: "nat \<Rightarrow> 'w run_state \<Rightarrow> 'w u_test \<Rightarrow> ('w run_state \<times> 'w u_test \<times> rc) outcome" where
  "u_test_scheduler fuel st t =
     (let h = u_test_suites t in
      if to_objs h = [] then Inr (st, t, rc_ok)
      else
        obind (simple_ranks (u_test_suite_scheduler fuel (t_sandboxed t) (t_max_parallel t))
                 (u_test_suite_update_all_status U_TEST_SKIPPED) [0..<Suc (currank h)] st (h\<lparr> nchildren := 0 \<rparr>))
          (\<lambda>(st1, h1). Inr (st1, t\<lparr> u_test_suites := h1, t_syn := u_test_syn_update (t_syn t) (to_objs h1) \<rparr>, rc_ok)))"

text \<open>The options of the command line, as \<open>getopt\<close> gives them; \<open>None\<close> is the exit with the usage.\<close>

datatype test_opt = Opt_o string | Opt_f string | Opt_v | Opt_d | Opt_p string | Opt_s | Opt_h

definition u_test_set_outfmt :: "string \<Rightarrow> rc" where
  "u_test_set_outfmt fmt =
     (if map tolower fmt = ''txt'' then rc_ok else if map tolower fmt = ''xml'' then rc_ok else rc_fail)"

fun u_test_getopt :: "errno_val \<Rightarrow> test_opt list \<Rightarrow> 'w u_test \<Rightarrow> 'w u_test option" where
  "u_test_getopt errno [] t = Some t"
| "u_test_getopt errno (c # cs) t =
     (case c of
        Opt_o f \<Rightarrow> u_test_getopt errno cs t
      | Opt_f fmt \<Rightarrow> if u_test_set_outfmt fmt \<noteq> rc_ok then None else u_test_getopt errno cs t
      | Opt_v \<Rightarrow> u_test_getopt errno cs t
      | Opt_d \<Rightarrow> u_test_getopt errno cs t
      | Opt_p n \<Rightarrow>
          (case u_atoi errno (Some n) of None \<Rightarrow> None
           | Some mp \<Rightarrow> if mp < 0 then None else u_test_getopt errno cs (t\<lparr> t_max_parallel := nat mp \<rparr>))
      | Opt_s \<Rightarrow> u_test_getopt errno cs (t\<lparr> t_sandboxed := False \<rparr>)
      | Opt_h \<Rightarrow> None)"

text \<open>The run of a test: its return code says whether all suites passed. \<open>report\<close> is whether the report could be written.\<close>

definition u_test_run ::
  "nat \<Rightarrow> errno_val \<Rightarrow> test_opt list \<Rightarrow> ('w u_test \<Rightarrow> bool) \<Rightarrow> 'w run_state \<Rightarrow> 'w u_test \<Rightarrow> (rc \<times> 'w u_test) option outcome" where
  "u_test_run fuel errno opts report st t =
     (case u_test_getopt errno opts t of None \<Rightarrow> Inr None
      | Some t1 \<Rightarrow>
        (case u_test_sequencer t1 of (rc, t2) \<Rightarrow>
          if rc \<noteq> rc_ok then Inr (Some (rc_fail, t2))
          else
            obind (u_test_scheduler fuel st t2) (\<lambda>(st3, t3, rc3).
              if rc3 \<noteq> rc_ok then Inr (Some (rc_fail, t3))
              else if \<not> report t3 then Inr (Some (rc_fail, t3))
              else Inr (Some (if syn_total (t_syn t3) = syn_pass (t_syn t3) then rc_ok else rc_fail, t3)))))"

definition u_test_status_str :: "int \<Rightarrow> string" where
  "u_test_status_str status =
     (if status = U_TEST_SUCCESS then ''PASS'' else if status = U_TEST_FAILURE then ''FAIL''
      else if status = U_TEST_ABORTED then ''ABRT'' else if status = U_TEST_SKIPPED then ''SKIP'' else ''?'')"

section \<open>The order of a run\<close>

text \<open>The positions of a list, rank by rank; and a run of the objects in a given order.\<close>

definition run_order :: "'b test_objs \<Rightarrow> nat list" where
  "run_order h = concat (map (\<lambda>r. filter (\<lambda>i. to_rank (to_objs h ! i) = r) [0..<length (to_objs h)]) [0..<Suc (currank h)])"

fun run_all ::
  "('s \<Rightarrow> nat \<Rightarrow> 'b test_objs \<Rightarrow> ('s \<times> 'b test_objs \<times> rc) outcome) \<Rightarrow> ('b \<Rightarrow> 'b)
   \<Rightarrow> nat list \<Rightarrow> 's \<Rightarrow> 'b test_objs \<Rightarrow> ('s \<times> 'b test_objs) outcome" where
  "run_all sched skip [] st h = Inr (st, h)"
| "run_all sched skip (i # is) st h =
     (if u_test_dep_failed (to_objs h) (to_deps (to_objs h ! i)) then run_all sched skip is st (upd_obj i (skip_obj skip) h)
      else obind (sched st i h) (\<lambda>(st1, h1, _). run_all sched skip is st1 h1))"

definition same_shape :: "'b u_test_obj \<Rightarrow> 'b u_test_obj \<Rightarrow> bool" where
  "same_shape x y = (to_id x = to_id y \<and> to_rank x = to_rank y \<and> to_deps x = to_deps y)"

definition same_shapes :: "'b test_objs \<Rightarrow> 'b test_objs \<Rightarrow> bool" where
  "same_shapes h h' = (list_all2 same_shape (to_objs h) (to_objs h') \<and> currank h = currank h')"

lemma same_shapes_refl: "same_shapes h h"
  by (simp add: same_shapes_def same_shape_def list_all2_conv_all_nth)

lemma same_shapes_trans: "same_shapes a b \<Longrightarrow> same_shapes b c \<Longrightarrow> same_shapes a c"
  by (auto simp: same_shapes_def same_shape_def list_all2_conv_all_nth)

lemma same_shapes_nth:
  "same_shapes a b \<Longrightarrow> length (to_objs a) = length (to_objs b)"
  "same_shapes a b \<Longrightarrow> i < length (to_objs a) \<Longrightarrow> to_rank (to_objs b ! i) = to_rank (to_objs a ! i)"
  "same_shapes a b \<Longrightarrow> i < length (to_objs a) \<Longrightarrow> to_deps (to_objs b ! i) = to_deps (to_objs a ! i)"
  by (auto simp: same_shapes_def same_shape_def list_all2_conv_all_nth)

lemma same_shapes_update:
  "same_shape (to_objs h ! i) x \<Longrightarrow> same_shapes h (h\<lparr> to_objs := (to_objs h)[i := x] \<rparr>)"
  by (cases "i < length (to_objs h)")
    (auto simp: same_shapes_def list_all2_conv_all_nth nth_list_update same_shape_def)

text \<open>In a ranked list the order takes every position once, and none before its dependencies.\<close>

fun deps_first :: "'b test_objs \<Rightarrow> nat list \<Rightarrow> bool" where
  "deps_first h [] = True"
| "deps_first h (i # is) =
     ((\<forall>td \<in> set (to_deps (to_objs h ! i)). case upref td of None \<Rightarrow> True
        | Some j \<Rightarrow> j < length (to_objs h) \<and> j \<notin> set (i # is)) \<and> deps_first h is)"

lemma ranks_sorted: "sorted (map f (concat (map (\<lambda>r. filter (\<lambda>i. f i = r) xs) [a..<b])))"
proof (induction b)
  case (Suc b)
  show ?case
  proof (cases "a \<le> b")
    case True
    have "f i < b" if "i \<in> set (concat (map (\<lambda>r. filter (\<lambda>i. f i = r) xs) [a..<b]))" for i using that by auto
    moreover have "sorted (map f (filter (\<lambda>i. f i = b) xs))" by (induction xs) auto
    ultimately show ?thesis using Suc True by (auto simp: sorted_append less_imp_le)
  qed simp
qed simp

lemma ranks_distinct: "distinct xs \<Longrightarrow> distinct (concat (map (\<lambda>r. filter (\<lambda>i. f i = r) xs) [a..<b]))"
  by (induction b) auto

lemma sorted_deps_first:
  assumes "sorted (map (\<lambda>i. to_rank (to_objs h ! i)) is)" "ranked h" "set is \<subseteq> {..<length (to_objs h)}"
  shows "deps_first h is"
  using assms(1,3)
proof (induction "is")
  case (Cons i "is")
  have "j < length (to_objs h) \<and> j \<notin> set (i # is)" if "td \<in> set (to_deps (to_objs h ! i))" "upref td = Some j" for td j
  proof -
    have "to_rank (to_objs h ! j) < to_rank (to_objs h ! i)" "j < length (to_objs h)"
      using assms(2) Cons.prems(2) that by (fastforce simp: ranked_def)+
    then show ?thesis using Cons.prems(1) by fastforce
  qed
  then show ?case using Cons by (auto split: option.splits)
qed simp

lemma run_order_ok:
  assumes "ranked h"
  shows "distinct (run_order h)" "set (run_order h) = {..<length (to_objs h)}" "deps_first h (run_order h)"
proof -
  show s: "set (run_order h) = {..<length (to_objs h)}"
    using assms by (auto simp: run_order_def ranked_def less_Suc_eq_le)
  show "distinct (run_order h)" unfolding run_order_def by (rule ranks_distinct) simp
  show "deps_first h (run_order h)"
    using sorted_deps_first [OF _ assms] ranks_sorted s unfolding run_order_def by blast
qed

lemma deps_first_shapes: "same_shapes h h' \<Longrightarrow> set is \<subseteq> {..<length (to_objs h)} \<Longrightarrow> deps_first h' is = deps_first h is"
proof (induction "is")
  case (Cons i "is")
  then show ?case using same_shapes_nth(1) [of h h'] same_shapes_nth(3) [of h h' i] by (simp cong: option.case_cong)
qed simp

section \<open>A level of the test\<close>

text \<open>The outcome of a list: each object was skipped for a failed dependency, or run.\<close>

definition outcome_ok ::
  "('b \<Rightarrow> 'b) \<Rightarrow> ('b u_test_obj \<Rightarrow> 'b u_test_obj \<Rightarrow> bool) \<Rightarrow> 'b test_objs \<Rightarrow> 'b test_objs \<Rightarrow> nat \<Rightarrow> bool" where
  "outcome_ok skip good h h' i =
     (if u_test_dep_failed (to_objs h') (to_deps (to_objs h' ! i)) then to_objs h' ! i = skip_obj skip (to_objs h ! i)
      else good (to_objs h ! i) (to_objs h' ! i))"

text \<open>
  What suites and cases have in common: running an object changes this object alone, and neither its
  name, rank nor dependencies; \<open>good\<close> relates an object before and after it was run.
\<close>

locale test_level =
  fixes fit :: "'b \<Rightarrow> bool"
    and sched :: "'s \<Rightarrow> nat \<Rightarrow> 'b test_objs \<Rightarrow> ('s \<times> 'b test_objs \<times> rc) outcome"
    and skip :: "'b \<Rightarrow> 'b"
    and good :: "'b u_test_obj \<Rightarrow> 'b u_test_obj \<Rightarrow> bool"
  assumes sched_law: "i < length (to_objs h) \<Longrightarrow> fit (to_body (to_objs h ! i)) \<Longrightarrow>
    \<exists>st' x rc. sched st i h = Inr (st', h\<lparr> to_objs := (to_objs h)[i := x] \<rparr>, rc)
      \<and> same_shape (to_objs h ! i) x \<and> good (to_objs h ! i) x"
begin

lemma visit:
  assumes "i < length (to_objs h)" "fit (to_body (to_objs h ! i))"
  shows "\<exists>st1 x. run_all sched skip (i # is) st h = run_all sched skip is st1 (h\<lparr> to_objs := (to_objs h)[i := x] \<rparr>)
    \<and> same_shape (to_objs h ! i) x
    \<and> (if u_test_dep_failed (to_objs h) (to_deps (to_objs h ! i)) then x = skip_obj skip (to_objs h ! i) else good (to_objs h ! i) x)"
proof (cases "u_test_dep_failed (to_objs h) (to_deps (to_objs h ! i))")
  case True
  then show ?thesis
    by (intro exI [of _ st] exI [of _ "skip_obj skip (to_objs h ! i)"]) (simp add: upd_obj_def same_shape_def skip_obj_def)
next
  case False
  then show ?thesis using sched_law [OF assms, of st] by fastforce
qed

lemma run_all_ok:
  assumes "distinct is" "set is \<subseteq> {..<length (to_objs h)}" "deps_first h is"
    "\<forall>i \<in> set is. fit (to_body (to_objs h ! i))"
  shows "\<exists>st' h'. run_all sched skip is st h = Inr (st', h') \<and> same_shapes h h' \<and> nchildren h' = nchildren h
    \<and> (\<forall>j < length (to_objs h). j \<notin> set is \<longrightarrow> to_objs h' ! j = to_objs h ! j)
    \<and> (\<forall>i \<in> set is. outcome_ok skip good h h' i)"
  using assms
proof (induction "is" arbitrary: st h)
  case Nil
  then show ?case by (simp add: same_shapes_refl)
next
  case (Cons i "is")
  have i: "i < length (to_objs h)" "fit (to_body (to_objs h ! i))" "i \<notin> set is" using Cons.prems by auto
  obtain st1 x where v: "run_all sched skip (i # is) st h = run_all sched skip is st1 (h\<lparr> to_objs := (to_objs h)[i := x] \<rparr>)"
      "same_shape (to_objs h ! i) x"
      "if u_test_dep_failed (to_objs h) (to_deps (to_objs h ! i)) then x = skip_obj skip (to_objs h ! i) else good (to_objs h ! i) x"
    using visit [OF i(1,2)] by blast
  let ?h = "h\<lparr> to_objs := (to_objs h)[i := x] \<rparr>"
  have sh: "same_shapes h ?h" using v(2) by (rule same_shapes_update)
  have oth: "to_objs ?h ! j = to_objs h ! j" if "j \<noteq> i" for j using that by simp
  have "deps_first ?h is" using deps_first_shapes [OF sh, of "is"] Cons.prems(2,3) by simp
  moreover have "\<forall>j \<in> set is. fit (to_body (to_objs ?h ! j))" using Cons.prems(4) i(3) oth by (metis list.set_intros(2))
  ultimately obtain st' h' where r: "run_all sched skip is st1 ?h = Inr (st', h')" "same_shapes ?h h'" "nchildren h' = nchildren ?h"
      "\<forall>j < length (to_objs ?h). j \<notin> set is \<longrightarrow> to_objs h' ! j = to_objs ?h ! j"
      "\<forall>j \<in> set is. outcome_ok skip good ?h h' j"
    using Cons.IH [of ?h st1] Cons.prems(1,2) by auto
  have hi: "to_objs h' ! i = x" using r(4) i by simp
  have deps_eq: "to_deps (to_objs h' ! i) = to_deps (to_objs h ! i)" using v(2) hi by (simp add: same_shape_def)
  have "to_objs h' ! j = to_objs h ! j" if "td \<in> set (to_deps (to_objs h ! i))" "upref td = Some j" for td j
  proof -
    have "j < length (to_objs h)" "j \<notin> set (i # is)" using Cons.prems(3) that by fastforce+
    then show ?thesis using r(4) by auto
  qed
  then have "u_test_dep_failed (to_objs h') (to_deps (to_objs h ! i)) = u_test_dep_failed (to_objs h) (to_deps (to_objs h ! i))"
    unfolding u_test_dep_failed_def by (intro list_ex_cong) (auto split: option.splits)
  then have oi: "outcome_ok skip good h h' i" using v(3) hi deps_eq by (simp add: outcome_ok_def)
  have "outcome_ok skip good h h' j" if "j \<in> set is" for j
  proof -
    have "j \<noteq> i" using that i(3) by auto
    then show ?thesis using bspec [OF r(5) that] oth [of j] unfolding outcome_ok_def by (simp split: if_split_asm)
  qed
  with oi v(1) r same_shapes_trans [OF sh r(2)] show ?case by auto
qed

text \<open>The passes of the simple scheduler, rank by rank, are a run in the order of ranks.\<close>

lemma sched_shape:
  assumes "i < length (to_objs h)" "fit (to_body (to_objs h ! i))" "sched st i h = Inr (st1, h1, rc)"
  shows "same_shapes h h1" "nchildren h1 = nchildren h" "\<forall>j. j \<noteq> i \<longrightarrow> to_objs h1 ! j = to_objs h ! j"
  using sched_law [OF assms(1,2), of st] assms(3) same_shapes_update by fastforce+

lemma pass_eq:
  assumes "set is \<subseteq> {..<length (to_objs h)}" "distinct is" "\<forall>i \<in> set is. to_rank (to_objs h ! i) = r \<longrightarrow> fit (to_body (to_objs h ! i))"
  shows "simple_pass sched skip r is st h = run_all sched skip (filter (\<lambda>i. to_rank (to_objs h ! i) = r) is) st h"
  using assms
proof (induction "is" arbitrary: st h)
  case (Cons i "is")
  have i: "i < length (to_objs h)" "i \<notin> set is" using Cons.prems by auto
  have step: "simple_pass sched skip r is st1 h1 = run_all sched skip (filter (\<lambda>i. to_rank (to_objs h ! i) = r) is) st1 h1"
    if "same_shapes h h1" "\<forall>j. j \<noteq> i \<longrightarrow> to_objs h1 ! j = to_objs h ! j" for st1 h1
  proof -
    have "to_objs h1 ! j = to_objs h ! j" if "j \<in> set is" for j using that i(2) \<open>\<forall>j. j \<noteq> i \<longrightarrow> _ j\<close> by metis
    moreover from this have "filter (\<lambda>i. to_rank (to_objs h1 ! i) = r) is = filter (\<lambda>i. to_rank (to_objs h ! i) = r) is"
      by (intro filter_cong) auto
    ultimately show ?thesis using Cons.IH [of h1 st1] Cons.prems same_shapes_nth(1) [OF that(1)] by simp
  qed
  have sk: "same_shapes h (upd_obj i (skip_obj skip) h)"
    unfolding upd_obj_def by (rule same_shapes_update) (simp add: same_shape_def skip_obj_def)
  have sk2: "\<forall>j. j \<noteq> i \<longrightarrow> to_objs (upd_obj i (skip_obj skip) h) ! j = to_objs h ! j" by (simp add: upd_obj_def)
  show ?case
  proof (cases "to_rank (to_objs h ! i) = r \<and> \<not> u_test_dep_failed (to_objs h) (to_deps (to_objs h ! i))")
    case True
    then have f: "fit (to_body (to_objs h ! i))" using Cons.prems(3) by simp
    obtain st1 h1 rc where s: "sched st i h = Inr (st1, h1, rc)" using sched_law [OF i(1) f, of st] by blast
    from sched_shape [OF i(1) f s] show ?thesis using True s step [of h1 st1] by simp
  next
    case False
    then show ?thesis using step [OF sk sk2, of st] step [OF same_shapes_refl, of st] by auto
  qed
qed simp

lemma run_all_append:
  "run_all sched skip (xs @ ys) st h = obind (run_all sched skip xs st h) (\<lambda>(st1, h1). run_all sched skip ys st1 h1)"
proof (induction xs arbitrary: st h)
  case (Cons i xs)
  show ?case
  proof (cases "sched st i h")
    case (Inr p)
    then show ?thesis using Cons by (cases p) simp
  qed (use Cons in simp)
qed simp

lemma run_all_frame:
  assumes "distinct is" "set is \<subseteq> {..<length (to_objs h)}" "\<forall>i \<in> set is. fit (to_body (to_objs h ! i))"
  shows "\<exists>st' h'. run_all sched skip is st h = Inr (st', h') \<and> same_shapes h h' \<and> nchildren h' = nchildren h
    \<and> (\<forall>j. j \<notin> set is \<longrightarrow> to_objs h' ! j = to_objs h ! j)"
  using assms
proof (induction "is" arbitrary: st h)
  case Nil
  then show ?case by (simp add: same_shapes_refl)
next
  case (Cons i "is")
  have i: "i < length (to_objs h)" "fit (to_body (to_objs h ! i))" "i \<notin> set is" using Cons.prems by auto
  obtain st1 x where v: "run_all sched skip (i # is) st h = run_all sched skip is st1 (h\<lparr> to_objs := (to_objs h)[i := x] \<rparr>)"
      "same_shape (to_objs h ! i) x"
    using visit [OF i(1,2)] by blast
  let ?h = "h\<lparr> to_objs := (to_objs h)[i := x] \<rparr>"
  have oth: "to_objs ?h ! j = to_objs h ! j" if "j \<noteq> i" for j using that by simp
  have "\<forall>j \<in> set is. fit (to_body (to_objs ?h ! j))" using Cons.prems(3) i(3) oth by (metis list.set_intros(2))
  then obtain st' h' where r: "run_all sched skip is st1 ?h = Inr (st', h')" "same_shapes ?h h'" "nchildren h' = nchildren ?h"
      "\<forall>j. j \<notin> set is \<longrightarrow> to_objs h' ! j = to_objs ?h ! j"
    using Cons.IH [of ?h st1] Cons.prems(1,2) by auto
  then show ?case using v(1) same_shapes_trans [OF same_shapes_update [OF v(2)] r(2)] oth by auto
qed

lemma ranks_eq:
  assumes "distinct rs" "\<forall>i < length (to_objs h). to_rank (to_objs h ! i) \<in> set rs \<longrightarrow> fit (to_body (to_objs h ! i))"
  shows "simple_ranks sched skip rs st h
    = run_all sched skip (concat (map (\<lambda>r. filter (\<lambda>i. to_rank (to_objs h ! i) = r) [0..<length (to_objs h)]) rs)) st h"
  using assms
proof (induction rs arbitrary: st h)
  case (Cons r rs)
  let ?is = "filter (\<lambda>i. to_rank (to_objs h ! i) = r) [0..<length (to_objs h)]"
  have p: "simple_pass sched skip r [0..<length (to_objs h)] st h = run_all sched skip ?is st h"
    using Cons.prems(2) by (intro pass_eq) auto
  obtain st1 h1 where r: "run_all sched skip ?is st h = Inr (st1, h1)" "same_shapes h h1"
      "\<forall>j. j \<notin> set ?is \<longrightarrow> to_objs h1 ! j = to_objs h ! j"
    using run_all_frame [of ?is h st] Cons.prems(2) by auto
  note sh = same_shapes_nth [OF r(2)]
  have "to_objs h1 ! i = to_objs h ! i" if "i < length (to_objs h)" "to_rank (to_objs h ! i) \<in> set rs" for i
    using r(3) that Cons.prems(1) by auto
  then have "\<forall>i < length (to_objs h1). to_rank (to_objs h1 ! i) \<in> set rs \<longrightarrow> fit (to_body (to_objs h1 ! i))"
    using Cons.prems(2) sh(1,2) by auto
  from Cons.IH [OF _ this, of st1] Cons.prems(1)
  have "simple_ranks sched skip rs st1 h1 = run_all sched skip
      (concat (map (\<lambda>r. filter (\<lambda>i. to_rank (to_objs h1 ! i) = r) [0..<length (to_objs h1)]) rs)) st1 h1" by simp
  moreover have "filter (\<lambda>i. to_rank (to_objs h1 ! i) = q) [0..<length (to_objs h1)]
      = filter (\<lambda>i. to_rank (to_objs h ! i) = q) [0..<length (to_objs h)]" for q
    unfolding sh(1) [symmetric] using sh(2) by (intro filter_cong) auto
  ultimately show ?case using p r(1) by (simp add: run_all_append)
qed simp

lemma level_ok:
  assumes "ranked h" "\<forall>i < length (to_objs h). fit (to_body (to_objs h ! i))"
  shows "\<exists>st' h'. simple_ranks sched skip [0..<Suc (currank h)] st h = Inr (st', h')
    \<and> run_all sched skip (run_order h) st h = Inr (st', h') \<and> same_shapes h h'
    \<and> (\<forall>i < length (to_objs h). outcome_ok skip good h h' i)"
proof -
  note o = run_order_ok [OF assms(1)]
  have "simple_ranks sched skip [0..<Suc (currank h)] st h = run_all sched skip (run_order h) st h"
    unfolding run_order_def using ranks_eq [of "[0..<Suc (currank h)]" h st] assms(2) by simp
  then show ?thesis using run_all_ok [OF o(1) _ o(3), of st] o(2) assms(2) by auto
qed

end

section \<open>Cases and suites as levels\<close>

definition case_run :: "'w u_test_case u_test_obj \<Rightarrow> 'w u_test_case u_test_obj \<Rightarrow> bool" where
  "case_run x y =
     (case tc_func (to_body x) of None \<Rightarrow> y = x | Some f \<Rightarrow> \<exists>w. y = x\<lparr> to_status := fst (f w) \<rparr>)"

interpretation cases: test_level "\<lambda>_. True" "u_test_case_scheduler False" id case_run
proof
  fix i and h :: "'w u_test_case test_objs" and st :: "'w run_state"
  assume "i < length (to_objs h)"
  have "h\<lparr> to_objs := (to_objs h)[i := to_objs h ! i] \<rparr> = h" by simp
  then show "\<exists>st' x rc. u_test_case_scheduler False st i h = Inr (st', h\<lparr> to_objs := (to_objs h)[i := x] \<rparr>, rc)
      \<and> same_shape (to_objs h ! i) x \<and> case_run (to_objs h ! i) x"
  proof (cases "tc_func (to_body (to_objs h ! i))")
    case None
    then show ?thesis
      by (intro exI [of _ st] exI [of _ "to_objs h ! i"])
        (simp add: u_test_case_scheduler_def u_test_case_exec_def same_shape_def case_run_def)
  next
    case (Some f)
    obtain rc w where f: "f (r_world st) = (rc, w)" by (cases "f (r_world st)")
    then have "rc = fst (f (r_world st))" by simp
    then have "case_run (to_objs h ! i) ((to_objs h ! i)\<lparr> to_status := rc \<rparr>)"
      using Some unfolding case_run_def by auto
    with Some f show ?thesis
      by (intro exI [of _ "st\<lparr> r_world := w \<rparr>"] exI [of _ "(to_objs h ! i)\<lparr> to_status := rc \<rparr>"])
        (simp add: u_test_case_scheduler_def u_test_case_exec_def upd_obj_def same_shape_def)
  qed
qed

definition suite_run :: "'w u_test_suite u_test_obj \<Rightarrow> 'w u_test_suite u_test_obj \<Rightarrow> bool" where
  "suite_run x y =
     (let h = u_test_cases (to_body x); h' = u_test_cases (to_body y) in
      same_shapes h h' \<and> (\<forall>i < length (to_objs h). outcome_ok id case_run h h' i)
      \<and> to_status y = (if list_ex (\<lambda>c. to_status c \<noteq> U_TEST_SUCCESS) (to_objs h') then U_TEST_FAILURE else to_status x)
      \<and> ts_syn (to_body y) = u_test_syn_update (ts_syn (to_body x)) (to_objs h'))"

lemma ranked_nchildren: "ranked (h\<lparr> nchildren := n \<rparr>) = ranked h"
  by (simp add: ranked_def)

lemma outcome_nchildren: "outcome_ok skip good (h\<lparr> nchildren := n \<rparr>) h' i = outcome_ok skip good h h' i"
  by (simp add: outcome_ok_def)

lemma cases_scheduled:
  assumes "ranked h"
  shows "\<exists>st' h'. cases_obj_scheduler fuel False maxp st h = Inr (st', h', rc_ok) \<and> same_shapes h h'
    \<and> (\<forall>i < length (to_objs h). outcome_ok id case_run h h' i)"
proof (cases "to_objs h = []")
  case True
  then show ?thesis by (simp add: cases_obj_scheduler_def same_shapes_refl)
next
  case False
  let ?h = "h\<lparr> nchildren := 0 \<rparr>"
  have "ranked ?h" using assms by (simp add: ranked_nchildren)
  from cases.level_ok [OF this, of st] obtain st' h' where
    r: "simple_ranks (u_test_case_scheduler False) id [0..<Suc (currank ?h)] st ?h = Inr (st', h')" "same_shapes ?h h'"
      "\<forall>i < length (to_objs ?h). outcome_ok id case_run ?h h' i" by auto
  then have "same_shapes h h'" "\<forall>i < length (to_objs h). outcome_ok id case_run h h' i"
    by (simp_all add: same_shapes_def outcome_nchildren)
  then show ?thesis using r(1) False by (simp add: cases_obj_scheduler_def Let_def del: upt_Suc)
qed

interpretation suites: test_level "\<lambda>ts. ranked (u_test_cases ts)" "u_test_suite_scheduler fuel False maxp"
  "u_test_suite_update_all_status U_TEST_SKIPPED" suite_run
proof
  fix i and h :: "'w u_test_suite test_objs" and st :: "'w run_state"
  let ?x = "to_objs h ! i"
  assume "i < length (to_objs h)" and rk: "ranked (u_test_cases (to_body ?x))"
  from cases_scheduled [OF rk, of fuel maxp st] obtain st' h' where
    r: "cases_obj_scheduler fuel False maxp st (u_test_cases (to_body ?x)) = Inr (st', h', rc_ok)"
      "same_shapes (u_test_cases (to_body ?x)) h'"
      "\<forall>k < length (to_objs (u_test_cases (to_body ?x))). outcome_ok id case_run (u_test_cases (to_body ?x)) h' k" by blast
  have "suite_run ?x (suite_result ?x h')" "same_shape ?x (suite_result ?x h')"
    using r(2,3) by (simp_all add: suite_run_def suite_result_def same_shape_def)
  then show "\<exists>st' x rc. u_test_suite_scheduler fuel False maxp st i h = Inr (st', h\<lparr> to_objs := (to_objs h)[i := x] \<rparr>, rc)
      \<and> same_shape ?x x \<and> suite_run ?x x"
    using r(1) by (intro exI [of _ st'] exI [of _ "suite_result ?x h'"]) (simp add: u_test_suite_scheduler_def upd_obj_def)
qed

section \<open>Properties\<close>

lemma syn_update_total:
  "syn_total (u_test_syn_update syn xs) = syn_total syn + length xs"
  "syn_pass (u_test_syn_update syn xs) = syn_pass syn + length (filter (\<lambda>x. to_status x = U_TEST_SUCCESS) xs)"
proof -
  have c: "syn_total (syn_count syn s) = Suc (syn_total syn)"
    "syn_pass (syn_count syn s) = (if s = U_TEST_SUCCESS then Suc (syn_pass syn) else syn_pass syn)" for syn s
    by (simp_all add: syn_count_def Let_def)
  show "syn_total (u_test_syn_update syn xs) = syn_total syn + length xs"
    unfolding u_test_syn_update_def by (induction xs arbitrary: syn) (simp_all add: c)
  show "syn_pass (u_test_syn_update syn xs) = syn_pass syn + length (filter (\<lambda>x. to_status x = U_TEST_SUCCESS) xs)"
    unfolding u_test_syn_update_def by (induction xs arbitrary: syn) (simp_all add: c)
qed

lemma total_is_pass:
  assumes "syn_total syn = syn_pass syn"
  shows "syn_total (u_test_syn_update syn xs) = syn_pass (u_test_syn_update syn xs) \<longleftrightarrow> (\<forall>x \<in> set xs. to_status x = U_TEST_SUCCESS)"
proof -
  let ?P = "\<lambda>x. to_status x = U_TEST_SUCCESS"
  have "length xs = length (filter ?P xs) \<longleftrightarrow> list_all ?P xs"
  proof
    assume "length xs = length (filter ?P xs)"
    then have "x \<in> set xs \<Longrightarrow> ?P x" for x using length_filter_less [of x xs ?P] by fastforce
    then show "list_all ?P xs" by (simp add: list_all_iff)
  next
    assume "list_all ?P xs"
    then have "filter ?P xs = xs" by (intro filter_True) (simp add: list_all_iff)
    then show "length xs = length (filter ?P xs)" by simp
  qed
  then show ?thesis using assms by (simp add: syn_update_total list_all_iff)
qed

lemma sequencer_fields: "t_syn (snd (u_test_sequencer t)) = t_syn t" "t_sandboxed (snd (u_test_sequencer t)) = t_sandboxed t"
  by (simp_all add: u_test_sequencer_def split: prod.splits)

lemma sequenced_ranked:
  assumes "registered (u_test_suites t)"
    "list_all (\<lambda>x. registered (u_test_cases (to_body x))) (to_objs (u_test_suites t))"
    "fst (u_test_sequencer t) = rc_ok"
  shows "ranked (u_test_suites (snd (u_test_sequencer t)))"
    "\<forall>x \<in> set (to_objs (u_test_suites (snd (u_test_sequencer t)))). ranked (u_test_cases (to_body x))"
proof -
  note ss = suites_sequenced [OF assms(1,2)]
  note us = ss(2) [OF assms(3)]
  have seqs: "all_seqable (u_test_suites t)"
    "\<And>x. x \<in> set (to_objs (sequence_loop (u_test_suites t))) \<Longrightarrow> all_seqable (u_test_cases (to_body x))"
    using ss(1) assms(3) by blast+
  show "ranked (u_test_suites (snd (u_test_sequencer t)))"
    unfolding us using ranked_bodies [OF sequence_loop_ok(3) [OF assms(1)]] seqs(1) by (simp add: all_seqable_def)
  show "\<forall>x \<in> set (to_objs (u_test_suites (snd (u_test_sequencer t)))). ranked (u_test_cases (to_body x))"
    unfolding us using seqs(2) cases_sequenced(3) [OF ss(3)] by auto
qed

text \<open>C22: A test that is sequenced and whose cases run in its own process ends, and runs each suite and each case
  once, in the order of ranks and so behind all it depends on. A suite with a failed dependency is skipped with
  all its cases; otherwise each of its cases is skipped when one of its own dependencies failed, or has the
  result of its function, and the suite fails when a case did not succeed. The return code is zero exactly
  when the report was written and every suite succeeded.\<close>

theorem u_test_run_serial:
  assumes "registered (u_test_suites t)"
    "list_all (\<lambda>x. registered (u_test_cases (to_body x))) (to_objs (u_test_suites t))"
    "u_test_sequencer t = (rc_ok, t1)" "\<not> t_sandboxed t" "t_syn t = zero_syn"
  shows "\<exists>rc t' st'. u_test_run fuel errno [] report st t = Inr (Some (rc, t'))
    \<and> distinct (run_order (u_test_suites t1)) \<and> set (run_order (u_test_suites t1)) = {..<length (to_objs (u_test_suites t1))}
    \<and> deps_first (u_test_suites t1) (run_order (u_test_suites t1))
    \<and> (to_objs (u_test_suites t1) \<noteq> [] \<longrightarrow>
        run_all (u_test_suite_scheduler fuel False (t_max_parallel t1)) (u_test_suite_update_all_status U_TEST_SKIPPED)
          (run_order (u_test_suites t1)) st ((u_test_suites t1)\<lparr> nchildren := 0 \<rparr>) = Inr (st', u_test_suites t'))
    \<and> (\<forall>i < length (to_objs (u_test_suites t1)).
        outcome_ok (u_test_suite_update_all_status U_TEST_SKIPPED) suite_run (u_test_suites t1) (u_test_suites t') i)
    \<and> (rc = rc_ok \<longleftrightarrow> report t' \<and> (\<forall>x \<in> set (to_objs (u_test_suites t')). to_status x = U_TEST_SUCCESS))"
proof -
  let ?h = "u_test_suites t1" and ?skip = "u_test_suite_update_all_status U_TEST_SKIPPED"
  let ?sched = "u_test_suite_scheduler fuel False (t_max_parallel t1)"
  have t1: "\<not> t_sandboxed t1" "t_syn t1 = zero_syn" "ranked ?h" "\<forall>x \<in> set (to_objs ?h). ranked (u_test_cases (to_body x))"
    using sequencer_fields [of t] sequenced_ranked [OF assms(1,2)] assms(3-5) by auto
  note o = run_order_ok [OF t1(3)]
  have z: "syn_total zero_syn = syn_pass zero_syn" by (simp add: zero_syn_def)
  obtain st' t' where s: "u_test_scheduler fuel st t1 = Inr (st', t', rc_ok)"
    "t_syn t' = u_test_syn_update zero_syn (to_objs (u_test_suites t'))"
    "to_objs ?h \<noteq> [] \<longrightarrow> run_all ?sched ?skip (run_order ?h) st (?h\<lparr> nchildren := 0 \<rparr>) = Inr (st', u_test_suites t')"
    "\<forall>i < length (to_objs ?h). outcome_ok ?skip suite_run ?h (u_test_suites t') i"
  proof (cases "to_objs ?h = []")
    case True
    then show ?thesis using t1(2) by (intro that [of st t1]) (simp_all add: u_test_scheduler_def Let_def u_test_syn_update_def)
  next
    case False
    let ?g = "?h\<lparr> nchildren := 0 \<rparr>"
    have "ranked ?g" "\<forall>i < length (to_objs ?g). ranked (u_test_cases (to_body (to_objs ?g ! i)))"
      using t1(3,4) by (simp_all add: ranked_nchildren)
    from suites.level_ok [OF this, of fuel "t_max_parallel t1" st] obtain st' h' where
      r: "simple_ranks ?sched ?skip [0..<Suc (currank ?h)] st ?g = Inr (st', h')"
        "run_all ?sched ?skip (run_order ?g) st ?g = Inr (st', h')"
        "\<forall>i < length (to_objs ?h). outcome_ok ?skip suite_run ?g h' i" by auto
    have "run_order ?g = run_order ?h" by (simp add: run_order_def)
    moreover have "\<forall>i < length (to_objs ?h). outcome_ok ?skip suite_run ?h h' i" using r(3) by (simp add: outcome_nchildren)
    ultimately show ?thesis
      using r(1,2) False t1(1,2)
      by (intro that [of st' "t1\<lparr> u_test_suites := h', t_syn := u_test_syn_update zero_syn (to_objs h') \<rparr>"])
        (simp_all add: u_test_scheduler_def Let_def del: upt_Suc)
  qed
  have "u_test_run fuel errno [] report st t = Inr (Some (if report t' \<and> (\<forall>x \<in> set (to_objs (u_test_suites t')). to_status x = U_TEST_SUCCESS)
      then rc_ok else rc_fail, t'))"
    using s(1,2) assms(3) total_is_pass [OF z, of "to_objs (u_test_suites t')"] by (simp add: u_test_run_def)
  with o s(3,4) show ?thesis by auto
qed

theorem u_test_run_serial_witness:
  "\<exists>rc t'. u_test_run 0 E_none [] (\<lambda>_. True) \<lparr> r_world = (), r_forks = [], r_waits = [] \<rparr> sample_test = Inr (Some (rc, t'))
    \<and> (rc = rc_ok \<longleftrightarrow> list_all (\<lambda>x. to_status x = U_TEST_SUCCESS) (to_objs (u_test_suites t')))"
proof -
  have "to_body ` set (to_objs (sequence_loop (u_test_suites sample_test))) = to_body ` set (to_objs (u_test_suites sample_test))"
    by (rule suites_sequenced(4) [OF sample_seqable(1,2)])
  then have "fst (u_test_sequencer sample_test) = rc_ok"
    unfolding suites_sequenced(1) [OF sample_seqable(1,2)] using sample_seqable(3,4) by (metis (mono_tags, lifting) image_iff)
  then obtain t1 where t1: "u_test_sequencer sample_test = (rc_ok, t1)" by (cases "u_test_sequencer sample_test") auto
  have "\<not> t_sandboxed sample_test" "t_syn sample_test = zero_syn" by (simp_all add: sample_test_def)
  from u_test_run_serial [OF sample_seqable(1,2) t1 this, of 0 E_none "\<lambda>_. True" "\<lparr> r_world = (), r_forks = [], r_waits = [] \<rparr>"]
  show ?thesis by (auto simp: list_all_iff)
qed

text \<open>Sequenced cases for runs with processes: \<open>f\<close> fails, \<open>skipped\<close> depends on it, and \<open>run\<close> on \<open>g\<close>.\<close>

definition ranked_case :: "string \<Rightarrow> nat \<Rightarrow> (string \<times> nat) list \<Rightarrow> unit u_test_case u_test_obj" where
  "ranked_case i r ds = \<lparr> to_id = i, to_status = U_TEST_SUCCESS, to_rank = r, to_sequenced = True,
     to_deps = map (\<lambda>(d, j). \<lparr> td_id = d, upref = Some j \<rparr>) ds,
     to_body = \<lparr> tc_func = Some (\<lambda>w. (0, w)), tc_pid = U_TEST_CASE_PID_INITIALIZER \<rparr> \<rparr>"

definition hang_cases :: "unit u_test_case test_objs" where
  "hang_cases = \<lparr> currank = 1, nchildren = 0,
     to_objs = [ranked_case ''f'' 0 [], ranked_case ''g'' 0 [], ranked_case ''run'' 1 [(''g'', 1)],
                ranked_case ''skipped'' 1 [(''f'', 0)]] \<rparr>"

definition hang_env :: "unit run_state" where
  "hang_env = \<lparr> r_world = (), r_forks = [10, 11, 12], r_waits = [W_exited 10 1, W_exited 11 0, W_exited 12 0] \<rparr>"

lemma skip_forever:
  assumes "length (to_objs h) = 4" "to_rank (to_objs h ! 3) = r" "nchildren h = 0"
    "u_test_dep_failed (to_objs h) (to_deps (to_objs h ! 3))" "to_status (to_objs h ! 3) = U_TEST_SKIPPED"
  shows "sandbox_chunks fuel r maxp 3 par st h = Inl Out_of_fuel"
proof (induction fuel arbitrary: par st)
  case (Suc n)
  have "skip_obj id (to_objs h ! 3) = to_objs h ! 3" using assms(5) by (simp add: skip_obj_def)
  then have u: "upd_obj 3 (skip_obj id) h = h" by (simp add: upd_obj_def)
  have r: "u_test_cases_reap st h = (st, h, rc_ok)" for st :: "'a run_state"
    using assms(3) by (cases "r_waits st") (simp_all add: u_test_cases_reap_def)
  have "[3..<length (to_objs h)] = [3]" using assms(1) by (simp add: upt_rec)
  then show ?case using assms(2,4) u r Suc.IH by simp
qed simp

text \<open>C23: A test whose cases run in processes need not end: when the last case of the list is skipped right after
  the limit of parallel cases was reached, the scheduler starts again at this case for ever. Here the
  limit is one, and the dependencies are ranked as the sequencer does.\<close>

theorem u_test_sandbox_hangs:
  "ranked hang_cases \<and> cases_obj_scheduler fuel True 1 hang_env hang_cases = Inl Out_of_fuel"
proof
  show "ranked hang_cases" by (auto simp: ranked_def hang_cases_def ranked_case_def nth_Cons' numeral_eq_Suc)
  note defs = u_test_case_exec_def upd_obj_def skip_obj_def u_test_dep_failed_def u_test_cases_reap_def
    u_test_cases_search_by_pid_def child_done_def hang_cases_def hang_env_def ranked_case_def
    U_TEST_SUCCESS_def U_TEST_SKIPPED_def U_TEST_CASE_PID_INITIALIZER_def
  consider "fuel = 0" | "fuel = 1" | "fuel = 2" | n where "fuel = Suc (Suc (Suc n))"
    by (metis One_nat_def Suc_1 not0_implies_Suc)
  then show "cases_obj_scheduler fuel True 1 hang_env hang_cases = Inl Out_of_fuel"
  proof cases
    case 1
    then show ?thesis by (simp add: cases_obj_scheduler_def defs)
  next
    case 2
    then show ?thesis by (simp add: cases_obj_scheduler_def defs Let_def upt_rec)
  next
    case 3
    then show ?thesis by (simp add: cases_obj_scheduler_def defs Let_def upt_rec numeral_2_eq_2)
  next
    case 4
    then show ?thesis
      by (simp add: cases_obj_scheduler_def defs Let_def upt_rec skip_forever [unfolded numeral_3_eq_3 U_TEST_SKIPPED_def])
  qed
qed

definition limit_cases :: "unit u_test_case test_objs" where
  "limit_cases = \<lparr> currank = 1, nchildren = 0,
     to_objs = [ranked_case ''c'' 1 [(''a'', 2)], ranked_case ''b'' 1 [(''a'', 2)], ranked_case ''a'' 0 []] \<rparr>"

definition limit_env :: "unit run_state" where
  "limit_env = \<lparr> r_world = (), r_forks = [10, 11, 12], r_waits = [W_exited 10 0] \<rparr>"

definition spawn_cases :: "unit u_test_case test_objs" where
  "spawn_cases = \<lparr> currank = 0, nchildren = 0, to_objs = [ranked_case ''a'' 0 [], ranked_case ''b'' 0 []] \<rparr>"

text \<open>Deviations of the test framework. With a limit of one the scheduler runs two cases at once, as the count of
  a chunk that ends with the list is kept for the next rank. A case whose process cannot be started counts
  as passed. A dependency that is registered twice is resolved once, and reported as a loop. The ranks are
  not the depths of the dependencies.\<close>

theorem u_test_deviations:
  "ranked limit_cases
   \<and> (case sandbox_chunks 1 0 1 0 0 limit_env limit_cases of
        Inl _ \<Rightarrow> 0
      | Inr (rc, par, st, h) \<Rightarrow> (case sandbox_scan 1 1 [0, 1, 2] (Some 0) par st h of (_, _, _, h1) \<Rightarrow> nchildren h1)) = 2
   \<and> (case cases_obj_scheduler 1 True 32 \<lparr> r_world = (), r_forks = [- 1, - 1], r_waits = [] \<rparr> spawn_cases of
        Inr (_, h, rc) \<Rightarrow> (rc, map to_status (to_objs h)) | _ \<Rightarrow> (rc_fail, [])) = (rc_ok, [U_TEST_SUCCESS, U_TEST_SUCCESS])
   \<and> fst (u_test_obj_sequencer None \<lparr> currank = 0, nchildren = 0,
        to_objs = [snd (u_test_case_dep_register True (Some ''a'') (snd (u_test_case_dep_register True (Some ''a'')
                    (sample_case ''b'' [] 0 :: unit u_test_case u_test_obj)))), sample_case ''a'' [] 0] \<rparr>) = rc_fail
   \<and> map to_rank (to_objs (snd (u_test_obj_sequencer None \<lparr> currank = 0, nchildren = 0,
        to_objs = [sample_case ''a'' [] 0 :: unit u_test_case u_test_obj, sample_case ''b'' [''a''] 0, sample_case ''c'' [] 0,
                   sample_case ''d'' [''c''] 0] \<rparr>))) = [0, 1, 0, 2]"
proof (intro conjI)
  show "ranked limit_cases" by (auto simp: ranked_def limit_cases_def ranked_case_def nth_Cons' numeral_eq_Suc)
  note defs = u_test_case_exec_def upd_obj_def u_test_dep_failed_def u_test_cases_reap_def
    u_test_cases_search_by_pid_def child_done_def U_TEST_SUCCESS_def U_TEST_CASE_PID_INITIALIZER_def
  show "(case sandbox_chunks 1 0 1 0 0 limit_env limit_cases of
        Inl _ \<Rightarrow> 0
      | Inr (rc, par, st, h) \<Rightarrow> (case sandbox_scan 1 1 [0, 1, 2] (Some 0) par st h of (_, _, _, h1) \<Rightarrow> nchildren h1)) = 2"
    by (simp add: defs limit_cases_def limit_env_def ranked_case_def upt_rec)
  show "fst (u_test_obj_sequencer None \<lparr> currank = 0, nchildren = 0,
        to_objs = [snd (u_test_case_dep_register True (Some ''a'') (snd (u_test_case_dep_register True (Some ''a'')
                    (sample_case ''b'' [] 0 :: unit u_test_case u_test_obj)))), sample_case ''a'' [] 0] \<rparr>) = rc_fail"
    by code_simp
  show "map to_rank (to_objs (snd (u_test_obj_sequencer None \<lparr> currank = 0, nchildren = 0,
        to_objs = [sample_case ''a'' [] 0 :: unit u_test_case u_test_obj, sample_case ''b'' [''a''] 0, sample_case ''c'' [] 0,
                   sample_case ''d'' [''c''] 0] \<rparr>))) = [0, 1, 0, 2]"
    by code_simp
  show "(case cases_obj_scheduler 1 True 32 \<lparr> r_world = (), r_forks = [- 1, - 1], r_waits = [] \<rparr> spawn_cases of
        Inr (_, h, rc) \<Rightarrow> (rc, map to_status (to_objs h)) | _ \<Rightarrow> (rc_fail, [])) = (rc_ok, [U_TEST_SUCCESS, U_TEST_SUCCESS])"
    by (simp add: cases_obj_scheduler_def defs spawn_cases_def ranked_case_def upt_rec)
qed

end
