(* ===== verification/Utest_Report.thy ===== *)
theory Utest_Report
  imports Utest_Run
begin

text \<open>
  The reports of the test framework, \<open>srcs/toolbox/test.c\<close>: as text and as XML. A report is the text that goes to the
  file. Beside the test it is given the name of the host, the times at which suites and cases began and ended, and the
  resources that the process of a case used, by their positions. \<open>strf\<close> is \<open>strftime\<close> on the local time, whose texts
  are assumed to fit the buffers.
\<close>

section \<open>Times\<close>

type_synonym strf = "string \<Rightarrow> int \<Rightarrow> string"

record run_info =
  ri_host :: string
  ri_suite :: "nat \<Rightarrow> int \<times> int"
  ri_case :: "nat \<Rightarrow> nat \<Rightarrow> int \<times> int"
  ri_usage :: "nat \<Rightarrow> nat \<Rightarrow> (int \<times> nat) \<times> (int \<times> nat)"

definition pad6 :: "nat \<Rightarrow> string" where
  "pad6 n = (let d = decimal n in replicate (6 - length d) (CHR ''0'') @ d)"

definition timeval_fmt :: "strf \<Rightarrow> int \<times> nat \<Rightarrow> string" where
  "timeval_fmt strf tv = snd (u_snprintf 80 (strf ''%M:%S'' (fst tv) @ ''.'' @ pad6 (snd tv)))"

text \<open>The user time and the system time.\<close>

definition u_test_case_rusage_fmt :: "strf \<Rightarrow> (int \<times> nat) \<times> (int \<times> nat) \<Rightarrow> string \<times> string" where
  "u_test_case_rusage_fmt strf ru = (timeval_fmt strf (fst ru), timeval_fmt strf (snd ru))"

text \<open>Begin, end, and the time in between, which is formatted as if it were a time of day.\<close>

definition u_test_obj_ts_fmt :: "strf \<Rightarrow> int \<times> int \<Rightarrow> string \<times> string \<times> string" where
  "u_test_obj_ts_fmt strf ts =
     (strf ''%a %Y-%m-%d %H:%M:%S %Z'' (fst ts), strf ''%a %Y-%m-%d %H:%M:%S %Z'' (snd ts), strf ''%M:%S'' (snd ts - fst ts))"

section \<open>Reports\<close>

datatype u_test_rep_tag = U_TEST_REP_HEAD | U_TEST_REP_TAIL

text \<open>The callbacks of a format: for the test, for a suite and for a case. A suite and a case are given with their position.\<close>

record 'w u_test_rep =
  t_cb :: "run_info \<Rightarrow> 'w u_test \<Rightarrow> u_test_rep_tag \<Rightarrow> string"
  ts_cb :: "run_info \<Rightarrow> nat \<Rightarrow> 'w u_test_suite u_test_obj \<Rightarrow> u_test_rep_tag \<Rightarrow> string"
  tc_cb :: "run_info \<Rightarrow> bool \<Rightarrow> nat \<Rightarrow> nat \<Rightarrow> 'w u_test_case u_test_obj \<Rightarrow> string"

abbreviation (input) tab :: char where "tab \<equiv> CHR 0x09"

definition out_line :: "nat \<Rightarrow> string \<Rightarrow> string" where
  "out_line tabs s = replicate tabs tab @ s @ [CHR 0x0A]"

definition u_test_report_txt :: "run_info \<Rightarrow> 'w u_test \<Rightarrow> u_test_rep_tag \<Rightarrow> string" where
  "u_test_report_txt ri t tag =
     (let syn = t_syn t in
      case tag of
        U_TEST_REP_HEAD \<Rightarrow> t_id t @ '' ('' @ ri_host ri @ '')'' @ [CHR 0x0A]
      | U_TEST_REP_TAIL \<Rightarrow>
          out_line 0 (''Number of test suites: '' @ decimal (syn_total syn)) @
          out_line 0 (''               Passed: '' @ decimal (syn_pass syn)) @
          out_line 0 (''               Failed: '' @ decimal (syn_fail syn)) @
          out_line 0 (''              Aborted: '' @ decimal (syn_abrt syn)) @
          out_line 0 (''              Skipped: '' @ decimal (syn_skip syn)))"

definition u_test_suite_report_txt :: "strf \<Rightarrow> run_info \<Rightarrow> nat \<Rightarrow> 'w u_test_suite u_test_obj \<Rightarrow> u_test_rep_tag \<Rightarrow> string" where
  "u_test_suite_report_txt strf ri i ts tag =
     (let syn = ts_syn (to_body ts) in
      case tag of
        U_TEST_REP_HEAD \<Rightarrow>
          out_line 1 (''* ['' @ u_test_status_str (to_status ts) @ ''] '' @ to_id ts) @
          (if to_status ts = U_TEST_SUCCESS
           then (case u_test_obj_ts_fmt strf (ri_suite ri i) of (b, e, d) \<Rightarrow>
                  out_line 1 (''       begin: '' @ b) @ out_line 1 (''         end: '' @ e) @ out_line 1 (''     elapsed: '' @ d))
           else [])
      | U_TEST_REP_TAIL \<Rightarrow>
          out_line 1 (''Number of test cases: '' @ decimal (syn_total syn)) @
          out_line 1 (''              Passed: '' @ decimal (syn_pass syn)) @
          out_line 1 (''              Failed: '' @ decimal (syn_fail syn)) @
          out_line 1 (''             Aborted: '' @ decimal (syn_abrt syn)) @
          out_line 1 (''             Skipped: '' @ decimal (syn_skip syn)))"

definition u_test_case_report_txt :: "strf \<Rightarrow> run_info \<Rightarrow> bool \<Rightarrow> nat \<Rightarrow> nat \<Rightarrow> 'w u_test_case u_test_obj \<Rightarrow> string" where
  "u_test_case_report_txt strf ri sandboxed i j tc =
     out_line 2 (''* ['' @ u_test_status_str (to_status tc) @ ''] '' @ to_id tc) @
     (if to_status tc = U_TEST_SUCCESS
      then
        (if sandboxed
         then (case u_test_case_rusage_fmt strf (ri_usage ri i j) of (u, s) \<Rightarrow>
                out_line 2 (''    sys time: '' @ s) @ out_line 2 (''   user time: '' @ u))
         else (case u_test_obj_ts_fmt strf (ri_case ri i j) of (b, e, d) \<Rightarrow> out_line 2 (''     elapsed:'' @ d)))
      else [])"

text \<open>An element with a text on a line of its own.\<close>

definition xml_line :: "nat \<Rightarrow> string \<Rightarrow> string \<Rightarrow> string" where
  "xml_line tabs el s = out_line tabs (''<'' @ el @ ''>'' @ s @ ''</'' @ el @ ''>'')"

definition xml_syn :: "nat \<Rightarrow> u_test_syn \<Rightarrow> string" where
  "xml_syn tabs syn =
     xml_line tabs ''total'' (decimal (syn_total syn)) @ xml_line tabs ''passed'' (decimal (syn_pass syn)) @
     xml_line tabs ''failed'' (decimal (syn_fail syn)) @ xml_line tabs ''aborted'' (decimal (syn_abrt syn)) @
     xml_line tabs ''skipped'' (decimal (syn_skip syn))"

definition u_test_report_xml :: "run_info \<Rightarrow> 'w u_test \<Rightarrow> u_test_rep_tag \<Rightarrow> string" where
  "u_test_report_xml ri t tag =
     (case tag of
        U_TEST_REP_HEAD \<Rightarrow>
          out_line 0 (''<?xml version='' @ [CHR 0x22] @ ''1.0'' @ [CHR 0x22] @ ''?>'') @
          out_line 0 (''<test id='' @ [CHR 0x22] @ t_id t @ [CHR 0x22] @ ''>'') @ xml_syn 1 (t_syn t) @
          xml_line 1 ''host'' (ri_host ri)
      | U_TEST_REP_TAIL \<Rightarrow> out_line 0 ''</test>'')"

definition u_test_suite_report_xml :: "strf \<Rightarrow> run_info \<Rightarrow> nat \<Rightarrow> 'w u_test_suite u_test_obj \<Rightarrow> u_test_rep_tag \<Rightarrow> string" where
  "u_test_suite_report_xml strf ri i ts tag =
     (case tag of
        U_TEST_REP_HEAD \<Rightarrow>
          out_line 1 (''<test_suite id='' @ [CHR 0x22] @ to_id ts @ [CHR 0x22] @ ''>'') @
          xml_line 2 ''status'' (u_test_status_str (to_status ts)) @
          (if to_status ts = U_TEST_SUCCESS
           then (case u_test_obj_ts_fmt strf (ri_suite ri i) of (b, e, d) \<Rightarrow>
                  xml_line 2 ''begin'' b @ xml_line 2 ''end'' e @ xml_line 2 ''elapsed'' d)
           else []) @
          xml_syn 2 (ts_syn (to_body ts))
      | U_TEST_REP_TAIL \<Rightarrow> out_line 1 ''</test_suite>'')"

definition u_test_case_report_xml :: "strf \<Rightarrow> run_info \<Rightarrow> bool \<Rightarrow> nat \<Rightarrow> nat \<Rightarrow> 'w u_test_case u_test_obj \<Rightarrow> string" where
  "u_test_case_report_xml strf ri sandboxed i j tc =
     out_line 2 (''<test_case id='' @ [CHR 0x22] @ to_id tc @ [CHR 0x22] @ ''>'') @
     xml_line 3 ''status'' (u_test_status_str (to_status tc)) @
     (if to_status tc = U_TEST_SUCCESS
      then
        (if sandboxed
         then (case u_test_case_rusage_fmt strf (ri_usage ri i j) of (u, s) \<Rightarrow>
                xml_line 3 ''sys_time'' s @ xml_line 3 ''user_time'' u)
         else (case u_test_obj_ts_fmt strf (ri_case ri i j) of (b, e, d) \<Rightarrow> xml_line 3 ''elapsed'' d))
      else []) @
     out_line 2 ''</test_case>''"

definition txt_reporters :: "strf \<Rightarrow> 'w u_test_rep" where
  "txt_reporters strf = \<lparr> t_cb = u_test_report_txt, ts_cb = u_test_suite_report_txt strf, tc_cb = u_test_case_report_txt strf \<rparr>"

definition xml_reporters :: "strf \<Rightarrow> 'w u_test_rep" where
  "xml_reporters strf = \<lparr> t_cb = u_test_report_xml, ts_cb = u_test_suite_report_xml strf, tc_cb = u_test_case_report_xml strf \<rparr>"

text \<open>The format by its name, and callbacks of the user.\<close>

definition outfmt_reporters :: "strf \<Rightarrow> string \<Rightarrow> 'w u_test_rep option" where
  "outfmt_reporters strf fmt =
     (if strcaseeq fmt ''txt'' then Some (txt_reporters strf) else if strcaseeq fmt ''xml'' then Some (xml_reporters strf) else None)"

definition u_test_set_u_test_rep ::
  "(run_info \<Rightarrow> 'w u_test \<Rightarrow> u_test_rep_tag \<Rightarrow> string) option \<Rightarrow> 'w u_test_rep \<Rightarrow> rc \<times> 'w u_test_rep" where
  "u_test_set_u_test_rep f rep = (case f of None \<Rightarrow> (rc_fail, rep) | Some g \<Rightarrow> (rc_ok, rep\<lparr> t_cb := g \<rparr>))"

definition u_test_set_u_test_suite_rep ::
  "(run_info \<Rightarrow> nat \<Rightarrow> 'w u_test_suite u_test_obj \<Rightarrow> u_test_rep_tag \<Rightarrow> string) option \<Rightarrow> 'w u_test_rep \<Rightarrow> rc \<times> 'w u_test_rep" where
  "u_test_set_u_test_suite_rep f rep = (case f of None \<Rightarrow> (rc_fail, rep) | Some g \<Rightarrow> (rc_ok, rep\<lparr> ts_cb := g \<rparr>))"

definition u_test_set_u_test_case_rep ::
  "(run_info \<Rightarrow> bool \<Rightarrow> nat \<Rightarrow> nat \<Rightarrow> 'w u_test_case u_test_obj \<Rightarrow> string) option \<Rightarrow> 'w u_test_rep \<Rightarrow> rc \<times> 'w u_test_rep" where
  "u_test_set_u_test_case_rep f rep = (case f of None \<Rightarrow> (rc_fail, rep) | Some g \<Rightarrow> (rc_ok, rep\<lparr> tc_cb := g \<rparr>))"

text \<open>The name of the file; a name that is too long is cut, and stored as well. The host, from what \<open>uname\<close> says.\<close>

definition u_test_set_outfn :: "string option \<Rightarrow> string \<Rightarrow> rc \<times> string" where
  "u_test_set_outfn fn old =
     (case fn of None \<Rightarrow> (rc_fail, old)
      | Some f \<Rightarrow> (case u_strlcpy old f 4096 of (fits, s) \<Rightarrow> (if fits then rc_ok else rc_fail, s)))"

definition u_test_uname :: "(string \<times> string \<times> string \<times> string) option \<Rightarrow> string \<Rightarrow> rc \<times> string" where
  "u_test_uname un old =
     (case un of None \<Rightarrow> (rc_fail, old)
      | Some (node, sys, rel, mach) \<Rightarrow>
          (rc_ok, snd (u_snprintf 1024 (node @ '' - '' @ sys @ '' '' @ rel @ '' '' @ mach))))"

text \<open>The report of a test; \<open>opened\<close> tells whether a file that is not the standard output could be opened.\<close>

definition cases_report :: "'w u_test_rep \<Rightarrow> run_info \<Rightarrow> bool \<Rightarrow> nat \<Rightarrow> 'w u_test_case u_test_obj list \<Rightarrow> string" where
  "cases_report rep ri sandboxed i tcs = concat (map (\<lambda>(j, tc). tc_cb rep ri sandboxed i j tc) (enumerate 0 tcs))"

definition suite_report :: "'w u_test_rep \<Rightarrow> run_info \<Rightarrow> bool \<Rightarrow> nat \<times> 'w u_test_suite u_test_obj \<Rightarrow> string" where
  "suite_report rep ri sandboxed its =
     (case its of (i, ts) \<Rightarrow>
        ts_cb rep ri i ts U_TEST_REP_HEAD @
        cases_report rep ri sandboxed i (to_objs (u_test_cases (to_body ts))) @
        ts_cb rep ri i ts U_TEST_REP_TAIL)"

definition u_test_reporter :: "bool \<Rightarrow> string \<Rightarrow> 'w u_test_rep \<Rightarrow> run_info \<Rightarrow> 'w u_test \<Rightarrow> rc \<times> string" where
  "u_test_reporter opened outfn rep ri t =
     (if strcmp outfn ''-'' \<noteq> 0 \<and> \<not> opened then (rc_fail, [])
      else (rc_ok,
        t_cb rep ri t U_TEST_REP_HEAD @
        concat (map (suite_report rep ri (t_sandboxed t)) (enumerate 0 (to_objs (u_test_suites t)))) @
        t_cb rep ri t U_TEST_REP_TAIL))"

section \<open>Well-formed documents\<close>

text \<open>
  A reader of XML, for elements with at most one attribute: the elements that are open, and the text. A
  special character in a text or in the value of an attribute is not accepted.
\<close>

definition plain :: "string \<Rightarrow> bool" where
  "plain s = (CHR ''<'' \<notin> set s \<and> CHR ''>'' \<notin> set s \<and> CHR ''&'' \<notin> set s \<and> CHR 0x22 \<notin> set s)"

definition attrs_ok :: "string \<Rightarrow> bool" where
  "attrs_ok s = (s = [] \<or> take 5 s = '' id='' @ [CHR 0x22] \<and> 5 < length s \<and> List.last s = CHR 0x22 \<and> plain (butlast (drop 5 s)))"

function scan :: "string list \<Rightarrow> string \<Rightarrow> bool" where
  "scan st [] = (st = [])"
| "scan st (c # s) =
     (if c \<noteq> CHR ''<'' then c \<noteq> CHR ''>'' \<and> c \<noteq> CHR ''&'' \<and> scan st s
      else
        (let tag = takeWhile (\<lambda>d. d \<noteq> CHR ''>'') s; rest = dropWhile (\<lambda>d. d \<noteq> CHR ''>'') s in
         if rest = [] \<or> tag = [] then False
         else if hd tag = CHR ''?'' then List.last tag = CHR ''?'' \<and> scan st (tl rest)
         else if hd tag = CHR ''/'' then st \<noteq> [] \<and> hd st = tl tag \<and> scan (tl st) (tl rest)
         else attrs_ok (dropWhile (\<lambda>d. d \<noteq> CHR '' '') tag) \<and> scan (takeWhile (\<lambda>d. d \<noteq> CHR '' '') tag # st) (tl rest)))"
  by pat_completeness auto
termination
proof (relation "measure (\<lambda>(st, s). length s)", goal_cases)
  case (3 st c s tag rest)
  then have "length rest \<le> length s" by (simp add: length_dropWhile_le)
  then show ?case by simp
next
  case (4 st c s tag rest)
  then have "length rest \<le> length s" by (simp add: length_dropWhile_le)
  then show ?case by simp
next
  case (5 st c s tag rest)
  then have "length rest \<le> length s" by (simp add: length_dropWhile_le)
  then show ?case by simp
qed simp_all

declare scan.simps(2) [simp del]

named_theorems balancing \<open>texts that leave the open elements as they were\<close>

definition balanced :: "string \<Rightarrow> bool" where
  "balanced w = (\<forall>st r. scan st (w @ r) = scan st r)"

definition name_ok :: "string \<Rightarrow> bool" where
  "name_ok n = (n \<noteq> [] \<and> hd n \<noteq> CHR ''?'' \<and> hd n \<noteq> CHR ''/'' \<and> CHR ''>'' \<notin> set n \<and> CHR '' '' \<notin> set n)"

lemma balancedD: "balanced w \<Longrightarrow> scan st (w @ r) = scan st r"
  by (simp add: balanced_def)

lemma balanced_Nil [balancing]: "balanced []"
  by (simp add: balanced_def)

lemma balanced_app [balancing]: "balanced v \<Longrightarrow> balanced w \<Longrightarrow> balanced (v @ w)"
  by (simp add: balanced_def)

lemma balanced_plain: "plain p \<Longrightarrow> balanced p"
  unfolding balanced_def by (induction p) (auto simp: plain_def scan.simps(2))

lemma balanced_concat: "(\<And>x. x \<in> set xs \<Longrightarrow> balanced (f x)) \<Longrightarrow> balanced (concat (map f xs))"
  by (induction xs) (auto intro: balancing)

lemma tag_split: "CHR ''>'' \<notin> set tag \<Longrightarrow> takeWhile (\<lambda>d. d \<noteq> CHR ''>'') (tag @ CHR ''>'' # r) = tag
    \<and> dropWhile (\<lambda>d. d \<noteq> CHR ''>'') (tag @ CHR ''>'' # r) = CHR ''>'' # r"
  by (induction tag) auto

lemma name_split: "CHR '' '' \<notin> set n \<Longrightarrow> takeWhile (\<lambda>d. d \<noteq> CHR '' '') (n @ CHR '' '' # r) = n
    \<and> dropWhile (\<lambda>d. d \<noteq> CHR '' '') (n @ CHR '' '' # r) = CHR '' '' # r"
  by (induction n) auto

lemma scan_open: "name_ok n \<Longrightarrow> scan st (''<'' @ n @ ''>'' @ r) = scan (n # st) r"
proof -
  assume n: "name_ok n"
  then have w: "takeWhile (\<lambda>d. d \<noteq> CHR '' '') n = n" "dropWhile (\<lambda>d. d \<noteq> CHR '' '') n = []"
    unfolding takeWhile_eq_all_conv dropWhile_eq_Nil_conv by (auto simp: name_ok_def)
  have "CHR ''>'' \<notin> set n" using n by (simp add: name_ok_def)
  from tag_split [OF this, of r] have t: "takeWhile (\<lambda>d. d \<noteq> CHR ''>'') (n @ CHR ''>'' # r) = n"
    "dropWhile (\<lambda>d. d \<noteq> CHR ''>'') (n @ CHR ''>'' # r) = CHR ''>'' # r" by blast+
  have "scan st (CHR ''<'' # (n @ CHR ''>'' # r)) = scan (n # st) r"
    unfolding scan.simps(2) Let_def t w using n by (simp add: name_ok_def attrs_ok_def)
  then show ?thesis by simp
qed

lemma scan_open_id:
  assumes "name_ok n" "plain v"
  shows "scan st (''<'' @ n @ '' id='' @ [CHR 0x22] @ v @ [CHR 0x22] @ ''>'' @ r) = scan (n # st) r"
proof -
  let ?t = "n @ '' id='' @ [CHR 0x22] @ v @ [CHR 0x22]"
  have "CHR ''>'' \<notin> set ?t" using assms by (auto simp: name_ok_def plain_def)
  from tag_split [OF this, of r] have t: "takeWhile (\<lambda>d. d \<noteq> CHR ''>'') (?t @ CHR ''>'' # r) = ?t"
    "dropWhile (\<lambda>d. d \<noteq> CHR ''>'') (?t @ CHR ''>'' # r) = CHR ''>'' # r" by blast+
  have n: "takeWhile (\<lambda>d. d \<noteq> CHR '' '') ?t = n" "dropWhile (\<lambda>d. d \<noteq> CHR '' '') ?t = '' id='' @ [CHR 0x22] @ v @ [CHR 0x22]"
    using name_split [of n] assms(1) by (simp_all add: name_ok_def)
  have h: "?t \<noteq> []" "hd ?t = hd n" using assms(1) by (simp_all add: name_ok_def)
  have a: "attrs_ok ('' id='' @ [CHR 0x22] @ v @ [CHR 0x22])" using assms(2) by (simp add: attrs_ok_def)
  have "scan st (CHR ''<'' # (?t @ CHR ''>'' # r)) = scan (n # st) r"
    unfolding scan.simps(2) Let_def t n h(2) using h(1) a assms(1) by (simp add: name_ok_def)
  then show ?thesis by simp
qed

lemma scan_close: "name_ok n \<Longrightarrow> scan (n # st) (''</'' @ n @ ''>'' @ r) = scan st r"
  using tag_split [of "CHR ''/'' # n" r] by (simp add: scan.simps(2) Let_def name_ok_def)

lemma balanced_xml_line [balancing]:
  assumes "name_ok el" "plain s"
  shows "balanced (xml_line tabs el s)"
  unfolding balanced_def
proof (intro allI)
  fix st r
  have t: "balanced (replicate tabs tab)" "balanced [CHR 0x0A]" by (rule balanced_plain, simp add: plain_def)+
  show "scan st (xml_line tabs el s @ r) = scan st r"
    using scan_open [OF assms(1)] scan_close [OF assms(1)] t balanced_plain [OF assms(2)]
    by (simp add: xml_line_def out_line_def balanced_def)
qed

section \<open>The XML report\<close>

lemma plain_decimal: "plain (decimal n)"
  using decimal_digits [of _ n] by (fastforce simp: plain_def isdigit_def)

lemma plain_app [simp]: "plain (v @ w) \<longleftrightarrow> plain v \<and> plain w"
  by (auto simp: plain_def)

lemma plain_take: "plain w \<Longrightarrow> plain (take n w)"
  unfolding plain_def by (meson in_set_takeD)

lemma plain_status: "plain (u_test_status_str st)"
  by (simp add: u_test_status_str_def plain_def)

text \<open>The two formats of the reports give texts without special characters.\<close>

definition plain_times :: "strf \<Rightarrow> bool" where
  "plain_times strf = (\<forall>t. plain (strf ''%M:%S'' t) \<and> plain (strf ''%a %Y-%m-%d %H:%M:%S %Z'' t))"

lemma plain_timeval: "plain_times strf \<Longrightarrow> plain (timeval_fmt strf tv)"
proof -
  assume "plain_times strf"
  then have s: "plain (strf ''%M:%S'' t)" for t by (simp add: plain_times_def)
  have "plain (replicate k (CHR ''0''))" "plain ''.''" for k by (simp_all add: plain_def)
  then have "plain (strf ''%M:%S'' (fst tv) @ ''.'' @ pad6 (snd tv))" using s plain_decimal by (simp only: plain_app pad6_def Let_def)
  from plain_take [OF this] show ?thesis by (simp add: timeval_fmt_def u_snprintf_def)
qed

lemma names_ok: "name_ok ''total''" "name_ok ''passed''" "name_ok ''failed''" "name_ok ''aborted''" "name_ok ''skipped''" "name_ok ''host''"
    "name_ok ''status''" "name_ok ''begin''" "name_ok ''end''" "name_ok ''elapsed''" "name_ok ''sys_time''" "name_ok ''user_time''"
    "name_ok ''test''" "name_ok ''test_suite''" "name_ok ''test_case''"
  by (simp_all add: name_ok_def)

lemma balanced_syn [balancing]: "balanced (xml_syn k syn)"
  unfolding xml_syn_def by (intro balancing names_ok plain_decimal)

lemma balanced_blank: "balanced (replicate k tab)" "balanced [CHR 0x0A]"
  by (rule balanced_plain, simp add: plain_def)+

text \<open>An element whose inside is balanced, with its tags on lines of their own.\<close>

lemma balanced_element:
  assumes "name_ok n" "plain v" "balanced w"
  shows "balanced (out_line k (''<'' @ n @ '' id='' @ [CHR 0x22] @ v @ [CHR 0x22] @ ''>'') @ w @ out_line j (''</'' @ n @ ''>''))"
  unfolding balanced_def
proof (intro allI)
  fix st r
  let ?e = "out_line j (''</'' @ n @ ''>'') @ r"
  have "scan st ((out_line k (''<'' @ n @ '' id='' @ [CHR 0x22] @ v @ [CHR 0x22] @ ''>'') @ w @ out_line j (''</'' @ n @ ''>'')) @ r)
    = scan st (replicate k tab @ (''<'' @ n @ '' id='' @ [CHR 0x22] @ v @ [CHR 0x22] @ ''>'' @ ([CHR 0x0A] @ w @ ?e)))"
    by (simp add: out_line_def)
  also have "\<dots> = scan (n # st) ([CHR 0x0A] @ w @ ?e)"
    by (simp only: balancedD [OF balanced_blank(1)] scan_open_id [OF assms(1,2)])
  also have "\<dots> = scan (n # st) ?e"
    by (simp only: balancedD [OF balanced_blank(2)] balancedD [OF assms(3)])
  also have "\<dots> = scan (n # st) (replicate j tab @ (''</'' @ n @ ''>'' @ ([CHR 0x0A] @ r)))"
    by (simp add: out_line_def)
  also have "\<dots> = scan st r"
    by (simp only: balancedD [OF balanced_blank(1)] scan_close [OF assms(1)] balancedD [OF balanced_blank(2)])
  finally show "scan st ((out_line k (''<'' @ n @ '' id='' @ [CHR 0x22] @ v @ [CHR 0x22] @ ''>'') @ w @ out_line j (''</'' @ n @ ''>'')) @ r) = scan st r" .
qed

definition plain_ids :: "'w u_test \<Rightarrow> bool" where
  "plain_ids t = (plain (t_id t) \<and> list_all (\<lambda>ts. plain (to_id ts) \<and> list_all (\<lambda>tc. plain (to_id tc)) (to_objs (u_test_cases (to_body ts))))
     (to_objs (u_test_suites t)))"

lemma enumerate_member: "x \<in> set (enumerate n xs) \<Longrightarrow> \<exists>i y. x = (i, y) \<and> y \<in> set xs"
proof (induction xs arbitrary: n)
  case (Cons a xs)
  then show ?case by (auto dest: Cons.IH)
qed simp

lemma balanced_case:
  assumes strf: "plain_times strf" and id: "plain (to_id tc)"
  shows "balanced (u_test_case_report_xml strf ri sb i j tc)"
proof -
  have "balanced (xml_line 3 ''status'' (u_test_status_str (to_status tc)) @
     (if to_status tc = U_TEST_SUCCESS
      then
        (if sb
         then (case u_test_case_rusage_fmt strf (ri_usage ri i j) of (u, s) \<Rightarrow>
                xml_line 3 ''sys_time'' s @ xml_line 3 ''user_time'' u)
         else (case u_test_obj_ts_fmt strf (ri_case ri i j) of (b, e, d) \<Rightarrow> xml_line 3 ''elapsed'' d))
      else []))"
    using strf
    by (auto simp: plain_times_def u_test_case_rusage_fmt_def u_test_obj_ts_fmt_def intro!: balancing names_ok plain_status plain_timeval [OF strf])
  from balanced_element [OF names_ok(15) id this, of 2 2] show ?thesis
    by (simp add: u_test_case_report_xml_def)
qed

lemma balanced_suite:
  assumes strf: "plain_times strf" and ids: "plain (to_id ts)" "list_all (\<lambda>tc. plain (to_id tc)) (to_objs (u_test_cases (to_body ts)))"
  shows "balanced (suite_report (xml_reporters strf) ri sb (i, ts))"
proof -
  have c: "balanced (cases_report (xml_reporters strf) ri sb i (to_objs (u_test_cases (to_body ts))))"
    unfolding cases_report_def
  proof (rule balanced_concat)
    fix x assume "x \<in> set (enumerate 0 (to_objs (u_test_cases (to_body ts))))"
    then obtain j tc where "x = (j, tc)" "tc \<in> set (to_objs (u_test_cases (to_body ts)))"
      by (metis enumerate_member)
    with ids(2) balanced_case [OF strf, of tc] show "balanced (case x of (j, tc) \<Rightarrow> tc_cb (xml_reporters strf) ri sb i j tc)"
      by (simp add: list_all_iff xml_reporters_def)
  qed
  have "balanced ((xml_line 2 ''status'' (u_test_status_str (to_status ts)) @
          (if to_status ts = U_TEST_SUCCESS
           then (case u_test_obj_ts_fmt strf (ri_suite ri i) of (b, e, d) \<Rightarrow>
                  xml_line 2 ''begin'' b @ xml_line 2 ''end'' e @ xml_line 2 ''elapsed'' d)
           else []) @
          xml_syn 2 (ts_syn (to_body ts))) @ cases_report (xml_reporters strf) ri sb i (to_objs (u_test_cases (to_body ts))))"
    using strf c by (auto simp: plain_times_def u_test_obj_ts_fmt_def intro!: balancing names_ok plain_status)
  from balanced_element [OF names_ok(14) ids(1) this, of 1 1] show ?thesis
    by (simp add: suite_report_def xml_reporters_def u_test_suite_report_xml_def)
qed

lemma balanced_suites:
  assumes strf: "plain_times strf" and ids: "plain_ids t"
  shows "balanced (concat (map (suite_report (xml_reporters strf) ri sb) (enumerate 0 (to_objs (u_test_suites t)))))"
proof (rule balanced_concat)
  fix x assume "x \<in> set (enumerate 0 (to_objs (u_test_suites t)))"
  then obtain i ts where "x = (i, ts)" "ts \<in> set (to_objs (u_test_suites t))"
    by (metis enumerate_member)
  with ids balanced_suite [OF strf, of ts] show "balanced (suite_report (xml_reporters strf) ri sb x)"
    by (auto simp: plain_ids_def list_all_iff)
qed

text \<open>
  C33: the XML report of a test is well-formed, for any number of suites and cases with any results,
  in processes or not: when the identifiers, the name of the host and what \<open>strftime\<close> makes of the
  two formats of the reports have no special characters (\<open><\<close>, \<open>>\<close>, \<open>&\<close> and the double quote),
  every element is closed in the order in which it was opened.
\<close>
theorem u_test_report_wellformed:
  assumes "plain_times strf" "plain (ri_host ri)" "plain_ids t" "u_test_reporter opened outfn (xml_reporters strf) ri t = (rc_ok, report)"
  shows "scan [] report"
proof -
  let ?body = "xml_syn 1 (t_syn t) @ xml_line 1 ''host'' (ri_host ri) @
    concat (map (suite_report (xml_reporters strf) ri (t_sandboxed t)) (enumerate 0 (to_objs (u_test_suites t))))"
  have b: "balanced ?body"
    using balanced_suites [OF assms(1,3)] assms(2) by (intro balancing names_ok) auto
  have "plain (t_id t)" using assms(3) by (simp add: plain_ids_def)
  from balanced_element [OF names_ok(13) this b, of 0 0] have e:
    "balanced (out_line 0 (''<test id='' @ [CHR 0x22] @ t_id t @ [CHR 0x22] @ ''>'') @ ?body @ out_line 0 ''</test>'')" by simp
  have h: "scan [] (out_line 0 (''<?xml version='' @ [CHR 0x22] @ ''1.0'' @ [CHR 0x22] @ ''?>'') @ r) = scan [] r" for r
    by (simp add: out_line_def scan.simps(2))
  have "report = out_line 0 (''<?xml version='' @ [CHR 0x22] @ ''1.0'' @ [CHR 0x22] @ ''?>'') @
    (out_line 0 (''<test id='' @ [CHR 0x22] @ t_id t @ [CHR 0x22] @ ''>'') @ ?body @ out_line 0 ''</test>'')"
    using assms(4) by (auto simp: u_test_reporter_def xml_reporters_def u_test_report_xml_def split: if_split_asm)
  then show ?thesis using h balancedD [OF e, of "[]" "[]"] by simp
qed

definition demo_test :: "string \<Rightarrow> unit u_test" where
  "demo_test i =
     \<lparr> t_id = i,
       u_test_suites = \<lparr> currank = 0, nchildren = 0, to_objs =
         [\<lparr> to_id = ''s'', to_status = U_TEST_SUCCESS, to_rank = 0, to_sequenced = True, to_deps = [], to_body =
            \<lparr> u_test_cases = \<lparr> currank = 0, nchildren = 0, to_objs =
                [\<lparr> to_id = ''c'', to_status = U_TEST_FAILURE, to_rank = 0, to_sequenced = True, to_deps = [],
                   to_body = \<lparr> tc_func = None, tc_pid = - 1 \<rparr> \<rparr>] \<rparr>,
              ts_syn = \<lparr> syn_total = 1, syn_pass = 0, syn_fail = 1, syn_abrt = 0, syn_skip = 0 \<rparr> \<rparr> \<rparr>] \<rparr>,
       t_sandboxed = True, t_max_parallel = 1,
       t_syn = \<lparr> syn_total = 1, syn_pass = 1, syn_fail = 0, syn_abrt = 0, syn_skip = 0 \<rparr> \<rparr>"

definition demo_info :: run_info where
  "demo_info = \<lparr> ri_host = ''libu'', ri_suite = (\<lambda>_. (0, 1)), ri_case = (\<lambda>_ _. (0, 1)), ri_usage = (\<lambda>_ _. ((0, 0), (0, 0))) \<rparr>"

text \<open>\<open>strftime\<close> in UTC, for the conversions that the reports use; other characters are copied.\<close>

definition two :: "int \<Rightarrow> string" where
  "two n = (if n < 10 then ''0'' else []) @ decimal (nat n)"

definition week_day :: "int \<Rightarrow> string" where
  "week_day d =
     (if d = 0 then ''Sun'' else if d = 1 then ''Mon'' else if d = 2 then ''Tue'' else if d = 3 then ''Wed''
      else if d = 4 then ''Thu'' else if d = 5 then ''Fri'' else ''Sat'')"

text \<open>Year, month and day of the day \<open>n\<close> after 1970-01-01, counted in eras of 400 years from a first of March.\<close>

definition civil :: "int \<Rightarrow> int \<times> int \<times> int" where
  "civil n =
     (let z = n + 719468; era = z div 146097; doe = z mod 146097;
          yoe = (doe - doe div 1460 + doe div 36524 - doe div 146096) div 365;
          doy = doe - (365 * yoe + yoe div 4 - yoe div 100);
          mp = (5 * doy + 2) div 153;
          m = (if mp < 10 then mp + 3 else mp - 9)
      in (yoe + era * 400 + (if m \<le> 2 then 1 else 0), m, doy - (153 * mp + 2) div 5 + 1))"

definition conversion :: "char \<Rightarrow> int \<Rightarrow> string" where
  "conversion c t =
     (let days = t div 86400; (y, m, d) = civil days in
      if c = CHR ''M'' then two (t div 60 mod 60) else if c = CHR ''S'' then two (t mod 60)
      else if c = CHR ''H'' then two (t div 3600 mod 24) else if c = CHR ''Y'' then decimal (nat y)
      else if c = CHR ''m'' then two m else if c = CHR ''d'' then two d
      else if c = CHR ''a'' then week_day ((days + 4) mod 7) else if c = CHR ''Z'' then ''UTC''
      else [c])"

fun utc_strftime :: "string \<Rightarrow> int \<Rightarrow> string" where
  "utc_strftime [] t = []"
| "utc_strftime [c] t = [c]"
| "utc_strftime (c # d # f) t =
     (if c = CHR ''%'' then conversion d t @ utc_strftime f t else c # utc_strftime (d # f) t)"

lemma utc_example: "utc_strftime ''%a %Y-%m-%d %H:%M:%S %Z'' 1234567890 = ''Fri 2009-02-13 23:31:30 UTC''"
  by code_simp

lemma plain_Cons:
  "plain (c # s) \<longleftrightarrow> c \<noteq> CHR ''<'' \<and> c \<noteq> CHR ''>'' \<and> c \<noteq> CHR ''&'' \<and> c \<noteq> CHR 0x22 \<and> plain s" "plain []"
  by (auto simp: plain_def)

lemma plain_conversion: "plain [c] \<Longrightarrow> plain (conversion c t)"
proof -
  have "plain (two n)" for n by (simp add: two_def plain_Cons plain_decimal)
  moreover have "plain (week_day n)" for n by (simp add: week_day_def plain_Cons)
  moreover obtain y m d where "civil (t div 86400) = (y, m, d)" by (cases "civil (t div 86400)")
  ultimately show "plain [c] \<Longrightarrow> ?thesis" by (simp add: conversion_def Let_def plain_decimal plain_Cons)
qed

lemma plain_times_utc: "plain_times utc_strftime"
  by (simp add: plain_times_def plain_Cons plain_conversion)

definition demo_report :: "string \<Rightarrow> string" where
  "demo_report i = snd (u_test_reporter True ''-'' (xml_reporters utc_strftime) demo_info (demo_test i))"

theorem u_test_report_wellformed_witness:
  "u_test_reporter True ''-'' (xml_reporters utc_strftime) demo_info (demo_test ''demo'') = (rc_ok, demo_report ''demo'')
    \<and> scan [] (demo_report ''demo'')"
proof -
  have w: "plain (ri_host demo_info)" "plain_ids (demo_test ''demo'')"
    by (simp_all add: plain_def demo_info_def demo_test_def plain_ids_def)
  have r: "u_test_reporter True ''-'' (xml_reporters utc_strftime) demo_info (demo_test ''demo'') = (rc_ok, demo_report ''demo'')"
    by (simp add: demo_report_def u_test_reporter_def)
  from u_test_report_wellformed [OF plain_times_utc w r] r show ?thesis by blast
qed

text \<open>Nothing is escaped: an identifier with a special character spoils the document.\<close>

theorem u_test_report_unescaped: "\<not> scan [] (demo_report ''a<b'')"
  by code_simp

end
