(* ===== verification/Pwd.thy ===== *)
theory Pwd
  imports Strfun Hmap_Map
begin

text \<open>
  The password files of \<open>srcs/toolbox/pwd.c\<close>: records of the form \<open>user:password[:opaque]\<close>, read line by
  line through the callbacks of the user, or kept in a hash map that is filled again when the callback
  for changes asks for it. The world outside is a parameter of the calls, so that it may change between
  them; the callbacks read it, and the handle that the open callback gives is a value. The specialisation for
  files is on a file system that maps a path to contents and a time. \<open>mem\<close> tells for each line which allocations succeed.
\<close>

section \<open>Instances and records\<close>

definition U_PWD_LINE_MAX :: nat where "U_PWD_LINE_MAX = 256"

record u_pwd_rec =
  pr_user :: string
  pr_pass :: string
  pr_opaque :: "string option"

record ('w, 'h) u_pwd =
  res_handler :: "'h option"
  res_uri :: string
  hash_len :: nat
  cb_hash :: "(string \<Rightarrow> string) option"
  cb_open :: "'w \<Rightarrow> string \<Rightarrow> 'h option"
  cb_load :: "'h \<Rightarrow> nat \<Rightarrow> (string \<times> 'h) option"
  cb_close :: bool
  cb_notify :: "('w \<Rightarrow> string \<Rightarrow> int \<Rightarrow> int option) option"
  last_mod :: int
  in_memory :: bool
  db :: "u_pwd_rec u_hmap option"

text \<open>The allocations for a line: of the copy and the vector of the tokens, of the record and its texts, and in the map.\<close>

record line_mem =
  lm_dup :: bool
  lm_tok :: "nat \<Rightarrow> bool"
  lm_rec :: "bool \<times> bool \<times> bool \<times> bool"
  lm_obj :: "bool \<times> bool \<times> bool"
  lm_queue :: qalloc
  lm_grow :: ralloc

definition ok_mem :: line_mem where
  "ok_mem = \<lparr> lm_dup = True, lm_tok = (\<lambda>_. True), lm_rec = (True, True, True, True), lm_obj = (True, True, True),
     lm_queue = (True, True), lm_grow = (True, True, True, True) \<rparr>"

text \<open>The result of the hash callback is what it writes into its buffer.\<close>

definition u_pwd_init ::
  "bool \<Rightarrow> string option \<Rightarrow> ('w \<Rightarrow> string \<Rightarrow> 'h option) option \<Rightarrow> ('h \<Rightarrow> nat \<Rightarrow> (string \<times> 'h) option) option \<Rightarrow> bool
   \<Rightarrow> ('w \<Rightarrow> string \<Rightarrow> int \<Rightarrow> int option) option \<Rightarrow> (string \<Rightarrow> string) option \<Rightarrow> nat \<Rightarrow> bool
   \<Rightarrow> rc \<times> ('w, 'h) u_pwd option" where
  "u_pwd_init mem uri opn ld cls notify hsh hlen inmem =
     (case (uri, opn, ld) of
        (Some u, Some f, Some g) \<Rightarrow>
          if hsh \<noteq> None \<and> hlen = 0 then (rc_fail, None)
          else if \<not> mem then (rc_fail, None)
          else
            (case u_strlcpy [] u (U_FILENAME_MAX + 1) of (fits, u') \<Rightarrow>
              if \<not> fits then (rc_fail, None)
              else (rc_ok, Some \<lparr> res_handler = None, res_uri = u', hash_len = hlen, cb_hash = hsh, cb_open = f, cb_load = g,
                      cb_close = cls, cb_notify = notify, last_mod = 0, in_memory = inmem, db = None \<rparr>))
      | _ \<Rightarrow> (rc_fail, None))"

definition u_pwd_rec_new :: "bool \<times> bool \<times> bool \<times> bool \<Rightarrow> string \<Rightarrow> string \<Rightarrow> string option \<Rightarrow> u_pwd_rec option" where
  "u_pwd_rec_new al user pass opaque =
     (case al of (a_rec, a_user, a_pass, a_opaque) \<Rightarrow>
      if \<not> a_rec then None
      else
        (case (u_strdup a_user user, u_strdup a_pass pass) of
           (Some u, Some p) \<Rightarrow>
             (case opaque of
                None \<Rightarrow> Some \<lparr> pr_user = u, pr_pass = p, pr_opaque = None \<rparr>
              | Some q \<Rightarrow>
                  (case u_strdup a_opaque q of None \<Rightarrow> None
                   | Some q' \<Rightarrow> Some \<lparr> pr_user = u, pr_pass = p, pr_opaque = Some q' \<rparr>))
         | _ \<Rightarrow> None))"

definition u_pwd_rec_get_user :: "u_pwd_rec option \<Rightarrow> string option" where
  "u_pwd_rec_get_user r = map_option pr_user r"

definition u_pwd_rec_get_password :: "u_pwd_rec option \<Rightarrow> string option" where
  "u_pwd_rec_get_password r = map_option pr_pass r"

definition u_pwd_rec_get_opaque :: "u_pwd_rec option \<Rightarrow> string option" where
  "u_pwd_rec_get_opaque r = (case r of None \<Rightarrow> None | Some x \<Rightarrow> pr_opaque x)"

definition u_pwd_in_memory :: "('w, 'h) u_pwd \<Rightarrow> bool" where
  "u_pwd_in_memory pwd = in_memory pwd"

section \<open>The resource\<close>

definition u_pwd_res_open :: "'w \<Rightarrow> ('w, 'h) u_pwd \<Rightarrow> rc \<times> ('w, 'h) u_pwd" where
  "u_pwd_res_open w pwd =
     (case cb_open pwd w (res_uri pwd) of
        None \<Rightarrow> (rc_fail, pwd\<lparr> res_handler := None \<rparr>)
      | Some h \<Rightarrow> (rc_ok, pwd\<lparr> res_handler := Some h \<rparr>))"

definition u_pwd_res_close :: "('w, 'h) u_pwd \<Rightarrow> ('w, 'h) u_pwd" where
  "u_pwd_res_close pwd =
     (if res_handler pwd = None then pwd else if \<not> cb_close pwd then pwd else pwd\<lparr> res_handler := None \<rparr>)"

text \<open>The removal of a line end, which looks at the last character of the text.\<close>

definition chop_line :: "string \<Rightarrow> string outcome" where
  "chop_line ln = (if ln = [] then Inl Out_of_bounds else if last ln = nl then Inr (butlast ln) else Inr ln)"

text \<open>The record of a line; \<open>None\<close> for a bad syntax or no memory.\<close>

definition line_rec :: "line_mem \<Rightarrow> string \<Rightarrow> u_pwd_rec option outcome" where
  "line_rec m ln =
     obind (u_strtok (lm_dup m) (lm_tok m) (Some ln) (Some '':'') True True) (\<lambda>r.
       case r of None \<Rightarrow> Inr None
       | Some (toks, ntoks) \<Rightarrow>
           if ntoks < 2 then Inr None
           else Inr (u_pwd_rec_new (lm_rec m) (toks ! 0) (toks ! 1) (if ntoks < 3 then None else Some (toks ! 2))))"

text \<open>
  Access without a map: the lines up to the first one that is no comment and starts with the user and a colon. The
  result is this line, and the handle behind it.
\<close>

fun find_line ::
  "nat \<Rightarrow> ('h \<Rightarrow> nat \<Rightarrow> (string \<times> 'h) option) \<Rightarrow> string \<Rightarrow> nat \<Rightarrow> 'h \<Rightarrow> ((nat \<times> string) option \<times> 'h) outcome" where
  "find_line 0 ld uu lc h = Inl Out_of_fuel"
| "find_line (Suc n) ld uu lc h =
     (case ld h U_PWD_LINE_MAX of
        None \<Rightarrow> Inr (None, h)
      | Some (ln, h') \<Rightarrow>
          if ln \<noteq> [] \<and> hd ln = CHR ''#'' then find_line n ld uu (Suc lc) h'
          else if take (length uu) ln = uu then Inr (Some (lc, ln), h')
          else find_line n ld uu (Suc lc) h')"

definition u_pwd_retr_res ::
  "nat \<Rightarrow> (nat \<Rightarrow> line_mem) \<Rightarrow> 'w \<Rightarrow> ('w, 'h) u_pwd \<Rightarrow> string \<Rightarrow> (u_pwd_rec option \<times> ('w, 'h) u_pwd) outcome" where
  "u_pwd_retr_res fuel mem w pwd user =
     (case u_pwd_res_open w pwd of (rc, pwd1) \<Rightarrow>
       if rc \<noteq> rc_ok then Inr (None, u_pwd_res_close pwd1)
       else
         (case res_handler pwd1 of
            None \<Rightarrow> Inl Null_deref
          | Some h \<Rightarrow>
              (let uu = snd (u_snprintf U_PWD_LINE_MAX (user @ '':''))
               in obind (find_line fuel (cb_load pwd1) uu 1 h) (\<lambda>(r, h').
                 let pwd2 = pwd1\<lparr> res_handler := Some h' \<rparr>
                 in case r of
                      None \<Rightarrow> Inr (None, u_pwd_res_close pwd2)
                    | Some (lc, ln) \<Rightarrow>
                        obind (chop_line ln) (\<lambda>l.
                        obind (line_rec (mem lc) l) (\<lambda>rec. Inr (rec, u_pwd_res_close pwd2)))))))"

section \<open>The map in memory\<close>

definition u_pwd_db_new :: "bool \<times> bool \<times> bool \<times> bool \<Rightarrow> ('w, 'h) u_pwd \<Rightarrow> rc \<times> ('w, 'h) u_pwd" where
  "u_pwd_db_new al pwd =
     (case al of (a_opts, a_map, a_mopts, a_table) \<Rightarrow>
      (case u_hmap_opts_new a_opts of
         (rc, hopts) \<Rightarrow>
           if rc \<noteq> U_HMAP_ERR_NONE then (rc_fail, pwd)
           else
             (case u_hmap_opts_set_val_freefunc hopts True of
                (rc1, hopts1) \<Rightarrow>
                  if rc1 \<noteq> U_HMAP_ERR_NONE then (rc_fail, pwd)
                  else
                    (case u_hmap_easy_new hopts1 a_map a_mopts a_table of
                       (rc2, h) \<Rightarrow> if rc2 \<noteq> U_HMAP_ERR_NONE then (rc_fail, pwd) else (rc_ok, pwd\<lparr> db := h \<rparr>)))))"

definition u_pwd_db_term :: "('w, 'h) u_pwd \<Rightarrow> rc \<times> ('w, 'h) u_pwd" where
  "u_pwd_db_term pwd = (if db pwd = None then (rc_ok, pwd) else (rc_ok, pwd\<lparr> db := None \<rparr>))"

text \<open>The record of a line is at the address that is the number of the line, and so is its object in the map.\<close>

definition u_pwd_db_push ::
  "line_mem \<Rightarrow> nat \<Rightarrow> u_pwd_rec u_hmap option \<Rightarrow> u_pwd_rec \<Rightarrow> (u_hmap_ret \<times> u_pwd_rec u_hmap option) outcome" where
  "u_pwd_db_push m lc hm rec =
     (case hm of None \<Rightarrow> Inr (U_HMAP_ERR_FAIL, None)
      | Some h \<Rightarrow> u_hmap_easy_put 1 lc (lm_obj m) (lm_queue m) (lm_grow m) hm (Some (pr_user rec)) (Some rec))"

text \<open>The release of the record at an address, which must not have been released by the map.\<close>

definition u_pwd_rec_free :: "u_pwd_rec u_hmap option \<Rightarrow> nat \<Rightarrow> unit outcome" where
  "u_pwd_rec_free hm lc =
     (case hm of None \<Rightarrow> Inr ()
      | Some h \<Rightarrow>
        if lc \<in> set (h_freed h) \<and> o_val_type (h_opts h) = U_HMAP_OPTS_DATATYPE_POINTER \<and> o_f_val_free (h_opts h)
        then Inl Use_after_free else Inr ())"

definition load_line ::
  "line_mem \<Rightarrow> nat \<Rightarrow> u_pwd_rec u_hmap option \<Rightarrow> string \<Rightarrow> u_pwd_rec u_hmap option outcome" where
  "load_line m lc hm ln =
     obind (chop_line ln) (\<lambda>l.
     obind (line_rec m l) (\<lambda>r.
       case r of None \<Rightarrow> Inr hm
       | Some rec \<Rightarrow>
           obind (u_pwd_db_push m lc hm rec) (\<lambda>(rc, hm').
             if rc \<noteq> U_HMAP_ERR_NONE then obind (u_pwd_rec_free hm' lc) (\<lambda>_. Inr hm') else Inr hm')))"

fun db_load_loop ::
  "nat \<Rightarrow> (nat \<Rightarrow> line_mem) \<Rightarrow> ('h \<Rightarrow> nat \<Rightarrow> (string \<times> 'h) option) \<Rightarrow> nat \<Rightarrow> 'h \<Rightarrow> u_pwd_rec u_hmap option
   \<Rightarrow> ('h \<times> u_pwd_rec u_hmap option) outcome" where
  "db_load_loop 0 mem ld lc h hm = Inl Out_of_fuel"
| "db_load_loop (Suc n) mem ld lc h hm =
     (case ld h U_PWD_LINE_MAX of
        None \<Rightarrow> Inr (h, hm)
      | Some (ln, h') \<Rightarrow>
          if ln \<noteq> [] \<and> hd ln = CHR ''#'' then db_load_loop n mem ld (Suc lc) h' hm
          else obind (load_line (mem lc) lc hm ln) (\<lambda>hm'. db_load_loop n mem ld (Suc lc) h' hm'))"

definition u_pwd_db_load ::
  "nat \<Rightarrow> (nat \<Rightarrow> line_mem) \<Rightarrow> 'w \<Rightarrow> ('w, 'h) u_pwd \<Rightarrow> (rc \<times> ('w, 'h) u_pwd) outcome" where
  "u_pwd_db_load fuel mem w pwd =
     (case u_pwd_res_open w pwd of (rc, pwd1) \<Rightarrow>
       if rc \<noteq> rc_ok then Inr (rc_fail, u_pwd_res_close pwd1)
       else
         (case res_handler pwd1 of
            None \<Rightarrow> Inl Null_deref
          | Some h \<Rightarrow>
              obind (db_load_loop fuel mem (cb_load pwd1) 1 h (db pwd1)) (\<lambda>(h', hm).
                Inr (rc_ok, u_pwd_res_close (pwd1\<lparr> res_handler := Some h', db := hm \<rparr>)))))"

definition u_pwd_load ::
  "nat \<Rightarrow> bool \<times> bool \<times> bool \<times> bool \<Rightarrow> (nat \<Rightarrow> line_mem) \<Rightarrow> 'w \<Rightarrow> ('w, 'h) u_pwd \<Rightarrow> (rc \<times> ('w, 'h) u_pwd) outcome" where
  "u_pwd_load fuel al mem w pwd =
     (if \<not> in_memory pwd then Inr (rc_fail, pwd)
      else
        (case u_pwd_db_new al (if db pwd \<noteq> None then snd (u_pwd_db_term pwd) else pwd) of (rc, pwd1) \<Rightarrow>
          if rc \<noteq> rc_ok then Inr (rc_fail, pwd1)
          else
            obind (u_pwd_db_load fuel mem w pwd1) (\<lambda>(rc1, pwd2).
              if rc1 \<noteq> rc_ok then Inr (rc_fail, pwd2) else Inr (rc_ok, pwd2))))"

definition u_pwd_need_reload ::
  "nat \<Rightarrow> bool \<times> bool \<times> bool \<times> bool \<Rightarrow> (nat \<Rightarrow> line_mem) \<Rightarrow> 'w \<Rightarrow> ('w, 'h) u_pwd \<Rightarrow> (rc \<times> ('w, 'h) u_pwd) outcome" where
  "u_pwd_need_reload fuel al mem w pwd =
     (if \<not> in_memory pwd then Inr (rc_ok, pwd)
      else
        (case cb_notify pwd of
           None \<Rightarrow> Inr (rc_ok, pwd)
         | Some f \<Rightarrow>
             (case f w (res_uri pwd) (last_mod pwd) of
                None \<Rightarrow> Inr (rc_ok, pwd)
              | Some t \<Rightarrow> u_pwd_load fuel al mem w (pwd\<lparr> last_mod := t \<rparr>))))"

definition u_pwd_retr_mem ::
  "nat \<Rightarrow> bool \<times> bool \<times> bool \<times> bool \<Rightarrow> (nat \<Rightarrow> line_mem) \<Rightarrow> 'w \<Rightarrow> ('w, 'h) u_pwd \<Rightarrow> string
   \<Rightarrow> (u_pwd_rec option \<times> ('w, 'h) u_pwd) outcome" where
  "u_pwd_retr_mem fuel al mem w pwd user =
     obind (u_pwd_need_reload fuel al mem w pwd) (\<lambda>(_, pwd1).
       if db pwd1 = None then Inr (None, pwd1)
       else obind (u_hmap_easy_get (True, True) (db pwd1) (Some user)) (\<lambda>(r, hm). Inr (r, pwd1\<lparr> db := hm \<rparr>)))"

section \<open>Retrieval and authentication\<close>

definition u_pwd_retr ::
  "nat \<Rightarrow> bool \<times> bool \<times> bool \<times> bool \<Rightarrow> (nat \<Rightarrow> line_mem) \<Rightarrow> 'w \<Rightarrow> ('w, 'h) u_pwd option \<Rightarrow> string option
   \<Rightarrow> (u_pwd_rec option \<times> ('w, 'h) u_pwd option) outcome" where
  "u_pwd_retr fuel al mem w pwd user =
     (case (pwd, user) of
        (Some p, Some u) \<Rightarrow>
          obind (if in_memory p then u_pwd_retr_mem fuel al mem w p u else u_pwd_retr_res fuel mem w p u)
            (\<lambda>(r, p'). Inr (r, Some p'))
      | _ \<Rightarrow> Inr (None, pwd))"

text \<open>
  The comparison with the hashed password: the buffer has the length of the instance, and the callback and the
  comparison must stay in it.
\<close>

definition hash_cmp :: "nat \<Rightarrow> string \<Rightarrow> string \<Rightarrow> int outcome" where
  "hash_cmp n hashed pass =
     (if length hashed > n then Inl Out_of_bounds
      else
        (let buf = hashed @ replicate (n - length hashed) NUL
         in if NUL \<in> set buf then Inr (strcmp (takeWhile (\<lambda>c. c \<noteq> NUL) buf) pass)
            else if take n pass = buf then Inl Out_of_bounds
            else Inr (strcmp buf pass)))"

definition u_pwd_auth_user ::
  "nat \<Rightarrow> bool \<Rightarrow> bool \<times> bool \<times> bool \<times> bool \<Rightarrow> (nat \<Rightarrow> line_mem) \<Rightarrow> 'w \<Rightarrow> ('w, 'h) u_pwd option \<Rightarrow> string option
   \<Rightarrow> string option \<Rightarrow> (int \<times> ('w, 'h) u_pwd option) outcome" where
  "u_pwd_auth_user fuel a_buf al mem w pwd user password =
     (case password of None \<Rightarrow> Inr (rc_fail, pwd)
      | Some pw \<Rightarrow>
        obind (u_pwd_retr fuel al mem w pwd user) (\<lambda>(r, pwd1).
          case (r, pwd1) of
            (Some rec, Some p) \<Rightarrow>
              (case cb_hash p of
                 Some f \<Rightarrow>
                   if \<not> a_buf then Inr (rc_fail, pwd1)
                   else obind (hash_cmp (hash_len p) (f pw) (pr_pass rec)) (\<lambda>c. Inr (c, pwd1))
               | None \<Rightarrow> Inr (strcmp (snd (u_strlcpy [] pw U_PWD_LINE_MAX)) (pr_pass rec), pwd1))
          | _ \<Rightarrow> Inr (rc_fail, pwd1)))"

section \<open>Files\<close>

text \<open>The file system: contents and time of the last change of a path. A handle is the text that is left.\<close>

type_synonym pwd_fs = "string \<Rightarrow> (string \<times> int) option"

definition file_open :: "pwd_fs \<Rightarrow> string \<Rightarrow> string option" where
  "file_open w path = map_option fst (w path)"

definition file_load :: "string \<Rightarrow> nat \<Rightarrow> (string \<times> string) option" where
  "file_load st n =
     (if st = [] then None
      else (let chunk = take_line (n - 1) st in Some (takeWhile (\<lambda>c. c \<noteq> NUL) chunk, drop (length chunk) st)))"

definition file_notify :: "pwd_fs \<Rightarrow> string \<Rightarrow> int \<Rightarrow> int option" where
  "file_notify w path since =
     (case w path of None \<Rightarrow> None | Some (_, t) \<Rightarrow> if t \<noteq> since then Some t else None)"

definition u_pwd_init_file ::
  "bool \<Rightarrow> string option \<Rightarrow> (string \<Rightarrow> string) option \<Rightarrow> nat \<Rightarrow> bool \<Rightarrow> rc \<times> (pwd_fs, string) u_pwd option" where
  "u_pwd_init_file mem uri hsh hlen inmem =
     u_pwd_init mem uri (Some file_open) (Some file_load) True (Some file_notify) hsh hlen inmem"

section \<open>What a password file says\<close>

datatype pwd_line = Remark string | Entry string string "string option"

fun line_text :: "pwd_line \<Rightarrow> string" where
  "line_text (Remark s) = CHR ''#'' # s"
| "line_text (Entry u p q) = u @ '':'' @ p @ (case q of None \<Rightarrow> [] | Some x \<Rightarrow> '':'' @ x)"

definition plain :: "string \<Rightarrow> bool" where
  "plain s = (s \<noteq> [] \<and> CHR '':'' \<notin> set s \<and> nl \<notin> set s \<and> NUL \<notin> set s)"

fun line_ok :: "pwd_line \<Rightarrow> bool" where
  "line_ok (Remark s) = (nl \<notin> set s \<and> NUL \<notin> set s \<and> length s < 254)"
| "line_ok (Entry u p q) =
     (plain u \<and> plain p \<and> (case q of None \<Rightarrow> True | Some x \<Rightarrow> plain x) \<and> hd u \<noteq> CHR ''#''
      \<and> length (line_text (Entry u p q)) < 255)"

definition pwd_text :: "pwd_line list \<Rightarrow> string" where
  "pwd_text ls = concat (map (\<lambda>l. line_text l @ [nl]) ls)"

fun line_entry :: "pwd_line \<Rightarrow> (string \<times> u_pwd_rec) list" where
  "line_entry (Remark s) = []"
| "line_entry (Entry u p q) = [(u, \<lparr> pr_user = u, pr_pass = p, pr_opaque = q \<rparr>)]"

definition entries :: "pwd_line list \<Rightarrow> (string \<times> u_pwd_rec) list" where
  "entries ls = concat (map line_entry ls)"

lemma entries_simps [simp]:
  "entries [] = []" "entries (l # ls) = line_entry l @ entries ls"
  by (simp_all add: entries_def)

lemma line_text_ok:
  assumes "line_ok l"
  shows "nl \<notin> set (line_text l)" "NUL \<notin> set (line_text l)" "length (line_text l) < 255" "line_text l \<noteq> []"
  using assms by (cases l; auto simp: plain_def split: option.splits)+

lemma fields_plain: "\<forall>c \<in> set d. c \<notin> set s \<Longrightarrow> Strfun.fields d s = [s]"
  by (induction s) auto

lemma fields_cut: "\<forall>c \<in> set d. c \<notin> set s \<Longrightarrow> x \<in> set d \<Longrightarrow> Strfun.fields d (s @ x # t) = s # Strfun.fields d t"
  by (induction s) auto

lemma chop_line_nl [simp]: "chop_line (l @ [nl]) = Inr l"
  by (simp add: chop_line_def)

lemma line_rec_ok:
  assumes "line_ok (Entry u p q)"
  shows "line_rec ok_mem (line_text (Entry u p q)) = Inr (Some \<lparr> pr_user = u, pr_pass = p, pr_opaque = q \<rparr>)"
proof -
  have "pieces '':'' (Some (line_text (Entry u p q))) = [u, p] @ (case q of None \<Rightarrow> [] | Some x \<Rightarrow> [x])"
    using assms by (auto simp: pieces_def plain_def fields_cut fields_plain split: option.splits)
  then show ?thesis
    by (cases q) (simp_all add: line_rec_def ok_mem_def u_strtok_ok u_pwd_rec_new_def u_strdup_def u_strndup_def)
qed

text \<open>The first line of a user.\<close>

definition of_user :: "string \<Rightarrow> pwd_line \<Rightarrow> bool" where
  "of_user user l = (case l of Remark _ \<Rightarrow> False | Entry u _ _ \<Rightarrow> u = user)"

lemma first_entry: "map_of (entries ls) user = (case find (of_user user) ls of None \<Rightarrow> None | Some l \<Rightarrow> map_of (line_entry l) user)"
proof (induction ls)
  case (Cons l ls)
  then show ?case by (cases l) (auto simp: of_user_def)
qed simp

lemma colon_prefix:
  assumes "CHR '':'' \<notin> set u" "CHR '':'' \<notin> set v"
  shows "take (length (v @ '':'')) (u @ CHR '':'' # t) = v @ '':'' \<longleftrightarrow> u = v"
proof
  assume a: "take (length (v @ '':'')) (u @ CHR '':'' # t) = v @ '':''"
  then have "u @ CHR '':'' # t = v @ CHR '':'' # drop (Suc (length v)) (u @ CHR '':'' # t)"
    by (metis append.assoc append_Cons append_Nil append_take_drop_id length_append_singleton)
  then have "takeWhile (\<lambda>c. c \<noteq> CHR '':'') (u @ CHR '':'' # t) = takeWhile (\<lambda>c. c \<noteq> CHR '':'') (v @ CHR '':'' # drop (Suc (length v)) (u @ CHR '':'' # t))"
    by (rule arg_cong)
  then show "u = v" using assms by (auto simp: takeWhile_append split: if_splits)
qed simp

lemma line_of_user:
  assumes "line_ok l" "CHR '':'' \<notin> set user"
  shows "hd (line_text l @ [nl]) \<noteq> CHR ''#'' \<and> take (length (user @ '':'')) (line_text l @ [nl]) = user @ '':'' \<longleftrightarrow> of_user user l"
proof (cases l)
  case (Entry u p q)
  with assms have "hd (line_text l @ [nl]) \<noteq> CHR ''#''" by (auto simp: plain_def hd_append)
  moreover have "take (length (user @ '':'')) (line_text l @ [nl]) = user @ '':'' \<longleftrightarrow> u = user"
    using assms Entry colon_prefix [of u user] by (auto simp: plain_def)
  ultimately show ?thesis using Entry by (simp add: of_user_def)
qed (simp add: of_user_def)

section \<open>The interface of a source of lines\<close>

text \<open>
  What the module relies on: \<open>ld\<close> gives the lines that the handle still shows, one by one and with their ends,
  and then reports the end.
\<close>

locale pwd_source =
  fixes ld :: "'h \<Rightarrow> nat \<Rightarrow> (string \<times> 'h) option" and shows_lines :: "'h \<Rightarrow> pwd_line list \<Rightarrow> bool"
  assumes src_end: "shows_lines h [] \<Longrightarrow> ld h U_PWD_LINE_MAX = None"
    and src_line: "shows_lines h (l # ls) \<Longrightarrow> \<exists>h'. ld h U_PWD_LINE_MAX = Some (line_text l @ [nl], h') \<and> shows_lines h' ls"
    and src_ok: "shows_lines h ls \<Longrightarrow> list_all line_ok ls"
begin

lemma find_user:
  assumes "shows_lines h ls" "length ls < n" "CHR '':'' \<notin> set user"
  shows "\<exists>h' r. find_line n ld (user @ '':'') lc h = Inr (r, h')
    \<and> (case find (of_user user) ls of None \<Rightarrow> r = None | Some l \<Rightarrow> line_ok l \<and> (\<exists>k. r = Some (k, line_text l @ [nl])))"
  using assms(1,2)
proof (induction ls arbitrary: n lc h)
  case Nil
  then show ?case using src_end by (cases n) auto
next
  case (Cons l ls)
  obtain m where m: "n = Suc m" "length ls < m" using Cons.prems(2) by (cases n) auto
  obtain h' where h: "ld h U_PWD_LINE_MAX = Some (line_text l @ [nl], h')" "shows_lines h' ls"
    using src_line [OF Cons.prems(1)] by blast
  have ok: "line_ok l" using src_ok [OF Cons.prems(1)] by simp
  note u = line_of_user [OF ok assms(3)] and ne = line_text_ok(4) [OF ok] and ih = Cons.IH [OF h(2) m(2), of "Suc lc"]
  show ?case
  proof (cases "of_user user l")
    case True
    with u h(1) m(1) ok ne show ?thesis by simp
  next
    case False
    with u have s: "find_line n ld (user @ '':'') lc h = find_line m ld (user @ '':'') (Suc lc) h'"
      using h(1) m(1) ne by (auto simp: hd_append)
    show ?thesis unfolding s using ih False by simp
  qed
qed

lemma load_lines:
  assumes "shows_lines h ls" "length ls < n" "distinct (map fst (entries ls))" "hm_inv (hm, lc)"
    "\<forall>k \<in> fst ` set (entries ls). hmap_map hm k = None" "h_sz hm + length ls \<le> hmap_bound"
  shows "\<exists>h' hm'. db_load_loop n (\<lambda>_. ok_mem) ld lc h (Some hm) = Inr (h', Some hm') \<and> hm_inv (hm', lc + length ls)
    \<and> hmap_map hm' = hmap_map hm ++ map_of (entries ls)"
  using assms
proof (induction ls arbitrary: n lc h hm)
  case Nil
  then show ?case using src_end by (cases n) auto
next
  case (Cons l ls)
  obtain m where m: "n = Suc m" "length ls < m" using Cons.prems(2) by (cases n) auto
  obtain h' where h: "ld h U_PWD_LINE_MAX = Some (line_text l @ [nl], h')" "shows_lines h' ls"
    using src_line [OF Cons.prems(1)] by blast
  have ok: "line_ok l" using src_ok [OF Cons.prems(1)] by simp
  show ?case
  proof (cases l)
    case (Remark s)
    have "hm_inv (hm, Suc lc)" using Cons.prems(4) by (auto simp: hm_inv_def)
    then have "\<exists>h'' hm'. db_load_loop m (\<lambda>_. ok_mem) ld (Suc lc) h' (Some hm) = Inr (h'', Some hm') \<and> hm_inv (hm', Suc lc + length ls)
      \<and> hmap_map hm' = hmap_map hm ++ map_of (entries ls)"
      using Cons.prems Remark h(2) m(2) by (intro Cons.IH) auto
    then show ?thesis using h(1) m(1) Remark by simp
  next
    case (Entry u p q)
    let ?r = "\<lparr> pr_user = u, pr_pass = p, pr_opaque = q \<rparr>"
    have none: "hmap_map hm u = None" using Cons.prems(5) Entry by simp
    obtain t where t: "hm_put (hm, lc) u ?r = Some t" "h_sz (fst t) = Suc (h_sz hm)"
      using hm_put_succeeds [OF Cons.prems(4), of u ?r] Cons.prems(6) none by auto
    have l: "hm_inv t" "hmap_map (fst t) = (hmap_map hm)(u \<mapsto> ?r)"
      using hm.put_law [OF Cons.prems(4) t(1)] by auto
    have e: "u_hmap_easy_put 1 lc (True, True, True) (True, True) ok_ra (Some hm) (Some u) (Some ?r) = Inr (U_HMAP_ERR_NONE, Some (fst t))"
      "snd t = Suc lc"
      using t(1) by (auto simp: hm_put_def split: sum.splits prod.splits u_hmap_ret.splits option.splits)
    have "load_line ok_mem lc (Some hm) (line_text l @ [nl]) = Inr (Some (fst t))"
      using line_rec_ok [of u p q] ok e(1) Entry
      by (simp add: load_line_def u_pwd_db_push_def ok_mem_def del: line_text.simps line_ok.simps)
    moreover have "\<not> hd (line_text l @ [nl]) = CHR ''#''" using ok Entry by (auto simp: plain_def hd_append)
    ultimately have step: "db_load_loop n (\<lambda>_. ok_mem) ld lc h (Some hm) = db_load_loop m (\<lambda>_. ok_mem) ld (Suc lc) h' (Some (fst t))"
      using h(1) m(1) by simp
    have "map_of (entries ls) u = None" using Cons.prems(3) Entry by (auto simp: map_of_eq_None_iff)
    then have all: "hmap_map (fst t) ++ map_of (entries ls) = hmap_map hm ++ map_of (entries (l # ls))"
      unfolding l(2) Entry by (intro ext) (auto simp: map_add_def split: option.splits)
    have "hm_inv (fst t, Suc lc)" using l(1) e(2) by (metis prod.collapse)
    then have "\<exists>h'' hm'. db_load_loop m (\<lambda>_. ok_mem) ld (Suc lc) h' (Some (fst t)) = Inr (h'', Some hm') \<and> hm_inv (hm', Suc lc + length ls)
      \<and> hmap_map hm' = hmap_map (fst t) ++ map_of (entries ls)"
      using Cons.prems Entry h(2) m(2) t(2) l(2) by (intro Cons.IH) auto
    then show ?thesis unfolding step all by simp
  qed
qed

end

section \<open>Retrieval from a source\<close>

lemma fresh_db:
  "\<exists>hm. u_pwd_db_new (True, True, True, True) pwd = (rc_ok, pwd\<lparr> db := Some hm \<rparr>) \<and> hm_inv (hm, k) \<and> hmap_map hm = Map.empty \<and> h_sz hm = 0"
proof -
  let ?o = "(u_hmap_opts_init zero_opts)\<lparr> o_f_val_free := True, o_val_free_set := True, o_easy := True \<rparr> :: u_pwd_rec u_hmap_opts"
  have "good_opts ?o" by (rule good_optsI) (simp_all add: u_hmap_opts_init_def zero_opts_def opts_check_def)
  moreover have "next_prime (o_size ?o) 0 = Some (599, 12)" by (simp add: u_hmap_opts_init_def next_prime_def primes_def)
  ultimately obtain hm where h: "u_hmap_new (Some ?o) True True True = (U_HMAP_ERR_NONE, Some hm)" "hmap_inv hm" "objs hm = []" "h_sz hm = 0"
    "o_options (h_opts hm) = o_options ?o" using u_hmap_new_ok by blast
  have "o_options ?o AND U_HMAP_OPTS_NO_OVERWRITE \<noteq> 0" by (simp add: u_hmap_opts_init_def U_HMAP_OPTS_NO_OVERWRITE_def)
  with h show ?thesis
    by (intro exI [of _ hm])
      (simp add: u_pwd_db_new_def u_hmap_opts_new_def u_hmap_opts_set_val_freefunc_def u_hmap_easy_new_def hm_inv_def hmap_map_def)
qed

text \<open>What a retrieval leaves alone.\<close>

definition same_setup :: "('w, 'h) u_pwd \<Rightarrow> ('w, 'h) u_pwd \<Rightarrow> bool" where
  "same_setup p p' = (res_uri p' = res_uri p \<and> cb_open p' = cb_open p \<and> cb_load p' = cb_load p \<and> cb_notify p' = cb_notify p
     \<and> cb_hash p' = cb_hash p \<and> hash_len p' = hash_len p \<and> in_memory p' = in_memory p)"

lemma same_setup_simps [simp]:
  "same_setup p p" "same_setup q (p\<lparr> res_handler := x \<rparr>) = same_setup q p" "same_setup q (p\<lparr> db := y \<rparr>) = same_setup q p"
  "same_setup q (p\<lparr> last_mod := t \<rparr>) = same_setup q p"
  by (simp_all add: same_setup_def)

lemma same_setupD:
  "same_setup p q \<Longrightarrow> res_uri q = res_uri p" "same_setup p q \<Longrightarrow> cb_open q = cb_open p" "same_setup p q \<Longrightarrow> cb_load q = cb_load p"
  "same_setup p q \<Longrightarrow> cb_notify q = cb_notify p" "same_setup p q \<Longrightarrow> cb_hash q = cb_hash p" "same_setup p q \<Longrightarrow> hash_len q = hash_len p"
  "same_setup p q \<Longrightarrow> in_memory q = in_memory p"
  by (simp_all add: same_setup_def)

lemma close_simps [simp]:
  "db (u_pwd_res_close p) = db p" "last_mod (u_pwd_res_close p) = last_mod p" "same_setup q (u_pwd_res_close p) = same_setup q p"
  by (simp_all add: u_pwd_res_close_def same_setup_def)

definition holds :: "('w, 'h) u_pwd \<Rightarrow> (string \<rightharpoonup> u_pwd_rec) \<Rightarrow> bool" where
  "holds p m = (\<exists>hm. db p = Some hm \<and> hmap_inv hm \<and> hmap_map hm = m)"

context pwd_source begin

lemma retr_res:
  assumes "cb_load pwd = ld" "cb_open pwd w (res_uri pwd) = Some h" "shows_lines h ls" "length ls < fuel"
    "CHR '':'' \<notin> set user" "length user < 255"
  shows "\<exists>pwd'. u_pwd_retr_res fuel (\<lambda>_. ok_mem) w pwd user = Inr (map_of (entries ls) user, pwd') \<and> same_setup pwd pwd'"
proof -
  have uu: "snd (u_snprintf U_PWD_LINE_MAX (user @ '':'')) = user @ '':''" using assms(6) by (simp add: u_snprintf_def U_PWD_LINE_MAX_def)
  obtain h' r where f: "find_line fuel ld (user @ '':'') 1 h = Inr (r, h')"
    "case find (of_user user) ls of None \<Rightarrow> r = None | Some l \<Rightarrow> line_ok l \<and> (\<exists>k. r = Some (k, line_text l @ [nl]))"
    using find_user [OF assms(3-5), of 1] by blast
  show ?thesis
  proof (cases "find (of_user user) ls")
    case None
    with f uu assms(1,2) show ?thesis by (simp add: u_pwd_retr_res_def u_pwd_res_open_def first_entry)
  next
    case (Some l)
    have "of_user user l" using Some by (auto simp: find_Some_iff)
    then obtain p q where l: "l = Entry user p q" by (cases l) (auto simp: of_user_def)
    with Some f(2) obtain k where k: "line_ok (Entry user p q)" "r = Some (k, line_text (Entry user p q) @ [nl])" by auto
    show ?thesis
      using Some f(1) uu assms(1,2) k line_rec_ok [OF k(1)] l
      by (simp add: u_pwd_retr_res_def u_pwd_res_open_def first_entry del: line_text.simps)
  qed
qed

lemma load_ok:
  assumes "cb_load pwd = ld" "cb_open pwd w (res_uri pwd) = Some h" "shows_lines h ls" "length ls < fuel"
    "distinct (map fst (entries ls))" "length ls \<le> hmap_bound" "in_memory pwd"
  shows "\<exists>pwd'. u_pwd_load fuel (True, True, True, True) (\<lambda>_. ok_mem) w pwd = Inr (rc_ok, pwd') \<and> same_setup pwd pwd'
    \<and> last_mod pwd' = last_mod pwd \<and> holds pwd' (map_of (entries ls))"
proof -
  let ?p = "if db pwd \<noteq> None then snd (u_pwd_db_term pwd) else pwd"
  obtain p where q: "p = ?p" by blast
  have p: "same_setup pwd p" "last_mod p = last_mod pwd" by (simp_all add: q u_pwd_db_term_def)
  note d = same_setupD [OF p(1)]
  obtain hm where hm: "u_pwd_db_new (True, True, True, True) p = (rc_ok, p\<lparr> db := Some hm \<rparr>)" "hm_inv (hm, 1)"
    "hmap_map hm = Map.empty" "h_sz hm = 0" using fresh_db by blast
  then obtain h' hm' where l: "db_load_loop fuel (\<lambda>_. ok_mem) ld 1 h (Some hm) = Inr (h', Some hm')" "hm_inv (hm', 1 + length ls)"
    "hmap_map hm' = map_of (entries ls)" using load_lines [OF assms(3-5) hm(2)] assms(6) by auto
  have "u_pwd_db_load fuel (\<lambda>_. ok_mem) w (p\<lparr> db := Some hm \<rparr>)
    = Inr (rc_ok, u_pwd_res_close (p\<lparr> res_handler := Some h', db := Some hm' \<rparr>))"
    using l(1) d assms(1,2) by (simp add: u_pwd_db_load_def u_pwd_res_open_def)
  moreover have "hmap_inv hm'" using l(2) by (simp add: hm_inv_def)
  ultimately show ?thesis using assms(7) hm(1) l(3) p unfolding u_pwd_load_def q [symmetric] by (simp add: holds_def)
qed

end

lemma retr_cached:
  assumes "u_pwd_need_reload fuel al mem w pwd = Inr (rc, pwd1)" "holds pwd1 m"
  shows "\<exists>pwd'. u_pwd_retr_mem fuel al mem w pwd user = Inr (m user, pwd') \<and> same_setup pwd1 pwd' \<and> last_mod pwd' = last_mod pwd1 \<and> holds pwd' m"
proof -
  obtain hm where hm: "db pwd1 = Some hm" "hmap_inv hm" "hmap_map hm = m" using assms(2) by (auto simp: holds_def)
  have "u_hmap_easy_get (True, True) (Some hm) (Some user) = Inr (m user, Some hm)"
    using u_hmap_get_ok [OF hm(2), where k = user and al = "(True, True)"] hm(3) by (cases "m user") (auto simp: u_hmap_easy_get_def)
  with assms(1) hm show ?thesis by (simp add: u_pwd_retr_mem_def same_setup_def holds_def)
qed

interpretation pf: pwd_source file_load "\<lambda>h ls. h = pwd_text ls \<and> list_all line_ok ls"
proof
  show "file_load h U_PWD_LINE_MAX = None" if "h = pwd_text [] \<and> list_all line_ok []" for h
    using that by (simp add: file_load_def pwd_text_def)
  show "\<exists>h'. file_load h U_PWD_LINE_MAX = Some (line_text l @ [nl], h') \<and> h' = pwd_text ls \<and> list_all line_ok ls"
    if "h = pwd_text (l # ls) \<and> list_all line_ok (l # ls)" for h l ls
  proof -
    have l: "nl \<notin> set (line_text l)" "NUL \<notin> set (line_text l)" "length (line_text l) < 255"
      using line_text_ok that by auto
    have "h = line_text l @ nl # pwd_text ls" using that by (simp add: pwd_text_def)
    moreover have "takeWhile (\<lambda>c. c \<noteq> NUL) (line_text l @ [nl]) = line_text l @ [nl]" using l(2) by (intro takeWhile_eq_all_conv [THEN iffD2]) auto
    moreover have "take_line (U_PWD_LINE_MAX - 1) (line_text l @ nl # pwd_text ls) = line_text l @ [nl]"
      using l by (intro take_line_ok) (simp_all add: U_PWD_LINE_MAX_def)
    ultimately show ?thesis using that by (simp add: file_load_def)
  qed
qed simp

section \<open>Properties\<close>

text \<open>The comparison of a clear text password, which is cut to the length of a line.\<close>

lemma clear_cmp:
  assumes "length p < 255"
  shows "strcmp (snd (u_strlcpy [] pw U_PWD_LINE_MAX)) p = 0 \<longleftrightarrow> pw = p"
  using assms by (auto simp: u_strlcpy_eq U_PWD_LINE_MAX_def strcmp_eq take_all_iff min_def split: if_splits)

lemma entry_pass_short: "list_all line_ok ls \<Longrightarrow> map_of (entries ls) user = Some r \<Longrightarrow> length (pr_pass r) < 255"
proof (induction ls)
  case (Cons l ls)
  then show ?case by (cases l) (auto split: if_splits)
qed simp

text \<open>A retrieval from a file, at the first time or again, and both ways.\<close>

lemma retr_file:
  assumes "w uri = Some (pwd_text ls, t)" "list_all line_ok ls" "distinct (map fst (entries ls))" "length ls \<le> hmap_bound"
    "length ls < fuel" "CHR '':'' \<notin> set user" "length user < 255"
    "cb_open p = file_open" "cb_load p = file_load" "cb_notify p = Some file_notify" "res_uri p = uri" "last_mod p \<noteq> t"
  shows "\<exists>p'. u_pwd_retr fuel (True, True, True, True) (\<lambda>_. ok_mem) w (Some p) (Some user) = Inr (map_of (entries ls) user, Some p')
    \<and> same_setup p p' \<and> (in_memory p \<longrightarrow> last_mod p' = t \<and> holds p' (map_of (entries ls)))"
proof (cases "in_memory p")
  case True
  let ?p = "p\<lparr> last_mod := t \<rparr>"
  have o: "cb_load ?p = file_load" "cb_open ?p w (res_uri ?p) = Some (pwd_text ls)" "in_memory ?p" using assms True by (simp_all add: file_open_def)
  obtain p1 where p1: "u_pwd_load fuel (True, True, True, True) (\<lambda>_. ok_mem) w ?p = Inr (rc_ok, p1)" "same_setup ?p p1" "last_mod p1 = t"
    "holds p1 (map_of (entries ls))" using pf.load_ok [OF o(1,2) _ assms(5,3,4) o(3)] assms(2) by auto
  have "u_pwd_need_reload fuel (True, True, True, True) (\<lambda>_. ok_mem) w p = Inr (rc_ok, p1)"
    using True assms(1,10-12) p1(1) by (simp add: u_pwd_need_reload_def file_notify_def)
  from retr_cached [OF this p1(4), of user] show ?thesis
    using True p1(2,3) by (auto simp: u_pwd_retr_def same_setup_def)
next
  case False
  have "cb_open p w (res_uri p) = Some (pwd_text ls)" using assms by (simp add: file_open_def)
  from pf.retr_res [OF assms(9) this _ assms(5-7)] assms(2) False show ?thesis by (auto simp: u_pwd_retr_def)
qed

text \<open>
  C24: authentication without a hash function, through \<open>u_pwd_init_file\<close>, when all
  allocations succeed. The file exists, has a time of change other than 0, and each of its lines is
  a comment or an entry of a user, a password and perhaps optional data, none of them empty or with
  a colon, and is shorter than the buffer; its users are all different, and it has at most 2 ^ 28
  lines. Then any user name of fewer than 255 characters without a colon passes, with return code
  zero, exactly with the password that the file has for this user, whether the file is read at each
  call or loaded into the hash map. With the map, a second call for any user gives the same from the
  memory while the time of the file has not changed, or when the file is gone.
\<close>

theorem u_pwd_auth_spec:
  assumes "w uri = Some (pwd_text ls, t)" "list_all line_ok ls" "distinct (map fst (entries ls))" "length ls \<le> hmap_bound"
    "length ls < fuel" "CHR '':'' \<notin> set user" "length user < 255" "t \<noteq> 0" "length uri \<le> U_FILENAME_MAX"
  shows "\<exists>p c p1. u_pwd_init_file True (Some uri) None 0 inmem = (rc_ok, Some p)
    \<and> u_pwd_auth_user fuel a (True, True, True, True) (\<lambda>_. ok_mem) w (Some p) (Some user) (Some pw) = Inr (c, Some p1)
    \<and> (c = 0 \<longleftrightarrow> map_option pr_pass (map_of (entries ls) user) = Some pw)
    \<and> (inmem \<longrightarrow> (\<forall>w2 fuel2 user2 pw2. map_option snd (w2 uri) \<in> {None, Some t} \<longrightarrow>
        (\<exists>c2 p2. u_pwd_auth_user fuel2 a (True, True, True, True) (\<lambda>_. ok_mem) w2 (Some p1) (Some user2) (Some pw2) = Inr (c2, Some p2)
          \<and> (c2 = 0 \<longleftrightarrow> map_option pr_pass (map_of (entries ls) user2) = Some pw2))))"
proof -
  let ?m = "map_of (entries ls)" and ?al = "(True, True, True, True)"
  let ?p = "\<lparr> res_handler = None, res_uri = uri, hash_len = 0, cb_hash = None, cb_open = file_open, cb_load = file_load,
    cb_close = True, cb_notify = Some file_notify, last_mod = 0, in_memory = inmem, db = None \<rparr>"
  have init: "u_pwd_init_file True (Some uri) None 0 inmem = (rc_ok, Some ?p)"
    using assms(9) by (simp add: u_pwd_init_file_def u_pwd_init_def u_strlcpy_ok)
  have auth: "\<exists>c. u_pwd_auth_user f a ?al (\<lambda>_. ok_mem) v (Some q) (Some x) (Some y) = Inr (c, Some q')
      \<and> (c = 0 \<longleftrightarrow> map_option pr_pass (?m x) = Some y)"
    if "u_pwd_retr f ?al (\<lambda>_. ok_mem) v (Some q) (Some x) = Inr (?m x, Some q')" "cb_hash q' = None" for f v q q' x y
  proof (cases "?m x")
    case (Some r)
    with that clear_cmp [OF entry_pass_short [OF assms(2) Some], of y] show ?thesis by (auto simp: u_pwd_auth_user_def)
  qed (use that in \<open>simp add: u_pwd_auth_user_def\<close>)
  obtain p1 where p1: "u_pwd_retr fuel ?al (\<lambda>_. ok_mem) w (Some ?p) (Some user) = Inr (?m user, Some p1)"
    "same_setup ?p p1" "inmem \<longrightarrow> last_mod p1 = t \<and> holds p1 ?m"
    using retr_file [where w = w and uri = uri and p = ?p, OF assms(1-7)] assms(8) by auto
  note d = same_setupD [OF p1(2), simplified]
  have again: "\<exists>c2 p2. u_pwd_auth_user f2 a ?al (\<lambda>_. ok_mem) w2 (Some p1) (Some x) (Some y) = Inr (c2, Some p2)
      \<and> (c2 = 0 \<longleftrightarrow> map_option pr_pass (?m x) = Some y)"
    if "inmem" "map_option snd (w2 uri) \<in> {None, Some t}" for w2 f2 x y
  proof -
    have n: "u_pwd_need_reload f2 ?al (\<lambda>_. ok_mem) w2 p1 = Inr (rc_ok, p1)"
      using that d p1(3) by (auto simp: u_pwd_need_reload_def file_notify_def split: option.splits)
    have h: "holds p1 ?m" using p1(3) that(1) by blast
    obtain p2 where "u_pwd_retr_mem f2 ?al (\<lambda>_. ok_mem) w2 p1 x = Inr (?m x, p2)" "same_setup p1 p2"
      using retr_cached [OF n h, of x] by auto
    then show ?thesis using auth [of f2 w2 p1 x p2 y] that(1) d by (auto simp: u_pwd_retr_def same_setup_def)
  qed
  obtain c where "u_pwd_auth_user fuel a ?al (\<lambda>_. ok_mem) w (Some ?p) (Some user) (Some pw) = Inr (c, Some p1)"
    "c = 0 \<longleftrightarrow> map_option pr_pass (?m user) = Some pw"
    using auth [OF p1(1), of pw] d by auto
  with init again show ?thesis by blast
qed

definition sample_lines :: "pwd_line list" where
  "sample_lines = [Remark ''users'', Entry ''jake'' ''joliet'' (Some ''blues''), Entry ''steve'' ''colonel'' None]"

definition sample_fs :: "string \<Rightarrow> pwd_fs" where
  "sample_fs txt path = (if path = ''f'' then Some (txt, 1) else None)"

theorem u_pwd_auth_spec_witness:
  "\<exists>p p1. u_pwd_init_file True (Some ''f'') None 0 True = (rc_ok, Some p)
    \<and> u_pwd_auth_user 9 True (True, True, True, True) (\<lambda>_. ok_mem) (sample_fs (pwd_text sample_lines)) (Some p) (Some ''jake'') (Some ''joliet'')
      = Inr (0, Some p1)
    \<and> (\<exists>c p2. u_pwd_auth_user 0 True (True, True, True, True) (\<lambda>_. ok_mem) (\<lambda>_. None) (Some p1) (Some ''steve'') (Some ''x'') = Inr (c, Some p2) \<and> c \<noteq> 0)"
proof -
  have "list_all line_ok sample_lines" "distinct (map fst (entries sample_lines))" "length sample_lines = 3"
    by (simp_all add: sample_lines_def plain_def)
  then obtain p c p1 where *: "u_pwd_init_file True (Some ''f'') None 0 True = (rc_ok, Some p)"
    "u_pwd_auth_user 9 True (True, True, True, True) (\<lambda>_. ok_mem) (sample_fs (pwd_text sample_lines)) (Some p) (Some ''jake'') (Some ''joliet'')
      = Inr (c, Some p1)"
    "c = 0 \<longleftrightarrow> map_option pr_pass (map_of (entries sample_lines) ''jake'') = Some ''joliet''"
    "\<forall>w2 fuel2 user2 pw2. map_option snd (w2 ''f'') \<in> {None, Some 1} \<longrightarrow>
        (\<exists>c2 p2. u_pwd_auth_user fuel2 True (True, True, True, True) (\<lambda>_. ok_mem) w2 (Some p1) (Some user2) (Some pw2) = Inr (c2, Some p2)
          \<and> (c2 = 0 \<longleftrightarrow> map_option pr_pass (map_of (entries sample_lines) user2) = Some pw2))"
    using u_pwd_auth_spec [of "sample_fs (pwd_text sample_lines)" "''f''" sample_lines 1 9 "''jake''" True True "''joliet''"]
    by (auto simp: sample_fs_def hmap_bound_def U_FILENAME_MAX_def)
  have "c = 0" using *(3) by (simp add: sample_lines_def)
  moreover have "map_option pr_pass (map_of (entries sample_lines) ''steve'') \<noteq> Some ''x''" by (simp add: sample_lines_def)
  ultimately show ?thesis using *(1,2) *(4) [rule_format, of "\<lambda>_. None" 0 "''steve''" "''x''"] by auto
qed

section \<open>Deviations\<close>

text \<open>The empty map of an instance, and the map with one record.\<close>

definition db_opts :: "u_pwd_rec u_hmap_opts" where
  "db_opts = (u_hmap_opts_init zero_opts)\<lparr> o_f_val_free := True, o_val_free_set := True, o_easy := True, o_f_str := True \<rparr>"

definition db_map :: "u_pwd_rec u_hmap" where
  "db_map = \<lparr> h_opts = db_opts, h_sz = 0, h_size = 599, h_threshold = 449, h_px = 12, pcy_push = None, pcy_pop = None,
     pcy_op_put = False, pcy_op_get = False, h_queue = [], h_table = replicate 599 [], h_freed = [] \<rparr>"

lemma db_new_eq: "u_pwd_db_new (True, True, True, True) pwd = (rc_ok, pwd\<lparr> db := Some db_map \<rparr>)"
proof -
  have "next_prime 512 0 = Some (599, 12)" by (simp add: next_prime_def primes_def)
  then show ?thesis
    by (simp add: u_pwd_db_new_def u_hmap_opts_new_def u_hmap_opts_set_val_freefunc_def u_hmap_easy_new_def u_hmap_new_def
      u_hmap_opts_init_def zero_opts_def opts_check_def pcy_setup_def db_map_def db_opts_def Let_def)
qed

lemma db_map_ok: "hmap_inv db_map" "hmap_map db_map = Map.empty"
proof -
  let ?p = "undefined :: (unit, unit) u_pwd"
  obtain hm where h: "u_pwd_db_new (True, True, True, True) ?p = (rc_ok, ?p\<lparr> db := Some hm \<rparr>)" "hm_inv (hm, 0)" "hmap_map hm = Map.empty"
    using fresh_db by blast
  then have "db (?p\<lparr> db := Some hm \<rparr>) = db (?p\<lparr> db := Some db_map \<rparr>)" using db_new_eq [of ?p] by simp
  then have "hm = db_map" by simp
  with h show "hmap_inv db_map" "hmap_map db_map = Map.empty" by (simp_all add: hm_inv_def)
qed

lemma db_opts_simps [simp]:
  "o_type db_opts = U_HMAP_TYPE_CHAIN" "o_policy db_opts = U_HMAP_PCY_NONE" "o_f_hash db_opts = Some Default_hash" "o_f_comp db_opts = Some f_comp"
  "o_val_type db_opts = U_HMAP_OPTS_DATATYPE_POINTER" "o_f_val_free db_opts" "o_options db_opts AND U_HMAP_OPTS_OWNSDATA \<noteq> 0"
  "o_options db_opts AND U_HMAP_OPTS_NO_OVERWRITE \<noteq> 0"
  by (simp_all add: db_opts_def u_hmap_opts_init_def U_HMAP_OPTS_OWNSDATA_def U_HMAP_OPTS_NO_OVERWRITE_def)

lemma pushed_twice:
  "\<exists>h1 h2. u_pwd_db_push ok_mem i (Some db_map) r = Inr (U_HMAP_ERR_NONE, Some h1)
    \<and> (pr_user r' = pr_user r \<longrightarrow> u_pwd_db_push ok_mem j (Some h1) r' = Inr (U_HMAP_ERR_EXISTS, Some h2) \<and> u_pwd_rec_free (Some h2) j = Inl Use_after_free)"
proof -
  let ?s = "unat (f_hash (pr_user r) (of_nat 599))" and ?o = "\<lparr> oid = i, okey = pr_user r, oval = r, opqe = False \<rparr>"
  have s: "?s < 599" using f_hash_slot [of 599] by simp
  let ?h1 = "db_map\<lparr> h_table := (replicate 599 [])[?s := [?o]], h_sz := 1 \<rparr>"
  have slot: "hash_slot db_opts k 599 = Inr (unat (f_hash k (of_nat 599)))" for k by (simp add: hash_slot_def)
  have comp: "f_comp k k = 0" for k by (simp add: f_comp_def strcmp_refl)
  have 1: "u_pwd_db_push ok_mem i (Some db_map) r = Inr (U_HMAP_ERR_NONE, Some ?h1)"
    using s slot [of "pr_user r"]
    by (simp add: u_pwd_db_push_def u_hmap_easy_put_def u_hmap_o_new_def u_hmap_put.simps put_slot_def put_end_def ok_mem_def db_map_def owns_def
      table_replace_def map_table_def map_update map_replicate Let_def)
  show ?thesis
  proof (intro exI conjI impI)
    show "u_pwd_db_push ok_mem i (Some db_map) r = Inr (U_HMAP_ERR_NONE, Some ?h1)" by (rule 1)
    assume u: "pr_user r' = pr_user r"
    show "u_pwd_db_push ok_mem j (Some ?h1) r' = Inr (U_HMAP_ERR_EXISTS, Some (o_free j ?h1))"
      using s slot [of "pr_user r"] u comp
      by (simp add: u_pwd_db_push_def u_hmap_easy_put_def u_hmap_o_new_def u_hmap_put.simps put_slot_def overwrite_def ok_mem_def db_map_def owns_def
        call_comp_def)
    show "u_pwd_rec_free (Some (o_free j ?h1)) j = Inl Use_after_free"
      by (simp add: u_pwd_rec_free_def o_free_def db_map_def)
  qed
qed

lemma file_step:
  assumes "list_all line_ok (l # ls)"
  shows "file_load (pwd_text (l # ls)) U_PWD_LINE_MAX = Some (line_text l @ [nl], pwd_text ls)"
proof -
  from pf.src_line [of "pwd_text (l # ls)" l ls] assms show ?thesis by auto
qed

lemma duplicate_line:
  assumes "list_all line_ok [Entry u p q, Entry u p' q']"
  shows "db_load_loop (Suc (Suc n)) (\<lambda>_. ok_mem) file_load 1 (pwd_text [Entry u p q, Entry u p' q']) (Some db_map) = Inl Use_after_free"
proof -
  let ?r = "\<lambda>p q. \<lparr> pr_user = u, pr_pass = p, pr_opaque = q \<rparr>"
  obtain h1 h2 where h: "u_pwd_db_push ok_mem 1 (Some db_map) (?r p q) = Inr (U_HMAP_ERR_NONE, Some h1)"
    "u_pwd_db_push ok_mem 2 (Some h1) (?r p' q') = Inr (U_HMAP_ERR_EXISTS, Some h2)" "u_pwd_rec_free (Some h2) 2 = Inl Use_after_free"
    using pushed_twice [of 1 "?r p q" "?r p' q'" 2] by auto
  have f: "file_load (pwd_text [Entry u p q, Entry u p' q']) U_PWD_LINE_MAX = Some (line_text (Entry u p q) @ [nl], pwd_text [Entry u p' q'])"
    "file_load (pwd_text [Entry u p' q']) U_PWD_LINE_MAX = Some (line_text (Entry u p' q') @ [nl], pwd_text [])"
    using file_step assms by (simp_all del: line_text.simps)
  have r: "line_rec ok_mem (line_text (Entry u p q)) = Inr (Some (?r p q))" "line_rec ok_mem (line_text (Entry u p' q')) = Inr (Some (?r p' q'))"
    using line_rec_ok assms by (simp_all del: line_text.simps line_ok.simps)
  have "hd (line_text (Entry u p q) @ [nl]) \<noteq> CHR ''#''" "hd (line_text (Entry u p' q') @ [nl]) \<noteq> CHR ''#''"
    using assms by (auto simp: plain_def hd_append)
  with h r show ?thesis
    by (simp add: f load_line_def numeral_2_eq_2 del: line_text.simps)
qed

definition file_pwd :: "bool \<Rightarrow> (pwd_fs, string) u_pwd" where
  "file_pwd inmem = the (snd (u_pwd_init_file True (Some ''f'') None 0 inmem))"

definition file_auth :: "bool \<Rightarrow> string \<Rightarrow> string \<Rightarrow> string \<Rightarrow> int outcome" where
  "file_auth inmem txt user pw =
     obind (u_pwd_auth_user 9 True (True, True, True, True) (\<lambda>_. ok_mem) (sample_fs txt) (Some (file_pwd inmem)) (Some user) (Some pw)) (\<lambda>(c, _). Inr c)"

lemma file_auth_res:
  "file_auth False txt user pw =
     obind (find_line 9 file_load (snd (u_snprintf U_PWD_LINE_MAX (user @ '':''))) 1 txt) (\<lambda>(r, _).
       case r of None \<Rightarrow> Inr rc_fail
       | Some (_, ln) \<Rightarrow> obind (chop_line ln) (\<lambda>l. obind (line_rec ok_mem l) (\<lambda>rec.
           case rec of None \<Rightarrow> Inr rc_fail | Some x \<Rightarrow> Inr (strcmp (snd (u_strlcpy [] pw U_PWD_LINE_MAX)) (pr_pass x)))))"
  by (auto simp: file_auth_def file_pwd_def u_pwd_init_file_def u_pwd_init_def u_strlcpy_ok U_FILENAME_MAX_def u_pwd_auth_user_def
    u_pwd_retr_def u_pwd_retr_res_def u_pwd_res_open_def u_pwd_res_close_def file_open_def sample_fs_def obind_def Let_def
    split: sum.splits option.splits prod.splits)

text \<open>Deviations of the password module. A user that is twice in a file makes the load into memory release a record twice. An
  empty password is skipped, so that the optional data is the password. A user with a colon is taken to be
  a user and a password. The end of a comment that is longer than a line is an entry. An instance in
  memory without the callback for changes never finds a user; a reload that fails loses the old map. A hash of just
  the length of the instance lets the comparison run behind the buffer when it is right.\<close>

theorem u_pwd_deviations:
  "file_auth True (pwd_text [Entry ''a'' ''b'' None, Entry ''a'' ''c'' None]) ''a'' ''b'' = Inl Use_after_free
   \<and> file_auth False (''jake::blues'' @ [nl]) ''jake'' ''blues'' = Inr 0
   \<and> file_auth False (''jake:joliet:blues'' @ [nl]) ''jake:joliet'' ''joliet'' = Inr 0
   \<and> file_auth False (replicate 255 CHR ''#'' @ ''root:x'' @ [nl]) ''root'' ''x'' = Inr 0
   \<and> u_pwd_retr fuel al mem w (Some (p\<lparr> in_memory := True, cb_notify := None, db := None \<rparr>)) (Some user)
       = Inr (None, Some (p\<lparr> in_memory := True, cb_notify := None, db := None \<rparr>))
   \<and> (\<exists>p'. u_pwd_retr fuel (True, True, True, True) mem w (Some (p\<lparr> in_memory := True, cb_notify := Some (\<lambda>_ _ _. Some t), cb_open := (\<lambda>_ _. None) \<rparr>)) (Some user)
       = Inr (None, Some p') \<and> db p' \<noteq> None)
   \<and> hash_cmp 4 ''abcd'' ''abcd'' = Inl Out_of_bounds"
proof (intro conjI)
  have e: "list_all line_ok [Entry ''a'' ''b'' None, Entry ''a'' ''c'' None]" by (simp add: plain_def)
  have n: "(9::nat) = Suc (Suc 7)" by simp
  show "file_auth True (pwd_text [Entry ''a'' ''b'' None, Entry ''a'' ''c'' None]) ''a'' ''b'' = Inl Use_after_free"
    using duplicate_line [OF e, of 7, folded n]
    by (simp add: file_auth_def file_pwd_def u_pwd_init_file_def u_pwd_init_def u_strlcpy_ok U_FILENAME_MAX_def u_pwd_auth_user_def
      u_pwd_retr_def u_pwd_retr_mem_def u_pwd_need_reload_def file_notify_def sample_fs_def u_pwd_load_def db_new_eq u_pwd_db_load_def u_pwd_res_open_def file_open_def
      del: db_load_loop.simps)
  note ev = file_auth_res u_snprintf_def U_PWD_LINE_MAX_def file_load_def Let_def chop_line_def line_rec_def ok_mem_def u_strtok_ok pieces_def
    u_pwd_rec_new_def u_strdup_def u_strndup_def u_strlcpy_ok
  show "file_auth False (''jake::blues'' @ [nl]) ''jake'' ''blues'' = Inr 0"
    by (simp add: ev eval_nat_numeral)
  show "file_auth False (''jake:joliet:blues'' @ [nl]) ''jake:joliet'' ''joliet'' = Inr 0"
    by (simp add: ev eval_nat_numeral)
  show "hash_cmp 4 ''abcd'' ''abcd'' = Inl Out_of_bounds" by (simp add: hash_cmp_def eval_nat_numeral)
  show "u_pwd_retr fuel al mem w (Some (p\<lparr> in_memory := True, cb_notify := None, db := None \<rparr>)) (Some user)
       = Inr (None, Some (p\<lparr> in_memory := True, cb_notify := None, db := None \<rparr>))"
    by (simp add: u_pwd_retr_def u_pwd_retr_mem_def u_pwd_need_reload_def)
  show "\<exists>p'. u_pwd_retr fuel (True, True, True, True) mem w (Some (p\<lparr> in_memory := True, cb_notify := Some (\<lambda>_ _ _. Some t), cb_open := (\<lambda>_ _. None) \<rparr>)) (Some user)
       = Inr (None, Some p') \<and> db p' \<noteq> None"
  proof -
    let ?p = "p\<lparr> in_memory := True, cb_notify := Some (\<lambda>_ _ _. Some t), cb_open := (\<lambda>_ _. None) \<rparr>"
    let ?q = "?p\<lparr> last_mod := t, db := Some db_map, res_handler := None \<rparr>"
    have r: "u_pwd_need_reload fuel (True, True, True, True) mem w ?p = Inr (rc_fail, ?q)"
      by (cases "db p") (simp_all add: u_pwd_need_reload_def u_pwd_load_def u_pwd_db_term_def db_new_eq u_pwd_db_load_def u_pwd_res_open_def u_pwd_res_close_def)
    have h: "holds ?q Map.empty" using db_map_ok by (simp add: holds_def)
    obtain p' where "u_pwd_retr_mem fuel (True, True, True, True) mem w ?p user = Inr (None, p')" "holds p' Map.empty"
      using retr_cached [OF r h, of user] by auto
    then show ?thesis by (auto simp: u_pwd_retr_def holds_def)
  qed
  show "file_auth False (replicate 255 CHR ''#'' @ ''root:x'' @ [nl]) ''root'' ''x'' = Inr 0"
    by (simp add: ev eval_nat_numeral)
qed

end
