(* ===== verification/Net.thy ===== *)
theory Net
  imports Uri
begin

unbundle bit_operations_syntax

text \<open>
  The sockets of \<open>srcs/toolbox/net.c\<close>: addresses from URIs, the resolvers, the creation of active and passive
  sockets, connections with a timeout, and addresses as text. The operating system answers the calls of
  the program by a list of replies in the state of the run, which also has the descriptors that are open, the
  flags of the descriptors, \<open>errno\<close>, and the calls with their replies so far. A call for which there is no reply
  has not returned. \<open>getaddrinfo\<close> and the functions of the old resolver are parameters, and so are
  allocations. A list of addresses is a list, and the pointer to the current address a position in it.
\<close>

section \<open>The operating system\<close>

datatype af = AF_INET | AF_INET6 | AF_UNIX
datatype sock_type = SOCK_STREAM | SOCK_DGRAM | SOCK_SEQPACKET
datatype ipproto = IPPROTO_TCP | IPPROTO_UDP | IPPROTO_SCTP | IPPROTO_0

datatype sockaddr = Sun string | Sin "byte list" "16 word" | Sin6 "byte list" "16 word"

type_synonym timeval = "int \<times> int"

datatype sock_opt = SO_REUSEADDR | SO_BROADCAST | TCP_NODELAY | SCTP_EVENTS "bool list" | Other_opt nat

datatype call =
    C_socket af sock_type ipproto | C_connect int sockaddr | C_bind int sockaddr | C_listen int int
  | C_accept int | C_setsockopt int sock_opt | C_getsockopt int | C_getfl int | C_setfl int "32 word"
  | C_select int "timeval option" | C_time | C_close int

datatype reply = R_val nat | R_err int

record sys =
  replies :: "reply list"
  opened :: "int list"
  fdflags :: "int \<Rightarrow> 32 word"
  sys_errno :: int
  trace :: "(call \<times> reply) list"

definition EINTR :: int where "EINTR = 4"
definition ENOSPC :: int where "ENOSPC = 28"
definition EAFNOSUPPORT :: int where "EAFNOSUPPORT = 97"
definition ETIMEDOUT :: int where "ETIMEDOUT = 110"
definition EINPROGRESS :: int where "EINPROGRESS = 115"
definition O_NONBLOCK :: "32 word" where "O_NONBLOCK = 2048"
definition FD_SETSIZE :: int where "FD_SETSIZE = 1024"

type_synonym 'a run = "sys \<Rightarrow> ('a \<times> sys) outcome"

definition sret :: "'a \<Rightarrow> 'a run" where
  "sret x s = Inr (x, s)"

definition sbind :: "'a run \<Rightarrow> ('a \<Rightarrow> 'b run) \<Rightarrow> 'b run" where
  "sbind m f s = obind (m s) (\<lambda>(x, s1). f x s1)"

definition ask :: "call \<Rightarrow> reply run" where
  "ask c s =
     (case replies s of [] \<Rightarrow> Inl Out_of_fuel
      | r # rs \<Rightarrow> Inr (r, s\<lparr> replies := rs, trace := trace s @ [(c, r)],
                          sys_errno := (case r of R_err e \<Rightarrow> e | R_val _ \<Rightarrow> sys_errno s) \<rparr>))"

definition set_errno :: "int \<Rightarrow> unit run" where
  "set_errno e s = Inr ((), s\<lparr> sys_errno := e \<rparr>)"

text \<open>A call whose result is only success or failure.\<close>

definition plain_call :: "call \<Rightarrow> int run" where
  "plain_call c = sbind (ask c) (\<lambda>r. case r of R_val _ \<Rightarrow> sret 0 | R_err _ \<Rightarrow> sret (- 1))"

text \<open>A call that opens a descriptor, and the macro that closes one.\<close>

definition open_call :: "call \<Rightarrow> int run" where
  "open_call c =
     sbind (ask c) (\<lambda>r. case r of
       R_err _ \<Rightarrow> sret (- 1)
     | R_val fd \<Rightarrow> (\<lambda>s. Inr (int fd, s\<lparr> opened := int fd # opened s, fdflags := (fdflags s)(int fd := 0) \<rparr>)))"

definition U_CLOSE :: "int \<Rightarrow> unit run" where
  "U_CLOSE fd s =
     (if fd \<noteq> - 1 then Inr ((), s\<lparr> opened := remove1 fd (opened s), trace := trace s @ [(C_close fd, R_val 0)] \<rparr>)
      else Inr ((), s))"

section \<open>Wrappers of system calls\<close>

primrec accept_loop :: "nat \<Rightarrow> int \<Rightarrow> int run" where
  "accept_loop 0 sd = (\<lambda>s. Inl Out_of_fuel)"
| "accept_loop (Suc n) sd =
     sbind (open_call (C_accept sd)) (\<lambda>ad s.
       if ad = - 1 \<and> sys_errno s = EINTR then accept_loop n sd s else Inr (ad, s))"

definition u_accept :: "int \<Rightarrow> int run" where
  "u_accept sd s = accept_loop (Suc (length (replies s))) sd s"

definition u_socket :: "af \<Rightarrow> sock_type \<Rightarrow> ipproto \<Rightarrow> int run" where
  "u_socket d t p = open_call (C_socket d t p)"

definition u_bind :: "int \<Rightarrow> sockaddr \<Rightarrow> int run" where
  "u_bind sd a = plain_call (C_bind sd a)"

definition u_listen :: "int \<Rightarrow> int \<Rightarrow> int run" where
  "u_listen sd backlog = plain_call (C_listen sd backlog)"

definition u_setsockopt :: "int \<Rightarrow> sock_opt \<Rightarrow> int run" where
  "u_setsockopt sd opt = plain_call (C_setsockopt sd opt)"

text \<open>The pending error of a socket, behind the return code.\<close>

definition u_getsockopt :: "int \<Rightarrow> (int \<times> int) run" where
  "u_getsockopt sd = sbind (ask (C_getsockopt sd)) (\<lambda>r. case r of R_val e \<Rightarrow> sret (0, int e) | R_err _ \<Rightarrow> sret (- 1, 0))"

definition change_flags :: "(32 word \<Rightarrow> 32 word) \<Rightarrow> int \<Rightarrow> rc run" where
  "change_flags f fd =
     sbind (ask (C_getfl fd)) (\<lambda>r. case r of
       R_err _ \<Rightarrow> sret rc_fail
     | R_val _ \<Rightarrow> (\<lambda>s. sbind (ask (C_setfl fd (f (fdflags s fd)))) (\<lambda>r1. case r1 of
           R_err _ \<Rightarrow> sret rc_fail
         | R_val _ \<Rightarrow> (\<lambda>s1. Inr (rc_ok, s1\<lparr> fdflags := (fdflags s1)(fd := f (fdflags s1 fd)) \<rparr>))) s))"

definition u_net_set_nonblocking :: "int \<Rightarrow> rc run" where
  "u_net_set_nonblocking fd = change_flags (\<lambda>w. w OR O_NONBLOCK) fd"

definition u_net_unset_nonblocking :: "int \<Rightarrow> rc run" where
  "u_net_unset_nonblocking fd = change_flags (\<lambda>w. w AND NOT O_NONBLOCK) fd"

definition u_net_nagle_off :: "int \<Rightarrow> rc run" where
  "u_net_nagle_off fd =
     (if fd < 0 then sret rc_fail
      else sbind (u_setsockopt fd TCP_NODELAY) (\<lambda>r. sret (if r = - 1 then rc_fail else rc_ok)))"

section \<open>Connections with a timeout\<close>

definition u_timersub :: "timeval \<Rightarrow> timeval \<Rightarrow> timeval" where
  "u_timersub t1 t0 =
     (let sec = fst t1 - fst t0; usec = snd t1 - snd t0
      in if usec < 0 then (sec - 1, usec + 1000000) else (sec, usec))"

text \<open>The clock gives a number of microseconds.\<close>

definition gettimeofday :: "timeval option run" where
  "gettimeofday = sbind (ask C_time) (\<lambda>r. case r of
     R_err _ \<Rightarrow> sret None | R_val t \<Rightarrow> sret (Some (int (t div 1000000), int (t mod 1000000))))"

text \<open>The result is the return code, the timeout and the new start.\<close>

definition update_timeout :: "timeval \<Rightarrow> timeval \<Rightarrow> (rc \<times> timeval \<times> timeval) run" where
  "update_timeout timeout tstart =
     sbind gettimeofday (\<lambda>r. case r of
       None \<Rightarrow> sret (rc_fail, timeout, tstart)
     | Some now \<Rightarrow> sret (rc_ok, u_timersub timeout (u_timersub now tstart), now))"

text \<open>The loop around \<open>select\<close>: whether the socket is ready, and the timeout as it was changed.\<close>

primrec connect_wait :: "nat \<Rightarrow> int \<Rightarrow> timeval option \<Rightarrow> timeval \<Rightarrow> (bool \<times> timeval option) run" where
  "connect_wait 0 sd timeout tstart = (\<lambda>s. Inl Out_of_fuel)"
| "connect_wait (Suc n) sd timeout tstart =
     sbind (ask (C_select sd timeout)) (\<lambda>r. case r of
       R_val k \<Rightarrow> if k > 0 then sret (True, timeout) else sbind (set_errno ETIMEDOUT) (\<lambda>_. sret (False, timeout))
     | R_err e \<Rightarrow>
         if e \<noteq> EINTR then sret (False, timeout)
         else
           (case timeout of
              None \<Rightarrow> connect_wait n sd None tstart
            | Some t \<Rightarrow>
                sbind (update_timeout t tstart) (\<lambda>(rc, t1, tstart1).
                  if rc \<noteq> rc_ok then sret (False, Some t1)
                  else if fst t1 < 0 then sbind (set_errno ETIMEDOUT) (\<lambda>_. sret (False, Some t1))
                  else connect_wait n sd (Some t1) tstart1)))"

declare connect_wait.simps(2) [simp del]

definition connect_err :: "int \<Rightarrow> timeval option \<Rightarrow> (int \<times> timeval option) run" where
  "connect_err sd timeout =
     sbind (if timeout \<noteq> None then u_net_unset_nonblocking sd else sret rc_ok) (\<lambda>_ s.
       Inr ((if sys_errno s = ETIMEDOUT then - 2 else - 1, timeout), s))"

text \<open>The part behind the call of \<open>connect\<close> that did not succeed at once.\<close>

definition connect_async :: "int \<Rightarrow> timeval option \<Rightarrow> timeval \<Rightarrow> (int \<times> timeval option) run" where
  "connect_async sd timeout tstart s =
     (if sd \<ge> FD_SETSIZE then Inl Out_of_bounds
      else
        sbind (connect_wait (Suc (length (replies s))) sd timeout tstart) (\<lambda>(ready, timeout1).
          if \<not> ready then connect_err sd timeout1
          else
            sbind (u_getsockopt sd) (\<lambda>(rc, e).
              if rc = - 1 then connect_err sd timeout1
              else if e \<noteq> 0 then sbind (set_errno e) (\<lambda>_. connect_err sd timeout1)
              else sbind (if timeout1 \<noteq> None then u_net_unset_nonblocking sd else sret rc_ok) (\<lambda>_. sret (0, timeout1)))) s)"

definition connect_go :: "int \<Rightarrow> sockaddr \<Rightarrow> timeval option \<Rightarrow> timeval \<Rightarrow> (int \<times> timeval option) run" where
  "connect_go sd addr timeout tstart =
     sbind (ask (C_connect sd addr)) (\<lambda>r. case r of
       R_val _ \<Rightarrow> sret (0, timeout)
     | R_err e \<Rightarrow> if e \<noteq> EINTR \<and> e \<noteq> EINPROGRESS then connect_err sd timeout else connect_async sd timeout tstart)"

definition u_connect_ex :: "int \<Rightarrow> sockaddr option \<Rightarrow> nat \<Rightarrow> timeval option \<Rightarrow> (int \<times> timeval option) run" where
  "u_connect_ex sd addr addrlen timeout =
     (if sd < 0 then sret (- 1, timeout)
      else
        (case addr of
           None \<Rightarrow> sret (- 1, timeout)
         | Some a \<Rightarrow>
             if addrlen = 0 then sret (- 1, timeout)
             else if timeout = None then connect_go sd a timeout (0, 0)
             else
               sbind (u_net_set_nonblocking sd) (\<lambda>rc.
                 if rc \<noteq> rc_ok then connect_err sd timeout
                 else sbind gettimeofday (\<lambda>t. case t of
                   None \<Rightarrow> connect_err sd timeout
                 | Some tstart \<Rightarrow> connect_go sd a timeout tstart))))"

definition u_connect :: "int \<Rightarrow> sockaddr option \<Rightarrow> nat \<Rightarrow> int run" where
  "u_connect sd addr addrlen = sbind (u_connect_ex sd addr addrlen None) (\<lambda>(rc, _). sret rc)"

section \<open>Addresses\<close>

definition U_NET_BACKLOG :: int where "U_NET_BACKLOG = 300"

datatype u_net_mode = U_NET_SSOCK | U_NET_CSOCK | Bad_mode int

definition U_NET_IS_MODE :: "u_net_mode \<Rightarrow> bool" where
  "U_NET_IS_MODE m = (m = U_NET_SSOCK \<or> m = U_NET_CSOCK)"

definition U_NET_OPT_DONT_REUSE_ADDR :: "32 word" where "U_NET_OPT_DONT_REUSE_ADDR = push_bit 0 1"
definition U_NET_OPT_DONT_CONNECT :: "32 word" where "U_NET_OPT_DONT_CONNECT = push_bit 1 1"
definition U_NET_OPT_SCTP_ONE_TO_MANY :: "32 word" where "U_NET_OPT_SCTP_ONE_TO_MANY = push_bit 2 1"
definition U_NET_OPT_DGRAM_BROADCAST :: "32 word" where "U_NET_OPT_DGRAM_BROADCAST = push_bit 20 1"

record u_addrinfo =
  ai_family :: af
  ai_socktype :: sock_type
  ai_protocol :: ipproto
  ai_canonname :: "string option"
  ai_addrlen :: nat
  ai_addr :: "sockaddr option"

record u_net_addr =
  na_opts :: "32 word"
  na_mode :: u_net_mode
  na_addr :: "u_addrinfo list"
  na_cur :: "nat option"

record u_net_scheme_map =
  sm_family :: af
  sm_type :: sock_type
  sm_proto :: ipproto

definition scheme_mapper :: "string \<Rightarrow> u_net_scheme_map option" where
  "scheme_mapper scheme =
     (if strcaseeq scheme ''tcp4'' \<or> strcaseeq scheme ''tcp'' then Some \<lparr> sm_family = AF_INET, sm_type = SOCK_STREAM, sm_proto = IPPROTO_TCP \<rparr>
      else if strcaseeq scheme ''udp4'' \<or> strcaseeq scheme ''udp'' then Some \<lparr> sm_family = AF_INET, sm_type = SOCK_DGRAM, sm_proto = IPPROTO_UDP \<rparr>
      else if strcaseeq scheme ''sctp4'' \<or> strcaseeq scheme ''sctp'' then Some \<lparr> sm_family = AF_INET, sm_type = SOCK_STREAM, sm_proto = IPPROTO_SCTP \<rparr>
      else if strcaseeq scheme ''unix'' then Some \<lparr> sm_family = AF_UNIX, sm_type = SOCK_STREAM, sm_proto = IPPROTO_0 \<rparr>
      else if strcaseeq scheme ''tcp6'' then Some \<lparr> sm_family = AF_INET6, sm_type = SOCK_STREAM, sm_proto = IPPROTO_TCP \<rparr>
      else if strcaseeq scheme ''udp6'' then Some \<lparr> sm_family = AF_INET6, sm_type = SOCK_DGRAM, sm_proto = IPPROTO_UDP \<rparr>
      else if strcaseeq scheme ''sctp6'' then Some \<lparr> sm_family = AF_INET6, sm_type = SOCK_STREAM, sm_proto = IPPROTO_SCTP \<rparr>
      else None)"

definition na_new :: "bool \<Rightarrow> u_net_mode \<Rightarrow> u_net_addr option" where
  "na_new mem mode =
     (if \<not> U_NET_IS_MODE mode then None else if \<not> mem then None
      else Some \<lparr> na_opts = 0, na_mode = mode, na_addr = [], na_cur = None \<rparr>)"

text \<open>
  The local resolvers. A resolver fills in an address; with a failure it tells whether the address that it
  has stored was released. The release of the address by \<open>ai_free\<close> must not come after this.
\<close>

definition SUN_PATH_SZ :: nat where "SUN_PATH_SZ = 108"

definition resolv_sun :: "bool \<times> bool \<Rightarrow> string option \<Rightarrow> u_addrinfo \<Rightarrow> bool \<times> bool \<times> u_addrinfo" where
  "resolv_sun al path ai =
     (case path of None \<Rightarrow> (False, False, ai)
      | Some p \<Rightarrow>
        (case al of (a_sun, a_name) \<Rightarrow>
          if \<not> a_sun then (False, False, ai)
          else
            (case u_strlcpy [] p SUN_PATH_SZ of (fits, sp) \<Rightarrow>
              if \<not> fits then (False, False, ai)
              else
                (let ai1 = ai\<lparr> ai_protocol := IPPROTO_0, ai_addr := Some (Sun sp), ai_addrlen := 110 \<rparr>
                 in case u_strdup a_name p of
                      None \<Rightarrow> (False, True, ai1)
                    | Some c \<Rightarrow> (True, False, ai1\<lparr> ai_canonname := Some c \<rparr>)))))"

definition ai_free_one :: "bool \<Rightarrow> unit outcome" where
  "ai_free_one released = (if released then Inl Use_after_free else Inr ())"

definition do_resolv ::
  "bool \<Rightarrow> (u_addrinfo \<Rightarrow> bool \<times> bool \<times> u_addrinfo) \<Rightarrow> af \<Rightarrow> sock_type \<Rightarrow> ipproto \<Rightarrow> u_addrinfo list option outcome" where
  "do_resolv mem rf family type proto =
     (if \<not> mem then Inr None
      else
        (case rf \<lparr> ai_family = family, ai_socktype = type, ai_protocol = proto, ai_canonname = None, ai_addrlen = 0, ai_addr = None \<rparr> of
           (ok, released, ai) \<Rightarrow> if ok then Inr (Some [ai]) else obind (ai_free_one released) (\<lambda>_. Inr None)))"

text \<open>What is asked of \<open>getaddrinfo\<close>.\<close>

record hints =
  h_passive :: bool
  h_canonname :: bool
  h_family :: af
  h_type :: sock_type
  h_proto :: ipproto

type_synonym getaddrinfo = "string option \<Rightarrow> string option \<Rightarrow> hints \<Rightarrow> u_addrinfo list option"

definition ai_resolv ::
  "getaddrinfo \<Rightarrow> bool \<times> bool \<times> bool \<Rightarrow> string option \<Rightarrow> string option \<Rightarrow> string option \<Rightarrow> u_net_scheme_map \<Rightarrow> bool
   \<Rightarrow> u_addrinfo list option outcome" where
  "ai_resolv gai al host port path m passive =
     (case al of (a_ai, a_sun, a_name) \<Rightarrow>
      if sm_family m = AF_UNIX then do_resolv a_ai (resolv_sun (a_sun, a_name) path) (sm_family m) (sm_type m) (sm_proto m)
      else
        (case (host, port) of
           (Some h, Some p) \<Rightarrow>
             (let hostname = (if strcmp h ''*'' = 0 then None else Some h); servname = (if strcmp p ''*'' = 0 then None else Some p)
              in Inr (gai hostname servname \<lparr> h_passive = passive, h_canonname = (hostname \<noteq> None), h_family = sm_family m,
                        h_type = sm_type m, h_proto = sm_proto m \<rparr>))
         | _ \<Rightarrow> Inr None))"

definition uri2addr ::
  "getaddrinfo \<Rightarrow> bool \<times> bool \<times> bool \<Rightarrow> u_uri option \<Rightarrow> u_net_scheme_map \<Rightarrow> u_net_addr \<Rightarrow> u_net_addr option outcome" where
  "uri2addr gai al u m a =
     (if u = None then Inr None
      else obind (ai_resolv gai al (u_uri_get F_host u) (u_uri_get F_port u) (u_uri_get F_path u) m (na_mode a = U_NET_SSOCK)) (\<lambda>r.
        Inr (map_option (\<lambda>ais. a\<lparr> na_addr := ais \<rparr>) r)))"

text \<open>The allocations are those of the URI, of the address and of the resolver.\<close>

type_synonym net_mem = "(bool \<times> bool \<times> bool) \<times> bool \<times> (bool \<times> bool \<times> bool)"

definition u_net_uri2addr :: "getaddrinfo \<Rightarrow> net_mem \<Rightarrow> string option \<Rightarrow> u_net_mode \<Rightarrow> u_net_addr option outcome" where
  "u_net_uri2addr gai mem uri mode =
     (case mem of (a_uri, a_na, a_ai) \<Rightarrow>
      if uri = None then Inr None
      else
        obind (u_uri_crumble a_uri uri 0) (\<lambda>(rc, u).
          if rc \<noteq> rc_ok then Inr None
          else
            (case u_uri_get F_scheme u of
               None \<Rightarrow> Inr None
             | Some sch \<Rightarrow>
                 (case scheme_mapper sch of
                    None \<Rightarrow> Inr None
                  | Some m \<Rightarrow>
                      (case na_new a_na mode of
                         None \<Rightarrow> Inr None
                       | Some a \<Rightarrow> uri2addr gai a_ai u m a)))))"

definition u_net_addr_set_opts :: "u_net_addr \<Rightarrow> 32 word \<Rightarrow> u_net_addr" where
  "u_net_addr_set_opts a opts = a\<lparr> na_opts := opts \<rparr>"

definition u_net_addr_add_opts :: "u_net_addr \<Rightarrow> 32 word \<Rightarrow> u_net_addr" where
  "u_net_addr_add_opts a opts = a\<lparr> na_opts := na_opts a OR opts \<rparr>"

definition u_net_addr_can_accept :: "u_net_addr option \<Rightarrow> int" where
  "u_net_addr_can_accept ao =
     (case ao of None \<Rightarrow> 0
      | Some a \<Rightarrow>
        (case na_cur a of None \<Rightarrow> 0
         | Some i \<Rightarrow>
           (case ai_socktype (na_addr a ! i) of
              SOCK_DGRAM \<Rightarrow> 0
            | _ \<Rightarrow> if na_mode a = U_NET_SSOCK then 1 else 0)))"

section \<open>Creation of sockets\<close>

definition sctp_enable_events :: "int \<Rightarrow> 32 word \<Rightarrow> rc run" where
  "sctp_enable_events fd opts =
     sbind (u_setsockopt fd (SCTP_EVENTS (map (\<lambda>i. bit opts i) [3, 4, 5, 6, 7, 8, 9, 10, 11]))) (\<lambda>r.
       sret (if r = - 1 then rc_fail else rc_ok))"

definition bind_reuse_addr :: "int \<Rightarrow> rc run" where
  "bind_reuse_addr fd =
     (if fd < 0 then sret rc_fail
      else sbind (u_setsockopt fd SO_REUSEADDR) (\<lambda>r. sret (if r = - 1 then rc_fail else rc_ok)))"

text \<open>The error exit of the creation of a socket, and the steps with it.\<close>

definition fail_sock :: "int \<Rightarrow> int run" where
  "fail_sock fd = sbind (U_CLOSE fd) (\<lambda>_. sret (- 1))"

definition step_sock :: "int \<Rightarrow> bool \<Rightarrow> rc run \<Rightarrow> int run \<Rightarrow> int run" where
  "step_sock fd needed m k = (if \<not> needed then k else sbind m (\<lambda>rc. if rc < 0 then fail_sock fd else k))"

definition do_csock ::
  "u_addrinfo \<Rightarrow> sock_type \<Rightarrow> 32 word \<Rightarrow> timeval option \<Rightarrow> (int \<times> timeval option) run" where
  "do_csock ai type opts timeout =
     (case ai_addr ai of None \<Rightarrow> sret (- 1, timeout)
      | Some sad \<Rightarrow>
        sbind (u_socket (ai_family ai) type (ai_protocol ai)) (\<lambda>fd.
          if fd = - 1 then sret (- 1, timeout)
          else
            sbind (step_sock fd (type = SOCK_DGRAM \<and> opts AND U_NET_OPT_DGRAM_BROADCAST \<noteq> 0) (u_setsockopt fd SO_BROADCAST)
                    (step_sock fd (opts AND U_NET_OPT_SCTP_ONE_TO_MANY \<noteq> 0) (sctp_enable_events fd opts) (sret fd))) (\<lambda>r.
              if r = - 1 then sret (- 1, timeout)
              else if opts AND U_NET_OPT_DONT_CONNECT \<noteq> 0 then sret (fd, timeout)
              else
                sbind (u_connect_ex fd (Some sad) (ai_addrlen ai) timeout) (\<lambda>(rc, timeout1).
                  if rc < 0 then sbind (fail_sock fd) (\<lambda>r1. sret (r1, timeout1)) else sret (fd, timeout1)))))"

definition do_ssock :: "u_addrinfo \<Rightarrow> sock_type \<Rightarrow> 32 word \<Rightarrow> int \<Rightarrow> int run" where
  "do_ssock ai type opts backlog =
     (case ai_addr ai of None \<Rightarrow> sret (- 1)
      | Some sad \<Rightarrow>
        sbind (u_socket (ai_family ai) type (ai_protocol ai)) (\<lambda>fd.
          if fd = - 1 then sret (- 1)
          else
            step_sock fd (ai_family ai \<noteq> AF_UNIX \<and> opts AND U_NET_OPT_DONT_REUSE_ADDR = 0) (bind_reuse_addr fd)
              (step_sock fd (opts AND U_NET_OPT_SCTP_ONE_TO_MANY \<noteq> 0) (sctp_enable_events fd opts)
                (step_sock fd True (u_bind fd sad)
                  (step_sock fd (type = SOCK_STREAM \<or> type = SOCK_SEQPACKET) (u_listen fd backlog) (sret fd))))))"

text \<open>
  The list of addresses from position \<open>i\<close> on: the descriptor, the position of the address that worked, and the
  timeout as it was changed.
\<close>

primrec try_addrs ::
  "(u_addrinfo \<Rightarrow> sock_type \<Rightarrow> timeval option \<Rightarrow> (int \<times> timeval option) run) \<Rightarrow> 32 word \<Rightarrow> u_addrinfo list
   \<Rightarrow> nat \<Rightarrow> nat option \<Rightarrow> timeval option \<Rightarrow> (int \<times> nat option \<times> timeval option) run" where
  "try_addrs mk opts [] i cur timeout = sret (- 1, cur, timeout)"
| "try_addrs mk opts (ai # ais) i cur timeout =
     sbind (mk ai (if ai_protocol ai = IPPROTO_SCTP \<and> opts AND U_NET_OPT_SCTP_ONE_TO_MANY \<noteq> 0 then SOCK_SEQPACKET else ai_socktype ai) timeout)
       (\<lambda>(sd, timeout1). if sd \<ge> 0 then sret (sd, Some i, timeout1) else try_addrs mk opts ais (Suc i) cur timeout1)"

definition do_sock ::
  "(u_addrinfo \<Rightarrow> sock_type \<Rightarrow> timeval option \<Rightarrow> (int \<times> timeval option) run) \<Rightarrow> u_net_addr \<Rightarrow> timeval option
   \<Rightarrow> (int \<times> u_net_addr \<times> timeval option) run" where
  "do_sock mk a timeout =
     (if na_addr a = [] then sret (- 1, a, timeout)
      else sbind (try_addrs mk (na_opts a) (na_addr a) 0 (na_cur a) timeout) (\<lambda>(sd, cur, timeout1). sret (sd, a\<lparr> na_cur := cur \<rparr>, timeout1)))"

definition u_net_sd_by_addr_ex :: "u_net_addr option \<Rightarrow> timeval option \<Rightarrow> (int \<times> u_net_addr option \<times> timeval option) run" where
  "u_net_sd_by_addr_ex ao timeout =
     (case ao of None \<Rightarrow> sret (- 2, None, timeout)
      | Some a \<Rightarrow>
        (case na_mode a of
           U_NET_SSOCK \<Rightarrow>
             sbind (do_sock (\<lambda>ai type t. sbind (do_ssock ai type (na_opts a) U_NET_BACKLOG) (\<lambda>sd. sret (sd, t))) a timeout)
               (\<lambda>(sd, a1, t1). sret (sd, Some a1, t1))
         | U_NET_CSOCK \<Rightarrow>
             sbind (do_sock (\<lambda>ai type t. do_csock ai type (na_opts a) t) a timeout) (\<lambda>(sd, a1, t1). sret (sd, Some a1, t1))
         | Bad_mode _ \<Rightarrow> sret (- 1, ao, timeout)))"

definition u_net_sd_by_addr :: "u_net_addr option \<Rightarrow> (int \<times> u_net_addr option) run" where
  "u_net_sd_by_addr ao = sbind (u_net_sd_by_addr_ex ao None) (\<lambda>(sd, a1, _). sret (sd, a1))"

definition u_net_sd_ex ::
  "getaddrinfo \<Rightarrow> net_mem \<Rightarrow> string option \<Rightarrow> u_net_mode \<Rightarrow> 32 word \<Rightarrow> timeval option \<Rightarrow> (int \<times> timeval option) run" where
  "u_net_sd_ex gai mem uri mode opts timeout s =
     (if uri = None then Inr ((- 1, timeout), s)
      else
        obind (u_net_uri2addr gai mem uri mode) (\<lambda>ao.
          case ao of None \<Rightarrow> Inr ((- 1, timeout), s)
          | Some a \<Rightarrow>
              sbind (u_net_sd_by_addr_ex (Some (u_net_addr_set_opts a opts)) timeout) (\<lambda>(sd, _, t1). sret (sd, t1)) s))"

definition u_net_sd :: "getaddrinfo \<Rightarrow> net_mem \<Rightarrow> string option \<Rightarrow> u_net_mode \<Rightarrow> 32 word \<Rightarrow> int run" where
  "u_net_sd gai mem uri mode opts = sbind (u_net_sd_ex gai mem uri mode opts None) (\<lambda>(sd, _). sret sd)"

section \<open>Addresses as text\<close>

definition U_INET_ADDRSTRLEN :: nat where "U_INET_ADDRSTRLEN = 16"

definition dotted :: "byte list \<Rightarrow> string" where
  "dotted p = decimal (unat (p ! 0)) @ ''.'' @ decimal (unat (p ! 1)) @ ''.'' @ decimal (unat (p ! 2)) @ ''.'' @ decimal (unat (p ! 3))"

text \<open>The result is the text, or \<open>None\<close> with the error; \<open>ntop6\<close> is \<open>inet_ntop\<close> for the other family.\<close>

definition u_inet_ntop :: "(byte list \<Rightarrow> nat \<Rightarrow> string option \<times> int) \<Rightarrow> af \<Rightarrow> byte list \<Rightarrow> nat \<Rightarrow> string option \<times> int" where
  "u_inet_ntop ntop6 family src len =
     (if family = AF_INET then
        (case u_strlcpy [] (snd (u_snprintf U_INET_ADDRSTRLEN (dotted src))) len of
           (fits, d) \<Rightarrow> if \<not> fits then (None, ENOSPC) else (Some d, 0))
      else if family = AF_INET6 then ntop6 src len
      else (None, EAFNOSUPPORT))"

definition ntohs :: "16 word \<Rightarrow> 16 word" where
  "ntohs w = push_bit 8 w OR drop_bit 8 w"

definition sa_error :: string where
  "sa_error = ''(sockaddr conversion failed)''"

definition u_sa_ntop :: "(byte list \<Rightarrow> nat \<Rightarrow> string option \<times> int) \<Rightarrow> sockaddr option \<Rightarrow> nat \<Rightarrow> string" where
  "u_sa_ntop ntop6 sa dlen =
     (case sa of None \<Rightarrow> sa_error
      | Some x \<Rightarrow>
        if dlen = 0 then sa_error
        else
          (case x of
             Sin p port \<Rightarrow>
               (case fst (u_inet_ntop ntop6 AF_INET p 256) of None \<Rightarrow> sa_error
                | Some a \<Rightarrow> snd (u_snprintf dlen (a @ '':'' @ decimal (unat (ntohs port)))))
           | Sin6 p port \<Rightarrow>
               (case fst (u_inet_ntop ntop6 AF_INET6 p 256) of None \<Rightarrow> sa_error
                | Some a \<Rightarrow> snd (u_snprintf dlen (''['' @ a @ '']:'' @ decimal (unat (ntohs port)))))
           | Sun path \<Rightarrow> snd (u_strlcpy [] path dlen)))"

section \<open>The resolver without \<open>getaddrinfo\<close>\<close>

definition htons :: "nat \<Rightarrow> 16 word" where
  "htons n = ntohs (of_nat n)"

definition resolv_port :: "(string \<Rightarrow> 16 word option) \<Rightarrow> errno_val \<Rightarrow> string option \<Rightarrow> 16 word option" where
  "resolv_port getservbyname errno s_port =
     (case s_port of None \<Rightarrow> None
      | Some s \<Rightarrow>
        if strcmp s ''*'' = 0 then Some 0
        else if list_all isdigit s then
          (case u_atoi errno s_port of None \<Rightarrow> None
           | Some i \<Rightarrow> if i < 0 \<or> i > 65535 then None else Some (htons (nat i)))
        else getservbyname s)"

text \<open>The parameters are the services, the look-up of a host with the family and the bytes of its address, and \<open>inet_addr\<close>.\<close>

definition resolv_sin ::
  "(string \<Rightarrow> 16 word option) \<Rightarrow> (string \<Rightarrow> (af \<times> byte list) option) \<Rightarrow> (string \<Rightarrow> byte list option) \<Rightarrow> errno_val
   \<Rightarrow> bool \<times> bool \<Rightarrow> string option \<Rightarrow> string option \<Rightarrow> u_addrinfo \<Rightarrow> bool \<times> bool \<times> u_addrinfo" where
  "resolv_sin getservbyname gethostbyname inet_addr errno al host port ai =
     (case (host, port) of
        (Some h, Some p) \<Rightarrow>
          if \<not> fst al then (False, False, ai)
          else
            (case resolv_port getservbyname errno port of
               None \<Rightarrow> (False, False, ai)
             | Some np \<Rightarrow>
                 (case (if strcmp h ''*'' = 0 then Some (replicate 4 0)
                        else if \<not> list_all (\<lambda>c. isdigit c \<or> c = CHR ''.'') h then
                          (case gethostbyname h of None \<Rightarrow> None
                           | Some (f, bs) \<Rightarrow> if f \<noteq> AF_INET then None else Some (take 4 bs))
                        else inet_addr h) of
                    None \<Rightarrow> (False, False, ai)
                  | Some bs \<Rightarrow>
                      (let ai1 = ai\<lparr> ai_addr := Some (Sin bs np), ai_addrlen := 16 \<rparr>
                       in case u_strdup (snd al) h of
                            None \<Rightarrow> (False, True, ai1)
                          | Some c \<Rightarrow> (True, False, ai1\<lparr> ai_canonname := Some c \<rparr>))))
      | _ \<Rightarrow> (False, False, ai))"

definition resolv_sin6 ::
  "(string \<Rightarrow> 16 word option) \<Rightarrow> (string \<Rightarrow> (af \<times> byte list) option) \<Rightarrow> (string \<Rightarrow> byte list option) \<Rightarrow> errno_val
   \<Rightarrow> bool \<times> bool \<Rightarrow> string option \<Rightarrow> string option \<Rightarrow> u_addrinfo \<Rightarrow> bool \<times> bool \<times> u_addrinfo" where
  "resolv_sin6 getservbyname gethostbyname2 inet_pton errno al host port ai =
     (case (host, port) of
        (Some h, Some p) \<Rightarrow>
          if \<not> fst al then (False, False, ai)
          else
            (case resolv_port getservbyname errno port of
               None \<Rightarrow> (False, False, ai)
             | Some np \<Rightarrow>
                 (case (if strcmp h ''*'' = 0 then Some (replicate 16 0)
                        else if CHR '':'' \<notin> set h then
                          (case gethostbyname2 h of None \<Rightarrow> None
                           | Some (f, bs) \<Rightarrow> if f \<noteq> AF_INET6 \<or> length bs \<noteq> 16 then None else Some bs)
                        else inet_pton h) of
                    None \<Rightarrow> (False, False, ai)
                  | Some bs \<Rightarrow>
                      (let ai1 = ai\<lparr> ai_addr := Some (Sin6 bs np), ai_addrlen := 28 \<rparr>
                       in case u_strdup (snd al) h of
                            None \<Rightarrow> (False, True, ai1)
                          | Some c \<Rightarrow> (True, False, ai1\<lparr> ai_canonname := Some c \<rparr>))))
      | _ \<Rightarrow> (False, False, ai))"

definition old_ai_resolv ::
  "(string \<Rightarrow> 16 word option) \<Rightarrow> (af \<Rightarrow> string \<Rightarrow> (af \<times> byte list) option) \<Rightarrow> (af \<Rightarrow> string \<Rightarrow> byte list option) \<Rightarrow> errno_val
   \<Rightarrow> bool \<times> bool \<times> bool \<Rightarrow> string option \<Rightarrow> string option \<Rightarrow> string option \<Rightarrow> u_net_scheme_map \<Rightarrow> u_addrinfo list option outcome" where
  "old_ai_resolv getservbyname gethost to_addr errno al host port path m =
     (case al of (a_ai, al1) \<Rightarrow>
      do_resolv a_ai
        (case sm_family m of
           AF_INET \<Rightarrow> resolv_sin getservbyname (gethost AF_INET) (to_addr AF_INET) errno al1 host port
         | AF_UNIX \<Rightarrow> resolv_sun al1 path
         | AF_INET6 \<Rightarrow> resolv_sin6 getservbyname (gethost AF_INET6) (to_addr AF_INET6) errno al1 host port)
        (sm_family m) (sm_type m) (sm_proto m))"

section \<open>Runs and their composition\<close>

lemma sbind_Inr [outcome_simps]: "sbind m f s = Inr z \<longleftrightarrow> (\<exists>x s1. m s = Inr (x, s1) \<and> f x s1 = Inr z)"
  by (auto simp: sbind_def outcome_simps)

lemma sret_Inr [simp]: "sret x s = Inr z \<longleftrightarrow> z = (x, s)"
  by (auto simp: sret_def)

text \<open>The contract of a step: it keeps the descriptors that are open, or adds the one it returns.\<close>

definition keeps :: "'a run \<Rightarrow> bool" where
  "keeps m = (\<forall>s x s'. m s = Inr (x, s') \<longrightarrow> opened s' = opened s)"

definition makes :: "('a \<Rightarrow> int) \<Rightarrow> 'a run \<Rightarrow> bool" where
  "makes f m = (\<forall>s x s'. m s = Inr (x, s') \<longrightarrow>
     f x = - 1 \<and> opened s' = opened s \<or> 0 \<le> f x \<and> opened s' = f x # opened s)"

lemma keepsD: "keeps m \<Longrightarrow> m s = Inr (x, s') \<Longrightarrow> opened s' = opened s"
  by (simp add: keeps_def)

lemma makesD: "makes f m \<Longrightarrow> m s = Inr (x, s') \<Longrightarrow> f x = - 1 \<and> opened s' = opened s \<or> 0 \<le> f x \<and> opened s' = f x # opened s"
  unfolding makes_def by blast

named_theorems keeping \<open>steps that keep the open descriptors\<close>

lemma keeps_sret [keeping]: "keeps (sret x)"
  by (simp add: keeps_def)

lemma keeps_sbind [keeping]: "keeps m \<Longrightarrow> (\<And>x. keeps (f x)) \<Longrightarrow> keeps (sbind m f)"
  unfolding keeps_def by (fastforce simp: outcome_simps)

lemma keeps_ask [keeping]: "keeps (ask c)"
  by (auto simp: keeps_def ask_def split: list.splits)

lemma keeps_if [keeping]: "keeps m \<Longrightarrow> keeps n \<Longrightarrow> keeps (if b then m else n)"
  by simp

lemma keeps_plain [keeping]: "keeps (plain_call c)"
  unfolding plain_call_def by (intro keeping) (auto intro: keeping split: reply.splits)

lemma keeps_change [keeping]: "keeps (change_flags f fd)"
  by (auto simp: keeps_def change_flags_def outcome_simps ask_def split: list.splits reply.splits)

lemma keeps_gettimeofday [keeping]: "keeps gettimeofday"
  unfolding gettimeofday_def by (intro keeping) (auto intro: keeping split: reply.splits)

lemma keeps_update [keeping]: "keeps (update_timeout t t0)"
  unfolding update_timeout_def by (intro keeping) (auto intro: keeping split: option.splits)

lemma keeps_set_errno [keeping]: "keeps (set_errno e)"
  by (simp add: keeps_def set_errno_def)

lemma keeps_connect_wait [keeping]: "keeps (connect_wait n sd timeout tstart)"
proof (induction n arbitrary: timeout tstart)
  case 0
  show ?case by (simp add: keeps_def)
next
  case (Suc n)
  show ?case unfolding connect_wait.simps
    by (intro keeping) (auto intro!: keeping Suc split: reply.splits option.splits)
qed

lemma keeps_nonblocking [keeping]: "keeps (u_net_set_nonblocking sd)" "keeps (u_net_unset_nonblocking sd)"
  unfolding u_net_set_nonblocking_def u_net_unset_nonblocking_def by (rule keeping)+

lemma keeps_connect_err [keeping]: "keeps (connect_err sd t)"
  unfolding connect_err_def by (intro keeping) (auto intro!: keeping simp: keeps_def [of "\<lambda>s. Inr (f s, s)" for f])

lemma keeps_getsockopt [keeping]: "keeps (u_getsockopt sd)"
  unfolding u_getsockopt_def by (intro keeping) (auto intro: keeping split: reply.splits)

lemma keeps_connect_async [keeping]: "keeps (connect_async sd t t0)"
proof -
  have "keeps (sbind (connect_wait n sd t t0) (\<lambda>(ready, timeout1).
          if \<not> ready then connect_err sd timeout1
          else
            sbind (u_getsockopt sd) (\<lambda>(rc, e).
              if rc = - 1 then connect_err sd timeout1
              else if e \<noteq> 0 then sbind (set_errno e) (\<lambda>_. connect_err sd timeout1)
              else sbind (if timeout1 \<noteq> None then u_net_unset_nonblocking sd else sret rc_ok) (\<lambda>_. sret (0, timeout1)))))" for n
    by (intro keeping) (auto intro!: keeping split: prod.splits)
  then show ?thesis unfolding keeps_def connect_async_def by auto
qed

lemma keeps_connect_go [keeping]: "keeps (connect_go sd a t t0)"
  unfolding connect_go_def by (intro keeping) (auto intro: keeping split: reply.splits)

lemma keeps_connect [keeping]: "keeps (u_connect_ex sd a n t)"
  unfolding u_connect_ex_def by (auto intro!: keeping split: option.splits)

lemma makes_open: "makes id (open_call c)"
  by (auto simp: makes_def open_call_def outcome_simps ask_def split: list.splits reply.splits)

text \<open>A step with a descriptor in hand: it returns it, or closes it and fails.\<close>

definition hands :: "int \<Rightarrow> int list \<Rightarrow> int run \<Rightarrow> bool" where
  "hands fd fds m = (\<forall>s r s'. opened s = fd # fds \<longrightarrow> m s = Inr (r, s') \<longrightarrow>
     r = - 1 \<and> opened s' = fds \<or> r = fd \<and> opened s' = fd # fds)"

lemma hands_step [keeping]:
  assumes "keeps m" "hands fd fds k" "0 \<le> fd"
  shows "hands fd fds (step_sock fd needed m k)"
  using assms unfolding hands_def keeps_def step_sock_def fail_sock_def U_CLOSE_def
  by (fastforce simp: outcome_simps split: if_splits)

lemma hands_sret [keeping]: "hands fd fds (sret fd)"
  by (simp add: hands_def)

lemma handsD: "hands fd fds m \<Longrightarrow> opened s = fd # fds \<Longrightarrow> m s = Inr (r, s') \<Longrightarrow> r = - 1 \<and> opened s' = fds \<or> r = fd \<and> opened s' = fd # fds"
  unfolding hands_def by blast

lemma keeps_options [keeping]: "keeps (u_setsockopt fd opt)" "keeps (sctp_enable_events fd opts)" "keeps (bind_reuse_addr fd)"
    "keeps (u_bind fd a)" "keeps (u_listen fd n)"
  unfolding u_setsockopt_def sctp_enable_events_def bind_reuse_addr_def u_bind_def u_listen_def by (auto intro!: keeping)

lemma makes_ssock: "makes id (do_ssock ai type opts backlog)"
proof (cases "ai_addr ai")
  case None
  then show ?thesis by (simp add: do_ssock_def makes_def)
next
  case (Some sad)
  show ?thesis unfolding makes_def
  proof (intro allI impI)
    fix s r s'
    let ?k = "\<lambda>fd. step_sock fd (ai_family ai \<noteq> AF_UNIX \<and> opts AND U_NET_OPT_DONT_REUSE_ADDR = 0) (bind_reuse_addr fd)
              (step_sock fd (opts AND U_NET_OPT_SCTP_ONE_TO_MANY \<noteq> 0) (sctp_enable_events fd opts)
                (step_sock fd True (u_bind fd sad)
                  (step_sock fd (type = SOCK_STREAM \<or> type = SOCK_SEQPACKET) (u_listen fd backlog) (sret fd))))"
    assume "do_ssock ai type opts backlog s = Inr (r, s')"
    then obtain fd s1 where o: "open_call (C_socket (ai_family ai) type (ai_protocol ai)) s = Inr (fd, s1)"
      "fd = - 1 \<and> (r, s') = (- 1, s1) \<or> fd \<noteq> - 1 \<and> ?k fd s1 = Inr (r, s')"
      by (auto simp: do_ssock_def u_socket_def Some outcome_simps split: if_split_asm)
    have m: "fd = - 1 \<and> opened s1 = opened s \<or> 0 \<le> fd \<and> opened s1 = fd # opened s" using makesD [OF makes_open o(1)] by simp
    have "hands fd fds (?k fd)" if "0 \<le> fd" for fds by (intro keeping that)
    then show "id r = - 1 \<and> opened s' = opened s \<or> 0 \<le> id r \<and> opened s' = id r # opened s"
      using m o(2) handsD [of fd "opened s" "?k fd" s1 r s'] by auto
  qed
qed

lemma makes_csock: "makes fst (do_csock ai type opts timeout)"
proof (cases "ai_addr ai")
  case None
  then show ?thesis by (simp add: do_csock_def makes_def)
next
  case (Some sad)
  show ?thesis unfolding makes_def
  proof (intro allI impI)
    fix s s' :: sys and x :: "int \<times> timeval option"
    let ?k = "\<lambda>fd. step_sock fd (type = SOCK_DGRAM \<and> opts AND U_NET_OPT_DGRAM_BROADCAST \<noteq> 0) (u_setsockopt fd SO_BROADCAST)
                    (step_sock fd (opts AND U_NET_OPT_SCTP_ONE_TO_MANY \<noteq> 0) (sctp_enable_events fd opts) (sret fd))"
    let ?c = "\<lambda>fd. sbind (u_connect_ex fd (Some sad) (ai_addrlen ai) timeout) (\<lambda>(rc, timeout1).
                  if rc < 0 then sbind (fail_sock fd) (\<lambda>r1. sret (r1, timeout1)) else sret (fd, timeout1))"
    let ?P = "fst x = - 1 \<and> opened s' = opened s \<or> 0 \<le> fst x \<and> opened s' = fst x # opened s"
    assume h: "do_csock ai type opts timeout s = Inr (x, s')"
    then obtain fd s1 where o: "open_call (C_socket (ai_family ai) type (ai_protocol ai)) s = Inr (fd, s1)"
      by (auto simp: do_csock_def u_socket_def Some outcome_simps)
    have m: "fd = - 1 \<and> opened s1 = opened s \<or> 0 \<le> fd \<and> opened s1 = fd # opened s" using makesD [OF makes_open o] by simp
    show ?P
    proof (cases "fd = - 1")
      case True
      then show ?thesis using h o m by (auto simp: do_csock_def u_socket_def Some outcome_simps)
    next
      case False
      then have fd: "0 \<le> fd" "opened s1 = fd # opened s" using m by auto
      obtain r s2 where r: "?k fd s1 = Inr (r, s2)"
        "r = - 1 \<and> x = (- 1, timeout) \<and> s' = s2 \<or> r \<noteq> - 1 \<and> (x = (fd, timeout) \<and> s' = s2 \<or> ?c fd s2 = Inr (x, s'))"
        using h o False by (auto simp: do_csock_def u_socket_def Some outcome_simps split: if_split_asm)
      have "hands fd (opened s) (?k fd)" by (intro keeping fd(1))
      then have k: "r = - 1 \<and> opened s2 = opened s \<or> r = fd \<and> opened s2 = fd # opened s" using handsD fd(2) r(1) by blast
      have c: ?P if c1: "?c fd s2 = Inr (x, s')" and c2: "opened s2 = fd # opened s"
      proof -
        obtain y s3 where y: "u_connect_ex fd (Some sad) (ai_addrlen ai) timeout s2 = Inr (y, s3)"
          "(case y of (rc, t) \<Rightarrow> if rc < 0 then sbind (fail_sock fd) (\<lambda>r1. sret (r1, t)) else sret (fd, t)) s3 = Inr (x, s')"
          using sbind_Inr [THEN iffD1, OF c1] by auto
        obtain rc t where "y = (rc, t)" by (cases y)
        with y have "u_connect_ex fd (Some sad) (ai_addrlen ai) timeout s2 = Inr ((rc, t), s3)"
          "rc < 0 \<and> sbind (fail_sock fd) (\<lambda>r1. sret (r1, t)) s3 = Inr (x, s') \<or> x = (fd, t) \<and> s' = s3"
          by (simp_all del: sbind_Inr split: if_split_asm)
        moreover from this(1) have "opened s3 = fd # opened s" using keepsD [OF keeps_connect] c2 by metis
        ultimately show ?thesis using fd(1) by (auto simp: outcome_simps fail_sock_def U_CLOSE_def)
      qed
      from r(2) k fd(1) c show ?thesis by auto
    qed
  qed
qed

lemma makes_map:
  assumes "makes f m" "\<And>x. g (h x) = f x"
  shows "makes g (sbind m (\<lambda>x. sret (h x)))"
  unfolding makes_def
proof (intro allI impI)
  fix s y s'
  assume "sbind m (\<lambda>x. sret (h x)) s = Inr (y, s')"
  then obtain x where "m s = Inr (x, s')" "y = h x" by (auto simp: outcome_simps)
  with makesD [OF assms(1)] assms(2) show "g y = - 1 \<and> opened s' = opened s \<or> 0 \<le> g y \<and> opened s' = g y # opened s" by metis
qed

text \<open>
  What the loop over the addresses relies on: the function that makes a socket for one address leaves no
  descriptor behind when it fails. Passive and active sockets have this contract.
\<close>

locale socket_maker =
  fixes mk :: "u_addrinfo \<Rightarrow> sock_type \<Rightarrow> timeval option \<Rightarrow> (int \<times> timeval option) run"
  assumes mk_makes: "makes fst (mk ai ty t)"
begin

lemma tries: "makes fst (try_addrs mk opts ais i cur t)"
proof (induction ais arbitrary: i t)
  case Nil
  show ?case by (simp add: makes_def)
next
  case (Cons ai ais)
  show ?case unfolding makes_def
  proof (intro allI impI)
    fix s x s'
    let ?ty = "if ai_protocol ai = IPPROTO_SCTP \<and> opts AND U_NET_OPT_SCTP_ONE_TO_MANY \<noteq> 0 then SOCK_SEQPACKET else ai_socktype ai"
    assume "try_addrs mk opts (ai # ais) i cur t s = Inr (x, s')"
    then obtain sd t1 s1 where o: "mk ai ?ty t s = Inr ((sd, t1), s1)"
      "sd \<ge> 0 \<and> x = (sd, Some i, t1) \<and> s' = s1 \<or> \<not> sd \<ge> 0 \<and> try_addrs mk opts ais (Suc i) cur t1 s1 = Inr (x, s')"
      by (simp only: try_addrs.simps) (auto simp: outcome_simps split: if_split_asm)
    have m: "sd = - 1 \<and> opened s1 = opened s \<or> 0 \<le> sd \<and> opened s1 = sd # opened s" using makesD [OF mk_makes o(1)] by simp
    show "fst x = - 1 \<and> opened s' = opened s \<or> 0 \<le> fst x \<and> opened s' = fst x # opened s"
      using o(2) m makesD [OF Cons.IH, of "Suc i" t1 s1 x s'] by auto
  qed
qed

lemma sock: "makes fst (do_sock mk a t)"
proof -
  have e: "(\<lambda>(sd, cur, timeout1). sret (sd, a\<lparr> na_cur := cur \<rparr>, timeout1))
    = (\<lambda>x. sret (case x of (sd, cur, timeout1) \<Rightarrow> (sd, a\<lparr> na_cur := cur \<rparr>, timeout1)))" by (auto simp: fun_eq_iff)
  have "makes fst (sret (- 1, a, t))" by (simp add: makes_def)
  moreover have "makes fst (sbind (try_addrs mk (na_opts a) (na_addr a) 0 (na_cur a) t)
    (\<lambda>x. sret (case x of (sd, cur, timeout1) \<Rightarrow> (sd, a\<lparr> na_cur := cur \<rparr>, timeout1))))"
    by (rule makes_map [OF tries]) (auto split: prod.splits)
  ultimately show ?thesis by (simp add: do_sock_def e)
qed

lemma sock_some: "makes fst (sbind (do_sock mk a t) (\<lambda>(sd, a1, t1). sret (sd, Some a1, t1)))"
proof -
  have e: "(\<lambda>(sd :: int, a1 :: u_net_addr, t1 :: timeval option). sret (sd, Some a1, t1)) = (\<lambda>x. sret (case x of (sd, a1, t1) \<Rightarrow> (sd, Some a1, t1)))" by (auto simp: fun_eq_iff)
  show ?thesis unfolding e by (rule makes_map [OF sock]) (auto split: prod.splits)
qed

end

interpretation ssock: socket_maker "\<lambda>ai type t. sbind (do_ssock ai type opts backlog) (\<lambda>sd. sret (sd, t))" for opts backlog
  by unfold_locales (rule makes_map [OF makes_ssock], simp)

interpretation csock: socket_maker "\<lambda>ai type t. do_csock ai type opts t" for opts
  by unfold_locales (rule makes_csock)

lemma makes_by_addr: "makes fst (u_net_sd_by_addr_ex (Some a) t)"
proof (cases "na_mode a")
  case U_NET_SSOCK
  then show ?thesis unfolding u_net_sd_by_addr_ex_def using ssock.sock_some by simp
next
  case U_NET_CSOCK
  then show ?thesis unfolding u_net_sd_by_addr_ex_def using csock.sock_some by simp
next
  case (Bad_mode m)
  then show ?thesis by (simp add: u_net_sd_by_addr_ex_def makes_def)
qed

section \<open>The time of a connection\<close>

definition us :: "timeval \<Rightarrow> int" where
  "us t = fst t * 1000000 + snd t"

definition norm_tv :: "timeval \<Rightarrow> bool" where
  "norm_tv t = (0 \<le> snd t \<and> snd t < 1000000)"

lemma timersub_us: "us (u_timersub a b) = us a - us b"
  by (simp add: us_def u_timersub_def Let_def)

lemma timersub_norm: "norm_tv a \<Longrightarrow> norm_tv b \<Longrightarrow> norm_tv (u_timersub a b)"
  by (auto simp: norm_tv_def u_timersub_def Let_def)

lemma us_nonneg: "norm_tv t \<Longrightarrow> 0 \<le> fst t \<Longrightarrow> 0 \<le> us t"
  by (simp add: us_def norm_tv_def)

text \<open>
  A trace is on time for a deadline when every wait that it has is not negative and ends at the deadline,
  counted from the last reading of the clock, which is \<open>c\<close> at its start.
\<close>

fun on_time :: "int \<Rightarrow> int \<Rightarrow> (call \<times> reply) list \<Rightarrow> bool" where
  "on_time d c [] = True"
| "on_time d c ((C_time, R_val k) # tr) = on_time d (int k) tr"
| "on_time d c ((C_select sd t, r) # tr) = ((case t of None \<Rightarrow> False | Some x \<Rightarrow> 0 \<le> us x \<and> us x + c = d) \<and> on_time d c tr)"
| "on_time d c (x # tr) = on_time d c tr"

fun waits :: "call \<Rightarrow> bool" where
  "waits (C_select sd t) = True"
| "waits C_time = True"
| "waits c = False"

definition quiet :: "'a run \<Rightarrow> bool" where
  "quiet m = (\<forall>s x s'. m s = Inr (x, s') \<longrightarrow> (\<exists>tr. trace s' = trace s @ tr \<and> list_all (\<lambda>(c, r). \<not> waits c) tr))"

lemma on_time_quiet: "list_all (\<lambda>(c, r). \<not> waits c) tr \<Longrightarrow> on_time d c (tr @ tr') = on_time d c tr'"
proof (induction tr)
  case (Cons x tr)
  then show ?case by (cases x; cases "fst x") auto
qed simp

named_theorems quieting \<open>steps that neither wait nor read the clock\<close>

lemma quiet_sret [quieting]: "quiet (sret x)"
  by (simp add: quiet_def)

lemma quiet_sbind [quieting]: "quiet m \<Longrightarrow> (\<And>x. quiet (f x)) \<Longrightarrow> quiet (sbind m f)"
  unfolding quiet_def
proof (intro allI impI)
  assume m: "\<forall>s x s'. m s = Inr (x, s') \<longrightarrow> (\<exists>tr. trace s' = trace s @ tr \<and> list_all (\<lambda>(c, r). \<not> waits c) tr)"
    and f: "\<And>x. \<forall>s y s'. f x s = Inr (y, s') \<longrightarrow> (\<exists>tr. trace s' = trace s @ tr \<and> list_all (\<lambda>(c, r). \<not> waits c) tr)"
  fix s y s'
  assume "sbind m f s = Inr (y, s')"
  then obtain x s1 where x: "m s = Inr (x, s1)" "f x s1 = Inr (y, s')" by (auto simp: outcome_simps)
  from m x(1) obtain tr where "trace s1 = trace s @ tr" "list_all (\<lambda>(c, r). \<not> waits c) tr" by blast
  moreover from f x(2) obtain tr' where "trace s' = trace s1 @ tr'" "list_all (\<lambda>(c, r). \<not> waits c) tr'" by blast
  ultimately show "\<exists>tr. trace s' = trace s @ tr \<and> list_all (\<lambda>(c, r). \<not> waits c) tr" by (intro exI [of _ "tr @ tr'"]) simp
qed

lemma quiet_ask [quieting]: "\<not> waits c \<Longrightarrow> quiet (ask c)"
  by (auto simp: quiet_def ask_def split: list.splits)

lemma quiet_errno [quieting]: "quiet (set_errno e)"
  by (simp add: quiet_def set_errno_def)

lemma quiet_if [quieting]: "quiet m \<Longrightarrow> quiet n \<Longrightarrow> quiet (if b then m else n)"
  by simp

lemma quiet_get [quieting]: "quiet (\<lambda>s. Inr (f s, s))"
  by (simp add: quiet_def)

lemma quiet_change [quieting]: "quiet (change_flags f fd)"
  by (auto simp: quiet_def change_flags_def outcome_simps ask_def split: list.splits reply.splits)

lemma quiet_connect_err [quieting]: "quiet (connect_err sd t)"
  unfolding connect_err_def u_net_unset_nonblocking_def by (intro quieting)

lemma quiet_getsockopt [quieting]: "quiet (u_getsockopt sd)"
  unfolding u_getsockopt_def by (intro quieting) (auto intro: quieting split: reply.splits)

lemma wait_on_time:
  "connect_wait n sd (Some t) t0 s = Inr (x, s') \<Longrightarrow> norm_tv t \<Longrightarrow> norm_tv t0 \<Longrightarrow> 0 \<le> fst t \<Longrightarrow>
   \<exists>tr. trace s' = trace s @ tr \<and> on_time (us t + us t0) (us t0) tr \<and> (\<exists>t1. snd x = Some t1)"
proof (induction n arbitrary: t t0 s)
  case (Suc n)
  obtain r s1 where a: "ask (C_select sd (Some t)) s = Inr (r, s1)" using Suc.prems(1) by (auto simp: connect_wait.simps outcome_simps)
  then have tr: "trace s1 = trace s @ [(C_select sd (Some t), r)]" by (auto simp: ask_def split: list.splits)
  have u: "0 \<le> us t" using Suc.prems(2,4) us_nonneg by simp
  show ?case
  proof (cases "r = R_err EINTR")
    case False
    then have "trace s' = trace s1 \<and> (\<exists>t1. snd x = Some t1)"
      using Suc.prems(1) a by (cases r) (auto simp: connect_wait.simps outcome_simps set_errno_def split: if_split_asm)
    with tr u show ?thesis by (cases r) auto
  next
    case True
    obtain y s2 where y: "update_timeout t t0 s1 = Inr (y, s2)"
      "(case y of (rc, t1, tstart1) \<Rightarrow>
                  if rc \<noteq> rc_ok then sret (False, Some t1)
                  else if fst t1 < 0 then sbind (set_errno ETIMEDOUT) (\<lambda>_. sret (False, Some t1))
                  else connect_wait n sd (Some t1) tstart1) s2 = Inr (x, s')"
      using Suc.prems(1) a True by (auto simp: connect_wait.simps outcome_simps)
    obtain r2 s3 where a2: "ask C_time s1 = Inr (r2, s3)" using y(1) by (auto simp: update_timeout_def gettimeofday_def outcome_simps)
    then have tr2: "trace s3 = trace s1 @ [(C_time, r2)]" by (auto simp: ask_def split: list.splits)
    show ?thesis
    proof (cases r2)
      case (R_err e)
      then have "y = (rc_fail, t, t0)" "s2 = s3" using y(1) a2 by (auto simp: update_timeout_def gettimeofday_def outcome_simps)
      with y(2) tr tr2 u R_err show ?thesis by auto
    next
      case (R_val k)
      let ?now = "(int (k div 1000000), int (k mod 1000000))"
      let ?t1 = "u_timersub t (u_timersub ?now t0)"
      have yy: "y = (rc_ok, ?t1, ?now)" "s2 = s3" using y(1) a2 R_val by (auto simp: update_timeout_def gettimeofday_def outcome_simps)
      have now: "us ?now = int k" "norm_tv ?now" by (simp_all add: us_def norm_tv_def) (metis div_mult_mod_eq of_nat_add of_nat_mult of_nat_numeral)
      have t1: "norm_tv ?t1" "us ?t1 + us ?now = us t + us t0" using Suc.prems(2,3) now(2) by (simp_all add: timersub_norm timersub_us)
      show ?thesis
      proof (cases "fst ?t1 < 0")
        case True
        with y(2) yy have "trace s' = trace s3" "snd x = Some ?t1" by (auto simp: outcome_simps set_errno_def)
        with tr tr2 u R_val show ?thesis by auto
      next
        case False
        then have "connect_wait n sd (Some ?t1) ?now s3 = Inr (x, s')" using y(2) yy by simp
        from Suc.IH [OF this t1(1) now(2)] False obtain tr' where
          i: "trace s' = trace s3 @ tr'" "on_time (us t + us t0) (int k) tr'" "\<exists>t1. snd x = Some t1" using t1(2) now(1) by auto
        have "trace s' = trace s @ (C_select sd (Some t), r) # (C_time, R_val k) # tr'" using i(1) tr tr2 R_val by simp
        with i u show ?thesis by (intro exI [of _ "(C_select sd (Some t), r) # (C_time, R_val k) # tr'"]) simp
      qed
    qed
  qed
qed simp

lemma on_time_append: "list_all (\<lambda>(c, r). \<not> waits c) tr' \<Longrightarrow> on_time d c (tr @ tr') = on_time d c tr"
proof (induction d c tr rule: on_time.induct)
  case (1 d c)
  then show ?case using on_time_quiet [of tr' d c "[]"] by simp
qed auto

lemma quietD: "quiet m \<Longrightarrow> m s = Inr (x, s') \<Longrightarrow> \<exists>tr. trace s' = trace s @ tr \<and> list_all (\<lambda>(c, r). \<not> waits c) tr"
  unfolding quiet_def by blast

lemma async_on_time:
  assumes "connect_async sd (Some t) t0 s = Inr (x, s')" "norm_tv t" "norm_tv t0" "0 \<le> fst t"
  shows "\<exists>tr. trace s' = trace s @ tr \<and> on_time (us t + us t0) (us t0) tr"
proof -
  let ?k = "\<lambda>(ready, timeout1).
          if \<not> ready then connect_err sd timeout1
          else
            sbind (u_getsockopt sd) (\<lambda>(rc, e).
              if rc = - 1 then connect_err sd timeout1
              else if e \<noteq> 0 then sbind (set_errno e) (\<lambda>_. connect_err sd timeout1)
              else sbind (if timeout1 \<noteq> None then u_net_unset_nonblocking sd else sret rc_ok) (\<lambda>_. sret (0, timeout1)))"
  have "sbind (connect_wait (Suc (length (replies s))) sd (Some t) t0) ?k s = Inr (x, s')"
    using assms(1) unfolding connect_async_def by (simp split: if_split_asm)
  then obtain y s1 where y: "connect_wait (Suc (length (replies s))) sd (Some t) t0 s = Inr (y, s1)" "?k y s1 = Inr (x, s')"
    using sbind_Inr [THEN iffD1] by blast
  have q: "quiet (?k y)"
    by (auto intro!: quieting simp: u_net_unset_nonblocking_def split: prod.splits)
  obtain tr' where t': "trace s' = trace s1 @ tr'" "list_all (\<lambda>(c, r). \<not> waits c) tr'" using quietD [OF q y(2)] by blast
  obtain tr where "trace s1 = trace s @ tr" "on_time (us t + us t0) (us t0) tr" using wait_on_time [OF y(1) assms(2-4)] by blast
  with t' show ?thesis by (intro exI [of _ "tr @ tr'"]) (simp add: on_time_append)
qed

text \<open>The trace of a connection with a timeout: no wait before the clock is read, and then it is on time.\<close>

fun deadline_kept :: "timeval \<Rightarrow> (call \<times> reply) list \<Rightarrow> bool" where
  "deadline_kept t [] = True"
| "deadline_kept t ((C_time, R_val k) # tr) = on_time (us t + int k) (int k) tr"
| "deadline_kept t ((C_select sd to, r) # tr) = False"
| "deadline_kept t (x # tr) = deadline_kept t tr"

lemma kept_quiet: "list_all (\<lambda>(c, r). \<not> waits c) tr \<Longrightarrow> deadline_kept t (tr @ tr') = deadline_kept t tr'"
proof (induction tr)
  case (Cons x tr)
  then show ?case by (cases x; cases "fst x") auto
qed simp

lemma connect_go_on_time:
  assumes "connect_go sd a (Some t) t0 s = Inr (x, s')" "norm_tv t" "norm_tv t0" "0 \<le> fst t"
  shows "\<exists>tr. trace s' = trace s @ tr \<and> on_time (us t + us t0) (us t0) tr"
proof -
  obtain r s1 where a: "ask (C_connect sd a) s = Inr (r, s1)"
    "(case r of R_val _ \<Rightarrow> sret (0, Some t) | R_err e \<Rightarrow> if e \<noteq> EINTR \<and> e \<noteq> EINPROGRESS then connect_err sd (Some t) else connect_async sd (Some t) t0) s1
      = Inr (x, s')"
    using assms(1) unfolding connect_go_def by (auto simp only: sbind_Inr)
  obtain tr1 where t1: "trace s1 = trace s @ tr1" "list_all (\<lambda>(c, r). \<not> waits c) tr1" using quietD [OF quiet_ask a(1)] by auto
  have "\<exists>tr. trace s' = trace s1 @ tr \<and> on_time (us t + us t0) (us t0) tr"
  proof (cases r)
    case (R_val n)
    then show ?thesis using a(2) by simp
  next
    case (R_err e)
    show ?thesis
    proof (cases "e \<noteq> EINTR \<and> e \<noteq> EINPROGRESS")
      case True
      then obtain tr where "trace s' = trace s1 @ tr" "list_all (\<lambda>(c, r). \<not> waits c) tr"
        using quietD [OF quiet_connect_err] a(2) R_err by fastforce
      then show ?thesis using on_time_quiet [of tr _ _ "[]"] by auto
    next
      case False
      then have "connect_async sd (Some t) t0 s1 = Inr (x, s')" using a(2) R_err by auto
      from async_on_time [OF this assms(2-4)] show ?thesis .
    qed
  qed
  then obtain tr where "trace s' = trace s1 @ tr" "on_time (us t + us t0) (us t0) tr" by blast
  with t1 show ?thesis by (intro exI [of _ "tr1 @ tr"]) (simp add: on_time_quiet)
qed

section \<open>Properties\<close>

text \<open>C27: A connection with a timeout waits no longer than it should, however often it is interrupted: each wait is for
  the time that is left to the deadline, which is the timeout counted from the first reading of the clock, and
  no wait is for a negative time.\<close>

theorem u_connect_ex_deadline:
  assumes "u_connect_ex sd (Some a) len (Some t) s = Inr (x, s')" "norm_tv t" "0 \<le> fst t"
  shows "\<exists>tr. trace s' = trace s @ tr \<and> deadline_kept t tr"
proof (cases "sd < 0 \<or> len = 0")
  case True
  then have "u_connect_ex sd (Some a) len (Some t) = sret (- 1, Some t)" by (auto simp: u_connect_ex_def)
  then show ?thesis using assms(1) by simp
next
  case False
  let ?g = "\<lambda>u. case u of None \<Rightarrow> connect_err sd (Some t) | Some tstart \<Rightarrow> connect_go sd a (Some t) tstart"
  obtain rc s1 where n: "u_net_set_nonblocking sd s = Inr (rc, s1)"
    "(if rc \<noteq> rc_ok then connect_err sd (Some t) else sbind gettimeofday ?g) s1 = Inr (x, s')"
    using assms(1) False unfolding u_connect_ex_def by (auto simp: sbind_Inr)
  obtain tr1 where t1: "trace s1 = trace s @ tr1" "list_all (\<lambda>(c, r). \<not> waits c) tr1"
    using quietD [OF quiet_change n(1) [unfolded u_net_set_nonblocking_def]] by blast
  have err: "\<exists>tr. trace s' = trace s2 @ tr \<and> deadline_kept t tr" if "connect_err sd (Some t) s2 = Inr (x, s')" for s2
    using quietD [OF quiet_connect_err that] kept_quiet [of _ t "[]"] by auto
  have "\<exists>tr. trace s' = trace s1 @ tr \<and> deadline_kept t tr"
  proof (cases "rc = rc_ok")
    case False
    then show ?thesis using n(2) err by simp
  next
    case True
    with n(2) have "sbind gettimeofday ?g s1 = Inr (x, s')" by simp
    then obtain u s2 where u: "gettimeofday s1 = Inr (u, s2)" "?g u s2 = Inr (x, s')" using sbind_Inr [THEN iffD1] by blast
    obtain r s3 where r0: "ask C_time s1 = Inr (r, s3)"
      "(case r of R_err _ \<Rightarrow> sret None | R_val t \<Rightarrow> sret (Some (int (t div 1000000), int (t mod 1000000)))) s3 = Inr (u, s2)"
      using u(1) unfolding gettimeofday_def by (auto simp only: sbind_Inr)
    then have r: "ask C_time s1 = Inr (r, s2)" "u = (case r of R_err _ \<Rightarrow> None | R_val k \<Rightarrow> Some (int (k div 1000000), int (k mod 1000000)))"
      by (cases r; simp)+
    have t2: "trace s2 = trace s1 @ [(C_time, r)]" using r(1) by (auto simp: ask_def split: list.splits)
    show ?thesis
    proof (cases r)
      case (R_err e)
      then obtain tr where "trace s' = trace s2 @ tr" "deadline_kept t tr" using err u(2) r(2) by auto
      with t2 R_err show ?thesis by auto
    next
      case (R_val k)
      let ?now = "(int (k div 1000000), int (k mod 1000000))"
      have now: "us ?now = int k" "norm_tv ?now" by (simp_all add: us_def norm_tv_def) (metis div_mult_mod_eq of_nat_add of_nat_mult of_nat_numeral)
      have "connect_go sd a (Some t) ?now s2 = Inr (x, s')" using u(2) r(2) R_val by simp
      from connect_go_on_time [OF this assms(2) now(2) assms(3)] now(1) obtain tr where "trace s' = trace s2 @ tr" "on_time (us t + int k) (int k) tr" by auto
      with t2 R_val show ?thesis by auto
    qed
  qed
  then obtain tr where "trace s' = trace s1 @ tr" "deadline_kept t tr" by blast
  with t1 show ?thesis by (intro exI [of _ "tr1 @ tr"]) (simp add: kept_quiet)
qed

definition quick_sys :: "reply list \<Rightarrow> sys" where
  "quick_sys rs = \<lparr> replies = rs, opened = [], fdflags = (\<lambda>_. 0), sys_errno = 0, trace = [] \<rparr>"

theorem u_connect_ex_deadline_witness:
  "\<exists>x s' tr. u_connect_ex 3 (Some (Sun ''p'')) 110 (Some (5, 0))
      (quick_sys [R_val 0, R_val 0, R_val 7000000, R_err EINPROGRESS, R_err EINTR, R_val 9500000, R_val 1, R_val 0, R_val 0, R_val 0])
        = Inr (x, s')
    \<and> fst x = 0 \<and> trace s' = tr \<and> deadline_kept (5, 0) tr \<and> tr ! 6 = (C_select 3 (Some (2, 500000)), R_val 1)"
proof -
  let ?s = "quick_sys [R_val 0, R_val 0, R_val 7000000, R_err EINPROGRESS, R_err EINTR, R_val 9500000, R_val 1, R_val 0, R_val 0, R_val 0]"
  obtain x s' where r: "u_connect_ex 3 (Some (Sun ''p'')) 110 (Some (5, 0)) ?s = Inr (x, s')"
    "fst x = 0" "trace s' ! 6 = (C_select 3 (Some (2, 500000)), R_val 1)"
    by (simp add: u_connect_ex_def quick_sys_def sbind_def u_net_set_nonblocking_def u_net_unset_nonblocking_def change_flags_def ask_def gettimeofday_def
      sret_def connect_go_def connect_async_def connect_wait.simps update_timeout_def u_timersub_def Let_def u_getsockopt_def EINTR_def EINPROGRESS_def
      FD_SETSIZE_def)
  from u_connect_ex_deadline [OF r(1)] obtain tr where "trace s' = tr" "deadline_kept (5, 0) tr"
    by (auto simp: norm_tv_def quick_sys_def)
  with r show ?thesis by blast
qed

text \<open>C26: No descriptor is lost when a socket is made: whatever the operating system answers, and however many addresses are
  tried, a failure leaves the open descriptors as they were, and a success adds the descriptor that is
  returned and no other. The same holds for a socket from an address object.\<close>

theorem u_net_sd_ex_descriptors:
  assumes "u_net_sd_ex gai mem uri mode opts timeout s = Inr ((sd, timeout'), s')"
  shows "sd = - 1 \<and> opened s' = opened s \<or> 0 \<le> sd \<and> opened s' = sd # opened s"
proof -
  have "sd = - 1 \<and> s' = s \<or> (\<exists>a x. u_net_sd_by_addr_ex (Some a) timeout s = Inr (x, s') \<and> fst x = sd)"
    using assms unfolding u_net_sd_ex_def
    by (auto simp: outcome_simps split: if_split_asm option.split_asm)
  then show ?thesis using makesD [OF makes_by_addr] by blast
qed

definition gai_one :: getaddrinfo where
  "gai_one h p hi = Some [\<lparr> ai_family = h_family hi, ai_socktype = h_type hi, ai_protocol = h_proto hi, ai_canonname = h,
     ai_addrlen = 16, ai_addr = Some (Sin [127, 0, 0, 1] 80) \<rparr>]"

definition all_mem :: net_mem where
  "all_mem = ((True, True, True), True, (True, True, True))"

lemma crumble_host:
  "u_uri_crumble (True, True, True) (Some ''tcp://h:80'') 0
     = Inr (rc_ok, Some ((empty_uri 0)\<lparr> uri_scheme := ''tcp'', uri_host := ''h'', uri_port := ''80'' \<rparr>))"
  by code_simp

theorem u_net_sd_ex_descriptors_witness:
  "\<exists>sd t s'. u_net_sd_ex gai_one all_mem (Some ''tcp://h:80'') U_NET_CSOCK 0 None (quick_sys [R_val 3, R_err 111]) = Inr ((sd, t), s')
    \<and> sd = - 1 \<and> opened s' = []"
proof -
  have m: "scheme_mapper ''tcp'' = Some \<lparr> sm_family = AF_INET, sm_type = SOCK_STREAM, sm_proto = IPPROTO_TCP \<rparr>"
    by code_simp
  obtain t s' where r: "u_net_sd_ex gai_one all_mem (Some ''tcp://h:80'') U_NET_CSOCK 0 None (quick_sys [R_val 3, R_err 111]) = Inr ((- 1, t), s')"
    by (simp add: u_net_sd_ex_def u_net_uri2addr_def all_mem_def crumble_host u_uri_get_def m na_new_def U_NET_IS_MODE_def uri2addr_def ai_resolv_def gai_one_def
      u_net_sd_by_addr_ex_def do_sock_def u_net_addr_set_opts_def sbind_def sret_def do_csock_def u_socket_def open_call_def ask_def quick_sys_def step_sock_def
      u_connect_ex_def connect_go_def EINTR_def EINPROGRESS_def connect_err_def fail_sock_def U_CLOSE_def Let_def ETIMEDOUT_def)
  from u_net_sd_ex_descriptors [OF r] r show ?thesis by (auto simp: quick_sys_def)
qed

text \<open>C28: A URI with a network scheme gives the addresses of its host and port: for a well-formed URI the family, the type and the protocol
  that are asked for are those of the scheme, the host and the port are the parts of the URI, where a
  star stands for any, and the mode is kept.\<close>

theorem u_net_uri2addr_spec:
  assumes "wf_uri segs u" "uri_opts u = 0" "scheme_mapper (uri_scheme u) = Some m" "sm_family m \<noteq> AF_UNIX"
    "mode = U_NET_SSOCK \<or> mode = U_NET_CSOCK"
  shows "u_net_uri2addr gai all_mem (Some (uri_text u)) mode =
    Inr (map_option (\<lambda>ais. \<lparr> na_opts = 0, na_mode = mode, na_addr = ais, na_cur = None \<rparr>)
      (gai (if uri_host u = ''*'' then None else Some (uri_host u)) (if uri_port u = ''*'' then None else Some (uri_port u))
        \<lparr> h_passive = (mode = U_NET_SSOCK), h_canonname = (uri_host u \<noteq> ''*''), h_family = sm_family m, h_type = sm_type m,
          h_proto = sm_proto m \<rparr>))"
proof -
  have "u_uri_crumble (True, True, True) (Some (uri_text u)) 0 = Inr (rc_ok, Some u)"
    using crumble_text [OF assms(1)] assms(2) by simp
  then show ?thesis using assms(3-5)
    by (auto simp: u_net_uri2addr_def all_mem_def u_uri_get_def na_new_def U_NET_IS_MODE_def uri2addr_def ai_resolv_def strcmp_eq Let_def)
qed

definition sctp_uri :: u_uri where
  "sctp_uri = \<lparr> uri_opts = 0, uri_flags = 0, uri_scheme = ''sctp4'', uri_userinfo = [], uri_user = [],
     uri_pwd = [], uri_authority = [], uri_host = ''myhost'', uri_port = ''9999'', uri_path = [],
     uri_query = [], uri_fragment = [] \<rparr>"

theorem u_net_uri2addr_spec_witness:
  "uri_text sctp_uri = ''sctp4://myhost:9999''
   \<and> u_net_uri2addr gai_one all_mem (Some (uri_text sctp_uri)) U_NET_SSOCK =
      Inr (Some \<lparr> na_opts = 0, na_mode = U_NET_SSOCK, na_addr = [\<lparr> ai_family = AF_INET, ai_socktype = SOCK_STREAM, ai_protocol = IPPROTO_SCTP,
        ai_canonname = Some ''myhost'', ai_addrlen = 16, ai_addr = Some (Sin [127, 0, 0, 1] 80) \<rparr>], na_cur = None \<rparr>)"
proof -
  have w: "wf_uri [] sctp_uri" by code_simp
  have "scheme_mapper (uri_scheme sctp_uri) = Some \<lparr> sm_family = AF_INET, sm_type = SOCK_STREAM, sm_proto = IPPROTO_SCTP \<rparr>" by code_simp
  from u_net_uri2addr_spec [OF w _ this, of U_NET_SSOCK gai_one]
  have "u_net_uri2addr gai_one all_mem (Some (uri_text sctp_uri)) U_NET_SSOCK =
      Inr (Some \<lparr> na_opts = 0, na_mode = U_NET_SSOCK, na_addr = [\<lparr> ai_family = AF_INET, ai_socktype = SOCK_STREAM, ai_protocol = IPPROTO_SCTP,
        ai_canonname = Some ''myhost'', ai_addrlen = 16, ai_addr = Some (Sin [127, 0, 0, 1] 80) \<rparr>], na_cur = None \<rparr>)"
    by (simp add: sctp_uri_def gai_one_def)
  moreover have "uri_text sctp_uri = ''sctp4://myhost:9999''" by code_simp
  ultimately show ?thesis by blast
qed

text \<open>What a call leaves of the flags of a descriptor, and what a connection does last.\<close>

lemma ask_flags: "ask c s = Inr (r, s') \<Longrightarrow> fdflags s' = fdflags s \<and> trace s' = trace s @ [(c, r)]"
  by (auto simp: ask_def split: list.splits)

definition last_call :: "int \<Rightarrow> sys \<Rightarrow> call \<Rightarrow> reply \<Rightarrow> bool" where
  "last_call sd s c r =
     (case (c, r) of
        (C_connect fd a, R_val n) \<Rightarrow> fd = sd \<and> fdflags s sd AND O_NONBLOCK = O_NONBLOCK
      | (C_setfl fd w, R_val n) \<Rightarrow> fd = sd \<and> w AND O_NONBLOCK = 0 \<and> fdflags s sd AND O_NONBLOCK = 0
      | (C_setfl fd w, R_err e) \<Rightarrow> fd = sd \<and> w AND O_NONBLOCK = 0
      | (C_getfl fd, R_err e) \<Rightarrow> fd = sd
      | _ \<Rightarrow> False)"

definition ends :: "int \<Rightarrow> sys \<Rightarrow> sys \<Rightarrow> call \<Rightarrow> reply \<Rightarrow> bool" where
  "ends sd s s' c r = ((\<exists>tr. trace s' = trace s @ tr @ [(c, r)]) \<and> last_call sd s' c r)"

lemma ends_later: "ends sd s1 s' c r \<Longrightarrow> trace s1 = trace s @ tr \<Longrightarrow> ends sd s s' c r"
  by (auto simp: ends_def)

lemma cleared: "(w AND NOT m) AND m = 0" "(w OR m) AND m = m" for w m :: "32 word"
  by (auto simp: bit_eq_iff bit_and_iff bit_or_iff bit_not_iff)

lemma change_result:
  assumes "change_flags f fd s = Inr (rc, s')"
  shows "\<exists>r s1. ask (C_getfl fd) s = Inr (r, s1) \<and>
    (case r of R_err e \<Rightarrow> rc = rc_fail \<and> s' = s1
     | R_val n \<Rightarrow> \<exists>r2 s2. ask (C_setfl fd (f (fdflags s1 fd))) s1 = Inr (r2, s2) \<and>
        (case r2 of R_err e \<Rightarrow> rc = rc_fail \<and> s' = s2
         | R_val m \<Rightarrow> rc = rc_ok \<and> s' = s2\<lparr> fdflags := (fdflags s2)(fd := f (fdflags s2 fd)) \<rparr>))"
proof -
  obtain r s1 where g: "ask (C_getfl fd) s = Inr (r, s1)"
    using assms unfolding change_flags_def by (auto simp only: sbind_Inr)
  show ?thesis
  proof (cases r)
    case (R_err e)
    with assms g show ?thesis by (auto simp: change_flags_def outcome_simps)
  next
    case (R_val n)
    obtain r2 s2 where f: "ask (C_setfl fd (f (fdflags s1 fd))) s1 = Inr (r2, s2)"
      using assms g R_val by (auto simp: change_flags_def outcome_simps)
    with assms g R_val show ?thesis by (cases r2) (auto simp: change_flags_def outcome_simps)
  qed
qed

lemma time_result: "gettimeofday s = Inr (u, s') \<Longrightarrow> \<exists>r. ask C_time s = Inr (r, s')"
proof -
  assume "gettimeofday s = Inr (u, s')"
  then obtain r s3 where "ask C_time s = Inr (r, s3)"
    "(case r of R_err _ \<Rightarrow> sret None | R_val t \<Rightarrow> sret (Some (int (t div 1000000), int (t mod 1000000)))) s3 = Inr (u, s')"
    unfolding gettimeofday_def by (auto simp only: sbind_Inr)
  then show ?thesis by (cases r) auto
qed

lemma update_result: "update_timeout t t0 s = Inr (y, s') \<Longrightarrow> \<exists>r. ask C_time s = Inr (r, s')"
proof -
  assume "update_timeout t t0 s = Inr (y, s')"
  then obtain u s1 where u: "gettimeofday s = Inr (u, s1)"
    "(case u of None \<Rightarrow> sret (rc_fail, t, t0) | Some now \<Rightarrow> sret (rc_ok, u_timersub t (u_timersub now t0), now)) s1 = Inr (y, s')"
    unfolding update_timeout_def by (auto simp only: sbind_Inr)
  then have "s1 = s'" by (cases u) auto
  with time_result [OF u(1)] show ?thesis by simp
qed

lemma unset_ends:
  assumes "u_net_unset_nonblocking sd s = Inr (rc, s')"
  shows "\<exists>c r. ends sd s s' c r \<and> (\<forall>fd a. c \<noteq> C_connect fd a)"
proof -
  obtain r s1 where g: "ask (C_getfl sd) s = Inr (r, s1)"
    "case r of R_err e \<Rightarrow> rc = rc_fail \<and> s' = s1
     | R_val n \<Rightarrow> \<exists>r2 s2. ask (C_setfl sd (fdflags s1 sd AND NOT O_NONBLOCK)) s1 = Inr (r2, s2) \<and>
        (case r2 of R_err e \<Rightarrow> rc = rc_fail \<and> s' = s2
         | R_val m \<Rightarrow> rc = rc_ok \<and> s' = s2\<lparr> fdflags := (fdflags s2)(sd := fdflags s2 sd AND NOT O_NONBLOCK) \<rparr>)"
    using change_result [OF assms [unfolded u_net_unset_nonblocking_def]] by blast
  show ?thesis
  proof (cases r)
    case (R_err e)
    then show ?thesis using g ask_flags [OF g(1)]
      by (intro exI [of _ "C_getfl sd"] exI [of _ r]) (simp add: ends_def last_call_def)
  next
    case (R_val n)
    let ?w = "fdflags s1 sd AND NOT O_NONBLOCK"
    obtain r2 s2 where f: "ask (C_setfl sd ?w) s1 = Inr (r2, s2)"
        "case r2 of R_err e \<Rightarrow> rc = rc_fail \<and> s' = s2
         | R_val m \<Rightarrow> rc = rc_ok \<and> s' = s2\<lparr> fdflags := (fdflags s2)(sd := fdflags s2 sd AND NOT O_NONBLOCK) \<rparr>"
      using g(2) R_val by auto
    then show ?thesis
      using ask_flags [OF g(1)] ask_flags [OF f(1)]
      by (intro exI [of _ "C_setfl sd ?w"] exI [of _ r2], cases r2) (simp_all add: ends_def last_call_def cleared)
  qed
qed

lemma err_ends:
  assumes "connect_err sd (Some t) s = Inr (x, s')"
  shows "\<exists>c r. ends sd s s' c r \<and> (\<forall>fd a. c \<noteq> C_connect fd a)"
  using assms unset_ends [of sd s] by (auto simp: connect_err_def outcome_simps)

lemma wait_timeout:
  "connect_wait n sd (Some t) t0 s = Inr ((ready, t1), s') \<Longrightarrow> t1 \<noteq> None \<and> (\<exists>tr. trace s' = trace s @ tr)"
proof (induction n arbitrary: t t0 s)
  case (Suc n)
  obtain r s1 where a: "ask (C_select sd (Some t)) s = Inr (r, s1)"
    using Suc.prems by (auto simp: connect_wait.simps outcome_simps)
  note a1 = ask_flags [OF a]
  show ?case
  proof (cases "r = R_err EINTR")
    case False
    then show ?thesis
      using Suc.prems a a1 by (cases r) (auto simp: connect_wait.simps outcome_simps set_errno_def split: if_split_asm)
  next
    case True
    obtain rc t2 t3 s2 where y: "update_timeout t t0 s1 = Inr ((rc, t2, t3), s2)"
      "(if rc \<noteq> rc_ok then sret (False, Some t2)
        else if fst t2 < 0 then sbind (set_errno ETIMEDOUT) (\<lambda>_. sret (False, Some t2))
        else connect_wait n sd (Some t2) t3) s2 = Inr ((ready, t1), s')"
      using Suc.prems a True by (auto simp: connect_wait.simps outcome_simps)
    have "\<exists>tr. trace s2 = trace s1 @ tr"
      using update_result [OF y(1)] ask_flags by blast
    moreover have "t1 \<noteq> None \<and> (\<exists>tr. trace s' = trace s2 @ tr)"
      using y(2) Suc.IH [of t2 t3 s2] by (auto simp: outcome_simps set_errno_def split: if_split_asm)
    ultimately show ?thesis using a1 by auto
  qed
qed simp

lemma async_ends:
  assumes "connect_async sd (Some t) t0 s = Inr (x, s')"
  shows "\<exists>c r. ends sd s s' c r \<and> (\<forall>fd a. c \<noteq> C_connect fd a)"
proof -
  let ?k = "\<lambda>(ready, timeout1).
          if \<not> ready then connect_err sd timeout1
          else
            sbind (u_getsockopt sd) (\<lambda>(rc, e).
              if rc = - 1 then connect_err sd timeout1
              else if e \<noteq> 0 then sbind (set_errno e) (\<lambda>_. connect_err sd timeout1)
              else sbind (if timeout1 \<noteq> None then u_net_unset_nonblocking sd else sret rc_ok) (\<lambda>_. sret (0, timeout1)))"
  have "sbind (connect_wait (Suc (length (replies s))) sd (Some t) t0) ?k s = Inr (x, s')"
    using assms unfolding connect_async_def by (simp split: if_split_asm)
  then obtain y s1 where y: "connect_wait (Suc (length (replies s))) sd (Some t) t0 s = Inr (y, s1)" "?k y s1 = Inr (x, s')"
    using sbind_Inr [THEN iffD1] by blast
  obtain ready t1 where y1: "y = (ready, t1)" by (cases y)
  obtain u where u: "t1 = Some u" "\<exists>tr. trace s1 = trace s @ tr" using wait_timeout y(1) y1 by blast
  have "\<exists>c r. ends sd s1 s' c r \<and> (\<forall>fd a. c \<noteq> C_connect fd a)"
  proof (cases ready)
    case False
    with y(2) y1 u(1) err_ends show ?thesis by simp
  next
    case True
    obtain rc e s2 where g: "u_getsockopt sd s1 = Inr ((rc, e), s2)"
      "(if rc = - 1 then connect_err sd t1
              else if e \<noteq> 0 then sbind (set_errno e) (\<lambda>_. connect_err sd t1)
              else sbind (if t1 \<noteq> None then u_net_unset_nonblocking sd else sret rc_ok) (\<lambda>_. sret (0, t1))) s2 = Inr (x, s')"
      using y(2) y1 True by (auto simp: sbind_Inr)
    have t2: "\<exists>tr. trace s2 = trace s1 @ tr"
      using quietD [OF quiet_getsockopt g(1)] by blast
    have "\<exists>c r. ends sd s2 s' c r \<and> (\<forall>fd a. c \<noteq> C_connect fd a)"
    proof (cases "rc = - 1")
      case True
      with g(2) u(1) err_ends show ?thesis by simp
    next
      case rc: False
      show ?thesis
      proof (cases "e = 0")
        case False
        then have "connect_err sd (Some u) (s2\<lparr> sys_errno := e \<rparr>) = Inr (x, s')"
          using g(2) rc u(1) by (auto simp: sbind_def set_errno_def)
        from err_ends [OF this] show ?thesis by (simp add: ends_def)
      next
        case True
        then show ?thesis using g(2) rc u(1) unset_ends by (auto simp: outcome_simps)
      qed
    qed
    with t2 ends_later show ?thesis by blast
  qed
  with u(2) ends_later show ?thesis by blast
qed

lemma go_ends:
  assumes "connect_go sd a (Some t) t0 s = Inr (x, s')" "fdflags s sd AND O_NONBLOCK = O_NONBLOCK"
  shows "\<exists>c r. ends sd s s' c r \<and> (\<forall>fd b. c = C_connect fd b \<longrightarrow> fst x = 0)"
proof -
  obtain r s1 where c: "ask (C_connect sd a) s = Inr (r, s1)"
    "(case r of R_val _ \<Rightarrow> sret (0, Some t) | R_err e \<Rightarrow> if e \<noteq> EINTR \<and> e \<noteq> EINPROGRESS then connect_err sd (Some t) else connect_async sd (Some t) t0) s1
      = Inr (x, s')"
    using assms(1) unfolding connect_go_def by (auto simp only: sbind_Inr)
  note c1 = ask_flags [OF c(1)]
  show ?thesis
  proof (cases r)
    case (R_val n)
    then have "s' = s1" "fst x = 0" using c(2) by auto
    then show ?thesis using c1 R_val assms(2)
      by (intro exI [of _ "C_connect sd a"] exI [of _ r]) (simp add: ends_def last_call_def)
  next
    case (R_err e)
    then have "\<exists>c r. ends sd s1 s' c r \<and> (\<forall>fd b. c \<noteq> C_connect fd b)"
      using c(2) err_ends async_ends by (auto split: if_split_asm)
    with c1 ends_later show ?thesis by blast
  qed
qed



text \<open>A descriptor behind the size of a set is stored out of bounds when \<open>connect\<close> is not finished at once.\<close>

theorem u_connect_ex_big_descriptor:
  assumes "FD_SETSIZE \<le> sd" "len \<noteq> 0" "replies s = R_err e # rs" "e = EINTR \<or> e = EINPROGRESS"
  shows "u_connect_ex sd (Some a) len None s = Inl Out_of_bounds"
  using assms
  by (auto simp: u_connect_ex_def connect_go_def sbind_def ask_def connect_async_def FD_SETSIZE_def)

text \<open>A UNIX address is released twice when the copy of its name fails.\<close>

theorem do_resolv_double_free:
  assumes "length path < SUN_PATH_SZ"
  shows "do_resolv True (resolv_sun (True, False) (Some path)) AF_UNIX SOCK_STREAM IPPROTO_0 = Inl Use_after_free"
  using assms by (simp add: do_resolv_def resolv_sun_def u_strlcpy_ok u_strdup_def u_strndup_def ai_free_one_def)

end
