(* ===== verification/Ufs.thy ===== *)
theory Ufs
  imports Config Net
begin

unbundle bit_operations_syntax

text \<open>
  Files and the environment: copies and moves of \<open>srcs/toolbox/fs.c\<close>, the driver of \<open>config_fs.c\<close> for configuration
  files, the variables of \<open>env.c\<close>, and \<open>mkstemps\<close> and \<open>timegm\<close> of \<open>srcs/missing/\<close>. A file system maps names to
  files and files to their contents, so that two names can be the same file; a file may have a
  position from which it cannot be read. The troubles of the calls to come are a list: a call fails,
  or moves only a part of its bytes; when the list has ended every call does what it should.
\<close>

section \<open>The file system\<close>

definition ENOENT :: int where "ENOENT = 2"
definition EEXIST :: int where "EEXIST = 17"
definition EXDEV :: int where "EXDEV = 18"
definition ENOTDIR :: int where "ENOTDIR = 20"
definition EINVAL :: int where "EINVAL = 22"

datatype fate = Fine | Fail int | Part nat

record fsys =
  names :: "string \<Rightarrow> nat option"
  content :: "nat \<Rightarrow> string"
  bad_from :: "nat \<Rightarrow> nat option"
  dirs :: "string \<Rightarrow> bool"
  next_ino :: nat
  next_fd :: nat
  troubles :: "fate list"

definition next_fate :: "fsys \<Rightarrow> fate \<times> fsys" where
  "next_fate s = (case troubles s of [] \<Rightarrow> (Fine, s) | f # fs \<Rightarrow> (f, s\<lparr> troubles := fs \<rparr>))"

definition failed :: "fate \<Rightarrow> bool" where
  "failed f = (case f of Fail e \<Rightarrow> True | _ \<Rightarrow> False)"

text \<open>The part of a file up to the first position that cannot be read.\<close>

definition readable :: "fsys \<Rightarrow> nat \<Rightarrow> string" where
  "readable s i = (case bad_from s i of None \<Rightarrow> content s i | Some k \<Rightarrow> take k (content s i))"

definition fopen_r :: "string \<Rightarrow> fsys \<Rightarrow> nat option \<times> fsys" where
  "fopen_r p s = (case next_fate s of (f, s1) \<Rightarrow> (case f of Fail e \<Rightarrow> (None, s1) | _ \<Rightarrow> (names s1 p, s1)))"

definition create :: "string \<Rightarrow> fsys \<Rightarrow> fsys" where
  "create p s = s\<lparr> names := (names s)(p \<mapsto> next_ino s), content := (content s)(next_ino s := []),
     bad_from := (bad_from s)(next_ino s := None), next_ino := next_ino s + 1 \<rparr>"

text \<open>Opened for writing, a file is emptied or created.\<close>

definition fopen_w :: "string \<Rightarrow> fsys \<Rightarrow> nat option \<times> fsys" where
  "fopen_w p s = (case next_fate s of (f, s1) \<Rightarrow>
     (case f of Fail e \<Rightarrow> (None, s1)
      | _ \<Rightarrow>
        (case names s1 p of
           Some i \<Rightarrow> (Some i, s1\<lparr> content := (content s1)(i := []) \<rparr>)
         | None \<Rightarrow> if dirs s1 p then (None, s1) else (Some (next_ino s1), create p s1))))"

text \<open>How many of \<open>n\<close> bytes a call moves.\<close>

definition moved :: "fate \<Rightarrow> nat \<Rightarrow> nat" where
  "moved f n = (case f of Fine \<Rightarrow> n | Fail e \<Rightarrow> 0 | Part k \<Rightarrow> min k n)"

definition fread :: "nat \<Rightarrow> string \<Rightarrow> fsys \<Rightarrow> string \<times> fsys" where
  "fread sz rest s = (case next_fate s of (f, s1) \<Rightarrow> (take (moved f sz) rest, s1))"

definition fwrite :: "nat \<Rightarrow> string \<Rightarrow> fsys \<Rightarrow> nat \<times> fsys" where
  "fwrite i cs s = (case next_fate s of (f, s1) \<Rightarrow>
     (let n = moved f (length cs) in (n, s1\<lparr> content := (content s1)(i := content s1 i @ take n cs) \<rparr>)))"

definition fclose :: "fsys \<Rightarrow> bool \<times> fsys" where
  "fclose s = (case next_fate s of (f, s1) \<Rightarrow> (case f of Fail e \<Rightarrow> (False, s1) | _ \<Rightarrow> (True, s1)))"

text \<open>\<open>link\<close> and \<open>unlink\<close> return the error, or \<open>None\<close>.\<close>

definition link :: "string \<Rightarrow> string \<Rightarrow> fsys \<Rightarrow> int option \<times> fsys" where
  "link p q s = (case next_fate s of (f, s1) \<Rightarrow>
     (case f of Fail e \<Rightarrow> (Some e, s1)
      | _ \<Rightarrow>
        (case names s1 p of None \<Rightarrow> (Some ENOENT, s1)
         | Some i \<Rightarrow> if names s1 q \<noteq> None \<or> dirs s1 q then (Some EEXIST, s1) else (None, s1\<lparr> names := (names s1)(q \<mapsto> i) \<rparr>))))"

definition unlink :: "string \<Rightarrow> fsys \<Rightarrow> int option \<times> fsys" where
  "unlink p s = (case next_fate s of (f, s1) \<Rightarrow>
     (case f of Fail e \<Rightarrow> (Some e, s1)
      | _ \<Rightarrow> if names s1 p = None then (Some ENOENT, s1) else (None, s1\<lparr> names := (names s1)(p := None) \<rparr>)))"

section \<open>Copying, moving and removing\<close>

text \<open>The loop, for the bytes of the source that were not read yet: whether all was written.\<close>

lemma fread_shorter: "fread n rest s = (buf, s1) \<Longrightarrow> buf \<noteq> [] \<Longrightarrow> 0 < length buf \<and> 0 < length rest"
  by (cases rest) (auto simp: fread_def split: prod.splits)

function copy_loop :: "string \<Rightarrow> nat \<Rightarrow> fsys \<Rightarrow> bool \<times> fsys" where
  "copy_loop rest i s =
     (case fread 4096 rest s of (buf, s1) \<Rightarrow>
        if buf = [] then (True, s1)
        else
          (case fwrite i buf s1 of (w, s2) \<Rightarrow>
             if w = 0 then (False, s2) else copy_loop (drop (length buf) rest) i s2))"
  by pat_completeness auto
termination
  by (relation "measure (\<lambda>(rest, i, s). length rest)") (auto dest: fread_shorter [OF sym])

declare copy_loop.simps [simp del]

text \<open>The error exit of \<open>u_copy\<close>; a stream of which \<open>fclose\<close> reported an error is closed once more.\<close>

definition u_copy :: "string option \<Rightarrow> string option \<Rightarrow> fsys \<Rightarrow> (rc \<times> fsys) outcome" where
  "u_copy src dst s =
     (case (src, dst) of
        (Some p, Some q) \<Rightarrow>
          (case fopen_r p s of
             (None, s1) \<Rightarrow> Inr (rc_fail, s1)
           | (Some i, s1) \<Rightarrow>
             (case fopen_w q s1 of
                (None, s2) \<Rightarrow> Inr (rc_fail, snd (fclose s2))
              | (Some j, s2) \<Rightarrow>
                (case copy_loop (readable s2 i) j s2 of (ok, s3) \<Rightarrow>
                   if \<not> ok then Inr (rc_fail, snd (fclose (snd (fclose s3))))
                   else
                     (case fclose s3 of (c1, s4) \<Rightarrow>
                        if \<not> c1 then Inl Use_after_free
                        else (case fclose s4 of (c2, s5) \<Rightarrow> if \<not> c2 then Inl Use_after_free else Inr (rc_ok, s5))))))
      | _ \<Rightarrow> Inr (rc_fail, s))"

definition u_remove :: "string option \<Rightarrow> fsys \<Rightarrow> rc \<times> fsys" where
  "u_remove file s =
     (case file of None \<Rightarrow> (rc_fail, s)
      | Some p \<Rightarrow> (case unlink p s of (e, s1) \<Rightarrow> (if e = None then rc_ok else rc_fail, s1)))"

definition u_move :: "string option \<Rightarrow> string option \<Rightarrow> fsys \<Rightarrow> (rc \<times> fsys) outcome" where
  "u_move src dst s =
     (case (src, dst) of
        (Some p, Some q) \<Rightarrow>
          (case link p q s of (e, s1) \<Rightarrow>
             if e \<noteq> None \<and> e \<noteq> Some EXDEV then Inr (rc_fail, s1)
             else
               obind (if e = Some EXDEV then u_copy src dst s1 else Inr (rc_ok, s1)) (\<lambda>(rc, s2).
                 if rc \<noteq> rc_ok then Inr (rc_fail, s2) else Inr (rc_ok, snd (u_remove src s2))))
      | _ \<Rightarrow> Inr (rc_fail, s))"

section \<open>The driver for configuration files\<close>

text \<open>
  A stream is the part of the file that is still to be read, where an error of the device looks like its end,
  with the troubles that are left for the calls on it.
\<close>

type_synonym stream = "string \<times> fate list"

definition fgets :: "string \<Rightarrow> nat \<Rightarrow> string option \<times> string" where
  "fgets st n =
     (if n = 0 \<or> st = [] then (None, st)
      else (let chunk = take_line (n - 1) st in (Some (takeWhile (\<lambda>c. c \<noteq> NUL) chunk), drop (length chunk) st)))"

text \<open>\<open>open\<close> is called again as long as it is interrupted; behind it is \<open>fdopen\<close>.\<close>

fun open_loop :: "fate list \<Rightarrow> string \<Rightarrow> fsys \<Rightarrow> nat option \<times> fate list" where
  "open_loop [] p s = (names s p, [])"
| "open_loop (f # fs) p s =
     (case f of Fail e \<Rightarrow> if e = EINTR then open_loop fs p s else (None, fs) | _ \<Rightarrow> (names s p, fs))"

definition drv_fs_open :: "fsys \<Rightarrow> string \<Rightarrow> stream option" where
  "drv_fs_open s p =
     (case open_loop (troubles s) p s of
        (None, fs) \<Rightarrow> None
      | (Some i, fs) \<Rightarrow> (case fs of [] \<Rightarrow> Some (readable s i, []) | f # fs1 \<Rightarrow> if failed f then None else Some (readable s i, fs1)))"

definition drv_fs_close :: "stream \<Rightarrow> bool" where
  "drv_fs_close st = (case snd st of [] \<Rightarrow> True | f # _ \<Rightarrow> \<not> failed f)"

definition drv_fs_gets :: "stream \<Rightarrow> nat \<Rightarrow> string option \<times> stream" where
  "drv_fs_gets st n = (case fgets (fst st) n of (r, rest) \<Rightarrow> (r, (rest, snd st)))"

definition u_config_drv_fs :: "fsys \<Rightarrow> stream u_config_driver" where
  "u_config_drv_fs s = \<lparr> d_open = Some (drv_fs_open s), d_close = Some drv_fs_close, d_gets = Some drv_fs_gets, d_resolv = None \<rparr>"

section \<open>Variables of the environment\<close>

text \<open>
  A variable whose text was in a stack frame that is gone is dangling. \<open>shell\<close> tells what the output
  of a command is.
\<close>

datatype env_val = Env_text string | Env_dangling

type_synonym environ = "string \<Rightarrow> env_val option"

definition getenv :: "environ \<Rightarrow> string \<Rightarrow> string option outcome" where
  "getenv env name =
     (case env name of None \<Rightarrow> Inr None | Some (Env_text t) \<Rightarrow> Inr (Some t) | Some Env_dangling \<Rightarrow> Inl Use_after_free)"

definition setenv :: "string \<Rightarrow> string \<Rightarrow> environ \<times> fsys \<Rightarrow> bool \<times> environ \<times> fsys" where
  "setenv name val es =
     (case es of (env, s) \<Rightarrow>
       (case next_fate s of (f, s1) \<Rightarrow>
         (case f of Fail e \<Rightarrow> (False, env, s1)
          | _ \<Rightarrow> if name = [] then (False, env, s1) else (True, env(name \<mapsto> Env_text val), s1))))"

definition u_env_var :: "environ \<Rightarrow> string \<Rightarrow> string option outcome" where
  "u_env_var env name = getenv env name"

lemma fgets_shorter: "fgets st n = (Some l, st1) \<Longrightarrow> 1 < n \<Longrightarrow> length st1 < length st"
proof -
  assume a: "fgets st n = (Some l, st1)" "1 < n"
  obtain m where m: "n - 1 = Suc m" using a(2) by (metis Suc_diff_1 zero_less_diff gr0_conv_Suc)
  have "0 < length (take_line (n - 1) st)" if "st \<noteq> []" unfolding m using that by (cases st) auto
  then show ?thesis using a by (auto simp: fgets_def Let_def split: if_split_asm)
qed

function env_loop :: "string \<Rightarrow> string \<Rightarrow> environ \<times> fsys \<Rightarrow> (rc \<times> environ \<times> fsys) outcome" where
  "env_loop prefix st es =
     (case fgets st 1023 of
        (None, st1) \<Rightarrow> Inr (rc_ok, es)
      | (Some line, st1) \<Rightarrow>
        if take (length prefix) line \<noteq> prefix then env_loop prefix st1 es
        else if line = [] then Inl Out_of_bounds
        else
          (let l = butlast line in
           if CHR ''='' \<notin> set l then env_loop prefix st1 es
           else
             (case setenv (takeWhile (\<lambda>c. c \<noteq> CHR ''='') l) (tl (dropWhile (\<lambda>c. c \<noteq> CHR ''='') l)) es of
                (ok, es1) \<Rightarrow> if \<not> ok then Inr (rc_fail, es1) else env_loop prefix st1 es1)))"
  by pat_completeness auto
termination
  by (relation "measure (\<lambda>(prefix, st, es). length st)") (auto dest!: fgets_shorter [OF sym])

declare env_loop.simps [simp del]

definition u_env_init :: "(string \<Rightarrow> string) \<Rightarrow> string option \<Rightarrow> string option \<Rightarrow> environ \<times> fsys \<Rightarrow> (rc \<times> environ \<times> fsys) outcome" where
  "u_env_init shell prefix cfile es =
     (case (cfile, prefix, es) of
        (Some f, Some p, env, s) \<Rightarrow>
          (case next_fate s of (st, s1) \<Rightarrow>
             if failed st \<or> names s1 f = None \<and> \<not> dirs s1 f then Inr (rc_fail, env, s1)
             else
               (case u_snprintf 1024 (''. '' @ f @ '' 2>/dev/null && env'') of (fits, pcmd) \<Rightarrow>
                  if \<not> fits then Inr (rc_fail, env, s1)
                  else
                    (case next_fate s1 of (po, s2) \<Rightarrow>
                       if failed po then Inr (rc_fail, env, s2) else env_loop p (shell pcmd) (env, s2))))
      | _ \<Rightarrow> Inr (rc_fail, es))"

section \<open>The time of a date in UTC\<close>

text \<open>\<open>mktime\<close> is given the zone that is set. The old zone goes back into the environment by \<open>putenv\<close> of a local buffer.\<close>

definition timegm :: "(string option \<Rightarrow> 'tm \<Rightarrow> int) \<Rightarrow> 'tm \<Rightarrow> environ \<Rightarrow> (int \<times> environ) outcome" where
  "timegm mktime tm env =
     obind (getenv env ''TZ'') (\<lambda>tz.
       (let env1 = env(''TZ'' \<mapsto> Env_text ''UTC'') in
        obind (getenv env1 ''TZ'') (\<lambda>zone.
          Inr (mktime zone tm, env1(''TZ'' \<mapsto> (case tz of None \<Rightarrow> Env_text [] | Some t \<Rightarrow> Env_dangling))))))"

section \<open>Temporary files\<close>

definition padchar :: string where
  "padchar = ''0123456789ABCDEFGHIJKLMNOPQRSTUVWXYZabcdefghijklmnopqrstuvwxyz''"

definition time_seed :: "byte list \<Rightarrow> 32 word" where
  "time_seed now = foldl (\<lambda>seed p. seed * 257 + ucast p) 0 now"

text \<open>The random characters, on the reversed text in front of the suffix; \<open>k\<close> counts the calls of \<open>rand\<close>.\<close>

fun fill_x :: "(nat \<Rightarrow> nat) \<Rightarrow> nat \<Rightarrow> string \<Rightarrow> string \<times> string" where
  "fill_x rand k [] = ([], [])"
| "fill_x rand k (c # cs) =
     (if c = CHR ''X'' then (case fill_x rand (Suc k) cs of (filled, rest) \<Rightarrow> (padchar ! (rand k mod 62) # filled, rest))
      else ([], c # cs))"

text \<open>The directory of a path, on the reversed text; a slash at the first position is not looked at.\<close>

fun temp_dir :: "string \<Rightarrow> string option" where
  "temp_dir [] = None"
| "temp_dir (c # cs) = (if cs = [] then None else if c = CHR ''/'' then Some (rev cs) else temp_dir cs)"

text \<open>The character behind another one in the alphabet, and the next name, with the first character changing fastest.\<close>

definition pad_next :: "char \<Rightarrow> char option" where
  "pad_next c = (case dropWhile (\<lambda>d. d \<noteq> c) padchar of _ # d # _ \<Rightarrow> Some d | _ \<Rightarrow> None)"

fun next_name :: "string \<Rightarrow> bool \<times> string" where
  "next_name [] = (False, [])"
| "next_name (c # cs) =
     (case pad_next c of
        None \<Rightarrow> (case next_name cs of (ok, ds) \<Rightarrow> (ok, padchar ! 0 # ds))
      | Some d \<Rightarrow> (True, d # cs))"

datatype attempt = Done int | Stop | Taken

definition stat_dir :: "string \<Rightarrow> fsys \<Rightarrow> bool \<times> fsys" where
  "stat_dir p s = (case next_fate s of (f, s1) \<Rightarrow> (case f of Fail e \<Rightarrow> (False, s1) | _ \<Rightarrow> (dirs s1 p, s1)))"

definition used :: "fsys \<Rightarrow> string \<Rightarrow> bool" where
  "used s p = (names s p \<noteq> None \<or> dirs s p)"

definition temp_try :: "bool \<Rightarrow> bool \<Rightarrow> string \<Rightarrow> fsys \<Rightarrow> attempt \<times> fsys" where
  "temp_try doopen domkdir p s =
     (case next_fate s of (f, s1) \<Rightarrow>
        (case f of
           Fail e \<Rightarrow> if (doopen \<or> domkdir) \<and> e = EEXIST then (Taken, s1)
             else if \<not> doopen \<and> \<not> domkdir \<and> e = ENOENT then (Done 0, s1) else (Stop, s1)
         | _ \<Rightarrow>
           if used s1 p then (Taken, s1)
           else if doopen then (Done (int (next_fd s1)), (create p s1)\<lparr> next_fd := next_fd s1 + 1 \<rparr>)
           else if domkdir then (Done 0, s1\<lparr> dirs := (dirs s1)(p := True) \<rparr>)
           else (Done 0, s1)))"

text \<open>The value of a name in the order in which the names are tried, which bounds the loop.\<close>

definition pad_val :: "char \<Rightarrow> nat" where
  "pad_val c = min 61 (length (takeWhile (\<lambda>d. d \<noteq> c) padchar))"

fun name_val :: "string \<Rightarrow> nat" where
  "name_val [] = 0"
| "name_val (c # cs) = pad_val c + 62 * name_val cs"

lemma padchar_facts: "length padchar = 62" "distinct padchar"
  by (simp_all add: padchar_def)

lemma dropWhile_next:
  "distinct xs \<Longrightarrow> dropWhile (\<lambda>d. d \<noteq> c) xs = x # d # r \<Longrightarrow>
    length (takeWhile (\<lambda>e. e \<noteq> d) xs) = Suc (length (takeWhile (\<lambda>e. e \<noteq> c) xs)) \<and> Suc (length (takeWhile (\<lambda>e. e \<noteq> c) xs)) < length xs"
proof (induction xs)
  case (Cons a xs)
  have "d \<in> set (dropWhile (\<lambda>d. d \<noteq> c) xs)" if "a \<noteq> c" using Cons.prems(2) that by simp
  then have "a \<noteq> c \<Longrightarrow> d \<in> set xs" by (meson set_dropWhileD)
  with Cons show ?case by (auto split: if_split_asm)
qed simp

lemma pad_next_val:
  "pad_next c = Some d \<Longrightarrow> pad_val d = pad_val c + 1" "pad_next c = None \<Longrightarrow> pad_val c = 61"
proof -
  have l: "length (takeWhile (\<lambda>d. d \<noteq> c) padchar) + length (dropWhile (\<lambda>d. d \<noteq> c) padchar) = 62"
    using padchar_facts(1) by (metis length_append takeWhile_dropWhile_id)
  show "pad_val d = pad_val c + 1" if "pad_next c = Some d"
  proof -
    have "\<exists>x r. xs = x # d # r" if "(case xs of _ # d # _ \<Rightarrow> Some d | _ \<Rightarrow> None) = Some d" for xs :: string
      using that by (cases xs rule: remdups_adj.cases) simp_all
    from this [OF that [unfolded pad_next_def]] obtain x r where "dropWhile (\<lambda>d. d \<noteq> c) padchar = x # d # r" by blast
    from dropWhile_next [OF padchar_facts(2) this] padchar_facts(1) show ?thesis by (simp add: pad_val_def)
  qed
  show "pad_val c = 61" if "pad_next c = None"
  proof -
    have "length xs \<le> 1" if "(case xs of _ # d # _ \<Rightarrow> Some d | _ \<Rightarrow> None) = (None :: char option)" for xs :: string
      using that by (cases xs rule: remdups_adj.cases) simp_all
    from this [OF that [unfolded pad_next_def]] l show ?thesis by (simp add: pad_val_def)
  qed
qed

lemma pad_val_le: "pad_val c < 62"
  by (simp add: pad_val_def)

lemma name_val_le: "name_val ds < 62 ^ length ds"
proof (induction ds)
  case (Cons c ds)
  then have "name_val ds + 1 \<le> 62 ^ length ds" by simp
  then have "62 * (name_val ds + 1) \<le> 62 * 62 ^ length ds" by simp
  with pad_val_le [of c] show ?case by simp
qed simp

lemma pad_val_0: "pad_val (padchar ! 0) = 0"
  by (simp add: pad_val_def padchar_def)

lemma next_name_val: "next_name ds = (True, ds') \<Longrightarrow> name_val ds' = name_val ds + 1 \<and> length ds' = length ds"
proof (induction ds arbitrary: ds')
  case (Cons c ds)
  then show ?case using pad_next_val [of c] pad_val_0 by (auto split: option.splits prod.splits)
qed simp

text \<open>
  The loop over the names: whether it succeeded, with the descriptor, and the path as it was changed. \<open>front\<close> is
  the fixed part of the path, \<open>ds\<close> the characters that are changed.
\<close>

function temp_loop :: "bool \<Rightarrow> bool \<Rightarrow> string \<Rightarrow> string \<Rightarrow> string \<Rightarrow> fsys \<Rightarrow> int option \<times> string \<times> fsys" where
  "temp_loop doopen domkdir front ds suff s =
     (case temp_try doopen domkdir (front @ ds @ suff) s of
        (Done fd, s1) \<Rightarrow> (Some fd, front @ ds @ suff, s1)
      | (Stop, s1) \<Rightarrow> (None, front @ ds @ suff, s1)
      | (Taken, s1) \<Rightarrow>
        (case next_name ds of
           (False, ds') \<Rightarrow> (None, front @ ds' @ suff, s1)
         | (True, ds') \<Rightarrow> temp_loop doopen domkdir front ds' suff s1))"
  by pat_completeness auto
termination
proof (relation "measure (\<lambda>(doopen, domkdir, front, ds, suff, s). 62 ^ length ds - name_val ds)", goal_cases)
  case 1
  show ?case by simp
next
  case prems: 2
  show ?case using next_name_val prems name_val_le by (fastforce intro: diff_less_mono2)
qed

declare temp_loop.simps [simp del]

definition gettemp :: "(nat \<Rightarrow> nat) \<Rightarrow> string \<Rightarrow> bool \<Rightarrow> bool \<Rightarrow> nat \<Rightarrow> fsys \<Rightarrow> int option \<times> string \<times> fsys" where
  "gettemp rand path doopen domkdir sl s =
     (if doopen \<and> domkdir then (None, path, s)
      else if length path \<le> sl then (None, path, s)
      else
        (let suff = drop (length path - sl) path in
         case fill_x rand 0 (rev (take (length path - sl) path)) of
           (filled, rest) \<Rightarrow>
             (let ds = rev filled; front = rev rest in
              case (case temp_dir rest of None \<Rightarrow> (True, s) | Some d \<Rightarrow> if doopen \<or> domkdir then stat_dir d s else (True, s)) of
                (ok, s1) \<Rightarrow> if \<not> ok then (None, front @ ds @ suff, s1) else temp_loop doopen domkdir front ds suff s1)))"

definition mkstemps :: "(32 word \<Rightarrow> nat \<Rightarrow> nat) \<Rightarrow> byte list \<Rightarrow> string \<Rightarrow> nat \<Rightarrow> fsys \<Rightarrow> int \<times> string \<times> fsys" where
  "mkstemps rand now path sl s =
     (case gettemp (rand (time_seed now)) path True False sl s of (r, p, s1) \<Rightarrow> (case r of None \<Rightarrow> - 1 | Some fd \<Rightarrow> fd, p, s1))"

section \<open>Files that behave\<close>

lemma fine [simp]: "troubles s = [] \<Longrightarrow> next_fate s = (Fine, s)"
  by (simp add: next_fate_def)

lemma moved_Fine [simp]: "moved Fine n = n"
  by (simp add: moved_def)

lemma copy_all: "troubles s = [] \<Longrightarrow> copy_loop rest i s = (True, s\<lparr> content := (content s)(i := content s i @ rest) \<rparr>)"
proof (induction rest i s rule: copy_loop.induct)
  case (1 rest i s)
  show ?case
  proof (cases "rest = []")
    case True
    then show ?thesis using 1 by (simp add: copy_loop.simps [of "[]"] fread_def)
  next
    case False
    let ?s2 = "s\<lparr> content := (content s)(i := content s i @ take 4096 rest) \<rparr>"
    have e: "take (min (length rest) 4096) rest = take 4096 rest" by (simp add: min_def)
    have f: "fread 4096 rest s = (take 4096 rest, s)" and w: "fwrite i (take 4096 rest) s = (min (length rest) 4096, ?s2)"
      using "1.prems" e by (simp_all add: fread_def fwrite_def Let_def)
    have "copy_loop (drop (length (take 4096 rest)) rest) i ?s2 = (True, ?s2\<lparr> content := (content ?s2)(i := content ?s2 i @ drop (length (take 4096 rest)) rest) \<rparr>)"
      by (rule "1.IH" [OF f [symmetric] _ w [symmetric]]) (use False "1.prems" in auto)
    moreover have "take 4096 rest @ drop (min (length rest) 4096) rest = rest"
      by (metis append_take_drop_id length_take take_all_iff drop_all min_def nle_le)
    ultimately show ?thesis using False f w by (simp add: copy_loop.simps [of rest] fun_upd_same del: fun_upd_apply)
  qed
qed

text \<open>What the names show.\<close>

definition view :: "fsys \<Rightarrow> string \<Rightarrow> string option" where
  "view s p = map_option (content s) (names s p)"

definition fresh_ino :: "fsys \<Rightarrow> bool" where
  "fresh_ino s = (next_ino s \<notin> ran (names s))"

lemma fresh_inoD: "fresh_ino s \<Longrightarrow> names s p \<noteq> Some (next_ino s)"
  by (auto simp: fresh_ino_def ran_def)

lemma next_fate_keeps: "next_fate s = (f, s1) \<Longrightarrow> \<exists>fs. s1 = s\<lparr> troubles := fs \<rparr>"
  by (cases s) (auto simp: next_fate_def split: list.splits)

lemma view_troubles [simp]: "view (s\<lparr> troubles := fs \<rparr>) = view s" "used (s\<lparr> troubles := fs \<rparr>) = used s"
    "fresh_ino (s\<lparr> troubles := fs \<rparr>) = fresh_ino s"
  by (auto simp: view_def used_def fresh_ino_def fun_eq_iff)

text \<open>
  A copy without troubles: to a free name, and onto a file, which is emptied before the first byte of
  the source is read.
\<close>

lemma copy_new:
  assumes "troubles s = []" "fresh_ino s" "names s p = Some i" "names s q = None" "\<not> dirs s q"
  shows "\<exists>s'. u_copy (Some p) (Some q) s = Inr (rc_ok, s') \<and> troubles s' = []
    \<and> names s' = (names s)(q \<mapsto> next_ino s) \<and> content s' = (content s)(next_ino s := readable s i)"
proof -
  have i: "i \<noteq> next_ino s" using fresh_inoD [OF assms(2), of p] assms(3) by auto
  have "fopen_r p s = (Some i, s)" "fopen_w q s = (Some (next_ino s), create q s)"
    using assms by (simp_all add: fopen_r_def fopen_w_def)
  moreover have "readable (create q s) i = readable s i" using i by (simp add: readable_def create_def split: option.split)
  ultimately show ?thesis using assms(1) copy_all [of "create q s"]
    by (simp add: u_copy_def fclose_def create_def fun_upd_idem)
qed

lemma copy_over:
  assumes "troubles s = []" "names s p = Some i" "names s q = Some j"
  shows "\<exists>s'. u_copy (Some p) (Some q) s = Inr (rc_ok, s') \<and> troubles s' = []
    \<and> names s' = names s \<and> content s' = (content s)(j := if i = j then [] else readable s i)"
proof -
  let ?s = "s\<lparr> content := (content s)(j := []) \<rparr>"
  have "fopen_r p s = (Some i, s)" "fopen_w q s = (Some j, ?s)"
    using assms by (simp_all add: fopen_r_def fopen_w_def)
  moreover have "readable ?s i = (if i = j then [] else readable s i)"
    by (simp add: readable_def split: option.split)
  ultimately show ?thesis using assms(1) copy_all [of ?s] by (auto simp: u_copy_def fclose_def)
qed

lemma copy_none:
  assumes "troubles s = []" "names s p = None \<or> names s q = None \<and> dirs s q"
  shows "u_copy (Some p) (Some q) s = Inr (rc_fail, s)"
  using assms by (cases "names s p") (auto simp: u_copy_def fopen_r_def fopen_w_def fclose_def)

text \<open>What the names show after a copy of the file \<open>i\<close> to the name \<open>q\<close>: all names of the file change.\<close>

definition copied :: "fsys \<Rightarrow> nat \<Rightarrow> string \<Rightarrow> string \<Rightarrow> string option" where
  "copied s i q r =
     (if r = q \<or> names s q \<noteq> None \<and> names s r = names s q
      then Some (if names s q = Some i then [] else readable s i) else view s r)"

lemma copy_view:
  assumes "troubles s = []" "fresh_ino s" "names s p = Some i" "names s q \<noteq> None \<or> \<not> dirs s q"
  shows "\<exists>s'. u_copy (Some p) (Some q) s = Inr (rc_ok, s') \<and> troubles s' = []
    \<and> names s' = (names s)(q := names s' q) \<and> view s' = copied s i q"
proof (cases "names s q")
  case None
  obtain s' where s': "u_copy (Some p) (Some q) s = Inr (rc_ok, s')" "troubles s' = []"
    "names s' = (names s)(q \<mapsto> next_ino s)" "content s' = (content s)(next_ino s := readable s i)"
    using copy_new [OF assms(1-3) None] assms(4) None by blast
  have n: "names s r \<noteq> Some (next_ino s)" for r by (rule fresh_inoD [OF assms(2)])
  have "view s' r = copied s i q r" for r
    using s'(3,4) n [of r] None by (cases "names s r") (auto simp: view_def copied_def)
  with s' show ?thesis by auto
next
  case (Some j)
  obtain s' where s': "u_copy (Some p) (Some q) s = Inr (rc_ok, s')" "troubles s' = []"
    "names s' = names s" "content s' = (content s)(j := if i = j then [] else readable s i)"
    using copy_over [OF assms(1,3) Some] by blast
  have "view s' r = copied s i q r" for r
    using s'(3,4) Some by (cases "names s r") (auto simp: view_def copied_def)
  with s' show ?thesis by auto
qed

text \<open>Whatever the troubles, a copy changes no file but the one behind the destination.\<close>

lemma loop_frame: "copy_loop rest i s = (ok, s') \<Longrightarrow> names s' = names s \<and> (\<forall>j. j \<noteq> i \<longrightarrow> content s' j = content s j)"
proof (induction rest i s arbitrary: ok s' rule: copy_loop.induct)
  case (1 rest i s)
  obtain buf s1 where r: "fread 4096 rest s = (buf, s1)" by force
  obtain w s2 where w: "fwrite i buf s1 = (w, s2)" by force
  have f: "names s1 = names s \<and> content s1 = content s"
    using r by (auto simp: fread_def next_fate_def split: list.splits)
  have g: "names s2 = names s1 \<and> (\<forall>j. j \<noteq> i \<longrightarrow> content s2 j = content s1 j)"
    using w by (auto simp: fwrite_def next_fate_def Let_def split: list.splits)
  show ?case
  proof (cases "buf = [] \<or> w = 0")
    case True
    with "1.prems" r w f g show ?thesis by (subst (asm) copy_loop.simps) (auto split: if_split_asm)
  next
    case False
    then have "copy_loop (drop (length buf) rest) i s2 = (ok, s')"
      using "1.prems" r w by (subst (asm) copy_loop.simps) simp
    with "1.IH" [OF r [symmetric] _ w [symmetric]] False f g show ?thesis by simp
  qed
qed

lemma fclose_frame: "fclose s = (ok, s') \<Longrightarrow> names s' = names s \<and> content s' = content s"
  by (auto simp: fclose_def next_fate_def split: list.splits fate.splits)

lemma fopen_w_frame:
  assumes "fopen_w q s = (x, s')" "fresh_ino s" "r \<noteq> q" "names s r = None \<or> names s r \<noteq> names s q"
  shows "names s' r = names s r \<and> view s' r = view s r \<and> (\<forall>j. x = Some j \<longrightarrow> names s' r \<noteq> Some j)"
proof -
  obtain f s1 where f: "next_fate s = (f, s1)" by force
  obtain fs where fs: "s1 = s\<lparr> troubles := fs \<rparr>" using next_fate_keeps [OF f] by blast
  have n: "names s r \<noteq> Some (next_ino s)" by (rule fresh_inoD [OF assms(2)])
  show ?thesis
    using assms(1,3,4) f fs n
    by (cases "names s r") (auto simp: fopen_w_def view_def create_def split: fate.splits option.splits if_split_asm)
qed

lemma copy_frame:
  assumes "u_copy (Some p) (Some q) s = Inr (rc, s')" "fresh_ino s" "r \<noteq> q"
    "names s r = None \<or> names s r \<noteq> names s q"
  shows "view s' r = view s r"
proof -
  obtain x s1 where x: "fopen_r p s = (x, s1)" by force
  obtain f s0 where f: "next_fate s = (f, s0)" by force
  then obtain fs where "s0 = s\<lparr> troubles := fs \<rparr>" using next_fate_keeps by blast
  then have s1: "s1 = s\<lparr> troubles := fs \<rparr>" using x f by (auto simp: fopen_r_def split: fate.splits)
  obtain y s2 where y: "fopen_w q s1 = (y, s2)" by force
  have w: "names s2 r = names s r" "view s2 r = view s r" "\<And>j. y = Some j \<Longrightarrow> names s2 r \<noteq> Some j"
    using fopen_w_frame [OF y, of r] assms(2-4) s1 by auto
  have keep: "view s' r = view s2 r" if "names s' = names s2" "\<forall>j. y = Some j \<longrightarrow> (\<forall>k. k \<noteq> j \<longrightarrow> content s' k = content s2 k)"
    "y \<noteq> None"
    using that w(3) by (cases "names s2 r") (auto simp: view_def)
  show ?thesis
  proof (cases x)
    case None
    then have "s' = s1" using assms(1) x by (simp add: u_copy_def)
    with s1 show ?thesis by simp
  next
    case (Some i)
    show ?thesis
    proof (cases y)
      case None
      obtain c s3 where c: "fclose s2 = (c, s3)" by force
      have "s' = s3" using assms(1) Some x y None c by (simp add: u_copy_def)
      then have "view s' r = view s2 r" using fclose_frame [OF c] by (simp add: view_def)
      with w(2) show ?thesis by simp
    next
      case y1: (Some j)
      obtain ok s3 where l: "copy_loop (readable s2 i) j s2 = (ok, s3)" by force
      note l1 = loop_frame [OF l]
      obtain c4 s4 where c4: "fclose s3 = (c4, s4)" by force
      obtain c5 s5 where c5: "fclose s4 = (c5, s5)" by force
      have "s' = s5" using assms(1) Some x y y1 l c4 c5 by (auto simp: u_copy_def split: if_split_asm)
      then have "names s' = names s2" "\<forall>k. k \<noteq> j \<longrightarrow> content s' k = content s2 k"
        using l1 fclose_frame [OF c4] fclose_frame [OF c5] by auto
      with keep y1 w(2) show ?thesis by simp
    qed
  qed
qed

section \<open>Variables that come from the shell\<close>

text \<open>The output of \<open>env\<close>, and the variables that a prefix selects, of which later ones win.\<close>

definition var_line :: "string \<times> string \<Rightarrow> string" where
  "var_line kv = fst kv @ ''='' @ snd kv"

definition env_text :: "(string \<times> string) list \<Rightarrow> string" where
  "env_text vars = concat (map (\<lambda>kv. var_line kv @ [nl]) vars)"

definition selected :: "string \<Rightarrow> (string \<times> string) list \<Rightarrow> (string \<times> string) list" where
  "selected prefix vars = filter (\<lambda>kv. take (length prefix) (var_line kv) = prefix) vars"

definition wf_var :: "string \<times> string \<Rightarrow> bool" where
  "wf_var kv = (fst kv \<noteq> [] \<and> CHR ''='' \<notin> set (fst kv) \<and> nl \<notin> set (var_line kv) \<and> NUL \<notin> set (var_line kv) \<and> length (var_line kv) < 1022)"

definition set_vars :: "environ \<Rightarrow> (string \<times> string) list \<Rightarrow> environ" where
  "set_vars env vars = foldl (\<lambda>e kv. e(fst kv \<mapsto> Env_text (snd kv))) env vars"

lemma set_vars_map: "set_vars env vars = env ++ (map_option Env_text \<circ> map_of (rev vars))"
proof (induction vars rule: rev_induct)
  case (snoc kv vars)
  then show ?case by (cases kv) (auto simp: set_vars_def fun_eq_iff map_add_def)
qed (simp add: set_vars_def map_add_def fun_eq_iff)

lemma env_loop_vars:
  assumes "list_all wf_var vars" "troubles s = []" "NUL \<notin> set prefix" "nl \<notin> set prefix"
  shows "env_loop prefix (env_text vars) (env, s) = Inr (rc_ok, set_vars env (selected prefix vars), s)"
  using assms(1)
proof (induction vars arbitrary: env)
  case Nil
  show ?case by (simp add: env_loop.simps fgets_def env_text_def set_vars_def selected_def)
next
  case (Cons kv vars)
  obtain k v where kv: "kv = (k, v)" by (cases kv)
  have w: "k \<noteq> []" "CHR ''='' \<notin> set k" "nl \<notin> set (var_line kv)" "NUL \<notin> set (var_line kv)" "length (var_line kv) < 1022"
    using Cons.prems kv by (auto simp: wf_var_def)
  have t: "take_line 1022 (var_line kv @ nl # env_text vars) = var_line kv @ [nl]" by (rule take_line_ok [OF w(3,5)])
  have "takeWhile (\<lambda>c. c \<noteq> NUL) (var_line kv @ [nl]) = var_line kv @ [nl]"
    using w(4) unfolding takeWhile_eq_all_conv by auto
  then have g: "fgets (env_text (kv # vars)) 1023 = (Some (var_line kv @ [nl]), env_text vars)"
    using t by (simp add: fgets_def Let_def env_text_def)
  have p: "take (length prefix) (var_line kv @ [nl]) = prefix \<longleftrightarrow> take (length prefix) (var_line kv) = prefix"
  proof (cases "length prefix \<le> length (var_line kv)")
    case False
    then have "set (take (length prefix) (var_line kv @ [nl])) = insert nl (set (var_line kv))" by simp
    with False assms(4) show ?thesis by (metis insertI1 length_take min.commute min_def nle_le)
  qed simp
  have "takeWhile (\<lambda>c. c \<noteq> CHR ''='') (var_line kv) = k" "dropWhile (\<lambda>c. c \<noteq> CHR ''='') (var_line kv) = CHR ''='' # v"
    using w(2) kv by (auto simp: var_line_def takeWhile_tail dropWhile_append3 dropWhile_eq_Nil_conv takeWhile_append2)
  moreover have "CHR ''='' \<in> set (var_line kv)" by (simp add: var_line_def)
  ultimately show ?case using g p w(1) kv assms(2) Cons.IH [of env] Cons.IH [of "env(k \<mapsto> Env_text v)"] Cons.prems
    by (subst env_loop.simps) (simp add: setenv_def selected_def set_vars_def del: fun_upd_apply)
qed

section \<open>The names of temporary files\<close>

definition random_name :: "(nat \<Rightarrow> nat) \<Rightarrow> nat \<Rightarrow> string" where
  "random_name rand n = rev (map (\<lambda>k. padchar ! (rand k mod 62)) [0..<n])"

lemma fill_x_spec:
  "fill_x rand k (replicate n (CHR ''X'') @ cs) = (map (\<lambda>j. padchar ! (rand (k + j) mod 62)) [0..<n], cs)"
  if "cs = [] \<or> hd cs \<noteq> CHR ''X''"
proof (induction n arbitrary: k)
  case 0
  then show ?case using that by (cases cs) auto
next
  case (Suc n)
  have "map (\<lambda>j. padchar ! (rand (k + j) mod 62)) [0..<Suc n]
    = padchar ! (rand k mod 62) # map (\<lambda>j. padchar ! (rand (Suc k + j) mod 62)) [0..<n]"
    by (simp add: upt_conv_Cons map_Suc_upt [symmetric] del: upt_Suc map_Suc_upt)
  with Suc [of "Suc k"] show ?case by simp
qed

definition pad_name :: "nat \<Rightarrow> string \<Rightarrow> bool" where
  "pad_name n ds = (length ds = n \<and> set ds \<subseteq> set padchar)"

lemma random_pad: "pad_name n (random_name rand n)"
proof -
  have "rand k mod 62 < length padchar" for k by (simp add: padchar_facts)
  then show ?thesis unfolding pad_name_def random_name_def by (auto simp del: padchar_facts)
qed

lemma pad_next_in: "pad_next c = Some d \<Longrightarrow> d \<in> set padchar"
proof -
  assume a: "pad_next c = Some d"
  have "d \<in> set xs" if "(case xs of _ # d # _ \<Rightarrow> Some d | _ \<Rightarrow> None) = Some d" for xs :: string
    using that by (cases xs rule: remdups_adj.cases) simp_all
  from this [OF a [unfolded pad_next_def]] show ?thesis by (rule set_dropWhileD)
qed

lemma next_name_pad: "next_name ds = (ok, ds') \<Longrightarrow> pad_name n ds \<Longrightarrow> pad_name n ds'"
proof (induction ds arbitrary: ok ds' n)
  case (Cons c ds)
  have "padchar ! 0 \<in> set padchar" by (simp add: padchar_facts)
  with Cons.prems pad_next_in Cons.IH [of _ _ "n - 1"] show ?case
    by (cases "next_name ds") (auto simp: pad_name_def split: option.splits)
qed simp

lemma next_name_last: "next_name ds = (False, ds') \<Longrightarrow> Suc (name_val ds) = 62 ^ length ds"
proof (induction ds arbitrary: ds')
  case (Cons c ds)
  then obtain ds1 where "pad_next c = None" "next_name ds = (False, ds1)"
    by (auto split: option.splits prod.splits)
  then show ?case using Cons.IH pad_next_val(2) by fastforce
qed simp

lemma takeWhile_less: "c \<in> set xs \<Longrightarrow> length (takeWhile (\<lambda>d. d \<noteq> c) xs) < length xs"
  by (induction xs) auto

lemma digit_split: "a + 62 * b = c + 62 * d \<Longrightarrow> a < 62 \<Longrightarrow> c < 62 \<Longrightarrow> a = c \<and> b = d" for a b c d :: nat
  by (metis Suc_neq_Zero add_left_cancel mod_less mod_mult_self2 mult_cancel_left numeral_eq_Suc)

lemma pad_val_nth: "c \<in> set padchar \<Longrightarrow> padchar ! pad_val c = c"
proof -
  assume c: "c \<in> set padchar"
  have "length (takeWhile (\<lambda>d. d \<noteq> c) padchar) < length padchar"
    by (rule takeWhile_less [OF c])
  then have "pad_val c = length (takeWhile (\<lambda>d. d \<noteq> c) padchar)" "\<not> padchar ! length (takeWhile (\<lambda>d. d \<noteq> c) padchar) \<noteq> c"
    using nth_length_takeWhile [of "\<lambda>d. d \<noteq> c" padchar] by (simp_all add: pad_val_def padchar_facts)
  then show ?thesis by simp
qed

lemma name_val_inj: "pad_name n v \<Longrightarrow> pad_name n w \<Longrightarrow> name_val v = name_val w \<Longrightarrow> v = w"
proof (induction v arbitrary: n w)
  case (Cons c v)
  then obtain d w' where w: "w = d # w'" by (cases w) (auto simp: pad_name_def)
  have "pad_val c + 62 * name_val v = pad_val d + 62 * name_val w'" using Cons.prems(3) w by simp
  then have e: "pad_val c = pad_val d" "name_val v = name_val w'" using digit_split pad_val_le by blast+
  have "c \<in> set padchar" "d \<in> set padchar" using Cons.prems w by (simp_all add: pad_name_def)
  with e(1) have "c = d" by (metis pad_val_nth)
  moreover have "v = w'" using Cons.IH [OF _ _ e(2), of "length v"] Cons.prems w by (auto simp: pad_name_def)
  ultimately show ?case using w by simp
qed (auto simp: pad_name_def)

lemma view_create: "fresh_ino s \<Longrightarrow> names s p = None \<Longrightarrow> view ((create p s)\<lparr> next_fd := n \<rparr>) = (view s)(p \<mapsto> [])"
  using fresh_inoD [of s] by (auto simp: view_def create_def fun_eq_iff option.map_id split: option.splits)
    (metis fun_upd_other map_option_cong)

text \<open>An attempt opens a file that was not there, or changes nothing.\<close>

lemma try_cases:
  assumes "temp_try True False p s = (a, s1)" "fresh_ino s"
  shows "(\<exists>fd. a = Done fd \<and> 0 \<le> fd \<and> \<not> used s p \<and> view s1 = (view s)(p \<mapsto> []))
    \<or> (\<forall>fd. a \<noteq> Done fd) \<and> view s1 = view s \<and> used s1 = used s \<and> fresh_ino s1"
    "troubles s = [] \<Longrightarrow> (\<forall>fd. a \<noteq> Done fd) \<Longrightarrow> a = Taken \<and> used s p \<and> s1 = s"
proof -
  obtain f s2 where f: "next_fate s = (f, s2)" by force
  obtain fs where fs: "s2 = s\<lparr> troubles := fs \<rparr>" using next_fate_keeps [OF f] by blast
  show "(\<exists>fd. a = Done fd \<and> 0 \<le> fd \<and> \<not> used s p \<and> view s1 = (view s)(p \<mapsto> []))
    \<or> (\<forall>fd. a \<noteq> Done fd) \<and> view s1 = view s \<and> used s1 = used s \<and> fresh_ino s1"
    using assms f fs view_create [of s2 p]
    by (auto simp: temp_try_def used_def split: fate.splits if_split_asm)
  show "a = Taken \<and> used s p \<and> s1 = s" if "troubles s = []" "\<forall>fd. a \<noteq> Done fd"
    using assms that by (auto simp: temp_try_def split: if_split_asm)
qed

lemma temp_loop_safe:
  "temp_loop True False front ds suff s = (r, p, s') \<Longrightarrow> fresh_ino s \<Longrightarrow> pad_name n ds \<Longrightarrow>
    \<exists>ds'. pad_name n ds' \<and> p = front @ ds' @ suff \<and>
      (r = None \<and> view s' = view s \<or> (\<exists>fd. r = Some fd \<and> 0 \<le> fd) \<and> \<not> used s p \<and> view s' = (view s)(p \<mapsto> []))"
proof (induction True False front ds suff s rule: temp_loop.induct)
  case (1 front ds suff s)
  obtain a s1 where a: "temp_try True False (front @ ds @ suff) s = (a, s1)" by force
  from try_cases(1) [OF a "1.prems"(2)] show ?case
  proof
    assume "\<exists>fd. a = Done fd \<and> 0 \<le> fd \<and> \<not> used s (front @ ds @ suff) \<and> view s1 = (view s)(front @ ds @ suff \<mapsto> [])"
    with "1.prems" a show ?thesis by (subst (asm) temp_loop.simps) auto
  next
    assume n: "(\<forall>fd. a \<noteq> Done fd) \<and> view s1 = view s \<and> used s1 = used s \<and> fresh_ino s1"
    obtain ok ds1 where d: "next_name ds = (ok, ds1)" by force
    have p: "pad_name n ds1" by (rule next_name_pad [OF d "1.prems"(3)])
    show ?thesis
    proof (cases "a = Taken \<and> ok")
      case True
      with "1.hyps" [OF a [symmetric] _ d [symmetric]] n p "1.prems"(1) a d show ?thesis by (subst (asm) (2) temp_loop.simps) auto
    next
      case False
      with n "1.prems"(1,3) p a d show ?thesis by (cases a) (auto simp: temp_loop.simps [of True False front ds])
    qed
  qed
qed

lemma temp_loop_all:
  "temp_loop True False front ds suff s = (None, p, s') \<Longrightarrow> fresh_ino s \<Longrightarrow> pad_name n ds \<Longrightarrow> troubles s = [] \<Longrightarrow>
    pad_name n w \<Longrightarrow> name_val ds \<le> name_val w \<Longrightarrow> used s (front @ w @ suff)"
proof (induction True False front ds suff s rule: temp_loop.induct)
  case (1 front ds suff s)
  obtain a s1 where a: "temp_try True False (front @ ds @ suff) s = (a, s1)" by force
  have "a \<noteq> Done fd" for fd using "1.prems"(1) a by (subst (asm) temp_loop.simps) auto
  with try_cases(2) [OF a "1.prems"(2,4)] have t: "a = Taken" "used s (front @ ds @ suff)" "s1 = s" by auto
  obtain ok ds1 where d: "next_name ds = (ok, ds1)" by force
  show ?case
  proof (cases "name_val w = name_val ds")
    case True
    with name_val_inj [OF "1.prems"(5,3)] t(2) show ?thesis by simp
  next
    case False
    have "name_val w < 62 ^ length ds" using name_val_le [of w] "1.prems"(3,5) by (simp add: pad_name_def)
    then have ok: ok using False "1.prems"(6) next_name_last [of ds ds1] d by (cases ok) auto
    then have v: "name_val ds1 = name_val ds + 1" using next_name_val [of ds ds1] d by simp
    have "temp_loop True False front ds1 suff s1 = (None, p, s')"
      using "1.prems"(1) a t(1) d ok by (subst (asm) temp_loop.simps) simp
    from "1.hyps" [OF a [symmetric] t(1) d [symmetric] _ this] show ?thesis
      using ok t(3) "1.prems" next_name_pad [OF d "1.prems"(3)] v False by simp
  qed
qed

interpretation fl: line_source drv_fs_gets "\<lambda>st. NUL \<notin> set (fst st) \<and> snd st = []" fst
proof
  fix st :: stream
  assume "NUL \<notin> set (fst st) \<and> snd st = []" and ne: "fst st \<noteq> []"
  then have st: "NUL \<notin> set (fst st)" "fst st \<noteq> []" "snd st = []" by auto
  have "set (take_line n t) \<subseteq> set t" for n t by (induction n t rule: take_line.induct) auto
  then have "NUL \<notin> set (take_line n (fst st))" for n using st(1) by blast
  then have "takeWhile (\<lambda>c. c \<noteq> NUL) (take_line (BUFSZ - 1) (fst st)) = take_line (BUFSZ - 1) (fst st)"
    unfolding takeWhile_eq_all_conv by blast
  moreover have "NUL \<notin> set (drop n (fst st))" for n using st(1) by (meson in_set_dropD)
  ultimately show "\<exists>st'. drv_fs_gets st BUFSZ = (Some (take_line (BUFSZ - 1) (fst st)), st') \<and> (NUL \<notin> set (fst st') \<and> snd st' = []) \<and>
      fst st' = drop (length (take_line (BUFSZ - 1) (fst st))) (fst st)"
    using st(2,3) by (simp add: drv_fs_gets_def fgets_def Let_def) (simp add: BUFSZ_def)
qed (simp add: drv_fs_gets_def fgets_def)

section \<open>Properties\<close>


definition small_fs :: "fate list \<Rightarrow> fsys" where
  "small_fs ts = \<lparr> names = [''a'' \<mapsto> 0, ''conf'' \<mapsto> 1, ''bz.t'' \<mapsto> 0],
     content = (\<lambda>i. if i = 0 then ''jake'' else if i = 1 then [CHR ''k'', CHR 0x09, CHR ''v'', nl] else []),
     bad_from = (\<lambda>_. None), dirs = (\<lambda>d. d = ''/tmp''), next_ino = 2, next_fd = 3, troubles = ts \<rparr>"

lemma small_fresh: "fresh_ino (small_fs ts)"
  by (auto simp: fresh_ino_def small_fs_def ran_def split: if_split_asm)


text \<open>
  C30: whatever troubles there are, \<open>mkstemps\<close>, on a template with something in front of the suffix
  and a fixed part that does not end in \<open>X\<close>, never opens a file that was there: it opens a new empty
  file, whose name is the template with each trailing \<open>X\<close> replaced by a letter or a digit, and changes
  nothing else, or it fails and changes nothing. The loop over the names ends. When no call fails
  and the directory of the template, if it has one, exists, then it fails only when all names from
  the random one on, in the order of the search, are in use; in any other case it may fail although
  names are free.
\<close>

theorem mkstemps_spec:
  assumes "mkstemps rand now (front @ replicate n (CHR ''X'') @ suff) (length suff) s = (fd, p, s')" "fresh_ino s"
    "front = [] \<or> List.last front \<noteq> CHR ''X''" "0 < length front + n"
  shows "(\<exists>ds. pad_name n ds \<and> p = front @ ds @ suff \<and>
      (fd = - 1 \<and> view s' = view s \<or> 0 \<le> fd \<and> \<not> used s p \<and> view s' = (view s)(p \<mapsto> [])))
    \<and> (\<forall>w. troubles s = [] \<longrightarrow> (case temp_dir (rev front) of None \<Rightarrow> True | Some d \<Rightarrow> dirs s d) \<longrightarrow> fd = - 1 \<longrightarrow>
      pad_name n w \<longrightarrow> name_val (random_name (rand (time_seed now)) n) \<le> name_val w \<longrightarrow> used s (front @ w @ suff))"
proof -
  let ?r = "rand (time_seed now)" and ?path = "front @ replicate n (CHR ''X'') @ suff"
  let ?ds = "random_name ?r n"
  obtain ok s1 where d: "(case temp_dir (rev front) of None \<Rightarrow> (True, s) | Some d \<Rightarrow> stat_dir d s) = (ok, s1)" by force
  then have d2: "(case temp_dir (rev front) of None \<Rightarrow> (True, s) | Some d \<Rightarrow> if True \<or> False then stat_dir d s else (True, s)) = (ok, s1)"
    by (simp split: option.splits)
  have e: "(front = [] \<and> n = 0) = False" using assms(4) by auto
  have "rev front = [] \<or> hd (rev front) \<noteq> CHR ''X''" using assms(3) by (auto simp: hd_rev)
  from fill_x_spec [OF this, of ?r 0 n] have "fill_x ?r 0 (replicate n (CHR ''X'') @ rev front) = (rev ?ds, rev front)"
    by (simp add: random_name_def)
  then have g: "gettemp ?r ?path True False (length suff) s
    = (if \<not> ok then (None, front @ ?ds @ suff, s1) else temp_loop True False front ?ds suff s1)"
    using d2 e by (auto simp: gettemp_def Let_def)
  have s1: "view s1 = view s" "used s1 = used s" "fresh_ino s1"
  proof -
    have "\<exists>fs. s1 = s\<lparr> troubles := fs \<rparr>"
    proof (cases "temp_dir (rev front)")
      case None
      with d show ?thesis by (auto intro!: exI [of _ "troubles s"])
    next
      case (Some dir)
      obtain f s2 where f: "next_fate s = (f, s2)" by force
      with d Some have "s1 = s2" by (auto simp: stat_dir_def split: fate.splits)
      with next_fate_keeps [OF f] show ?thesis by blast
    qed
    then show "view s1 = view s" "used s1 = used s" "fresh_ino s1" using assms(2) by auto
  qed
  obtain r where r: "gettemp ?r ?path True False (length suff) s = (r, p, s')" "fd = (case r of None \<Rightarrow> - 1 | Some fd \<Rightarrow> fd)"
    using assms(1) by (auto simp: mkstemps_def split: prod.splits)
  have 1: "\<exists>ds. pad_name n ds \<and> p = front @ ds @ suff \<and>
      (fd = - 1 \<and> view s' = view s \<or> 0 \<le> fd \<and> \<not> used s p \<and> view s' = (view s)(p \<mapsto> []))"
  proof (cases ok)
    case False
    then show ?thesis using g r s1 random_pad by auto
  next
    case True
    with g r(1) have "temp_loop True False front ?ds suff s1 = (r, p, s')" by simp
    from temp_loop_safe [OF this s1(3) random_pad] s1 r(2) show ?thesis by fastforce
  qed
  have 2: "used s (front @ w @ suff)" if t: "troubles s = []" "case temp_dir (rev front) of None \<Rightarrow> True | Some d \<Rightarrow> dirs s d" "fd = - 1"
    "pad_name n w" "name_val ?ds \<le> name_val w" for w
  proof -
    have "ok \<and> s1 = s" using d t(1,2) by (auto simp: stat_dir_def split: option.splits)
    then have l: "temp_loop True False front ?ds suff s = (r, p, s')" using g r(1) by simp
    have "r = None" using temp_loop_safe [OF l assms(2) random_pad] r(2) t(3) by auto
    from temp_loop_all [OF l [unfolded this] assms(2) random_pad t(1,4,5)] show ?thesis .
  qed
  from 1 2 show ?thesis by blast
qed

theorem mkstemps_spec_witness:
  "\<exists>fd s'. mkstemps (\<lambda>_ _. 60) [1] ''bX.t'' 2 (small_fs [Fail EEXIST]) = (fd, ''b0.t'', s') \<and> fd = - 1 \<and> view s' = view (small_fs [])"
proof -
  obtain fd p s' where r: "mkstemps (\<lambda>_ _. 60) [1] (''b'' @ replicate 1 (CHR ''X'') @ ''.t'') (length ''.t'') (small_fs [Fail EEXIST]) = (fd, p, s')"
    by (metis prod_cases3)
  have e: "fd = - 1" "p = ''b0.t''"
    using r by (simp_all add: mkstemps_def gettemp_def Let_def small_fs_def temp_loop.simps temp_try_def next_fate_def padchar_def
      EEXIST_def pad_next_def used_def split: if_split_asm)
  have "view s' = view (small_fs [Fail EEXIST])"
    using mkstemps_spec [OF r small_fresh] e(1) by auto
  moreover have "view (small_fs [Fail EEXIST]) = view (small_fs [])" by (simp add: view_def small_fs_def fun_eq_iff)
  ultimately show ?thesis using r e by (simp add: numeral_2_eq_2)
qed

text \<open>The variables that the shell prints for a configuration file, one to a line, and whose line starts with the prefix, are set in the
  environment, later ones win, and no other variable changes. Lines must be shorter than the buffer.\<close>

theorem u_env_init_spec:
  assumes "troubles s = []" "used s f" "length f < 1003" "list_all wf_var vars" "NUL \<notin> set prefix" "nl \<notin> set prefix"
    "shell (''. '' @ f @ '' 2>/dev/null && env'') = env_text vars"
  shows "u_env_init shell (Some prefix) (Some f) (env, s)
    = Inr (rc_ok, env ++ (map_option Env_text \<circ> map_of (rev (selected prefix vars))), s)"
  using assms env_loop_vars [OF assms(4,1,5,6), of env]
  by (auto simp: u_env_init_def failed_def used_def u_snprintf_def set_vars_map)

theorem u_env_init_spec_witness:
  "u_env_init (\<lambda>_. env_text [(''PFX_A'', ''1''), (''B'', ''2''), (''PFX_A'', ''3'')]) (Some ''PFX_'') (Some ''conf'') (\<lambda>_. None, small_fs [])
    = Inr (rc_ok, [''PFX_A'' \<mapsto> Env_text ''3''], small_fs [])"
proof -
  have w: "list_all wf_var [(''PFX_A'', ''1''), (''B'', ''2''), (''PFX_A'', ''3'')]" by code_simp
  have u: "used (small_fs []) ''conf''" "troubles (small_fs []) = []" by (simp_all add: used_def small_fs_def)
  have "u_env_init (\<lambda>_. env_text [(''PFX_A'', ''1''), (''B'', ''2''), (''PFX_A'', ''3'')]) (Some ''PFX_'') (Some ''conf'') (\<lambda>_. None, small_fs [])
    = Inr (rc_ok, (\<lambda>_. None) ++ (map_option Env_text \<circ> map_of (rev (selected ''PFX_'' [(''PFX_A'', ''1''), (''B'', ''2''), (''PFX_A'', ''3'')]))), small_fs [])"
    by (rule u_env_init_spec [OF u(2,1) _ w]) simp_all
  then show ?thesis by (simp add: selected_def var_line_def fun_eq_iff map_add_def)
qed

text \<open>
  C31: a configuration in which every key is a non-empty word of plain characters that is neither
  \<open>include\<close> nor \<open>-include\<close>, and every node has either subkeys and no
  value, or a non-empty value without comment signs, line ends, variables and outer blanks and no
  subkeys (\<open>wf_config\<close>), and whose printed lines fit the buffer of the parser: a
  readable file that holds the printed text, loaded through the driver for files with calls that do
  not fail, gives the same configuration. Other configurations are not covered.
\<close>

theorem u_config_file_roundtrip:
  assumes "list_all wf_config ks" "print_fits ks" "names s f = Some i" "bad_from s i = None" "troubles s = []"
    "content s i = u_config_print_to_fp False (Config None None ks) 0"
  shows "u_config_load_from_file (length (content s i) + 2) True null (u_config_drv_fs s) (Some f) = Inr (rc_ok, Some (Config None None ks))"
proof -
  let ?t = "content s i"
  note tx = root_text(2) [OF assms(1), folded assms(6)]
  obtain st where "load_loop (length ?t + 2) True (u_config_drv_fs s) drv_fs_gets False (Config None None []) [] (?t, []) []
      = Inr (rc_ok, Config None None ks, st)" "snd st = []"
    using fl.load_printed [OF blank_layouts(2) _ _ assms(1), of "(?t, [])" 1] layouts_NUL [OF blank_layouts(2) assms(1)] assms(2)
    unfolding print_fits_def tx by fastforce
  moreover have "drv_fs_open s f = Some (?t, [])" using assms(3-5) by (simp add: drv_fs_open_def readable_def)
  ultimately show ?thesis using assms(5)
    by (simp add: u_config_load_from_file_def u_config_load_from_drv_def u_config_drv_fs_def u_config_create_def
      u_config_do_load_drv_def drv_fs_close_def)
qed

theorem u_config_file_roundtrip_witness:
  "u_config_load_from_file 6 True ([], []) (u_config_drv_fs (small_fs [])) (Some ''conf'')
    = Inr (rc_ok, Some (Config None None [Config (Some ''k'') (Some ''v'') []]))"
proof -
  have w: "list_all wf_config [Config (Some ''k'') (Some ''v'') []]" "print_fits [Config (Some ''k'') (Some ''v'') []]"
    "content (small_fs []) 1 = u_config_print_to_fp False (Config None None [Config (Some ''k'') (Some ''v'') []]) 0" by code_simp+
  have f: "names (small_fs []) ''conf'' = Some 1" "bad_from (small_fs []) 1 = None" "troubles (small_fs []) = []"
    "length (content (small_fs []) 1) + 2 = 6" by (simp_all add: small_fs_def)
  show ?thesis using u_config_file_roundtrip [OF w(1,2) f(1-3) w(3), of "([], [])"] f(4) by simp
qed



text \<open>
  A write of a part of the bytes gives a short copy and success. When one of the streams of a small
  file cannot be closed, it is closed a second time.
\<close>

theorem u_copy_short_write:
  assumes "troubles s = [Fine, Fine, Fine, Part k]" "fresh_ino s" "names s p = Some i" "bad_from s i = None"
    "names s q = None" "\<not> dirs s q" "content s i \<noteq> []" "length (content s i) \<le> 4096" "0 < k"
  shows "\<exists>s'. u_copy (Some p) (Some q) s = Inr (rc_ok, s') \<and> view s' q = Some (take k (content s i))"
proof -
  have i: "i \<noteq> next_ino s" using fresh_inoD [OF assms(2), of p] assms(3) by auto
  have "min k (length (content s i)) \<noteq> 0" "take (min k (length (content s i))) (content s i) = take k (content s i)"
    using assms(7,9) by (simp_all add: min_def)
  with assms i show ?thesis
    by (simp add: u_copy_def fopen_r_def fopen_w_def next_fate_def create_def copy_loop.simps fread_def fwrite_def
        fclose_def moved_def readable_def view_def Let_def)
qed

theorem u_copy_close_error:
  assumes "troubles s = replicate n Fine @ [Fail e]" "n = 5 \<or> n = 6" "fresh_ino s" "names s p = Some i"
    "bad_from s i = None" "names s q = None" "\<not> dirs s q" "content s i \<noteq> []" "length (content s i) \<le> 4096"
  shows "u_copy (Some p) (Some q) s = Inl Use_after_free"
proof -
  have i: "i \<noteq> next_ino s" using fresh_inoD [OF assms(3), of p] assms(4) by auto
  have "replicate 5 Fine = [Fine, Fine, Fine, Fine, Fine]" "replicate 6 Fine = [Fine, Fine, Fine, Fine, Fine, Fine]"
    by (simp_all add: numeral_eq_Suc)
  with assms i show ?thesis
    by (auto simp: u_copy_def fopen_r_def fopen_w_def next_fate_def create_def copy_loop.simps fread_def fwrite_def
        fclose_def moved_def readable_def Let_def)
qed

text \<open>
  \<open>timegm\<close> leaves a variable behind whose text is in a stack frame that is gone, or sets one that was
  not there; no other variable changes.
\<close>

theorem timegm_spec:
  "timegm mktime tm env =
     (case env ''TZ'' of
        None \<Rightarrow> Inr (mktime (Some ''UTC'') tm, env(''TZ'' \<mapsto> Env_text []))
      | Some (Env_text t) \<Rightarrow> Inr (mktime (Some ''UTC'') tm, env(''TZ'' \<mapsto> Env_dangling))
      | Some Env_dangling \<Rightarrow> Inl Use_after_free)"
  by (simp add: timegm_def getenv_def split: option.split env_val.split)

end
