(* ===== verification/Ulog.thy ===== *)
theory Ulog
  imports Cstr
begin

unbundle bit_operations_syntax

text \<open>
  Logging, \<open>srcs/toolbox/log.c\<close>: the hook and the locking functions of the user, messages to the hook or to
  \<open>syslog\<close>, and messages to the console. The functions of the user are named by numbers; what is
  called is a list of events in the state, and \<open>clobber\<close> tells what a call makes of \<open>errno\<close>. A message is
  given as the text that its format makes.
\<close>

section \<open>State\<close>

datatype event = Ev_lock nat | Ev_unlock nat | Ev_hook nat int string | Ev_syslog int string | Ev_stderr string

record ulog =
  hook :: "nat option"
  f_lock :: "nat option"
  f_unlock :: "nat option"
  log_errno :: int
  events :: "event list"

type_synonym clobber = "event \<Rightarrow> int \<Rightarrow> int"

definition emit :: "clobber \<Rightarrow> event \<Rightarrow> ulog \<Rightarrow> ulog" where
  "emit cl ev s = s\<lparr> events := events s @ [ev], log_errno := cl ev (log_errno s) \<rparr>"

definition U_MAX_LOG_LENGTH :: nat where "U_MAX_LOG_LENGTH = 1024"
definition STRERR_BUFSZ :: nat where "STRERR_BUFSZ = 128"
definition LOG_WRITE_FLAG_CTX :: "32 word" where "LOG_WRITE_FLAG_CTX = 1"
definition LOG_WARNING :: int where "LOG_WARNING = 4"

section \<open>Hook and locks\<close>

definition u_log_set_lock :: "nat option \<Rightarrow> ulog \<Rightarrow> int \<times> ulog" where
  "u_log_set_lock f s = (0, s\<lparr> f_lock := f \<rparr>)"

definition u_log_set_unlock :: "nat option \<Rightarrow> ulog \<Rightarrow> int \<times> ulog" where
  "u_log_set_unlock f s = (0, s\<lparr> f_unlock := f \<rparr>)"

definition u_log_lock :: "clobber \<Rightarrow> ulog \<Rightarrow> ulog" where
  "u_log_lock cl s = (case f_lock s of None \<Rightarrow> s | Some f \<Rightarrow> emit cl (Ev_lock f) s)"

definition u_log_unlock :: "clobber \<Rightarrow> ulog \<Rightarrow> ulog" where
  "u_log_unlock cl s = (case f_unlock s of None \<Rightarrow> s | Some f \<Rightarrow> emit cl (Ev_unlock f) s)"

text \<open>The old hook is given back.\<close>

definition u_log_set_hook :: "clobber \<Rightarrow> nat option \<Rightarrow> ulog \<Rightarrow> int \<times> nat option \<times> ulog" where
  "u_log_set_hook cl f s =
     (let s1 = u_log_lock cl s in (0, hook s1, u_log_unlock cl (s1\<lparr> hook := f \<rparr>)))"

section \<open>Messages\<close>

definition label_text :: "int \<Rightarrow> string option" where
  "label_text lev =
     (if lev = 7 then Some ''dbg'' else if lev = 6 then Some ''inf'' else if lev = 5 then Some ''ntc''
      else if lev = 4 then Some ''wrn'' else if lev = 3 then Some ''err'' else if lev = 2 then Some ''crt''
      else if lev = 1 then Some ''alr'' else if lev = 0 then Some ''emg'' else None)"

definition u_log_label :: "clobber \<Rightarrow> nat \<Rightarrow> int \<Rightarrow> ulog \<Rightarrow> string \<times> ulog" where
  "u_log_label cl pid lev s =
     (case label_text lev of Some t \<Rightarrow> (t, s)
      | None \<Rightarrow> (''unk'', emit cl (Ev_syslog LOG_WARNING (''[wrn]['' @ decimal pid @ '':::] unknown log level: '' @ decimal_int lev)) s))"

definition u_log :: "clobber \<Rightarrow> int \<Rightarrow> int \<Rightarrow> string \<Rightarrow> ulog \<Rightarrow> int \<times> ulog" where
  "u_log cl fac level tx s =
     (let s1 = u_log_lock cl s in
      case hook s1 of
        Some h \<Rightarrow>
          if length tx > U_MAX_LOG_LENGTH then (- 1, u_log_unlock cl s1)
          else (0, u_log_unlock cl (emit cl (Ev_hook h level (take (U_MAX_LOG_LENGTH - 1) tx)) s1))
      | None \<Rightarrow> (0, u_log_unlock cl (emit cl (Ev_syslog (fac OR level) tx) s1)))"

text \<open>What \<open>strerror_r\<close> does: the variant of POSIX, and the one that returns the text.\<close>

datatype strerror_res = Se_ok string | Se_fail | Se_ptr string

definition u_strerror_r :: "(int \<Rightarrow> strerror_res) \<Rightarrow> int \<Rightarrow> string \<Rightarrow> nat \<Rightarrow> int \<times> string" where
  "u_strerror_r strerror_r en msg sz =
     (case strerror_r en of
        Se_ok t \<Rightarrow> (0, fst (strlcpy msg (take 255 t) sz))
      | Se_fail \<Rightarrow> (- 1, msg)
      | Se_ptr t \<Rightarrow> (0, fst (strlcpy msg t sz)))"

definition errno_text :: "(int \<Rightarrow> strerror_res) \<Rightarrow> int \<Rightarrow> string" where
  "errno_text strerror_r err =
     (if err = 0 then []
      else take (STRERR_BUFSZ - 1) (''[errno: '' @ decimal_int err @ '', '' @ snd (u_strerror_r strerror_r err [] STRERR_BUFSZ) @ '']''))"

definition u_log_write_ex ::
  "clobber \<Rightarrow> (int \<Rightarrow> strerror_res) \<Rightarrow> nat \<Rightarrow> int \<Rightarrow> int \<Rightarrow> 32 word \<Rightarrow> int \<Rightarrow> string \<Rightarrow> int \<Rightarrow> string \<Rightarrow> string \<Rightarrow> ulog \<Rightarrow> int \<times> ulog" where
  "u_log_write_ex cl strerror_r pid fac lev flags err file line func msg s =
     (let savederr = log_errno s in
      if length msg \<ge> U_MAX_LOG_LENGTH then (- 1, s\<lparr> log_errno := savederr \<rparr>)
      else
        (case u_log_label cl pid lev s of (lab, s1) \<Rightarrow>
           (let errmsg = errno_text strerror_r err;
                ctx = (if flags AND LOG_WRITE_FLAG_CTX \<noteq> 0
                       then ''['' @ lab @ '']['' @ decimal pid @ '':'' @ file @ '':'' @ decimal_int line @ '':'' @ func @ ''] ''
                       else ''['' @ lab @ '']['' @ decimal pid @ '':::] '')
            in (0, (snd (u_log cl fac lev (ctx @ msg @ '' '' @ errmsg) s1))\<lparr> log_errno := savederr \<rparr>))))"

text \<open>The console: \<open>ok\<close> tells whether the message itself could be written.\<close>

definition u_console_write_ex :: "clobber \<Rightarrow> (int \<Rightarrow> strerror_res) \<Rightarrow> bool \<Rightarrow> int \<Rightarrow> string \<Rightarrow> ulog \<Rightarrow> int \<times> ulog" where
  "u_console_write_ex cl strerror_r ok err msg s =
     (let savederr = log_errno s in
      if \<not> ok then (- 1, s\<lparr> log_errno := savederr \<rparr>)
      else
        (let s1 = emit cl (Ev_stderr msg) s;
             s2 = emit cl (Ev_stderr (if err \<noteq> 0 then '' '' @ errno_text strerror_r err @ [CHR 0x0A] else [CHR 0x0A])) s1
         in (0, s2\<lparr> log_errno := savederr \<rparr>)))"

section \<open>Properties\<close>

definition locking :: "ulog \<Rightarrow> event list" where
  "locking s = (case f_lock s of None \<Rightarrow> [] | Some f \<Rightarrow> [Ev_lock f])"

definition unlocking :: "ulog \<Rightarrow> event list" where
  "unlocking s = (case f_unlock s of None \<Rightarrow> [] | Some f \<Rightarrow> [Ev_unlock f])"

text \<open>
  The text of a message: the level, the process with the position in the source when that is asked
  for, the message and the description of the error number.
\<close>

definition label :: "int \<Rightarrow> string" where
  "label lev = (case label_text lev of None \<Rightarrow> ''unk'' | Some t \<Rightarrow> t)"

definition log_text ::
  "(int \<Rightarrow> strerror_res) \<Rightarrow> nat \<Rightarrow> int \<Rightarrow> bool \<Rightarrow> int \<Rightarrow> string \<Rightarrow> int \<Rightarrow> string \<Rightarrow> string \<Rightarrow> string" where
  "log_text strerror_r pid lev with_ctx err file line func msg =
     ''['' @ label lev @ '']['' @ decimal pid
     @ (if with_ctx then '':'' @ file @ '':'' @ decimal_int line @ '':'' @ func else '':::'')
     @ ''] '' @ msg @ '' '' @ errno_text strerror_r err"

text \<open>The output before the lock, and the one between the lock and the unlock.\<close>

definition complaint :: "nat \<Rightarrow> int \<Rightarrow> event list" where
  "complaint pid lev =
     (if label_text lev = None
      then [Ev_syslog LOG_WARNING (''[wrn]['' @ decimal pid @ '':::] unknown log level: '' @ decimal_int lev)]
      else [])"

definition log_output :: "ulog \<Rightarrow> int \<Rightarrow> int \<Rightarrow> string \<Rightarrow> event list" where
  "log_output s fac lev tx =
     (case hook s of
        None \<Rightarrow> [Ev_syslog (fac OR lev) tx]
      | Some h \<Rightarrow> if length tx \<le> U_MAX_LOG_LENGTH then [Ev_hook h lev (take (U_MAX_LOG_LENGTH - 1) tx)] else [])"

lemma emit_simps [simp]: "hook (emit cl e s) = hook s" "f_lock (emit cl e s) = f_lock s" "f_unlock (emit cl e s) = f_unlock s"
    "events (emit cl e s) = events s @ [e]"
  by (simp_all add: emit_def)

lemma lock_simps [simp]: "hook (u_log_lock cl s) = hook s" "f_lock (u_log_lock cl s) = f_lock s" "f_unlock (u_log_lock cl s) = f_unlock s"
    "events (u_log_lock cl s) = events s @ locking s"
  by (simp_all add: u_log_lock_def locking_def split: option.splits)

lemma unlock_simps [simp]: "hook (u_log_unlock cl s) = hook s" "f_lock (u_log_unlock cl s) = f_lock s" "f_unlock (u_log_unlock cl s) = f_unlock s"
    "events (u_log_unlock cl s) = events s @ unlocking s"
  by (simp_all add: u_log_unlock_def unlocking_def split: option.splits)

lemma log_frame:
  "hook (snd (u_log cl fac lev tx s)) = hook s \<and> f_lock (snd (u_log cl fac lev tx s)) = f_lock s \<and> f_unlock (snd (u_log cl fac lev tx s)) = f_unlock s"
  by (simp add: u_log_def Let_def split: option.splits)

lemma log_events:
  "events (snd (u_log cl fac lev tx s)) = events s @ locking s @ log_output s fac lev tx @ unlocking s"
proof -
  have u: "unlocking (emit cl e s1) = unlocking s1" "unlocking (u_log_lock cl s) = unlocking s" for e s1
    by (simp_all add: unlocking_def)
  show ?thesis
    by (cases "hook s") (auto simp: u_log_def Let_def u log_output_def)
qed

lemma label_ok:
  "u_log_label cl pid lev s = (lab, s1) \<Longrightarrow> lab = label lev \<and> events s1 = events s @ complaint pid lev
    \<and> hook s1 = hook s \<and> f_lock s1 = f_lock s \<and> f_unlock s1 = f_unlock s"
  by (auto simp: u_log_label_def label_def complaint_def split: option.splits)

text \<open>
  C32: writing a message never changes \<open>errno\<close>, whatever the hook, the locks and the system do to it,
  and never changes the hook or the locks. A message of 1024 characters or more calls nothing and
  gives an error. Any other message returns 0, and what is called is exactly: for an unknown level
  a complaint to the system log, before the lock; the lock; one output or none; the unlock. Without
  a hook the output is the whole text, to the system log with the facility and the level. With a
  hook it is a call of the hook with the level and the text cut at 1023 characters when the text
  with its context has at most 1024 characters, and nothing, with the return code 0 all the same,
  when it is longer.
\<close>
theorem u_log_write_ex_spec:
  "\<exists>s'. u_log_write_ex cl strerror_r pid fac lev flags err file line func msg s
      = (if U_MAX_LOG_LENGTH \<le> length msg then - 1 else 0, s')
    \<and> log_errno s' = log_errno s \<and> hook s' = hook s \<and> f_lock s' = f_lock s \<and> f_unlock s' = f_unlock s
    \<and> events s' = events s @
       (if U_MAX_LOG_LENGTH \<le> length msg then []
        else complaint pid lev @ locking s
          @ log_output s fac lev
              (log_text strerror_r pid lev (flags AND LOG_WRITE_FLAG_CTX \<noteq> 0) err file line func msg)
          @ unlocking s)"
proof (cases "length msg \<ge> U_MAX_LOG_LENGTH")
  case True
  then show ?thesis by (simp add: u_log_write_ex_def)
next
  case False
  obtain lab s1 where l: "u_log_label cl pid lev s = (lab, s1)" by force
  note lab = label_ok [OF l]
  define tx where
    "tx = log_text strerror_r pid lev (flags AND LOG_WRITE_FLAG_CTX \<noteq> 0) err file line func msg"
  have eq: "locking s1 = locking s" "unlocking s1 = unlocking s" "log_output s1 = log_output s"
    using lab by (simp_all add: locking_def unlocking_def log_output_def fun_eq_iff)
  have "u_log_write_ex cl strerror_r pid fac lev flags err file line func msg s
      = (0, (snd (u_log cl fac lev tx s1))\<lparr> log_errno := log_errno s \<rparr>)"
    using False l lab by (simp add: u_log_write_ex_def Let_def tx_def log_text_def)
  with log_events [of cl fac lev tx s1] log_frame [of cl fac lev tx s1] lab False show ?thesis
    by (simp add: eq tx_def)
qed

end
